(* ===== verification/Rt_Prelude.thy ===== *)
theory Rt_Prelude
  imports Main "HOL-Library.Word"
begin

unbundle bit_operations_syntax

text \<open>
  Shared ground of the development: the machine types of the 32-bit build, the result type of
  operations that may fail an \<open>RT_ASSERT\<close> or dereference a null pointer, the alignment macros of
  \<open>rtdef.h\<close>, the byte copy \<open>rt_memcpy\<close> on a buffer, and generic lemmas on lists and words that
  several components use. The collection \<open>rt_simps\<close> gathers definitions that are unfolded
  together; \<open>wf_simps\<close> the well-formedness predicates.
\<close>

named_theorems rt_simps
named_theorems wf_simps

subsection \<open>Machine types and configuration\<close>

type_synonym u8 = "8 word"
type_synonym u16 = "16 word"
type_synonym u32 = "32 word"

text \<open>
  \<open>RT_ALIGN_SIZE\<close> of \<open>rtconfig.h\<close> is 64 in this build.
  \<open>RT_ALIGN\<close> and \<open>RT_ALIGN_DOWN\<close> of \<open>rtdef.h\<close>, on words of any width, with the mask written out
  as the macros have it.
\<close>

definition RT_ALIGN :: "'a::len word \<Rightarrow> 'a word \<Rightarrow> 'a word" where
  "RT_ALIGN sz align = (sz + align - 1) AND NOT (align - 1)"

definition RT_ALIGN_DOWN :: "'a::len word \<Rightarrow> 'a word \<Rightarrow> 'a word" where
  "RT_ALIGN_DOWN sz align = sz AND NOT (align - 1)"

subsection \<open>Faults\<close>

text \<open>
  \<open>RT_DEBUG\<close> is defined in this build, so a failed \<open>RT_ASSERT\<close> calls \<open>rt_assert_handler\<close>, which
  does not return. A fault ends the operation; it is the left injection of a sum. \<open>StackOverflow\<close>
  stands for the endless loop of \<open>_scheduler_stack_check\<close>, \<open>Hang\<close> for a loop that repeats without
  changing anything.
\<close>

datatype fault = AssertFail | NullDeref | OutOfBounds | StackOverflow | Hang | DivByZero

type_synonym 'a res = "fault + 'a"

fun and_then :: "'a res \<Rightarrow> ('a \<Rightarrow> 'b res) \<Rightarrow> 'b res" where
  "and_then (Inl e) f = Inl e"
| "and_then (Inr x) f = f x"

definition rt_assert :: "bool \<Rightarrow> 'a res \<Rightarrow> 'a res" where
  "rt_assert b r = (if b then r else Inl AssertFail)"

lemma and_then_Inr_iff [simp]: "and_then r f = Inr y \<longleftrightarrow> (\<exists>x. r = Inr x \<and> f x = Inr y)"
  by (cases r) auto

lemma and_then_assoc: "and_then (and_then r f) g = and_then r (\<lambda>x. and_then (f x) g)"
  by (cases r) auto

lemma rt_assert_True [simp]: "b \<Longrightarrow> rt_assert b r = r"
  by (simp add: rt_assert_def)

lemma rt_assert_False [simp]: "\<not> b \<Longrightarrow> rt_assert b r = Inl AssertFail"
  by (simp add: rt_assert_def)

lemma rt_assert_Inr_iff [simp]: "rt_assert b r = Inr y \<longleftrightarrow> b \<and> r = Inr y"
  by (simp add: rt_assert_def)

subsection \<open>Words\<close>

lemma uint_of_int_small [simp]:
  "0 \<le> i \<Longrightarrow> i < 2 ^ LENGTH('a) \<Longrightarrow> uint (word_of_int i :: 'a::len word) = i"
  by (simp add: uint_word_of_int_eq take_bit_int_eq_self)

lemma unat_of_int_small [simp]:
  "0 \<le> i \<Longrightarrow> i < 2 ^ LENGTH('a) \<Longrightarrow> unat (word_of_int i :: 'a::len word) = nat i"
  by (simp add: unat_eq_nat_uint)

lemma sint_of_int_small:
  "- (2 ^ (LENGTH('a) - 1)) \<le> i \<Longrightarrow> i < 2 ^ (LENGTH('a) - 1) \<Longrightarrow>
    sint (word_of_int i :: 'a::len word) = i"
  by (simp add: sint_sbintrunc' signed_take_bit_int_eq_self)

lemma unat_of_nat_small [simp]:
  "n < 2 ^ LENGTH('a) \<Longrightarrow> unat (word_of_nat n :: 'a::len word) = n"
  by (simp add: unsigned_of_nat take_bit_nat_eq_self)

lemma word_of_int_unat: "word_of_int (int (unat w)) = (w :: 'a::len word)"
  by simp

lemma unat_ucast_small [simp]:
  "unat w < 2 ^ LENGTH('b) \<Longrightarrow> unat (ucast (w :: 'a::len word) :: 'b::len word) = unat w"
  by (simp add: unsigned_ucast_eq take_bit_nat_eq_self)

lemma unat_ucast_up:
  "LENGTH('a) \<le> LENGTH('b) \<Longrightarrow> unat (ucast (w :: 'a::len word) :: 'b::len word) = unat w"
  by (rule unat_ucast_small) (metis less_le_trans one_le_numeral power_increasing unsigned_less)

lemma uint_eq_int_unat: "uint w = int (unat w)"
  by simp

lemma sint_nonneg:
  assumes "0 \<le> sint (w :: 'a::len word)"
  shows "sint w = int (unat w)"
proof -
  have "sint w < 2 ^ (LENGTH('a) - 1)" by (rule sint_lt)
  also have "(2::int) ^ (LENGTH('a) - 1) \<le> 2 ^ LENGTH('a)" by (simp add: power_increasing)
  finally have "uint w = sint w"
    using assms by (simp add: uint_sint take_bit_int_eq_self)
  then show ?thesis by simp
qed

lemma sint_small:
  assumes "unat (w :: 'a::len word) < 2 ^ (LENGTH('a) - 1)"
  shows "sint w = int (unat w)"
proof -
  have "int (unat w) < 2 ^ (LENGTH('a) - 1)"
    using assms by (metis of_nat_less_iff of_nat_numeral of_nat_power)
  moreover have "- (2 ^ (LENGTH('a) - 1)) \<le> int (unat w)"
    by (rule order_trans [of _ 0]) simp_all
  ultimately have "sint (word_of_int (int (unat w)) :: 'a word) = int (unat w)"
    by (intro sint_of_int_small)
  then show ?thesis by (simp only: word_of_int_unat)
qed

text \<open>Counting up below a bound and down above 0 does not wrap.\<close>

lemma unat_inc:
  assumes "(x :: 'a::len word) < y"
  shows "unat (x + 1) = unat x + 1"
proof -
  have "unat x + 1 < 2 ^ LENGTH('a)"
    using assms unsigned_less [of y, where 'a = nat] unfolding word_less_nat_alt by linarith
  then have "unat (word_of_nat (unat x + 1) :: 'a word) = unat x + 1" by (intro unat_of_nat_small)
  then show ?thesis by (simp add: add.commute)
qed

lemma unat_dec: "0 < (x :: 'a::len word) \<Longrightarrow> unat (x - 1) + 1 = unat x"
  by (metis Suc_eq_plus1 Suc_pred' unat_gt_0 unat_minus_one word_gt_0)

text \<open>The next and the previous index of a circular buffer.\<close>

lemma unat_next_index:
  assumes "(i :: 'a::len word) < n"
  shows "unat (if n \<le> i + 1 then 0 else i + 1) = (unat i + 1) mod unat n"
proof -
  have u: "unat (i + 1) = unat i + 1" by (rule unat_inc [OF assms])
  have "unat i < unat n" using assms by (simp add: word_less_nat_alt)
  then show ?thesis using u by (cases "unat n = unat i + 1") (auto simp: word_le_nat_alt)
qed

lemma unat_prev_index:
  assumes "(i :: 'a::len word) < n"
  shows "unat (if 0 < i then i - 1 else n - 1) < unat n" "(unat (if 0 < i then i - 1 else n - 1) + 1) mod unat n = unat i"
proof -
  have n: "0 < n" using assms by (metis word_gt_0 word_not_simps(1))
  have i: "unat i < unat n" using assms by (simp add: word_less_nat_alt)
  show "unat (if 0 < i then i - 1 else n - 1) < unat n" using unat_dec [of i] unat_dec [OF n] i by auto
  show "(unat (if 0 < i then i - 1 else n - 1) + 1) mod unat n = unat i"
  proof (cases "0 < i")
    case True
    then show ?thesis using unat_dec [OF True] i by simp
  next
    case False
    then have "i = 0" by (simp add: word_gt_0)
    then show ?thesis using unat_dec [OF n] by simp
  qed
qed

lemma and_not_mask_word: "w AND NOT (mask n) = push_bit n (drop_bit n (w :: 'a::len word))"
  by (rule bit_eqI) (auto simp: bit_simps)

lemma unat_and_not_mask: "unat (w AND NOT (mask n)) = unat (w :: 'a::len word) div 2 ^ n * 2 ^ n"
proof -
  have "unat (push_bit n (drop_bit n w)) = take_bit LENGTH('a) (unat w div 2 ^ n * 2 ^ n)"
    by (simp only: unsigned_push_bit_eq unsigned_drop_bit_eq)
       (simp add: push_bit_eq_mult drop_bit_eq_div take_bit_nat_eq_self)
  moreover have "unat w div 2 ^ n * 2 ^ n < 2 ^ LENGTH('a)"
    using unsigned_less [of w] div_times_less_eq_dividend le_less_trans by blast
  ultimately show ?thesis by (simp add: and_not_mask_word take_bit_nat_eq_self)
qed

lemma unat_RT_ALIGN_DOWN_64: "unat (RT_ALIGN_DOWN w 64) = unat (w :: 'a::len word) div 64 * 64"
  using unat_and_not_mask [of w 6] by (simp add: RT_ALIGN_DOWN_def mask_eq_exp_minus_1)

lemma unat_RT_ALIGN_64:
  assumes "unat (w :: 'a::len word) + 63 < 2 ^ LENGTH('a)" "7 \<le> LENGTH('a)"
  shows "unat (RT_ALIGN w 64) = (unat w + 63) div 64 * 64"
proof -
  have "w + 64 - 1 = w + 63" by (simp add: algebra_simps)
  moreover have "unat (w + 63) = unat w + 63"
  proof -
    have "w + 63 = word_of_nat (unat w + 63)" by simp
    then show ?thesis using assms by (metis unat_of_nat_small)
  qed
  ultimately show ?thesis
    using unat_and_not_mask [of "w + 63" 6] by (simp add: RT_ALIGN_def mask_eq_exp_minus_1 add.commute)
qed

lemma RT_ALIGN_64_bounds:
  assumes "unat (w :: 32 word) \<le> 2 ^ 32 - 64"
  shows "unat w \<le> unat (RT_ALIGN w 64)" "unat (RT_ALIGN w 64) < unat w + 64"
proof -
  have "unat (RT_ALIGN w 64) = (unat w + 63) div 64 * 64" using assms by (intro unat_RT_ALIGN_64) auto
  moreover have "(unat w + 63) div 64 * 64 + (unat w + 63) mod 64 = unat w + 63" by (rule div_mult_mod_eq)
  moreover have "(unat w + 63) mod 64 < 64" by simp
  ultimately show "unat w \<le> unat (RT_ALIGN w 64)" "unat (RT_ALIGN w 64) < unat w + 64" by linarith+
qed

subsection \<open>Byte buffers\<close>

text \<open>
  \<open>rt_memcpy(&dst[doff], &src[soff], n)\<close>: \<open>n\<close> elements of \<open>src\<close> from \<open>soff\<close> on replace those of
  \<open>dst\<close> from \<open>doff\<close> on.
\<close>

definition memcpy :: "'a list \<Rightarrow> nat \<Rightarrow> 'a list \<Rightarrow> nat \<Rightarrow> nat \<Rightarrow> 'a list" where
  "memcpy dst doff src soff n = take doff dst @ take n (drop soff src) @ drop (doff + n) dst"

lemma length_memcpy [simp]:
  "doff + n \<le> length dst \<Longrightarrow> soff + n \<le> length src \<Longrightarrow> length (memcpy dst doff src soff n) = length dst"
  by (simp add: memcpy_def)

lemma nth_memcpy:
  "doff + n \<le> length dst \<Longrightarrow> soff + n \<le> length src \<Longrightarrow> j < length dst \<Longrightarrow>
    memcpy dst doff src soff n ! j
      = (if doff \<le> j \<and> j < doff + n then src ! (soff + (j - doff)) else dst ! j)"
  by (auto simp: memcpy_def nth_append min_absorb1 min_absorb2)

lemma take_memcpy:
  assumes "doff + n \<le> m" "m \<le> length dst" "soff + n \<le> length src"
  shows "take m (memcpy dst doff src soff n) = memcpy (take m dst) doff src soff n"
  using assms by (intro nth_equalityI) (auto simp: nth_memcpy)

lemma memcpy_0 [simp]: "memcpy dst doff src soff 0 = dst"
  by (simp add: memcpy_def)

subsection \<open>Circular buffers\<close>

text \<open>
  The window of \<open>k\<close> elements that starts at index \<open>r\<close> of the circular buffer \<open>buf\<close>, and the effect
  of writing \<open>n\<close> elements of \<open>xs\<close> from index \<open>w\<close> on, wrapping at the end.
\<close>

definition circ_window :: "'a list \<Rightarrow> nat \<Rightarrow> nat \<Rightarrow> 'a list" where
  "circ_window buf r k = map (\<lambda>i. buf ! ((r + i) mod length buf)) [0..<k]"

definition circ_write :: "'a list \<Rightarrow> nat \<Rightarrow> 'a list \<Rightarrow> nat \<Rightarrow> 'a list" where
  "circ_write buf w xs n = map (\<lambda>j. let d = (j + length buf - w) mod length buf in
      if d < n then xs ! d else buf ! j) [0..<length buf]"

lemma length_circ_window [simp]: "length (circ_window buf r k) = k"
  by (simp add: circ_window_def)

lemma nth_circ_window: "i < k \<Longrightarrow> circ_window buf r k ! i = buf ! ((r + i) mod length buf)"
  by (simp add: circ_window_def)

lemma length_circ_write [simp]: "length (circ_write buf w xs n) = length buf"
  by (simp add: circ_write_def)

lemma nth_circ_write:
  "j < length buf \<Longrightarrow> circ_write buf w xs n ! j
     = (if (j + length buf - w) mod length buf < n
        then xs ! ((j + length buf - w) mod length buf) else buf ! j)"
  by (simp add: circ_write_def Let_def)

lemma circ_dist:
  assumes "j < N" "w < (N::nat)"
  shows "(j + N - w) mod N = (if w \<le> j then j - w else j + N - w)"
proof (cases "w \<le> j")
  case True
  then have "j + N - w = (j - w) + N" by simp
  moreover have "((j - w) + N) mod N = (j - w) mod N" by (rule mod_add_self2)
  moreover have "(j - w) mod N = j - w" using assms by simp
  ultimately show ?thesis using True by metis
next
  case False
  with assms show ?thesis by simp
qed

lemma circ_write_one_chunk:
  assumes "w < length buf" "w + n \<le> length buf" "n \<le> length xs"
  shows "memcpy buf w xs 0 n = circ_write buf w xs n"
  using assms by (intro nth_equalityI) (auto simp: nth_memcpy nth_circ_write circ_dist add.commute)

lemma circ_write_two_chunks:
  assumes "w < length buf" "length buf \<le> w + n" "n \<le> length buf" "n \<le> length xs"
  shows "memcpy (memcpy buf w xs 0 (length buf - w)) 0 xs (length buf - w) (n - (length buf - w))
           = circ_write buf w xs n"
  using assms by (intro nth_equalityI) (auto simp: nth_memcpy nth_circ_write circ_dist add.commute)

lemma circ_window_read_one_chunk:
  assumes "r + n \<le> length buf" "n \<le> k"
  shows "take n (drop r buf) = take n (circ_window buf r k)"
  using assms by (intro nth_equalityI) (auto simp: nth_circ_window)

lemma circ_window_read_two_chunks:
  assumes "r < length buf" "length buf \<le> r + n" "n \<le> length buf" "n \<le> k"
  shows "drop r buf @ take (n - (length buf - r)) buf = take n (circ_window buf r k)"
proof (intro nth_equalityI)
  show "length (drop r buf @ take (n - (length buf - r)) buf) = length (take n (circ_window buf r k))"
    using assms by auto
next
  fix i
  assume "i < length (drop r buf @ take (n - (length buf - r)) buf)"
  then have i: "i < n" using assms by auto
  show "(drop r buf @ take (n - (length buf - r)) buf) ! i = take n (circ_window buf r k) ! i"
  proof (cases "i < length buf - r")
    case True
    with i assms show ?thesis by (simp add: nth_append nth_circ_window)
  next
    case False
    with i assms have "(r + i) mod length buf = r + i - length buf"
      by (simp add: le_mod_geq)
    with False i assms show ?thesis by (simp add: nth_append nth_circ_window add.commute)
  qed
qed

lemma circ_window_drop:
  assumes "n \<le> k"
  shows "drop n (circ_window buf r k) = circ_window buf ((r + n) mod length buf) (k - n)"
  using assms by (intro nth_equalityI) (auto simp: nth_circ_window mod_simps add.assoc)

text \<open>Writing behind the window appends to it; writing over a full window drops its head.\<close>

lemma circ_window_append:
  assumes "r < length buf" "k + n \<le> length buf" "n \<le> length xs"
  shows "circ_window (circ_write buf ((r + k) mod length buf) xs n) r (k + n)
           = circ_window buf r k @ take n xs"
proof (intro nth_equalityI)
  show "length (circ_window (circ_write buf ((r + k) mod length buf) xs n) r (k + n))
      = length (circ_window buf r k @ take n xs)"
    using assms by simp
next
  fix i
  let ?N = "length buf" and ?w = "(r + k) mod length buf"
  assume "i < length (circ_window (circ_write buf ?w xs n) r (k + n))"
  then have i: "i < k + n" by simp
  have N: "0 < ?N" using assms by linarith
  define j where "j = (r + i) mod ?N"
  have j: "j < ?N" using N by (simp add: j_def)
  have dist: "(j + ?N - ?w) mod ?N = (if i < k then ?N + i - k else i - k)"
  proof -
    have w: "?w < ?N" using N by simp
    have w': "?w = (if r + k < ?N then r + k else r + k - ?N)"
      using assms by (simp add: le_mod_geq)
    have j': "j = (if r + i < ?N then r + i else r + i - ?N)"
      using assms i by (simp add: le_mod_geq j_def)
    show ?thesis
      using circ_dist [OF j w] w' j' i assms by (auto split: if_splits)
  qed
  have "circ_window (circ_write buf ?w xs n) r (k + n) ! i = circ_write buf ?w xs n ! j"
    using i by (simp add: nth_circ_window j_def)
  also have "\<dots> = (if i < k then buf ! j else xs ! (i - k))"
    using j i assms by (auto simp: nth_circ_write dist)
  also have "\<dots> = (circ_window buf r k @ take n xs) ! i"
    using i by (auto simp: nth_append nth_circ_window j_def)
  finally show "circ_window (circ_write buf ?w xs n) r (k + n) ! i
      = (circ_window buf r k @ take n xs) ! i" .
qed

lemma circ_window_overwrite:
  assumes "r < length buf" "k \<le> length buf" "n \<le> length buf" "length buf \<le> k + n" "n \<le> length xs"
  shows "circ_window (circ_write buf ((r + k) mod length buf) xs n)
             ((r + k + n) mod length buf) (length buf)
           = drop (k + n - length buf) (circ_window buf r k) @ take n xs"
proof -
  let ?N = "length buf" and ?w = "(r + k) mod length buf"
  let ?d = "k + n - ?N"
  have eq: "drop ?d (circ_window buf r k) = circ_window buf ((r + ?d) mod ?N) (?N - n)"
    using circ_window_drop [of ?d k buf r] assms by simp
  have N: "0 < ?N" using assms by linarith
  have start: "(r + k + n) mod ?N = (r + ?d) mod ?N"
  proof -
    have "r + k + n = (r + ?d) + ?N" using assms by linarith
    then show ?thesis by (metis mod_add_self2)
  qed
  have w: "?w = ((r + ?d) mod ?N + (?N - n)) mod ?N"
  proof -
    have "((r + ?d) mod ?N + (?N - n)) mod ?N = (r + ?d + (?N - n)) mod ?N" by (simp add: mod_simps)
    also have "r + ?d + (?N - n) = r + k" using assms by linarith
    finally show ?thesis by simp
  qed
  have "circ_window (circ_write buf (((r + ?d) mod ?N + (?N - n)) mod ?N) xs n)
          ((r + ?d) mod ?N) ((?N - n) + n)
      = circ_window buf ((r + ?d) mod ?N) (?N - n) @ take n xs"
    by (rule circ_window_append) (use assms N in auto)
  then show ?thesis using eq start w assms by simp
qed

text \<open>One element at a time: behind the window, in front of it, and taken from its front.\<close>

lemma circ_window_snoc:
  assumes "r < length buf" "k < length buf"
  shows "circ_window (buf[(r + k) mod length buf := x]) r (k + 1) = circ_window buf r k @ [x]"
proof -
  let ?w = "(r + k) mod length buf"
  have w: "?w < length buf" using assms by (intro mod_less_divisor) linarith
  have "circ_write buf ?w [x] 1 = buf[?w := x]"
    using w by (intro nth_equalityI) (auto simp: nth_circ_write circ_dist [OF _ w] nth_list_update)
  then show ?thesis using circ_window_append [of r buf k 1 "[x]"] assms by simp
qed

lemma circ_window_Cons:
  assumes "p < length buf" "k < length buf"
  shows "circ_window (buf[p := x]) p (k + 1) = x # circ_window buf ((p + 1) mod length buf) k"
proof (intro nth_equalityI)
  fix i assume "i < length (circ_window (buf[p := x]) p (k + 1))"
  then have i: "i < k + 1" by simp
  show "circ_window (buf[p := x]) p (k + 1) ! i = (x # circ_window buf ((p + 1) mod length buf) k) ! i"
  proof (cases i)
    case 0
    then show ?thesis using assms by (simp add: nth_circ_window)
  next
    case (Suc j)
    have ne: "(p + Suc j) mod length buf \<noteq> p"
      using assms i Suc by (cases "p + Suc j < length buf") (simp_all add: le_mod_geq)
    have "((p + 1) mod length buf + j) mod length buf = (p + Suc j) mod length buf" by (simp add: mod_simps)
    then show ?thesis using i Suc ne by (simp add: nth_circ_window del: upt_Suc)
  qed
qed simp

lemma circ_window_uncons:
  "0 < k \<Longrightarrow> circ_window buf r k = buf ! (r mod length buf) # circ_window buf ((r + 1) mod length buf) (k - 1)"
  by (intro nth_equalityI) (auto simp: nth_circ_window nth_Cons mod_simps split: nat.split)

end
