(* ===== verification/Rt_Fifo.thy ===== *)
theory Rt_Fifo
  imports Rt_Prelude
begin

text \<open>
  The contract that the kernel's buffers share: a bounded first-in-first-out queue. The ring
  buffer of the device drivers, the mailbox and the message queue each provide it on their own
  representation; what follows from the contract is proved once here. A client sees a queue
  through the operations it performs and the answers it gets, so the main fact is that every run
  of operations gives the answers of the abstract queue.
\<close>

datatype 'a qop = Enq 'a | Deq

datatype 'a qans = Accepted | Rejected | Got 'a | Nothing

fun qrun :: "('a \<Rightarrow> 'q \<Rightarrow> 'q option) \<Rightarrow> ('q \<Rightarrow> ('a \<times> 'q) option) \<Rightarrow> 'a qop list \<Rightarrow> 'q \<Rightarrow> 'a qans list" where
  "qrun enq deq [] q = []"
| "qrun enq deq (Enq x # ops) q =
     (case enq x q of None \<Rightarrow> Rejected # qrun enq deq ops q
                    | Some q' \<Rightarrow> Accepted # qrun enq deq ops q')"
| "qrun enq deq (Deq # ops) q =
     (case deq q of None \<Rightarrow> Nothing # qrun enq deq ops q
                  | Some (x, q') \<Rightarrow> Got x # qrun enq deq ops q')"

text \<open>The abstract queue of capacity \<open>n\<close>: a list.\<close>

definition list_enq :: "nat \<Rightarrow> 'a \<Rightarrow> 'a list \<Rightarrow> 'a list option" where
  "list_enq n x xs = (if length xs < n then Some (xs @ [x]) else None)"

fun list_deq :: "'a list \<Rightarrow> ('a \<times> 'a list) option" where
  "list_deq [] = None"
| "list_deq (x # xs) = Some (x, xs)"

fun enq_all :: "('a \<Rightarrow> 'q \<Rightarrow> 'q option) \<Rightarrow> 'a list \<Rightarrow> 'q \<Rightarrow> 'q option" where
  "enq_all enq [] q = Some q"
| "enq_all enq (x # xs) q = (case enq x q of None \<Rightarrow> None | Some q' \<Rightarrow> enq_all enq xs q')"

fun deq_n :: "('q \<Rightarrow> ('a \<times> 'q) option) \<Rightarrow> nat \<Rightarrow> 'q \<Rightarrow> ('a list \<times> 'q) option" where
  "deq_n deq 0 q = Some ([], q)"
| "deq_n deq (Suc n) q =
     (case deq q of None \<Rightarrow> None
      | Some (x, q') \<Rightarrow> map_option (\<lambda>(xs, q''). (x # xs, q'')) (deq_n deq n q'))"

locale bounded_fifo =
  fixes invar :: "'q \<Rightarrow> bool"
    and items :: "'q \<Rightarrow> 'a list"
    and capacity :: "'q \<Rightarrow> nat"
    and enq :: "'a \<Rightarrow> 'q \<Rightarrow> 'q option"
    and deq :: "'q \<Rightarrow> ('a \<times> 'q) option"
  assumes items_bound: "invar q \<Longrightarrow> length (items q) \<le> capacity q"
    and enq_full: "invar q \<Longrightarrow> length (items q) = capacity q \<Longrightarrow> enq x q = None"
    and enq_space: "invar q \<Longrightarrow> length (items q) < capacity q \<Longrightarrow>
        \<exists>q'. enq x q = Some q' \<and> invar q' \<and> items q' = items q @ [x] \<and> capacity q' = capacity q"
    and deq_empty: "invar q \<Longrightarrow> items q = [] \<Longrightarrow> deq q = None"
    and deq_items: "invar q \<Longrightarrow> items q = x # xs \<Longrightarrow>
        \<exists>q'. deq q = Some (x, q') \<and> invar q' \<and> items q' = xs \<and> capacity q' = capacity q"
begin

lemma qrun_list:
  assumes "invar q"
  shows "qrun enq deq ops q = qrun (list_enq (capacity q)) list_deq ops (items q)"
  using assms
proof (induction ops arbitrary: q)
  case Nil
  then show ?case by simp
next
  case (Cons op ops)
  show ?case
  proof (cases op)
    case (Enq x)
    show ?thesis
    proof (cases "length (items q) < capacity q")
      case True
      with enq_space Cons.prems obtain q' where
        "enq x q = Some q'" "invar q'" "items q' = items q @ [x]" "capacity q' = capacity q" by blast
      with Cons.IH True Enq show ?thesis by (simp add: list_enq_def)
    next
      case False
      with items_bound Cons.prems have "enq x q = None" by (metis enq_full le_neq_implies_less)
      with Cons False Enq show ?thesis by (simp add: list_enq_def)
    qed
  next
    case Deq
    show ?thesis
    proof (cases "items q")
      case Nil
      with Cons Deq deq_empty show ?thesis by simp
    next
      case (Cons x xs)
      with deq_items \<open>invar q\<close> obtain q' where
        "deq q = Some (x, q')" "invar q'" "items q' = xs" "capacity q' = capacity q" by blast
      with Cons.IH Cons Deq show ?thesis by simp
    qed
  qed
qed

lemma enq_all_space:
  assumes "invar q" "length (items q) + length xs \<le> capacity q"
  shows "\<exists>q'. enq_all enq xs q = Some q' \<and> invar q' \<and> items q' = items q @ xs \<and> capacity q' = capacity q"
  using assms
proof (induction xs arbitrary: q)
  case Nil
  then show ?case by simp
next
  case (Cons x xs)
  with enq_space obtain q' where
    q': "enq x q = Some q'" "invar q'" "items q' = items q @ [x]" "capacity q' = capacity q"
    by fastforce
  with Cons.IH [of q'] Cons.prems show ?case by auto
qed

lemma deq_n_items:
  assumes "invar q" "n \<le> length (items q)"
  shows "\<exists>q'. deq_n deq n q = Some (take n (items q), q') \<and> invar q' \<and> items q' = drop n (items q)
            \<and> capacity q' = capacity q"
  using assms
proof (induction n arbitrary: q)
  case 0
  then show ?case by simp
next
  case (Suc n)
  then obtain x xs where xs: "items q = x # xs" by (cases "items q") auto
  with deq_items Suc.prems obtain q' where
    q': "deq q = Some (x, q')" "invar q'" "items q' = xs" "capacity q' = capacity q" by blast
  with Suc.IH [of q'] Suc.prems xs show ?case by auto
qed

lemma fifo_order:
  assumes "invar q" "items q = []" "length xs \<le> capacity q"
  shows "\<exists>q' q''. enq_all enq xs q = Some q' \<and> deq_n deq (length xs) q' = Some (xs, q'') \<and> items q'' = []"
proof -
  from assms enq_all_space [of q xs] obtain q' where
    q': "enq_all enq xs q = Some q'" "invar q'" "items q' = xs" by auto
  with deq_n_items [of q' "length xs"] show ?thesis by auto
qed

end

text \<open>
  Mailbox and message queue also accept an urgent element, which is received next: the front of
  the queue is then a stack.
\<close>

locale bounded_deque = bounded_fifo invar items capacity enq deq
  for invar :: "'q \<Rightarrow> bool" and items :: "'q \<Rightarrow> 'a list" and capacity enq deq +
  fixes push :: "'a \<Rightarrow> 'q \<Rightarrow> 'q option"
  assumes push_full: "invar q \<Longrightarrow> length (items q) = capacity q \<Longrightarrow> push x q = None"
    and push_space: "invar q \<Longrightarrow> length (items q) < capacity q \<Longrightarrow>
        \<exists>q'. push x q = Some q' \<and> invar q' \<and> items q' = x # items q \<and> capacity q' = capacity q"
begin

lemma push_deq:
  assumes "invar q" "length (items q) < capacity q"
  shows "\<exists>q' q''. push x q = Some q' \<and> deq q' = Some (x, q'') \<and> invar q'' \<and> items q'' = items q"
proof -
  from push_space [OF assms] obtain q' where
    "push x q = Some q'" "invar q'" "items q' = x # items q" by blast
  with deq_items [of q' x "items q"] show ?thesis by auto
qed

end

end
