(* ===== verification/Rt_Ringbuffer.thy ===== *)
theory Rt_Ringbuffer
  imports Rt_Fifo
begin

unbundle bit_operations_syntax

text \<open>
  The mirrored ring buffer of \<open>components/drivers/ipc/ringbuffer.c\<close>, which the serial, audio and
  pipe drivers use. The structure keeps 15-bit indices, one mirror bit per index and a signed
  16-bit size; indices are stored back into their 15 bits after every update. The pool is the byte
  list that \<open>buffer_ptr\<close> points to. \<open>rb_contents\<close> is the sequence of readable bytes.
\<close>

subsection \<open>Data\<close>

record rt_ringbuffer =
  buffer_ptr :: "u8 list"
  read_mirror :: bool
  read_index :: "15 word"
  write_mirror :: bool
  write_index :: "15 word"
  buffer_size :: "16 word"

datatype rt_ringbuffer_state = RT_RINGBUFFER_EMPTY | RT_RINGBUFFER_FULL | RT_RINGBUFFER_HALFFULL

subsection \<open>Operations\<close>

text \<open>
  C promotes the size and the indices to \<open>int\<close> before it subtracts; \<open>bsz\<close>, \<open>rix\<close> and \<open>wix\<close> are
  the promoted values.
\<close>

abbreviation bsz :: "rt_ringbuffer \<Rightarrow> int" where
  "bsz rb \<equiv> sint (buffer_size rb)"

abbreviation rix :: "rt_ringbuffer \<Rightarrow> int" where
  "rix rb \<equiv> uint (read_index rb)"

abbreviation wix :: "rt_ringbuffer \<Rightarrow> int" where
  "wix rb \<equiv> uint (write_index rb)"

definition rt_ringbuffer_status :: "rt_ringbuffer \<Rightarrow> rt_ringbuffer_state" where
  "rt_ringbuffer_status rb =
     (if read_index rb = write_index rb
      then (if read_mirror rb = write_mirror rb then RT_RINGBUFFER_EMPTY else RT_RINGBUFFER_FULL)
      else RT_RINGBUFFER_HALFFULL)"

definition rt_ringbuffer_init :: "u8 list \<Rightarrow> 16 word \<Rightarrow> rt_ringbuffer res" where
  "rt_ringbuffer_init pool sz =
     rt_assert (0 < sint sz)
       (Inr \<lparr>buffer_ptr = pool, read_mirror = False, read_index = 0,
              write_mirror = False, write_index = 0, buffer_size = RT_ALIGN_DOWN sz 64\<rparr>)"

definition rt_ringbuffer_data_len :: "rt_ringbuffer \<Rightarrow> u32" where
  "rt_ringbuffer_data_len rb =
     (case rt_ringbuffer_status rb of
        RT_RINGBUFFER_EMPTY \<Rightarrow> 0
      | RT_RINGBUFFER_FULL \<Rightarrow> word_of_int (bsz rb)
      | RT_RINGBUFFER_HALFFULL \<Rightarrow>
          (let wi = ucast (write_index rb) :: u32; ri = ucast (read_index rb) :: u32 in
           if wi > ri then wi - ri else word_of_int (bsz rb) - (ri - wi)))"

definition rt_ringbuffer_space_len :: "rt_ringbuffer \<Rightarrow> int" where
  "rt_ringbuffer_space_len rb = bsz rb - sint (ucast (rt_ringbuffer_data_len rb) :: 16 word)"

definition rt_ringbuffer_put :: "rt_ringbuffer \<Rightarrow> u8 list \<Rightarrow> u16 \<Rightarrow> u32 \<times> rt_ringbuffer" where
  "rt_ringbuffer_put rb ptr len0 =
     (let sz = word_of_int (rt_ringbuffer_space_len rb) :: u16 in
      if sz = 0 then (0, rb)
      else let len = (if sz < len0 then sz else len0) in
      if bsz rb - wix rb > uint len
      then (ucast len,
            rb\<lparr>buffer_ptr := memcpy (buffer_ptr rb) (unat (write_index rb)) ptr 0 (unat len),
               write_index := word_of_int (wix rb + uint len)\<rparr>)
      else let k = nat (bsz rb - wix rb) in
           (ucast len,
            rb\<lparr>buffer_ptr := memcpy (memcpy (buffer_ptr rb) (unat (write_index rb)) ptr 0 k)
                                 0 ptr k (nat (uint len - (bsz rb - wix rb))),
               write_mirror := \<not> write_mirror rb,
               write_index := word_of_int (uint len - (bsz rb - wix rb))\<rparr>))"

definition rt_ringbuffer_put_force :: "rt_ringbuffer \<Rightarrow> u8 list \<Rightarrow> u16 \<Rightarrow> u32 \<times> rt_ringbuffer" where
  "rt_ringbuffer_put_force rb ptr0 len0 =
     (let space_length = word_of_int (rt_ringbuffer_space_len rb) :: u16;
          ptr = (if uint len0 > bsz rb then drop (nat (uint len0 - bsz rb)) ptr0 else ptr0);
          len = (if uint len0 > bsz rb then word_of_int (bsz rb) else len0) :: u16 in
      if bsz rb - wix rb > uint len
      then let wi = word_of_int (wix rb + uint len) in
           (ucast len,
            rb\<lparr>buffer_ptr := memcpy (buffer_ptr rb) (unat (write_index rb)) ptr 0 (unat len),
               write_index := wi,
               read_index := (if len > space_length then wi else read_index rb)\<rparr>)
      else let k = nat (bsz rb - wix rb);
               wi = word_of_int (uint len - (bsz rb - wix rb)) in
           (ucast len,
            rb\<lparr>buffer_ptr := memcpy (memcpy (buffer_ptr rb) (unat (write_index rb)) ptr 0 k)
                                 0 ptr k (nat (uint len - (bsz rb - wix rb))),
               write_mirror := \<not> write_mirror rb,
               write_index := wi,
               read_mirror := (if len > space_length \<and> wi \<le> read_index rb
                               then \<not> read_mirror rb else read_mirror rb),
               read_index := (if len > space_length then wi else read_index rb)\<rparr>))"

definition rt_ringbuffer_get :: "rt_ringbuffer \<Rightarrow> u16 \<Rightarrow> u32 \<times> u8 list \<times> rt_ringbuffer" where
  "rt_ringbuffer_get rb len0 =
     (let sz = rt_ringbuffer_data_len rb in
      if sz = 0 then (0, [], rb)
      else let len = (if sz < ucast len0 then ucast sz else len0) :: u16 in
      if bsz rb - rix rb > uint len
      then (ucast len, take (unat len) (drop (unat (read_index rb)) (buffer_ptr rb)),
            rb\<lparr>read_index := word_of_int (rix rb + uint len)\<rparr>)
      else (ucast len,
            take (nat (bsz rb - rix rb)) (drop (unat (read_index rb)) (buffer_ptr rb))
              @ take (nat (uint len - (bsz rb - rix rb))) (buffer_ptr rb),
            rb\<lparr>read_mirror := \<not> read_mirror rb,
               read_index := word_of_int (uint len - (bsz rb - rix rb))\<rparr>))"

text \<open>\<open>*ptr\<close> is the offset of the first readable byte in the pool, \<open>None\<close> for \<open>RT_NULL\<close>.\<close>

definition rt_ringbuffer_peek :: "rt_ringbuffer \<Rightarrow> u32 \<times> nat option \<times> rt_ringbuffer" where
  "rt_ringbuffer_peek rb =
     (let sz = rt_ringbuffer_data_len rb in
      if sz = 0 then (0, None, rb)
      else if (word_of_int (bsz rb - rix rb) :: u32) > sz
      then (sz, Some (unat (read_index rb)),
            rb\<lparr>read_index := word_of_int (rix rb + uint (ucast sz :: u16))\<rparr>)
      else (word_of_int (bsz rb - rix rb), Some (unat (read_index rb)),
            rb\<lparr>read_mirror := \<not> read_mirror rb, read_index := 0\<rparr>))"

definition rt_ringbuffer_putchar :: "rt_ringbuffer \<Rightarrow> u8 \<Rightarrow> u32 \<times> rt_ringbuffer" where
  "rt_ringbuffer_putchar rb ch =
     (if rt_ringbuffer_space_len rb = 0 then (0, rb)
      else let rb1 = rb\<lparr>buffer_ptr := (buffer_ptr rb)[unat (write_index rb) := ch]\<rparr> in
      (1, if wix rb = bsz rb - 1
          then rb1\<lparr>write_mirror := \<not> write_mirror rb, write_index := 0\<rparr>
          else rb1\<lparr>write_index := write_index rb + 1\<rparr>))"

definition rt_ringbuffer_putchar_force :: "rt_ringbuffer \<Rightarrow> u8 \<Rightarrow> (u32 \<times> rt_ringbuffer) res" where
  "rt_ringbuffer_putchar_force rb ch =
     (if unat (write_index rb) < length (buffer_ptr rb) then
       (let old_state = rt_ringbuffer_status rb;
            rb1 = rb\<lparr>buffer_ptr := (buffer_ptr rb)[unat (write_index rb) := ch]\<rparr> in
        Inr (1,
          if wix rb = bsz rb - 1
          then let rb2 = rb1\<lparr>write_mirror := \<not> write_mirror rb, write_index := 0\<rparr> in
               if old_state = RT_RINGBUFFER_FULL
               then rb2\<lparr>read_mirror := \<not> read_mirror rb, read_index := 0\<rparr> else rb2
          else let rb2 = rb1\<lparr>write_index := write_index rb + 1\<rparr> in
               if old_state = RT_RINGBUFFER_FULL
               then rb2\<lparr>read_index := write_index rb + 1\<rparr> else rb2))
      else Inl OutOfBounds)"

definition rt_ringbuffer_getchar :: "rt_ringbuffer \<Rightarrow> u32 \<times> u8 option \<times> rt_ringbuffer" where
  "rt_ringbuffer_getchar rb =
     (if rt_ringbuffer_data_len rb = 0 then (0, None, rb)
      else (1, Some (buffer_ptr rb ! unat (read_index rb)),
            if rix rb = bsz rb - 1
            then rb\<lparr>read_mirror := \<not> read_mirror rb, read_index := 0\<rparr>
            else rb\<lparr>read_index := read_index rb + 1\<rparr>))"

definition rt_ringbuffer_reset :: "rt_ringbuffer \<Rightarrow> rt_ringbuffer" where
  "rt_ringbuffer_reset rb =
     rb\<lparr>read_mirror := False, read_index := 0, write_mirror := False, write_index := 0\<rparr>"

definition rt_ringbuffer_get_size :: "rt_ringbuffer \<Rightarrow> u16" where
  "rt_ringbuffer_get_size rb = buffer_size rb"

text \<open>
  \<open>rt_ringbuffer_create\<close> allocates the object and then the pool: \<open>rb_mem\<close> tells whether the first
  allocation succeeds, \<open>alloc\<close> is the result of the second for the aligned size. The signed
  parameter of \<open>rt_ringbuffer_init\<close> receives the unsigned aligned size.
\<close>

definition rt_ringbuffer_create ::
    "bool \<Rightarrow> (u16 \<Rightarrow> u8 list option) \<Rightarrow> u16 \<Rightarrow> rt_ringbuffer option res" where
  "rt_ringbuffer_create rb_mem alloc sz0 =
     rt_assert (0 < sz0)
       (let sz = RT_ALIGN_DOWN sz0 64 in
        if \<not> rb_mem then Inr None
        else case alloc sz of
               None \<Rightarrow> Inr None
             | Some pool \<Rightarrow> and_then (rt_ringbuffer_init pool sz) (\<lambda>rb. Inr (Some rb)))"

subsection \<open>Invariant and contents\<close>

text \<open>
  The indices lie inside the buffer, and the mirror bits tell which of the two is ahead: with equal
  bits the writer is not behind the reader, with different bits it has wrapped once more.
\<close>

definition rb_wf :: "rt_ringbuffer \<Rightarrow> bool" where
  "rb_wf rb \<longleftrightarrow> 0 < bsz rb \<and> nat (bsz rb) \<le> length (buffer_ptr rb)
     \<and> rix rb < bsz rb \<and> wix rb < bsz rb
     \<and> (if read_mirror rb = write_mirror rb then rix rb \<le> wix rb else wix rb \<le> rix rb)"

definition rb_size :: "rt_ringbuffer \<Rightarrow> nat" where
  "rb_size rb = nat (bsz rb)"

definition rb_ring :: "rt_ringbuffer \<Rightarrow> u8 list" where
  "rb_ring rb = take (rb_size rb) (buffer_ptr rb)"

definition rb_count :: "rt_ringbuffer \<Rightarrow> nat" where
  "rb_count rb = (if read_mirror rb = write_mirror rb
     then unat (write_index rb) - unat (read_index rb)
     else rb_size rb + unat (write_index rb) - unat (read_index rb))"

definition rb_contents :: "rt_ringbuffer \<Rightarrow> u8 list" where
  "rb_contents rb = circ_window (rb_ring rb) (unat (read_index rb)) (rb_count rb)"


lemma rb_wfE:
  assumes "rb_wf rb"
  obtains N r w where "bsz rb = int N" "rix rb = int r" "wix rb = int w"
    "unat (read_index rb) = r" "unat (write_index rb) = w" "rb_size rb = N"
    "0 < N" "N < 32768" "N \<le> length (buffer_ptr rb)" "length (rb_ring rb) = N" "r < N" "w < N"
    "rb_count rb = (if read_mirror rb = write_mirror rb then w - r else N + w - r)"
    "if read_mirror rb = write_mirror rb then r \<le> w else w \<le> r"
proof -
  from assms have "0 < bsz rb" by (simp add: rb_wf_def)
  then obtain N where N: "bsz rb = int N" by (metis zero_less_imp_eq_int)
  obtain r where r: "unat (read_index rb) = r" by blast
  then have r': "rix rb = int r" by auto
  obtain w where w: "unat (write_index rb) = w" by blast
  then have w': "wix rb = int w" by auto
  have "N < 32768" using sint_lt [of "buffer_size rb"] N by simp
  with assms N r w r' w' show ?thesis
    by (intro that [of N r w]) (simp_all add: rb_wf_def rb_size_def rb_ring_def rb_count_def
          split: if_splits)
qed

lemma rb_count_bound: "rb_wf rb \<Longrightarrow> rb_count rb \<le> rb_size rb"
  by (erule rb_wfE) (auto split: if_splits)

lemma length_rb_contents [simp]: "length (rb_contents rb) = rb_count rb"
  by (simp add: rb_contents_def)

lemma rb_size_bound: "rb_wf rb \<Longrightarrow> 0 < rb_size rb \<and> rb_size rb < 32768"
  by (erule rb_wfE) auto

lemma rb_write_pos:
  assumes "rb_wf rb"
  shows "(unat (read_index rb) + rb_count rb) mod rb_size rb = unat (write_index rb)"
  using assms by (rule rb_wfE) (auto split: if_splits)

lemma rb_data_len:
  assumes "rb_wf rb"
  shows "unat (rt_ringbuffer_data_len rb) = rb_count rb"
proof -
  from assms obtain N r w where h: "bsz rb = int N"
    "unat (read_index rb) = r" "unat (write_index rb) = w" "0 < N" "N < 32768" "r < N" "w < N"
    "rb_count rb = (if read_mirror rb = write_mirror rb then w - r else N + w - r)"
    "if read_mirror rb = write_mirror rb then r \<le> w else w \<le> r"
    by (rule rb_wfE)
  have eq: "read_index rb = write_index rb \<longleftrightarrow> r = w" using h by (metis word_unat_eq_iff)
  have u: "unat (ucast (write_index rb) :: u32) = w" "unat (ucast (read_index rb) :: u32) = r"
    using h by simp_all
  have N: "unat (word_of_int (int N) :: u32) = N" using h by simp
  have lt: "(ucast (write_index rb) :: u32) > ucast (read_index rb) \<longleftrightarrow> w > r"
    using u by (simp add: word_less_nat_alt)
  show ?thesis
  proof (cases "r = w")
    case True
    with h eq N show ?thesis
      by (auto simp: rt_ringbuffer_data_len_def rt_ringbuffer_status_def split: if_splits)
  next
    case False
    have d1: "w > r \<Longrightarrow> unat ((ucast (write_index rb) :: u32) - ucast (read_index rb)) = w - r"
      using u by (simp add: unat_sub word_le_nat_alt)
    have d2: "w < r \<Longrightarrow> unat ((ucast (read_index rb) :: u32) - ucast (write_index rb)) = r - w"
      using u by (simp add: unat_sub word_le_nat_alt)
    have d3: "w < r \<Longrightarrow> unat (word_of_int (int N) - ((ucast (read_index rb) :: u32) - ucast (write_index rb)))
        = N - (r - w)"
      using d2 N h by (simp add: unat_sub word_le_nat_alt)
    show ?thesis using False eq d1 d3 lt h
      by (auto simp: rt_ringbuffer_data_len_def rt_ringbuffer_status_def Let_def split: if_splits)
  qed
qed

lemma rb_data_len_0_iff: "rb_wf rb \<Longrightarrow> rt_ringbuffer_data_len rb = 0 \<longleftrightarrow> rb_count rb = 0"
  using rb_data_len [of rb] by (metis unat_0 unat_eq_zero)

lemma rb_space_len:
  assumes "rb_wf rb"
  shows "rt_ringbuffer_space_len rb = int (rb_size rb - rb_count rb)"
proof -
  have c: "rb_count rb \<le> rb_size rb" "rb_size rb < 32768" "bsz rb = int (rb_size rb)"
    using assms rb_count_bound rb_size_bound by (auto simp: rb_wf_def rb_size_def)
  have "unat (ucast (rt_ringbuffer_data_len rb) :: 16 word) = rb_count rb"
    using rb_data_len [OF assms] c by simp
  then have "(ucast (rt_ringbuffer_data_len rb) :: 16 word) = word_of_int (int (rb_count rb))"
    by (metis word_of_int_unat)
  then have "sint (ucast (rt_ringbuffer_data_len rb) :: 16 word) = int (rb_count rb)"
    using c sint_of_int_small [of "int (rb_count rb)", where 'a = 16] by simp
  with c show ?thesis by (simp add: rt_ringbuffer_space_len_def)
qed


lemma rb_wf_iff:
  "rb_wf rb \<longleftrightarrow> 0 < rb_size rb \<and> rb_size rb \<le> length (buffer_ptr rb)
     \<and> unat (read_index rb) < rb_size rb \<and> unat (write_index rb) < rb_size rb
     \<and> (if read_mirror rb = write_mirror rb then unat (read_index rb) \<le> unat (write_index rb)
        else unat (write_index rb) \<le> unat (read_index rb))"
proof -
  obtain r where r: "unat (read_index rb) = r" by blast
  then have r': "rix rb = int r" by auto
  obtain w where w: "unat (write_index rb) = w" by blast
  then have w': "wix rb = int w" by auto
  show ?thesis unfolding rb_wf_def rb_size_def r r' w w' by auto
qed

lemma rb_size_cong: "buffer_size rb' = buffer_size rb \<Longrightarrow> rb_size rb' = rb_size rb"
  by (simp add: rb_size_def)

lemma bsz_rb_size: "rb_wf rb \<Longrightarrow> bsz rb = int (rb_size rb)"
  by (simp add: rb_wf_def rb_size_def)

lemma length_rb_ring: "rb_wf rb \<Longrightarrow> length (rb_ring rb) = rb_size rb"
  by (simp add: rb_wf_iff rb_ring_def)

subsection \<open>Moving the write and the read index\<close>

text \<open>
  Every operation moves one index by \<open>n\<close> and flips its mirror bit when the index wraps. The three
  lemmas below say what that does to the contents, whatever operation does it.
\<close>

definition moved :: "nat \<Rightarrow> nat \<Rightarrow> nat \<Rightarrow> bool \<Rightarrow> nat \<Rightarrow> bool \<Rightarrow> bool" where
  "moved N n i m i' m' \<longleftrightarrow>
     (if i + n < N then i' = i + n \<and> m' = m else i' = i + n - N \<and> m' = (\<not> m))"

lemma rb_write_moved:
  assumes wf: "rb_wf rb" and n: "n \<le> rb_size rb - rb_count rb" "n \<le> length xs"
    and ring: "rb_ring rb' = circ_write (rb_ring rb) (unat (write_index rb)) xs n"
    and frame: "buffer_size rb' = buffer_size rb" "length (buffer_ptr rb') = length (buffer_ptr rb)"
      "read_index rb' = read_index rb" "read_mirror rb' = read_mirror rb"
    and mv: "moved (rb_size rb) n (unat (write_index rb)) (write_mirror rb)
               (unat (write_index rb')) (write_mirror rb')"
  shows "rb_wf rb' \<and> rb_contents rb' = rb_contents rb @ take n xs \<and> rb_size rb' = rb_size rb"
proof -
  from wf obtain N r w where h: "unat (read_index rb) = r" "unat (write_index rb) = w"
    "rb_size rb = N" "0 < N" "N \<le> length (buffer_ptr rb)" "length (rb_ring rb) = N" "r < N" "w < N"
    "rb_count rb = (if read_mirror rb = write_mirror rb then w - r else N + w - r)"
    "if read_mirror rb = write_mirror rb then r \<le> w else w \<le> r"
    by (rule rb_wfE)
  have sz: "rb_size rb' = N" using frame h rb_size_cong by metis
  have cnt: "rb_count rb' = rb_count rb + n"
    using h mv n frame sz by (auto simp: rb_count_def moved_def split: if_splits)
  have wf': "rb_wf rb'"
    using h mv n frame sz by (auto simp: rb_wf_iff moved_def split: if_splits)
  have w: "w = (r + rb_count rb) mod length (rb_ring rb)"
    using rb_write_pos [OF wf] h by simp
  have "rb_contents rb' = circ_window (rb_ring rb') r (rb_count rb + n)"
    using h frame cnt by (simp add: rb_contents_def)
  also have "\<dots> = rb_contents rb @ take n xs"
    unfolding ring h(2) w rb_contents_def h(1)
    by (rule circ_window_append) (use h n rb_count_bound [OF wf] in auto)
  finally show ?thesis using wf' sz h by simp
qed

lemma rb_read_moved:
  assumes wf: "rb_wf rb" and n: "n \<le> rb_count rb"
    and ring: "buffer_ptr rb' = buffer_ptr rb"
    and frame: "buffer_size rb' = buffer_size rb"
      "write_index rb' = write_index rb" "write_mirror rb' = write_mirror rb"
    and mv: "moved (rb_size rb) n (unat (read_index rb)) (read_mirror rb)
               (unat (read_index rb')) (read_mirror rb')"
  shows "rb_wf rb' \<and> rb_contents rb' = drop n (rb_contents rb) \<and> rb_size rb' = rb_size rb"
proof -
  from wf obtain N r w where h: "unat (read_index rb) = r" "unat (write_index rb) = w"
    "rb_size rb = N" "0 < N" "N \<le> length (buffer_ptr rb)" "length (rb_ring rb) = N" "r < N" "w < N"
    "rb_count rb = (if read_mirror rb = write_mirror rb then w - r else N + w - r)"
    "if read_mirror rb = write_mirror rb then r \<le> w else w \<le> r"
    by (rule rb_wfE)
  have sz: "rb_size rb' = N" using frame h rb_size_cong by metis
  have cnt: "rb_count rb' = rb_count rb - n"
    using h mv n frame sz by (auto simp: rb_count_def moved_def split: if_splits)
  have wf': "rb_wf rb'"
    using h mv n frame sz ring by (auto simp: rb_wf_iff moved_def split: if_splits)
  have r': "unat (read_index rb') = (r + n) mod N"
    using mv h n rb_count_bound [OF wf] by (auto simp: moved_def le_mod_geq split: if_splits)
  have ring': "rb_ring rb' = rb_ring rb" using ring sz h by (simp add: rb_ring_def)
  have "rb_contents rb' = circ_window (rb_ring rb) ((r + n) mod length (rb_ring rb)) (rb_count rb - n)"
    using cnt r' ring' h by (simp add: rb_contents_def)
  also have "\<dots> = drop n (rb_contents rb)"
    unfolding rb_contents_def h(1) by (rule circ_window_drop [OF n, symmetric])
  finally show ?thesis using wf' sz h by simp
qed

lemma rb_overwrite_moved:
  assumes wf: "rb_wf rb" and n: "n \<le> rb_size rb" "rb_size rb < rb_count rb + n" "n \<le> length xs"
    and ring: "rb_ring rb' = circ_write (rb_ring rb) (unat (write_index rb)) xs n"
    and frame: "buffer_size rb' = buffer_size rb" "length (buffer_ptr rb') = length (buffer_ptr rb)"
    and rd: "read_index rb' = write_index rb'" "read_mirror rb' = (\<not> write_mirror rb')"
    and wi: "unat (write_index rb') = (unat (write_index rb) + n) mod rb_size rb"
  shows "rb_wf rb' \<and> rb_size rb' = rb_size rb \<and>
    rb_contents rb' = drop (rb_count rb + n - rb_size rb) (rb_contents rb) @ take n xs"
proof -
  from wf obtain N r w where h: "unat (read_index rb) = r" "unat (write_index rb) = w"
    "rb_size rb = N" "0 < N" "N \<le> length (buffer_ptr rb)" "length (rb_ring rb) = N" "r < N" "w < N"
    by (rule rb_wfE)
  have sz: "rb_size rb' = N" using frame h rb_size_cong by metis
  have cnt: "rb_count rb' = N" using rd sz by (simp add: rb_count_def)
  have wf': "rb_wf rb'" using h frame sz rd wi by (auto simp: rb_wf_iff)
  have w: "w = (r + rb_count rb) mod length (rb_ring rb)"
    using rb_write_pos [OF wf] h by simp
  have r': "unat (read_index rb') = (r + rb_count rb + n) mod length (rb_ring rb)"
    using rd wi h w by (simp add: mod_simps)
  have "rb_contents rb' = circ_window (rb_ring rb') ((r + rb_count rb + n) mod length (rb_ring rb))
          (length (rb_ring rb))"
    using cnt r' h by (simp add: rb_contents_def)
  also have "\<dots> = drop (rb_count rb + n - length (rb_ring rb)) (rb_contents rb) @ take n xs"
    unfolding ring h(2) w rb_contents_def h(1)
    by (rule circ_window_overwrite) (use h n rb_count_bound [OF wf] in auto)
  finally show ?thesis using wf' sz h by simp
qed

text \<open>The two copies of a block write, in either branch of the code, are one circular write.\<close>

lemma rb_ring_write_one:
  assumes wf: "rb_wf rb" and "unat (write_index rb) + n \<le> rb_size rb" "n \<le> length xs"
    and "buffer_ptr rb' = memcpy (buffer_ptr rb) (unat (write_index rb)) xs 0 n"
    and "rb_size rb' = rb_size rb"
  shows "rb_ring rb' = circ_write (rb_ring rb) (unat (write_index rb)) xs n
    \<and> length (buffer_ptr rb') = length (buffer_ptr rb)"
  using assms by (simp add: rb_wf_iff rb_ring_def take_memcpy circ_write_one_chunk [symmetric])

lemma rb_ring_write_two:
  assumes wf: "rb_wf rb" and n: "rb_size rb \<le> unat (write_index rb) + n" "n \<le> rb_size rb" "n \<le> length xs"
    and buf: "buffer_ptr rb' = memcpy (memcpy (buffer_ptr rb) (unat (write_index rb)) xs 0
            (rb_size rb - unat (write_index rb))) 0 xs (rb_size rb - unat (write_index rb))
            (n - (rb_size rb - unat (write_index rb)))"
    and sz: "rb_size rb' = rb_size rb"
  shows "rb_ring rb' = circ_write (rb_ring rb) (unat (write_index rb)) xs n
    \<and> length (buffer_ptr rb') = length (buffer_ptr rb)"
proof -
  define k where "k = rb_size rb - unat (write_index rb)"
  define m where "m = n - k"
  let ?w = "unat (write_index rb)" and ?b = "buffer_ptr rb" and ?N = "rb_size rb"
  have w: "?w + k = ?N" "k + m \<le> length xs" "m \<le> ?N" "?N \<le> length ?b"
    using wf n by (auto simp: rb_wf_iff k_def m_def)
  have l: "length (memcpy ?b ?w xs 0 k) = length ?b" using w by simp
  have "take ?N (memcpy (memcpy ?b ?w xs 0 k) 0 xs k m) = memcpy (memcpy (take ?N ?b) ?w xs 0 k) 0 xs k m"
    using w l by (simp add: take_memcpy)
  moreover have "memcpy (memcpy (rb_ring rb) ?w xs 0 k) 0 xs k m = circ_write (rb_ring rb) ?w xs n"
    using circ_write_two_chunks [of ?w "rb_ring rb" n xs] wf n
    by (simp add: rb_wf_iff length_rb_ring k_def m_def)
  moreover have "length (memcpy (memcpy ?b ?w xs 0 k) 0 xs k m) = length ?b" using w l by simp
  ultimately show ?thesis using buf sz by (simp add: rb_ring_def k_def m_def)
qed


subsection \<open>Block operations\<close>

text \<open>The state after the copies of a block write and the update of the write index.\<close>

definition block_written :: "rt_ringbuffer \<Rightarrow> u8 list \<Rightarrow> u16 \<Rightarrow> rt_ringbuffer" where
  "block_written rb ptr len =
     (if bsz rb - wix rb > uint len
      then rb\<lparr>buffer_ptr := memcpy (buffer_ptr rb) (unat (write_index rb)) ptr 0 (unat len),
              write_index := word_of_int (wix rb + uint len)\<rparr>
      else rb\<lparr>buffer_ptr := memcpy (memcpy (buffer_ptr rb) (unat (write_index rb)) ptr 0
                                      (nat (bsz rb - wix rb)))
                               0 ptr (nat (bsz rb - wix rb)) (nat (uint len - (bsz rb - wix rb))),
              write_mirror := \<not> write_mirror rb,
              write_index := word_of_int (uint len - (bsz rb - wix rb))\<rparr>)"

lemma block_written_frame [simp]:
  "buffer_size (block_written rb ptr len) = buffer_size rb"
  "read_index (block_written rb ptr len) = read_index rb"
  "read_mirror (block_written rb ptr len) = read_mirror rb"
  by (simp_all add: block_written_def)

lemma rb_nowrap_iff:
  assumes "rb_wf rb"
  shows "bsz rb - wix rb > uint l \<longleftrightarrow> unat (write_index rb) + unat l < rb_size rb"
proof -
  from assms obtain N w where h: "bsz rb = int N" "wix rb = int w" "unat (write_index rb) = w"
    "rb_size rb = N" by (rule rb_wfE)
  obtain L where L: "unat l = L" "uint l = int L" by (rule that [of "unat l"]) simp_all
  show ?thesis unfolding h L by arith
qed

text \<open>Storing a moved index into its 15 bits loses nothing.\<close>

lemma index_store_nowrap:
  "w + L < N \<Longrightarrow> N < 32768 \<Longrightarrow> unat (word_of_int (int w + int L) :: 15 word) = w + L"
  by (subst unat_of_int_small) auto

lemma index_store_wrap:
  "\<not> w + L < N \<Longrightarrow> w < N \<Longrightarrow> L \<le> N \<Longrightarrow> N < 32768 \<Longrightarrow>
    unat (word_of_int (int L - (int N - int w)) :: 15 word) = w + L - N"
  by (subst unat_of_int_small) auto

lemma block_written:
  assumes wf: "rb_wf rb" and l: "unat len \<le> length ptr" "unat len \<le> rb_size rb"
  shows "rb_ring (block_written rb ptr len) = circ_write (rb_ring rb) (unat (write_index rb)) ptr (unat len)"
    and "length (buffer_ptr (block_written rb ptr len)) = length (buffer_ptr rb)"
    and "moved (rb_size rb) (unat len) (unat (write_index rb)) (write_mirror rb)
           (unat (write_index (block_written rb ptr len))) (write_mirror (block_written rb ptr len))"
proof -
  let ?rb = "block_written rb ptr len"
  from wf obtain N w where h: "bsz rb = int N" "wix rb = int w" "unat (write_index rb) = w"
    "rb_size rb = N" "N < 32768" "w < N" by (rule rb_wfE)
  obtain L where L: "unat len = L" "uint len = int L" by (rule that [of "unat len"]) simp_all
  note ul = L(2)
  have k: "nat (bsz rb - wix rb) = rb_size rb - unat (write_index rb)"
    "nat (uint len - (bsz rb - wix rb)) = unat len - (rb_size rb - unat (write_index rb))"
    unfolding h(1-4) L using h(6) by arith+
  have sz: "rb_size ?rb = rb_size rb" by (simp add: rb_size_def)
  have "rb_ring ?rb = circ_write (rb_ring rb) (unat (write_index rb)) ptr (unat len)
      \<and> length (buffer_ptr ?rb) = length (buffer_ptr rb)"
  proof (cases "w + unat len < N")
    case True
    with h L show ?thesis
      by (intro rb_ring_write_one [OF wf _ l(1) _ sz]) (auto simp: block_written_def rb_nowrap_iff [OF wf])
  next
    case False
    with h L have "\<not> bsz rb - wix rb > uint len" using rb_nowrap_iff [OF wf] by simp
    then have b: "buffer_ptr ?rb = memcpy (memcpy (buffer_ptr rb) (unat (write_index rb)) ptr 0
            (rb_size rb - unat (write_index rb))) 0 ptr (rb_size rb - unat (write_index rb))
            (unat len - (rb_size rb - unat (write_index rb)))"
      unfolding block_written_def k(2) [symmetric] unfolding k(1) [symmetric] by simp
    show ?thesis by (rule rb_ring_write_two [OF wf _ l(2,1) b sz]) (use False h L in simp)
  qed
  then show "rb_ring ?rb = circ_write (rb_ring rb) (unat (write_index rb)) ptr (unat len)"
    and "length (buffer_ptr ?rb) = length (buffer_ptr rb)" by auto
  show "moved (rb_size rb) (unat len) (unat (write_index rb)) (write_mirror rb)
           (unat (write_index ?rb)) (write_mirror ?rb)"
    using index_store_nowrap [of w L N] index_store_wrap [of w L N] l(2) h(3-) L(1)
    unfolding moved_def block_written_def rb_nowrap_iff [OF wf] h(1,2) L(2)
    by (simp del: of_int_add of_int_diff of_int_of_nat_eq)
qed

lemma rt_ringbuffer_put_written:
  "rt_ringbuffer_put rb ptr len0 =
     (let sz = word_of_int (rt_ringbuffer_space_len rb) :: u16 in
      if sz = 0 then (0, rb)
      else let len = (if sz < len0 then sz else len0) in (ucast len, block_written rb ptr len))"
  by (simp add: rt_ringbuffer_put_def block_written_def Let_def)

lemma rb_put:
  assumes wf: "rb_wf rb" and len: "unat len \<le> length ptr"
    and put: "rt_ringbuffer_put rb ptr len = (n, rb')"
  shows "rb_wf rb' \<and> unat n = min (unat len) (rb_size rb - rb_count rb)
    \<and> rb_contents rb' = rb_contents rb @ take (unat n) ptr \<and> rb_size rb' = rb_size rb"
proof -
  define sp where "sp = rb_size rb - rb_count rb"
  have sp: "rt_ringbuffer_space_len rb = int sp" "sp < 32768"
    using rb_space_len [OF wf] rb_size_bound [OF wf] by (auto simp: sp_def)
  have sz: "unat (word_of_int (int sp) :: u16) = sp" using sp by simp
  show ?thesis
  proof (cases "sp = 0")
    case True
    with put wf sp show ?thesis by (simp add: rt_ringbuffer_put_def sp_def)
  next
    case False
    define l where "l = (if (word_of_int (int sp) :: u16) < len then word_of_int (int sp) else len)"
    have l: "unat l = min (unat len) sp" using sz by (auto simp: l_def word_less_nat_alt)
    have "(word_of_int (int sp) :: u16) \<noteq> 0" using False sz by (metis unat_0)
    then have rb': "n = ucast l" "rb' = block_written rb ptr l"
      using put unfolding rt_ringbuffer_put_written sp(1) Let_def l_def
      by (simp_all del: of_int_of_nat_eq)
    have ml: "unat l \<le> length ptr" "unat l \<le> rb_size rb - rb_count rb" "unat l \<le> rb_size rb"
      using l len by (auto simp: sp_def)
    have "rb_wf rb' \<and> rb_contents rb' = rb_contents rb @ take (unat l) ptr \<and> rb_size rb' = rb_size rb"
      unfolding rb' by (rule rb_write_moved [OF wf ml(2,1) block_written(1) [OF wf ml(1,3)] _
            block_written(2) [OF wf ml(1,3)] _ _ block_written(3) [OF wf ml(1,3)]]) simp_all
    then show ?thesis using rb' l by (simp add: sp_def unat_ucast_up)
  qed
qed


text \<open>When a forced write passes the reader, the mirror bits end up different: the buffer is full.\<close>

lemma put_force_mirror:
  assumes wf: "rb_wf rb" and n: "unat l \<le> rb_size rb" "rb_size rb < rb_count rb + unat l"
    and mv: "moved (rb_size rb) (unat l) (unat (write_index rb)) (write_mirror rb) (unat wi') wm'"
  shows "(if bsz rb - wix rb > uint l \<or> \<not> wi' \<le> read_index rb
          then read_mirror rb else \<not> read_mirror rb) = (\<not> wm')"
proof -
  from wf obtain N r w where h: "bsz rb = int N" "wix rb = int w" "unat (read_index rb) = r"
    "unat (write_index rb) = w" "rb_size rb = N" "r < N" "w < N"
    "rb_count rb = (if read_mirror rb = write_mirror rb then w - r else N + w - r)"
    "if read_mirror rb = write_mirror rb then r \<le> w else w \<le> r"
    by (rule rb_wfE)
  obtain L where L: "unat l = L" "uint l = int L" by (rule that [of "unat l"]) simp_all
  have nowrap: "bsz rb - wix rb > uint l \<longleftrightarrow> w + L < N" unfolding rb_nowrap_iff [OF wf] using h L by simp
  have le: "wi' \<le> read_index rb \<longleftrightarrow> unat wi' \<le> r" using h(3) by (simp add: word_le_nat_alt)
  show ?thesis unfolding nowrap le using h(3-) L(1) mv n
    by (auto simp: moved_def split: if_splits)
qed

lemma rb_put_force:
  assumes wf: "rb_wf rb" and len: "unat len \<le> length ptr0"
    and put: "rt_ringbuffer_put_force rb ptr0 len = (n, rb')"
  defines "all \<equiv> rb_contents rb @ take (unat len) ptr0"
  shows "rb_wf rb' \<and> unat n = min (unat len) (rb_size rb)
    \<and> rb_contents rb' = drop (length all - rb_size rb) all \<and> rb_size rb' = rb_size rb"
proof -
  define N where "N = rb_size rb"
  define k where "k = rb_count rb"
  have N: "bsz rb = int N" "0 < N" "N < 32768" "k \<le> N"
    using bsz_rb_size [OF wf] rb_size_bound [OF wf] rb_count_bound [OF wf] by (auto simp: N_def k_def)
  have sp: "unat (word_of_int (rt_ringbuffer_space_len rb) :: u16) = N - k"
    unfolding rb_space_len [OF wf] N_def [symmetric] k_def [symmetric]
    by (subst unat_of_int_small) (use N in auto)
  define ptr where "ptr = (if uint len > bsz rb then drop (nat (uint len - bsz rb)) ptr0 else ptr0)"
  define l where "l = (if uint len > bsz rb then word_of_int (bsz rb) else len)"
  obtain L where L: "unat len = L" "uint len = int L" by (rule that [of "unat len"]) simp_all
  have l: "unat l = min L N" unfolding l_def N(1) L(2) using N L by auto
  have ptr: "ptr = drop (L - N) ptr0" unfolding ptr_def N(1) L(2) by (simp add: nat_diff_distrib)
  have ml: "unat l \<le> length ptr" "unat l \<le> rb_size rb" using l len L ptr by (auto simp: N_def)
  note bw = block_written [OF wf ml]
  let ?b = "block_written rb ptr l" and ?gt = "l > word_of_int (rt_ringbuffer_space_len rb)"
  have gt: "?gt \<longleftrightarrow> N < k + min L N" using sp l N by (auto simp: word_less_nat_alt)
  have rb': "n = ucast l" "rb' = (if ?gt then ?b\<lparr>read_index := write_index ?b,
       read_mirror := (if bsz rb - wix rb > uint l \<or> \<not> write_index ?b \<le> read_index rb
                       then read_mirror rb else \<not> read_mirror rb)\<rparr> else ?b)"
    using put unfolding rt_ringbuffer_put_force_def Let_def ptr_def [symmetric] l_def [symmetric]
    by (auto simp: block_written_def split: if_splits)
  have take_len: "take (unat l) ptr = drop (L - N) (take L ptr0)"
    using l ptr by (simp add: drop_take min_def)
  show ?thesis
  proof (cases "N < k + min L N")
    case False
    then have b: "rb' = ?b" using rb' gt by simp
    have "unat l \<le> rb_size rb - rb_count rb" using False N l by (auto simp: N_def k_def)
    then have "rb_wf ?b \<and> rb_contents ?b = rb_contents rb @ take (unat l) ptr \<and> rb_size ?b = rb_size rb"
      by (rule rb_write_moved [OF wf _ ml(1) bw(1) _ bw(2) _ _ bw(3)]) simp_all
    moreover have "length all - N = L - N" "L - N = 0 \<or> rb_count rb = 0 \<and> rb_contents rb = []"
      using False len L by (auto simp: all_def k_def rb_contents_def circ_window_def min_def split: if_splits)
    ultimately show ?thesis using b rb' l L take_len
      by (auto simp: all_def unat_ucast_up N_def)
  next
    case True
    then have b: "rb' = ?b\<lparr>read_index := write_index ?b,
       read_mirror := (if bsz rb - wix rb > uint l \<or> \<not> write_index ?b \<le> read_index rb
                       then read_mirror rb else \<not> read_mirror rb)\<rparr>"
      using rb' gt by simp
    have n: "rb_size rb < rb_count rb + unat l" using True l by (simp add: N_def k_def)
    have "rb_wf rb' \<and> rb_size rb' = rb_size rb \<and>
        rb_contents rb' = drop (rb_count rb + unat l - rb_size rb) (rb_contents rb) @ take (unat l) ptr"
    proof (rule rb_overwrite_moved [OF wf ml(2) n ml(1)])
      show "rb_ring rb' = circ_write (rb_ring rb) (unat (write_index rb)) ptr (unat l)"
        using bw(1) by (simp add: b rb_ring_def rb_size_def)
      show "length (buffer_ptr rb') = length (buffer_ptr rb)" using bw(2) b by simp
      show "read_mirror rb' = (\<not> write_mirror rb')"
        using put_force_mirror [OF wf ml(2) n bw(3)] b by simp
      show "unat (write_index rb') = (unat (write_index rb) + unat l) mod rb_size rb"
        using bw(3) b ml wf by (auto simp: moved_def rb_wf_iff le_mod_geq split: if_splits)
    qed (simp_all add: b)
    moreover have "length all - N = (k + min L N - N) + (L - N)" "L - N = 0 \<or> k \<le> k + min L N - N"
      using True len L N by (auto simp: all_def k_def)
    ultimately show ?thesis using rb' l L take_len len
      by (auto simp: all_def N_def k_def unat_ucast_up min_def)
  qed
qed


text \<open>Reading and peeking.\<close>

lemma rb_norwrap_iff:
  assumes "rb_wf rb"
  shows "bsz rb - rix rb > uint l \<longleftrightarrow> unat (read_index rb) + unat l < rb_size rb"
proof -
  from assms obtain N r where h: "bsz rb = int N" "rix rb = int r" "unat (read_index rb) = r"
    "rb_size rb = N" by (rule rb_wfE)
  obtain L where L: "unat l = L" "uint l = int L" by (rule that [of "unat l"]) simp_all
  show ?thesis unfolding h L by arith
qed

lemma rb_ring_read:
  assumes wf: "rb_wf rb" and n: "n \<le> rb_count rb"
  shows "(if unat (read_index rb) + n < rb_size rb
          then take n (drop (unat (read_index rb)) (buffer_ptr rb))
          else take (rb_size rb - unat (read_index rb)) (drop (unat (read_index rb)) (buffer_ptr rb))
                 @ take (n - (rb_size rb - unat (read_index rb))) (buffer_ptr rb))
         = take n (rb_contents rb)"
proof -
  define r where "r = unat (read_index rb)"
  have h: "r < rb_size rb" "n \<le> rb_size rb" "length (rb_ring rb) = rb_size rb"
    using wf n rb_count_bound [OF wf] by (auto simp: rb_wf_iff r_def length_rb_ring)
  show ?thesis
  proof (cases "r + n < rb_size rb")
    case True
    then have "take n (drop r (buffer_ptr rb)) = take n (drop r (rb_ring rb))"
      by (simp add: rb_ring_def drop_take)
    also have "\<dots> = take n (circ_window (rb_ring rb) r (rb_count rb))"
      by (rule circ_window_read_one_chunk) (use True n h in auto)
    finally show ?thesis using True by (simp add: r_def [symmetric] rb_contents_def)
  next
    case False
    have "take (rb_size rb - r) (drop r (buffer_ptr rb)) = drop r (rb_ring rb)"
      by (simp add: rb_ring_def drop_take)
    moreover have "take (n - (rb_size rb - r)) (buffer_ptr rb) = take (n - (rb_size rb - r)) (rb_ring rb)"
      using h by (simp add: rb_ring_def)
    moreover have "drop r (rb_ring rb) @ take (n - (rb_size rb - r)) (rb_ring rb)
        = take n (circ_window (rb_ring rb) r (rb_count rb))"
      using circ_window_read_two_chunks [of r "rb_ring rb" n "rb_count rb"] False n h by simp
    ultimately show ?thesis using False by (simp add: r_def [symmetric] rb_contents_def)
  qed
qed

lemma rb_get:
  assumes wf: "rb_wf rb" and get: "rt_ringbuffer_get rb len = (n, bs, rb')"
  shows "rb_wf rb' \<and> unat n = min (unat len) (rb_count rb) \<and> bs = take (unat n) (rb_contents rb)
    \<and> rb_contents rb' = drop (unat n) (rb_contents rb) \<and> rb_size rb' = rb_size rb"
proof (cases "rb_count rb = 0")
  case True
  then have "rt_ringbuffer_data_len rb = 0" using rb_data_len_0_iff [OF wf] by simp
  with get wf True show ?thesis by (simp add: rt_ringbuffer_get_def)
next
  case False
  define l where "l = (if rt_ringbuffer_data_len rb < ucast len
                       then ucast (rt_ringbuffer_data_len rb) else len)"
  have dl: "unat (rt_ringbuffer_data_len rb) = rb_count rb" "rb_count rb < 65536"
    using rb_data_len [OF wf] rb_count_bound [OF wf] rb_size_bound [OF wf] by auto
  have l: "unat l = min (unat len) (rb_count rb)"
    using dl by (auto simp: l_def word_less_nat_alt unat_ucast_up)
  from wf obtain N r where h: "bsz rb = int N" "rix rb = int r" "unat (read_index rb) = r"
    "rb_size rb = N" "r < N" "N < 32768" by (rule rb_wfE)
  obtain L where L: "unat l = L" "uint l = int L" by (rule that [of "unat l"]) simp_all
  have k: "nat (int N - int r) = N - r" "nat (int L - (int N - int r)) = L - (N - r)"
    using h(5) by arith+
  have nowrap: "bsz rb - rix rb > uint l \<longleftrightarrow> r + L < N"
    unfolding rb_norwrap_iff [OF wf] using h L by simp
  have r: "n = ucast l" "bs = take L (rb_contents rb)"
    "rb' = (if r + L < N then rb\<lparr>read_index := word_of_int (rix rb + uint l)\<rparr>
            else rb\<lparr>read_mirror := \<not> read_mirror rb,
                     read_index := word_of_int (uint l - (bsz rb - rix rb))\<rparr>)"
  proof -
    have nz: "rt_ringbuffer_data_len rb \<noteq> 0" using False rb_data_len_0_iff [OF wf] by simp
    show "n = ucast l" "rb' = (if r + L < N then rb\<lparr>read_index := word_of_int (rix rb + uint l)\<rparr>
            else rb\<lparr>read_mirror := \<not> read_mirror rb,
                     read_index := word_of_int (uint l - (bsz rb - rix rb))\<rparr>)"
      using get nz nowrap unfolding rt_ringbuffer_get_def Let_def l_def [symmetric]
      by (auto split: if_splits)
    have "L \<le> rb_count rb" using l L by simp
    note rr = rb_ring_read [OF wf this]
    show "bs = take L (rb_contents rb)"
      using get nz nowrap unfolding rr [symmetric] rt_ringbuffer_get_def Let_def l_def [symmetric]
      by (auto simp: h L k split: if_splits)
  qed
  have "rb_wf rb' \<and> rb_contents rb' = drop L (rb_contents rb) \<and> rb_size rb' = rb_size rb"
  proof (rule rb_read_moved [OF wf])
    show "moved (rb_size rb) L (unat (read_index rb)) (read_mirror rb)
               (unat (read_index rb')) (read_mirror rb')"
      using index_store_nowrap [of r L N] index_store_wrap [of r L N] h(3-) l L(1) rb_count_bound [OF wf]
      unfolding moved_def r h(1,2) L(2) by (simp del: of_int_add of_int_diff of_int_of_nat_eq)
  qed (use l L r in auto)
  then show ?thesis using r l L by (simp add: unat_ucast_up)
qed


subsection \<open>Single bytes, peek, reset\<close>

lemma list_update_memcpy: "w < length buf \<Longrightarrow> buf[w := x] = memcpy buf w [x] 0 1"
  by (simp add: memcpy_def upd_conv_take_nth_drop)

lemma rb_ring_putchar:
  assumes wf: "rb_wf rb" and "buffer_ptr rb' = (buffer_ptr rb)[unat (write_index rb) := ch]"
    and "rb_size rb' = rb_size rb"
  shows "rb_ring rb' = circ_write (rb_ring rb) (unat (write_index rb)) [ch] 1
    \<and> length (buffer_ptr rb') = length (buffer_ptr rb)"
  using assms by (intro rb_ring_write_one [OF wf]) (auto simp: rb_wf_iff list_update_memcpy)

text \<open>The single step of an index.\<close>

lemma index_step:
  assumes "unat i < N" "N < 32768"
  shows "moved N 1 (unat i) m (unat (if unat i = N - 1 then 0 else i + 1 :: 15 word))
           (if unat i = N - 1 then \<not> m else m)"
  using assms by (auto simp: moved_def unat_word_ariths unsigned_1)

lemma rb_last_write: "rb_wf rb \<Longrightarrow> wix rb = bsz rb - 1 \<longleftrightarrow> unat (write_index rb) = rb_size rb - 1"
  by (erule rb_wfE) (simp, arith)

lemma rb_last_read: "rb_wf rb \<Longrightarrow> rix rb = bsz rb - 1 \<longleftrightarrow> unat (read_index rb) = rb_size rb - 1"
  by (erule rb_wfE) (simp, arith)

lemma rb_putchar_full:
  assumes "rb_wf rb" "rb_count rb = rb_size rb"
  shows "rt_ringbuffer_putchar rb ch = (0, rb)"
  using assms rb_space_len [of rb] by (simp add: rt_ringbuffer_putchar_def)

lemma rb_putchar_space:
  assumes wf: "rb_wf rb" and sp: "rb_count rb < rb_size rb"
  shows "\<exists>rb'. rt_ringbuffer_putchar rb ch = (1, rb') \<and> rb_wf rb'
    \<and> rb_contents rb' = rb_contents rb @ [ch] \<and> rb_size rb' = rb_size rb"
proof -
  have ne: "rt_ringbuffer_space_len rb \<noteq> 0" using rb_space_len [OF wf] sp by simp
  let ?w = "unat (write_index rb)" and ?N = "rb_size rb"
  define rb' where "rb' = rb\<lparr>buffer_ptr := (buffer_ptr rb)[?w := ch],
      write_mirror := (if ?w = ?N - 1 then \<not> write_mirror rb else write_mirror rb),
      write_index := (if ?w = ?N - 1 then 0 else write_index rb + 1)\<rparr>"
  have eq: "rt_ringbuffer_putchar rb ch = (1, rb')"
    using ne by (simp add: rt_ringbuffer_putchar_def rb'_def Let_def rb_last_write [OF wf])
  have "rb_ring rb' = circ_write (rb_ring rb) ?w [ch] 1 \<and> length (buffer_ptr rb') = length (buffer_ptr rb)"
    by (rule rb_ring_putchar [OF wf]) (simp_all add: rb'_def rb_size_def)
  moreover have "moved ?N 1 ?w (write_mirror rb) (unat (write_index rb')) (write_mirror rb')"
    using index_step [of "write_index rb" ?N "write_mirror rb"] wf rb_size_bound [OF wf]
    by (simp add: rb'_def rb_wf_iff)
  ultimately have "rb_wf rb' \<and> rb_contents rb' = rb_contents rb @ take 1 [ch] \<and> rb_size rb' = rb_size rb"
    by (intro rb_write_moved [OF wf]) (use sp in \<open>simp_all add: rb'_def\<close>)
  with eq show ?thesis by simp
qed

lemma rb_getchar_empty:
  assumes "rb_wf rb" "rb_count rb = 0"
  shows "rt_ringbuffer_getchar rb = (0, None, rb)"
  using assms rb_data_len_0_iff [of rb] by (simp add: rt_ringbuffer_getchar_def)

lemma rb_contents_nonempty:
  assumes wf: "rb_wf rb" and "0 < rb_count rb"
  shows "hd (rb_contents rb) = buffer_ptr rb ! unat (read_index rb)"
proof -
  have "rb_contents rb \<noteq> []" using assms by (metis length_rb_contents length_greater_0_conv)
  then have "hd (rb_contents rb) = rb_contents rb ! 0" by (rule hd_conv_nth)
  also have "\<dots> = rb_ring rb ! unat (read_index rb)"
    using assms by (simp add: rb_contents_def nth_circ_window length_rb_ring rb_wf_iff)
  also have "\<dots> = buffer_ptr rb ! unat (read_index rb)"
    using wf by (simp add: rb_ring_def rb_wf_iff)
  finally show ?thesis .
qed

lemma rb_getchar_data:
  assumes wf: "rb_wf rb" and sp: "rb_contents rb = x # xs"
  shows "\<exists>rb'. rt_ringbuffer_getchar rb = (1, Some x, rb') \<and> rb_wf rb'
    \<and> rb_contents rb' = xs \<and> rb_size rb' = rb_size rb"
proof -
  have c: "0 < rb_count rb" using sp length_rb_contents [of rb] by simp
  let ?r = "unat (read_index rb)" and ?N = "rb_size rb"
  define rb' where "rb' = rb\<lparr>read_mirror := (if ?r = ?N - 1 then \<not> read_mirror rb else read_mirror rb),
      read_index := (if ?r = ?N - 1 then 0 else read_index rb + 1)\<rparr>"
  have eq: "rt_ringbuffer_getchar rb = (1, Some x, rb')"
    using c rb_data_len_0_iff [OF wf] rb_contents_nonempty [OF wf c] sp
    by (simp add: rt_ringbuffer_getchar_def rb'_def rb_last_read [OF wf])
  have "moved ?N 1 ?r (read_mirror rb) (unat (read_index rb')) (read_mirror rb')"
    using index_step [of "read_index rb" ?N "read_mirror rb"] wf rb_size_bound [OF wf]
    by (simp add: rb'_def rb_wf_iff)
  then have "rb_wf rb' \<and> rb_contents rb' = drop 1 (rb_contents rb) \<and> rb_size rb' = rb_size rb"
    by (intro rb_read_moved [OF wf]) (use c in \<open>simp_all add: rb'_def\<close>)
  with eq sp show ?thesis by simp
qed

lemma rb_status_full: "rb_wf rb \<Longrightarrow> rt_ringbuffer_status rb = RT_RINGBUFFER_FULL \<longleftrightarrow> rb_count rb = rb_size rb"
  by (erule rb_wfE) (auto simp: rt_ringbuffer_status_def word_unat_eq_iff split: if_splits)

lemma rb_reset:
  assumes "rb_wf rb"
  shows "rb_wf (rt_ringbuffer_reset rb) \<and> rb_contents (rt_ringbuffer_reset rb) = []
    \<and> rb_size (rt_ringbuffer_reset rb) = rb_size rb"
  using assms by (simp add: rb_wf_iff rt_ringbuffer_reset_def rb_contents_def rb_count_def
      rb_size_def circ_window_def)

lemma rb_putchar_force:
  assumes wf: "rb_wf rb"
  shows "\<exists>rb'. rt_ringbuffer_putchar_force rb ch = Inr (1, rb') \<and> rb_wf rb' \<and> rb_size rb' = rb_size rb
    \<and> rb_contents rb' = (if rb_count rb = rb_size rb then tl (rb_contents rb) else rb_contents rb) @ [ch]"
proof (cases "rb_count rb = rb_size rb")
  case False
  then have "rb_count rb < rb_size rb" using rb_count_bound [OF wf] by simp
  with rb_putchar_space [OF wf this, of ch] rb_space_len [OF wf] rb_status_full [OF wf] False wf
  show ?thesis
    by (auto simp: rt_ringbuffer_putchar_force_def rt_ringbuffer_putchar_def Let_def rb_wf_iff)
next
  case True
  let ?w = "unat (write_index rb)" and ?N = "rb_size rb"
  have full: "rt_ringbuffer_status rb = RT_RINGBUFFER_FULL" using True rb_status_full [OF wf] by simp
  then have same: "read_index rb = write_index rb" "read_mirror rb = (\<not> write_mirror rb)"
    by (auto simp: rt_ringbuffer_status_def split: if_splits)
  define rb' where "rb' = rb\<lparr>buffer_ptr := (buffer_ptr rb)[?w := ch],
      write_mirror := (if ?w = ?N - 1 then \<not> write_mirror rb else write_mirror rb),
      write_index := (if ?w = ?N - 1 then 0 else write_index rb + 1),
      read_mirror := (if ?w = ?N - 1 then \<not> read_mirror rb else read_mirror rb),
      read_index := (if ?w = ?N - 1 then 0 else write_index rb + 1)\<rparr>"
  have eq: "rt_ringbuffer_putchar_force rb ch = Inr (1, rb')"
    using full wf by (simp add: rt_ringbuffer_putchar_force_def rb'_def Let_def rb_last_write [OF wf] rb_wf_iff)
  have b: "0 < ?N" "?w < ?N" "?N < 32768" using wf rb_size_bound [OF wf] by (auto simp: rb_wf_iff)
  have "rb_ring rb' = circ_write (rb_ring rb) ?w [ch] 1 \<and> length (buffer_ptr rb') = length (buffer_ptr rb)"
    by (rule rb_ring_putchar [OF wf]) (simp_all add: rb'_def rb_size_def)
  moreover have "unat (write_index rb') = (?w + 1) mod ?N"
    using index_step [of "write_index rb" ?N "write_mirror rb"] b by (auto simp: rb'_def moved_def split: if_splits)
  ultimately have "rb_wf rb' \<and> rb_size rb' = rb_size rb \<and>
      rb_contents rb' = drop (rb_count rb + 1 - ?N) (rb_contents rb) @ take 1 [ch]"
    by (intro rb_overwrite_moved [OF wf]) (use b True same in \<open>auto simp: rb'_def\<close>)
  with eq True show ?thesis by (simp add: drop_Suc)
qed


lemma rb_peek:
  assumes wf: "rb_wf rb" and peek: "rt_ringbuffer_peek rb = (n, p, rb')"
  shows "rb_wf rb' \<and> rb_size rb' = rb_size rb
    \<and> unat n = min (rb_count rb) (rb_size rb - unat (read_index rb))
    \<and> p = (if rb_count rb = 0 then None else Some (unat (read_index rb)))
    \<and> take (unat n) (drop (unat (read_index rb)) (buffer_ptr rb)) = take (unat n) (rb_contents rb)
    \<and> rb_contents rb' = drop (unat n) (rb_contents rb)"
proof (cases "rb_count rb = 0")
  case True
  then have "rt_ringbuffer_data_len rb = 0" using rb_data_len_0_iff [OF wf] by simp
  with peek wf True show ?thesis by (simp add: rt_ringbuffer_peek_def)
next
  case False
  from wf obtain N r where h: "bsz rb = int N" "rix rb = int r" "unat (read_index rb) = r"
    "rb_size rb = N" "r < N" "N < 32768" "length (rb_ring rb) = N" by (rule rb_wfE)
  define k where "k = rb_count rb"
  have dl: "unat (rt_ringbuffer_data_len rb) = k" "k < 65536" "k \<le> N" "rt_ringbuffer_data_len rb \<noteq> 0"
    using rb_data_len [OF wf] rb_count_bound [OF wf] rb_size_bound [OF wf] False h
      rb_data_len_0_iff [OF wf] by (auto simp: k_def)
  have d: "unat (word_of_int (int N - int r) :: u32) = N - r"
    by (subst unat_of_int_small) (use h in auto)
  have lt: "(word_of_int (bsz rb - rix rb) :: u32) > rt_ringbuffer_data_len rb \<longleftrightarrow> r + k < N"
    unfolding h word_less_nat_alt d dl by arith
  have u: "uint (ucast (rt_ringbuffer_data_len rb) :: u16) = int k"
    using dl by (simp add: uint_eq_int_unat del: of_nat_unat)
  define m where "m = min k (N - r)"
  have r: "unat n = m" "p = Some r" "rb' = (if r + k < N then rb\<lparr>read_index := word_of_int (int r + int k)\<rparr>
      else rb\<lparr>read_mirror := \<not> read_mirror rb, read_index := 0\<rparr>)"
    using peek dl lt u d h unfolding rt_ringbuffer_peek_def Let_def h
    by (auto simp: m_def min_def split: if_splits)
  have mv: "moved N m r (read_mirror rb) (unat (read_index rb')) (read_mirror rb')"
    using index_store_nowrap [of r k N] h dl unfolding r
    by (auto simp: moved_def m_def simp del: of_int_add of_int_of_nat_eq)
  have "rb_wf rb' \<and> rb_contents rb' = drop m (rb_contents rb) \<and> rb_size rb' = rb_size rb"
    by (rule rb_read_moved [OF wf]) (use mv h in \<open>auto simp: r m_def k_def\<close>)
  moreover have "take m (drop r (buffer_ptr rb)) = take m (rb_contents rb)"
  proof -
    have "take m (drop r (buffer_ptr rb)) = take m (drop r (rb_ring rb))"
      using h by (simp add: rb_ring_def drop_take m_def)
    also have "\<dots> = take m (circ_window (rb_ring rb) r k)"
      by (rule circ_window_read_one_chunk) (use h in \<open>auto simp: m_def\<close>)
    finally show ?thesis using h by (simp add: rb_contents_def k_def)
  qed
  ultimately show ?thesis using r False h by (simp add: m_def k_def)
qed

subsection \<open>The ring buffer as a bounded queue\<close>

definition rb_enq :: "u8 \<Rightarrow> rt_ringbuffer \<Rightarrow> rt_ringbuffer option" where
  "rb_enq ch rb = (case rt_ringbuffer_putchar rb ch of (n, rb') \<Rightarrow> if n = 0 then None else Some rb')"

definition rb_deq :: "rt_ringbuffer \<Rightarrow> (u8 \<times> rt_ringbuffer) option" where
  "rb_deq rb = (case rt_ringbuffer_getchar rb of
      (n, Some ch, rb') \<Rightarrow> if n = 0 then None else Some (ch, rb')
    | (n, None, rb') \<Rightarrow> None)"

interpretation rbq: bounded_fifo rb_wf rb_contents rb_size rb_enq rb_deq
proof unfold_locales
  show "length (rb_contents q) \<le> rb_size q" if "rb_wf q" for q
    using rb_count_bound [OF that] by simp
  show "rb_enq x q = None" if "rb_wf q" "length (rb_contents q) = rb_size q" for q x
    using rb_putchar_full [OF that(1)] that(2) by (simp add: rb_enq_def)
  show "\<exists>q'. rb_enq x q = Some q' \<and> rb_wf q' \<and> rb_contents q' = rb_contents q @ [x] \<and> rb_size q' = rb_size q"
    if "rb_wf q" "length (rb_contents q) < rb_size q" for q x
    using rb_putchar_space [OF that(1), of x] that(2) by (auto simp: rb_enq_def)
  show "rb_deq q = None" if "rb_wf q" "rb_contents q = []" for q
  proof -
    have "rb_count q = 0" using that length_rb_contents [of q] by simp
    then show ?thesis using rb_getchar_empty [OF that(1)] by (simp add: rb_deq_def)
  qed
  show "\<exists>q'. rb_deq q = Some (x, q') \<and> rb_wf q' \<and> rb_contents q' = xs \<and> rb_size q' = rb_size q"
    if "rb_wf q" "rb_contents q = x # xs" for q x xs
    using rb_getchar_data [OF that] by (auto simp: rb_deq_def)
qed

lemma rb_init_wf:
  assumes "64 \<le> sint sz" "nat (sint sz) \<le> length pool"
  shows "\<exists>rb. rt_ringbuffer_init pool sz = Inr rb \<and> rb_wf rb \<and> rb_contents rb = []"
proof -
  have sz: "sint sz = int (unat sz)" using assms by (intro sint_nonneg) simp
  define rb where "rb = \<lparr>buffer_ptr = pool, read_mirror = False, read_index = 0,
              write_mirror = False, write_index = 0, buffer_size = RT_ALIGN_DOWN sz 64\<rparr>"
  have "int (unat sz) < int 32768" using sint_lt [of sz] sz by (simp del: of_nat_unat)
  then have "unat sz < 32768" by (rule of_nat_less_imp_less)
  moreover have le: "unat sz div 64 * 64 \<le> unat sz" by simp
  ultimately have "unat (RT_ALIGN_DOWN sz 64) < 2 ^ (LENGTH(16) - 1)"
    by (simp add: unat_RT_ALIGN_DOWN_64)
  then have "sint (RT_ALIGN_DOWN sz 64) = int (unat sz div 64 * 64)"
    by (simp only: sint_small unat_RT_ALIGN_DOWN_64)
  then have "rb_size rb = unat sz div 64 * 64" by (simp add: rb_size_def rb_def)
  moreover have "64 \<le> unat sz" "unat sz \<le> length pool" using assms sz by linarith+
  ultimately have "rb_wf rb" using le by (simp add: rb_wf_iff rb_def div_greater_zero_iff)
  moreover have "rb_contents rb = []" by (simp add: rb_contents_def rb_count_def rb_def circ_window_def)
  moreover have "rt_ringbuffer_init pool sz = Inr rb" using assms by (simp add: rt_ringbuffer_init_def rb_def)
  ultimately show ?thesis by (simp only:) blast
qed


lemma rb_init_small:
  assumes "0 < sint sz" "sint sz < 64"
  shows "\<exists>rb. rt_ringbuffer_init pool sz = Inr rb \<and> buffer_ptr rb = pool \<and> buffer_size rb = 0
    \<and> read_index rb = 0 \<and> write_index rb = 0 \<and> read_mirror rb = write_mirror rb"
proof -
  have "sint sz = int (unat sz)" using assms by (intro sint_nonneg) simp
  then have "unat sz < 64" using assms by linarith
  then have "unat (RT_ALIGN_DOWN sz 64) = 0" by (simp add: unat_RT_ALIGN_DOWN_64)
  then have "RT_ALIGN_DOWN sz 64 = 0" by (simp add: unat_eq_0)
  then show ?thesis using assms by (simp add: rt_ringbuffer_init_def)
qed

fun putchar_force_all :: "rt_ringbuffer \<Rightarrow> u8 list \<Rightarrow> rt_ringbuffer res" where
  "putchar_force_all rb [] = Inr rb"
| "putchar_force_all rb (ch # chs) =
     and_then (rt_ringbuffer_putchar_force rb ch) (\<lambda>(n, rb'). putchar_force_all rb' chs)"

lemma putchar_force_all_zero_size:
  assumes "buffer_size rb = 0" "read_mirror rb = write_mirror rb"
    "length (buffer_ptr rb) < 32768" "unat (write_index rb) + length chs = Suc (length (buffer_ptr rb))"
    "unat (write_index rb) \<le> length (buffer_ptr rb)"
  shows "putchar_force_all rb chs = Inl OutOfBounds"
  using assms
proof (induction chs arbitrary: rb)
  case Nil
  then show ?case by simp
next
  case (Cons ch chs)
  show ?case
  proof (cases "unat (write_index rb) < length (buffer_ptr rb)")
    case False
    then show ?thesis by (simp add: rt_ringbuffer_putchar_force_def)
  next
    case True
    let ?rb = "rb\<lparr>buffer_ptr := (buffer_ptr rb)[unat (write_index rb) := ch], write_index := write_index rb + 1\<rparr>"
    have "0 \<le> wix rb" "bsz rb = 0" using Cons.prems(1) by simp_all
    then have "wix rb \<noteq> bsz rb - 1" by linarith
    moreover have "rt_ringbuffer_status rb \<noteq> RT_RINGBUFFER_FULL"
      using Cons.prems(2) by (simp add: rt_ringbuffer_status_def)
    ultimately have step: "rt_ringbuffer_putchar_force rb ch = Inr (1, ?rb)"
      using True by (simp add: rt_ringbuffer_putchar_force_def Let_def)
    have "unat (write_index rb + 1) = Suc (unat (write_index rb))"
      using True Cons.prems(3) by (simp add: unat_word_ariths unsigned_1)
    then have "putchar_force_all ?rb chs = Inl OutOfBounds"
      using Cons.prems True by (intro Cons.IH) auto
    with step show ?thesis by simp
  qed
qed

subsection \<open>Properties\<close>

text \<open>
  \<open>rt_ringbuffer_put\<close> appends to the readable bytes exactly as much of the block as fits, returns
  that count and keeps the invariant; no byte already in the buffer is lost.
\<close>

theorem ringbuffer_put_appends:
  assumes "rb_wf rb" and "unat len \<le> length ptr" and "rt_ringbuffer_put rb ptr len = (n, rb')"
  shows "rb_wf rb' \<and> unat n = min (unat len) (rb_size rb - length (rb_contents rb))
    \<and> rb_contents rb' = rb_contents rb @ take (unat n) ptr \<and> rb_size rb' = rb_size rb"
  using rb_put [OF assms] by simp

text \<open>
  \<open>rt_ringbuffer_put_force\<close> keeps the newest bytes: the buffer then holds the last \<open>buffer_size\<close>
  bytes of the old contents followed by the block.
\<close>

theorem ringbuffer_put_force_keeps_newest:
  assumes "rb_wf rb" and "unat len \<le> length ptr" and "rt_ringbuffer_put_force rb ptr len = (n, rb')"
  shows "rb_wf rb' \<and> unat n = min (unat len) (rb_size rb) \<and> rb_size rb' = rb_size rb
    \<and> rb_contents rb' =
        drop (length (rb_contents rb @ take (unat len) ptr) - rb_size rb) (rb_contents rb @ take (unat len) ptr)"
  using rb_put_force [OF assms] by simp

text \<open>
  \<open>rt_ringbuffer_get\<close> delivers the oldest bytes in order and removes exactly those.
\<close>

theorem ringbuffer_get_takes_oldest:
  assumes "rb_wf rb" and "rt_ringbuffer_get rb len = (n, bs, rb')"
  shows "rb_wf rb' \<and> unat n = min (unat len) (length (rb_contents rb)) \<and> rb_size rb' = rb_size rb
    \<and> bs @ rb_contents rb' = rb_contents rb \<and> length bs = unat n"
  using rb_get [OF assms] by simp

text \<open>
  C8. Any sequence of \<open>rt_ringbuffer_putchar\<close> and \<open>rt_ringbuffer_getchar\<close> calls gives the answers of a
  bounded first-in-first-out queue that starts with the readable bytes.
\<close>

theorem ringbuffer_refines_queue:
  assumes "rb_wf rb"
  shows "qrun rb_enq rb_deq ops rb = qrun (list_enq (rb_size rb)) list_deq ops (rb_contents rb)"
  using assms by (rule rbq.qrun_list)

text \<open>
  A pool of fewer than \<open>RT_ALIGN_SIZE\<close> bytes is accepted by \<open>rt_ringbuffer_init\<close>, but its capacity
  is rounded down to zero, and forced single-byte writes then run past the end of the pool.
\<close>

theorem ringbuffer_small_pool_overruns:
  assumes "0 < sint sz" and "sint sz < 64" and "length pool = nat (sint sz)"
    and "length chs = Suc (length pool)"
  shows "\<exists>rb. rt_ringbuffer_init pool sz = Inr rb \<and> rb_size rb = 0
    \<and> putchar_force_all rb chs = Inl OutOfBounds"
proof -
  obtain rb where rb: "rt_ringbuffer_init pool sz = Inr rb" "buffer_ptr rb = pool"
    "buffer_size rb = 0" "write_index rb = 0" "read_mirror rb = write_mirror rb"
    using rb_init_small [OF assms(1,2), of pool] by auto
  then have "putchar_force_all rb chs = Inl OutOfBounds"
    using assms by (intro putchar_force_all_zero_size) auto
  with rb show ?thesis by (simp add: rb_size_def)
qed

subsection \<open>Witnesses\<close>

text \<open>A buffer of 64 bytes that has wrapped: the reader at 62, the writer at 1 in the other mirror.\<close>

definition rb_example :: rt_ringbuffer where
  "rb_example = \<lparr>buffer_ptr = replicate 62 0 @ [7, 8], read_mirror = False, read_index = 62,
     write_mirror = True, write_index = 0, buffer_size = 64\<rparr>"

lemma rb_example_wf: "rb_wf rb_example"
  by (simp add: rb_wf_iff rb_example_def rb_size_def)

theorem ringbuffer_put_appends_witness:
  "\<exists>n rb'. rt_ringbuffer_put rb_example [1, 2, 3] 3 = (n, rb') \<and> rb_wf rb' \<and> unat n = 3"
proof -
  obtain n rb' where p: "rt_ringbuffer_put rb_example [1, 2, 3] 3 = (n, rb')" by fastforce
  have c: "length (rb_contents rb_example) = 2" "rb_size rb_example = 64"
    by (simp_all add: rb_count_def rb_example_def rb_size_def)
  show ?thesis using ringbuffer_put_appends [OF rb_example_wf _ p] p c by simp
qed

theorem ringbuffer_put_force_keeps_newest_witness:
  "\<exists>n rb'. rt_ringbuffer_put_force rb_example [1, 2, 3] 3 = (n, rb') \<and> rb_wf rb' \<and> unat n = 3"
proof -
  obtain n rb' where p: "rt_ringbuffer_put_force rb_example [1, 2, 3] 3 = (n, rb')" by fastforce
  have c: "rb_size rb_example = 64" by (simp add: rb_example_def rb_size_def)
  show ?thesis using ringbuffer_put_force_keeps_newest [OF rb_example_wf _ p] p c by simp
qed

theorem ringbuffer_get_takes_oldest_witness:
  "\<exists>n bs rb'. rt_ringbuffer_get rb_example 1 = (n, bs, rb') \<and> rb_wf rb' \<and> length bs = 1"
proof -
  obtain n bs rb' where p: "rt_ringbuffer_get rb_example 1 = (n, bs, rb')" by (metis prod_cases3)
  have c: "length (rb_contents rb_example) = 2"
    by (simp add: rb_count_def rb_example_def rb_size_def)
  show ?thesis using ringbuffer_get_takes_oldest [OF rb_example_wf p] p c by simp
qed

theorem ringbuffer_refines_queue_witness:
  "qrun rb_enq rb_deq [Deq, Enq 5, Deq, Deq, Deq] rb_example = [Got 7, Accepted, Got 8, Got 5, Nothing]"
proof -
  have c: "rb_contents rb_example = [7, 8]" "rb_size rb_example = 64"
    by code_simp+
  show ?thesis
    using ringbuffer_refines_queue [OF rb_example_wf, of "[Deq, Enq 5, Deq, Deq, Deq]"] c
    by (simp add: list_enq_def)
qed

theorem ringbuffer_small_pool_overruns_witness:
  "\<exists>rb. rt_ringbuffer_init [0, 0] 2 = Inr rb \<and> rb_size rb = 0
     \<and> putchar_force_all rb [1, 2, 3] = Inl OutOfBounds"
  by (rule ringbuffer_small_pool_overruns) simp_all

end
