(* ===== verification/Rt_Kernel.thy ===== *)
theory Rt_Kernel
  imports Rt_Prelude
begin

unbundle bit_operations_syntax

text \<open>
  The kernel state, from the structures of \<open>include/rtdef.h\<close>. An object is named by an index
  instead of its address, so every named object is valid; the null pointer is \<open>None\<close>. A thread is
  linked into at most one list through its node \<open>tlist\<close>: all these lists (ready lists, suspend
  lists of the IPC objects) are the values of one map \<open>queues\<close>, and \<open>rt_list_remove\<close> takes a
  thread out of whichever list holds it.

  The build is the two-core one of \<open>rtconfig.h\<close>: \<open>RT_USING_SMP\<close>, \<open>RT_CPUS_NR\<close> 2,
  \<open>RT_THREAD_PRIORITY_MAX\<close> 32, no signals. The section between \<open>rt_hw_interrupt_disable\<close> and
  \<open>rt_hw_interrupt_enable\<close> holds the one lock of all cores, so it is one atomic step.
\<close>

type_synonym tid = nat
type_synonym cpuid = nat

text \<open>Error codes of \<open>rtdef.h\<close> as the functions return them.\<close>

abbreviation RT_EOK :: int where "RT_EOK \<equiv> 0"
abbreviation RT_ERROR :: int where "RT_ERROR \<equiv> 1"
abbreviation RT_ETIMEOUT :: int where "RT_ETIMEOUT \<equiv> 2"
abbreviation RT_EEMPTY :: int where "RT_EEMPTY \<equiv> 4"
abbreviation RT_ENOMEM :: int where "RT_ENOMEM \<equiv> 5"
abbreviation RT_ENOSYS :: int where "RT_ENOSYS \<equiv> 6"
abbreviation RT_EBUSY :: int where "RT_EBUSY \<equiv> 7"
abbreviation RT_EFULL :: int where "RT_EFULL \<equiv> 3"
abbreviation RT_EINVAL :: int where "RT_EINVAL \<equiv> 10"

abbreviation RT_CPUS_NR :: nat where "RT_CPUS_NR \<equiv> 2"
abbreviation RT_CPU_DETACHED :: nat where "RT_CPU_DETACHED \<equiv> 2"

text \<open>Thread states and flags in the byte \<open>stat\<close>.\<close>

definition RT_THREAD_INIT :: u8 where "RT_THREAD_INIT = 0"
definition RT_THREAD_READY :: u8 where "RT_THREAD_READY = 1"
definition RT_THREAD_SUSPEND :: u8 where "RT_THREAD_SUSPEND = 2"
definition RT_THREAD_RUNNING :: u8 where "RT_THREAD_RUNNING = 3"
definition RT_THREAD_CLOSE :: u8 where "RT_THREAD_CLOSE = 4"
definition RT_THREAD_STAT_MASK :: u8 where "RT_THREAD_STAT_MASK = 7"
definition RT_THREAD_STAT_YIELD :: u8 where "RT_THREAD_STAT_YIELD = 8"

lemmas stat_defs [rt_simps] = RT_THREAD_INIT_def RT_THREAD_READY_def RT_THREAD_SUSPEND_def
  RT_THREAD_RUNNING_def RT_THREAD_CLOSE_def RT_THREAD_STAT_MASK_def RT_THREAD_STAT_YIELD_def

datatype timer_id = ThreadTimer tid | UserTimer nat

record rt_thread =
  error :: int
  stat :: u8
  bind_cpu :: nat
  oncpu :: nat
  scheduler_lock_nest :: u16
  cpus_lock_nest :: u16
  critical_lock_nest :: u16
  current_priority :: u8
  init_priority :: u8
  number_mask :: u32
  taken_object_list :: "nat list"
  pending_object :: "nat option"
  event_set :: u32
  event_info :: u8
  init_tick :: u32
  remaining_tick :: u32
  sp :: u32
  stack_addr :: u32
  stack_size :: u32
  stack_magic :: u8

record rt_cpu =
  current_thread :: "tid option"
  irq_nest :: u16
  irq_switch_flag :: u8
  cpu_priority :: u8
  priority_group :: u32
  tick :: u32

record rt_timer =
  timer_flag :: u8
  timer_init_tick :: u32
  timeout_tick :: u32

record rt_semaphore =
  sem_flag :: u8
  sem_value :: u16

record rt_mutex =
  ceiling_priority :: u8
  mutex_priority :: u8
  hold :: u8
  owner :: "tid option"

record rt_event =
  event_flag :: u8
  set_bits :: u32

datatype qid = Ready u8 | CpuReady cpuid u8
  | SemQ nat | MutexQ nat | EventQ nat | MbQ nat | MbSendQ nat | MqQ nat | MqSendQ nat | MpQ nat
  | CompletionQ nat | DqPushQ nat | DqPopQ nat | WorkQ nat
  | Defunct

datatype tqid = HardTimers | SoftTimers | HardFiring | SoftFiring

record kernel =
  threads :: "tid \<Rightarrow> rt_thread"
  cpus :: "cpuid \<Rightarrow> rt_cpu"
  queues :: "qid \<Rightarrow> tid list"
  ready_priority_group :: u32
  ipi_mask :: u32
  timers :: "timer_id \<Rightarrow> rt_timer"
  timer_q :: "tqid \<Rightarrow> timer_id list"
  timer_thread :: tid
  soft_timer_idle :: bool
  sems :: "nat \<Rightarrow> rt_semaphore"
  mutexes :: "nat \<Rightarrow> rt_mutex"
  events :: "nat \<Rightarrow> rt_event"
  rt_errno :: int

text \<open>
  A call that may suspend its thread either returns a code, or leaves the thread suspended; the
  statements after the suspension run when the thread is scheduled again.
\<close>

datatype outcome = Return int | Blocked

subsection \<open>Access to one object\<close>

definition upd_thread :: "tid \<Rightarrow> (rt_thread \<Rightarrow> rt_thread) \<Rightarrow> kernel \<Rightarrow> kernel" where
  "upd_thread t f s = s\<lparr>threads := (threads s)(t := f (threads s t))\<rparr>"

definition upd_cpu :: "cpuid \<Rightarrow> (rt_cpu \<Rightarrow> rt_cpu) \<Rightarrow> kernel \<Rightarrow> kernel" where
  "upd_cpu c f s = s\<lparr>cpus := (cpus s)(c := f (cpus s c))\<rparr>"

definition upd_timer :: "timer_id \<Rightarrow> (rt_timer \<Rightarrow> rt_timer) \<Rightarrow> kernel \<Rightarrow> kernel" where
  "upd_timer t f s = s\<lparr>timers := (timers s)(t := f (timers s t))\<rparr>"

definition upd_sem :: "nat \<Rightarrow> (rt_semaphore \<Rightarrow> rt_semaphore) \<Rightarrow> kernel \<Rightarrow> kernel" where
  "upd_sem i f s = s\<lparr>sems := (sems s)(i := f (sems s i))\<rparr>"

definition upd_mutex :: "nat \<Rightarrow> (rt_mutex \<Rightarrow> rt_mutex) \<Rightarrow> kernel \<Rightarrow> kernel" where
  "upd_mutex i f s = s\<lparr>mutexes := (mutexes s)(i := f (mutexes s i))\<rparr>"

definition upd_event :: "nat \<Rightarrow> (rt_event \<Rightarrow> rt_event) \<Rightarrow> kernel \<Rightarrow> kernel" where
  "upd_event i f s = s\<lparr>events := (events s)(i := f (events s i))\<rparr>"

lemmas upd_defs [rt_simps] = upd_thread_def upd_cpu_def upd_timer_def upd_sem_def upd_mutex_def upd_event_def

definition thread_stat :: "kernel \<Rightarrow> tid \<Rightarrow> u8" where
  "thread_stat s t = stat (threads s t) AND RT_THREAD_STAT_MASK"

definition set_stat :: "u8 \<Rightarrow> rt_thread \<Rightarrow> rt_thread" where
  "set_stat x th = th\<lparr>stat := x OR (stat th AND NOT RT_THREAD_STAT_MASK)\<rparr>"

subsection \<open>Lists of threads\<close>

text \<open>
  \<open>rt_list_insert_after(head, n)\<close> puts a thread first, \<open>rt_list_insert_before(head, n)\<close> last.
\<close>

definition rt_list_insert_after :: "qid \<Rightarrow> tid \<Rightarrow> kernel \<Rightarrow> kernel" where
  "rt_list_insert_after q t s = s\<lparr>queues := (queues s)(q := t # queues s q)\<rparr>"

definition rt_list_insert_before :: "qid \<Rightarrow> tid \<Rightarrow> kernel \<Rightarrow> kernel" where
  "rt_list_insert_before q t s = s\<lparr>queues := (queues s)(q := queues s q @ [t])\<rparr>"

definition rt_list_remove :: "tid \<Rightarrow> kernel \<Rightarrow> kernel" where
  "rt_list_remove t s = s\<lparr>queues := (\<lambda>q. removeAll t (queues s q))\<rparr>"

definition rt_list_isempty :: "qid \<Rightarrow> kernel \<Rightarrow> bool" where
  "rt_list_isempty q s \<longleftrightarrow> queues s q = []"

lemmas list_defs [rt_simps] = rt_list_insert_after_def rt_list_insert_before_def rt_list_remove_def
  rt_list_isempty_def

text \<open>A thread is linked when it is in some list; well-formed lists link a thread once.\<close>

definition linked :: "kernel \<Rightarrow> tid \<Rightarrow> bool" where
  "linked s t \<longleftrightarrow> (\<exists>q. t \<in> set (queues s q))"

definition queues_wf :: "kernel \<Rightarrow> bool" where
  "queues_wf s \<longleftrightarrow> (\<forall>q. distinct (queues s q))
     \<and> (\<forall>q q' t. t \<in> set (queues s q) \<longrightarrow> t \<in> set (queues s q') \<longrightarrow> q = q')"

lemma queues_wf_remove: "queues_wf s \<Longrightarrow> queues_wf (rt_list_remove t s)"
  by (auto simp: queues_wf_def rt_list_remove_def distinct_removeAll)

lemma not_linked_remove [simp]: "\<not> linked (rt_list_remove t s) t"
  by (simp add: linked_def rt_list_remove_def)

lemma queues_wf_insert_after: "queues_wf s \<Longrightarrow> \<not> linked s t \<Longrightarrow> queues_wf (rt_list_insert_after q t s)"
  by (auto simp: queues_wf_def rt_list_insert_after_def linked_def)

lemma queues_wf_insert_before: "queues_wf s \<Longrightarrow> \<not> linked s t \<Longrightarrow> queues_wf (rt_list_insert_before q t s)"
  by (auto simp: queues_wf_def rt_list_insert_before_def linked_def)

lemma queues_wf_cong: "queues s' = queues s \<Longrightarrow> queues_wf s' = queues_wf s"
  by (simp add: queues_wf_def)

lemma linked_cong: "queues s' = queues s \<Longrightarrow> linked s' = linked s"
  by (simp add: linked_def fun_eq_iff)

text \<open>What a function update leaves alone.\<close>

lemma upd_thread_sel [simp]:
  "cpus (upd_thread t f s) = cpus s" "queues (upd_thread t f s) = queues s"
  "ready_priority_group (upd_thread t f s) = ready_priority_group s" "ipi_mask (upd_thread t f s) = ipi_mask s"
  "timers (upd_thread t f s) = timers s" "timer_q (upd_thread t f s) = timer_q s"
  "timer_thread (upd_thread t f s) = timer_thread s" "soft_timer_idle (upd_thread t f s) = soft_timer_idle s"
  "sems (upd_thread t f s) = sems s" "mutexes (upd_thread t f s) = mutexes s" "events (upd_thread t f s) = events s"
  "threads (upd_thread t f s) = (threads s)(t := f (threads s t))"
  by (simp_all add: upd_thread_def)

lemma upd_cpu_sel [simp]:
  "threads (upd_cpu t f s) = threads s" "queues (upd_cpu t f s) = queues s"
  "ready_priority_group (upd_cpu t f s) = ready_priority_group s" "ipi_mask (upd_cpu t f s) = ipi_mask s"
  "timers (upd_cpu t f s) = timers s" "timer_q (upd_cpu t f s) = timer_q s"
  "timer_thread (upd_cpu t f s) = timer_thread s" "soft_timer_idle (upd_cpu t f s) = soft_timer_idle s"
  "sems (upd_cpu t f s) = sems s" "mutexes (upd_cpu t f s) = mutexes s" "events (upd_cpu t f s) = events s"
  "cpus (upd_cpu t f s) = (cpus s)(t := f (cpus s t))"
  by (simp_all add: upd_cpu_def)

lemma upd_timer_sel [simp]:
  "threads (upd_timer t f s) = threads s" "queues (upd_timer t f s) = queues s" "cpus (upd_timer t f s) = cpus s"
  "ready_priority_group (upd_timer t f s) = ready_priority_group s" "ipi_mask (upd_timer t f s) = ipi_mask s"
  "timers (upd_timer t f s) = (timers s)(t := f (timers s t))" "timer_q (upd_timer t f s) = timer_q s"
  "timer_thread (upd_timer t f s) = timer_thread s" "soft_timer_idle (upd_timer t f s) = soft_timer_idle s"
  "sems (upd_timer t f s) = sems s" "mutexes (upd_timer t f s) = mutexes s" "events (upd_timer t f s) = events s"
  by (simp_all add: upd_timer_def)

lemma upd_sem_sel [simp]:
  "threads (upd_sem t f s) = threads s" "queues (upd_sem t f s) = queues s" "cpus (upd_sem t f s) = cpus s"
  "ready_priority_group (upd_sem t f s) = ready_priority_group s" "ipi_mask (upd_sem t f s) = ipi_mask s"
  "timers (upd_sem t f s) = timers s" "timer_q (upd_sem t f s) = timer_q s"
  "timer_thread (upd_sem t f s) = timer_thread s" "soft_timer_idle (upd_sem t f s) = soft_timer_idle s"
  "sems (upd_sem t f s) = (sems s)(t := f (sems s t))" "mutexes (upd_sem t f s) = mutexes s" "events (upd_sem t f s) = events s"
  by (simp_all add: upd_sem_def)

lemma upd_mutex_sel [simp]:
  "threads (upd_mutex t f s) = threads s" "queues (upd_mutex t f s) = queues s" "cpus (upd_mutex t f s) = cpus s"
  "ready_priority_group (upd_mutex t f s) = ready_priority_group s" "ipi_mask (upd_mutex t f s) = ipi_mask s"
  "timers (upd_mutex t f s) = timers s" "timer_q (upd_mutex t f s) = timer_q s"
  "timer_thread (upd_mutex t f s) = timer_thread s" "soft_timer_idle (upd_mutex t f s) = soft_timer_idle s"
  "sems (upd_mutex t f s) = sems s" "mutexes (upd_mutex t f s) = (mutexes s)(t := f (mutexes s t))" "events (upd_mutex t f s) = events s"
  by (simp_all add: upd_mutex_def)

lemma upd_event_sel [simp]:
  "threads (upd_event t f s) = threads s" "queues (upd_event t f s) = queues s" "cpus (upd_event t f s) = cpus s"
  "ready_priority_group (upd_event t f s) = ready_priority_group s" "ipi_mask (upd_event t f s) = ipi_mask s"
  "timers (upd_event t f s) = timers s" "timer_q (upd_event t f s) = timer_q s"
  "timer_thread (upd_event t f s) = timer_thread s" "soft_timer_idle (upd_event t f s) = soft_timer_idle s"
  "sems (upd_event t f s) = sems s" "mutexes (upd_event t f s) = mutexes s" "events (upd_event t f s) = (events s)(t := f (events s t))"
  by (simp_all add: upd_event_def)

subsection \<open>The state byte\<close>

lemma set_stat_sel [simp]:
  "error (set_stat x th) = error th" "bind_cpu (set_stat x th) = bind_cpu th" "oncpu (set_stat x th) = oncpu th"
  "current_priority (set_stat x th) = current_priority th" "init_priority (set_stat x th) = init_priority th"
  "number_mask (set_stat x th) = number_mask th" "taken_object_list (set_stat x th) = taken_object_list th"
  "pending_object (set_stat x th) = pending_object th" "event_set (set_stat x th) = event_set th"
  "event_info (set_stat x th) = event_info th" "scheduler_lock_nest (set_stat x th) = scheduler_lock_nest th"
  "cpus_lock_nest (set_stat x th) = cpus_lock_nest th" "critical_lock_nest (set_stat x th) = critical_lock_nest th"
  by (simp_all add: set_stat_def)

text \<open>Writing a state into the low bits of the byte reads back as that state.\<close>

lemma stat_set_stat:
  assumes "x AND RT_THREAD_STAT_MASK = x"
  shows "stat (set_stat x th) AND RT_THREAD_STAT_MASK = x"
proof -
  have "(x OR (b AND NOT m)) AND m = x AND m" for b m :: u8
    by (rule bit_eqI) (auto simp: bit_simps)
  then show ?thesis using assms by (simp add: set_stat_def)
qed

lemma stat_set_stat_simps [simp]:
  "stat (set_stat RT_THREAD_READY th) AND RT_THREAD_STAT_MASK = RT_THREAD_READY"
  "stat (set_stat RT_THREAD_SUSPEND th) AND RT_THREAD_STAT_MASK = RT_THREAD_SUSPEND"
  "stat (set_stat RT_THREAD_RUNNING th) AND RT_THREAD_STAT_MASK = RT_THREAD_RUNNING"
  by (rule stat_set_stat, simp add: stat_defs)+

lemma stat_distinct [simp]:
  "RT_THREAD_READY \<noteq> RT_THREAD_SUSPEND" "RT_THREAD_READY \<noteq> RT_THREAD_RUNNING" "RT_THREAD_READY \<noteq> RT_THREAD_INIT"
  "RT_THREAD_SUSPEND \<noteq> RT_THREAD_READY" "RT_THREAD_SUSPEND \<noteq> RT_THREAD_RUNNING" "RT_THREAD_SUSPEND \<noteq> RT_THREAD_INIT"
  "RT_THREAD_RUNNING \<noteq> RT_THREAD_READY" "RT_THREAD_RUNNING \<noteq> RT_THREAD_SUSPEND" "RT_THREAD_RUNNING \<noteq> RT_THREAD_INIT"
  "RT_THREAD_INIT \<noteq> RT_THREAD_READY" "RT_THREAD_INIT \<noteq> RT_THREAD_SUSPEND" "RT_THREAD_INIT \<noteq> RT_THREAD_RUNNING"
  "RT_THREAD_CLOSE \<noteq> RT_THREAD_READY" "RT_THREAD_CLOSE \<noteq> RT_THREAD_SUSPEND" "RT_THREAD_CLOSE \<noteq> RT_THREAD_RUNNING"
  "RT_THREAD_READY \<noteq> RT_THREAD_CLOSE" "RT_THREAD_SUSPEND \<noteq> RT_THREAD_CLOSE" "RT_THREAD_RUNNING \<noteq> RT_THREAD_CLOSE"
  by (simp_all add: stat_defs)

end
