(* ===== verification/Rt_Ffs.thy ===== *)
theory Rt_Ffs
  imports Rt_Prelude
begin

unbundle bit_operations_syntax

text \<open>
  \<open>__rt_ffs\<close>: the index of the lowest set bit, counted from 1, and 0 for 0. The scheduler finds the
  highest ready priority with it. Three implementations are in the tree: the compiler builtin of
  \<open>libcpu/arm/cortex-a/cpu.c\<close>, which this build uses, and the two table look-ups of
  \<open>src/kservice.c\<close> for ports without such an instruction. All three are the same function.
\<close>

definition rt_ffs :: "u32 \<Rightarrow> u32" where
  "rt_ffs value = (case filter (bit value) [0..<32] of [] \<Rightarrow> 0 | i # is \<Rightarrow> word_of_nat (Suc i))"

definition lowest_bit_bitmap :: "u8 list" where
  "lowest_bit_bitmap =
    (let low = [0, 1, 0, 2, 0, 1, 0, 3, 0, 1, 0, 2, 0, 1, 0] in
     [0] @ low @ [4] @ low @ [5] @ low @ [4] @ low @ [6] @ low @ [4] @ low @ [5] @ low @ [4] @ low
     @ [7] @ low @ [4] @ low @ [5] @ low @ [4] @ low @ [6] @ low @ [4] @ low @ [5] @ low @ [4] @ low)"

definition rt_ffs_table :: "u32 \<Rightarrow> u32" where
  "rt_ffs_table value =
    (if value = 0 then 0
     else if value AND 0xff \<noteq> 0 then ucast (lowest_bit_bitmap ! unat (value AND 0xff)) + 1
     else if value AND 0xff00 \<noteq> 0 then ucast (lowest_bit_bitmap ! unat (drop_bit 8 (value AND 0xff00))) + 9
     else if value AND 0xff0000 \<noteq> 0 then ucast (lowest_bit_bitmap ! unat (drop_bit 16 (value AND 0xff0000))) + 17
     else ucast (lowest_bit_bitmap ! unat (drop_bit 24 (value AND 0xff000000))) + 25)"

definition tiny_lowest_bit_bitmap :: "u8 list" where
  "tiny_lowest_bit_bitmap =
    [0, 1, 2, 27, 3, 24, 28, 32, 4, 17, 25, 31, 29, 12, 32, 14, 5, 8, 18, 32, 26, 23, 32, 16,
     30, 11, 13, 7, 32, 22, 15, 10, 6, 21, 9, 20, 19]"

definition rt_ffs_tiny :: "u32 \<Rightarrow> u32" where
  "rt_ffs_tiny value = ucast (tiny_lowest_bit_bitmap ! (unat ((value AND (value - 1)) XOR value) mod 37))"

lemma rt_ffs_0 [simp]: "rt_ffs 0 = 0"
  by (simp add: rt_ffs_def)

lemma rt_ffs_least:
  assumes "bit v n" "\<And>i. i < n \<Longrightarrow> \<not> bit v i"
  shows "rt_ffs v = word_of_nat (Suc n)"
proof -
  from assms(1) have n: "n < 32" using bit_imp_le_length [of v n] by simp
  have "[0..<32] = [0..<n] @ n # [Suc n..<32]"
    using n upt_add_eq_append [of 0 n "32 - n"] by (simp add: upt_conv_Cons)
  moreover have "filter (bit v) [0..<n] = []" using assms(2) by (auto simp: filter_empty_conv)
  ultimately show ?thesis using assms(1) by (simp add: rt_ffs_def)
qed

lemma lowest_bit_ex:
  assumes "v \<noteq> (0 :: u32)"
  shows "\<exists>n. bit v n \<and> (\<forall>i < n. \<not> bit v i) \<and> n < 32"
proof -
  from assms have ex: "\<exists>n. bit v n" by (auto simp: bit_eq_iff)
  define m where "m = (LEAST n. bit v n)"
  have m: "bit v m" unfolding m_def using ex by (rule LeastI_ex)
  moreover have "\<forall>i < m. \<not> bit v i" unfolding m_def using not_less_Least by blast
  moreover have "m < 32" using m bit_imp_le_length [of v m] by simp
  ultimately show ?thesis by blast
qed

lemma rt_ffs_bit:
  assumes "v \<noteq> 0"
  shows "rt_ffs v \<noteq> 0" "unat (rt_ffs v - 1) < 32" "bit v (unat (rt_ffs v - 1))"
    "\<And>i. bit v i \<Longrightarrow> unat (rt_ffs v - 1) \<le> i"
proof -
  obtain n where n: "bit v n" "\<And>i. i < n \<Longrightarrow> \<not> bit v i" "n < 32" using lowest_bit_ex [OF assms] by auto
  then have f: "rt_ffs v = word_of_nat (Suc n)" by (simp add: rt_ffs_least)
  have "unat (word_of_nat (Suc n) :: u32) = Suc n" by (rule unat_of_nat_small) (use n in simp)
  then show "rt_ffs v \<noteq> 0" using f by auto
  have u: "unat (rt_ffs v - 1) = n"
  proof -
    have "rt_ffs v - 1 = word_of_nat n" by (simp add: f)
    then show ?thesis using n(3) by (simp add: unat_of_nat_small)
  qed
  show "unat (rt_ffs v - 1) < 32" "bit v (unat (rt_ffs v - 1))" using n u by simp_all
  show "unat (rt_ffs v - 1) \<le> i" if "bit v i" for i using that n(2) u not_less by metis
qed

lemma lowest_bit_bitmap_bytes:
  "list_all (\<lambda>(b, w). b = 0 \<or> (w < 8 \<and> b mod 2 ^ Suc (unat w) = 2 ^ unat w))
     (zip [0..255 :: int] lowest_bit_bitmap)"
  by code_simp

lemma length_lowest_bit_bitmap: "length lowest_bit_bitmap = 256"
  by (simp add: lowest_bit_bitmap_def Let_def)

lemma take_bit_lowest:
  assumes "take_bit (Suc n) (b :: nat) = 2 ^ n"
  shows "bit b n" "\<And>i. i < n \<Longrightarrow> \<not> bit b i"
proof -
  have e: "bit b i \<longleftrightarrow> bit (take_bit (Suc n) b) i" if "i \<le> n" for i using that by (simp add: bit_simps)
  show "bit b n" using e [of n] assms by (simp add: bit_exp_iff)
  show "\<not> bit b i" if "i < n" for i using e [of i] that assms by (simp add: bit_exp_iff)
qed

lemma lowest_bit_bitmap_byte:
  assumes "0 < b" "b < 256"
  shows "unat (lowest_bit_bitmap ! b) < 8" "bit b (unat (lowest_bit_bitmap ! b))"
    "\<And>i. i < unat (lowest_bit_bitmap ! b) \<Longrightarrow> \<not> bit b i"
proof -
  let ?w = "lowest_bit_bitmap ! b"
  have "zip [0..255 :: int] lowest_bit_bitmap ! b = (int b, ?w)"
    using assms by (simp add: length_lowest_bit_bitmap nth_zip)
  moreover have "b < length (zip [0..255 :: int] lowest_bit_bitmap)"
    using assms by (simp add: length_lowest_bit_bitmap)
  ultimately have "(int b, ?w) \<in> set (zip [0..255 :: int] lowest_bit_bitmap)"
    by (metis nth_mem)
  with lowest_bit_bitmap_bytes assms have w: "?w < 8" "int b mod 2 ^ Suc (unat ?w) = 2 ^ unat ?w"
    unfolding list_all_iff by fastforce+
  from w(1) show "unat ?w < 8" by (simp add: word_less_nat_alt)
  from w(2) have "int (b mod 2 ^ Suc (unat ?w)) = int (2 ^ unat ?w)"
    by (simp add: zmod_int)
  then have "take_bit (Suc (unat ?w)) b = 2 ^ unat ?w" by (simp only: of_nat_eq_iff take_bit_eq_mod)
  note low = take_bit_lowest [OF this]
  show "bit b (unat ?w)" by (rule low)
  show "\<not> bit b i" if "i < unat ?w" for i using that by (rule low)
qed

lemma ffs_of_byte:
  assumes "(v :: u32) AND push_bit k 0xff \<noteq> 0" "\<And>i. i < k \<Longrightarrow> \<not> bit v i" "k \<le> 24"
  shows "rt_ffs v = ucast (lowest_bit_bitmap ! unat (drop_bit k (v AND push_bit k 0xff))) + word_of_nat (Suc k)"
proof -
  define b where "b = unat (drop_bit k (v AND push_bit k 0xff))"
  have ff: "(0xff :: u32) = mask 8" by (simp add: mask_eq_exp_minus_1)
  have bit_b: "bit b i \<longleftrightarrow> i < 8 \<and> bit v (k + i)" for i
    unfolding b_def ff using assms(3) by (auto simp: bit_simps)
  have "b < 256"
  proof -
    have "b = take_bit 8 b" by (rule bit_eqI) (auto simp: bit_simps bit_b)
    moreover have "take_bit 8 b < 2 ^ 8" by (rule take_bit_nat_less_exp)
    ultimately show ?thesis by simp
  qed
  moreover have "0 < b"
  proof (rule ccontr)
    assume "\<not> 0 < b"
    then have "\<not> bit b i" for i by simp
    then have "v AND push_bit k 0xff = 0"
      unfolding ff by (intro bit_eqI) (auto simp: bit_simps bit_b le_iff_add)
    with assms(1) show False by simp
  qed
  ultimately have m: "unat (lowest_bit_bitmap ! b) < 8" "bit b (unat (lowest_bit_bitmap ! b))"
    "\<And>i. i < unat (lowest_bit_bitmap ! b) \<Longrightarrow> \<not> bit b i"
    using lowest_bit_bitmap_byte by auto
  define m where "m = unat (lowest_bit_bitmap ! b)"
  have "rt_ffs v = word_of_nat (Suc (k + m))"
  proof (rule rt_ffs_least)
    show "bit v (k + m)" using m bit_b by (simp add: m_def)
    show "\<not> bit v i" if "i < k + m" for i
    proof (cases "i < k")
      case False
      then obtain j where "i = k + j" by (metis le_iff_add not_less)
      with that m bit_b show ?thesis by (auto simp: m_def)
    qed (use assms in simp)
  qed
  moreover have "(ucast (lowest_bit_bitmap ! b) :: u32) = word_of_nat m"
    by (simp add: m_def)
  ultimately show ?thesis by (simp only: b_def [symmetric]) (simp add: algebra_simps)
qed

lemma low_bits_clear:
  assumes "(v :: u32) AND push_bit k 0xff = 0" "\<And>i. i < k \<Longrightarrow> \<not> bit v i" "i < k + 8" "k \<le> 24"
  shows "\<not> bit v i"
proof (cases "i < k")
  case False
  have ff: "(0xff :: u32) = mask 8" by (simp add: mask_eq_exp_minus_1)
  from assms(1) have "\<not> bit (v AND push_bit k 0xff) i" by simp
  with False assms(3,4) show ?thesis unfolding ff by (auto simp: bit_simps)
qed (use assms in simp)

lemma rt_ffs_table_eq: "rt_ffs_table v = rt_ffs v"
proof -
  have shifts: "push_bit 8 0xff = (0xff00 :: u32)" "push_bit 16 0xff = (0xff0000 :: u32)"
    "push_bit 24 0xff = (0xff000000 :: u32)"
    by (simp_all add: push_bit_eq_mult)
  note b0 = ffs_of_byte [of v 0, simplified]
  note b8 = ffs_of_byte [of v 8, unfolded shifts]
  note b16 = ffs_of_byte [of v 16, unfolded shifts]
  note b24 = ffs_of_byte [of v 24, unfolded shifts]
  note c0 = low_bits_clear [of v 0, simplified]
  note c8 = low_bits_clear [of v 8, unfolded shifts]
  note c16 = low_bits_clear [of v 16, unfolded shifts]
  note c24 = low_bits_clear [of v 24, unfolded shifts]
  consider "v = 0" | "v \<noteq> 0" "v AND 0xff \<noteq> 0" | "v \<noteq> 0" "v AND 0xff = 0" "v AND 0xff00 \<noteq> 0"
    | "v \<noteq> 0" "v AND 0xff = 0" "v AND 0xff00 = 0" "v AND 0xff0000 \<noteq> 0"
    | "v \<noteq> 0" "v AND 0xff = 0" "v AND 0xff00 = 0" "v AND 0xff0000 = 0" by blast
  then show ?thesis
  proof cases
    case 1
    then show ?thesis by (simp add: rt_ffs_table_def)
  next
    case 2
    then show ?thesis using b0 by (simp add: rt_ffs_table_def)
  next
    case 3
    then show ?thesis using b8 c0 by (simp add: rt_ffs_table_def)
  next
    case 4
    then have "\<And>i. i < 16 \<Longrightarrow> \<not> bit v i" using c8 c0 by simp
    with 4 show ?thesis using b16 by (simp add: rt_ffs_table_def)
  next
    case 5
    then have "\<And>i. i < 16 \<Longrightarrow> \<not> bit v i" using c8 c0 by simp
    with 5 have c: "\<And>i. i < 24 \<Longrightarrow> \<not> bit v i" using c16 by simp
    have "v AND 0xff000000 \<noteq> 0"
    proof
      assume "v AND 0xff000000 = 0"
      then have "\<not> bit v i" for i using c c24 [of i] bit_imp_le_length [of v i] by force
      with 5 show False by (auto simp: bit_eq_iff)
    qed
    with 5 c show ?thesis using b24 by (simp add: rt_ffs_table_def)
  qed
qed

lemma isolate_lowest_bit:
  assumes "bit (v :: u32) n" "\<And>i. i < n \<Longrightarrow> \<not> bit v i"
  shows "(v AND (v - 1)) XOR v = 2 ^ n"
proof -
  have n: "n < 32" using assms(1) bit_imp_le_length [of v n] by simp
  define u where "u = push_bit (Suc n) (drop_bit (Suc n) v)"
  have bu: "bit u i \<longleftrightarrow> Suc n \<le> i \<and> bit v i" for i
    by (auto simp: u_def bit_push_bit_iff bit_drop_bit_eq simp del: push_bit_Suc dest: bit_imp_le_length)
  have be: "bit (2 ^ n :: u32) i \<longleftrightarrow> i = n" for i using n by (auto simp: bit_exp_iff)
  have bm: "bit (mask n :: u32) i \<longleftrightarrow> i < n" for i using n by (auto simp: bit_mask_iff)
  have "v = u OR 2 ^ n"
  proof (rule bit_eqI)
    show "bit v i \<longleftrightarrow> bit (u OR 2 ^ n) i" for i
      using assms by (cases i n rule: linorder_cases) (auto simp: bit_or_iff bu be)
  qed
  also have "\<dots> = u + 2 ^ n" by (rule disjunctive_add [symmetric]) (auto simp: bu be)
  finally have v: "v = u + 2 ^ n" .
  then have "v - 1 = u + mask n" by (simp add: mask_eq_exp_minus_1)
  also have "\<dots> = u OR mask n" by (rule disjunctive_add) (auto simp: bu bm)
  finally have v1: "v - 1 = u OR mask n" .
  show ?thesis
  proof (rule bit_eqI)
    show "bit ((v AND (v - 1)) XOR v) i \<longleftrightarrow> bit (2 ^ n :: u32) i" for i
      using assms unfolding v1
      by (cases i n rule: linorder_cases) (auto simp: bit_and_iff bit_or_iff bit_xor_iff bu be bm)
  qed
qed

lemma tiny_bitmap_powers:
  "list_all (\<lambda>n. tiny_lowest_bit_bitmap ! nat (2 ^ n mod 37) = word_of_nat (Suc n)) [0..<32]"
  by code_simp

lemma tiny_bitmap_power: "n < 32 \<Longrightarrow> tiny_lowest_bit_bitmap ! (2 ^ n mod 37) = word_of_nat (Suc n)"
  using tiny_bitmap_powers by (simp add: list_all_iff nat_mod_distrib nat_power_eq)

lemma rt_ffs_tiny_eq: "rt_ffs_tiny v = rt_ffs v"
proof (cases "v = 0")
  case True
  then show ?thesis by (simp add: rt_ffs_tiny_def tiny_lowest_bit_bitmap_def)
next
  case False
  then obtain n where n: "bit v n" "\<And>i. i < n \<Longrightarrow> \<not> bit v i" "n < 32" using lowest_bit_ex by blast
  have "unat (word_of_nat (2 ^ n) :: u32) = 2 ^ n"
    by (rule unat_of_nat_small) (use n(3) power_strict_increasing [of n 32 "2 :: nat"] in simp)
  then have u: "unat (2 ^ n :: u32) = 2 ^ n" by simp
  have "rt_ffs_tiny v = ucast (word_of_nat (Suc n) :: u8)"
    using n(3) u isolate_lowest_bit [OF n(1,2)] by (simp add: rt_ffs_tiny_def tiny_bitmap_power)
  also have "\<dots> = word_of_nat (Suc n)"
  proof (rule word_unat_eq_iff [THEN iffD2])
    have "unat (word_of_nat (Suc n) :: u8) = Suc n" "unat (word_of_nat (Suc n) :: u32) = Suc n"
      by (rule unat_of_nat_small, use n(3) in simp)+
    then show "unat (ucast (word_of_nat (Suc n) :: u8) :: u32) = unat (word_of_nat (Suc n) :: u32)"
      using n(3) by (subst unat_ucast_up) simp_all
  qed
  finally show ?thesis using rt_ffs_least [OF n(1,2)] by simp
qed

text \<open>
  The two table look-ups of \<open>kservice.c\<close>, the 256-entry one and the one modulo 37, compute the
  same function on every 32-bit value as the builtin that finds the first set bit.
\<close>

theorem ffs_variants_agree: "rt_ffs_table v = rt_ffs v \<and> rt_ffs_tiny v = rt_ffs v"
  by (simp add: rt_ffs_table_eq rt_ffs_tiny_eq)

end
