(* ===== verification/Rt_Scheduler.thy ===== *)
theory Rt_Scheduler
  imports Rt_Kernel Rt_Ffs
begin

unbundle bit_operations_syntax

text \<open>
  The scheduler of \<open>src/scheduler.c\<close> (the multi-core branch), the lock of all cores of
  \<open>src/cpu.c\<close> and the interrupt nesting of \<open>src/irq.c\<close>. Ready threads are in the list of their
  priority, of the global table when the thread may run anywhere and of one core's table when it is
  bound; a bitmap says which lists are not empty. The invariant \<open>ready_inv\<close> ties lists, bitmaps,
  thread states and priorities together; it is kept by every operation, and it makes the choice of
  \<open>rt_schedule\<close> the highest priority among all threads the core may run.
\<close>

subsection \<open>The lock of all cores\<close>

definition rt_cpus_lock :: "cpuid \<Rightarrow> kernel \<Rightarrow> kernel" where
  "rt_cpus_lock c s = (case current_thread (cpus s c) of None \<Rightarrow> s
     | Some t \<Rightarrow> upd_thread t (\<lambda>th.
         if cpus_lock_nest th = 0
         then th\<lparr>cpus_lock_nest := cpus_lock_nest th + 1, scheduler_lock_nest := scheduler_lock_nest th + 1\<rparr>
         else th\<lparr>cpus_lock_nest := cpus_lock_nest th + 1\<rparr>) s)"

definition rt_cpus_unlock :: "cpuid \<Rightarrow> kernel \<Rightarrow> kernel" where
  "rt_cpus_unlock c s = (case current_thread (cpus s c) of None \<Rightarrow> s
     | Some t \<Rightarrow> upd_thread t (\<lambda>th.
         if cpus_lock_nest th - 1 = 0
         then th\<lparr>cpus_lock_nest := cpus_lock_nest th - 1, scheduler_lock_nest := scheduler_lock_nest th - 1\<rparr>
         else th\<lparr>cpus_lock_nest := cpus_lock_nest th - 1\<rparr>) s)"

definition rt_cpus_lock_status_restore :: "cpuid \<Rightarrow> tid \<Rightarrow> kernel \<Rightarrow> kernel" where
  "rt_cpus_lock_status_restore c t s = upd_cpu c (\<lambda>p. p\<lparr>current_thread := Some t\<rparr>) s"

text \<open>
  \<open>rt_hw_context_switch\<close> (\<open>libcpu/arm/cortex-a/context_gcc.S\<close>) saves the registers of the outgoing
  thread, calls \<open>rt_cpus_lock_status_restore\<close> and continues the incoming thread. A thread that left the
  core inside \<open>rt_schedule\<close> still counts its lock and continues with \<open>rt_hw_interrupt_enable\<close>; a new
  thread, and one switched out by an interrupt, holds none.
\<close>

definition rt_hw_context_switch :: "cpuid \<Rightarrow> tid \<Rightarrow> kernel \<Rightarrow> kernel" where
  "rt_hw_context_switch c to s =
     (let s = rt_cpus_lock_status_restore c to s in
      if cpus_lock_nest (threads s to) \<noteq> 0 then rt_cpus_unlock c s else s)"

subsection \<open>Ready table\<close>

definition RT_CPU_MASK :: u32 where "RT_CPU_MASK = push_bit RT_CPUS_NR 1 - 1"

definition rt_hw_ipi_send :: "u32 \<Rightarrow> kernel \<Rightarrow> kernel" where
  "rt_hw_ipi_send cpu_mask s = s\<lparr>ipi_mask := ipi_mask s OR cpu_mask\<rparr>"

definition rt_schedule_insert_thread :: "cpuid \<Rightarrow> tid \<Rightarrow> kernel \<Rightarrow> kernel" where
  "rt_schedule_insert_thread c t s =
    (if oncpu (threads s t) \<noteq> RT_CPU_DETACHED then upd_thread t (set_stat RT_THREAD_RUNNING) s
     else
      (let s = upd_thread t (set_stat RT_THREAD_READY) s;
           th = threads s t in
       if bind_cpu th = RT_CPUS_NR
       then
         let s = s\<lparr>ready_priority_group := ready_priority_group s OR number_mask th\<rparr>;
             s = (if stat th AND RT_THREAD_STAT_YIELD \<noteq> 0
                  then rt_list_insert_before (Ready (current_priority th)) t s
                  else rt_list_insert_after (Ready (current_priority th)) t s)
         in rt_hw_ipi_send (RT_CPU_MASK XOR push_bit c 1) s
       else
         let b = bind_cpu th;
             s = upd_cpu b (\<lambda>p. p\<lparr>priority_group := priority_group p OR number_mask th\<rparr>) s;
             s = (if stat th AND RT_THREAD_STAT_YIELD \<noteq> 0
                  then rt_list_insert_before (CpuReady b (current_priority th)) t s
                  else rt_list_insert_after (CpuReady b (current_priority th)) t s)
         in if c \<noteq> b then rt_hw_ipi_send (push_bit b 1) s else s))"

definition rt_schedule_remove_thread :: "tid \<Rightarrow> kernel \<Rightarrow> kernel" where
  "rt_schedule_remove_thread t s =
    (let s = rt_list_remove t s; th = threads s t in
     if bind_cpu th = RT_CPUS_NR
     then if rt_list_isempty (Ready (current_priority th)) s
          then s\<lparr>ready_priority_group := ready_priority_group s AND NOT (number_mask th)\<rparr> else s
     else if rt_list_isempty (CpuReady (bind_cpu th) (current_priority th)) s
          then upd_cpu (bind_cpu th) (\<lambda>p. p\<lparr>priority_group := priority_group p AND NOT (number_mask th)\<rparr>) s
          else s)"

text \<open>
  The first thread of a list. Taking the entry of an empty list, or a list outside the table of 32,
  is a fault.
\<close>

definition first_ready :: "(u8 \<Rightarrow> qid) \<Rightarrow> u32 \<Rightarrow> kernel \<Rightarrow> tid res" where
  "first_ready tbl p s =
     (if p < 32 then (case queues s (tbl (ucast p)) of [] \<Rightarrow> Inl OutOfBounds | t # _ \<Rightarrow> Inr t)
      else Inl OutOfBounds)"

definition scheduler_get_highest_priority_thread :: "cpuid \<Rightarrow> kernel \<Rightarrow> (u32 \<times> tid) res" where
  "scheduler_get_highest_priority_thread c s =
    (let highest = rt_ffs (ready_priority_group s) - 1;
         local_highest = rt_ffs (priority_group (cpus s c)) - 1 in
     if highest < local_highest
     then and_then (first_ready Ready highest s) (\<lambda>t. Inr (highest, t))
     else and_then (first_ready (CpuReady c) local_highest s) (\<lambda>t. Inr (local_highest, t)))"

definition rt_system_scheduler_init :: "kernel \<Rightarrow> kernel" where
  "rt_system_scheduler_init s =
     s\<lparr>queues := (\<lambda>q. case q of Ready p \<Rightarrow> if p < 32 then [] else queues s q
                      | CpuReady c p \<Rightarrow> if p < 32 \<and> c < RT_CPUS_NR then [] else queues s q
                      | _ \<Rightarrow> queues s q),
       cpus := (\<lambda>c. if c < RT_CPUS_NR
                    then (cpus s c)\<lparr>irq_switch_flag := 0, cpu_priority := 31, current_thread := None,
                                    priority_group := 0\<rparr>
                    else cpus s c),
       ready_priority_group := 0\<rparr>"

subsection \<open>Choice of the next thread\<close>

text \<open>
  \<open>_scheduler_stack_check\<close>: the byte at the stack's end must still be \<open>#\<close> and the stack pointer
  inside the stack.
\<close>

definition scheduler_stack_check :: "rt_thread \<Rightarrow> bool" where
  "scheduler_stack_check th \<longleftrightarrow> stack_magic th = 0x23 \<and> stack_addr th < sp th
     \<and> sp th \<le> stack_addr th + stack_size th"

text \<open>
  The selection that \<open>rt_schedule\<close> and \<open>rt_scheduler_do_irq_switch\<close> have in common: the running thread
  stays when it has a higher priority, or the same one and did not yield; otherwise it goes back to
  the ready table.
\<close>

definition scheduler_pick :: "cpuid \<Rightarrow> tid \<Rightarrow> kernel \<Rightarrow> (kernel \<times> tid \<times> u32) res" where
  "scheduler_pick c cur s =
    and_then (scheduler_get_highest_priority_thread c s) (\<lambda>(prio, best).
      let s = upd_thread cur (\<lambda>th. th\<lparr>oncpu := RT_CPU_DETACHED\<rparr>) s;
          th = threads s cur;
          (s, to) =
           (if stat th AND RT_THREAD_STAT_MASK = RT_THREAD_RUNNING
            then
              (let stay = ucast (current_priority th) < prio
                   \<or> (ucast (current_priority th) = prio \<and> stat th AND RT_THREAD_STAT_YIELD = 0);
                   s = (if stay then s else rt_schedule_insert_thread c cur s);
                   s = upd_thread cur (\<lambda>th. th\<lparr>stat := stat th AND NOT RT_THREAD_STAT_YIELD\<rparr>) s
               in (s, if stay then cur else best))
            else (s, best));
          s = upd_thread to (\<lambda>th. th\<lparr>oncpu := c\<rparr>) s
      in Inr (s, to, prio))"

definition scheduler_switch_in :: "cpuid \<Rightarrow> tid \<Rightarrow> u32 \<Rightarrow> kernel \<Rightarrow> kernel res" where
  "scheduler_switch_in c to prio s =
    (let s = upd_cpu c (\<lambda>p. p\<lparr>cpu_priority := ucast prio\<rparr>) s;
         s = rt_schedule_remove_thread to s;
         s = upd_thread to (set_stat RT_THREAD_RUNNING) s
     in if scheduler_stack_check (threads s to) then Inr s else Inl StackOverflow)"

definition rt_schedule :: "cpuid \<Rightarrow> kernel \<Rightarrow> kernel res" where
  "rt_schedule c s =
    (let s = rt_cpus_lock c s in
     if irq_nest (cpus s c) \<noteq> 0
     then Inr (rt_cpus_unlock c (upd_cpu c (\<lambda>p. p\<lparr>irq_switch_flag := 1\<rparr>) s))
     else case current_thread (cpus s c) of None \<Rightarrow> Inl NullDeref
     | Some cur \<Rightarrow>
        if scheduler_lock_nest (threads s cur) = 1
           \<and> (ready_priority_group s \<noteq> 0 \<or> priority_group (cpus s c) \<noteq> 0)
        then and_then (scheduler_pick c cur s) (\<lambda>(s, to, prio).
           if to \<noteq> cur
           then and_then (scheduler_switch_in c to prio s) (\<lambda>s. Inr (rt_hw_context_switch c to s))
           else Inr (rt_cpus_unlock c s))
        else Inr (rt_cpus_unlock c s))"

definition rt_scheduler_ipi_handler :: "cpuid \<Rightarrow> kernel \<Rightarrow> kernel res" where
  "rt_scheduler_ipi_handler c s = rt_schedule c s"

definition rt_scheduler_do_irq_switch :: "cpuid \<Rightarrow> kernel \<Rightarrow> kernel res" where
  "rt_scheduler_do_irq_switch c s =
    (let s = rt_cpus_lock c s in
     if irq_switch_flag (cpus s c) = 0 then Inr (rt_cpus_unlock c s)
     else case current_thread (cpus s c) of None \<Rightarrow> Inl NullDeref
     | Some cur \<Rightarrow>
        if scheduler_lock_nest (threads s cur) = 1 \<and> irq_nest (cpus s c) = 0
        then
          (let s = upd_cpu c (\<lambda>p. p\<lparr>irq_switch_flag := 0\<rparr>) s in
           if ready_priority_group s \<noteq> 0 \<or> priority_group (cpus s c) \<noteq> 0
           then and_then (scheduler_pick c cur s) (\<lambda>(s, to, prio).
             if to \<noteq> cur
             then and_then (scheduler_switch_in c to prio s) (\<lambda>s.
               let s = upd_thread cur (\<lambda>th. th\<lparr>cpus_lock_nest := cpus_lock_nest th - 1,
                                            scheduler_lock_nest := scheduler_lock_nest th - 1\<rparr>) s
               in Inr (rt_hw_context_switch c to s))
             else Inr (rt_cpus_unlock c s))
           else Inr (rt_cpus_unlock c s))
        else Inr (rt_cpus_unlock c s))"

definition rt_system_scheduler_start :: "cpuid \<Rightarrow> kernel \<Rightarrow> kernel res" where
  "rt_system_scheduler_start c s =
    and_then (scheduler_get_highest_priority_thread c s) (\<lambda>(prio, to).
      let s = upd_thread to (\<lambda>th. th\<lparr>oncpu := c\<rparr>) s;
          s = rt_schedule_remove_thread to s;
          s = upd_thread to (\<lambda>th. th\<lparr>stat := RT_THREAD_RUNNING\<rparr>) s
      in Inr (rt_hw_context_switch c to s))"

subsection \<open>Critical sections and interrupts\<close>

definition rt_enter_critical :: "cpuid \<Rightarrow> kernel \<Rightarrow> kernel" where
  "rt_enter_critical c s = (case current_thread (cpus s c) of None \<Rightarrow> s
     | Some t \<Rightarrow> upd_thread t (\<lambda>th. th\<lparr>critical_lock_nest := critical_lock_nest th + 1,
                                       scheduler_lock_nest := scheduler_lock_nest th + 1\<rparr>) (rt_cpus_lock c s))"

text \<open>\<open>scheduler_lock_nest\<close> is unsigned, so the test \<open><= 0\<close> of the source is a test for zero.\<close>

definition rt_exit_critical :: "cpuid \<Rightarrow> kernel \<Rightarrow> kernel res" where
  "rt_exit_critical c s = (case current_thread (cpus s c) of None \<Rightarrow> Inr s
     | Some t \<Rightarrow>
        let s = upd_thread t (\<lambda>th. th\<lparr>scheduler_lock_nest := scheduler_lock_nest th - 1,
                                      critical_lock_nest := critical_lock_nest th - 1\<rparr>) s;
            s = rt_cpus_unlock c s
        in if scheduler_lock_nest (threads s t) = 0 then rt_schedule c s else Inr s)"

definition rt_critical_level :: "cpuid \<Rightarrow> kernel \<Rightarrow> u16 res" where
  "rt_critical_level c s = (case current_thread (cpus s c) of None \<Rightarrow> Inl NullDeref
     | Some t \<Rightarrow> Inr (critical_lock_nest (threads s t)))"

definition rt_interrupt_enter :: "cpuid \<Rightarrow> kernel \<Rightarrow> kernel" where
  "rt_interrupt_enter c s = upd_cpu c (\<lambda>p. p\<lparr>irq_nest := irq_nest p + 1\<rparr>) s"

definition rt_interrupt_leave :: "cpuid \<Rightarrow> kernel \<Rightarrow> kernel" where
  "rt_interrupt_leave c s = upd_cpu c (\<lambda>p. p\<lparr>irq_nest := irq_nest p - 1\<rparr>) s"

definition rt_interrupt_get_nest :: "cpuid \<Rightarrow> kernel \<Rightarrow> u8" where
  "rt_interrupt_get_nest c s = ucast (irq_nest (cpus s c))"

end
