(* ===== verification/Rt_Sched_Inv.thy ===== *)
theory Rt_Sched_Inv
  imports Rt_Scheduler
begin

unbundle bit_operations_syntax

text \<open>
  What makes the scheduler of \<open>Rt_Scheduler\<close> correct: one contract for a ready table, interpreted on the
  global table and on the table of each core; the invariant \<open>sched_inv\<close> of lists, bitmaps, states and
  current threads; its preservation; and that the core runs the highest ready priority.
\<close>


subsection \<open>Bitmap and lists\<close>

text \<open>
  One ready table: a bitmap of 32 priorities and the lists of the priorities. The global table and
  the table of each core are two instances.
\<close>

definition bitmap_ok :: "(kernel \<Rightarrow> u32) \<Rightarrow> (u8 \<Rightarrow> qid) \<Rightarrow> kernel \<Rightarrow> bool" where
  "bitmap_ok grp tbl s \<longleftrightarrow> (\<forall>p. bit (grp s) (unat p) \<longleftrightarrow> queues s (tbl p) \<noteq> [])"

definition prio_mask :: "u8 \<Rightarrow> u32" where
  "prio_mask p = push_bit (unat p) 1"

lemma bit_prio_mask: "bit (prio_mask p) n \<longleftrightarrow> n = unat p \<and> unat p < 32"
  by (auto simp: prio_mask_def bit_simps)

lemma unat_ucast_u8_u32 [simp]: "unat (ucast (p :: u8) :: u32) = unat p"
  by (rule unat_ucast_up) simp

lemma ucast_u32_u8 [simp]: "unat (p :: u32) < 32 \<Longrightarrow> unat (ucast p :: u8) = unat p"
  by (rule unat_ucast_small) simp

locale ready_table =
  fixes grp :: "kernel \<Rightarrow> u32" and set_grp :: "u32 \<Rightarrow> kernel \<Rightarrow> kernel" and tbl :: "u8 \<Rightarrow> qid"
  assumes grp_set_grp: "grp (set_grp g s) = g"
    and queues_set_grp: "queues (set_grp g s) = queues s"
    and grp_queues: "grp (s\<lparr>queues := Q\<rparr>) = grp s"
    and inj_tbl: "inj tbl"
begin

lemma highest_ready:
  assumes "bitmap_ok grp tbl s" "grp s \<noteq> 0"
  shows "rt_ffs (grp s) - 1 < 32" "queues s (tbl (ucast (rt_ffs (grp s) - 1))) \<noteq> []"
    "\<And>p. queues s (tbl p) \<noteq> [] \<Longrightarrow> rt_ffs (grp s) - 1 \<le> ucast p"
proof -
  note f = rt_ffs_bit [OF assms(2)]
  show "rt_ffs (grp s) - 1 < 32" using f(2) by (simp add: word_less_nat_alt)
  show "queues s (tbl (ucast (rt_ffs (grp s) - 1))) \<noteq> []"
    using assms(1) f(2,3) ucast_u32_u8 [OF f(2)] unfolding bitmap_ok_def by metis
  show "rt_ffs (grp s) - 1 \<le> ucast p" if "queues s (tbl p) \<noteq> []" for p
    using f(4) [of "unat p"] that assms(1) by (simp add: bitmap_ok_def word_le_nat_alt)
qed

lemma none_ready:
  assumes "bitmap_ok grp tbl s" "grp s = 0"
  shows "queues s (tbl p) = []" "rt_ffs (grp s) - 1 = - 1"
  using assms by (simp_all add: bitmap_ok_def)

lemma bitmap_insert:
  assumes "bitmap_ok grp tbl s" "p < 32" "grp s' = grp s OR prio_mask p"
    "queues s' (tbl p) \<noteq> []" "\<And>q. q \<noteq> tbl p \<Longrightarrow> queues s' q = queues s q"
  shows "bitmap_ok grp tbl s'"
  unfolding bitmap_ok_def
proof
  fix p'
  show "bit (grp s') (unat p') \<longleftrightarrow> queues s' (tbl p') \<noteq> []"
  proof (cases "p' = p")
    case True
    then show ?thesis using assms by (simp add: bit_or_iff bit_prio_mask word_less_nat_alt)
  next
    case False
    then have "tbl p' \<noteq> tbl p" "unat p' \<noteq> unat p" using inj_tbl by (auto dest: injD simp: word_unat_eq_iff)
    then show ?thesis using assms by (simp add: bit_or_iff bit_prio_mask bitmap_ok_def)
  qed
qed

lemma bitmap_remove:
  assumes "bitmap_ok grp tbl s" "\<And>p'. p' \<noteq> p \<Longrightarrow> t \<notin> set (queues s (tbl p'))"
  shows "bitmap_ok grp tbl
    (let s = rt_list_remove t s in
     if queues s (tbl p) = [] then set_grp (grp s AND NOT (prio_mask p)) s else s)"
proof -
  have other: "queues (rt_list_remove t s) (tbl p') = queues s (tbl p')" if "p' \<noteq> p" for p'
    using assms(2) [OF that] by (simp add: rt_list_remove_def removeAll_id)
  have g: "grp (rt_list_remove t s) = grp s" by (simp add: rt_list_remove_def grp_queues)
  have still: "queues s (tbl p) \<noteq> []" if "queues (rt_list_remove t s) (tbl p) \<noteq> []"
    using that by (auto simp: rt_list_remove_def)
  have m: "bit (NOT (prio_mask p)) (unat p') \<longleftrightarrow> p' \<noteq> p \<and> unat p' < 32 \<or> 32 \<le> unat p \<and> unat p' < 32" for p' :: u8
    by (auto simp: bit_not_iff bit_prio_mask word_unat_eq_iff)
  have low: "unat p' < 32" if "bit (grp s) (unat p')" for p' :: u8 using bit_imp_le_length [OF that] by simp
  have "bit (grp s AND NOT (prio_mask p)) (unat p') \<longleftrightarrow> queues (rt_list_remove t s) (tbl p') \<noteq> []"
    if e: "queues (rt_list_remove t s) (tbl p) = []" for p'
  proof (cases "p' = p")
    case True
    with e low [of p] m [of p] show ?thesis by (auto simp: bit_and_iff)
  next
    case False
    with assms(1) low [of p'] m [of p'] other [OF False] show ?thesis
      by (auto simp: bit_and_iff bitmap_ok_def)
  qed
  moreover have "bit (grp s) (unat p') \<longleftrightarrow> queues (rt_list_remove t s) (tbl p') \<noteq> []"
    if "queues (rt_list_remove t s) (tbl p) \<noteq> []" for p'
    using assms(1) other [of p'] still that by (cases "p' = p") (auto simp: bitmap_ok_def)
  ultimately show ?thesis by (simp add: bitmap_ok_def Let_def grp_set_grp queues_set_grp g)
qed

end

interpretation global_ready: ready_table ready_priority_group "\<lambda>g s. s\<lparr>ready_priority_group := g\<rparr>" Ready
  by unfold_locales (auto simp: inj_def)

interpretation cpu_ready: ready_table "\<lambda>s. priority_group (cpus s c)"
    "\<lambda>g. upd_cpu c (\<lambda>p. p\<lparr>priority_group := g\<rparr>)" "CpuReady c" for c
  by unfold_locales (auto simp: inj_def)


subsection \<open>Invariant\<close>

definition prio_ok :: "rt_thread \<Rightarrow> bool" where
  "prio_ok th \<longleftrightarrow> current_priority th < 32 \<and> number_mask th = prio_mask (current_priority th)
     \<and> bind_cpu th \<le> RT_CPUS_NR"

definition ready_q :: "rt_thread \<Rightarrow> qid" where
  "ready_q th = (if bind_cpu th = RT_CPUS_NR then Ready (current_priority th)
                 else CpuReady (bind_cpu th) (current_priority th))"

fun is_ready_q :: "qid \<Rightarrow> bool" where
  "is_ready_q (Ready p) = True"
| "is_ready_q (CpuReady c p) = True"
| "is_ready_q _ = False"

lemma is_ready_q_ready_q [simp]: "is_ready_q (ready_q th)"
  by (simp add: ready_q_def)

text \<open>
  \<open>ready_inv E\<close>: the threads of the ready lists are exactly those in state \<open>RT_THREAD_READY\<close>, except
  for the threads of \<open>E\<close>, which an operation is moving; each is in the list of its priority and
  core; the bitmaps are right.
\<close>

definition ready_members :: "kernel \<Rightarrow> bool" where
  "ready_members s \<longleftrightarrow> (\<forall>q t. is_ready_q q \<longrightarrow> t \<in> set (queues s q) \<longrightarrow>
     q = ready_q (threads s t) \<and> prio_ok (threads s t) \<and> thread_stat s t = RT_THREAD_READY
     \<and> oncpu (threads s t) = RT_CPU_DETACHED)"

definition ready_complete :: "tid set \<Rightarrow> kernel \<Rightarrow> bool" where
  "ready_complete E s \<longleftrightarrow> (\<forall>t. t \<notin> E \<longrightarrow> thread_stat s t = RT_THREAD_READY \<longrightarrow>
     t \<in> set (queues s (ready_q (threads s t))))"

definition bitmaps_ok :: "kernel \<Rightarrow> bool" where
  "bitmaps_ok s \<longleftrightarrow> bitmap_ok ready_priority_group Ready s
     \<and> (\<forall>c. bitmap_ok (\<lambda>s. priority_group (cpus s c)) (CpuReady c) s)"

definition ready_inv :: "tid set \<Rightarrow> kernel \<Rightarrow> bool" where
  "ready_inv E s \<longleftrightarrow> queues_wf s \<and> ready_members s \<and> ready_complete E s \<and> bitmaps_ok s"

lemmas ready_inv_defs = ready_inv_def ready_members_def ready_complete_def thread_stat_def

lemma ready_inv_mono: "ready_inv E s \<Longrightarrow> E \<subseteq> F \<Longrightarrow> ready_inv F s"
  by (auto simp: ready_inv_def ready_complete_def)

lemma bitmaps_ok_cong:
  assumes "queues s' = queues s" "ready_priority_group s' = ready_priority_group s"
    "\<And>c. priority_group (cpus s' c) = priority_group (cpus s c)"
  shows "bitmaps_ok s' = bitmaps_ok s"
  using assms by (simp add: bitmaps_ok_def bitmap_ok_def)

text \<open>Changes that leave lists, bitmaps and the scheduling fields of the threads alone.\<close>

definition same_sched :: "rt_thread \<Rightarrow> rt_thread \<Rightarrow> bool" where
  "same_sched th th' \<longleftrightarrow> current_priority th' = current_priority th \<and> number_mask th' = number_mask th
     \<and> bind_cpu th' = bind_cpu th \<and> oncpu th' = oncpu th
     \<and> stat th' AND RT_THREAD_STAT_MASK = stat th AND RT_THREAD_STAT_MASK"

lemma same_sched_refl [simp]: "same_sched th th"
  by (simp add: same_sched_def)

lemma ready_inv_frame:
  assumes "ready_inv E s" "queues s' = queues s" "ready_priority_group s' = ready_priority_group s"
    "\<And>c. priority_group (cpus s' c) = priority_group (cpus s c)"
    "\<And>t. same_sched (threads s t) (threads s' t)"
  shows "ready_inv E s'"
proof -
  have "ready_q (threads s' t) = ready_q (threads s t)" "prio_ok (threads s' t) = prio_ok (threads s t)"
    "thread_stat s' t = thread_stat s t" "oncpu (threads s' t) = oncpu (threads s t)" for t
    using assms(5) [of t] by (auto simp: same_sched_def ready_q_def prio_ok_def thread_stat_def)
  moreover have "bitmaps_ok s' = bitmaps_ok s" by (rule bitmaps_ok_cong) fact+
  ultimately show ?thesis using assms(1,2)
    by (simp add: ready_inv_def ready_members_def ready_complete_def queues_wf_def)
qed

text \<open>A thread that is in no ready list may change freely while it is being moved.\<close>

lemma ready_inv_upd_moving:
  assumes "ready_inv E s" "t \<in> E" "\<And>q. is_ready_q q \<Longrightarrow> t \<notin> set (queues s q)"
  shows "ready_inv E (upd_thread t f s)"
proof -
  have "bitmaps_ok (upd_thread t f s) = bitmaps_ok s" by (rule bitmaps_ok_cong) simp_all
  with assms show ?thesis
    by (auto simp: ready_inv_defs queues_wf_def)
qed

text \<open>Once such a thread is not in state ready any more, it is no longer moving.\<close>

lemma ready_inv_settle:
  assumes "ready_inv (insert t E) s" "thread_stat s t \<noteq> RT_THREAD_READY"
  shows "ready_inv E s"
  using assms by (auto simp: ready_inv_def ready_complete_def)

lemma ready_inv_not_ready:
  assumes "ready_inv E s" "thread_stat s t \<noteq> RT_THREAD_READY" "is_ready_q q"
  shows "t \<notin> set (queues s q)"
  using assms by (auto simp: ready_inv_def ready_members_def)

lemma ready_inv_oncpu:
  assumes "ready_inv E s" "oncpu (threads s t) \<noteq> RT_CPU_DETACHED" "is_ready_q q"
  shows "t \<notin> set (queues s q)"
  using assms by (auto simp: ready_inv_def ready_members_def)

lemma ready_inv_in_ready:
  assumes "ready_inv E s" "t \<in> set (queues s q)" "is_ready_q q"
  shows "q = ready_q (threads s t)" "prio_ok (threads s t)" "thread_stat s t = RT_THREAD_READY"
    "oncpu (threads s t) = RT_CPU_DETACHED"
  using assms by (auto simp: ready_inv_def ready_members_def)


subsection \<open>Insertion and removal\<close>

lemma sched_sel_queues [simp]:
  "threads (rt_list_insert_after q t s) = threads s" "cpus (rt_list_insert_after q t s) = cpus s"
  "ready_priority_group (rt_list_insert_after q t s) = ready_priority_group s"
  "threads (rt_list_insert_before q t s) = threads s" "cpus (rt_list_insert_before q t s) = cpus s"
  "ready_priority_group (rt_list_insert_before q t s) = ready_priority_group s"
  "threads (rt_list_remove t s) = threads s" "cpus (rt_list_remove t s) = cpus s"
  "ready_priority_group (rt_list_remove t s) = ready_priority_group s"
  by (simp_all add: list_defs)

text \<open>What the insertion of a thread into its list does, whichever table and end it uses.\<close>

definition inserted :: "tid \<Rightarrow> kernel \<Rightarrow> kernel \<Rightarrow> bool" where
  "inserted t s s' \<longleftrightarrow>
     (let th = set_stat RT_THREAD_READY (threads s t); q = ready_q th in
      threads s' = (threads s)(t := th)
      \<and> (queues s' = (queues s)(q := t # queues s q) \<or> queues s' = (queues s)(q := queues s q @ [t]))
      \<and> (if bind_cpu th = RT_CPUS_NR
         then ready_priority_group s' = ready_priority_group s OR number_mask th \<and> cpus s' = cpus s
         else ready_priority_group s' = ready_priority_group s
           \<and> cpus s' = (cpus s)(bind_cpu th := (cpus s (bind_cpu th))
                \<lparr>priority_group := priority_group (cpus s (bind_cpu th)) OR number_mask th\<rparr>)))"

lemma rt_schedule_insert_thread_inserted:
  "oncpu (threads s t) = RT_CPU_DETACHED \<Longrightarrow> inserted t s (rt_schedule_insert_thread c t s)"
  by (auto simp: rt_schedule_insert_thread_def inserted_def ready_q_def Let_def list_defs
      rt_hw_ipi_send_def)

lemma inserted_bitmaps:
  assumes "bitmaps_ok s" "prio_ok (threads s t)" "inserted t s s'"
  shows "bitmaps_ok s'"
proof -
  let ?th = "threads s t" and ?q = "ready_q (set_stat RT_THREAD_READY (threads s t))"
  have q: "queues s' ?q \<noteq> []" "\<And>q. q \<noteq> ?q \<Longrightarrow> queues s' q = queues s q"
    using assms(3) by (auto simp: inserted_def Let_def)
  have p: "current_priority ?th < 32" "number_mask ?th = prio_mask (current_priority ?th)"
    using assms(2) by (simp_all add: prio_ok_def)
  show ?thesis
  proof (cases "bind_cpu ?th = RT_CPUS_NR")
    case True
    then have g: "?q = Ready (current_priority ?th)" by (simp add: ready_q_def)
    have "bitmap_ok ready_priority_group Ready s'"
      by (rule global_ready.bitmap_insert [where s = s and p = "current_priority ?th"])
        (use assms True g p q in \<open>auto simp: bitmaps_ok_def inserted_def Let_def\<close>)
    moreover have "bitmap_ok (\<lambda>s. priority_group (cpus s c)) (CpuReady c) s'" for c
      using assms True g q by (auto simp: bitmaps_ok_def bitmap_ok_def inserted_def Let_def)
    ultimately show ?thesis by (simp add: bitmaps_ok_def)
  next
    case False
    then have g: "?q = CpuReady (bind_cpu ?th) (current_priority ?th)" by (simp add: ready_q_def)
    have "bitmap_ok (\<lambda>s. priority_group (cpus s (bind_cpu ?th))) (CpuReady (bind_cpu ?th)) s'"
      by (rule cpu_ready.bitmap_insert [where s = s and p = "current_priority ?th"])
        (use assms False g p q in \<open>auto simp: bitmaps_ok_def inserted_def Let_def\<close>)
    moreover have "bitmap_ok (\<lambda>s. priority_group (cpus s c)) (CpuReady c) s'" if "c \<noteq> bind_cpu ?th" for c
      using assms False g q that by (auto simp: bitmaps_ok_def bitmap_ok_def inserted_def Let_def)
    moreover have "bitmap_ok ready_priority_group Ready s'"
      using assms False g q by (auto simp: bitmaps_ok_def bitmap_ok_def inserted_def Let_def)
    ultimately show ?thesis by (metis bitmaps_ok_def)
  qed
qed

lemma inserted_ready_inv:
  assumes "ready_inv (insert t E) s" "\<not> linked s t" "prio_ok (threads s t)"
    "oncpu (threads s t) = RT_CPU_DETACHED" "inserted t s s'"
  shows "ready_inv E s'"
proof -
  let ?q = "ready_q (set_stat RT_THREAD_READY (threads s t))"
  have thr: "threads s' = (threads s)(t := set_stat RT_THREAD_READY (threads s t))"
    using assms(5) by (simp add: inserted_def Let_def)
  have q: "set (queues s' ?q) = insert t (set (queues s ?q))" "\<And>q. q \<noteq> ?q \<Longrightarrow> queues s' q = queues s q"
    using assms(5) by (auto simp: inserted_def Let_def)
  have qq: "ready_q (threads s t) = ?q" by (simp add: ready_q_def)
  have fresh: "t \<notin> set (queues s q)" for q using assms(2) by (simp add: linked_def)
  have "queues_wf s'"
  proof -
    from assms(5) consider "queues s' = queues (rt_list_insert_after ?q t s)"
      | "queues s' = queues (rt_list_insert_before ?q t s)"
      by (auto simp: inserted_def Let_def list_defs)
    then show ?thesis
    proof cases
      case 1
      from queues_wf_cong [OF this] show ?thesis
        using assms(1,2) queues_wf_insert_after [of s t ?q] by (simp add: ready_inv_def)
    next
      case 2
      from queues_wf_cong [OF this] show ?thesis
        using assms(1,2) queues_wf_insert_before [of s t ?q] by (simp add: ready_inv_def)
    qed
  qed
  moreover have "bitmaps_ok s'"
    using assms inserted_bitmaps by (auto simp: ready_inv_def)
  moreover have "ready_members s'"
    unfolding ready_members_def
  proof (intro allI impI)
    fix q t' assume a: "is_ready_q q" "t' \<in> set (queues s' q)"
    show "q = ready_q (threads s' t') \<and> prio_ok (threads s' t') \<and> thread_stat s' t' = RT_THREAD_READY
      \<and> oncpu (threads s' t') = RT_CPU_DETACHED"
    proof (cases "t' = t")
      case True
      with a q fresh have "q = ?q" by (cases "q = ?q") auto
      with True assms(3,4) show ?thesis by (simp add: thr thread_stat_def qq prio_ok_def)
    next
      case False
      with a q have "t' \<in> set (queues s q)" by (cases "q = ?q") auto
      with assms(1) a(1) False show ?thesis
        by (auto simp: thr ready_inv_defs)
    qed
  qed
  moreover have "ready_complete E s'"
  proof -
    have "x \<in> set (queues s' q)" if "x \<in> set (queues s q)" for x q
      using q that by (cases "q = ?q") auto
    then show ?thesis using assms(1) q(1) by (auto simp: ready_inv_defs thr qq)
  qed
  ultimately show ?thesis by (simp add: ready_inv_def)
qed

lemma ready_inv_insert_thread:
  assumes "ready_inv (insert t E) s" "\<not> linked s t" "prio_ok (threads s t)"
  shows "ready_inv E (rt_schedule_insert_thread c t s)"
proof (cases "oncpu (threads s t) = RT_CPU_DETACHED")
  case True
  then show ?thesis using assms rt_schedule_insert_thread_inserted inserted_ready_inv by blast
next
  case False
  have "ready_inv (insert t E) (upd_thread t (set_stat RT_THREAD_RUNNING) s)"
    by (rule ready_inv_upd_moving) (use assms in \<open>auto simp: linked_def\<close>)
  then have "ready_inv E (upd_thread t (set_stat RT_THREAD_RUNNING) s)"
    by (rule ready_inv_settle) (simp add: thread_stat_def)
  with False show ?thesis by (simp add: rt_schedule_insert_thread_def)
qed

lemma remove_thread_sel [simp]:
  "threads (rt_schedule_remove_thread t s) = threads s"
  "queues (rt_schedule_remove_thread t s) = (\<lambda>q. removeAll t (queues s q))"
  "current_thread (cpus (rt_schedule_remove_thread t s) c) = current_thread (cpus s c)"
  "irq_nest (cpus (rt_schedule_remove_thread t s) c) = irq_nest (cpus s c)"
  by (auto simp: rt_schedule_remove_thread_def Let_def rt_list_remove_def)

lemma not_linked_remove_thread [simp]: "\<not> linked (rt_schedule_remove_thread t s) t"
  by (simp add: linked_def)

lemma remove_thread_bitmaps:
  assumes "bitmaps_ok s" "prio_ok (threads s t)"
    "\<And>q. is_ready_q q \<Longrightarrow> t \<in> set (queues s q) \<Longrightarrow> q = ready_q (threads s t)"
  shows "bitmaps_ok (rt_schedule_remove_thread t s)"
proof -
  let ?th = "threads s t" and ?s = "rt_schedule_remove_thread t s"
  have m: "number_mask ?th = prio_mask (current_priority ?th)" using assms(2) by (simp add: prio_ok_def)
  have same: "queues ?s q = queues s q" if "is_ready_q q" "q \<noteq> ready_q ?th" for q
    using assms(3) that by (auto intro: removeAll_id)
  show ?thesis
  proof (cases "bind_cpu ?th = RT_CPUS_NR")
    case True
    have "t \<notin> set (queues s (Ready p))" if "p \<noteq> current_priority ?th" for p
      using assms(3) [of "Ready p"] that True by (auto simp: ready_q_def)
    then have "bitmap_ok ready_priority_group Ready ?s"
      using global_ready.bitmap_remove [of s "current_priority ?th" t] assms(1) m True
      by (simp add: bitmaps_ok_def rt_schedule_remove_thread_def Let_def rt_list_isempty_def split: if_splits)
    moreover have "bitmap_ok (\<lambda>s. priority_group (cpus s c)) (CpuReady c) ?s" for c
    proof -
      have "queues ?s (CpuReady c p) = queues s (CpuReady c p)" for p
        using True by (intro same) (auto simp: ready_q_def)
      then show ?thesis using assms(1) True
        by (auto simp: bitmaps_ok_def bitmap_ok_def rt_schedule_remove_thread_def Let_def)
    qed
    ultimately show ?thesis by (simp add: bitmaps_ok_def)
  next
    case False
    let ?b = "bind_cpu ?th"
    have "t \<notin> set (queues s (CpuReady ?b p))" if "p \<noteq> current_priority ?th" for p
      using assms(3) [of "CpuReady ?b p"] that False by (auto simp: ready_q_def)
    then have "bitmap_ok (\<lambda>s. priority_group (cpus s ?b)) (CpuReady ?b) ?s"
      using cpu_ready.bitmap_remove [of ?b s "current_priority ?th" t] assms(1) m False
      by (simp add: bitmaps_ok_def rt_schedule_remove_thread_def Let_def rt_list_isempty_def upd_cpu_def split: if_splits)
    moreover have "bitmap_ok (\<lambda>s. priority_group (cpus s c)) (CpuReady c) ?s" if "c \<noteq> ?b" for c
    proof -
      have "queues ?s (CpuReady c p) = queues s (CpuReady c p)" for p
        using False that by (intro same) (auto simp: ready_q_def)
      then show ?thesis using assms(1) False that
        by (auto simp: bitmaps_ok_def bitmap_ok_def rt_schedule_remove_thread_def Let_def)
    qed
    moreover have "bitmap_ok ready_priority_group Ready ?s"
    proof -
      have "queues ?s (Ready p) = queues s (Ready p)" for p
        using False by (intro same) (auto simp: ready_q_def)
      then show ?thesis using assms(1) False
        by (auto simp: bitmaps_ok_def bitmap_ok_def rt_schedule_remove_thread_def Let_def)
    qed
    ultimately show ?thesis by (metis bitmaps_ok_def)
  qed
qed

lemma ready_inv_remove_thread:
  assumes "ready_inv E s" "prio_ok (threads s t)"
  shows "ready_inv (insert t E) (rt_schedule_remove_thread t s)"
proof -
  have "bitmaps_ok (rt_schedule_remove_thread t s)"
    using assms by (intro remove_thread_bitmaps) (auto simp: ready_inv_def ready_members_def)
  then show ?thesis using assms
    by (auto simp: ready_inv_defs queues_wf_def distinct_removeAll)
qed


subsection \<open>The highest ready priority\<close>

definition may_run :: "cpuid \<Rightarrow> rt_thread \<Rightarrow> bool" where
  "may_run c th \<longleftrightarrow> bind_cpu th = RT_CPUS_NR \<or> bind_cpu th = c"

lemma first_ready_ok:
  assumes "p < 32" "queues s (tbl (ucast p)) \<noteq> []"
  shows "\<exists>t. first_ready tbl p s = Inr t \<and> t \<in> set (queues s (tbl (ucast p)))"
  using assms by (cases "queues s (tbl (ucast p))") (auto simp: first_ready_def)

lemma all_ones_le: "(- 1 :: u32) \<le> x \<longleftrightarrow> x = - 1"
  by (metis order_antisym word_order.extremum order_refl)

text \<open>
  With right bitmaps and some ready thread the search succeeds, and its result is a ready thread
  that the core may run and that no other such thread exceeds in priority.
\<close>

lemma highest_priority_thread:
  assumes "ready_inv E s" "ready_priority_group s \<noteq> 0 \<or> priority_group (cpus s c) \<noteq> 0"
    "c < RT_CPUS_NR"
  shows "\<exists>t. scheduler_get_highest_priority_thread c s = Inr (ucast (current_priority (threads s t)), t)
    \<and> thread_stat s t = RT_THREAD_READY \<and> may_run c (threads s t)
    \<and> t \<in> set (queues s (ready_q (threads s t)))
    \<and> (\<forall>q t'. is_ready_q q \<longrightarrow> t' \<in> set (queues s q) \<longrightarrow> may_run c (threads s t') \<longrightarrow>
        current_priority (threads s t) \<le> current_priority (threads s t'))"
proof -
  let ?g = "rt_ffs (ready_priority_group s) - 1" and ?l = "rt_ffs (priority_group (cpus s c)) - 1"
  have bm: "bitmap_ok ready_priority_group Ready s" "bitmap_ok (\<lambda>s. priority_group (cpus s c)) (CpuReady c) s"
    using assms(1) by (simp_all add: ready_inv_def bitmaps_ok_def)
  have gmin: "?g \<le> ucast p" if "queues s (Ready p) \<noteq> []" for p
    using that global_ready.highest_ready(3) [OF bm(1)] global_ready.none_ready(1) [OF bm(1)] by blast
  have lmin: "?l \<le> ucast p" if "queues s (CpuReady c p) \<noteq> []" for p
    using that cpu_ready.highest_ready(3) [OF bm(2)] cpu_ready.none_ready(1) [OF bm(2)] by blast
  define tbl where "tbl = (if ?g < ?l then Ready else CpuReady c)"
  define p where "p = (if ?g < ?l then ?g else ?l)"
  have p: "p < 32 \<and> queues s (tbl (ucast p)) \<noteq> []"
  proof (cases "?g < ?l")
    case True
    then have "ready_priority_group s \<noteq> 0"
      using global_ready.none_ready(2) [OF bm(1)] by (metis not_less word_order.extremum)
    with True global_ready.highest_ready(1,2) [OF bm(1)] show ?thesis by (simp add: tbl_def p_def)
  next
    case False
    have "priority_group (cpus s c) \<noteq> 0"
    proof
      assume l: "priority_group (cpus s c) = 0"
      with False have "?g = - 1" using cpu_ready.none_ready(2) [OF bm(2)] by (simp add: not_less all_ones_le)
      with global_ready.highest_ready(1) [OF bm(1)] assms(2) l show False by auto
    qed
    with False cpu_ready.highest_ready(1,2) [OF bm(2)] show ?thesis by (simp add: tbl_def p_def)
  qed
  have rq: "is_ready_q (tbl x)" for x by (simp add: tbl_def)
  obtain t where t: "first_ready tbl p s = Inr t" "t \<in> set (queues s (tbl (ucast p)))"
    using first_ready_ok [of p s tbl] p by blast
  note m = ready_inv_in_ready [OF assms(1) t(2) rq]
  have cp: "ucast (current_priority (threads s t)) = p"
  proof -
    have "current_priority (threads s t) = ucast p"
      using m(1) by (auto simp: tbl_def ready_q_def split: if_splits)
    moreover have "unat (ucast (ucast p :: u8) :: u32) = unat p"
      using p by (simp add: word_less_nat_alt)
    ultimately show ?thesis by (simp add: word_unat_eq_iff)
  qed
  have "scheduler_get_highest_priority_thread c s = Inr (p, t)"
    using t(1) by (auto simp: scheduler_get_highest_priority_thread_def Let_def p_def tbl_def split: if_splits)
  moreover have "may_run c (threads s t)"
    using m(1) by (auto simp: tbl_def ready_q_def may_run_def split: if_splits)
  moreover have "current_priority (threads s t) \<le> current_priority (threads s t')"
    if "is_ready_q q" "t' \<in> set (queues s q)" "may_run c (threads s t')" for q t'
  proof -
    note m' = ready_inv_in_ready [OF assms(1) that(2,1)]
    have "p \<le> ucast (current_priority (threads s t'))"
    proof (cases "bind_cpu (threads s t') = RT_CPUS_NR")
      case True
      then have "queues s (Ready (current_priority (threads s t'))) \<noteq> []"
        using m'(1) that(2) by (auto simp: ready_q_def)
      from gmin [OF this] show ?thesis by (auto simp: p_def)
    next
      case False
      then have "queues s (CpuReady c (current_priority (threads s t'))) \<noteq> []"
        using m'(1) that(2,3) by (auto simp: ready_q_def may_run_def)
      from lmin [OF this] show ?thesis by (auto simp: p_def)
    qed
    then show ?thesis by (simp add: word_le_nat_alt flip: cp)
  qed
  moreover have "t \<in> set (queues s (ready_q (threads s t)))" using t(2) m(1) by simp
  ultimately show ?thesis using m(3) cp by blast
qed


subsection \<open>Invariant of the scheduler\<close>

text \<open>
  Started threads have a valid priority with its mask; a running thread is in no list and on a core;
  a core's current thread and the thread's \<open>oncpu\<close> agree.
\<close>

definition started :: "u8 \<Rightarrow> bool" where
  "started x \<longleftrightarrow> x = RT_THREAD_READY \<or> x = RT_THREAD_RUNNING \<or> x = RT_THREAD_SUSPEND"

definition threads_ok :: "kernel \<Rightarrow> bool" where
  "threads_ok s \<longleftrightarrow> (\<forall>t. (started (thread_stat s t) \<longrightarrow> prio_ok (threads s t))
     \<and> (thread_stat s t = RT_THREAD_RUNNING \<longrightarrow> \<not> linked s t \<and> oncpu (threads s t) < RT_CPUS_NR)
     \<and> oncpu (threads s t) \<le> RT_CPU_DETACHED)"

definition cpus_ok :: "kernel \<Rightarrow> bool" where
  "cpus_ok s \<longleftrightarrow> (\<forall>c < RT_CPUS_NR. \<forall>t. current_thread (cpus s c) = Some t \<longleftrightarrow> oncpu (threads s t) = c)"

definition sched_inv :: "kernel \<Rightarrow> bool" where
  "sched_inv s \<longleftrightarrow> ready_inv {} s \<and> threads_ok s \<and> cpus_ok s"

lemma sched_invD:
  assumes "sched_inv s"
  shows "ready_inv {} s" "threads_ok s" "cpus_ok s" "queues_wf s"
  using assms by (simp_all add: sched_inv_def ready_inv_def)

lemma sched_inv_frame:
  assumes "sched_inv s" "queues s' = queues s" "ready_priority_group s' = ready_priority_group s"
    "\<And>c. priority_group (cpus s' c) = priority_group (cpus s c)"
    "\<And>c. current_thread (cpus s' c) = current_thread (cpus s c)"
    "\<And>t. same_sched (threads s t) (threads s' t)"
  shows "sched_inv s'"
proof -
  have "oncpu (threads s' t) = oncpu (threads s t)" "thread_stat s' t = thread_stat s t"
    "prio_ok (threads s' t) = prio_ok (threads s t)" for t
    using assms(6) [of t] by (simp_all add: same_sched_def thread_stat_def prio_ok_def)
  moreover have "linked s' = linked s" using assms(2) by (rule linked_cong)
  ultimately show ?thesis
    using assms ready_inv_frame [OF sched_invD(1) [OF assms(1)] assms(2-4,6)]
    by (simp add: sched_inv_def threads_ok_def cpus_ok_def)
qed

lemma same_sched_lock [simp]:
  "same_sched (threads s t) (threads (rt_cpus_lock c s) t)"
  "same_sched (threads s t) (threads (rt_cpus_unlock c s) t)"
  by (auto simp: rt_cpus_lock_def rt_cpus_unlock_def same_sched_def split: option.split)

lemma lock_sel [simp]:
  "queues (rt_cpus_lock c s) = queues s" "cpus (rt_cpus_lock c s) = cpus s"
  "ready_priority_group (rt_cpus_lock c s) = ready_priority_group s"
  "queues (rt_cpus_unlock c s) = queues s" "cpus (rt_cpus_unlock c s) = cpus s"
  "ready_priority_group (rt_cpus_unlock c s) = ready_priority_group s"
  by (auto simp: rt_cpus_lock_def rt_cpus_unlock_def split: option.split)

lemma sched_inv_lock [intro]: "sched_inv s \<Longrightarrow> sched_inv (rt_cpus_lock c s)"
  and sched_inv_unlock [intro]: "sched_inv s \<Longrightarrow> sched_inv (rt_cpus_unlock c s)"
  by (erule sched_inv_frame; simp)+

lemma sched_inv_switch_flag [intro]: "sched_inv s \<Longrightarrow> sched_inv (upd_cpu c (\<lambda>p. p\<lparr>irq_switch_flag := x\<rparr>) s)"
  by (erule sched_inv_frame) simp_all

lemma insert_thread_threads:
  "threads (rt_schedule_insert_thread c t s) = (threads s)(t := set_stat
     (if oncpu (threads s t) \<noteq> RT_CPU_DETACHED then RT_THREAD_RUNNING else RT_THREAD_READY) (threads s t))"
  by (auto simp: rt_schedule_insert_thread_def Let_def list_defs rt_hw_ipi_send_def)

lemma insert_thread_current [simp]:
  "current_thread (cpus (rt_schedule_insert_thread c t s) c') = current_thread (cpus s c')"
  by (auto simp: rt_schedule_insert_thread_def Let_def list_defs rt_hw_ipi_send_def)

lemma insert_thread_queues:
  "oncpu (threads s t) = RT_CPU_DETACHED \<Longrightarrow>
     set (queues (rt_schedule_insert_thread c t s) q)
       = (if q = ready_q (threads s t) then insert t (set (queues s q)) else set (queues s q))"
  by (auto simp: rt_schedule_insert_thread_def Let_def list_defs rt_hw_ipi_send_def ready_q_def)

lemma remove_thread_upd_oncpu:
  "rt_schedule_remove_thread t (upd_thread t (\<lambda>th. th\<lparr>oncpu := c\<rparr>) s)
     = upd_thread t (\<lambda>th. th\<lparr>oncpu := c\<rparr>) (rt_schedule_remove_thread t s)"
  by (auto simp: rt_schedule_remove_thread_def Let_def list_defs upd_defs)

text \<open>
  The incoming thread, taken out of the ready table: its list and bitmap are right again and it runs.
\<close>

definition switched_in :: "cpuid \<Rightarrow> tid \<Rightarrow> kernel \<Rightarrow> kernel" where
  "switched_in c to s = upd_thread to (\<lambda>th. set_stat RT_THREAD_RUNNING (th\<lparr>oncpu := c\<rparr>))
      (rt_schedule_remove_thread to s)"

lemma ready_inv_switched_in:
  assumes "ready_inv E s" "prio_ok (threads s to)"
  shows "ready_inv E (switched_in c to s)"
proof -
  have "ready_inv (insert to E) (switched_in c to s)"
    unfolding switched_in_def by (rule ready_inv_upd_moving)
      (use ready_inv_remove_thread [OF assms] in auto)
  then show ?thesis by (rule ready_inv_settle) (simp add: switched_in_def thread_stat_def)
qed


subsection \<open>The outgoing thread\<close>

definition stays :: "rt_thread \<Rightarrow> u32 \<Rightarrow> bool" where
  "stays th prio \<longleftrightarrow> stat th AND RT_THREAD_STAT_MASK = RT_THREAD_RUNNING
     \<and> (ucast (current_priority th) < prio
        \<or> ucast (current_priority th) = prio \<and> stat th AND RT_THREAD_STAT_YIELD = 0)"

abbreviation no_yield :: "rt_thread \<Rightarrow> rt_thread" where
  "no_yield th \<equiv> th\<lparr>stat := stat th AND NOT RT_THREAD_STAT_YIELD\<rparr>"

definition detached :: "cpuid \<Rightarrow> tid \<Rightarrow> kernel \<Rightarrow> kernel" where
  "detached c cur s =
     (let s = upd_thread cur (\<lambda>th. th\<lparr>oncpu := RT_CPU_DETACHED\<rparr>) s in
      if thread_stat s cur = RT_THREAD_RUNNING
      then upd_thread cur no_yield (rt_schedule_insert_thread c cur s) else s)"

lemma no_yield_stat [simp]:
  "(x AND NOT RT_THREAD_STAT_YIELD) AND RT_THREAD_STAT_MASK = x AND RT_THREAD_STAT_MASK"
proof -
  have "NOT 8 AND (7 :: u8) = 7" by simp
  then show ?thesis by (simp add: stat_defs and.assoc)
qed

lemma scheduler_pick_eq:
  assumes "scheduler_get_highest_priority_thread c s = Inr (prio, best)"
  shows "scheduler_pick c cur s = Inr
    (if stays (threads s cur) prio
     then (upd_thread cur (\<lambda>th. (no_yield th)\<lparr>oncpu := c\<rparr>) s, cur, prio)
     else (upd_thread best (\<lambda>th. th\<lparr>oncpu := c\<rparr>) (detached c cur s), best, prio))"
  using assms by (auto simp: scheduler_pick_def Let_def detached_def stays_def thread_stat_def upd_thread_def)

lemma detached_sel:
  "t \<noteq> cur \<Longrightarrow> threads (detached c cur s) t = threads s t"
  "oncpu (threads (detached c cur s) cur) = RT_CPU_DETACHED"
  "current_priority (threads (detached c cur s) cur) = current_priority (threads s cur)"
  "number_mask (threads (detached c cur s) cur) = number_mask (threads s cur)"
  "bind_cpu (threads (detached c cur s) cur) = bind_cpu (threads s cur)"
  "thread_stat (detached c cur s) cur =
     (if thread_stat s cur = RT_THREAD_RUNNING then RT_THREAD_READY else thread_stat s cur)"
  "current_thread (cpus (detached c cur s) c') = current_thread (cpus s c')"
  by (auto simp: detached_def Let_def insert_thread_threads thread_stat_def)

lemma detached_queues:
  "set (queues s q) \<subseteq> set (queues (detached c cur s) q)"
  "set (queues (detached c cur s) q) \<subseteq> insert cur (set (queues s q))"
  by (auto simp: detached_def Let_def insert_thread_queues split: if_splits)

lemma ready_inv_detached:
  assumes "sched_inv s" "oncpu (threads s cur) < RT_CPUS_NR"
  shows "ready_inv {} (detached c cur s)"
proof -
  let ?s = "upd_thread cur (\<lambda>th. th\<lparr>oncpu := RT_CPU_DETACHED\<rparr>) s"
  note inv = sched_invD [OF assms(1)]
  have nr: "cur \<notin> set (queues s q)" if "is_ready_q q" for q
    using ready_inv_oncpu [OF inv(1) _ that] assms(2) by auto
  have m: "ready_inv {cur} ?s"
    by (rule ready_inv_upd_moving) (use inv nr in \<open>auto intro: ready_inv_mono\<close>)
  show ?thesis
  proof (cases "thread_stat s cur = RT_THREAD_RUNNING")
    case True
    then have "\<not> linked s cur" "prio_ok (threads s cur)" using inv(2) by (auto simp: threads_ok_def started_def)
    then have "\<not> linked ?s cur" "prio_ok (threads ?s cur)"
      by (simp_all add: linked_def prio_ok_def)
    with m have "ready_inv {} (rt_schedule_insert_thread c cur ?s)"
      by (intro ready_inv_insert_thread) auto
    then have "ready_inv {} (upd_thread cur no_yield (rt_schedule_insert_thread c cur ?s))"
      by (rule ready_inv_frame) (auto simp: same_sched_def)
    with True show ?thesis by (simp add: detached_def thread_stat_def)
  next
    case False
    have "thread_stat s cur \<noteq> RT_THREAD_READY"
      using inv(1) nr [of "ready_q (threads s cur)"] by (auto simp: ready_inv_def ready_complete_def)
    with ready_inv_settle [OF m] have "ready_inv {} ?s" by (simp add: thread_stat_def)
    with False show ?thesis by (simp add: detached_def thread_stat_def)
  qed
qed

text \<open>The state after a switch from \<open>cur\<close> to \<open>to\<close>, up to lock counters and the record of priorities.\<close>

lemma sched_inv_switch:
  assumes "sched_inv s" "c < RT_CPUS_NR" "current_thread (cpus s c) = Some cur"
    "to \<in> set (queues s q)" "is_ready_q q"
    and s': "queues s' = queues (switched_in c to (detached c cur s))"
      "threads s' = threads (switched_in c to (detached c cur s))"
      "ready_priority_group s' = ready_priority_group (switched_in c to (detached c cur s))"
      "\<And>c'. priority_group (cpus s' c') = priority_group (cpus (switched_in c to (detached c cur s)) c')"
      "\<And>c'. current_thread (cpus s' c') = (if c' = c then Some to else current_thread (cpus s c'))"
  shows "sched_inv s'"
proof -
  let ?d = "detached c cur s"
  note inv = sched_invD [OF assms(1)]
  have on: "oncpu (threads s cur) = c" using inv(3) assms(2,3) by (simp add: cpus_ok_def)
  note to = ready_inv_in_ready [OF inv(1) assms(4,5)]
  have ne: "to \<noteq> cur" using to(4) on assms(2) by auto
  have d: "ready_inv {} ?d" by (rule ready_inv_detached) (use assms on in auto)
  have "ready_inv {} (switched_in c to ?d)"
    by (rule ready_inv_switched_in) (use d to(2) ne in \<open>simp_all add: detached_sel\<close>)
  then have "ready_inv {} s'" by (rule ready_inv_frame) (use s' in simp_all)
  moreover have "threads_ok s'"
    unfolding threads_ok_def
  proof (intro allI)
    fix t
    have lk: "linked s' t \<Longrightarrow> t \<noteq> to \<and> (t = cur \<or> linked s t)"
      using detached_queues(2) [of c cur s] by (fastforce simp: linked_def s'(1) switched_in_def)
    consider "t = to" | "t = cur" "t \<noteq> to" | "t \<noteq> to" "t \<noteq> cur" by blast
    then show "(started (thread_stat s' t) \<longrightarrow> prio_ok (threads s' t))
      \<and> (thread_stat s' t = RT_THREAD_RUNNING \<longrightarrow> \<not> linked s' t \<and> oncpu (threads s' t) < RT_CPUS_NR)
      \<and> oncpu (threads s' t) \<le> RT_CPU_DETACHED"
    proof cases
      case 1
      then show ?thesis using lk to(2) ne assms(2)
        by (auto simp: s'(2) switched_in_def detached_sel prio_ok_def)
    next
      case 2
      have "threads s' cur = threads ?d cur" using ne by (simp add: s'(2) switched_in_def)
      with 2 inv(2) show ?thesis
        using detached_sel(2-6) [of c cur s]
        by (auto simp: threads_ok_def thread_stat_def started_def prio_ok_def split: if_splits)
    next
      case 3
      then have "threads s' t = threads s t" by (simp add: s'(2) switched_in_def detached_sel)
      with 3 lk inv(2) show ?thesis by (auto simp: threads_ok_def thread_stat_def)
    qed
  qed
  moreover have "cpus_ok s'"
  proof -
    have "oncpu (threads s' t) = (if t = to then c else if t = cur then RT_CPU_DETACHED else oncpu (threads s t))" for t
      using ne by (simp add: s'(2) switched_in_def detached_sel)
    moreover have "current_thread (cpus s c') = Some t \<longleftrightarrow> oncpu (threads s t) = c'" if "c' < RT_CPUS_NR" for c' t
      using that inv(3) by (simp add: cpus_ok_def)
    ultimately show ?thesis using on ne to(4) assms(2,3)
      by (simp add: cpus_ok_def s'(5)) (metis option.inject less_irrefl)
  qed
  ultimately show ?thesis by (simp add: sched_inv_def)
qed


subsection \<open>Correctness of the switch\<close>

lemma remove_thread_upd_cpu:
  "rt_schedule_remove_thread t (upd_cpu c (\<lambda>p. p\<lparr>cpu_priority := x\<rparr>) s)
     = upd_cpu c (\<lambda>p. p\<lparr>cpu_priority := x\<rparr>) (rt_schedule_remove_thread t s)"
proof -
  have c: "p\<lparr>cpu_priority := x, priority_group := g\<rparr> = p\<lparr>priority_group := g, cpu_priority := x\<rparr>" for p g
    by (cases p) simp
  show ?thesis
    by (cases "bind_cpu (threads s t) = c")
      (auto simp: rt_schedule_remove_thread_def Let_def list_defs upd_defs fun_upd_twist c)
qed

lemma scheduler_switch_in_eq:
  "scheduler_switch_in c to prio (upd_thread to (\<lambda>th. th\<lparr>oncpu := c\<rparr>) s) =
     (if scheduler_stack_check (threads s to)
      then Inr (upd_cpu c (\<lambda>p. p\<lparr>cpu_priority := ucast prio\<rparr>) (switched_in c to s)) else Inl StackOverflow)"
proof -
  have "scheduler_stack_check (set_stat x (th\<lparr>oncpu := c\<rparr>)) = scheduler_stack_check th" for x th
    by (simp add: scheduler_stack_check_def set_stat_def)
  moreover have "upd_cpu c f (upd_thread t g s) = upd_thread t g (upd_cpu c f s)" for f g t s
    by (simp add: upd_defs)
  moreover have "upd_thread t f (upd_thread t g s) = upd_thread t (\<lambda>th. f (g th)) s" for f g t s
    by (simp add: upd_defs)
  ultimately show ?thesis
    by (simp add: scheduler_switch_in_def Let_def remove_thread_upd_cpu remove_thread_upd_oncpu switched_in_def)
qed

lemma context_switch_sel [simp]:
  "queues (rt_hw_context_switch c to s) = queues s"
  "ready_priority_group (rt_hw_context_switch c to s) = ready_priority_group s"
  "priority_group (cpus (rt_hw_context_switch c to s) c') = priority_group (cpus s c')"
  "current_thread (cpus (rt_hw_context_switch c to s) c') = (if c' = c then Some to else current_thread (cpus s c'))"
  "same_sched (threads s t) (threads (rt_hw_context_switch c to s) t)"
  by (auto simp: rt_hw_context_switch_def Let_def rt_cpus_lock_status_restore_def rt_cpus_unlock_def
      same_sched_def)

text \<open>What a scheduling decision on core \<open>c\<close> leaves: the invariant, and a running thread that no ready
  thread the core may run exceeds in priority.\<close>

definition best_on :: "cpuid \<Rightarrow> kernel \<Rightarrow> bool" where
  "best_on c s \<longleftrightarrow> (\<exists>to. current_thread (cpus s c) = Some to \<and> thread_stat s to = RT_THREAD_RUNNING
     \<and> (\<forall>t. thread_stat s t = RT_THREAD_READY \<longrightarrow> may_run c (threads s t) \<longrightarrow>
           current_priority (threads s to) \<le> current_priority (threads s t)))"

lemma best_on_frame:
  assumes "best_on c s" "\<And>t. same_sched (threads s t) (threads s' t)"
    "current_thread (cpus s' c) = current_thread (cpus s c)"
  shows "best_on c s'"
  using assms unfolding best_on_def same_sched_def thread_stat_def may_run_def by metis

lemma stay_best:
  assumes "sched_inv s" "c < RT_CPUS_NR" "current_thread (cpus s c) = Some cur"
    "thread_stat s cur = RT_THREAD_RUNNING" "ready_priority_group s = 0" "priority_group (cpus s c) = 0"
  shows "best_on c s"
proof -
  note inv = sched_invD [OF assms(1)]
  have e: "queues s (Ready p) = []" "queues s (CpuReady c p) = []" for p
    using inv(1) assms(5,6) global_ready.none_ready(1) [of s p] cpu_ready.none_ready(1) [of c s p]
    by (auto simp: ready_inv_def bitmaps_ok_def)
  have "\<not> may_run c (threads s t)" if "thread_stat s t = RT_THREAD_READY" for t
  proof
    assume "may_run c (threads s t)"
    with e have "queues s (ready_q (threads s t)) = []" by (auto simp: may_run_def ready_q_def)
    with inv(1) that show False by (auto simp: ready_inv_def ready_complete_def)
  qed
  with assms show ?thesis by (auto simp: best_on_def)
qed

lemma switch_best:
  assumes "sched_inv s" "c < RT_CPUS_NR" "current_thread (cpus s c) = Some cur"
    "scheduler_get_highest_priority_thread c s = Inr (ucast (current_priority (threads s best)), best)"
    "thread_stat s best = RT_THREAD_READY" "best \<in> set (queues s (ready_q (threads s best)))"
    "\<forall>q t'. is_ready_q q \<longrightarrow> t' \<in> set (queues s q) \<longrightarrow> may_run c (threads s t') \<longrightarrow>
        current_priority (threads s best) \<le> current_priority (threads s t')"
    and st: "\<not> stays (threads s cur) (ucast (current_priority (threads s best)))"
    and s': "threads s' = threads (switched_in c best (detached c cur s))" "current_thread (cpus s' c) = Some best"
  shows "best_on c s'"
proof -
  note inv = sched_invD [OF assms(1)]
  have on: "oncpu (threads s cur) = c" using inv(3) assms(2,3) by (simp add: cpus_ok_def)
  have ne: "best \<noteq> cur" using ready_inv_in_ready(4) [OF inv(1) assms(6)] on assms(2) by auto
  have "current_priority (threads s best) \<le> current_priority (threads s' t)"
    if r: "thread_stat s' t = RT_THREAD_READY" "may_run c (threads s' t)" for t
  proof (cases "t = cur")
    case True
    have th: "threads s' cur = threads (detached c cur s) cur" using ne by (simp add: s' switched_in_def)
    show ?thesis
    proof (cases "thread_stat s cur = RT_THREAD_RUNNING")
      case True
      with st have "\<not> current_priority (threads s cur) < current_priority (threads s best)"
        by (auto simp: stays_def thread_stat_def word_less_nat_alt)
      with \<open>t = cur\<close> show ?thesis by (simp add: th detached_sel)
    next
      case False
      then have "thread_stat s cur = RT_THREAD_READY"
        using r(1) \<open>t = cur\<close> th detached_sel(6) [of c cur s] by (simp add: thread_stat_def)
      then have "cur \<in> set (queues s (ready_q (threads s cur)))"
        using inv(1) by (simp add: ready_inv_def ready_complete_def)
      from ready_inv_in_ready(4) [OF inv(1) this] on assms(2) show ?thesis by simp
    qed
  next
    case False
    have "t \<noteq> best" using r(1) by (auto simp: s' switched_in_def thread_stat_def)
    with False have th: "threads s' t = threads s t" by (simp add: s' switched_in_def detached_sel)
    have "t \<in> set (queues s (ready_q (threads s t)))"
      using inv(1) r(1) th by (simp add: ready_inv_def ready_complete_def thread_stat_def)
    with assms(7) r(2) th show ?thesis by (metis is_ready_q_ready_q)
  qed
  then show ?thesis using s' ne
    by (auto simp: best_on_def switched_in_def detached_sel thread_stat_def)
qed


text \<open>The common part of both switching functions, when the lock allows a switch.\<close>

lemma scheduler_pick_switch:
  assumes "sched_inv s" "c < RT_CPUS_NR" "current_thread (cpus s c) = Some cur"
    "ready_priority_group s \<noteq> 0 \<or> priority_group (cpus s c) \<noteq> 0"
  shows "(\<exists>s1 prio. scheduler_pick c cur s = Inr (s1, cur, prio) \<and> sched_inv s1 \<and> best_on c s1
        \<and> current_thread (cpus s1 c) = Some cur)
    \<or> (\<exists>s1 s2 to prio. scheduler_pick c cur s = Inr (s1, to, prio) \<and> to \<noteq> cur
        \<and> thread_stat s to = RT_THREAD_READY \<and> scheduler_switch_in c to prio s1
            = (if scheduler_stack_check (threads s to) then Inr s2 else Inl StackOverflow)
        \<and> (\<forall>f. (\<forall>th. same_sched th (f th)) \<longrightarrow>
             sched_inv (rt_hw_context_switch c to (upd_thread cur f s2))
             \<and> best_on c (rt_hw_context_switch c to (upd_thread cur f s2))))"
proof -
  note inv = sched_invD [OF assms(1)]
  have on: "oncpu (threads s cur) = c" using inv(3) assms(2,3) by (simp add: cpus_ok_def)
  obtain best where b:
    "scheduler_get_highest_priority_thread c s = Inr (ucast (current_priority (threads s best)), best)"
    "thread_stat s best = RT_THREAD_READY" "best \<in> set (queues s (ready_q (threads s best)))"
    "\<forall>q t'. is_ready_q q \<longrightarrow> t' \<in> set (queues s q) \<longrightarrow> may_run c (threads s t') \<longrightarrow>
        current_priority (threads s best) \<le> current_priority (threads s t')"
    using highest_priority_thread [OF inv(1) assms(4,2)] by blast
  note pick = scheduler_pick_eq [OF b(1), of cur]
  have ne: "best \<noteq> cur" using ready_inv_in_ready(4) [OF inv(1) b(3)] on assms(2) by auto
  show ?thesis
  proof (cases "stays (threads s cur) (ucast (current_priority (threads s best)))")
    case True
    let ?s1 = "upd_thread cur (\<lambda>th. (no_yield th)\<lparr>oncpu := c\<rparr>) s"
    have same: "same_sched (threads s t) (threads ?s1 t)" for t using on by (simp add: same_sched_def)
    have run: "thread_stat s cur = RT_THREAD_RUNNING" using True by (simp add: stays_def thread_stat_def)
    have le: "current_priority (threads s cur) \<le> current_priority (threads s best)"
      using True by (auto simp: stays_def word_le_nat_alt word_less_nat_alt word_unat_eq_iff)
    have "best_on c s"
      unfolding best_on_def
    proof (intro exI conjI allI impI)
      fix t assume t: "thread_stat s t = RT_THREAD_READY" "may_run c (threads s t)"
      then have "t \<in> set (queues s (ready_q (threads s t)))"
        using inv(1) by (simp add: ready_inv_def ready_complete_def)
      with b(4) t(2) have "current_priority (threads s best) \<le> current_priority (threads s t)"
        by (metis is_ready_q_ready_q)
      with le show "current_priority (threads s cur) \<le> current_priority (threads s t)" by (rule order_trans)
    qed fact+
    then have "best_on c ?s1" using same by (rule best_on_frame) simp
    moreover have "sched_inv ?s1" by (rule sched_inv_frame [OF assms(1)]) (simp_all add: same del: upd_thread_sel(12))
    ultimately show ?thesis using pick True assms(3) by auto
  next
    case False
    let ?d = "detached c cur s" and ?p = "ucast (current_priority (threads s best)) :: u32"
    let ?s2 = "upd_cpu c (\<lambda>p. p\<lparr>cpu_priority := ucast ?p\<rparr>) (switched_in c best ?d)"
    have sw: "scheduler_switch_in c best ?p (upd_thread best (\<lambda>th. th\<lparr>oncpu := c\<rparr>) ?d)
        = (if scheduler_stack_check (threads s best) then Inr ?s2 else Inl StackOverflow)"
      using ne by (simp add: scheduler_switch_in_eq detached_sel)
    have si: "sched_inv (switched_in c best ?d \<lparr>cpus := (cpus (switched_in c best ?d))
        (c := (cpus (switched_in c best ?d) c)\<lparr>current_thread := Some best\<rparr>)\<rparr>)" (is "sched_inv ?x")
      by (rule sched_inv_switch [OF assms(1-3) b(3)]) (simp_all add: switched_in_def detached_sel)
    have be: "best_on c ?x"
      by (rule switch_best [OF assms(1-3) b False]) simp_all
    have "sched_inv (rt_hw_context_switch c best (upd_thread cur f ?s2))
        \<and> best_on c (rt_hw_context_switch c best (upd_thread cur f ?s2))"
      if f: "\<forall>th. same_sched th (f th)" for f
    proof -
      have same: "same_sched (threads ?x t) (threads (rt_hw_context_switch c best (upd_thread cur f ?s2)) t)" for t
      proof -
        have "same_sched (threads ?x t) (threads (upd_thread cur f ?s2) t)" using f by simp
        then show ?thesis using context_switch_sel(5) [of "upd_thread cur f ?s2" t c best]
          by (simp only: same_sched_def)
      qed
      have "sched_inv (rt_hw_context_switch c best (upd_thread cur f ?s2))"
        by (rule sched_inv_frame [OF si _ _ _ _ same]) (simp_all add: switched_in_def)
      moreover have "best_on c (rt_hw_context_switch c best (upd_thread cur f ?s2))"
        by (rule best_on_frame [OF be same]) simp
      ultimately show ?thesis ..
    qed
    with sw pick False ne b(2) show ?thesis by auto
  qed
qed


definition stacks_ok :: "kernel \<Rightarrow> bool" where
  "stacks_ok s \<longleftrightarrow> (\<forall>t. scheduler_stack_check (threads s t))"

lemma stack_check_lock [simp]:
  "scheduler_stack_check (threads (rt_cpus_lock c s) t) = scheduler_stack_check (threads s t)"
  "scheduler_stack_check (threads (rt_cpus_unlock c s) t) = scheduler_stack_check (threads s t)"
  by (auto simp: rt_cpus_lock_def rt_cpus_unlock_def scheduler_stack_check_def split: option.split)

lemma thread_stat_lock [simp]:
  "thread_stat (rt_cpus_lock c s) t = thread_stat s t" "thread_stat (rt_cpus_unlock c s) t = thread_stat s t"
  using same_sched_lock [of s t c] by (simp_all add: same_sched_def thread_stat_def)

lemma upd_thread_id: "upd_thread t (\<lambda>th. th) s = s"
  by (simp add: upd_thread_def)

lemma best_on_unlock: "best_on c s \<Longrightarrow> best_on c (rt_cpus_unlock c s)"
  by (erule best_on_frame) simp_all

text \<open>Whatever the locks, a call that returns keeps the invariant.\<close>

lemma rt_schedule_sched_inv:
  assumes "sched_inv s" "c < RT_CPUS_NR" "rt_schedule c s = Inr s'"
  shows "sched_inv s'"
proof -
  let ?s = "rt_cpus_lock c s"
  have inv: "sched_inv ?s" using assms(1) ..
  show ?thesis
  proof (cases "irq_nest (cpus s c) = 0")
    case False
    then have "s' = rt_cpus_unlock c (upd_cpu c (\<lambda>p. p\<lparr>irq_switch_flag := 1\<rparr>) ?s)"
      using assms(3) by (simp add: rt_schedule_def Let_def)
    with inv show ?thesis by auto
  next
    case True
    then obtain cur where cur: "current_thread (cpus ?s c) = Some cur"
      using assms(3) by (auto simp: rt_schedule_def Let_def split: option.splits)
    show ?thesis
    proof (cases "scheduler_lock_nest (threads ?s cur) = 1
        \<and> (ready_priority_group ?s \<noteq> 0 \<or> priority_group (cpus ?s c) \<noteq> 0)")
      case True
      from scheduler_pick_switch [OF inv assms(2) cur conjunct2 [OF True]]
      show ?thesis
        using assms(3) True cur \<open>irq_nest (cpus s c) = 0\<close>
        by (auto simp: rt_schedule_def Let_def upd_thread_id dest!: spec [where x = "\<lambda>th. th"] split: if_splits)
    next
      case False
      then have "s' = rt_cpus_unlock c ?s"
        using assms(3) True cur by (auto simp: rt_schedule_def Let_def split: if_splits)
      with inv show ?thesis by auto
    qed
  qed
qed

lemma rt_scheduler_do_irq_switch_sched_inv:
  assumes "sched_inv s" "c < RT_CPUS_NR" "rt_scheduler_do_irq_switch c s = Inr s'"
  shows "sched_inv s'"
proof -
  let ?s = "rt_cpus_lock c s" and ?t = "upd_cpu c (\<lambda>p. p\<lparr>irq_switch_flag := 0\<rparr>) (rt_cpus_lock c s)"
  have inv: "sched_inv ?s" "sched_inv ?t" using assms(1) by auto
  show ?thesis
  proof (cases "irq_switch_flag (cpus s c) = 0")
    case True
    then show ?thesis using assms(3) inv by (auto simp: rt_scheduler_do_irq_switch_def Let_def)
  next
    case False
    then obtain cur where cur: "current_thread (cpus ?s c) = Some cur"
      using assms(3) by (auto simp: rt_scheduler_do_irq_switch_def Let_def split: option.splits)
    let ?f = "\<lambda>th. th\<lparr>cpus_lock_nest := cpus_lock_nest th - 1, scheduler_lock_nest := scheduler_lock_nest th - 1\<rparr>"
    have f: "\<forall>th. same_sched th (?f th)" by (simp add: same_sched_def)
    show ?thesis
    proof (cases "ready_priority_group ?t \<noteq> 0 \<or> priority_group (cpus ?t c) \<noteq> 0")
      case True
      have "current_thread (cpus ?t c) = Some cur" using cur by simp
      from scheduler_pick_switch [OF inv(2) assms(2) this True] show ?thesis
        using assms(3) True cur False f inv
        by (auto simp: rt_scheduler_do_irq_switch_def Let_def dest!: spec [where x = ?f] split: if_splits)
    next
      case no: False
      then have "s' = rt_cpus_unlock c ?t \<or> s' = rt_cpus_unlock c ?s"
        using assms(3) False cur by (auto simp: rt_scheduler_do_irq_switch_def Let_def split: if_splits)
      with inv show ?thesis by auto
    qed
  qed
qed

text \<open>With the scheduler unlocked and outside interrupts, the call returns and the core runs the best thread.\<close>

lemma rt_schedule_best:
  assumes "sched_inv s" "c < RT_CPUS_NR" "current_thread (cpus s c) = Some cur" "irq_nest (cpus s c) = 0"
    "scheduler_lock_nest (threads s cur) = 0" "cpus_lock_nest (threads s cur) = 0" "stacks_ok s"
    and run: "thread_stat s cur = RT_THREAD_RUNNING
      \<or> (\<exists>t. thread_stat s t = RT_THREAD_READY \<and> may_run c (threads s t))"
  shows "\<exists>s'. rt_schedule c s = Inr s' \<and> sched_inv s' \<and> best_on c s'"
proof -
  let ?s = "rt_cpus_lock c s"
  have inv: "sched_inv ?s" using assms(1) ..
  have cur: "current_thread (cpus ?s c) = Some cur" using assms(3) by simp
  have lock: "scheduler_lock_nest (threads ?s cur) = 1" using assms(3,5,6) by (simp add: rt_cpus_lock_def)
  show ?thesis
  proof (cases "ready_priority_group ?s \<noteq> 0 \<or> priority_group (cpus ?s c) \<noteq> 0")
    case True
    have st: "scheduler_stack_check (threads ?s t)" for t using assms(7) by (simp add: stacks_ok_def)
    from scheduler_pick_switch [OF inv assms(2) cur True] st show ?thesis
      using True cur assms(4) lock
      by (auto simp: rt_schedule_def Let_def upd_thread_id dest!: spec [where x = "\<lambda>th. th"]
          intro: best_on_unlock simp del: and_then_Inr_iff)
  next
    case False
    have "thread_stat s cur = RT_THREAD_RUNNING"
      using run
    proof
      assume "\<exists>t. thread_stat s t = RT_THREAD_READY \<and> may_run c (threads s t)"
      then obtain t where t: "thread_stat s t = RT_THREAD_READY" "may_run c (threads s t)" by blast
      have "queues s (Ready p) = []" "queues s (CpuReady c p) = []" for p
        using sched_invD(1) [OF assms(1)] False global_ready.none_ready(1) [of s p]
          cpu_ready.none_ready(1) [of c s p] by (auto simp: ready_inv_def bitmaps_ok_def)
      with t(2) have "queues s (ready_q (threads s t)) = []" by (auto simp: may_run_def ready_q_def)
      with t(1) sched_invD(1) [OF assms(1)] show ?thesis by (auto simp: ready_inv_def ready_complete_def)
    qed
    then have "best_on c ?s" using False inv cur assms(2) by (intro stay_best [of _ _ cur]) auto
    moreover have "rt_schedule c s = Inr (rt_cpus_unlock c ?s)"
      using False cur assms(4) by (auto simp: rt_schedule_def Let_def)
    ultimately show ?thesis using inv best_on_unlock by auto
  qed
qed


lemma insert_thread_linked:
  "linked (rt_schedule_insert_thread c t s) t' \<Longrightarrow> t' = t \<and> oncpu (threads s t) = RT_CPU_DETACHED \<or> linked s t'"
proof (cases "oncpu (threads s t) = RT_CPU_DETACHED")
  case True
  assume "linked (rt_schedule_insert_thread c t s) t'"
  then show ?thesis using True by (auto simp: linked_def insert_thread_queues split: if_splits)
next
  case False
  assume "linked (rt_schedule_insert_thread c t s) t'"
  then show ?thesis using False by (simp add: rt_schedule_insert_thread_def linked_def)
qed

text \<open>Waking a thread that is in no list keeps the invariant.\<close>

lemma sched_inv_insert_thread:
  assumes "sched_inv s" "\<not> linked s t" "prio_ok (threads s t)"
  shows "sched_inv (rt_schedule_insert_thread c t s)"
proof -
  note inv = sched_invD [OF assms(1)]
  let ?s = "rt_schedule_insert_thread c t s"
  have "ready_inv {} ?s"
    using assms inv(1) by (intro ready_inv_insert_thread) (auto intro: ready_inv_mono)
  moreover have "threads_ok ?s"
    unfolding threads_ok_def
  proof (intro allI)
    fix t'
    show "(started (thread_stat ?s t') \<longrightarrow> prio_ok (threads ?s t'))
      \<and> (thread_stat ?s t' = RT_THREAD_RUNNING \<longrightarrow> \<not> linked ?s t' \<and> oncpu (threads ?s t') < RT_CPUS_NR)
      \<and> oncpu (threads ?s t') \<le> RT_CPU_DETACHED"
      using inv(2) assms(2,3) insert_thread_linked [of c t s t']
      by (cases "t' = t") (auto simp: insert_thread_threads threads_ok_def thread_stat_def prio_ok_def le_less)
  qed
  moreover have "cpus_ok ?s" using inv(3) by (auto simp: cpus_ok_def insert_thread_threads)
  ultimately show ?thesis by (simp add: sched_inv_def)
qed

text \<open>
  Taking a thread out of the ready table and giving it a state that is neither ready nor running, as
  \<open>rt_thread_suspend\<close>, \<open>rt_thread_detach\<close> and \<open>rt_thread_delete\<close> do.
\<close>

lemma sched_inv_stop_thread:
  assumes "sched_inv s" "prio_ok (threads s t)"
    and f: "current_priority (f (threads s t)) = current_priority (threads s t)"
      "number_mask (f (threads s t)) = number_mask (threads s t)"
      "bind_cpu (f (threads s t)) = bind_cpu (threads s t)" "oncpu (f (threads s t)) = oncpu (threads s t)"
      "stat (f (threads s t)) AND RT_THREAD_STAT_MASK \<noteq> RT_THREAD_READY"
      "stat (f (threads s t)) AND RT_THREAD_STAT_MASK \<noteq> RT_THREAD_RUNNING"
  shows "sched_inv (upd_thread t f (rt_schedule_remove_thread t s))"
proof -
  note inv = sched_invD [OF assms(1)]
  let ?s = "upd_thread t f (rt_schedule_remove_thread t s)"
  have "ready_inv {t} ?s"
    by (rule ready_inv_upd_moving) (use ready_inv_remove_thread [OF inv(1) assms(2)] in auto)
  then have "ready_inv {} ?s" by (rule ready_inv_settle) (use f in \<open>simp add: thread_stat_def\<close>)
  moreover have "threads_ok ?s"
  proof -
    have "linked ?s t' \<Longrightarrow> linked s t'" for t' by (auto simp: linked_def)
    then show ?thesis using inv(2) assms(2) f
      by (auto simp: threads_ok_def thread_stat_def prio_ok_def)
  qed
  moreover have "cpus_ok ?s" using inv(3) f by (auto simp: cpus_ok_def)
  ultimately show ?thesis by (simp add: sched_inv_def)
qed

subsection \<open>Interrupts and critical sections\<close>

lemma rt_scheduler_do_irq_switch_best:
  assumes "sched_inv s" "c < RT_CPUS_NR" "current_thread (cpus s c) = Some cur" "irq_nest (cpus s c) = 0"
    "irq_switch_flag (cpus s c) \<noteq> 0"
    "scheduler_lock_nest (threads s cur) = 0" "cpus_lock_nest (threads s cur) = 0" "stacks_ok s"
    "thread_stat s cur = RT_THREAD_RUNNING"
  shows "\<exists>s'. rt_scheduler_do_irq_switch c s = Inr s' \<and> sched_inv s' \<and> best_on c s'"
proof -
  let ?s = "rt_cpus_lock c s" and ?t = "upd_cpu c (\<lambda>p. p\<lparr>irq_switch_flag := 0\<rparr>) (rt_cpus_lock c s)"
  have inv: "sched_inv ?s" "sched_inv ?t" using assms(1) by auto
  have cur: "current_thread (cpus ?s c) = Some cur" "current_thread (cpus ?t c) = Some cur"
    using assms(3) by simp_all
  have lock: "scheduler_lock_nest (threads ?s cur) = 1" using assms(3,6,7) by (simp add: rt_cpus_lock_def)
  let ?f = "\<lambda>th. th\<lparr>cpus_lock_nest := cpus_lock_nest th - 1, scheduler_lock_nest := scheduler_lock_nest th - 1\<rparr>"
  have f: "\<forall>th. same_sched th (?f th)" by (simp add: same_sched_def)
  show ?thesis
  proof (cases "ready_priority_group ?t \<noteq> 0 \<or> priority_group (cpus ?t c) \<noteq> 0")
    case True
    have st: "scheduler_stack_check (threads ?t t)" for t using assms(8) by (simp add: stacks_ok_def)
    from scheduler_pick_switch [OF inv(2) assms(2) cur(2) True] st f show ?thesis
      using True cur assms(4,5) lock
      by (auto simp: rt_scheduler_do_irq_switch_def Let_def dest!: spec [where x = ?f]
          intro: best_on_unlock simp del: and_then_Inr_iff)
  next
    case False
    have "thread_stat ?t cur = RT_THREAD_RUNNING" using assms(9) thread_stat_lock(1) [of c s cur] unfolding thread_stat_def by simp
    then have "best_on c ?t" using False inv cur assms(2) by (intro stay_best [of _ _ cur]) auto
    moreover have "rt_scheduler_do_irq_switch c s = Inr (rt_cpus_unlock c ?t)"
      using False cur assms(4,5) lock by (auto simp: rt_scheduler_do_irq_switch_def Let_def)
    ultimately show ?thesis using inv best_on_unlock by auto
  qed
qed

lemma rt_schedule_in_irq:
  assumes "irq_nest (cpus s c) \<noteq> 0"
  shows "rt_schedule c s = Inr (upd_cpu c (\<lambda>p. p\<lparr>irq_switch_flag := 1\<rparr>) s)"
proof (cases "current_thread (cpus s c)")
  case None
  then show ?thesis using assms by (simp add: rt_schedule_def rt_cpus_lock_def rt_cpus_unlock_def)
next
  case (Some t)
  have "(cpus_lock_nest (threads s t) + 1 - 1 = (0 :: u16)) = (cpus_lock_nest (threads s t) = 0)" by simp
  then have "rt_cpus_unlock c (upd_cpu c g (rt_cpus_lock c s)) = upd_cpu c g s"
    if "current_thread (g (cpus s c)) = Some t" for g
    using Some that by (auto simp: rt_cpus_lock_def rt_cpus_unlock_def upd_defs intro!: kernel.equality)
  then show ?thesis using assms Some by (simp add: rt_schedule_def Let_def)
qed

lemma unlock_lock: "rt_cpus_unlock c (rt_cpus_lock c s) = s"
  by (auto simp: rt_cpus_lock_def rt_cpus_unlock_def upd_defs intro!: kernel.equality split: option.split)

lemma rt_schedule_locked:
  assumes "irq_nest (cpus s c) = 0" "current_thread (cpus s c) = Some cur" "cpus_lock_nest (threads s cur) \<noteq> 0"
    "scheduler_lock_nest (threads s cur) \<noteq> 1"
  shows "rt_schedule c s = Inr s"
  using assms by (auto simp: rt_schedule_def Let_def unlock_lock) (simp_all add: rt_cpus_lock_def)

lemma exit_enter_critical:
  assumes "current_thread (cpus s c) = Some cur" "scheduler_lock_nest (threads s cur) = 0"
    "cpus_lock_nest (threads s cur) = 0"
  shows "rt_exit_critical c (rt_enter_critical c s) = rt_schedule c s"
proof -
  have "upd_thread cur (\<lambda>th. th\<lparr>scheduler_lock_nest := scheduler_lock_nest th - 1,
        critical_lock_nest := critical_lock_nest th - 1\<rparr>) (rt_enter_critical c s) = rt_cpus_lock c s"
    using assms by (auto simp: rt_enter_critical_def rt_cpus_lock_def upd_defs intro!: kernel.equality)
  then show ?thesis
    using assms by (simp add: rt_exit_critical_def unlock_lock Let_def rt_enter_critical_def del: upd_thread_sel(12))
qed


subsection \<open>What scheduling leaves alone\<close>

text \<open>
  A scheduling decision only moves threads between ready and running: all other fields of the
  threads, all waiting lists, timers and IPC objects stay as they are.
\<close>

definition awake :: "u8 \<Rightarrow> bool" where
  "awake x \<longleftrightarrow> x = RT_THREAD_READY \<or> x = RT_THREAD_RUNNING"

definition same_user :: "rt_thread \<Rightarrow> rt_thread \<Rightarrow> bool" where
  "same_user th th' \<longleftrightarrow> th' = th\<lparr>stat := stat th', oncpu := oncpu th',
     scheduler_lock_nest := scheduler_lock_nest th', cpus_lock_nest := cpus_lock_nest th'\<rparr>"

definition only_sched :: "kernel \<Rightarrow> kernel \<Rightarrow> bool" where
  "only_sched s s' \<longleftrightarrow>
     (\<forall>t. same_user (threads s t) (threads s' t)
        \<and> (thread_stat s' t = thread_stat s t \<or> awake (thread_stat s t) \<and> awake (thread_stat s' t)))
     \<and> (\<forall>q. \<not> is_ready_q q \<longrightarrow> queues s' q = queues s q)
     \<and> (\<forall>c. tick (cpus s' c) = tick (cpus s c) \<and> irq_nest (cpus s' c) = irq_nest (cpus s c))
     \<and> timers s' = timers s \<and> timer_q s' = timer_q s \<and> timer_thread s' = timer_thread s
     \<and> soft_timer_idle s' = soft_timer_idle s
     \<and> sems s' = sems s \<and> mutexes s' = mutexes s \<and> events s' = events s"

lemma same_user_refl [simp]: "same_user th th"
  by (simp add: same_user_def)

lemma same_user_sel:
  assumes "same_user th th'"
  shows "error th' = error th" "bind_cpu th' = bind_cpu th" "critical_lock_nest th' = critical_lock_nest th"
    "current_priority th' = current_priority th" "init_priority th' = init_priority th"
    "number_mask th' = number_mask th" "taken_object_list th' = taken_object_list th"
    "pending_object th' = pending_object th" "event_set th' = event_set th" "event_info th' = event_info th"
    "init_tick th' = init_tick th" "remaining_tick th' = remaining_tick th" "sp th' = sp th"
    "stack_addr th' = stack_addr th" "stack_size th' = stack_size th" "stack_magic th' = stack_magic th"
  by (subst assms [unfolded same_user_def], simp)+

lemma same_user_trans:
  assumes "same_user a b" "same_user b c"
  shows "same_user a c"
  using same_user_sel [OF assms(1)] same_user_sel [OF assms(2)]
  by (auto simp: same_user_def intro!: rt_thread.equality)

lemma only_sched_refl [simp]: "only_sched s s"
  by (simp add: only_sched_def)

lemma only_sched_trans:
  assumes "only_sched s s'" "only_sched s' s''"
  shows "only_sched s s''"
proof -
  have "same_user (threads s t) (threads s'' t)" for t
    using assms same_user_trans unfolding only_sched_def by blast
  moreover have "thread_stat s'' t = thread_stat s t \<or> awake (thread_stat s t) \<and> awake (thread_stat s'' t)" for t
    using assms unfolding only_sched_def by metis
  ultimately show ?thesis using assms unfolding only_sched_def by simp
qed

lemma only_schedD:
  assumes "only_sched s s'"
  shows "same_user (threads s t) (threads s' t)"
    "thread_stat s' t = thread_stat s t \<or> awake (thread_stat s t) \<and> awake (thread_stat s' t)"
    "\<not> is_ready_q q \<Longrightarrow> queues s' q = queues s q"
    "timers s' = timers s" "timer_q s' = timer_q s" "sems s' = sems s" "mutexes s' = mutexes s" "events s' = events s"
    "tick (cpus s' c) = tick (cpus s c)" "irq_nest (cpus s' c) = irq_nest (cpus s c)"
  using assms by (simp_all add: only_sched_def)

lemma only_sched_suspended:
  assumes "only_sched s s'"
  shows "thread_stat s' t = RT_THREAD_SUSPEND \<longleftrightarrow> thread_stat s t = RT_THREAD_SUSPEND"
    "awake (thread_stat s' t) \<longleftrightarrow> awake (thread_stat s t)"
  using only_schedD(2) [OF assms, of t] by (auto simp: awake_def)

lemma lock_sel2 [simp]:
  "timers (rt_cpus_lock c s) = timers s" "timer_q (rt_cpus_lock c s) = timer_q s"
  "timer_thread (rt_cpus_lock c s) = timer_thread s" "soft_timer_idle (rt_cpus_lock c s) = soft_timer_idle s"
  "sems (rt_cpus_lock c s) = sems s" "mutexes (rt_cpus_lock c s) = mutexes s" "events (rt_cpus_lock c s) = events s"
  "timers (rt_cpus_unlock c s) = timers s" "timer_q (rt_cpus_unlock c s) = timer_q s"
  "timer_thread (rt_cpus_unlock c s) = timer_thread s" "soft_timer_idle (rt_cpus_unlock c s) = soft_timer_idle s"
  "sems (rt_cpus_unlock c s) = sems s" "mutexes (rt_cpus_unlock c s) = mutexes s" "events (rt_cpus_unlock c s) = events s"
  by (auto simp: rt_cpus_lock_def rt_cpus_unlock_def split: option.split)

lemma only_sched_lock [simp]: "only_sched s (rt_cpus_lock c s)" "only_sched s (rt_cpus_unlock c s)"
proof -
  have "same_user (threads s t) (threads (rt_cpus_lock c s) t)" "same_user (threads s t) (threads (rt_cpus_unlock c s) t)" for t
    by (auto simp: rt_cpus_lock_def rt_cpus_unlock_def same_user_def split: option.split)
  then show "only_sched s (rt_cpus_lock c s)" "only_sched s (rt_cpus_unlock c s)"
    by (simp_all add: only_sched_def)
qed

lemma insert_thread_frame [simp]:
  "timers (rt_schedule_insert_thread c t s) = timers s" "timer_q (rt_schedule_insert_thread c t s) = timer_q s"
  "timer_thread (rt_schedule_insert_thread c t s) = timer_thread s"
  "soft_timer_idle (rt_schedule_insert_thread c t s) = soft_timer_idle s"
  "sems (rt_schedule_insert_thread c t s) = sems s" "mutexes (rt_schedule_insert_thread c t s) = mutexes s"
  "events (rt_schedule_insert_thread c t s) = events s"
  "tick (cpus (rt_schedule_insert_thread c t s) c') = tick (cpus s c')"
  "irq_nest (cpus (rt_schedule_insert_thread c t s) c') = irq_nest (cpus s c')"
  "\<not> is_ready_q q \<Longrightarrow> queues (rt_schedule_insert_thread c t s) q = queues s q"
  by (auto simp: rt_schedule_insert_thread_def Let_def list_defs rt_hw_ipi_send_def)

lemma remove_thread_frame [simp]:
  "timers (rt_schedule_remove_thread t s) = timers s" "timer_q (rt_schedule_remove_thread t s) = timer_q s"
  "timer_thread (rt_schedule_remove_thread t s) = timer_thread s"
  "soft_timer_idle (rt_schedule_remove_thread t s) = soft_timer_idle s"
  "sems (rt_schedule_remove_thread t s) = sems s" "mutexes (rt_schedule_remove_thread t s) = mutexes s"
  "events (rt_schedule_remove_thread t s) = events s"
  "tick (cpus (rt_schedule_remove_thread t s) c') = tick (cpus s c')"
  by (auto simp: rt_schedule_remove_thread_def Let_def rt_list_remove_def)

lemma detached_frame:
  "timers (detached c cur s) = timers s" "timer_q (detached c cur s) = timer_q s"
  "timer_thread (detached c cur s) = timer_thread s" "soft_timer_idle (detached c cur s) = soft_timer_idle s"
  "sems (detached c cur s) = sems s" "mutexes (detached c cur s) = mutexes s" "events (detached c cur s) = events s"
  "tick (cpus (detached c cur s) c') = tick (cpus s c')" "irq_nest (cpus (detached c cur s) c') = irq_nest (cpus s c')"
  "\<not> is_ready_q q \<Longrightarrow> queues (detached c cur s) q = queues s q"
  by (auto simp: detached_def Let_def)

lemma only_sched_detached: "only_sched s (detached c cur s)"
proof -
  have "same_user (threads s t) (threads (detached c cur s) t)" for t
    by (auto simp: detached_def Let_def insert_thread_threads same_user_def set_stat_def)
  moreover have "thread_stat (detached c cur s) t = thread_stat s t
      \<or> awake (thread_stat s t) \<and> awake (thread_stat (detached c cur s) t)" for t
    using detached_sel(6) [of c cur s] detached_sel(1) [of t cur c s]
    by (cases "t = cur") (auto simp: awake_def thread_stat_def)
  ultimately show ?thesis by (simp add: only_sched_def detached_frame)
qed

lemma only_sched_switched_in:
  assumes "queues_wf s" "to \<in> set (queues s q)" "is_ready_q q" "thread_stat s to = RT_THREAD_READY"
  shows "only_sched s (switched_in c to s)"
proof -
  have "removeAll to (queues s q') = queues s q'" if "\<not> is_ready_q q'" for q'
    using assms(1-3) that by (intro removeAll_id) (auto simp: queues_wf_def)
  moreover have "same_user (threads s t) (threads (switched_in c to s) t)" for t
    by (auto simp: switched_in_def same_user_def set_stat_def)
  ultimately show ?thesis using assms(4)
    by (auto simp: only_sched_def switched_in_def awake_def thread_stat_def)
qed

lemma only_sched_context_switch: "only_sched s (rt_hw_context_switch c to s)"
proof -
  have "only_sched s (rt_cpus_lock_status_restore c to s)"
    by (auto simp: only_sched_def rt_cpus_lock_status_restore_def thread_stat_def)
  then show ?thesis
    using only_sched_trans only_sched_lock(2) by (auto simp: rt_hw_context_switch_def Let_def)
qed

lemma only_sched_upd_cpu:
  assumes "\<And>p. tick (f p) = tick p \<and> irq_nest (f p) = irq_nest p"
  shows "only_sched s (upd_cpu c f s)"
  using assms by (auto simp: only_sched_def thread_stat_def)

lemma only_sched_switch:
  assumes "sched_inv s" "c < RT_CPUS_NR" "current_thread (cpus s c) = Some cur"
    "ready_priority_group s \<noteq> 0 \<or> priority_group (cpus s c) \<noteq> 0"
    "scheduler_pick c cur s = Inr (s1, to, prio)"
  shows "to = cur \<Longrightarrow> only_sched s s1"
    "to \<noteq> cur \<Longrightarrow> scheduler_switch_in c to prio s1 = Inr s2 \<Longrightarrow> only_sched s s2"
proof -
  note inv = sched_invD [OF assms(1)]
  obtain best where b:
    "scheduler_get_highest_priority_thread c s = Inr (ucast (current_priority (threads s best)), best)"
    "thread_stat s best = RT_THREAD_READY" "best \<in> set (queues s (ready_q (threads s best)))"
    using highest_priority_thread [OF inv(1) assms(4,2)] by blast
  have on: "oncpu (threads s cur) = c" using inv(3) assms(2,3) by (simp add: cpus_ok_def)
  have ne: "best \<noteq> cur" using ready_inv_in_ready(4) [OF inv(1) b(3)] on assms(2) by auto
  note pick = scheduler_pick_eq [OF b(1), of cur]
  let ?d = "detached c cur s"
  show "only_sched s s1" if "to = cur"
  proof -
    have "s1 = upd_thread cur (\<lambda>th. (no_yield th)\<lparr>oncpu := c\<rparr>) s"
      using pick assms(5) that ne by (auto split: if_splits)
    then show ?thesis by (auto simp: only_sched_def same_user_def thread_stat_def)
  qed
  show "only_sched s s2" if "to \<noteq> cur" "scheduler_switch_in c to prio s1 = Inr s2"
  proof -
    have s1: "to = best" "s1 = upd_thread best (\<lambda>th. th\<lparr>oncpu := c\<rparr>) ?d"
      using pick assms(5) that ne by (auto split: if_splits)
    have d: "ready_inv {} ?d" by (rule ready_inv_detached) (use assms(1,2) on in auto)
    have in_d: "best \<in> set (queues ?d (ready_q (threads s best)))" using b(3) detached_queues(1) by fast
    have "only_sched ?d (switched_in c best ?d)"
      by (rule only_sched_switched_in [OF _ in_d])
        (use d b(2) ne in \<open>auto simp: ready_inv_def detached_sel thread_stat_def\<close>)
    then have "only_sched s (switched_in c best ?d)" using only_sched_detached only_sched_trans by blast
    moreover have "s2 = upd_cpu c (\<lambda>p. p\<lparr>cpu_priority := ucast prio\<rparr>) (switched_in c best ?d)"
      using that(2) s1 by (auto simp: scheduler_switch_in_eq split: if_splits)
    ultimately show ?thesis
      using only_sched_trans only_sched_upd_cpu [of "\<lambda>p. p\<lparr>cpu_priority := ucast prio\<rparr>"] by simp
  qed
qed

lemma only_sched_rt_schedule:
  assumes "sched_inv s" "c < RT_CPUS_NR" "rt_schedule c s = Inr s'"
  shows "only_sched s s'"
proof -
  let ?s = "rt_cpus_lock c s"
  have inv: "sched_inv ?s" using assms(1) ..
  show ?thesis
  proof (cases "irq_nest (cpus s c) = 0")
    case False
    then have "s' = upd_cpu c (\<lambda>p. p\<lparr>irq_switch_flag := 1\<rparr>) s"
      using assms(3) rt_schedule_in_irq by simp
    then show ?thesis using only_sched_upd_cpu [of "\<lambda>p. p\<lparr>irq_switch_flag := 1\<rparr>"] by simp
  next
    case True
    then obtain cur where cur: "current_thread (cpus ?s c) = Some cur"
      using assms(3) by (auto simp: rt_schedule_def Let_def split: option.splits)
    show ?thesis
    proof (cases "scheduler_lock_nest (threads ?s cur) = 1
        \<and> (ready_priority_group ?s \<noteq> 0 \<or> priority_group (cpus ?s c) \<noteq> 0)")
      case no: False
      then have "s' = rt_cpus_unlock c ?s"
        using assms(3) True cur by (auto simp: rt_schedule_def Let_def split: if_splits)
      then show ?thesis by (simp add: unlock_lock)
    next
      case yes: True
      then obtain s1 to prio where p: "scheduler_pick c cur ?s = Inr (s1, to, prio)"
        using assms(3) True cur by (auto simp: rt_schedule_def Let_def)
      note sw = only_sched_switch [OF inv assms(2) cur conjunct2 [OF yes] p]
      show ?thesis
      proof (cases "to = cur")
        case t: True
        then have "s' = rt_cpus_unlock c s1" using assms(3) True cur yes p by (simp add: rt_schedule_def Let_def)
        then show ?thesis using sw(1) [OF t] only_sched_trans only_sched_lock by metis
      next
        case t: False
        then obtain s2 where s2: "scheduler_switch_in c to prio s1 = Inr s2" "s' = rt_hw_context_switch c to s2"
          using assms(3) True cur yes p by (auto simp: rt_schedule_def Let_def)
        then show ?thesis
          using sw(2) [OF t s2(1)] only_sched_trans only_sched_lock(1) only_sched_context_switch by metis
      qed
    qed
  qed
qed


subsection \<open>Boot\<close>

text \<open>Cleared memory: no thread is started, no list is linked. \<open>rt_system_scheduler_init\<close> makes the invariant true.\<close>

definition blank_thread :: rt_thread where
  "blank_thread = \<lparr>error = 0, stat = RT_THREAD_INIT, bind_cpu = RT_CPUS_NR, oncpu = RT_CPU_DETACHED,
     scheduler_lock_nest = 0, cpus_lock_nest = 0, critical_lock_nest = 0, current_priority = 0, init_priority = 0,
     number_mask = 0, taken_object_list = [], pending_object = None, event_set = 0, event_info = 0,
     init_tick = 0, remaining_tick = 0, sp = 0x2100, stack_addr = 0x2000, stack_size = 0x1000, stack_magic = 0x23\<rparr>"

definition blank_cpu :: rt_cpu where
  "blank_cpu = \<lparr>current_thread = None, irq_nest = 0, irq_switch_flag = 0, cpu_priority = 0, priority_group = 0, tick = 0\<rparr>"

definition blank_kernel :: kernel where
  "blank_kernel = \<lparr>threads = (\<lambda>t. blank_thread), cpus = (\<lambda>c. blank_cpu), queues = (\<lambda>q. []),
     ready_priority_group = 0, ipi_mask = 0,
     timers = (\<lambda>t. \<lparr>timer_flag = 0, timer_init_tick = 0, timeout_tick = 0\<rparr>), timer_q = (\<lambda>q. []),
     timer_thread = 0, soft_timer_idle = False,
     sems = (\<lambda>i. \<lparr>sem_flag = 0, sem_value = 0\<rparr>),
     mutexes = (\<lambda>i. \<lparr>ceiling_priority = 0xff, mutex_priority = 0xff, hold = 0, owner = None\<rparr>),
     events = (\<lambda>i. \<lparr>event_flag = 0, set_bits = 0\<rparr>), rt_errno = 0\<rparr>"

lemma scheduler_init_inv:
  assumes "\<And>t. thread_stat s t = RT_THREAD_INIT \<and> oncpu (threads s t) = RT_CPU_DETACHED"
    "\<And>q. \<not> is_ready_q q \<Longrightarrow> queues s q = []" "\<And>p. 32 \<le> p \<Longrightarrow> queues s (Ready p) = []"
    "\<And>c p. 32 \<le> p \<or> RT_CPUS_NR \<le> c \<Longrightarrow> queues s (CpuReady c p) = [] \<and> priority_group (cpus s c) = 0"
  shows "sched_inv (rt_system_scheduler_init s)"
proof -
  let ?s = "rt_system_scheduler_init s"
  have q: "queues ?s q = []" for q
    using assms(2-4) by (cases q) (auto simp: rt_system_scheduler_init_def not_less)
  have g: "priority_group (cpus ?s c) = 0" for c
    using assms(4) [of 0 c] by (auto simp: rt_system_scheduler_init_def not_less)
  have thr: "threads ?s = threads s" by (simp add: rt_system_scheduler_init_def)
  have "bitmaps_ok ?s"
    using q g by (simp add: bitmaps_ok_def bitmap_ok_def) (simp add: rt_system_scheduler_init_def)
  then have "ready_inv {} ?s"
    using assms(1) q by (auto simp: ready_inv_defs queues_wf_def thr)
  moreover have "threads_ok ?s"
    using assms(1) by (auto simp: threads_ok_def thread_stat_def thr started_def)
  moreover have "cpus_ok ?s"
    using assms(1) by (auto simp: cpus_ok_def rt_system_scheduler_init_def)
  ultimately show ?thesis by (simp add: sched_inv_def)
qed

text \<open>
  A small system for examples: thread 4 of priority 10 runs on core 0, thread 2 of priority 5 was
  just made ready.
\<close>

definition demo_thread :: "u8 \<Rightarrow> rt_thread" where
  "demo_thread p = blank_thread\<lparr>stat := RT_THREAD_SUSPEND, current_priority := p, init_priority := p,
     number_mask := prio_mask p\<rparr>"

definition demo_running :: kernel where
  "demo_running = blank_kernel\<lparr>
     threads := (\<lambda>t. if t = 4 then (demo_thread 10)\<lparr>stat := RT_THREAD_RUNNING, oncpu := 0\<rparr>
                      else if t = 2 then demo_thread 5 else if t = 3 then demo_thread 7 else blank_thread),
     cpus := (\<lambda>c. if c = 0 then blank_cpu\<lparr>current_thread := Some 4\<rparr> else blank_cpu)\<rparr>"

lemma demo_running_inv: "sched_inv demo_running"
proof -
  have "ready_inv {} demo_running"
    by (auto simp: ready_inv_defs queues_wf_def bitmaps_ok_def bitmap_ok_def demo_running_def
        blank_kernel_def blank_thread_def blank_cpu_def demo_thread_def stat_defs)
  moreover have "threads_ok demo_running"
    by (auto simp: threads_ok_def thread_stat_def started_def linked_def prio_ok_def demo_running_def
        blank_kernel_def blank_thread_def blank_cpu_def demo_thread_def stat_defs)
  moreover have "cpus_ok demo_running"
    by (auto simp: cpus_ok_def demo_running_def
        blank_kernel_def blank_thread_def blank_cpu_def demo_thread_def)
  ultimately show ?thesis by (simp add: sched_inv_def)
qed

definition demo_ready :: kernel where
  "demo_ready = rt_schedule_insert_thread 0 2 demo_running"

lemma demo_running_sel:
  "\<not> linked demo_running t" "prio_ok (threads demo_running 2)" "prio_ok (threads demo_running 3)"
  "oncpu (threads demo_running 2) = RT_CPU_DETACHED"
  "stacks_ok demo_running"
  by (auto simp: linked_def stacks_ok_def scheduler_stack_check_def prio_ok_def demo_running_def
      blank_kernel_def blank_thread_def demo_thread_def)

lemma demo_ready_inv: "sched_inv demo_ready"
  unfolding demo_ready_def by (intro sched_inv_insert_thread demo_running_inv demo_running_sel)

lemma demo_ready_threads: "threads demo_ready =
   (threads demo_running)(2 := set_stat RT_THREAD_READY (demo_thread 5))"
  by (auto simp: demo_ready_def insert_thread_threads demo_running_sel)
    (simp add: demo_running_def)

lemma demo_ready_sel:
  "current_thread (cpus demo_ready 0) = Some 4" "irq_nest (cpus demo_ready 0) = 0"
  "scheduler_lock_nest (threads demo_ready 4) = 0" "cpus_lock_nest (threads demo_ready 4) = 0"
  "thread_stat demo_ready 4 = RT_THREAD_RUNNING" "thread_stat demo_ready 2 = RT_THREAD_READY"
  "current_priority (threads demo_ready 4) = 10" "stacks_ok demo_ready"
proof -
  show "irq_nest (cpus demo_ready 0) = 0"
    by (simp add: demo_ready_def demo_running_def rt_schedule_insert_thread_def list_defs rt_hw_ipi_send_def
        demo_thread_def blank_thread_def blank_kernel_def blank_cpu_def Let_def set_stat_def upd_defs)
  show "stacks_ok demo_ready" using demo_running_sel(5)
    by (auto simp: stacks_ok_def demo_ready_threads scheduler_stack_check_def set_stat_def demo_thread_def
        blank_thread_def demo_running_def)
qed (simp_all add: demo_ready_threads thread_stat_def, simp_all add: demo_ready_def demo_running_def demo_thread_def
    blank_thread_def blank_kernel_def stat_defs)

subsection \<open>Properties\<close>

text \<open>
  C1. Outside interrupts and with the scheduler unlocked, \<open>rt_schedule\<close> returns, keeps the invariant, and
  the core then runs a thread that no ready thread it may run exceeds in priority. (The calling thread
  is still running, or some thread the core may run is ready; the idle threads see to the latter.)
\<close>

theorem schedule_runs_highest_priority:
  assumes "sched_inv s" and "c < RT_CPUS_NR" and "current_thread (cpus s c) = Some cur"
    and "irq_nest (cpus s c) = 0" and "scheduler_lock_nest (threads s cur) = 0"
    and "cpus_lock_nest (threads s cur) = 0" and "stacks_ok s"
    and "thread_stat s cur = RT_THREAD_RUNNING
      \<or> (\<exists>t. thread_stat s t = RT_THREAD_READY \<and> may_run c (threads s t))"
  shows "\<exists>s' to. rt_schedule c s = Inr s' \<and> sched_inv s' \<and> current_thread (cpus s' c) = Some to
    \<and> thread_stat s' to = RT_THREAD_RUNNING
    \<and> (\<forall>t. thread_stat s' t = RT_THREAD_READY \<and> may_run c (threads s' t) \<longrightarrow>
          current_priority (threads s' to) \<le> current_priority (threads s' t))"
  using rt_schedule_best [OF assms] by (auto simp: best_on_def)

theorem schedule_runs_highest_priority_witness:
  "\<exists>s' to. rt_schedule 0 demo_ready = Inr s' \<and> sched_inv s' \<and> current_thread (cpus s' 0) = Some to
    \<and> thread_stat s' to = RT_THREAD_RUNNING
    \<and> (\<forall>t. thread_stat s' t = RT_THREAD_READY \<and> may_run 0 (threads s' t) \<longrightarrow>
          current_priority (threads s' to) \<le> current_priority (threads s' t))"
  by (rule schedule_runs_highest_priority [where cur = 4])
    (simp_all add: demo_ready_inv demo_ready_sel)

text \<open>A core that runs a thread, with intact stacks around, gets through both switches whatever locks it holds.\<close>

lemma scheduler_pick_returns:
  assumes "sched_inv s" "c < RT_CPUS_NR" "current_thread (cpus s c) = Some cur" "\<And>t. scheduler_stack_check (threads s t)"
    "ready_priority_group s \<noteq> 0 \<or> priority_group (cpus s c) \<noteq> 0"
  obtains (stay) s1 prio where "scheduler_pick c cur s = Inr (s1, cur, prio)"
    | (move) s1 s2 to prio where "scheduler_pick c cur s = Inr (s1, to, prio)" "to \<noteq> cur" "scheduler_switch_in c to prio s1 = Inr s2"
proof -
  note p = scheduler_pick_switch [OF assms(1-3,5)]
  show thesis using p
  proof
    assume "\<exists>s1 prio. scheduler_pick c cur s = Inr (s1, cur, prio) \<and> sched_inv s1 \<and> best_on c s1 \<and> current_thread (cpus s1 c) = Some cur"
    then show thesis using stay by blast
  qed (use assms(4) move in \<open>elim exE conjE, simp\<close>)
qed

lemma rt_schedule_total:
  assumes "sched_inv s" "c < RT_CPUS_NR" "current_thread (cpus s c) = Some cur" "stacks_ok s"
  shows "\<exists>s'. rt_schedule c s = Inr s'"
proof -
  let ?s = "rt_cpus_lock c s"
  have inv: "sched_inv ?s" using assms(1) ..
  have cur: "current_thread (cpus ?s c) = Some cur" using assms(3) by simp
  have st: "scheduler_stack_check (threads ?s t)" for t using assms(4) by (simp add: stacks_ok_def)
  show ?thesis
  proof (cases "ready_priority_group ?s \<noteq> 0 \<or> priority_group (cpus ?s c) \<noteq> 0")
    case True
    from scheduler_pick_returns [OF inv assms(2) cur st True] show ?thesis
      by cases (use cur in \<open>simp_all add: rt_schedule_def Let_def\<close>)
  next
    case False
    then show ?thesis using cur by (simp add: rt_schedule_def Let_def)
  qed
qed

lemma rt_scheduler_do_irq_switch_total:
  assumes "sched_inv s" "c < RT_CPUS_NR" "current_thread (cpus s c) = Some cur" "stacks_ok s"
  shows "\<exists>s'. rt_scheduler_do_irq_switch c s = Inr s'"
proof -
  let ?s = "rt_cpus_lock c s" and ?t = "upd_cpu c (\<lambda>p. p\<lparr>irq_switch_flag := 0\<rparr>) (rt_cpus_lock c s)"
  have inv: "sched_inv ?t" using assms(1) by auto
  have cur: "current_thread (cpus ?s c) = Some cur" "current_thread (cpus ?t c) = Some cur" using assms(3) by simp_all
  have st: "scheduler_stack_check (threads ?t t)" for t using assms(4) by (simp add: stacks_ok_def)
  show ?thesis
  proof (cases "ready_priority_group ?t \<noteq> 0 \<or> priority_group (cpus ?t c) \<noteq> 0")
    case True
    from scheduler_pick_returns [OF inv assms(2) cur(2) st True] show ?thesis
      by cases (use cur in \<open>simp_all add: rt_scheduler_do_irq_switch_def Let_def\<close>)
  next
    case False
    then show ?thesis using cur by (simp add: rt_scheduler_do_irq_switch_def Let_def)
  qed
qed

text \<open>
  C18. On a core that runs a thread, with intact stacks around, \<open>rt_schedule\<close> and
  \<open>rt_scheduler_do_irq_switch\<close> return whatever the locks and the interrupt nesting, and leave ready lists,
  bitmaps, thread states and current threads consistent.
\<close>

theorem switch_keeps_invariant:
  assumes "sched_inv s" and "c < RT_CPUS_NR" and "current_thread (cpus s c) = Some cur" and "stacks_ok s"
  shows "(\<exists>s'. rt_schedule c s = Inr s' \<and> sched_inv s') \<and> (\<exists>s'. rt_scheduler_do_irq_switch c s = Inr s' \<and> sched_inv s')"
  using rt_schedule_total [OF assms] rt_scheduler_do_irq_switch_total [OF assms]
    rt_schedule_sched_inv [OF assms(1,2)] rt_scheduler_do_irq_switch_sched_inv [OF assms(1,2)] by blast

theorem switch_keeps_invariant_witness:
  "(\<exists>s'. rt_schedule 0 demo_ready = Inr s' \<and> sched_inv s') \<and> (\<exists>s'. rt_scheduler_do_irq_switch 0 demo_ready = Inr s' \<and> sched_inv s')"
  by (rule switch_keeps_invariant [OF demo_ready_inv]) (simp_all add: demo_ready_sel)

text \<open>
  \<open>rt_schedule\<close> in an interrupt handler does not switch: it only raises the switch flag. When the
  outermost handler has left, \<open>rt_scheduler_do_irq_switch\<close> makes up for it: the core then runs a thread
  of the highest ready priority.
\<close>

theorem irq_schedule_is_deferred:
  assumes "sched_inv s" and "c < RT_CPUS_NR" and "current_thread (cpus s c) = Some cur"
    and "irq_nest (cpus s c) = 1" and "scheduler_lock_nest (threads s cur) = 0"
    and "cpus_lock_nest (threads s cur) = 0" and "stacks_ok s" and "thread_stat s cur = RT_THREAD_RUNNING"
  shows "\<exists>s1 s2. rt_schedule c s = Inr s1 \<and> cpus s1 = (cpus s)(c := (cpus s c)\<lparr>irq_switch_flag := 1\<rparr>)
    \<and> threads s1 = threads s \<and> queues s1 = queues s
    \<and> rt_scheduler_do_irq_switch c (rt_interrupt_leave c s1) = Inr s2 \<and> sched_inv s2 \<and> best_on c s2"
proof -
  let ?s1 = "upd_cpu c (\<lambda>p. p\<lparr>irq_switch_flag := 1\<rparr>) s"
  have r: "rt_schedule c s = Inr ?s1" using assms(4) by (intro rt_schedule_in_irq) simp
  have "sched_inv (rt_interrupt_leave c ?s1)"
    by (rule sched_inv_frame [OF assms(1)]) (simp_all add: rt_interrupt_leave_def)
  then have "\<exists>s2. rt_scheduler_do_irq_switch c (rt_interrupt_leave c ?s1) = Inr s2 \<and> sched_inv s2 \<and> best_on c s2"
    by (rule rt_scheduler_do_irq_switch_best [where cur = cur])
      (use assms in \<open>simp_all add: rt_interrupt_leave_def thread_stat_def stacks_ok_def\<close>)
  with r show ?thesis by auto
qed

theorem irq_schedule_is_deferred_witness:
  "\<exists>s1 s2. rt_schedule 0 (rt_interrupt_enter 0 demo_ready) = Inr s1
    \<and> rt_scheduler_do_irq_switch 0 (rt_interrupt_leave 0 s1) = Inr s2 \<and> best_on 0 s2"
proof -
  let ?s = "rt_interrupt_enter 0 demo_ready"
  have inv: "sched_inv ?s"
    by (rule sched_inv_frame [OF demo_ready_inv]) (simp_all add: rt_interrupt_enter_def)
  have "thread_stat ?s 4 = RT_THREAD_RUNNING"
    using demo_ready_sel(5) by (simp add: rt_interrupt_enter_def thread_stat_def)
  with inv show ?thesis
    using irq_schedule_is_deferred [of ?s 0 4] demo_ready_sel(1-4,8)
    by (auto simp: rt_interrupt_enter_def stacks_ok_def)
qed

text \<open>
  Inside \<open>rt_enter_critical\<close> ... \<open>rt_exit_critical\<close> a call of \<open>rt_schedule\<close> changes nothing at all, and
  leaving the section is exactly the \<open>rt_schedule\<close> that was put off.
\<close>

theorem critical_section_defers_switch:
  assumes "current_thread (cpus s c) = Some cur" and "irq_nest (cpus s c) = 0"
    and "scheduler_lock_nest (threads s cur) = 0" and "cpus_lock_nest (threads s cur) = 0"
  shows "rt_schedule c (rt_enter_critical c s) = Inr (rt_enter_critical c s)
    \<and> rt_exit_critical c (rt_enter_critical c s) = rt_schedule c s"
  using assms exit_enter_critical [OF assms(1,3,4)]
  by (intro conjI rt_schedule_locked [where cur = cur]) (auto simp: rt_enter_critical_def rt_cpus_lock_def)

theorem critical_section_defers_switch_witness:
  "rt_schedule 0 (rt_enter_critical 0 demo_ready) = Inr (rt_enter_critical 0 demo_ready)
    \<and> rt_exit_critical 0 (rt_enter_critical 0 demo_ready) = rt_schedule 0 demo_ready"
  by (rule critical_section_defers_switch [of _ _ 4]) (simp_all add: demo_ready_sel)

end
