(* ===== verification/Rt_Timer.thy ===== *)
theory Rt_Timer
  imports Rt_Sched_Inv
begin

unbundle bit_operations_syntax

text \<open>
  The timers of \<open>src/timer.c\<close>, first part: what does not depend on threads. \<open>RT_TIMER_SKIP_LIST_LEVEL\<close> is
  1, so the skip list is one list per kind of timer, ordered by time; \<open>timer_q\<close> holds the hard list,
  the soft list and the local lists of the two check functions. Time is a 32-bit counter that wraps
  around: an instant lies in the future when the distance to it is below \<open>RT_TICK_MAX / 2\<close>.
\<close>

definition RT_TICK_MAX :: u32 where "RT_TICK_MAX = 0xffffffff"

definition RT_TIMER_FLAG_ACTIVATED :: u8 where "RT_TIMER_FLAG_ACTIVATED = 1"
definition RT_TIMER_FLAG_PERIODIC :: u8 where "RT_TIMER_FLAG_PERIODIC = 2"
definition RT_TIMER_FLAG_SOFT_TIMER :: u8 where "RT_TIMER_FLAG_SOFT_TIMER = 4"

lemmas timer_flag_defs [rt_simps] = RT_TIMER_FLAG_ACTIVATED_def RT_TIMER_FLAG_PERIODIC_def RT_TIMER_FLAG_SOFT_TIMER_def

definition rt_tick_get :: "kernel \<Rightarrow> u32" where
  "rt_tick_get s = tick (cpus s 0)"

definition rt_tick_set :: "u32 \<Rightarrow> kernel \<Rightarrow> kernel" where
  "rt_tick_set x s = upd_cpu 0 (\<lambda>p. p\<lparr>tick := x\<rparr>) s"

subsection \<open>Timer objects\<close>

definition timer_remove :: "timer_id \<Rightarrow> kernel \<Rightarrow> kernel" where
  "timer_remove tm s = s\<lparr>timer_q := (\<lambda>q. removeAll tm (timer_q s q))\<rparr>"

definition deactivate :: "rt_timer \<Rightarrow> rt_timer" where
  "deactivate r = r\<lparr>timer_flag := timer_flag r AND NOT RT_TIMER_FLAG_ACTIVATED\<rparr>"

text \<open>\<open>_timer_init\<close>; the lists are linked to themselves, which drops whatever link the memory held.\<close>

definition timer_init :: "timer_id \<Rightarrow> u32 \<Rightarrow> u8 \<Rightarrow> kernel \<Rightarrow> kernel" where
  "timer_init tm time flag s =
     upd_timer tm (\<lambda>r. deactivate (r\<lparr>timer_flag := flag, timeout_tick := 0, timer_init_tick := time\<rparr>)) (timer_remove tm s)"

definition rt_timer_init :: "timer_id \<Rightarrow> u32 \<Rightarrow> u8 \<Rightarrow> kernel \<Rightarrow> kernel res" where
  "rt_timer_init tm time flag s = rt_assert (time < RT_TICK_MAX div 2) (Inr (timer_init tm time flag s))"

definition rt_timer_create :: "timer_id option \<Rightarrow> u32 \<Rightarrow> u8 \<Rightarrow> kernel \<Rightarrow> (kernel \<times> timer_id option) res" where
  "rt_timer_create alloc time flag s = rt_assert (time < RT_TICK_MAX div 2)
     (case alloc of None \<Rightarrow> Inr (s, None) | Some tm \<Rightarrow> Inr (timer_init tm time flag s, Some tm))"

definition rt_timer_detach :: "timer_id \<Rightarrow> kernel \<Rightarrow> kernel" where
  "rt_timer_detach tm s = upd_timer tm deactivate (timer_remove tm s)"

definition rt_timer_delete :: "timer_id \<Rightarrow> kernel \<Rightarrow> kernel" where
  "rt_timer_delete tm s = upd_timer tm deactivate (timer_remove tm s)"

definition timer_active :: "kernel \<Rightarrow> timer_id \<Rightarrow> bool" where
  "timer_active s tm \<longleftrightarrow> timer_flag (timers s tm) AND RT_TIMER_FLAG_ACTIVATED \<noteq> 0"

definition rt_timer_stop :: "timer_id \<Rightarrow> kernel \<Rightarrow> kernel \<times> int" where
  "rt_timer_stop tm s =
     (if \<not> timer_active s tm then (s, - RT_ERROR)
      else (upd_timer tm deactivate (timer_remove tm s), RT_EOK))"

datatype timer_cmd = SET_TIME u32 | GET_TIME | SET_ONESHOT | SET_PERIODIC | GET_STATE | GET_REMAIN_TIME | OtherCmd

text \<open>The second component is what the call stores through \<open>arg\<close>.\<close>

definition rt_timer_control :: "timer_id \<Rightarrow> timer_cmd \<Rightarrow> kernel \<Rightarrow> (kernel \<times> u32 option) res" where
  "rt_timer_control tm cmd s = (case cmd of
      GET_TIME \<Rightarrow> Inr (s, Some (timer_init_tick (timers s tm)))
    | SET_TIME x \<Rightarrow> rt_assert (x < RT_TICK_MAX div 2) (Inr (upd_timer tm (\<lambda>r. r\<lparr>timer_init_tick := x\<rparr>) s, None))
    | SET_ONESHOT \<Rightarrow> Inr (upd_timer tm (\<lambda>r. r\<lparr>timer_flag := timer_flag r AND NOT RT_TIMER_FLAG_PERIODIC\<rparr>) s, None)
    | SET_PERIODIC \<Rightarrow> Inr (upd_timer tm (\<lambda>r. r\<lparr>timer_flag := timer_flag r OR RT_TIMER_FLAG_PERIODIC\<rparr>) s, None)
    | GET_STATE \<Rightarrow> Inr (s, Some (if timer_active s tm then 1 else 0))
    | GET_REMAIN_TIME \<Rightarrow> Inr (s, Some (timeout_tick (timers s tm)))
    | OtherCmd \<Rightarrow> Inr (s, None))"

definition timer_list_next_timeout :: "tqid \<Rightarrow> kernel \<Rightarrow> u32 option" where
  "timer_list_next_timeout q s = (case timer_q s q of [] \<Rightarrow> None | tm # _ \<Rightarrow> Some (timeout_tick (timers s tm)))"

definition rt_timer_next_timeout_tick :: "kernel \<Rightarrow> u32" where
  "rt_timer_next_timeout_tick s = (case timer_list_next_timeout HardTimers s of None \<Rightarrow> RT_TICK_MAX | Some x \<Rightarrow> x)"

subsection \<open>Insertion in order of time\<close>

text \<open>
  The inner loop of \<open>rt_timer_start\<close> walks from the head while the next timer is not later than the
  new one; the new timer goes in front of the first later one.
\<close>

fun insert_by_time :: "(timer_id \<Rightarrow> u32) \<Rightarrow> timer_id \<Rightarrow> timer_id list \<Rightarrow> timer_id list" where
  "insert_by_time due tm [] = [tm]"
| "insert_by_time due tm (t # ts) =
     (if due t - due tm \<noteq> 0 \<and> due t - due tm < RT_TICK_MAX div 2 then tm # t # ts
      else t # insert_by_time due tm ts)"

definition timer_list_of :: "rt_timer \<Rightarrow> tqid" where
  "timer_list_of r = (if timer_flag r AND RT_TIMER_FLAG_SOFT_TIMER \<noteq> 0 then SoftTimers else HardTimers)"

text \<open>The critical section of \<open>rt_timer_start\<close> up to the activation of the timer.\<close>

definition timer_enqueue :: "timer_id \<Rightarrow> kernel \<Rightarrow> kernel" where
  "timer_enqueue tm s =
    (let s = timer_remove tm s;
         s = upd_timer tm (\<lambda>r. (deactivate r)\<lparr>timeout_tick := rt_tick_get s + timer_init_tick r\<rparr>) s;
         q = timer_list_of (timers s tm);
         s = s\<lparr>timer_q := (timer_q s)(q := insert_by_time (\<lambda>t. timeout_tick (timers s t)) tm (timer_q s q))\<rparr>
     in upd_timer tm (\<lambda>r. r\<lparr>timer_flag := timer_flag r OR RT_TIMER_FLAG_ACTIVATED\<rparr>) s)"

subsection \<open>What timer operations leave alone\<close>

lemma timer_remove_sel [simp]:
  "threads (timer_remove tm s) = threads s" "cpus (timer_remove tm s) = cpus s"
  "queues (timer_remove tm s) = queues s" "ready_priority_group (timer_remove tm s) = ready_priority_group s"
  "ipi_mask (timer_remove tm s) = ipi_mask s" "timer_thread (timer_remove tm s) = timer_thread s"
  "soft_timer_idle (timer_remove tm s) = soft_timer_idle s" "sems (timer_remove tm s) = sems s"
  "mutexes (timer_remove tm s) = mutexes s" "events (timer_remove tm s) = events s"
  by (simp_all add: timer_remove_def)

lemma timer_init_sel [simp]:
  "threads (timer_init tm time flag s) = threads s" "cpus (timer_init tm time flag s) = cpus s"
  "queues (timer_init tm time flag s) = queues s" "ready_priority_group (timer_init tm time flag s) = ready_priority_group s"
  "ipi_mask (timer_init tm time flag s) = ipi_mask s" "timer_thread (timer_init tm time flag s) = timer_thread s"
  "soft_timer_idle (timer_init tm time flag s) = soft_timer_idle s" "sems (timer_init tm time flag s) = sems s"
  "mutexes (timer_init tm time flag s) = mutexes s" "events (timer_init tm time flag s) = events s"
  by (simp_all add: timer_init_def)

lemma rt_timer_detach_sel [simp]:
  "threads (rt_timer_detach tm s) = threads s" "cpus (rt_timer_detach tm s) = cpus s"
  "queues (rt_timer_detach tm s) = queues s" "ready_priority_group (rt_timer_detach tm s) = ready_priority_group s"
  "ipi_mask (rt_timer_detach tm s) = ipi_mask s" "timer_thread (rt_timer_detach tm s) = timer_thread s"
  "soft_timer_idle (rt_timer_detach tm s) = soft_timer_idle s" "sems (rt_timer_detach tm s) = sems s"
  "mutexes (rt_timer_detach tm s) = mutexes s" "events (rt_timer_detach tm s) = events s"
  by (simp_all add: rt_timer_detach_def)

lemma rt_timer_stop_sel [simp]:
  "threads (fst (rt_timer_stop tm s)) = threads s" "cpus (fst (rt_timer_stop tm s)) = cpus s"
  "queues (fst (rt_timer_stop tm s)) = queues s" "ready_priority_group (fst (rt_timer_stop tm s)) = ready_priority_group s"
  "ipi_mask (fst (rt_timer_stop tm s)) = ipi_mask s" "timer_thread (fst (rt_timer_stop tm s)) = timer_thread s"
  "soft_timer_idle (fst (rt_timer_stop tm s)) = soft_timer_idle s" "sems (fst (rt_timer_stop tm s)) = sems s"
  "mutexes (fst (rt_timer_stop tm s)) = mutexes s" "events (fst (rt_timer_stop tm s)) = events s"
  by (simp_all add: rt_timer_stop_def)

lemma timer_enqueue_sel [simp]:
  "threads (timer_enqueue tm s) = threads s" "cpus (timer_enqueue tm s) = cpus s"
  "queues (timer_enqueue tm s) = queues s" "ready_priority_group (timer_enqueue tm s) = ready_priority_group s"
  "ipi_mask (timer_enqueue tm s) = ipi_mask s" "timer_thread (timer_enqueue tm s) = timer_thread s"
  "soft_timer_idle (timer_enqueue tm s) = soft_timer_idle s" "sems (timer_enqueue tm s) = sems s"
  "mutexes (timer_enqueue tm s) = mutexes s" "events (timer_enqueue tm s) = events s"
  by (simp_all add: timer_enqueue_def Let_def)

lemma timer_ops_sched_inv [simp]:
  "sched_inv (timer_remove tm s) = sched_inv s" "sched_inv (rt_timer_detach tm s) = sched_inv s"
  "sched_inv (fst (rt_timer_stop tm s)) = sched_inv s" "sched_inv (timer_enqueue tm s) = sched_inv s"
  "sched_inv (timer_init tm time flag s) = sched_inv s"
  by (auto intro: sched_inv_frame [of "timer_remove tm s"] sched_inv_frame [of s]
      sched_inv_frame [of "rt_timer_detach tm s"] sched_inv_frame [of "fst (rt_timer_stop tm s)"]
      sched_inv_frame [of "timer_enqueue tm s"] sched_inv_frame [of "timer_init tm time flag s"])

lemma linked_timer [simp]:
  "linked (timer_remove tm s) = linked s" "linked (fst (rt_timer_stop tm s)) = linked s"
  "linked (timer_enqueue tm s) = linked s" "linked (rt_timer_detach tm s) = linked s"
  by (simp_all add: linked_def fun_eq_iff)

lemma thread_stat_timer [simp]:
  "thread_stat (timer_remove tm s) = thread_stat s" "thread_stat (fst (rt_timer_stop tm s)) = thread_stat s"
  "thread_stat (timer_enqueue tm s) = thread_stat s" "thread_stat (rt_timer_detach tm s) = thread_stat s"
  by (simp_all add: thread_stat_def fun_eq_iff)

subsection \<open>Order of the timer lists\<close>

text \<open>
  The time until a timer is due, counted on the wrapping tick. In a well-formed system no pending
  timer is overdue, so the delays of a list are its order.
\<close>

definition delay :: "kernel \<Rightarrow> timer_id \<Rightarrow> nat" where
  "delay s tm = unat (timeout_tick (timers s tm) - rt_tick_get s)"

definition timers_wf :: "kernel \<Rightarrow> bool" where
  "timers_wf s \<longleftrightarrow>
     (\<forall>q. distinct (timer_q s q) \<and> sorted (map (delay s) (timer_q s q)))
     \<and> timer_q s HardFiring = [] \<and> timer_q s SoftFiring = []
     \<and> (\<forall>q. \<forall>tm \<in> set (timer_q s q). q = timer_list_of (timers s tm) \<and> delay s tm < 0x7fffffff)
     \<and> (\<forall>tm. timer_active s tm \<longleftrightarrow> tm \<in> set (timer_q s (timer_list_of (timers s tm))))
     \<and> (\<forall>t. timer_list_of (timers s (ThreadTimer t)) = HardTimers
          \<and> timer_flag (timers s (ThreadTimer t)) AND RT_TIMER_FLAG_PERIODIC = 0)"

lemma RT_TICK_HALF: "RT_TICK_MAX div 2 = 0x7fffffff"
  by (simp add: RT_TICK_MAX_def)

lemma timer_list_of_cases: "timer_list_of r = SoftTimers \<or> timer_list_of r = HardTimers"
  by (simp add: timer_list_of_def)

text \<open>For two instants of the next half period, the test of the source is the order of the delays.\<close>

lemma later_iff:
  assumes "unat (a - now) < 0x7fffffff" "unat (b - now) < (0x7fffffff :: nat)"
  shows "(a - b \<noteq> 0 \<and> a - b < RT_TICK_MAX div 2) \<longleftrightarrow> unat (b - now) < unat (a - (now :: u32))"
proof -
  define x y where "x = unat (a - now)" and "y = unat (b - now)"
  have bd: "x < 0x7fffffff" "y < 0x7fffffff" using assms by (simp_all add: x_def y_def)
  have ab: "a - b = word_of_nat x - word_of_nat y" by (simp add: x_def y_def)
  show ?thesis
  proof (cases "y \<le> x")
    case True
    then have "a - b = word_of_nat (x - y)" using ab by (simp add: of_nat_diff)
    moreover have "unat (word_of_nat (x - y) :: u32) = x - y" using bd by (intro unat_of_nat_small) simp
    ultimately have u: "unat (a - b) = x - y" by simp
    have "a - b = 0 \<longleftrightarrow> x = y" 
    proof -
      have "a - b = 0 \<longleftrightarrow> unat (a - b) = 0" by (simp only: unsigned_eq_0_iff)
      then show ?thesis using u True by linarith
    qed
    then show ?thesis using u True bd x_def y_def
      by (auto simp: RT_TICK_HALF word_less_nat_alt)
  next
    case False
    then have "a - b = word_of_int (int x - int y)" using ab by simp
    also have "\<dots> = word_of_int (int x - int y + 2 ^ 32)"
      by (simp add: word_of_int_2p_len [where 'a = 32, simplified])
    finally have "uint (a - b) = uint (word_of_int (int x - int y + 2 ^ 32) :: u32)" by (rule arg_cong)
    also have "\<dots> = int x - int y + 2 ^ 32" by (rule uint_of_int_small) (use bd False in simp_all)
    finally have "uint (a - b) = int x - int y + 2 ^ 32" .
    then have "0x7fffffff < uint (a - b)" using bd by simp
    then show ?thesis using False x_def y_def by (auto simp: RT_TICK_HALF word_less_def)
  qed
qed

lemma set_insert_by_time [simp]: "set (insert_by_time due tm ts) = insert tm (set ts)"
  by (induction ts) auto

lemma distinct_insert_by_time [simp]: "distinct (insert_by_time due tm ts) = (tm \<notin> set ts \<and> distinct ts)"
  by (induction ts) auto

lemma removeAll_insert_by_time [simp]: "removeAll tm (insert_by_time due tm ts) = removeAll tm ts"
  by (induction ts) auto

lemma sorted_insert_by_time:
  assumes "sorted (map (\<lambda>t. unat (due t - now)) ts)" "\<And>t. t \<in> insert tm (set ts) \<Longrightarrow> unat (due t - now) < 0x7fffffff"
  shows "sorted (map (\<lambda>t. unat (due t - now)) (insert_by_time due tm ts))"
  using assms
proof (induction ts)
  case Nil
  then show ?case by simp
next
  case (Cons t ts)
  have later: "(due t - due tm \<noteq> 0 \<and> due t - due tm < RT_TICK_MAX div 2) \<longleftrightarrow> unat (due tm - now) < unat (due t - now)"
    by (rule later_iff) (use Cons.prems in auto)
  show ?case
  proof (cases "unat (due tm - now) < unat (due t - now)")
    case True
    then show ?thesis using Cons.prems(1) later by (force intro: less_imp_le order_trans)
  next
    case False
    then show ?thesis using Cons later by auto
  qed
qed


lemma flag_simps [simp]:
  "(x AND NOT RT_TIMER_FLAG_ACTIVATED) AND RT_TIMER_FLAG_SOFT_TIMER = x AND RT_TIMER_FLAG_SOFT_TIMER"
  "(x OR RT_TIMER_FLAG_ACTIVATED) AND RT_TIMER_FLAG_SOFT_TIMER = x AND RT_TIMER_FLAG_SOFT_TIMER"
  "(x AND NOT RT_TIMER_FLAG_ACTIVATED) AND RT_TIMER_FLAG_PERIODIC = x AND RT_TIMER_FLAG_PERIODIC"
  "(x OR RT_TIMER_FLAG_ACTIVATED) AND RT_TIMER_FLAG_PERIODIC = x AND RT_TIMER_FLAG_PERIODIC"
  "(x AND NOT RT_TIMER_FLAG_ACTIVATED) AND RT_TIMER_FLAG_ACTIVATED = 0"
  "(x OR RT_TIMER_FLAG_ACTIVATED) AND RT_TIMER_FLAG_ACTIVATED \<noteq> 0"
proof -
  have "NOT 1 AND (4 :: u8) = 4" "NOT 1 AND (2 :: u8) = 2" "1 AND (4 :: u8) = 0" "1 AND (2 :: u8) = 0"
    by simp_all
  then show "(x AND NOT RT_TIMER_FLAG_ACTIVATED) AND RT_TIMER_FLAG_SOFT_TIMER = x AND RT_TIMER_FLAG_SOFT_TIMER"
    "(x OR RT_TIMER_FLAG_ACTIVATED) AND RT_TIMER_FLAG_SOFT_TIMER = x AND RT_TIMER_FLAG_SOFT_TIMER"
    "(x AND NOT RT_TIMER_FLAG_ACTIVATED) AND RT_TIMER_FLAG_PERIODIC = x AND RT_TIMER_FLAG_PERIODIC"
    "(x OR RT_TIMER_FLAG_ACTIVATED) AND RT_TIMER_FLAG_PERIODIC = x AND RT_TIMER_FLAG_PERIODIC"
    by (simp_all add: timer_flag_defs and.assoc bit.conj_disj_distrib2)
  show "(x AND NOT RT_TIMER_FLAG_ACTIVATED) AND RT_TIMER_FLAG_ACTIVATED = 0"
    by (simp add: and.assoc)
  have "bit ((x OR RT_TIMER_FLAG_ACTIVATED) AND RT_TIMER_FLAG_ACTIVATED) 0"
    by (simp add: timer_flag_defs bit_simps)
  then show "(x OR RT_TIMER_FLAG_ACTIVATED) AND RT_TIMER_FLAG_ACTIVATED \<noteq> 0" by auto
qed

lemma RT_TIMER_FLAG_ACTIVATED_nonzero [simp]: "RT_TIMER_FLAG_ACTIVATED \<noteq> 0"
  by (simp add: timer_flag_defs)

lemma timer_list_of_sel [simp]:
  "timer_list_of (deactivate r) = timer_list_of r"
  "timer_list_of (r\<lparr>timeout_tick := x\<rparr>) = timer_list_of r"
  "timer_list_of (r\<lparr>timer_init_tick := y\<rparr>) = timer_list_of r"
  "timer_list_of (r\<lparr>timer_flag := timer_flag r OR RT_TIMER_FLAG_ACTIVATED\<rparr>) = timer_list_of r"
  by (simp_all add: timer_list_of_def deactivate_def)

lemma deactivate_sel [simp]:
  "timeout_tick (deactivate r) = timeout_tick r" "timer_init_tick (deactivate r) = timer_init_tick r"
  "timer_flag (deactivate r) = timer_flag r AND NOT RT_TIMER_FLAG_ACTIVATED"
  by (simp_all add: deactivate_def)

text \<open>Stopping and detaching.\<close>

lemma timers_wf_deactivate:
  assumes "timers_wf s"
  shows "timers_wf (upd_timer tm deactivate (timer_remove tm s))"
proof -
  let ?s = "upd_timer tm deactivate (timer_remove tm s)"
  have d: "delay ?s = delay s" by (rule ext) (simp add: delay_def rt_tick_get_def timer_remove_def)
  have l: "timer_list_of (timers ?s t) = timer_list_of (timers s t)" for t
    by (simp add: timer_remove_def)
  have q: "timer_q ?s q = removeAll tm (timer_q s q)" for q by (simp add: timer_remove_def)
  have a: "timer_active ?s t \<longleftrightarrow> t \<noteq> tm \<and> timer_active s t" for t
    by (simp add: timer_active_def timer_remove_def)
  have p: "timer_flag (timers ?s t) AND RT_TIMER_FLAG_PERIODIC = timer_flag (timers s t) AND RT_TIMER_FLAG_PERIODIC" for t
    by (simp add: timer_remove_def)
  have "sorted (map (delay s) (removeAll tm (timer_q s q)))" for q
    using assms by (simp add: timers_wf_def removeAll_filter_not_eq sorted_filter)
  then show ?thesis using assms
    unfolding timers_wf_def d l q a p by (auto simp: distinct_removeAll)
qed

lemma timers_wf_stop: "timers_wf s \<Longrightarrow> timers_wf (fst (rt_timer_stop tm s))"
  by (simp add: rt_timer_stop_def timers_wf_deactivate)

lemma rt_timer_stop_inactive [simp]: "timers_wf s \<Longrightarrow> \<not> timer_active (fst (rt_timer_stop tm s)) tm"
  by (simp add: rt_timer_stop_def timer_active_def)

text \<open>Starting.\<close>

lemma timer_enqueue_timers:
  "timers (timer_enqueue tm s) = (timers s)(tm := (timers s tm)\<lparr>
      timeout_tick := rt_tick_get s + timer_init_tick (timers s tm),
      timer_flag := (timer_flag (timers s tm) AND NOT RT_TIMER_FLAG_ACTIVATED) OR RT_TIMER_FLAG_ACTIVATED\<rparr>)"
  by (simp add: timer_enqueue_def Let_def deactivate_def timer_remove_def rt_tick_get_def)

lemma timer_enqueue_q:
  "timer_q (timer_enqueue tm s) q = (let ts = removeAll tm (timer_q s q) in
     if q = timer_list_of (timers s tm)
     then insert_by_time (\<lambda>t. timeout_tick (timers (timer_enqueue tm s) t)) tm ts else ts)"
  unfolding timer_enqueue_timers
  by (auto simp: timer_enqueue_def Let_def deactivate_def timer_remove_def rt_tick_get_def timer_list_of_def
      intro!: arg_cong [where f = "\<lambda>f. insert_by_time f _ _"])

lemma timer_enqueue_delay:
  "delay (timer_enqueue tm s) t = (if t = tm then unat (timer_init_tick (timers s tm)) else delay s t)"
  by (simp add: delay_def rt_tick_get_def timer_enqueue_timers)

lemma timers_wf_enqueue:
  assumes "timers_wf s" "timer_init_tick (timers s tm) < RT_TICK_MAX div 2"
  shows "timers_wf (timer_enqueue tm s)"
proof -
  let ?s = "timer_enqueue tm s"
  have nt: "unat (timer_init_tick (timers s tm)) < 0x7fffffff"
    using assms(2) by (simp add: RT_TICK_HALF word_less_nat_alt)
  have l: "timer_list_of (timers ?s t) = timer_list_of (timers s t)" for t
    by (simp add: timer_enqueue_timers timer_list_of_def)
  have p: "timer_flag (timers ?s t) AND RT_TIMER_FLAG_PERIODIC = timer_flag (timers s t) AND RT_TIMER_FLAG_PERIODIC" for t
    by (simp add: timer_enqueue_timers)
  have a: "timer_active ?s t \<longleftrightarrow> t = tm \<or> timer_active s t" for t
    by (simp add: timer_active_def timer_enqueue_timers)
  have q: "set (timer_q ?s q) = (if q = timer_list_of (timers s tm) then insert tm (set (timer_q s q)) else set (timer_q s q) - {tm})" for q
    by (auto simp: timer_enqueue_q Let_def)
  have so: "sorted (map (delay ?s) (timer_q ?s q))" for q
  proof -
    let ?ts = "removeAll tm (timer_q s q)"
    have e: "map (delay ?s) ?ts = map (delay s) ?ts" by (simp add: timer_enqueue_delay)
    have "sorted (map (delay s) ?ts)"
      using assms(1) by (simp add: timers_wf_def removeAll_filter_not_eq sorted_filter)
    then have s0: "sorted (map (delay ?s) ?ts)" by (simp only: e)
    have "sorted (map (\<lambda>t. unat (timeout_tick (timers ?s t) - rt_tick_get ?s))
        (insert_by_time (\<lambda>t. timeout_tick (timers ?s t)) tm ?ts))"
    proof (rule sorted_insert_by_time)
      show "sorted (map (\<lambda>t. unat (timeout_tick (timers ?s t) - rt_tick_get ?s)) ?ts)"
        using s0 unfolding delay_def .
      fix t assume "t \<in> insert tm (set ?ts)"
      then have "delay ?s t < 0x7fffffff"
        using assms(1) nt by (auto simp: timer_enqueue_delay timers_wf_def)
      then show "unat (timeout_tick (timers ?s t) - rt_tick_get ?s) < 0x7fffffff" unfolding delay_def .
    qed
    with s0 show ?thesis unfolding timer_enqueue_q [of tm s q] Let_def delay_def by auto
  qed
  have di: "distinct (timer_q ?s q)" for q
    using assms(1) by (simp add: timers_wf_def timer_enqueue_q Let_def distinct_removeAll)
  have fi: "timer_q ?s HardFiring = []" "timer_q ?s SoftFiring = []"
    using assms(1) timer_list_of_cases [of "timers s tm"] by (auto simp: timers_wf_def timer_enqueue_q Let_def)
  show ?thesis
    unfolding timers_wf_def l p a
    using assms(1) so di fi q nt timer_list_of_cases [of "timers s tm"]
    by (auto simp: timers_wf_def timer_enqueue_delay split: if_splits)
qed

end
