(* ===== verification/Rt_Thread.thy ===== *)
theory Rt_Thread
  imports Rt_Timer
begin

unbundle bit_operations_syntax

text \<open>
  Threads, \<open>src/thread.c\<close>: initialisation, start, suspension, wake-up, priority change and yield. The
  functions that end a thread are in \<open>Rt_Close\<close>, those that sleep in \<open>Rt_Clock\<close>. A function that
  gives the processor away ends with \<open>rt_schedule\<close>; the statements it executes when the thread runs
  again are a separate definition.
\<close>

definition rt_thread_self :: "cpuid \<Rightarrow> kernel \<Rightarrow> tid option" where
  "rt_thread_self c s = current_thread (cpus s c)"

text \<open>The error number (\<open>kservice.c\<close>): that of the thread, or the global one in an interrupt and before the first thread.\<close>

definition rt_get_errno :: "cpuid \<Rightarrow> kernel \<Rightarrow> int" where
  "rt_get_errno c s =
    (if rt_interrupt_get_nest c s \<noteq> 0 then rt_errno s
     else case rt_thread_self c s of None \<Rightarrow> rt_errno s | Some t \<Rightarrow> error (threads s t))"

definition rt_set_errno :: "cpuid \<Rightarrow> int \<Rightarrow> kernel \<Rightarrow> kernel" where
  "rt_set_errno c e s =
    (if rt_interrupt_get_nest c s \<noteq> 0 then s\<lparr>rt_errno := e\<rparr>
     else case rt_thread_self c s of None \<Rightarrow> s\<lparr>rt_errno := e\<rparr>
     | Some t \<Rightarrow> upd_thread t (\<lambda>th. th\<lparr>error := e\<rparr>) s)"

subsection \<open>Initialisation\<close>

text \<open>
  \<open>rt_hw_stack_init\<close> (\<open>libcpu/arm/cortex-a/stack.c\<close>) aligns the top of the stack to eight bytes and pushes an initial
  frame of 17 words.
\<close>

definition rt_hw_stack_init :: "u32 \<Rightarrow> u32" where
  "rt_hw_stack_init stack_top = RT_ALIGN_DOWN (stack_top + 4) 8 - 4 * 17"

definition thread_init :: "tid \<Rightarrow> u32 \<Rightarrow> u32 \<Rightarrow> u8 \<Rightarrow> u32 \<Rightarrow> kernel \<Rightarrow> kernel res" where
  "thread_init t stack_start stack_len priority ticks s =
    (let s = rt_list_remove t s in
     rt_assert (priority < 32)
       (rt_timer_init (ThreadTimer t) 0 0
         (upd_thread t (\<lambda>th. th\<lparr>
            stack_addr := stack_start, stack_size := stack_len, stack_magic := 0x23,
            sp := rt_hw_stack_init (stack_start + stack_len - 4),
            init_priority := priority, current_priority := priority, number_mask := 0,
            taken_object_list := [], pending_object := None, event_set := 0, event_info := 0,
            init_tick := ticks, remaining_tick := ticks, error := RT_EOK, stat := RT_THREAD_INIT,
            bind_cpu := RT_CPUS_NR, oncpu := RT_CPU_DETACHED,
            scheduler_lock_nest := 0, cpus_lock_nest := 0, critical_lock_nest := 0\<rparr>) s)))"

definition rt_thread_init :: "tid \<Rightarrow> u32 \<Rightarrow> u32 \<Rightarrow> u8 \<Rightarrow> u32 \<Rightarrow> kernel \<Rightarrow> kernel res" where
  "rt_thread_init t stack_start stack_len priority ticks s =
     rt_assert (stack_start \<noteq> 0) (thread_init t stack_start stack_len priority ticks s)"

text \<open>The two allocations are arguments: the thread object and the memory of the stack.\<close>

definition rt_thread_create :: "tid option \<Rightarrow> u32 option \<Rightarrow> u32 \<Rightarrow> u8 \<Rightarrow> u32 \<Rightarrow> kernel \<Rightarrow> (kernel \<times> tid option) res" where
  "rt_thread_create obj mem stack_len priority ticks s =
    (case obj of None \<Rightarrow> Inr (s, None)
     | Some t \<Rightarrow> (case mem of None \<Rightarrow> Inr (s, None)
        | Some a \<Rightarrow> and_then (thread_init t a stack_len priority ticks s) (\<lambda>s. Inr (s, Some t))))"

subsection \<open>Suspension and wake-up\<close>

definition rt_thread_suspend :: "cpuid \<Rightarrow> tid \<Rightarrow> kernel \<Rightarrow> (kernel \<times> int) res" where
  "rt_thread_suspend c t s =
    rt_assert (rt_thread_self c s = Some t)
      (if thread_stat s t \<noteq> RT_THREAD_READY \<and> thread_stat s t \<noteq> RT_THREAD_RUNNING then Inr (s, - RT_ERROR)
       else
         (let s = rt_schedule_remove_thread t s;
              s = upd_thread t (set_stat RT_THREAD_SUSPEND) s;
              s = fst (rt_timer_stop (ThreadTimer t) s)
          in Inr (s, RT_EOK)))"

definition rt_thread_resume :: "cpuid \<Rightarrow> tid \<Rightarrow> kernel \<Rightarrow> kernel \<times> int" where
  "rt_thread_resume c t s =
    (if thread_stat s t \<noteq> RT_THREAD_SUSPEND then (s, - RT_ERROR)
     else
       (let s = rt_list_remove t s;
            s = fst (rt_timer_stop (ThreadTimer t) s);
            s = rt_schedule_insert_thread c t s
        in (s, RT_EOK)))"

text \<open>The call-back of the timer inside a thread.\<close>

definition thread_timeout :: "cpuid \<Rightarrow> tid \<Rightarrow> kernel \<Rightarrow> kernel res" where
  "thread_timeout c t s =
    rt_assert (thread_stat s t = RT_THREAD_SUSPEND)
      (let s = upd_thread t (\<lambda>th. th\<lparr>error := - RT_ETIMEOUT\<rparr>) s;
           s = rt_list_remove t s;
           s = rt_schedule_insert_thread c t s
       in rt_schedule c s)"

definition rt_thread_startup :: "cpuid \<Rightarrow> tid \<Rightarrow> kernel \<Rightarrow> kernel res" where
  "rt_thread_startup c t s =
    rt_assert (thread_stat s t = RT_THREAD_INIT)
      (let s = upd_thread t (\<lambda>th. th\<lparr>number_mask := push_bit (unat (current_priority th)) 1,
                                     stat := RT_THREAD_SUSPEND\<rparr>) s;
           s = fst (rt_thread_resume c t s)
       in if rt_thread_self c s \<noteq> None then rt_schedule c s else Inr s)"

definition rt_thread_yield :: "cpuid \<Rightarrow> kernel \<Rightarrow> kernel res" where
  "rt_thread_yield c s = (case rt_thread_self c s of None \<Rightarrow> Inl NullDeref
    | Some t \<Rightarrow>
       let s = rt_cpus_lock c s;
           s = upd_thread t (\<lambda>th. th\<lparr>remaining_tick := init_tick th, stat := stat th OR RT_THREAD_STAT_YIELD\<rparr>) s
       in and_then (rt_schedule c s) (\<lambda>s.
            Inr (if rt_thread_self c s = Some t then rt_cpus_unlock c s else s)))"

text \<open>When the thread that yielded runs again, it leaves the critical section of \<open>rt_thread_yield\<close>.\<close>

definition rt_thread_yield_cont :: "cpuid \<Rightarrow> kernel \<Rightarrow> kernel" where
  "rt_thread_yield_cont c s = rt_cpus_unlock c s"

text \<open>\<open>rt_thread_control\<close> with \<open>RT_THREAD_CTRL_CHANGE_PRIORITY\<close> and \<open>RT_THREAD_CTRL_BIND_CPU\<close>.\<close>

definition with_priority :: "u8 \<Rightarrow> rt_thread \<Rightarrow> rt_thread" where
  "with_priority p th = th\<lparr>current_priority := p, number_mask := push_bit (unat p) 1\<rparr>"

definition thread_change_priority :: "cpuid \<Rightarrow> tid \<Rightarrow> u8 \<Rightarrow> kernel \<Rightarrow> kernel" where
  "thread_change_priority c t p s =
    (if thread_stat s t = RT_THREAD_READY
     then
       (let s = rt_schedule_remove_thread t s;
            s = upd_thread t (with_priority p) s
        in rt_schedule_insert_thread c t s)
     else upd_thread t (with_priority p) s)"

definition thread_bind_cpu :: "tid \<Rightarrow> u8 \<Rightarrow> kernel \<Rightarrow> kernel \<times> int" where
  "thread_bind_cpu t cpu s =
    (if thread_stat s t \<noteq> RT_THREAD_INIT then (s, RT_ERROR)
     else (upd_thread t (\<lambda>th. th\<lparr>bind_cpu := (if unat cpu > RT_CPUS_NR then RT_CPUS_NR else unat cpu)\<rparr>) s, RT_EOK))"

subsection \<open>The scheduler's invariant\<close>

lemma sched_inv_started: "sched_inv s \<Longrightarrow> started (thread_stat s t) \<Longrightarrow> prio_ok (threads s t)"
  by (simp add: sched_inv_def threads_ok_def)

lemma rt_thread_suspend_ok:
  assumes "sched_inv s" "rt_thread_self c s = Some t" "thread_stat s t = RT_THREAD_RUNNING"
  shows "rt_thread_suspend c t s
      = Inr (fst (rt_timer_stop (ThreadTimer t) (upd_thread t (set_stat RT_THREAD_SUSPEND) (rt_schedule_remove_thread t s))), RT_EOK)"
  using assms by (simp add: rt_thread_suspend_def Let_def)

lemma rt_thread_suspend_sched_inv:
  assumes "sched_inv s" "rt_thread_suspend c t s = Inr (s', e)"
  shows "sched_inv s'"
proof (cases "thread_stat s t = RT_THREAD_READY \<or> thread_stat s t = RT_THREAD_RUNNING")
  case True
  then have p: "prio_ok (threads s t)" using sched_inv_started [OF assms(1)] by (auto simp: started_def)
  have "sched_inv (upd_thread t (set_stat RT_THREAD_SUSPEND) (rt_schedule_remove_thread t s))"
    by (rule sched_inv_stop_thread [OF assms(1) p]) simp_all
  with assms(2) True show ?thesis by (auto simp: rt_thread_suspend_def Let_def)
next
  case False
  with assms show ?thesis by (auto simp: rt_thread_suspend_def)
qed

lemma linked_list_remove: "linked (rt_list_remove t s) t' = (t' \<noteq> t \<and> linked s t')"
  by (auto simp: linked_def rt_list_remove_def)

text \<open>
  Taking a thread that is neither ready nor running off its list keeps the invariant.
\<close>

lemma sched_inv_list_remove:
  assumes "sched_inv s" "thread_stat s t \<noteq> RT_THREAD_READY"
  shows "sched_inv (rt_list_remove t s)"
proof -
  note inv = sched_invD [OF assms(1)]
  have same: "queues (rt_list_remove t s) q = queues s q" if "is_ready_q q" for q
    using ready_inv_not_ready [OF inv(1) assms(2) that] by (simp add: rt_list_remove_def removeAll_id)
  have th: "thread_stat (rt_list_remove t s) t' = thread_stat s t'" for t' by (simp add: thread_stat_def)
  have "bitmaps_ok (rt_list_remove t s)"
    using inv(1) same by (simp add: ready_inv_def bitmaps_ok_def bitmap_ok_def)
  then have "ready_inv {} (rt_list_remove t s)"
    using inv(1) same queues_wf_remove [of s t]
    by (auto simp: ready_inv_def ready_members_def ready_complete_def th)
  moreover have "threads_ok (rt_list_remove t s)"
    using inv(2) by (auto simp: threads_ok_def th linked_list_remove)
  ultimately show ?thesis using inv(3) by (simp add: sched_inv_def cpus_ok_def)
qed

lemma rt_thread_resume_sched_inv:
  assumes "sched_inv s"
  shows "sched_inv (fst (rt_thread_resume c t s))"
proof (cases "thread_stat s t = RT_THREAD_SUSPEND")
  case True
  let ?s = "fst (rt_timer_stop (ThreadTimer t) (rt_list_remove t s))"
  have "sched_inv ?s" using sched_inv_list_remove [OF assms, of t] True by simp
  moreover have "prio_ok (threads ?s t)"
    using sched_inv_started [OF assms, of t] True by (simp add: started_def)
  ultimately have "sched_inv (rt_schedule_insert_thread c t ?s)"
    by (intro sched_inv_insert_thread) (simp_all add: linked_list_remove)
  with True show ?thesis by (simp add: rt_thread_resume_def Let_def)
qed (use assms in \<open>simp add: rt_thread_resume_def\<close>)

lemma thread_timeout_sched_inv:
  assumes "sched_inv s" "c < RT_CPUS_NR" "thread_timeout c t s = Inr s'"
  shows "sched_inv s'"
proof -
  let ?s = "rt_list_remove t (upd_thread t (\<lambda>th. th\<lparr>error := - RT_ETIMEOUT\<rparr>) s)"
  have st: "thread_stat s t = RT_THREAD_SUSPEND" using assms(3) by (simp add: thread_timeout_def)
  have e: "sched_inv (upd_thread t (\<lambda>th. th\<lparr>error := - RT_ETIMEOUT\<rparr>) s)"
    by (rule sched_inv_frame [OF assms(1)]) (simp_all add: same_sched_def)
  have "sched_inv ?s"
    by (rule sched_inv_list_remove [OF e]) (use st in \<open>simp add: thread_stat_def\<close>)
  moreover have "prio_ok (threads ?s t)"
    using sched_inv_started [OF assms(1), of t] st by (simp add: started_def prio_ok_def)
  ultimately have "sched_inv (rt_schedule_insert_thread c t ?s)"
    by (intro sched_inv_insert_thread) (simp_all add: linked_list_remove)
  then show ?thesis
    using assms(2,3) st rt_schedule_sched_inv by (simp add: thread_timeout_def Let_def)
qed

lemma sched_inv_upd_stopped:
  assumes "sched_inv s" "thread_stat s t \<noteq> RT_THREAD_READY"
    and f: "prio_ok (f (threads s t)) \<or> \<not> started (stat (f (threads s t)) AND RT_THREAD_STAT_MASK)"
      "oncpu (f (threads s t)) = oncpu (threads s t)"
      "stat (f (threads s t)) AND RT_THREAD_STAT_MASK \<noteq> RT_THREAD_READY"
      "stat (f (threads s t)) AND RT_THREAD_STAT_MASK = RT_THREAD_RUNNING \<longrightarrow> thread_stat s t = RT_THREAD_RUNNING"
  shows "sched_inv (upd_thread t f s)"
proof -
  note inv = sched_invD [OF assms(1)]
  have "ready_inv {t} (upd_thread t f s)"
    by (rule ready_inv_upd_moving) (use inv(1) ready_inv_not_ready [OF inv(1) assms(2)] in \<open>auto intro: ready_inv_mono\<close>)
  then have "ready_inv {} (upd_thread t f s)"
    by (rule ready_inv_settle) (use f(3) in \<open>simp add: thread_stat_def\<close>)
  moreover have "threads_ok (upd_thread t f s)"
    using inv(2) f by (auto simp: threads_ok_def thread_stat_def linked_def)
  moreover have "cpus_ok (upd_thread t f s)" using inv(3) f(2) by (auto simp: cpus_ok_def)
  ultimately show ?thesis by (simp add: sched_inv_def)
qed

lemma with_priority_sel [simp]:
  "stat (with_priority p th) = stat th" "oncpu (with_priority p th) = oncpu th"
  "bind_cpu (with_priority p th) = bind_cpu th" "current_priority (with_priority p th) = p"
  "number_mask (with_priority p th) = prio_mask p" "pending_object (with_priority p th) = pending_object th"
  "taken_object_list (with_priority p th) = taken_object_list th" "init_priority (with_priority p th) = init_priority th"
  by (simp_all add: with_priority_def prio_mask_def)

lemma thread_change_priority_sched_inv:
  assumes "sched_inv s" "p < 32"
  shows "sched_inv (thread_change_priority c t p s)"
proof -
  note inv = sched_invD [OF assms(1)]
  show ?thesis
  proof (cases "thread_stat s t = RT_THREAD_READY")
    case True
    let ?r = "rt_schedule_remove_thread t s"
    let ?s = "upd_thread t (with_priority p) ?r"
    have p: "prio_ok (threads s t)" using sched_inv_started [OF assms(1), of t] True by (simp add: started_def)
    then have p': "prio_ok (threads ?s t)" using assms(2) by (simp add: prio_ok_def)
    have "ready_inv {t} ?s"
      by (rule ready_inv_upd_moving) (use ready_inv_remove_thread [OF inv(1) p] in auto)
    then have "ready_inv {} (rt_schedule_insert_thread c t ?s)"
      using p' by (intro ready_inv_insert_thread) (auto simp: linked_def)
    moreover have "oncpu (threads s t) = RT_CPU_DETACHED"
      using inv(1) True ready_inv_in_ready(4) [OF inv(1), of t "ready_q (threads s t)"]
      by (simp add: ready_inv_def ready_complete_def)
    moreover have "linked (rt_schedule_insert_thread c t ?s) t' \<Longrightarrow> t' = t \<or> linked s t'" for t'
      using insert_thread_linked [of c t ?s t'] by (auto simp: linked_def)
    ultimately show ?thesis
      using inv(2,3) p' True
      by (auto simp: thread_change_priority_def sched_inv_def threads_ok_def cpus_ok_def insert_thread_threads
          thread_stat_def prio_ok_def)
  next
    case False
    have "prio_ok (threads s t) \<or> \<not> started (thread_stat s t)" using sched_inv_started [OF assms(1)] by blast
    with False assms have "sched_inv (upd_thread t (with_priority p) s)"
      by (intro sched_inv_upd_stopped) (auto simp: prio_ok_def thread_stat_def)
    with False show ?thesis by (simp add: thread_change_priority_def)
  qed
qed

lemma thread_change_priority_sel [simp]:
  "current_priority (threads (thread_change_priority c t p s) t') = (if t' = t then p else current_priority (threads s t'))"
  "oncpu (threads (thread_change_priority c t p s) t') = oncpu (threads s t')"
  "pending_object (threads (thread_change_priority c t p s) t') = pending_object (threads s t')"
  "init_priority (threads (thread_change_priority c t p s) t') = init_priority (threads s t')"
  "taken_object_list (threads (thread_change_priority c t p s) t') = taken_object_list (threads s t')"
  by (auto simp: thread_change_priority_def insert_thread_threads)

text \<open>Waking a suspended thread makes it ready, or running again if it has not left its core yet.\<close>

lemma rt_thread_resume_stat:
  assumes "thread_stat s t = RT_THREAD_SUSPEND"
  shows "thread_stat (fst (rt_thread_resume c t s)) t
      = (if oncpu (threads s t) = RT_CPU_DETACHED then RT_THREAD_READY else RT_THREAD_RUNNING)"
    "t' \<noteq> t \<Longrightarrow> threads (fst (rt_thread_resume c t s)) t' = threads s t'"
    "snd (rt_thread_resume c t s) = RT_EOK"
  using assms by (auto simp: rt_thread_resume_def Let_def insert_thread_threads thread_stat_def)

lemma rt_thread_startup_sched_inv:
  assumes "sched_inv s" "c < RT_CPUS_NR" "rt_thread_startup c t s = Inr s'"
    "current_priority (threads s t) < 32" "bind_cpu (threads s t) \<le> RT_CPUS_NR"
  shows "sched_inv s'"
proof -
  let ?s = "upd_thread t (\<lambda>th. th\<lparr>number_mask := push_bit (unat (current_priority th)) 1, stat := RT_THREAD_SUSPEND\<rparr>) s"
  have st: "thread_stat s t = RT_THREAD_INIT" using assms(3) by (simp add: rt_thread_startup_def)
  have "sched_inv ?s"
    by (rule sched_inv_upd_stopped [OF assms(1)])
      (use st assms(4,5) in \<open>simp_all add: prio_ok_def prio_mask_def, simp_all add: stat_defs\<close>)
  then have "sched_inv (fst (rt_thread_resume c t ?s))" by (rule rt_thread_resume_sched_inv)
  then show ?thesis using assms(2,3) st rt_schedule_sched_inv
    by (auto simp: rt_thread_startup_def Let_def split: if_splits)
qed

lemma yield_flag_stat [simp]:
  "(x OR RT_THREAD_STAT_YIELD) AND RT_THREAD_STAT_MASK = x AND RT_THREAD_STAT_MASK"
proof -
  have "8 AND (7 :: u8) = 0" by simp
  then show ?thesis by (simp add: stat_defs bit.conj_disj_distrib2)
qed

lemma rt_thread_yield_sched_inv:
  assumes "sched_inv s" "c < RT_CPUS_NR" "rt_thread_yield c s = Inr s'"
  shows "sched_inv s'"
proof -
  obtain t where t: "rt_thread_self c s = Some t" using assms(3) by (auto simp: rt_thread_yield_def split: option.splits)
  let ?s = "upd_thread t (\<lambda>th. th\<lparr>remaining_tick := init_tick th, stat := stat th OR RT_THREAD_STAT_YIELD\<rparr>) (rt_cpus_lock c s)"
  have "sched_inv ?s"
    by (rule sched_inv_frame [OF sched_inv_lock [OF assms(1)]]) (auto simp: same_sched_def)
  then show ?thesis
    using assms(2,3) t rt_schedule_sched_inv [of ?s c]
    by (auto simp: rt_thread_yield_def Let_def split: if_splits)
qed

end
