(* ===== verification/Rt_Clock.thy ===== *)
theory Rt_Clock
  imports Rt_Thread
begin

unbundle bit_operations_syntax

text \<open>
  What happens at a tick: \<open>src/clock.c\<close>, the functions of \<open>src/timer.c\<close> that start and fire timers, and the
  sleeping functions of \<open>src/thread.c\<close>. The loops that fire timers call functions of the application,
  which may restart timers, so they may run forever: the loop takes fuel and answers \<open>None\<close> when
  it runs out. The call-backs of application timers are a parameter.
\<close>

type_synonym callback = "nat \<Rightarrow> cpuid \<Rightarrow> kernel \<Rightarrow> kernel res"

subsection \<open>Starting a timer\<close>

definition rt_timer_start :: "cpuid \<Rightarrow> timer_id \<Rightarrow> kernel \<Rightarrow> kernel res" where
  "rt_timer_start c tm s =
    (let s = timer_enqueue tm s in
     if timer_flag (timers s tm) AND RT_TIMER_FLAG_SOFT_TIMER \<noteq> 0 \<and> soft_timer_idle s
        \<and> thread_stat s (timer_thread s) = RT_THREAD_SUSPEND
     then rt_schedule c (fst (rt_thread_resume c (timer_thread s) s))
     else Inr s)"

subsection \<open>Firing timers\<close>

definition timeout_func :: "callback \<Rightarrow> cpuid \<Rightarrow> timer_id \<Rightarrow> kernel \<Rightarrow> kernel res" where
  "timeout_func cb c tm s = (case tm of ThreadTimer t \<Rightarrow> thread_timeout c t s | UserTimer n \<Rightarrow> cb n c s)"

definition timer_periodic :: "rt_timer \<Rightarrow> bool" where
  "timer_periodic r \<longleftrightarrow> timer_flag r AND RT_TIMER_FLAG_PERIODIC \<noteq> 0"

text \<open>The head of the list is taken out and linked into the local list while its function runs.\<close>

definition timer_fire :: "tqid \<Rightarrow> timer_id \<Rightarrow> kernel \<Rightarrow> kernel" where
  "timer_fire local tm s =
    (let s = timer_remove tm s;
         s = (if \<not> timer_periodic (timers s tm) then upd_timer tm deactivate s else s)
     in s\<lparr>timer_q := (timer_q s)(local := tm # timer_q s local)\<rparr>)"

text \<open>
  After the function: if the local list is empty, the function has stopped or restarted the timer;
  otherwise it is unlinked and, when periodic, started again.
\<close>

definition timer_rearm :: "tqid \<Rightarrow> cpuid \<Rightarrow> timer_id \<Rightarrow> kernel \<Rightarrow> kernel res" where
  "timer_rearm local c tm s =
    (if timer_q s local = [] then Inr s
     else
       (let s = timer_remove tm s in
        if timer_periodic (timers s tm) \<and> timer_active s tm
        then rt_timer_start c tm (upd_timer tm deactivate s) else Inr s))"

fun timer_check_loop :: "nat \<Rightarrow> callback \<Rightarrow> cpuid \<Rightarrow> u32 \<Rightarrow> kernel \<Rightarrow> kernel res option" where
  "timer_check_loop 0 cb c current_tick s = None"
| "timer_check_loop (Suc fuel) cb c current_tick s =
    (case timer_q s HardTimers of [] \<Rightarrow> Some (Inr s)
     | t # _ \<Rightarrow>
        if current_tick - timeout_tick (timers s t) < RT_TICK_MAX div 2
        then (case and_then (timeout_func cb c t (timer_fire HardFiring t s))
                (\<lambda>s. and_then (timer_rearm HardFiring c t s) (\<lambda>s'. Inr (rt_tick_get s, s'))) of
                Inl e \<Rightarrow> Some (Inl e)
              | Inr (current_tick, s) \<Rightarrow> timer_check_loop fuel cb c current_tick s)
        else Some (Inr s))"

definition rt_timer_check :: "nat \<Rightarrow> callback \<Rightarrow> cpuid \<Rightarrow> kernel \<Rightarrow> kernel res option" where
  "rt_timer_check fuel cb c s =
     timer_check_loop fuel cb c (rt_tick_get s) (s\<lparr>timer_q := (timer_q s)(HardFiring := [])\<rparr>)"

fun soft_timer_check_loop :: "nat \<Rightarrow> callback \<Rightarrow> cpuid \<Rightarrow> kernel \<Rightarrow> kernel res option" where
  "soft_timer_check_loop 0 cb c s = None"
| "soft_timer_check_loop (Suc fuel) cb c s =
    (case timer_q s SoftTimers of [] \<Rightarrow> Some (Inr s)
     | t # _ \<Rightarrow>
        if rt_tick_get s - timeout_tick (timers s t) < RT_TICK_MAX div 2
        then (case and_then (timeout_func cb c t ((timer_fire SoftFiring t s)\<lparr>soft_timer_idle := False\<rparr>))
                (\<lambda>s. timer_rearm SoftFiring c t (s\<lparr>soft_timer_idle := True\<rparr>)) of
                Inl e \<Rightarrow> Some (Inl e)
              | Inr s \<Rightarrow> soft_timer_check_loop fuel cb c s)
        else Some (Inr s))"

definition rt_soft_timer_check :: "nat \<Rightarrow> callback \<Rightarrow> cpuid \<Rightarrow> kernel \<Rightarrow> kernel res option" where
  "rt_soft_timer_check fuel cb c s =
     soft_timer_check_loop fuel cb c (s\<lparr>timer_q := (timer_q s)(SoftFiring := [])\<rparr>)"

subsection \<open>The tick\<close>

text \<open>\<open>RT_TICK_PER_SECOND\<close> is 1000. The arithmetic of the source is in \<open>int\<close>.\<close>

definition rt_tick_from_millisecond :: "32 word \<Rightarrow> u32" where
  "rt_tick_from_millisecond ms =
    (if sint ms < 0 then - 1
     else word_of_int (1000 * (sint ms div 1000)) + word_of_int ((1000 * (sint ms mod 1000) + 999) div 1000))"

definition rt_tick_get_millisecond :: "kernel \<Rightarrow> u32" where
  "rt_tick_get_millisecond s = rt_tick_get s * (1000 div 1000)"

text \<open>The part of \<open>rt_tick_increase\<close> before it checks the timers: count, and end the time slice.\<close>

definition tick_account :: "cpuid \<Rightarrow> kernel \<Rightarrow> kernel res" where
  "tick_account c s =
    (let s = upd_cpu c (\<lambda>p. p\<lparr>tick := tick p + 1\<rparr>) s in
     case rt_thread_self c s of None \<Rightarrow> Inl NullDeref
     | Some t \<Rightarrow>
        let s = upd_thread t (\<lambda>th. th\<lparr>remaining_tick := remaining_tick th - 1\<rparr>) s in
        if remaining_tick (threads s t) = 0
        then rt_schedule c (upd_thread t (\<lambda>th. th\<lparr>remaining_tick := init_tick th,
                                                stat := stat th OR RT_THREAD_STAT_YIELD\<rparr>) s)
        else Inr s)"

definition rt_tick_increase :: "nat \<Rightarrow> callback \<Rightarrow> cpuid \<Rightarrow> kernel \<Rightarrow> kernel res option" where
  "rt_tick_increase fuel cb c s =
     (case tick_account c s of Inl e \<Rightarrow> Some (Inl e) | Inr s \<Rightarrow> rt_timer_check fuel cb c s)"

subsection \<open>Sleeping\<close>

text \<open>\<open>RT_DEBUG_SCHEDULER_AVAILABLE\<close>: not in a critical section, in a thread, not in an interrupt.\<close>

definition scheduler_available :: "cpuid \<Rightarrow> kernel \<Rightarrow> bool" where
  "scheduler_available c s \<longleftrightarrow> rt_critical_level c s = Inr 0 \<and> rt_thread_self c s \<noteq> None
     \<and> rt_interrupt_get_nest c s = 0"

text \<open>Suspends the calling thread with its timer set: the tail of every timed wait.\<close>

definition arm_thread_timer :: "cpuid \<Rightarrow> tid \<Rightarrow> u32 \<Rightarrow> kernel \<Rightarrow> kernel res" where
  "arm_thread_timer c t ticks s =
     and_then (rt_timer_control (ThreadTimer t) (SET_TIME ticks) s) (\<lambda>(s, _).
       rt_timer_start c (ThreadTimer t) s)"

definition rt_thread_sleep :: "cpuid \<Rightarrow> u32 \<Rightarrow> kernel \<Rightarrow> (kernel \<times> outcome) res" where
  "rt_thread_sleep c ticks s =
    (if ticks = 0 then Inr (s, Return (- RT_EINVAL))
     else case rt_thread_self c s of None \<Rightarrow> Inl AssertFail
     | Some t \<Rightarrow> rt_assert (scheduler_available c s)
        (let s = upd_thread t (\<lambda>th. th\<lparr>error := RT_EOK\<rparr>) s in
         and_then (rt_thread_suspend c t s) (\<lambda>(s, _).
         and_then (arm_thread_timer c t ticks s) (\<lambda>s.
         and_then (rt_schedule c s) (\<lambda>s. Inr (s, Blocked))))))"

definition rt_thread_sleep_cont :: "tid \<Rightarrow> kernel \<Rightarrow> kernel \<times> int" where
  "rt_thread_sleep_cont t s =
    (let s = (if error (threads s t) = - RT_ETIMEOUT then upd_thread t (\<lambda>th. th\<lparr>error := RT_EOK\<rparr>) s else s)
     in (s, error (threads s t)))"

definition rt_thread_delay :: "cpuid \<Rightarrow> u32 \<Rightarrow> kernel \<Rightarrow> (kernel \<times> outcome) res" where
  "rt_thread_delay c ticks s = rt_thread_sleep c ticks s"

definition rt_thread_mdelay :: "cpuid \<Rightarrow> 32 word \<Rightarrow> kernel \<Rightarrow> (kernel \<times> outcome) res" where
  "rt_thread_mdelay c ms s = rt_thread_sleep c (rt_tick_from_millisecond ms) s"

text \<open>The third component is the new value of \<open>*tick\<close>.\<close>

definition rt_thread_delay_until :: "cpuid \<Rightarrow> u32 \<Rightarrow> u32 \<Rightarrow> kernel \<Rightarrow> (kernel \<times> outcome \<times> u32) res" where
  "rt_thread_delay_until c tk inc_tick s =
    (case rt_thread_self c s of None \<Rightarrow> Inl AssertFail
     | Some t \<Rightarrow>
        (let s = upd_thread t (\<lambda>th. th\<lparr>error := RT_EOK\<rparr>) s; cur_tick = rt_tick_get s in
         if cur_tick - tk < inc_tick
         then
           (let tk = tk + inc_tick; left_tick = tk - cur_tick in
            and_then (rt_thread_suspend c t s) (\<lambda>(s, _).
            and_then (arm_thread_timer c t left_tick s) (\<lambda>s.
            and_then (rt_schedule c s) (\<lambda>s. Inr (s, Blocked, tk)))))
         else Inr (s, Return (error (threads s t)), cur_tick)))"

text \<open>
  One round of \<open>_timer_thread_entry\<close> up to \<open>rt_soft_timer_check\<close>: without soft timers the timer thread
  suspends itself, otherwise it sleeps until the first is due.
\<close>

definition timer_thread_wait :: "cpuid \<Rightarrow> kernel \<Rightarrow> (kernel \<times> outcome) res" where
  "timer_thread_wait c s =
    (case timer_list_next_timeout SoftTimers s of
       None \<Rightarrow> (case rt_thread_self c s of None \<Rightarrow> Inl AssertFail
         | Some t \<Rightarrow> and_then (rt_thread_suspend c t s) (\<lambda>(s, _).
             and_then (rt_schedule c s) (\<lambda>s. Inr (s, Blocked))))
     | Some next_timeout \<Rightarrow>
         if next_timeout - rt_tick_get s < RT_TICK_MAX div 2
         then rt_thread_delay c (next_timeout - rt_tick_get s) s
         else Inr (s, Return RT_EOK))"

subsection \<open>Which timers are due\<close>

lemma delay_cong:
  assumes "timers s' = timers s" "rt_tick_get s' = rt_tick_get s"
  shows "delay s' = delay s"
  using assms by (simp add: delay_def fun_eq_iff)

lemma timers_wf_cong:
  assumes "timers s' = timers s" "timer_q s' = timer_q s" "rt_tick_get s' = rt_tick_get s"
  shows "timers_wf s' = timers_wf s"
  using assms delay_cong [OF assms(1,3)] by (simp add: timers_wf_def timer_active_def)

lemma due_iff:
  assumes "unat (due - now) < 0x7fffffff"
  shows "now - (due :: u32) < RT_TICK_MAX div 2 \<longleftrightarrow> due = now"
proof (cases "due = now")
  case True
  then show ?thesis by (simp add: RT_TICK_HALF)
next
  case False
  define d where "d = unat (due - now)"
  have d: "0 < d" "d < 0x7fffffff"
    using False assms by (simp_all add: d_def unat_gt_0)
  have "now - due = - (due - now)" by simp
  also have "\<dots> = - word_of_nat d" by (simp add: d_def)
  also have "\<dots> = word_of_int (- int d + 2 ^ 32)"
    by (simp add: word_of_int_2p_len [where 'a = 32, simplified])
  finally have "uint (now - due) = uint (word_of_int (- int d + 2 ^ 32) :: u32)" by (rule arg_cong)
  also have "\<dots> = - int d + 2 ^ 32" by (rule uint_of_int_small) (use d in simp_all)
  finally have "0x7fffffff < uint (now - due)" using d by simp
  then show ?thesis using False by (simp add: RT_TICK_HALF word_less_def)
qed

lemma timer_due_iff:
  assumes "timers_wf s" "tm \<in> set (timer_q s q)"
  shows "rt_tick_get s - timeout_tick (timers s tm) < RT_TICK_MAX div 2 \<longleftrightarrow> delay s tm = 0"
proof -
  have "delay s tm < 0x7fffffff" using assms by (auto simp: timers_wf_def)
  from due_iff [OF this [unfolded delay_def]] show ?thesis by (simp add: delay_def unat_eq_zero)
qed

subsection \<open>Waking sleepers\<close>

definition woken :: "rt_thread \<Rightarrow> rt_thread" where
  "woken th = set_stat (if oncpu th \<noteq> RT_CPU_DETACHED then RT_THREAD_RUNNING else RT_THREAD_READY)
     (th\<lparr>error := - RT_ETIMEOUT\<rparr>)"

lemma insert_thread_timers [simp]:
  "timers (rt_schedule_insert_thread c t s) = timers s" "timer_q (rt_schedule_insert_thread c t s) = timer_q s"
  "tick (cpus (rt_schedule_insert_thread c t s) c') = tick (cpus s c')"
  "irq_nest (cpus (rt_schedule_insert_thread c t s) c') = irq_nest (cpus s c')"
  by (auto simp: rt_schedule_insert_thread_def Let_def list_defs rt_hw_ipi_send_def)

lemma list_remove_timers [simp]:
  "timers (rt_list_remove t s) = timers s" "timer_q (rt_list_remove t s) = timer_q s"
  by (simp_all add: rt_list_remove_def)

lemma thread_timeout_in_irq:
  assumes "sched_inv s" "c < RT_CPUS_NR" "irq_nest (cpus s c) \<noteq> 0" "thread_stat s t = RT_THREAD_SUSPEND"
  shows "\<exists>s'. thread_timeout c t s = Inr s' \<and> sched_inv s' \<and> threads s' = (threads s)(t := woken (threads s t))
    \<and> timers s' = timers s \<and> timer_q s' = timer_q s \<and> rt_tick_get s' = rt_tick_get s
    \<and> irq_nest (cpus s' c) = irq_nest (cpus s c)"
proof -
  let ?s = "rt_schedule_insert_thread c t (rt_list_remove t (upd_thread t (\<lambda>th. th\<lparr>error := - RT_ETIMEOUT\<rparr>) s))"
  have "rt_schedule c ?s = Inr (upd_cpu c (\<lambda>p. p\<lparr>irq_switch_flag := 1\<rparr>) ?s)"
    by (rule rt_schedule_in_irq) (use assms(3) in simp)
  then have r: "thread_timeout c t s = Inr (upd_cpu c (\<lambda>p. p\<lparr>irq_switch_flag := 1\<rparr>) ?s)"
    using assms(4) by (simp add: thread_timeout_def Let_def)
  show ?thesis
    using thread_timeout_sched_inv [OF assms(1,2) r] r
    by (auto simp: insert_thread_threads woken_def rt_tick_get_def)
qed

text \<open>One round of the loop, for a timer inside a thread.\<close>

lemma fire_thread_timer:
  assumes "sched_inv s" "timers_wf s" "c < RT_CPUS_NR" "irq_nest (cpus s c) \<noteq> 0"
    "timer_q s HardTimers = ThreadTimer u # rest" "thread_stat s u = RT_THREAD_SUSPEND"
  shows "\<exists>s'. and_then (timeout_func cb c (ThreadTimer u) (timer_fire HardFiring (ThreadTimer u) s))
        (\<lambda>s. and_then (timer_rearm HardFiring c (ThreadTimer u) s) (\<lambda>s'. Inr (rt_tick_get s, s')))
      = Inr (rt_tick_get s, s')
    \<and> sched_inv s' \<and> timers_wf s' \<and> threads s' = (threads s)(u := woken (threads s u))
    \<and> timer_q s' HardTimers = rest \<and> rt_tick_get s' = rt_tick_get s
    \<and> irq_nest (cpus s' c) = irq_nest (cpus s c) \<and> delay s' = delay s
    \<and> (\<forall>t. timer_init_tick (timers s' t) = timer_init_tick (timers s t) \<and> timer_periodic (timers s' t) = timer_periodic (timers s t))"
proof -
  let ?tm = "ThreadTimer u"
  let ?f = "timer_fire HardFiring ?tm s"
  have np: "\<not> timer_periodic (timers s ?tm)" and hf: "timer_q s HardFiring = []"
    using assms(2) by (simp_all add: timers_wf_def timer_periodic_def)
  have f: "threads ?f = threads s" "cpus ?f = cpus s" "queues ?f = queues s"
    "ready_priority_group ?f = ready_priority_group s"
    "timers ?f = (timers s)(?tm := deactivate (timers s ?tm))"
    "timer_q ?f = (\<lambda>q. removeAll ?tm (timer_q s q))(HardFiring := [?tm])"
    using np hf by (simp_all add: timer_fire_def Let_def timer_remove_def)
  have "sched_inv ?f" by (rule sched_inv_frame [OF assms(1)]) (simp_all add: f)
  then obtain s2 where s2: "thread_timeout c u ?f = Inr s2" "sched_inv s2"
    "threads s2 = (threads s)(u := woken (threads s u))" "timers s2 = timers ?f" "timer_q s2 = timer_q ?f"
    "rt_tick_get s2 = rt_tick_get s" "irq_nest (cpus s2 c) = irq_nest (cpus s c)"
    using thread_timeout_in_irq [of ?f c u] assms(3,4,6) f
    by (auto simp: rt_tick_get_def thread_stat_def)
  let ?s3 = "timer_remove ?tm s2"
  have np2: "\<not> timer_periodic (timers ?s3 ?tm)"
    using np s2(4) f(5) by (simp add: timer_periodic_def timer_remove_def)
  have re: "timer_rearm HardFiring c ?tm s2 = Inr ?s3"
    using s2(5) f(6) np2 by (simp add: timer_rearm_def Let_def)
  let ?w = "upd_timer ?tm deactivate (timer_remove ?tm s)"
  have tw: "timers ?s3 = timers ?w" "timer_q ?s3 = timer_q ?w" "rt_tick_get ?s3 = rt_tick_get ?w"
    using s2 f hf by (auto simp: timer_remove_def rt_tick_get_def fun_eq_iff)
  have "timers_wf ?s3" using timers_wf_cong [OF tw] timers_wf_deactivate [OF assms(2)] by simp
  moreover have "delay ?s3 = delay s"
    using tw s2(6) by (auto simp: delay_def fun_eq_iff rt_tick_get_def timer_remove_def)
  moreover have "timer_q ?s3 HardTimers = rest"
  proof -
    have "distinct (timer_q s HardTimers)" using assms(2) by (simp add: timers_wf_def)
    then have "removeAll ?tm rest = rest" using assms(5) by (simp add: removeAll_id)
    then show ?thesis using assms(5) by (simp add: tw(2)) (simp add: timer_remove_def)
  qed
  moreover have "rt_tick_get ?s3 = rt_tick_get s" using s2(6) by (simp add: rt_tick_get_def)
  moreover have "timer_init_tick (timers ?s3 t) = timer_init_tick (timers s t) \<and> timer_periodic (timers ?s3 t) = timer_periodic (timers s t)" for t
    unfolding tw(1) by (simp add: timer_periodic_def timer_remove_def)
  ultimately show ?thesis using s2 re by (simp add: timeout_func_def)
qed

text \<open>
  The timers a check is made for: those of suspended threads, and application timers whose function returns and leaves the
  kernel as it is; a periodic one has a period, shorter than half the range of the tick.
\<close>

definition timer_served :: "callback \<Rightarrow> cpuid \<Rightarrow> kernel \<Rightarrow> timer_id \<Rightarrow> bool" where
  "timer_served cb c s tm \<longleftrightarrow> (case tm of ThreadTimer u \<Rightarrow> thread_stat s u = RT_THREAD_SUSPEND
     | UserTimer n \<Rightarrow> (\<forall>x. cb n c x = Inr x) \<and> (timer_periodic (timers s tm) \<longrightarrow>
         0 < timer_init_tick (timers s tm) \<and> timer_init_tick (timers s tm) < RT_TICK_MAX div 2))"

text \<open>A timer that fires and is periodic is in the list again, due after its period; any other is gone.\<close>

lemma fire_user_timer:
  assumes "sched_inv s" "timers_wf s" "timer_q s HardTimers = UserTimer n # rest" "timer_served cb c s (UserTimer n)"
  shows "\<exists>s'. and_then (timeout_func cb c (UserTimer n) (timer_fire HardFiring (UserTimer n) s))
        (\<lambda>s. and_then (timer_rearm HardFiring c (UserTimer n) s) (\<lambda>s'. Inr (rt_tick_get s, s')))
      = Inr (rt_tick_get s, s')
    \<and> sched_inv s' \<and> timers_wf s' \<and> threads s' = threads s
    \<and> (if timer_periodic (timers s (UserTimer n))
       then timer_q s' HardTimers = timer_q (timer_enqueue (UserTimer n) s) HardTimers \<and> delay s' = (delay s)(UserTimer n := unat (timer_init_tick (timers s (UserTimer n))))
       else timer_q s' HardTimers = rest \<and> delay s' = delay s)
    \<and> rt_tick_get s' = rt_tick_get s \<and> irq_nest (cpus s' c) = irq_nest (cpus s c)
    \<and> (\<forall>t. timer_init_tick (timers s' t) = timer_init_tick (timers s t) \<and> timer_periodic (timers s' t) = timer_periodic (timers s t))"
proof -
  let ?tm = "UserTimer n"
  let ?f = "timer_fire HardFiring ?tm s"
  have hf: "timer_q s HardFiring = []" using assms(2) by (simp add: timers_wf_def)
  have cb: "timeout_func cb c ?tm ?f = Inr ?f" using assms(4) by (simp add: timeout_func_def timer_served_def)
  have ac: "timer_active s ?tm" and hl: "timer_list_of (timers s ?tm) = HardTimers"
    using assms(2,3) unfolding timers_wf_def by (metis list.set_intros(1))+
  have ne: "timer_q ?f HardFiring \<noteq> []" by (simp add: timer_fire_def Let_def)
  show ?thesis
  proof (cases "timer_periodic (timers s ?tm)")
    case True
    let ?x = "timer_enqueue ?tm (upd_timer ?tm deactivate (timer_remove ?tm ?f))"
    have f: "timer_remove ?tm ?f = timer_remove ?tm s"
      using True hf by (auto simp: timer_fire_def timer_remove_def Let_def fun_eq_iff)
    have T: "timers ?x = timers (timer_enqueue ?tm s)"
      unfolding f by (auto simp: timer_enqueue_timers rt_tick_get_def fun_eq_iff timer_remove_def)
    have "timer_q ?x q = timer_q (timer_enqueue ?tm s) q" for q
      unfolding timer_enqueue_q T unfolding f by (simp add: Let_def timer_remove_def timer_list_of_def)
    moreover have "rt_errno (timer_enqueue ?tm y) = rt_errno y" for y by (simp add: timer_enqueue_def Let_def timer_remove_def upd_defs)
    ultimately have x: "?x = timer_enqueue ?tm s" using T unfolding f by (auto intro!: kernel.equality simp: timer_remove_def upd_defs)
    have "timer_rearm HardFiring c ?tm ?f = rt_timer_start c ?tm (upd_timer ?tm deactivate (timer_remove ?tm s))"
      using ne True ac f by (simp add: timer_rearm_def Let_def timer_remove_def timer_active_def)
    also have "\<dots> = Inr (timer_enqueue ?tm s)"
      using hl x [unfolded f] by (simp add: rt_timer_start_def Let_def timer_enqueue_timers timer_list_of_def split: if_splits)
    finally have re: "timer_rearm HardFiring c ?tm ?f = Inr (timer_enqueue ?tm s)" .
    have "timers_wf (timer_enqueue ?tm s)"
      using assms(4) True by (intro timers_wf_enqueue [OF assms(2)]) (simp add: timer_served_def)
    then show ?thesis using cb re assms(1) True
      by (auto simp: timer_enqueue_delay timer_enqueue_timers timer_periodic_def fun_eq_iff rt_tick_get_def
        timer_fire_def Let_def timer_remove_def)
  next
    case False
    let ?w = "upd_timer ?tm deactivate (timer_remove ?tm s)"
    have f: "timer_remove ?tm ?f = ?w" using False hf by (auto simp: timer_fire_def timer_remove_def Let_def fun_eq_iff intro!: kernel.equality)
    have re: "timer_rearm HardFiring c ?tm ?f = Inr ?w"
      using ne False by (simp add: timer_rearm_def Let_def f) (simp add: timer_periodic_def timer_remove_def)
    have "distinct (timer_q s HardTimers)" using assms(2) by (simp add: timers_wf_def)
    then have "removeAll ?tm rest = rest" using assms(3) by (simp add: removeAll_id)
    then have "timer_q ?w HardTimers = rest" using assms(3) by (simp add: timer_remove_def)
    moreover have "sched_inv ?w" by (rule sched_inv_frame [OF assms(1)]) simp_all
    ultimately show ?thesis using cb re timers_wf_deactivate [OF assms(2)] False
      by (auto simp: timer_periodic_def delay_def fun_eq_iff rt_tick_get_def timer_remove_def timer_fire_def Let_def)
  qed
qed

text \<open>One round for either kind of timer.\<close>

definition rearms :: "kernel \<Rightarrow> timer_id \<Rightarrow> bool" where
  "rearms s tm \<longleftrightarrow> timer_periodic (timers s tm)"

lemma fire_timer:
  assumes "sched_inv s" "timers_wf s" "c < RT_CPUS_NR" "irq_nest (cpus s c) \<noteq> 0"
    "timer_q s HardTimers = tm # rest" "timer_served cb c s tm"
  shows "\<exists>s'. and_then (timeout_func cb c tm (timer_fire HardFiring tm s))
        (\<lambda>s. and_then (timer_rearm HardFiring c tm s) (\<lambda>s'. Inr (rt_tick_get s, s')))
      = Inr (rt_tick_get s, s')
    \<and> sched_inv s' \<and> timers_wf s'
    \<and> threads s' = (\<lambda>u. if tm = ThreadTimer u then woken (threads s u) else threads s u)
    \<and> set (timer_q s' HardTimers) = (if rearms s tm then insert tm (set rest) else set rest)
    \<and> removeAll tm (timer_q s' HardTimers) = rest
    \<and> delay s' = (if rearms s tm then (delay s)(tm := unat (timer_init_tick (timers s tm))) else delay s)
    \<and> rt_tick_get s' = rt_tick_get s \<and> irq_nest (cpus s' c) = irq_nest (cpus s c)
    \<and> (\<forall>t. timer_init_tick (timers s' t) = timer_init_tick (timers s t) \<and> timer_periodic (timers s' t) = timer_periodic (timers s t))"
proof -
  have d: "tm \<notin> set rest" using assms(2,5) unfolding timers_wf_def by (metis distinct.simps(2))
  then have r: "removeAll tm rest = rest" by simp
  show ?thesis
  proof (cases tm)
    case (ThreadTimer u)
    have "\<not> rearms s tm" using assms(2) ThreadTimer by (simp add: timers_wf_def rearms_def timer_periodic_def)
    moreover have "thread_stat s u = RT_THREAD_SUSPEND" using assms(6) ThreadTimer by (simp add: timer_served_def)
    ultimately show ?thesis using fire_thread_timer [OF assms(1-4) assms(5) [unfolded ThreadTimer], of cb] r
      unfolding ThreadTimer by (auto simp: fun_eq_iff)
  next
    case (UserTimer n)
    have hl: "timer_list_of (timers s tm) = HardTimers" using assms(2,5) unfolding timers_wf_def by (metis list.set_intros(1))
    have "set (timer_q (timer_enqueue tm s) HardTimers) = insert tm (set rest)"
      "removeAll tm (timer_q (timer_enqueue tm s) HardTimers) = rest"
      using assms(5) hl r by (simp_all add: timer_enqueue_q Let_def)
    moreover obtain s' where s': "and_then (timeout_func cb c tm (timer_fire HardFiring tm s))
        (\<lambda>s. and_then (timer_rearm HardFiring c tm s) (\<lambda>s'. Inr (rt_tick_get s, s'))) = Inr (rt_tick_get s, s')"
      "sched_inv s'" "timers_wf s'" "threads s' = threads s" "if timer_periodic (timers s tm)
       then timer_q s' HardTimers = timer_q (timer_enqueue tm s) HardTimers \<and> delay s' = (delay s)(tm := unat (timer_init_tick (timers s tm)))
       else timer_q s' HardTimers = rest \<and> delay s' = delay s"
      "rt_tick_get s' = rt_tick_get s" "irq_nest (cpus s' c) = irq_nest (cpus s c)"
      "\<forall>t. timer_init_tick (timers s' t) = timer_init_tick (timers s t) \<and> timer_periodic (timers s' t) = timer_periodic (timers s t)"
      using fire_user_timer [OF assms(1,2) assms(5,6) [unfolded UserTimer], folded UserTimer] by blast
    ultimately show ?thesis using r UserTimer unfolding rearms_def
      by (intro exI [of _ s'] conjI) (assumption | simp split: if_splits del: and_then_Inr_iff)+
  qed
qed

definition due :: "kernel \<Rightarrow> timer_id list" where
  "due s = filter (\<lambda>tm. delay s tm = 0) (timer_q s HardTimers)"

text \<open>The effect of the whole check, from \<open>s\<close> to \<open>s'\<close>.\<close>

definition timers_checked :: "kernel \<Rightarrow> kernel \<Rightarrow> bool" where
  "timers_checked s s' \<longleftrightarrow>
     set (timer_q s' HardTimers) = {tm \<in> set (timer_q s HardTimers). delay s tm \<noteq> 0 \<or> timer_periodic (timers s tm)}
     \<and> filter (\<lambda>tm. delay s tm \<noteq> 0) (timer_q s' HardTimers) = filter (\<lambda>tm. delay s tm \<noteq> 0) (timer_q s HardTimers)
     \<and> (\<forall>tm. delay s' tm = (if tm \<in> set (due s) \<and> timer_periodic (timers s tm) then unat (timer_init_tick (timers s tm)) else delay s tm))
     \<and> (\<forall>u. threads s' u = (if ThreadTimer u \<in> set (due s) then woken (threads s u) else threads s u))"

lemma timers_checked_step:
  assumes q: "timer_q s HardTimers = tm # rest" "delay s tm = 0"
    and s1: "threads s1 = (\<lambda>u. if tm = ThreadTimer u then woken (threads s u) else threads s u)"
      "set (timer_q s1 HardTimers) = (if rearms s tm then insert tm (set rest) else set rest)"
      "removeAll tm (timer_q s1 HardTimers) = rest"
      "\<And>t. timer_periodic (timers s1 t) = timer_periodic (timers s t)"
      "\<And>t. timer_init_tick (timers s1 t) = timer_init_tick (timers s t)"
    and d1: "\<And>t. t \<noteq> tm \<Longrightarrow> delay s1 t = delay s t" and due: "due s = tm # due s1" "tm \<notin> set (due s1)"
    and again: "delay s1 tm = (if rearms s tm then unat (timer_init_tick (timers s tm)) else 0)" "rearms s tm \<Longrightarrow> delay s1 tm \<noteq> 0"
    and c: "timers_checked s1 s'"
  shows "timers_checked s s'"
proof -
  have f: "filter (\<lambda>t. delay s t \<noteq> 0) xs = removeAll tm (filter (\<lambda>t. delay s1 t \<noteq> 0) xs)" for xs
  proof (induction xs)
    case (Cons a xs)
    then show ?case using q(2) d1 by (cases "a = tm") simp_all
  qed simp
  have "set (timer_q s' HardTimers) = {t \<in> set (timer_q s HardTimers). delay s t \<noteq> 0 \<or> timer_periodic (timers s t)}"
  proof -
    have n: "tm \<notin> set rest" using s1(3) by (metis Diff_iff set_removeAll singletonI)
    have "delay s1 t \<noteq> 0 \<or> timer_periodic (timers s1 t) \<longleftrightarrow> delay s t \<noteq> 0 \<or> timer_periodic (timers s t)" if "t \<in> set rest" for t
      using d1 s1(4) n that by metis
    then show ?thesis using c again(2) q n unfolding timers_checked_def s1(2) by (auto simp: rearms_def s1(4))
  qed
  moreover have "filter (\<lambda>t. delay s t \<noteq> 0) (timer_q s' HardTimers) = filter (\<lambda>t. delay s t \<noteq> 0) (timer_q s HardTimers)"
  proof -
    have "filter (\<lambda>t. delay s t \<noteq> 0) (timer_q s' HardTimers) = filter (\<lambda>t. delay s t \<noteq> 0) (timer_q s1 HardTimers)"
      using c unfolding f timers_checked_def by simp
    also have "\<dots> = filter (\<lambda>t. delay s t \<noteq> 0) (removeAll tm (timer_q s1 HardTimers))"
      using q(2) by (simp add: removeAll_filter_not_eq) (rule filter_cong, auto)
    finally show ?thesis unfolding s1(3) using q by simp
  qed
  moreover have "delay s' t = (if t \<in> set (due s) \<and> timer_periodic (timers s t) then unat (timer_init_tick (timers s t)) else delay s t)" for t
    using c due d1 [of t] again(1) q(2) s1(4,5) unfolding timers_checked_def by (cases "t = tm") (auto simp: rearms_def)
  moreover have "threads s' u = (if ThreadTimer u \<in> set (due s) then woken (threads s u) else threads s u)" for u
    using c due s1(1) unfolding timers_checked_def by auto
  ultimately show ?thesis unfolding timers_checked_def by blast
qed

lemma timer_check_loop_ok:
  assumes "sched_inv s" "timers_wf s" "c < RT_CPUS_NR" "irq_nest (cpus s c) \<noteq> 0"
    "\<And>tm. tm \<in> set (timer_q s HardTimers) \<Longrightarrow> timer_served cb c s tm" "length (due s) < fuel"
  shows "\<exists>s'. timer_check_loop fuel cb c (rt_tick_get s) s = Some (Inr s') \<and> sched_inv s' \<and> timers_wf s' \<and> timers_checked s s'"
  using assms
proof (induction fuel arbitrary: s)
  case 0
  then show ?case by simp
next
  case (Suc n)
  show ?case
  proof (cases "timer_q s HardTimers")
    case Nil
    then show ?thesis using Suc.prems(1,2) by (intro exI [of _ s]) (simp add: timers_checked_def due_def)
  next
    case (Cons tm rest)
    note q = Cons
    have dist: "tm \<notin> set rest" using Suc.prems(2) q unfolding timers_wf_def by (metis distinct.simps(2))
    have du: "rt_tick_get s - timeout_tick (timers s tm) < RT_TICK_MAX div 2 \<longleftrightarrow> delay s tm = 0"
      by (rule timer_due_iff [OF Suc.prems(2), of _ HardTimers]) (simp add: q)
    show ?thesis
    proof (cases "delay s tm = 0")
      case True
      have sv: "timer_served cb c s tm" using Suc.prems(5) q by simp
      obtain s1 where s1: "and_then (timeout_func cb c tm (timer_fire HardFiring tm s))
            (\<lambda>s. and_then (timer_rearm HardFiring c tm s) (\<lambda>s'. Inr (rt_tick_get s, s'))) = Inr (rt_tick_get s, s1)"
        "sched_inv s1" "timers_wf s1"
        "threads s1 = (\<lambda>u. if tm = ThreadTimer u then woken (threads s u) else threads s u)"
        "set (timer_q s1 HardTimers) = (if rearms s tm then insert tm (set rest) else set rest)"
        "removeAll tm (timer_q s1 HardTimers) = rest"
        "delay s1 = (if rearms s tm then (delay s)(tm := unat (timer_init_tick (timers s tm))) else delay s)"
        "rt_tick_get s1 = rt_tick_get s" "irq_nest (cpus s1 c) = irq_nest (cpus s c)"
        "\<And>t. timer_init_tick (timers s1 t) = timer_init_tick (timers s t)" "\<And>t. timer_periodic (timers s1 t) = timer_periodic (timers s t)"
        using fire_timer [OF Suc.prems(1-4) q sv] by blast
      have again: "rearms s tm \<Longrightarrow> delay s1 tm \<noteq> 0"
        using sv Suc.prems(2) s1(7) by (auto simp: timer_served_def rearms_def timer_periodic_def timers_wf_def unat_eq_zero split: timer_id.splits)
      have d1: "delay s1 t = delay s t" if "t \<noteq> tm" for t using s1(7) that by simp
      have d2: "delay s1 t = delay s t" if "t \<in> set rest" for t using d1 dist that by metis
      have out: "removeAll tm (filter P (timer_q s1 HardTimers)) = filter P rest" for P
        unfolding s1(6) [symmetric] by (simp add: removeAll_filter_not_eq conj_commute)
      have "due s1 = removeAll tm (due s1)"
        using again s1(5) dist by (intro removeAll_id [symmetric]) (auto simp: due_def)
      also have "\<dots> = filter (\<lambda>t. delay s1 t = 0) rest" unfolding due_def by (rule out)
      also have "\<dots> = filter (\<lambda>t. delay s t = 0) rest" by (rule filter_cong) (simp_all add: d2)
      finally have du1: "due s1 = filter (\<lambda>t. delay s t = 0) rest" .
      have nd1: "tm \<notin> set (due s1)" using dist unfolding du1 by simp
      have dtm: "delay s1 tm = (if rearms s tm then unat (timer_init_tick (timers s tm)) else 0)" using s1(7) True by simp
      from du1 have due1: "due s = tm # due s1" using q True by (simp add: due_def)
      have sv1: "timer_served cb c s1 t" if "t \<in> set (timer_q s1 HardTimers)" for t
      proof -
        have t: "timer_served cb c s t" using that s1(5) q sv Suc.prems(5) by (auto split: if_splits)
        have "\<not> (\<exists>u. tm = ThreadTimer u \<and> t = ThreadTimer u)"
        proof
          assume "\<exists>u. tm = ThreadTimer u \<and> t = ThreadTimer u"
          then have "t = tm" "\<not> rearms s tm" using Suc.prems(2) by (auto simp: timers_wf_def rearms_def timer_periodic_def)
          then show False using that s1(5) dist by simp
        qed
        then show ?thesis using t s1(4,10,11) by (auto simp: timer_served_def thread_stat_def split: timer_id.splits)
      qed
      have "irq_nest (cpus s1 c) \<noteq> 0" "length (due s1) < n" using Suc.prems(4,6) s1(9) due1 by simp_all
      from Suc.IH [OF s1(2,3) Suc.prems(3) this(1) sv1 this(2)] obtain s' where
        s': "timer_check_loop n cb c (rt_tick_get s1) s1 = Some (Inr s')" "sched_inv s'" "timers_wf s'" "timers_checked s1 s'"
        by blast
      have "timers_checked s s'"
        by (rule timers_checked_step [OF q True s1(4,5,6,11,10) d1 due1 nd1 dtm again s'(4)])
      moreover have "timer_check_loop (Suc n) cb c (rt_tick_get s) s = Some (Inr s')"
        using q du True s1(1,8) s'(1) by (simp del: and_then_Inr_iff)
      ultimately show ?thesis using s'(2,3) by blast
    next
      case False
      have nz: "delay s t \<noteq> 0" if "t \<in> set (timer_q s HardTimers)" for t
      proof -
        have "sorted (map (delay s) (tm # rest))" using Suc.prems(2) q by (metis timers_wf_def)
        then have "delay s tm \<le> delay s t" using that q by auto
        with False show ?thesis by simp
      qed
      then have "due s = []" by (auto simp: due_def)
      then have "timers_checked s s" using nz by (auto simp: timers_checked_def)
      moreover have "timer_check_loop (Suc n) cb c (rt_tick_get s) s = Some (Inr s)" using q du False by simp
      ultimately show ?thesis using Suc.prems(1,2) by blast
    qed
  qed
qed

subsection \<open>A timer of period zero\<close>

definition zero_timer :: "nat \<Rightarrow> kernel \<Rightarrow> bool" where
  "zero_timer n s \<longleftrightarrow> timer_q s HardTimers = [UserTimer n] \<and> timer_q s HardFiring = []
     \<and> timer_flag (timers s (UserTimer n)) = RT_TIMER_FLAG_ACTIVATED OR RT_TIMER_FLAG_PERIODIC
     \<and> timer_init_tick (timers s (UserTimer n)) = 0 \<and> timeout_tick (timers s (UserTimer n)) = rt_tick_get s"

lemma zero_timer_round:
  assumes "zero_timer n s" "\<And>s. cb n c s = Inr s"
  shows "\<exists>s'. and_then (timeout_func cb c (UserTimer n) (timer_fire HardFiring (UserTimer n) s))
        (\<lambda>s. and_then (timer_rearm HardFiring c (UserTimer n) s) (\<lambda>s'. Inr (rt_tick_get s, s')))
      = Inr (rt_tick_get s, s') \<and> zero_timer n s' \<and> rt_tick_get s' = rt_tick_get s"
  using assms
  by (simp add: zero_timer_def timeout_func_def timer_fire_def timer_rearm_def timer_periodic_def Let_def
      timer_remove_def timer_active_def rt_timer_start_def timer_enqueue_def deactivate_def rt_tick_get_def
      timer_list_of_def timer_flag_defs)

lemma zero_timer_loops:
  assumes "zero_timer n s" "\<And>s. cb n c s = Inr s"
  shows "timer_check_loop fuel cb c (rt_tick_get s) s = None"
  using assms(1)
proof (induction fuel arbitrary: s)
  case 0
  then show ?case by simp
next
  case (Suc fuel)
  obtain s' where s': "and_then (timeout_func cb c (UserTimer n) (timer_fire HardFiring (UserTimer n) s))
        (\<lambda>s. and_then (timer_rearm HardFiring c (UserTimer n) s) (\<lambda>s'. Inr (rt_tick_get s, s')))
      = Inr (rt_tick_get s, s')" "zero_timer n s'" "rt_tick_get s' = rt_tick_get s"
    using zero_timer_round [of n s cb c] Suc.prems assms(2) by blast
  have "timer_q s HardTimers = [UserTimer n]" "rt_tick_get s - timeout_tick (timers s (UserTimer n)) = 0"
    using Suc.prems by (simp_all add: zero_timer_def)
  with s' Suc.IH [OF s'(2)] show ?case by (simp add: RT_TICK_HALF del: and_then_Inr_iff)
qed

lemma tick_from_millisecond_nonneg:
  assumes "0 \<le> sint ms"
  shows "uint (rt_tick_from_millisecond ms) = sint ms"
proof -
  have "(1000 * (sint ms mod 1000) + 999) div 1000 = sint ms mod 1000" by simp
  then have "rt_tick_from_millisecond ms = word_of_int (1000 * (sint ms div 1000)) + word_of_int (sint ms mod 1000)"
    using assms by (simp only: rt_tick_from_millisecond_def not_less if_False if_not_P)
  also have "\<dots> = word_of_int (1000 * (sint ms div 1000) + sint ms mod 1000)" by (simp only: of_int_add)
  also have "1000 * (sint ms div 1000) + sint ms mod 1000 = sint ms" by simp
  finally have "rt_tick_from_millisecond ms = ms" by simp
  then show ?thesis using sint_nonneg [OF assms] by simp
qed

subsection \<open>Going to sleep\<close>

lemma rt_timer_control_set_time:
  "x < RT_TICK_MAX div 2 \<Longrightarrow> rt_timer_control tm (SET_TIME x) s = Inr (upd_timer tm (\<lambda>r. r\<lparr>timer_init_tick := x\<rparr>) s, None)"
  by (simp add: rt_timer_control_def)

lemma timers_wf_init_tick:
  assumes "timers_wf s"
  shows "timers_wf (upd_timer tm (\<lambda>r. r\<lparr>timer_init_tick := x\<rparr>) s)"
proof -
  let ?s = "upd_timer tm (\<lambda>r. r\<lparr>timer_init_tick := x\<rparr>) s"
  have "delay ?s = delay s" by (simp add: delay_def rt_tick_get_def fun_eq_iff)
  moreover have "timer_list_of (timers ?s t) = timer_list_of (timers s t)"
    "timer_flag (timers ?s t) = timer_flag (timers s t)" for t by simp_all
  ultimately show ?thesis using assms unfolding timers_wf_def timer_active_def by simp
qed

text \<open>Arming the timer of a thread: it is pending and due after exactly the given number of ticks.\<close>

lemma arm_thread_timer_ok:
  assumes "timers_wf s" "ticks < RT_TICK_MAX div 2"
  shows "\<exists>s'. arm_thread_timer c t ticks s = Inr s' \<and> timers_wf s' \<and> sched_inv s' = sched_inv s
    \<and> ThreadTimer t \<in> set (timer_q s' HardTimers) \<and> delay s' (ThreadTimer t) = unat ticks
    \<and> threads s' = threads s \<and> queues s' = queues s \<and> cpus s' = cpus s
    \<and> ready_priority_group s' = ready_priority_group s
    \<and> sems s' = sems s \<and> mutexes s' = mutexes s \<and> events s' = events s"
proof -
  let ?s = "upd_timer (ThreadTimer t) (\<lambda>r. r\<lparr>timer_init_tick := ticks\<rparr>) s"
  let ?e = "timer_enqueue (ThreadTimer t) ?s"
  have w: "timers_wf ?s" by (rule timers_wf_init_tick [OF assms(1)])
  have hard: "timer_list_of (timers ?s (ThreadTimer t)) = HardTimers" using assms(1) by (simp add: timers_wf_def)
  have "timer_flag (timers ?e (ThreadTimer t)) AND RT_TIMER_FLAG_SOFT_TIMER = 0"
    using hard by (simp add: timer_enqueue_timers timer_list_of_def split: if_splits)
  then have "arm_thread_timer c t ticks s = Inr ?e"
    using assms(2) by (simp add: arm_thread_timer_def rt_timer_control_set_time rt_timer_start_def Let_def)
  moreover have "timers_wf ?e" using w assms(2) by (intro timers_wf_enqueue) simp_all
  moreover have "ThreadTimer t \<in> set (timer_q ?e HardTimers)" using hard by (simp add: timer_enqueue_q Let_def)
  moreover have "delay ?e (ThreadTimer t) = unat ticks" by (simp add: timer_enqueue_delay)
  moreover have "sched_inv ?s = sched_inv s"
    by (rule iffI; rule sched_inv_frame, assumption; simp)
  ultimately show ?thesis by simp
qed


subsection \<open>Properties\<close>

lemma resume_timers_wf:
  assumes "sched_inv s" "timers_wf s" "thread_stat s t = RT_THREAD_SUSPEND"
  shows "timers_wf (fst (rt_thread_resume c t s))" "delay (fst (rt_thread_resume c t s)) = delay s"
    "timer_q (fst (rt_thread_resume c t s)) q = removeAll (ThreadTimer t) (timer_q s q)"
proof -
  let ?x = "fst (rt_thread_resume c t s)" and ?y = "fst (rt_timer_stop (ThreadTimer t) (rt_list_remove t s))"
  have x: "timers ?x = timers ?y" "timer_q ?x = timer_q ?y" "rt_tick_get ?x = rt_tick_get ?y"
    using assms(3) by (simp_all add: rt_thread_resume_def Let_def rt_tick_get_def)
  have w: "timers_wf (rt_list_remove t s)"
    using assms(2) timers_wf_cong [of "rt_list_remove t s" s] by (simp add: rt_tick_get_def rt_list_remove_def)
  then show "timers_wf ?x" using timers_wf_cong [OF x] timers_wf_stop by simp
  have "delay ?y = delay s" by (auto simp: fun_eq_iff delay_def rt_tick_get_def rt_timer_stop_def timer_remove_def)
  then show "delay ?x = delay s" using delay_cong [OF x(1,3)] by simp
  have "ThreadTimer t \<notin> set (timer_q s q)" if "\<not> timer_active (rt_list_remove t s) (ThreadTimer t)"
    using assms(2) that unfolding timers_wf_def timer_active_def by (metis list_remove_timers(1))
  then show "timer_q ?x q = removeAll (ThreadTimer t) (timer_q s q)"
    unfolding x(2) by (simp add: rt_timer_stop_def timer_remove_def)
qed

text \<open>The timer thread is woken when it waits for a soft timer to be started.\<close>

definition wakes_timer_thread :: "timer_id \<Rightarrow> kernel \<Rightarrow> bool" where
  "wakes_timer_thread tm s \<longleftrightarrow> timer_list_of (timers s tm) = SoftTimers \<and> soft_timer_idle s
     \<and> thread_stat s (timer_thread s) = RT_THREAD_SUSPEND"

lemma start_soft_wakes:
  assumes "timers_wf s" "timer_init_tick (timers s tm) < RT_TICK_MAX div 2" "sched_inv s" "c < RT_CPUS_NR"
    and "irq_nest (cpus s c) \<noteq> 0 \<or> (\<exists>cur. current_thread (cpus s c) = Some cur) \<and> stacks_ok s" and "wakes_timer_thread tm s"
  shows "\<exists>s'. rt_timer_start c tm s = Inr s' \<and> sched_inv s' \<and> timers_wf s' \<and> delay s' = delay (timer_enqueue tm s)
    \<and> (\<forall>q. timer_q s' q = removeAll (ThreadTimer (timer_thread s)) (timer_q (timer_enqueue tm s) q))
    \<and> awake (thread_stat s' (timer_thread s))"
proof -
  let ?e = "timer_enqueue tm s" and ?t = "timer_thread s"
  let ?x = "fst (rt_thread_resume c ?t ?e)"
  have su: "thread_stat ?e ?t = RT_THREAD_SUSPEND" and so: "timer_list_of (timers s tm) = SoftTimers"
    using assms(6) by (simp_all add: wakes_timer_thread_def)
  have e: "sched_inv ?e" "timers_wf ?e" using assms(3) timers_wf_enqueue [OF assms(1,2)] by simp_all
  have "timer_flag (timers ?e tm) AND RT_TIMER_FLAG_SOFT_TIMER \<noteq> 0"
    using so by (simp add: timer_enqueue_timers timer_list_of_def split: if_splits)
  then have st: "rt_timer_start c tm s = rt_schedule c ?x"
    using assms(6) su by (simp add: rt_timer_start_def Let_def wakes_timer_thread_def)
  have xi: "sched_inv ?x" by (rule rt_thread_resume_sched_inv [OF e(1)])
  have cp: "irq_nest (cpus ?x c) = irq_nest (cpus s c)" "current_thread (cpus ?x c) = current_thread (cpus s c)"
    by (simp_all add: rt_thread_resume_def Let_def)
  have "stacks_ok ?x" if "stacks_ok s"
    using that su by (auto simp: stacks_ok_def rt_thread_resume_def Let_def insert_thread_threads scheduler_stack_check_def set_stat_def)
  then obtain s' where s': "rt_schedule c ?x = Inr s'"
    using assms(5) rt_schedule_in_irq [of ?x c] rt_schedule_total [OF xi assms(4)] cp by metis
  note o = only_sched_rt_schedule [OF xi assms(4) s']
  note r = resume_timers_wf [OF e su, of c]
  have k: "rt_tick_get s' = rt_tick_get ?x" using only_schedD(9) [OF o] by (simp add: rt_tick_get_def)
  have "timers_wf s'" "delay s' = delay ?x"
    using timers_wf_cong [OF only_schedD(4,5) [OF o] k] delay_cong [OF only_schedD(4) [OF o] k] r(1) by simp_all
  moreover have "awake (thread_stat s' ?t)"
    using rt_thread_resume_stat(1) [OF su, of c] only_sched_suspended(2) [OF o, of ?t] by (simp add: awake_def split: if_splits)
  ultimately show ?thesis
    using st s' r(2,3) only_schedD(5) [OF o] rt_schedule_sched_inv [OF xi assms(4) s'] by auto
qed

lemma start_plain:
  assumes "\<not> wakes_timer_thread tm s"
  shows "rt_timer_start c tm s = Inr (timer_enqueue tm s)"
proof -
  have "timer_flag (timers (timer_enqueue tm s) tm) AND RT_TIMER_FLAG_SOFT_TIMER \<noteq> 0 \<longleftrightarrow> timer_list_of (timers s tm) = SoftTimers"
    by (simp add: timer_enqueue_timers timer_list_of_def)
  then show ?thesis using assms by (auto simp: rt_timer_start_def Let_def wakes_timer_thread_def)
qed

text \<open>
  C33. Starting a timer, hard or soft, with less than half the range of the tick to run, keeps the timer lists in order
  of time across the wrap-around of the tick: every list stays sorted by the time left, the timer is in the list of its kind and
  due after exactly its period, and the other timers of its list keep their place and their time. A soft timer wakes the
  timer thread when that waits without a timer being served: it is awake afterwards, and only its own timer has left the lists.
  The call is made in an interrupt, or by a thread of a core while all stacks are intact.
\<close>

theorem timer_start_keeps_order:
  assumes "timers_wf s" and "timer_init_tick (timers s tm) < RT_TICK_MAX div 2" and "sched_inv s" and "c < RT_CPUS_NR"
    and "irq_nest (cpus s c) \<noteq> 0 \<or> (\<exists>cur. current_thread (cpus s c) = Some cur) \<and> stacks_ok s"
  shows "\<exists>s'. rt_timer_start c tm s = Inr s' \<and> timers_wf s' \<and> sched_inv s' \<and> tm \<in> set (timer_q s' (timer_list_of (timers s tm)))
    \<and> delay s' tm = unat (timer_init_tick (timers s tm)) \<and> (\<forall>t. t \<noteq> tm \<longrightarrow> delay s' t = delay s t)
    \<and> (\<forall>q. removeAll tm (timer_q s' q) = filter (\<lambda>t. t \<noteq> tm \<and> (wakes_timer_thread tm s \<longrightarrow> t \<noteq> ThreadTimer (timer_thread s))) (timer_q s q))
    \<and> (if wakes_timer_thread tm s then awake (thread_stat s' (timer_thread s)) else threads s' = threads s)"
proof (cases "wakes_timer_thread tm s")
  case True
  let ?tt = "ThreadTimer (timer_thread s)"
  obtain s' where s': "rt_timer_start c tm s = Inr s'" "sched_inv s'" "timers_wf s'" "delay s' = delay (timer_enqueue tm s)"
    "\<And>q. timer_q s' q = removeAll ?tt (timer_q (timer_enqueue tm s) q)" "awake (thread_stat s' (timer_thread s))"
    using start_soft_wakes [OF assms True] by blast
  have "tm \<noteq> ?tt" using True assms(1) by (auto simp: wakes_timer_thread_def timers_wf_def)
  then have m: "tm \<in> set (timer_q s' (timer_list_of (timers s tm)))" unfolding s'(5) by (simp add: timer_enqueue_q Let_def)
  have "removeAll tm (timer_q s' q) = filter (\<lambda>t. t \<noteq> tm \<and> (wakes_timer_thread tm s \<longrightarrow> t \<noteq> ?tt)) (timer_q s q)" for q
  proof -
    have "removeAll tm (timer_q s' q) = removeAll ?tt (removeAll tm (timer_q (timer_enqueue tm s) q))"
      unfolding s'(5) by (simp add: removeAll_filter_not_eq conj_commute)
    also have "removeAll tm (timer_q (timer_enqueue tm s) q) = removeAll tm (timer_q s q)" by (simp add: timer_enqueue_q Let_def)
    finally show ?thesis using True by (simp add: removeAll_filter_not_eq) (rule filter_cong; auto)
  qed
  then show ?thesis using s'(1-4,6) m True by (intro exI [of _ s']) (simp add: timer_enqueue_delay)
next
  case False
  have "removeAll tm (timer_q (timer_enqueue tm s) q) = filter (\<lambda>t. t \<noteq> tm) (timer_q s q)" for q
  proof -
    have "removeAll tm (timer_q (timer_enqueue tm s) q) = removeAll tm (timer_q s q)" by (simp add: timer_enqueue_q Let_def)
    then show ?thesis by (simp add: removeAll_filter_not_eq) (rule filter_cong; auto)
  qed
  then show ?thesis using start_plain [OF False, of c] False assms(3) timers_wf_enqueue [OF assms(1,2)]
    by (simp add: timer_enqueue_q timer_enqueue_delay Let_def)
qed

lemma blank_timers_wf: "timers_wf blank_kernel"
  by (simp add: timers_wf_def blank_kernel_def timer_active_def timer_list_of_def)

text \<open>
  Example: on core 0, in the tick interrupt, thread 2 sleeps until now and thread 3 for five more ticks.
\<close>

definition demo_asleep :: kernel where
  "demo_asleep = rt_interrupt_enter 0 (upd_timer (ThreadTimer 3) (\<lambda>r. r\<lparr>timer_init_tick := 5\<rparr>) demo_running)"

lemma demo_asleep_wf: "timers_wf demo_asleep" "sched_inv demo_asleep"
proof -
  have "timers_wf (upd_timer (ThreadTimer 3) (\<lambda>r. r\<lparr>timer_init_tick := 5\<rparr>) demo_running)"
    by (rule timers_wf_init_tick, subst timers_wf_cong [OF _ _ _, of demo_running blank_kernel])
      (simp_all add: demo_running_def rt_tick_get_def blank_timers_wf, simp_all add: blank_kernel_def blank_cpu_def)
  then show "timers_wf demo_asleep"
    unfolding demo_asleep_def
    by (subst timers_wf_cong) (simp_all add: rt_interrupt_enter_def rt_tick_get_def)
  show "sched_inv demo_asleep"
    by (rule sched_inv_frame [OF demo_running_inv]) (simp_all add: demo_asleep_def rt_interrupt_enter_def)
qed

lemma timers_wf_user_init:
  assumes "timers_wf s"
  shows "timers_wf (timer_init (UserTimer n) time flag s)"
proof -
  let ?s = "timer_init (UserTimer n) time flag s"
  have q: "timer_q ?s q = removeAll (UserTimer n) (timer_q s q)" for q by (simp add: timer_init_def timer_remove_def)
  have o: "timers ?s t = timers s t" if "t \<noteq> UserTimer n" for t using that by (simp add: timer_init_def timer_remove_def)
  have na: "\<not> timer_active ?s (UserTimer n)" by (simp add: timer_active_def timer_init_def)
  have d: "map (delay ?s) (removeAll (UserTimer n) ts) = map (delay s) (removeAll (UserTimer n) ts)" for ts
    by (auto simp: delay_def o) (simp_all add: timer_init_def rt_tick_get_def timer_remove_def)
  have "sorted (map (delay ?s) (timer_q ?s q))" for q
    using assms unfolding q d by (simp add: timers_wf_def removeAll_filter_not_eq sorted_filter)
  moreover have "delay ?s t = delay s t" if "t \<noteq> UserTimer n" for t
    using that by (simp add: delay_def o) (simp add: timer_init_def rt_tick_get_def timer_remove_def)
  moreover have "timer_active ?s t = timer_active s t" if "t \<noteq> UserTimer n" for t using that by (simp add: timer_active_def o)
  moreover have "timer_active ?s t \<longleftrightarrow> t \<in> set (timer_q ?s (timer_list_of (timers ?s t)))" for t
  proof (cases "t = UserTimer n")
    case True
    then show ?thesis using na by (simp add: q)
  next
    case False
    then show ?thesis using assms by (simp add: q o timer_active_def timers_wf_def)
  qed
  ultimately show ?thesis
    using assms unfolding timers_wf_def by (auto simp: q o distinct_removeAll)
qed

text \<open>A soft timer of ten ticks, and a timer thread, 2, that waits for one.\<close>

definition demo_soft :: kernel where
  "demo_soft = timer_init (UserTimer 5) 10 RT_TIMER_FLAG_SOFT_TIMER (demo_asleep\<lparr>timer_thread := 2, soft_timer_idle := True\<rparr>)"

theorem timer_start_keeps_order_witness:
  "\<exists>s'. rt_timer_start 0 (UserTimer 5) demo_soft = Inr s' \<and> timers_wf s' \<and> timer_q s' SoftTimers \<noteq> []
    \<and> delay s' (UserTimer 5) = 10 \<and> thread_stat s' 2 \<noteq> RT_THREAD_SUSPEND"
proof -
  let ?a = "demo_asleep\<lparr>timer_thread := 2, soft_timer_idle := True\<rparr>"
  have "timers_wf ?a" by (subst timers_wf_cong [of _ demo_asleep]) (simp_all add: rt_tick_get_def demo_asleep_wf)
  then have w: "timers_wf demo_soft" unfolding demo_soft_def by (rule timers_wf_user_init)
  have "sched_inv ?a" by (rule sched_inv_frame [OF demo_asleep_wf(2)]) simp_all
  then have i: "sched_inv demo_soft" by (simp add: demo_soft_def)
  have f: "timer_init_tick (timers demo_soft (UserTimer 5)) = 10" "timer_list_of (timers demo_soft (UserTimer 5)) = SoftTimers"
    by (simp_all add: demo_soft_def timer_init_def deactivate_def timer_list_of_def timer_flag_defs)
  have "threads demo_soft 2 = demo_thread 5" and n: "irq_nest (cpus demo_soft 0) = 1"
    by (simp_all add: demo_soft_def demo_asleep_def rt_interrupt_enter_def demo_running_def blank_cpu_def)
  then have "wakes_timer_thread (UserTimer 5) demo_soft"
    using f(2) by (simp add: wakes_timer_thread_def thread_stat_def demo_thread_def stat_defs) (simp add: demo_soft_def)
  moreover have "timer_thread demo_soft = 2" by (simp add: demo_soft_def)
  ultimately show ?thesis
    using timer_start_keeps_order [OF w _ i, where tm = "UserTimer 5" and c = 0] f n
    by (auto simp: RT_TICK_HALF awake_def stat_defs)
qed

text \<open>
  C6. In the tick interrupt \<open>rt_timer_check\<close> ends, and it serves exactly the timers that are due. The list may hold the timers
  of suspended threads, and one-shot and periodic application timers whose functions return and leave the kernel as it is, the
  periodic ones with a period that is neither 0 nor half the range of the tick or more. Each sleeper that is due is made ready with the error
  \<open>RT_ETIMEOUT\<close>, and no other thread is touched. The timers not yet due stay in the list in their order, those that
  are due leave it, and of them the periodic ones are in the list again, due after their period. One turn of the loop for each
  timer that is due and one more are enough.
\<close>

theorem timer_check_wakes_due_sleepers:
  assumes "sched_inv s" and "timers_wf s" and "c < RT_CPUS_NR" and "irq_nest (cpus s c) \<noteq> 0"
    and "\<And>u. ThreadTimer u \<in> set (timer_q s HardTimers) \<Longrightarrow> thread_stat s u = RT_THREAD_SUSPEND"
    and "\<And>n. UserTimer n \<in> set (timer_q s HardTimers) \<Longrightarrow> (\<forall>x. cb n c x = Inr x)
      \<and> (timer_periodic (timers s (UserTimer n)) \<longrightarrow> 0 < timer_init_tick (timers s (UserTimer n))
           \<and> timer_init_tick (timers s (UserTimer n)) < RT_TICK_MAX div 2)"
    and "length (filter (\<lambda>tm. delay s tm = 0) (timer_q s HardTimers)) < fuel"
  shows "\<exists>s'. rt_timer_check fuel cb c s = Some (Inr s') \<and> sched_inv s' \<and> timers_wf s'
    \<and> set (timer_q s' HardTimers) = {tm \<in> set (timer_q s HardTimers). delay s tm \<noteq> 0 \<or> timer_periodic (timers s tm)}
    \<and> filter (\<lambda>tm. delay s tm \<noteq> 0) (timer_q s' HardTimers) = filter (\<lambda>tm. delay s tm \<noteq> 0) (timer_q s HardTimers)
    \<and> (\<forall>tm. delay s' tm = (if tm \<in> set (timer_q s HardTimers) \<and> delay s tm = 0 \<and> timer_periodic (timers s tm)
          then unat (timer_init_tick (timers s tm)) else delay s tm))
    \<and> (\<forall>u. threads s' u = (if ThreadTimer u \<in> set (timer_q s HardTimers) \<and> delay s (ThreadTimer u) = 0
          then woken (threads s u) else threads s u))"
proof -
  have "s\<lparr>timer_q := (timer_q s)(HardFiring := [])\<rparr> = s"
    using assms(2) by (intro kernel.equality) (auto simp: timers_wf_def)
  then have r: "rt_timer_check fuel cb c s = timer_check_loop fuel cb c (rt_tick_get s) s" by (simp add: rt_timer_check_def)
  have "timer_served cb c s tm" if "tm \<in> set (timer_q s HardTimers)" for tm
  proof (cases tm)
    case (ThreadTimer u)
    then show ?thesis using assms(5) [of u] that by (simp add: timer_served_def)
  next
    case (UserTimer n)
    then show ?thesis using assms(6) [of n] that by (simp add: timer_served_def)
  qed
  from timer_check_loop_ok [OF assms(1-4) this assms(7) [folded due_def]] show ?thesis
    unfolding r timers_checked_def by (auto simp: due_def)
qed

theorem timer_check_wakes_due_sleepers_witness:
  "\<exists>s'. rt_timer_check 3 (\<lambda>n c s. Inr s) 0 (timer_enqueue (ThreadTimer 3) (timer_enqueue (ThreadTimer 2) demo_asleep)) = Some (Inr s')
    \<and> thread_stat s' 2 = RT_THREAD_READY \<and> thread_stat s' 3 = RT_THREAD_SUSPEND"
proof -
  let ?s = "timer_enqueue (ThreadTimer 3) (timer_enqueue (ThreadTimer 2) demo_asleep)"
  have i: "timer_init_tick (timers demo_asleep (ThreadTimer 2)) = 0" "timer_init_tick (timers demo_asleep (ThreadTimer 3)) = 5"
    by (simp_all add: demo_asleep_def rt_interrupt_enter_def demo_running_def blank_kernel_def)
  have w1: "timers_wf (timer_enqueue (ThreadTimer 2) demo_asleep)"
    by (rule timers_wf_enqueue [OF demo_asleep_wf(1)]) (simp add: i RT_TICK_HALF)
  have w: "timers_wf ?s" by (rule timers_wf_enqueue [OF w1]) (simp add: i timer_enqueue_timers RT_TICK_HALF)
  have f: "timer_flag (timers demo_asleep tm) = 0" "timer_q demo_asleep q = []" for tm q
    by (simp_all add: demo_asleep_def rt_interrupt_enter_def demo_running_def blank_kernel_def)
  have q: "set (timer_q ?s HardTimers) = {ThreadTimer 2, ThreadTimer 3}" "length (timer_q ?s HardTimers) = 2"
    by (auto simp: timer_enqueue_q Let_def timer_list_of_def timer_enqueue_timers timer_flag_defs f)
  have d: "delay ?s (ThreadTimer 2) = 0" "delay ?s (ThreadTimer 3) = 5"
    by (simp_all add: timer_enqueue_delay timer_enqueue_timers i)
  have t: "threads ?s 2 = demo_thread 5" "threads ?s 3 = demo_thread 7" "irq_nest (cpus ?s 0) = 1"
    by (simp_all add: demo_asleep_def rt_interrupt_enter_def demo_running_def blank_cpu_def)
  have st: "thread_stat ?s 2 = RT_THREAD_SUSPEND" "thread_stat ?s 3 = RT_THREAD_SUSPEND"
    unfolding thread_stat_def t by (simp_all add: demo_thread_def stat_defs)
  have "sched_inv ?s" using demo_asleep_wf(2) by simp
  then obtain s' where s': "rt_timer_check 3 (\<lambda>n c s. Inr s) 0 ?s = Some (Inr s')"
    "threads s' u = (if ThreadTimer u \<in> set (timer_q ?s HardTimers) \<and> delay ?s (ThreadTimer u) = 0
          then woken (threads ?s u) else threads ?s u)" for u
    using timer_check_wakes_due_sleepers [of ?s 0 "\<lambda>n c s. Inr s" 3] w q d t st
      length_filter_le [of "\<lambda>tm. delay ?s tm = 0" "timer_q ?s HardTimers"] by auto
  have "thread_stat s' 2 = RT_THREAD_READY"
    unfolding thread_stat_def s'(2) q d t by (simp add: woken_def demo_thread_def blank_thread_def)
  moreover have "thread_stat s' 3 = RT_THREAD_SUSPEND"
    unfolding thread_stat_def s'(2) q d t by (simp add: demo_thread_def stat_defs)
  ultimately show ?thesis using s'(1) by blast
qed

text \<open>
  A periodic hard timer of period 0, which \<open>rt_timer_init\<close> and \<open>rt_timer_control\<close> accept, keeps
  \<open>rt_timer_check\<close> in its loop forever, whatever the fuel, with all cores locked.
\<close>

theorem zero_period_timer_hangs:
  assumes "timer_q s HardTimers = [UserTimer n]"
    and "timer_flag (timers s (UserTimer n)) = RT_TIMER_FLAG_ACTIVATED OR RT_TIMER_FLAG_PERIODIC"
    and "timer_init_tick (timers s (UserTimer n)) = 0" and "timeout_tick (timers s (UserTimer n)) = rt_tick_get s"
    and "\<And>s. cb n c s = Inr s"
  shows "rt_timer_check fuel cb c s = None"
proof -
  let ?s = "s\<lparr>timer_q := (timer_q s)(HardFiring := [])\<rparr>"
  have "zero_timer n ?s" using assms by (simp add: zero_timer_def rt_tick_get_def)
  from zero_timer_loops [of n ?s cb c, OF this assms(5)] show ?thesis
    by (simp add: rt_timer_check_def rt_tick_get_def)
qed

theorem zero_period_timer_hangs_witness:
  "rt_timer_check 100 (\<lambda>n c s. Inr s) 0 (blank_kernel\<lparr>
     timers := (\<lambda>t. \<lparr>timer_flag = RT_TIMER_FLAG_ACTIVATED OR RT_TIMER_FLAG_PERIODIC, timer_init_tick = 0, timeout_tick = 0\<rparr>),
     timer_q := (\<lambda>q. []) (HardTimers := [UserTimer 0])\<rparr>) = None"
  by (rule zero_period_timer_hangs [where n = 0]) (simp_all add: rt_tick_get_def blank_kernel_def blank_cpu_def)

text \<open>
  \<open>rt_tick_from_millisecond\<close> is exact at 1000 ticks per second: no rounding and no overflow for any
  non-negative time, and the waiting-forever value for a negative one.
\<close>

lemma tick_from_millisecond_exact:
  "uint (rt_tick_from_millisecond ms) = (if 0 \<le> sint ms then sint ms else 2 ^ 32 - 1)"
proof (cases "0 \<le> sint ms")
  case True
  then show ?thesis by (simp add: tick_from_millisecond_nonneg)
next
  case False
  then have "rt_tick_from_millisecond ms = 0xffffffff" by (simp add: rt_tick_from_millisecond_def)
  then show ?thesis using False by simp
qed

text \<open>
  \<open>rt_thread_sleep\<close>, called by a running thread outside interrupts and critical sections, suspends
  that thread with its timer pending for exactly the given number of ticks, and the core goes on with
  a thread of the highest ready priority.
\<close>

theorem thread_sleep_arms_timer:
  assumes "sched_inv s" and "timers_wf s" and "c < RT_CPUS_NR" and "rt_thread_self c s = Some t"
    and "thread_stat s t = RT_THREAD_RUNNING" and "scheduler_available c s" and "irq_nest (cpus s c) = 0"
    and "scheduler_lock_nest (threads s t) = 0" and "cpus_lock_nest (threads s t) = 0" and "stacks_ok s"
    and "u \<noteq> t" and "thread_stat s u = RT_THREAD_READY" and "may_run c (threads s u)"
    and "0 < ticks" and "ticks < RT_TICK_MAX div 2"
  shows "\<exists>s1 s2. rt_thread_sleep c ticks s = Inr (s2, Blocked) \<and> rt_schedule c s1 = Inr s2
    \<and> thread_stat s1 t = RT_THREAD_SUSPEND \<and> \<not> linked s1 t
    \<and> ThreadTimer t \<in> set (timer_q s1 HardTimers) \<and> delay s1 (ThreadTimer t) = unat ticks
    \<and> timers_wf s1 \<and> sched_inv s2 \<and> best_on c s2"
proof -
  let ?e = "upd_thread t (\<lambda>th. th\<lparr>error := RT_EOK\<rparr>) s"
  let ?p = "upd_thread t (set_stat RT_THREAD_SUSPEND) (rt_schedule_remove_thread t ?e)"
  let ?f = "fst (rt_timer_stop (ThreadTimer t) ?p)"
  have e: "sched_inv ?e" by (rule sched_inv_frame [OF assms(1)]) (simp_all add: same_sched_def)
  have sus: "rt_thread_suspend c t ?e = Inr (?f, RT_EOK)"
    by (rule rt_thread_suspend_ok [OF e]) (use assms(4,5) in \<open>simp_all add: rt_thread_self_def thread_stat_def\<close>)
  have inv: "sched_inv ?f" by (rule rt_thread_suspend_sched_inv [OF e sus])
  have tw: "timers_wf ?f"
  proof (rule timers_wf_stop)
    have "timers ?p = timers s" "timer_q ?p = timer_q s" "rt_tick_get ?p = rt_tick_get s"
      by (simp_all add: rt_schedule_remove_thread_def Let_def rt_list_remove_def rt_tick_get_def)
    from timers_wf_cong [OF this] show "timers_wf ?p" using assms(2) by simp
  qed
  obtain s1 where s1: "arm_thread_timer c t ticks ?f = Inr s1" "timers_wf s1" "sched_inv s1"
    "ThreadTimer t \<in> set (timer_q s1 HardTimers)" "delay s1 (ThreadTimer t) = unat ticks"
    "threads s1 = threads ?f" "queues s1 = queues ?f" "cpus s1 = cpus ?f"
    using arm_thread_timer_ok [OF tw assms(15), of c t] inv by auto
  have thr: "threads s1 = (threads s)(t := set_stat RT_THREAD_SUSPEND ((threads s t)\<lparr>error := RT_EOK\<rparr>))"
    by (simp add: s1(6))
  have st: "thread_stat s1 t = RT_THREAD_SUSPEND" "thread_stat s1 u = RT_THREAD_READY"
    using assms(11,12) by (simp_all add: thread_stat_def thr)
  have ul: "\<not> linked s1 t" by (simp add: linked_def s1(7))
  have "\<exists>s2. rt_schedule c s1 = Inr s2 \<and> sched_inv s2 \<and> best_on c s2"
  proof (rule rt_schedule_best [OF s1(3) assms(3)])
    show "current_thread (cpus s1 c) = Some t" "irq_nest (cpus s1 c) = 0"
      using assms(4,7) by (simp_all add: s1(8) rt_thread_self_def)
    show "scheduler_lock_nest (threads s1 t) = 0" "cpus_lock_nest (threads s1 t) = 0"
      using assms(8,9) by (simp_all add: thr)
    show "stacks_ok s1" using assms(10) by (auto simp: stacks_ok_def thr scheduler_stack_check_def set_stat_def)
    show "thread_stat s1 t = RT_THREAD_RUNNING \<or> (\<exists>u. thread_stat s1 u = RT_THREAD_READY \<and> may_run c (threads s1 u))"
      using st(2) assms(11,13) by (auto simp: thr)
  qed
  then obtain s2 where s2: "rt_schedule c s1 = Inr s2" "sched_inv s2" "best_on c s2" by blast
  have "rt_thread_sleep c ticks s = Inr (s2, Blocked)"
    using assms(4,6,14) sus s1(1) s2(1) by (simp add: rt_thread_sleep_def)
  with s1 s2 st ul show ?thesis by blast
qed

theorem thread_sleep_arms_timer_witness:
  "\<exists>s2. rt_thread_sleep 0 7 demo_ready = Inr (s2, Blocked) \<and> sched_inv s2 \<and> best_on 0 s2"
proof -
  have w: "timers_wf demo_ready"
    by (subst timers_wf_cong [OF _ _ _, of demo_ready blank_kernel])
      (simp_all add: demo_ready_def demo_running_def rt_tick_get_def blank_timers_wf, simp_all add: blank_kernel_def blank_cpu_def)
  have a: "scheduler_available 0 demo_ready"
    using demo_ready_sel(1,2)
    by (simp add: scheduler_available_def rt_critical_level_def rt_thread_self_def rt_interrupt_get_nest_def)
      (simp add: demo_ready_threads demo_running_def demo_thread_def blank_thread_def)
  have m: "may_run 0 (threads demo_ready 2)"
    by (simp add: demo_ready_threads may_run_def demo_thread_def blank_thread_def)
  show ?thesis
    using thread_sleep_arms_timer [OF demo_ready_inv w _ _ _ a, of 4 2 7] demo_ready_sel m
    by (auto simp: rt_thread_self_def RT_TICK_HALF)
qed

end
