(* ===== verification/Rt_Ipc.thy ===== *)
theory Rt_Ipc
  imports Rt_Clock
begin

unbundle bit_operations_syntax

text \<open>
  What the IPC objects of \<open>src/ipc.c\<close> have in common: the list of the threads that wait for an object,
  in order of arrival or of priority. The contract of a waiting order is a locale; both orders of
  the source are instances. \<open>kinv\<close> is the invariant of the kernel that the IPC operations rely on
  and keep: scheduler, timers, and that the threads of the waiting lists are suspended.
\<close>

definition RT_IPC_FLAG_FIFO :: u8 where "RT_IPC_FLAG_FIFO = 0"
definition RT_IPC_FLAG_PRIO :: u8 where "RT_IPC_FLAG_PRIO = 1"

subsection \<open>Waiting lists\<close>

fun insert_by_prio :: "(tid \<Rightarrow> u8) \<Rightarrow> tid \<Rightarrow> tid list \<Rightarrow> tid list" where
  "insert_by_prio prio t [] = [t]"
| "insert_by_prio prio t (x # xs) = (if prio t < prio x then t # x # xs else x # insert_by_prio prio t xs)"

definition insert_fifo :: "(tid \<Rightarrow> u8) \<Rightarrow> tid \<Rightarrow> tid list \<Rightarrow> tid list" where
  "insert_fifo prio t xs = xs @ [t]"

definition wait_insert :: "(((tid \<Rightarrow> u8) \<Rightarrow> tid \<Rightarrow> tid list \<Rightarrow> tid list)) \<Rightarrow> qid \<Rightarrow> tid \<Rightarrow> kernel \<Rightarrow> kernel" where
  "wait_insert ins q t s =
     s\<lparr>queues := (queues s)(q := ins (\<lambda>u. current_priority (threads s u)) t (queues s q))\<rparr>"

definition ipc_list_suspend :: "cpuid \<Rightarrow> qid \<Rightarrow> tid \<Rightarrow> u8 \<Rightarrow> kernel \<Rightarrow> kernel res" where
  "ipc_list_suspend c q t flag s =
    and_then (rt_thread_suspend c t s) (\<lambda>(s, _).
      if flag = RT_IPC_FLAG_FIFO then Inr (wait_insert insert_fifo q t s)
      else if flag = RT_IPC_FLAG_PRIO then Inr (wait_insert insert_by_prio q t s)
      else Inl AssertFail)"

definition ipc_list_resume :: "cpuid \<Rightarrow> qid \<Rightarrow> kernel \<Rightarrow> kernel res" where
  "ipc_list_resume c q s =
    (case queues s q of [] \<Rightarrow> Inl OutOfBounds | t # _ \<Rightarrow> Inr (fst (rt_thread_resume c t s)))"

text \<open>
  \<open>_ipc_list_resume_all\<close> wakes the head of the list until the list is empty. A head that is not suspended
  is not unlinked by \<open>rt_thread_resume\<close>, and the loop would go on forever.
\<close>

fun resume_list :: "cpuid \<Rightarrow> tid list \<Rightarrow> kernel \<Rightarrow> kernel res" where
  "resume_list c [] s = Inr s"
| "resume_list c (t # ts) s =
    (let s = upd_thread t (\<lambda>th. th\<lparr>error := - RT_ERROR\<rparr>) s in
     if thread_stat s t \<noteq> RT_THREAD_SUSPEND then Inl Hang
     else resume_list c ts (fst (rt_thread_resume c t s)))"

definition ipc_list_resume_all :: "cpuid \<Rightarrow> qid \<Rightarrow> kernel \<Rightarrow> kernel res" where
  "ipc_list_resume_all c q s = resume_list c (queues s q) s"

text \<open>
  The wait that the blocking functions share: \<open>RT_DEBUG_SCHEDULER_AVAILABLE\<close>, no error yet, into the
  waiting list, and the thread's timer when the timeout is positive.
\<close>

definition ipc_wait :: "cpuid \<Rightarrow> qid \<Rightarrow> u8 \<Rightarrow> 32 word \<Rightarrow> kernel \<Rightarrow> kernel res" where
  "ipc_wait c q flag timeout s =
    (case rt_thread_self c s of None \<Rightarrow> Inl NullDeref
     | Some t \<Rightarrow> rt_assert (scheduler_available c s)
        (let s = upd_thread t (\<lambda>th. th\<lparr>error := RT_EOK\<rparr>) s in
         and_then (ipc_list_suspend c q t flag s) (\<lambda>s.
           if 0 < sint timeout then arm_thread_timer c t timeout s else Inr s)))"

subsection \<open>Waiting order\<close>

text \<open>A waiting order puts the new thread somewhere between the others, which keep their order.\<close>

locale wait_order =
  fixes ins :: "(tid \<Rightarrow> u8) \<Rightarrow> tid \<Rightarrow> tid list \<Rightarrow> tid list"
  assumes ins_between: "\<exists>ys zs. xs = ys @ zs \<and> ins prio t xs = ys @ t # zs"
begin

lemma set_ins: "set (ins prio t xs) = insert t (set xs)"
  using ins_between [of xs prio t] by auto

lemma distinct_ins: "distinct (ins prio t xs) \<longleftrightarrow> t \<notin> set xs \<and> distinct xs"
  using ins_between [of xs prio t] by auto

lemma removeAll_ins: "t \<notin> set xs \<Longrightarrow> removeAll t (ins prio t xs) = xs"
  using ins_between [of xs prio t] by (auto simp: removeAll_id)

lemma wait_queues_wf:
  assumes "queues_wf s" "\<not> linked s t"
  shows "queues_wf (wait_insert ins q t s)"
  using assms by (auto simp: queues_wf_def linked_def wait_insert_def set_ins distinct_ins)

lemma wait_linked: "linked (wait_insert ins q t s) u \<longleftrightarrow> u = t \<or> linked s u"
  by (auto simp: linked_def wait_insert_def set_ins)

lemma wait_sched_inv:
  assumes "sched_inv s" "\<not> linked s t" "\<not> is_ready_q q" "\<not> awake (thread_stat s t)"
  shows "sched_inv (wait_insert ins q t s)"
proof -
  let ?s = "wait_insert ins q t s"
  note inv = sched_invD [OF assms(1)]
  have th: "threads ?s = threads s" "cpus ?s = cpus s" "ready_priority_group ?s = ready_priority_group s"
    by (simp_all add: wait_insert_def)
  have q: "queues ?s q' = queues s q'" if "is_ready_q q'" for q' using that assms(3) by (auto simp: wait_insert_def)
  have "bitmaps_ok ?s" using inv(1) q by (simp add: ready_inv_def bitmaps_ok_def bitmap_ok_def th)
  then have "ready_inv {} ?s"
    using inv(1) q wait_queues_wf [OF inv(4) assms(2)]
    by (auto simp: ready_inv_def ready_members_def ready_complete_def thread_stat_def th)
  moreover have "threads_ok ?s"
    using inv(2) assms(4) by (auto simp: threads_ok_def thread_stat_def th wait_linked awake_def)
  ultimately show ?thesis using inv(3) by (simp add: sched_inv_def cpus_ok_def th)
qed

end

interpretation fifo_order: wait_order insert_fifo
  by unfold_locales (simp add: insert_fifo_def, metis append_Nil2)

interpretation lifo_order: wait_order "\<lambda>prio t xs. t # xs"
  by unfold_locales auto

interpretation prio_order: wait_order insert_by_prio
proof
  show "\<exists>ys zs. xs = ys @ zs \<and> insert_by_prio prio t xs = ys @ t # zs" for xs prio t
  proof (induction xs)
    case Nil
    then show ?case by simp
  next
    case (Cons x xs)
    then obtain ys zs where z: "xs = ys @ zs" "insert_by_prio prio t xs = ys @ t # zs" by blast
    show ?case
    proof (cases "prio t < prio x")
      case True
      then show ?thesis by (intro exI [of _ "[]"] exI [of _ "x # xs"]) simp
    next
      case False
      with z show ?thesis by (intro exI [of _ "x # ys"] exI [of _ zs]) simp
    qed
  qed
qed

text \<open>In priority order the list is sorted, and equals are served in order of arrival.\<close>

lemma insert_by_prio_sorted:
  "sorted (map prio xs) \<Longrightarrow> sorted (map prio (insert_by_prio prio t xs))"
proof (induction xs)
  case Nil
  then show ?case by simp
next
  case (Cons x xs)
  then show ?case by (auto simp: prio_order.set_ins)
qed

lemma insert_by_prio_stable:
  assumes "sorted (map prio xs)"
  shows "insert_by_prio prio t xs = takeWhile (\<lambda>u. prio u \<le> prio t) xs @ t # dropWhile (\<lambda>u. prio u \<le> prio t) xs"
  by (induction xs) (auto simp: not_less)


subsection \<open>Invariant of the kernel\<close>

definition is_wait_q :: "qid \<Rightarrow> bool" where
  "is_wait_q q \<longleftrightarrow> \<not> is_ready_q q \<and> q \<noteq> Defunct"

definition waits_ok :: "kernel \<Rightarrow> bool" where
  "waits_ok s \<longleftrightarrow> (\<forall>q t. is_wait_q q \<longrightarrow> t \<in> set (queues s q) \<longrightarrow> thread_stat s t = RT_THREAD_SUSPEND)"

definition sleepers_ok :: "kernel \<Rightarrow> bool" where
  "sleepers_ok s \<longleftrightarrow> (\<forall>t. ThreadTimer t \<in> set (timer_q s HardTimers) \<longrightarrow> thread_stat s t = RT_THREAD_SUSPEND)"

definition kinv :: "kernel \<Rightarrow> bool" where
  "kinv s \<longleftrightarrow> sched_inv s \<and> timers_wf s \<and> waits_ok s \<and> sleepers_ok s"

lemma kinvD:
  assumes "kinv s"
  shows "sched_inv s" "timers_wf s" "waits_ok s" "sleepers_ok s"
  using assms by (simp_all add: kinv_def)

lemma kinv_frame:
  assumes "kinv s" "queues s' = queues s" "ready_priority_group s' = ready_priority_group s"
    "cpus s' = cpus s" "\<And>t. same_sched (threads s t) (threads s' t)" "timers s' = timers s" "timer_q s' = timer_q s"
  shows "kinv s'"
proof -
  have "sched_inv s'" by (rule sched_inv_frame [OF kinvD(1) [OF assms(1)]]) (use assms in simp_all)
  moreover have "timers_wf s'"
    using kinvD(2) [OF assms(1)] timers_wf_cong [of s' s] assms by (simp add: rt_tick_get_def)
  moreover have "thread_stat s' t = thread_stat s t" for t
    using assms(5) [of t] by (simp add: same_sched_def thread_stat_def)
  ultimately show ?thesis using kinvD(3,4) [OF assms(1)] assms(2,7) by (simp add: kinv_def waits_ok_def sleepers_ok_def)
qed

lemma kinv_upd_thread:
  assumes "kinv s" "same_sched (threads s t) (f (threads s t))"
  shows "kinv (upd_thread t f s)"
  using assms by (intro kinv_frame [OF assms(1)]) simp_all

lemma kinv_upd_objects [simp]:
  "kinv (upd_sem i f s) = kinv s" "kinv (upd_mutex i g s) = kinv s" "kinv (upd_event i h s) = kinv s"
  by (rule iffI; erule kinv_frame; simp)+

lemma kinv_only_sched:
  assumes "kinv s" "only_sched s s'" "sched_inv s'"
  shows "kinv s'"
proof -
  note os = only_schedD [OF assms(2)]
  have "timers_wf s'"
    using timers_wf_cong [of s' s] os kinvD(2) [OF assms(1)] by (simp add: rt_tick_get_def)
  moreover have "waits_ok s'"
    using kinvD(3) [OF assms(1)] os(3) only_sched_suspended(1) [OF assms(2)]
    by (auto simp: waits_ok_def is_wait_q_def)
  moreover have "sleepers_ok s'"
    using kinvD(4) [OF assms(1)] os(5) only_sched_suspended(1) [OF assms(2)] by (simp add: sleepers_ok_def)
  ultimately show ?thesis using assms(3) by (simp add: kinv_def)
qed

lemma kinv_rt_schedule:
  assumes "kinv s" "c < RT_CPUS_NR" "rt_schedule c s = Inr s'"
  shows "kinv s'" "only_sched s s'"
  using kinv_only_sched [OF assms(1)] only_sched_rt_schedule [OF kinvD(1) [OF assms(1)] assms(2,3)]
    rt_schedule_sched_inv [OF kinvD(1) [OF assms(1)] assms(2,3)] by blast+

lemma rt_thread_resume_queues:
  assumes "thread_stat s t = RT_THREAD_SUSPEND" "\<not> is_ready_q q"
  shows "queues (fst (rt_thread_resume c t s)) q = removeAll t (queues s q)"
  using assms by (simp add: rt_thread_resume_def Let_def) (simp add: rt_list_remove_def)

lemma rt_thread_resume_timers:
  assumes "thread_stat s t = RT_THREAD_SUSPEND"
  shows "timers (fst (rt_thread_resume c t s)) = timers (fst (rt_timer_stop (ThreadTimer t) s))"
    "timer_q (fst (rt_thread_resume c t s)) = timer_q (fst (rt_timer_stop (ThreadTimer t) s))"
    "rt_tick_get (fst (rt_thread_resume c t s)) = rt_tick_get s"
  using assms by (auto simp: rt_thread_resume_def Let_def rt_timer_stop_def timer_active_def rt_tick_get_def timer_remove_def)

lemma rt_thread_resume_objects [simp]:
  "sems (fst (rt_thread_resume c t s)) = sems s" "mutexes (fst (rt_thread_resume c t s)) = mutexes s"
  "events (fst (rt_thread_resume c t s)) = events s"
  by (simp_all add: rt_thread_resume_def Let_def) (simp_all add: rt_list_remove_def)

lemma timer_stop_q:
  assumes "timers_wf s"
  shows "set (timer_q (fst (rt_timer_stop tm s)) q) = set (timer_q s q) - {tm}"
proof (cases "timer_active s tm")
  case True
  then show ?thesis by (auto simp: rt_timer_stop_def timer_remove_def)
next
  case False
  then have "tm \<notin> set (timer_q s q)" using assms by (auto simp: timers_wf_def)
  with False show ?thesis by (simp add: rt_timer_stop_def)
qed

lemma kinv_resume:
  assumes "kinv s"
  shows "kinv (fst (rt_thread_resume c t s))"
proof (cases "thread_stat s t = RT_THREAD_SUSPEND")
  case True
  let ?s = "fst (rt_thread_resume c t s)"
  note k = kinvD [OF assms]
  note tm = rt_thread_resume_timers [OF True, of c]
  have oth: "thread_stat ?s u = thread_stat s u" if "u \<noteq> t" for u
    using rt_thread_resume_stat(2) [OF True that] by (simp add: thread_stat_def)
  have "timers_wf ?s"
    using timers_wf_cong [OF tm(1,2)] tm(3) timers_wf_stop [OF k(2)] by (simp add: rt_tick_get_def)
  moreover have "waits_ok ?s"
    using k(3) oth by (auto simp: waits_ok_def is_wait_q_def rt_thread_resume_queues [OF True])
  moreover have "sleepers_ok ?s"
    using k(4) oth by (auto simp: sleepers_ok_def tm(2) timer_stop_q [OF k(2)])
  ultimately show ?thesis using rt_thread_resume_sched_inv [OF k(1)] by (simp add: kinv_def)
qed (use assms in \<open>simp add: rt_thread_resume_def\<close>)

lemma kinv_wait_head:
  assumes "kinv s" "is_wait_q q" "queues s q = t # ts"
  shows "thread_stat s t = RT_THREAD_SUSPEND" "prio_ok (threads s t)" "t \<notin> set ts"
proof -
  show st: "thread_stat s t = RT_THREAD_SUSPEND" using assms kinvD(3) by (auto simp: waits_ok_def)
  show "prio_ok (threads s t)"
    using sched_inv_started [OF kinvD(1) [OF assms(1)]] st by (simp add: started_def)
  show "t \<notin> set ts"
    using sched_invD(4) [OF kinvD(1) [OF assms(1)]] assms(3) by (metis distinct.simps(2) queues_wf_def)
qed

text \<open>Waking the first waiter: it leaves the list, the others keep their order.\<close>

lemma ipc_list_resume_ok:
  assumes "kinv s" "is_wait_q q" "queues s q = t # ts"
  shows "ipc_list_resume c q s = Inr (fst (rt_thread_resume c t s))"
    "queues (fst (rt_thread_resume c t s)) q = ts"
    "awake (thread_stat (fst (rt_thread_resume c t s)) t)"
proof -
  note h = kinv_wait_head [OF assms]
  show "ipc_list_resume c q s = Inr (fst (rt_thread_resume c t s))" using assms(3) by (simp add: ipc_list_resume_def)
  show "queues (fst (rt_thread_resume c t s)) q = ts"
    using rt_thread_resume_queues [OF h(1), of q c] assms(2,3) h(3) by (simp add: is_wait_q_def removeAll_id)
  show "awake (thread_stat (fst (rt_thread_resume c t s)) t)"
    using rt_thread_resume_stat(1) [OF h(1)] by (simp add: awake_def)
qed

subsection \<open>Going to wait\<close>

definition order_of :: "u8 \<Rightarrow> (tid \<Rightarrow> u8) \<Rightarrow> tid \<Rightarrow> tid list \<Rightarrow> tid list" where
  "order_of flag = (if flag = RT_IPC_FLAG_FIFO then insert_fifo else insert_by_prio)"

interpretation flag_order: wait_order "order_of flag" for flag
  by unfold_locales (simp add: order_of_def fifo_order.ins_between prio_order.ins_between)

definition flag_ok :: "u8 \<Rightarrow> bool" where
  "flag_ok flag \<longleftrightarrow> flag = RT_IPC_FLAG_FIFO \<or> flag = RT_IPC_FLAG_PRIO"

lemma removeAll_running:
  assumes "sched_inv s" "thread_stat s t = RT_THREAD_RUNNING"
  shows "removeAll t (queues s q) = queues s q" "\<not> linked s t"
proof -
  show "\<not> linked s t" using sched_invD(2) [OF assms(1)] assms(2) by (simp add: threads_ok_def)
  then show "removeAll t (queues s q) = queues s q" by (auto simp: linked_def intro: removeAll_id)
qed

definition asleep :: "tid \<Rightarrow> kernel \<Rightarrow> kernel" where
  "asleep t s = fst (rt_timer_stop (ThreadTimer t) (upd_thread t (set_stat RT_THREAD_SUSPEND) (rt_schedule_remove_thread t s)))"

lemma asleep_sel [simp]:
  "threads (asleep t s) = (threads s)(t := set_stat RT_THREAD_SUSPEND (threads s t))"
  "queues (asleep t s) = (\<lambda>q. removeAll t (queues s q))"
  "sems (asleep t s) = sems s" "mutexes (asleep t s) = mutexes s" "events (asleep t s) = events s"
  "current_thread (cpus (asleep t s) c) = current_thread (cpus s c)" "irq_nest (cpus (asleep t s) c) = irq_nest (cpus s c)"
  "tick (cpus (asleep t s) c) = tick (cpus s c)"
  by (simp_all add: asleep_def)

lemma suspend_self:
  assumes "sched_inv s" "rt_thread_self c s = Some t" "thread_stat s t = RT_THREAD_RUNNING"
  shows "rt_thread_suspend c t s = Inr (asleep t s, RT_EOK)"
  using rt_thread_suspend_ok [OF assms] by (simp add: asleep_def)

lemma kinv_asleep:
  assumes "kinv s" "rt_thread_self c s = Some t" "thread_stat s t = RT_THREAD_RUNNING"
  shows "kinv (asleep t s)"
proof -
  note k = kinvD [OF assms(1)]
  let ?p = "upd_thread t (set_stat RT_THREAD_SUSPEND) (rt_schedule_remove_thread t s)"
  have tw: "timers_wf ?p" using timers_wf_cong [of ?p s] k(2) by (simp add: rt_tick_get_def)
  have "timers_wf (asleep t s)" using timers_wf_stop [OF tw] by (simp add: asleep_def)
  moreover have "sched_inv (asleep t s)"
    using rt_thread_suspend_sched_inv [OF k(1) suspend_self [OF k(1) assms(2,3)]] .
  moreover have "waits_ok (asleep t s)"
    using k(3) by (auto simp: waits_ok_def thread_stat_def)
  moreover have "sleepers_ok (asleep t s)"
    using k(4) by (auto simp: sleepers_ok_def thread_stat_def asleep_def timer_stop_q [OF tw])
  ultimately show ?thesis by (simp add: kinv_def)
qed

context wait_order
begin

lemma kinv_ins:
  assumes "kinv s" "\<not> linked s t" "is_wait_q q" "thread_stat s t = RT_THREAD_SUSPEND"
  shows "kinv (wait_insert ins q t s)"
proof -
  note k = kinvD [OF assms(1)]
  let ?s = "wait_insert ins q t s"
  have th: "thread_stat ?s u = thread_stat s u" for u by (simp add: thread_stat_def wait_insert_def)
  have "sched_inv ?s"
    by (rule wait_sched_inv) (use k(1) assms in \<open>auto simp: is_wait_q_def awake_def\<close>)
  moreover have "timers_wf ?s"
    using timers_wf_cong [of ?s s] k(2) by (simp add: wait_insert_def rt_tick_get_def)
  moreover have "waits_ok ?s"
    using k(3) assms(4) th by (auto simp: waits_ok_def) (auto simp: wait_insert_def set_ins split: if_splits)
  moreover have "sleepers_ok ?s" using k(4) th by (simp add: sleepers_ok_def) (simp add: wait_insert_def)
  ultimately show ?thesis by (simp add: kinv_def)
qed

end

lemma ipc_list_suspend_ok:
  assumes "kinv s" "rt_thread_self c s = Some t" "thread_stat s t = RT_THREAD_RUNNING" "flag_ok flag" "is_wait_q q"
  shows "\<exists>s'. ipc_list_suspend c q t flag s = Inr s' \<and> kinv s'
    \<and> threads s' = (threads s)(t := set_stat RT_THREAD_SUSPEND (threads s t))
    \<and> queues s' = (queues s)(q := order_of flag (\<lambda>u. current_priority (threads s u)) t (queues s q))
    \<and> sems s' = sems s \<and> mutexes s' = mutexes s \<and> events s' = events s
    \<and> (\<forall>c. current_thread (cpus s' c) = current_thread (cpus s c) \<and> irq_nest (cpus s' c) = irq_nest (cpus s c))"
proof -
  note k = kinvD [OF assms(1)]
  let ?a = "asleep t s"
  have ka: "kinv ?a" by (rule kinv_asleep [OF assms(1-3)])
  have q: "queues ?a = queues s" using removeAll_running(1) [OF k(1) assms(3)] by (simp add: fun_eq_iff)
  have ul: "\<not> linked ?a t" using removeAll_running(2) [OF k(1) assms(3)] by (simp add: linked_def q)
  have st: "thread_stat ?a t = RT_THREAD_SUSPEND" by (simp add: thread_stat_def)
  have pr: "(\<lambda>u. current_priority (threads ?a u)) = (\<lambda>u. current_priority (threads s u))" by auto
  have "ipc_list_suspend c q t flag s = Inr (wait_insert (order_of flag) q t ?a)"
    using assms(4) suspend_self [OF k(1) assms(2,3)]
    by (auto simp: ipc_list_suspend_def order_of_def flag_ok_def RT_IPC_FLAG_FIFO_def RT_IPC_FLAG_PRIO_def)
  moreover have "kinv (wait_insert (order_of flag) q t ?a)" by (rule flag_order.kinv_ins [OF ka ul assms(5) st])
  moreover have "queues (wait_insert (order_of flag) q t ?a)
      = (queues s)(q := order_of flag (\<lambda>u. current_priority (threads s u)) t (queues s q))"
    by (simp only: wait_insert_def q pr) simp
  ultimately show ?thesis by (simp del: asleep_sel(2)) (simp add: wait_insert_def)
qed

definition timeout_ok :: "32 word \<Rightarrow> bool" where
  "timeout_ok timeout \<longleftrightarrow> sint timeout < 0x7fffffff"

lemma kinv_arm:
  assumes "kinv s" "thread_stat s t = RT_THREAD_SUSPEND" "ticks < RT_TICK_MAX div 2"
  shows "\<exists>s'. arm_thread_timer c t ticks s = Inr s' \<and> kinv s' \<and> threads s' = threads s \<and> queues s' = queues s
    \<and> cpus s' = cpus s \<and> sems s' = sems s \<and> mutexes s' = mutexes s \<and> events s' = events s
    \<and> ThreadTimer t \<in> set (timer_q s' HardTimers) \<and> delay s' (ThreadTimer t) = unat ticks"
proof -
  note k = kinvD [OF assms(1)]
  obtain s' where s': "arm_thread_timer c t ticks s = Inr s'" "timers_wf s'" "sched_inv s'"
    "ThreadTimer t \<in> set (timer_q s' HardTimers)" "delay s' (ThreadTimer t) = unat ticks"
    "threads s' = threads s" "queues s' = queues s" "cpus s' = cpus s"
    "sems s' = sems s" "mutexes s' = mutexes s" "events s' = events s"
    using arm_thread_timer_ok [OF k(2) assms(3), of c t] k(1) by blast
  have "set (timer_q s' HardTimers) \<subseteq> insert (ThreadTimer t) (set (timer_q s HardTimers))"
  proof -
    have "timer_flag (timers s (ThreadTimer t)) AND RT_TIMER_FLAG_SOFT_TIMER = 0"
      using k(2) by (auto simp: timers_wf_def timer_list_of_def split: if_splits)
    then have "s' = timer_enqueue (ThreadTimer t) (upd_timer (ThreadTimer t) (\<lambda>r. r\<lparr>timer_init_tick := ticks\<rparr>) s)"
      using s'(1) assms(3)
      by (simp add: arm_thread_timer_def rt_timer_control_set_time rt_timer_start_def Let_def timer_enqueue_timers)
    then show ?thesis by (auto simp: timer_enqueue_q Let_def split: if_splits)
  qed
  then have "sleepers_ok s'" using k(4) assms(2) s'(6) by (auto simp: sleepers_ok_def thread_stat_def)
  moreover have "waits_ok s'" using k(3) s'(6,7) by (simp add: waits_ok_def thread_stat_def)
  ultimately show ?thesis using s' by (simp add: kinv_def)
qed

text \<open>The whole wait of a running thread.\<close>

lemma ipc_wait_ok:
  assumes "kinv s" "rt_thread_self c s = Some t" "thread_stat s t = RT_THREAD_RUNNING" "scheduler_available c s"
    "flag_ok flag" "is_wait_q q" "timeout_ok timeout"
  shows "\<exists>s'. ipc_wait c q flag timeout s = Inr s' \<and> kinv s'
    \<and> threads s' = (threads s)(t := set_stat RT_THREAD_SUSPEND ((threads s t)\<lparr>error := RT_EOK\<rparr>))
    \<and> queues s' = (queues s)(q := order_of flag (\<lambda>u. current_priority (threads s u)) t (queues s q))
    \<and> sems s' = sems s \<and> mutexes s' = mutexes s \<and> events s' = events s
    \<and> (\<forall>c. current_thread (cpus s' c) = current_thread (cpus s c) \<and> irq_nest (cpus s' c) = irq_nest (cpus s c))
    \<and> (0 < sint timeout \<longrightarrow> ThreadTimer t \<in> set (timer_q s' HardTimers) \<and> delay s' (ThreadTimer t) = nat (sint timeout))"
proof -
  let ?e = "upd_thread t (\<lambda>th. th\<lparr>error := RT_EOK\<rparr>) s"
  have ke: "kinv ?e" by (rule kinv_upd_thread [OF assms(1)]) (simp add: same_sched_def)
  have pr: "(\<lambda>u. current_priority (threads ?e u)) = (\<lambda>u. current_priority (threads s u))" by auto
  obtain s1 where s1: "ipc_list_suspend c q t flag ?e = Inr s1" "kinv s1"
    "threads s1 = (threads s)(t := set_stat RT_THREAD_SUSPEND ((threads s t)\<lparr>error := RT_EOK\<rparr>))"
    "queues s1 = (queues s)(q := order_of flag (\<lambda>u. current_priority (threads s u)) t (queues s q))"
    "sems s1 = sems s" "mutexes s1 = mutexes s" "events s1 = events s"
    "\<And>c. current_thread (cpus s1 c) = current_thread (cpus s c) \<and> irq_nest (cpus s1 c) = irq_nest (cpus s c)"
    using ipc_list_suspend_ok [OF ke _ _ assms(5,6), of c t, unfolded pr] assms(2,3)
    by (auto simp: rt_thread_self_def thread_stat_def)
  show ?thesis
  proof (cases "0 < sint timeout")
    case True
    have u: "sint timeout = int (unat timeout)" using True by (intro sint_nonneg) simp
    have lt: "timeout < RT_TICK_MAX div 2"
      using assms(7) u by (simp add: timeout_ok_def RT_TICK_HALF word_less_def)
    have st: "thread_stat s1 t = RT_THREAD_SUSPEND" by (simp add: thread_stat_def s1(3))
    obtain s2 where "arm_thread_timer c t timeout s1 = Inr s2" "kinv s2" "threads s2 = threads s1" "queues s2 = queues s1"
      "cpus s2 = cpus s1" "sems s2 = sems s1" "mutexes s2 = mutexes s1" "events s2 = events s1"
      "ThreadTimer t \<in> set (timer_q s2 HardTimers)" "delay s2 (ThreadTimer t) = unat timeout"
      using kinv_arm [OF s1(2) st lt, of c] by blast
    then show ?thesis using s1 True assms(2,4) u by (auto simp: ipc_wait_def)
  next
    case False
    then show ?thesis using s1 assms(2,4) by (auto simp: ipc_wait_def)
  qed
qed

subsection \<open>Waking all\<close>

lemma resume_list_ok:
  assumes "kinv s" "\<And>t. t \<in> set ts \<Longrightarrow> thread_stat s t = RT_THREAD_SUSPEND" "distinct ts"
  shows "\<exists>s'. resume_list c ts s = Inr s' \<and> kinv s' \<and> sems s' = sems s \<and> mutexes s' = mutexes s \<and> events s' = events s
    \<and> (\<forall>q. \<not> is_ready_q q \<longrightarrow> queues s' q = filter (\<lambda>t. t \<notin> set ts) (queues s q))
    \<and> (\<forall>t. t \<notin> set ts \<longrightarrow> threads s' t = threads s t)
    \<and> (\<forall>t \<in> set ts. awake (thread_stat s' t) \<and> error (threads s' t) = - RT_ERROR)"
  using assms
proof (induction ts arbitrary: s)
  case Nil
  then show ?case by simp
next
  case (Cons t ts)
  let ?e = "upd_thread t (\<lambda>th. th\<lparr>error := - RT_ERROR\<rparr>) s"
  let ?r = "fst (rt_thread_resume c t ?e)"
  have st: "thread_stat ?e t = RT_THREAD_SUSPEND" using Cons.prems(2) [of t] by (simp add: thread_stat_def)
  have k: "kinv ?r" by (intro kinv_resume kinv_upd_thread Cons.prems(1)) (simp add: same_sched_def)
  have oth: "threads ?r u = threads s u" if "u \<noteq> t" for u
    using rt_thread_resume_stat(2) [OF st that] that by simp
  have "\<exists>s'. resume_list c ts ?r = Inr s' \<and> kinv s' \<and> sems s' = sems ?r \<and> mutexes s' = mutexes ?r \<and> events s' = events ?r
    \<and> (\<forall>q. \<not> is_ready_q q \<longrightarrow> queues s' q = filter (\<lambda>t. t \<notin> set ts) (queues ?r q))
    \<and> (\<forall>t. t \<notin> set ts \<longrightarrow> threads s' t = threads ?r t)
    \<and> (\<forall>t \<in> set ts. awake (thread_stat s' t) \<and> error (threads s' t) = - RT_ERROR)"
  proof (rule Cons.IH [OF k])
    fix u assume u: "u \<in> set ts"
    then have "u \<noteq> t" using Cons.prems(3) by auto
    with u show "thread_stat ?r u = RT_THREAD_SUSPEND"
      using Cons.prems(2) [of u] oth [of u] by (simp add: thread_stat_def)
  qed (use Cons.prems(3) in simp)
  then obtain s' where s': "resume_list c ts ?r = Inr s'" "kinv s'" "sems s' = sems s" "mutexes s' = mutexes s" "events s' = events s"
    "\<And>q. \<not> is_ready_q q \<Longrightarrow> queues s' q = filter (\<lambda>t. t \<notin> set ts) (queues ?r q)"
    "\<And>u. u \<notin> set ts \<Longrightarrow> threads s' u = threads ?r u"
    "\<And>u. u \<in> set ts \<Longrightarrow> awake (thread_stat s' u) \<and> error (threads s' u) = - RT_ERROR"
    by auto
  have q: "queues ?r q = removeAll t (queues s q)" if "\<not> is_ready_q q" for q
    using rt_thread_resume_queues [OF st that] by simp
  have tr: "threads s' t = threads ?r t" using Cons.prems(3) s'(7) by simp
  have at: "awake (thread_stat s' t)"
    using rt_thread_resume_stat(1) [OF st] tr by (simp add: thread_stat_def awake_def)
  have er: "error (threads s' t) = - RT_ERROR"
    using st by (simp add: tr rt_thread_resume_def Let_def insert_thread_threads)
  have f: "filter (\<lambda>t. t \<notin> set ts) (removeAll t xs) = filter (\<lambda>u. u \<notin> set (t # ts)) xs" for xs
    by (simp add: removeAll_filter_not_eq) (metis (mono_tags, lifting))
  show ?case
    using s' st q at er f oth by (intro exI [of _ s']) (auto simp: Let_def)
qed

lemma ipc_list_resume_all_ok:
  assumes "kinv s" "is_wait_q q"
  shows "\<exists>s'. ipc_list_resume_all c q s = Inr s' \<and> kinv s' \<and> sems s' = sems s \<and> mutexes s' = mutexes s \<and> events s' = events s
    \<and> queues s' q = [] \<and> (\<forall>t. t \<notin> set (queues s q) \<longrightarrow> threads s' t = threads s t)
    \<and> (\<forall>t \<in> set (queues s q). awake (thread_stat s' t) \<and> error (threads s' t) = - RT_ERROR)"
proof -
  have "thread_stat s t = RT_THREAD_SUSPEND" if "t \<in> set (queues s q)" for t
    using that assms kinvD(3) by (auto simp: waits_ok_def)
  moreover have "distinct (queues s q)" using sched_invD(4) [OF kinvD(1) [OF assms(1)]] by (simp add: queues_wf_def)
  ultimately show ?thesis
    using resume_list_ok [OF assms(1), of "queues s q" c] assms(2)
    by (auto simp: ipc_list_resume_all_def is_wait_q_def)
qed


subsection \<open>Calls that return\<close>

text \<open>
  A core in thread context that holds no lock can always switch: all stacks are intact, and some thread, the idle
  thread at least, is ready for it. Then \<open>rt_schedule\<close> returns, and with it the calls that wait or wake.
\<close>

definition preemptible :: "cpuid \<Rightarrow> kernel \<Rightarrow> bool" where
  "preemptible c s \<longleftrightarrow> c < RT_CPUS_NR \<and> irq_nest (cpus s c) = 0 \<and> stacks_ok s
     \<and> (\<exists>t. current_thread (cpus s c) = Some t \<and> scheduler_lock_nest (threads s t) = 0 \<and> cpus_lock_nest (threads s t) = 0)
     \<and> (\<exists>u. thread_stat s u = RT_THREAD_READY \<and> may_run c (threads s u))"

definition ctx_same :: "rt_thread \<Rightarrow> rt_thread \<Rightarrow> bool" where
  "ctx_same th th' \<longleftrightarrow> scheduler_stack_check th' = scheduler_stack_check th \<and> bind_cpu th' = bind_cpu th
     \<and> scheduler_lock_nest th' = scheduler_lock_nest th \<and> cpus_lock_nest th' = cpus_lock_nest th"

lemma ctx_same_simps [simp]:
  "ctx_same th th" "ctx_same th (set_stat x th') = ctx_same th th'" "ctx_same th (th'\<lparr>error := e\<rparr>) = ctx_same th th'"
  "ctx_same th (th'\<lparr>pending_object := p\<rparr>) = ctx_same th th'" "ctx_same th (th'\<lparr>taken_object_list := l\<rparr>) = ctx_same th th'"
  "ctx_same th (th'\<lparr>event_set := b\<rparr>) = ctx_same th th'" "ctx_same th (th'\<lparr>event_info := i\<rparr>) = ctx_same th th'"
  by (simp_all add: ctx_same_def scheduler_stack_check_def) (simp_all add: set_stat_def)

lemma preemptible_frame:
  assumes "preemptible c s" "current_thread (cpus s' c) = current_thread (cpus s c)" "irq_nest (cpus s' c) = irq_nest (cpus s c)"
    "\<And>t. ctx_same (threads s t) (threads s' t)"
    "\<And>u. thread_stat s u = RT_THREAD_READY \<Longrightarrow> thread_stat s' u = RT_THREAD_READY"
  shows "preemptible c s'"
  using assms unfolding preemptible_def stacks_ok_def ctx_same_def may_run_def by metis

lemma preemptible_schedule:
  assumes "kinv s" "preemptible c s"
  shows "\<exists>s'. rt_schedule c s = Inr s'"
  using rt_schedule_best [OF kinvD(1) [OF assms(1)], of c] assms(2) unfolding preemptible_def by metis

lemma schedule_returns:
  assumes "kinv s" "irq_nest (cpus s c) \<noteq> 0 \<or> preemptible c s"
  shows "\<exists>s'. rt_schedule c s = Inr s'"
  using assms preemptible_schedule rt_schedule_in_irq by blast

lemma preemptible_resume:
  assumes "preemptible c s"
  shows "preemptible c (fst (rt_thread_resume c t s))" 
proof (cases "thread_stat s t = RT_THREAD_SUSPEND")
  case True
  show ?thesis
  proof (rule preemptible_frame [OF assms])
    show "thread_stat (fst (rt_thread_resume c t s)) u = RT_THREAD_READY" if "thread_stat s u = RT_THREAD_READY" for u
      using that True rt_thread_resume_stat(2) [OF True, of u c] by (cases "u = t") (auto simp: thread_stat_def)
  qed (use True in \<open>auto simp: rt_thread_resume_def Let_def insert_thread_threads\<close>)
qed (use assms in \<open>simp add: rt_thread_resume_def\<close>)

lemma preemptible_sleep:
  assumes "preemptible c s" "thread_stat s t = RT_THREAD_RUNNING"
    "threads s' = (threads s)(t := set_stat RT_THREAD_SUSPEND ((threads s t)\<lparr>error := e\<rparr>))"
    "current_thread (cpus s' c) = current_thread (cpus s c)" "irq_nest (cpus s' c) = irq_nest (cpus s c)"
  shows "preemptible c s'"
  by (rule preemptible_frame [OF assms(1,4,5)]) (use assms(2,3) in \<open>auto simp: thread_stat_def\<close>)

lemma preemptible_upd_error:
  assumes "preemptible c s"
  shows "preemptible c (upd_thread t (\<lambda>th. th\<lparr>error := e\<rparr>) s)"
  by (rule preemptible_frame [OF assms]) (auto simp: thread_stat_def)

lemma ipc_wait_schedule:
  assumes "kinv s" "preemptible c s" "rt_thread_self c s = Some t" "thread_stat s t = RT_THREAD_RUNNING"
    "scheduler_available c s" "flag_ok flag" "is_wait_q q" "timeout_ok timeout"
  shows "\<exists>s1 s'. ipc_wait c q flag timeout s = Inr s1 \<and> rt_schedule c s1 = Inr s'"
proof -
  obtain s1 where s1: "ipc_wait c q flag timeout s = Inr s1" "kinv s1"
    "threads s1 = (threads s)(t := set_stat RT_THREAD_SUSPEND ((threads s t)\<lparr>error := RT_EOK\<rparr>))"
    "current_thread (cpus s1 c) = current_thread (cpus s c)" "irq_nest (cpus s1 c) = irq_nest (cpus s c)"
    using ipc_wait_ok [OF assms(1,3-8)] by blast
  from preemptible_schedule [OF s1(2) preemptible_sleep [OF assms(2,4) s1(3-5)]] s1(1) show ?thesis by blast
qed

lemma ipc_resume_schedule:
  assumes "kinv s" "irq_nest (cpus s c) \<noteq> 0 \<or> preemptible c s"
  shows "\<exists>s'. rt_schedule c (fst (rt_thread_resume c t s)) = Inr s'"
proof (rule schedule_returns [OF kinv_resume [OF assms(1)]])
  have "irq_nest (cpus (fst (rt_thread_resume c t s)) c) = irq_nest (cpus s c)"
    by (simp add: rt_thread_resume_def Let_def)
  then show "irq_nest (cpus (fst (rt_thread_resume c t s)) c) \<noteq> 0 \<or> preemptible c (fst (rt_thread_resume c t s))"
    using assms(2) preemptible_resume by auto
qed

subsection \<open>The example system\<close>

lemma demo_kinv: "kinv demo_running" "kinv demo_ready"
proof -
  have w: "timers_wf demo_running" "timers_wf demo_ready"
    by (subst timers_wf_cong [OF _ _ _, of _ blank_kernel];
        simp add: demo_ready_def demo_running_def rt_tick_get_def blank_timers_wf; simp add: blank_kernel_def blank_cpu_def)+
  have q: "queues demo_running q = []" for q by (simp add: demo_running_def blank_kernel_def)
  have q2: "queues demo_ready q = []" if "\<not> is_ready_q q" for q
    using that by (simp add: demo_ready_def q)
  have tq: "timer_q demo_running x = []" "timer_q demo_ready x = []" for x
    by (simp_all add: demo_ready_def) (simp_all add: demo_running_def blank_kernel_def)
  show "kinv demo_running" using w demo_running_inv by (simp add: kinv_def waits_ok_def sleepers_ok_def q tq)
  show "kinv demo_ready" using w demo_ready_inv by (auto simp: kinv_def waits_ok_def sleepers_ok_def is_wait_q_def q2 tq)
qed

lemma demo_ready_available: "scheduler_available 0 demo_ready"
  using demo_ready_sel(1,2)
  by (simp add: scheduler_available_def rt_critical_level_def rt_thread_self_def rt_interrupt_get_nest_def)
    (simp add: demo_ready_threads demo_running_def demo_thread_def blank_thread_def)

lemma demo_ready_self: "rt_thread_self 0 demo_ready = Some 4"
  by (simp add: rt_thread_self_def demo_ready_sel)

lemma demo_ready_waits: "\<not> is_ready_q q \<Longrightarrow> queues demo_ready q = []"
  by (simp add: demo_ready_def) (simp add: demo_running_def blank_kernel_def)

lemma demo_ready_objects:
  "sems demo_ready = sems blank_kernel" "mutexes demo_ready = mutexes blank_kernel" "events demo_ready = events blank_kernel"
  by (simp_all add: demo_ready_def) (simp_all add: demo_running_def)

lemma demo_preemptible: "preemptible 0 demo_ready"
proof -
  have "may_run 0 (threads demo_ready 2)"
    by (simp add: demo_ready_threads may_run_def demo_running_def demo_thread_def blank_thread_def)
  then show ?thesis unfolding preemptible_def using demo_ready_sel by auto
qed

end
