(* ===== verification/Rt_Event.thy ===== *)
theory Rt_Event
  imports Rt_Ipc
begin

unbundle bit_operations_syntax

text \<open>
  Event sets, \<open>src/ipc.c\<close>: 32 bits, and threads that wait for all (\<open>RT_EVENT_FLAG_AND\<close>) or any
  (\<open>RT_EVENT_FLAG_OR\<close>) of the bits they name, and may consume them (\<open>RT_EVENT_FLAG_CLEAR\<close>). The
  specification serves the waiters in order over the bits alone; the lemmas show that \<open>rt_event_send\<close>
  refines it and leaves no thread waiting whose condition holds.
\<close>

definition RT_EVENT_FLAG_AND :: u8 where "RT_EVENT_FLAG_AND = 1"
definition RT_EVENT_FLAG_OR :: u8 where "RT_EVENT_FLAG_OR = 2"
definition RT_EVENT_FLAG_CLEAR :: u8 where "RT_EVENT_FLAG_CLEAR = 4"

lemmas event_flag_defs = RT_EVENT_FLAG_AND_def RT_EVENT_FLAG_OR_def RT_EVENT_FLAG_CLEAR_def

subsection \<open>Operations\<close>

definition rt_event_init :: "nat \<Rightarrow> u8 \<Rightarrow> kernel \<Rightarrow> kernel res" where
  "rt_event_init i flag s =
    rt_assert (flag = RT_IPC_FLAG_FIFO \<or> flag = RT_IPC_FLAG_PRIO)
      (Inr (upd_event i (\<lambda>_. \<lparr>event_flag = flag, set_bits = 0\<rparr>) (s\<lparr>queues := (queues s)(EventQ i := [])\<rparr>)))"

definition rt_event_create :: "cpuid \<Rightarrow> nat option \<Rightarrow> u8 \<Rightarrow> kernel \<Rightarrow> (kernel \<times> nat option) res" where
  "rt_event_create c alloc flag s =
    rt_assert (flag = RT_IPC_FLAG_FIFO \<or> flag = RT_IPC_FLAG_PRIO)
      (rt_assert (rt_interrupt_get_nest c s = 0)
        (case alloc of None \<Rightarrow> Inr (s, None)
         | Some i \<Rightarrow> Inr (upd_event i (\<lambda>_. \<lparr>event_flag = flag, set_bits = 0\<rparr>) (s\<lparr>queues := (queues s)(EventQ i := [])\<rparr>), Some i)))"

definition rt_event_detach :: "cpuid \<Rightarrow> nat \<Rightarrow> kernel \<Rightarrow> kernel res" where
  "rt_event_detach c i s = ipc_list_resume_all c (EventQ i) s"

definition rt_event_delete :: "cpuid \<Rightarrow> nat \<Rightarrow> kernel \<Rightarrow> kernel res" where
  "rt_event_delete c i s = rt_assert (rt_interrupt_get_nest c s = 0) (ipc_list_resume_all c (EventQ i) s)"

text \<open>
  The loop of \<open>rt_event_send\<close> over the waiting list; it saves the next node before the current thread
  is unlinked. The result is the state, whether a thread was made ready, and whether the loop ended
  early at a thread with neither option.
\<close>

fun event_scan :: "cpuid \<Rightarrow> nat \<Rightarrow> tid list \<Rightarrow> bool \<Rightarrow> kernel \<Rightarrow> kernel \<times> bool \<times> bool" where
  "event_scan c i [] need s = (s, need, False)"
| "event_scan c i (t # ts) need s =
    (let info = event_info (threads s t); want = event_set (threads s t); bits = set_bits (events s i) in
     if info AND RT_EVENT_FLAG_AND \<noteq> 0 \<or> info AND RT_EVENT_FLAG_OR \<noteq> 0
     then
       let ok = (if info AND RT_EVENT_FLAG_AND \<noteq> 0 then want AND bits = want else want AND bits \<noteq> 0) in
       if ok
       then
         let s = (if info AND RT_EVENT_FLAG_AND \<noteq> 0 then s else upd_thread t (\<lambda>th. th\<lparr>event_set := want AND bits\<rparr>) s);
             s = (if info AND RT_EVENT_FLAG_CLEAR \<noteq> 0
                  then upd_event i (\<lambda>e. e\<lparr>set_bits := bits AND NOT (event_set (threads s t))\<rparr>) s else s);
             s = fst (rt_thread_resume c t s)
         in event_scan c i ts True s
       else event_scan c i ts need s
     else (s, need, True))"

definition rt_event_send :: "cpuid \<Rightarrow> nat \<Rightarrow> u32 \<Rightarrow> kernel \<Rightarrow> (kernel \<times> int) res" where
  "rt_event_send c i st s =
    (if st = 0 then Inr (s, - RT_ERROR)
     else
       let s = upd_event i (\<lambda>e. e\<lparr>set_bits := set_bits e OR st\<rparr>) s in
       case event_scan c i (queues s (EventQ i)) False s of (s, need, invalid) \<Rightarrow>
         if invalid then Inr (s, - RT_EINVAL)
         else if need then and_then (rt_schedule c s) (\<lambda>s. Inr (s, RT_EOK)) else Inr (s, RT_EOK))"

text \<open>
  \<open>rt_event_recv\<close> also yields what it stores through \<open>recved\<close>, if that is not null. The wait is
  \<open>ipc_wait\<close>, whose check of the scheduler and reset of the error repeat what was done before.
\<close>

definition rt_event_recv ::
  "cpuid \<Rightarrow> nat \<Rightarrow> u32 \<Rightarrow> u8 \<Rightarrow> 32 word \<Rightarrow> bool \<Rightarrow> kernel \<Rightarrow> (kernel \<times> u32 option \<times> outcome) res" where
  "rt_event_recv c i st option timeout recved s =
    rt_assert (scheduler_available c s)
     (if st = 0 then Inr (s, None, Return (- RT_ERROR))
      else case rt_thread_self c s of None \<Rightarrow> Inl NullDeref
      | Some t \<Rightarrow>
         let s = upd_thread t (\<lambda>th. th\<lparr>error := RT_EOK\<rparr>) s;
             bits = set_bits (events s i)
         in rt_assert (option AND RT_EVENT_FLAG_AND \<noteq> 0 \<or> option AND RT_EVENT_FLAG_OR \<noteq> 0)
          (if if option AND RT_EVENT_FLAG_AND \<noteq> 0 then bits AND st = st else bits AND st \<noteq> 0
           then
             let s = upd_thread t (\<lambda>th. th\<lparr>event_set := bits AND st, event_info := option\<rparr>) s;
                 s = (if option AND RT_EVENT_FLAG_CLEAR \<noteq> 0
                      then upd_event i (\<lambda>e. e\<lparr>set_bits := set_bits e AND NOT st\<rparr>) s else s)
             in Inr (s, if recved then Some (bits AND st) else None, Return (error (threads s t)))
           else if timeout = 0
           then Inr (upd_thread t (\<lambda>th. th\<lparr>error := - RT_ETIMEOUT\<rparr>) s, None, Return (- RT_ETIMEOUT))
           else
             let s = upd_thread t (\<lambda>th. th\<lparr>event_set := st, event_info := option\<rparr>) s in
             and_then (ipc_wait c (EventQ i) (event_flag (events s i)) timeout s) (\<lambda>s.
             and_then (rt_schedule c s) (\<lambda>s. Inr (s, None, Blocked)))))"

definition rt_event_recv_cont :: "tid \<Rightarrow> bool \<Rightarrow> kernel \<Rightarrow> u32 option \<times> int" where
  "rt_event_recv_cont t recved s =
    (if error (threads s t) \<noteq> RT_EOK then (None, error (threads s t))
     else (if recved then Some (event_set (threads s t)) else None, error (threads s t)))"

definition rt_event_control :: "cpuid \<Rightarrow> nat \<Rightarrow> bool \<Rightarrow> kernel \<Rightarrow> (kernel \<times> int) res" where
  "rt_event_control c i is_reset s =
    (if is_reset
     then and_then (ipc_list_resume_all c (EventQ i) s) (\<lambda>s.
          and_then (rt_schedule c (upd_event i (\<lambda>e. e\<lparr>set_bits := 0\<rparr>) s)) (\<lambda>s. Inr (s, RT_EOK)))
     else Inr (s, - RT_ERROR))"

subsection \<open>Specification\<close>

text \<open>Serving waiters in order: who is woken with which bits, and the bits that are left.\<close>

definition event_satisfied :: "u8 \<Rightarrow> u32 \<Rightarrow> u32 \<Rightarrow> bool" where
  "event_satisfied info want bits \<longleftrightarrow>
    (if info AND RT_EVENT_FLAG_AND \<noteq> 0 then want AND bits = want else want AND bits \<noteq> 0)"

definition event_option_ok :: "u8 \<Rightarrow> bool" where
  "event_option_ok info \<longleftrightarrow> info AND RT_EVENT_FLAG_AND \<noteq> 0 \<or> info AND RT_EVENT_FLAG_OR \<noteq> 0"

definition event_rest :: "u8 \<Rightarrow> u32 \<Rightarrow> u32 \<Rightarrow> u32" where
  "event_rest info want bits = (if info AND RT_EVENT_FLAG_CLEAR \<noteq> 0 then bits AND NOT (want AND bits) else bits)"

fun event_serve :: "(tid \<Rightarrow> u8) \<Rightarrow> (tid \<Rightarrow> u32) \<Rightarrow> tid list \<Rightarrow> u32 \<Rightarrow> (tid \<times> u32) list \<times> u32" where
  "event_serve info want [] bits = ([], bits)"
| "event_serve info want (t # ts) bits =
    (if event_satisfied (info t) (want t) bits
     then let r = event_serve info want ts (event_rest (info t) (want t) bits)
          in ((t, want t AND bits) # fst r, snd r)
     else event_serve info want ts bits)"

lemma event_serve_cong:
  assumes "\<And>t. t \<in> set ts \<Longrightarrow> info t = info' t \<and> want t = want' t"
  shows "event_serve info want ts bits = event_serve info' want' ts bits"
  using assms by (induction ts arbitrary: bits) (simp_all add: Let_def)

lemma event_satisfied_mono:
  assumes "b AND b' = b" "event_satisfied info want b"
  shows "event_satisfied info want b'"
proof (cases "info AND RT_EVENT_FLAG_AND \<noteq> 0")
  case True
  then have "want AND b = want" using assms(2) by (simp add: event_satisfied_def)
  then have "want AND b' = want" using assms(1) by (metis and.assoc)
  with True show ?thesis by (simp add: event_satisfied_def)
next
  case False
  then have "want AND b \<noteq> 0" using assms(2) by (simp add: event_satisfied_def)
  then have "want AND b' \<noteq> 0" using assms(1) by (metis and.left_commute and_zero_eq)
  with False show ?thesis by (simp add: event_satisfied_def)
qed

lemma event_serve_bits: "snd (event_serve info want ts bits) AND bits = snd (event_serve info want ts bits)"
proof (induction ts arbitrary: bits)
  case Nil
  then show ?case by simp
next
  case (Cons t ts)
  have sub: "b AND bits = b" if "b AND event_rest info' want' bits = b" for b info' want'
  proof (cases "info' AND RT_EVENT_FLAG_CLEAR \<noteq> 0")
    case True
    define x where "x = NOT (want' AND bits)"
    have b: "b AND (bits AND x) = b" using that True by (simp add: event_rest_def x_def)
    have "(b AND (bits AND x)) AND bits = b AND (bits AND x)" by (simp add: ac_simps)
    then show ?thesis unfolding b .
  qed (use that in \<open>simp add: event_rest_def\<close>)
  show ?case using Cons.IH [of bits] sub [OF Cons.IH] by (simp add: Let_def)
qed

text \<open>Nobody is left waiting whose condition holds in the end, and the woken were waiting.\<close>

lemma event_serve_left:
  assumes "t \<in> set ts" "t \<notin> fst ` set (fst (event_serve info want ts bits))"
  shows "\<not> event_satisfied (info t) (want t) (snd (event_serve info want ts bits))"
  using assms
proof (induction ts arbitrary: bits)
  case Nil
  then show ?case by simp
next
  case (Cons u ts)
  show ?case
  proof (cases "event_satisfied (info u) (want u) bits")
    case True
    with Cons show ?thesis by (auto simp: Let_def)
  next
    case False
    show ?thesis
    proof (cases "t \<in> set ts")
      case True
      with False Cons show ?thesis by simp
    next
      case nin: False
      then have "t = u" using Cons.prems(1) by simp
      with False event_satisfied_mono [OF event_serve_bits [of info want ts bits]] show ?thesis by auto
    qed
  qed
qed

lemma event_serve_woken: "fst ` set (fst (event_serve info want ts bits)) \<subseteq> set ts"
proof (induction ts arbitrary: bits)
  case (Cons t ts)
  then show ?case using Cons.IH [of bits] Cons.IH [of "event_rest (info t) (want t) bits"] by (auto simp: Let_def)
qed simp

subsection \<open>Refinement\<close>

lemma event_wait_q [simp]: "is_wait_q (EventQ i)" "\<not> is_ready_q (EventQ i)"
  by (simp_all add: is_wait_q_def)

definition event_inv :: "nat \<Rightarrow> kernel \<Rightarrow> bool" where
  "event_inv i s \<longleftrightarrow> flag_ok (event_flag (events s i))
     \<and> (\<forall>t \<in> set (queues s (EventQ i)). event_option_ok (event_info (threads s t))
          \<and> \<not> event_satisfied (event_info (threads s t)) (event_set (threads s t)) (set_bits (events s i)))"

text \<open>What becomes of one thread that is woken.\<close>

definition event_wake :: "cpuid \<Rightarrow> nat \<Rightarrow> tid \<Rightarrow> kernel \<Rightarrow> kernel" where
  "event_wake c i t s =
    (let got = event_set (threads s t) AND set_bits (events s i);
         s1 = upd_thread t (\<lambda>th. th\<lparr>event_set := got\<rparr>) s;
         s2 = (if event_info (threads s t) AND RT_EVENT_FLAG_CLEAR \<noteq> 0
               then upd_event i (\<lambda>e. e\<lparr>set_bits := set_bits (events s i) AND NOT got\<rparr>) s1 else s1)
     in fst (rt_thread_resume c t s2))"

lemma event_scan_step:
  assumes "event_option_ok (event_info (threads s t))"
  shows "event_scan c i (t # ts) need s =
    (if event_satisfied (event_info (threads s t)) (event_set (threads s t)) (set_bits (events s i))
     then event_scan c i ts True (event_wake c i t s) else event_scan c i ts need s)"
proof -
  have id: "upd_thread t (\<lambda>th. th\<lparr>event_set := event_set (threads s t)\<rparr>) s = s"
    by (simp add: upd_thread_def)
  show ?thesis using assms
    by (auto simp: event_option_ok_def event_satisfied_def event_wake_def Let_def id)
qed

lemma event_wake_ok:
  assumes "kinv s" "thread_stat s t = RT_THREAD_SUSPEND"
  shows "kinv (event_wake c i t s)" "sems (event_wake c i t s) = sems s" "mutexes (event_wake c i t s) = mutexes s"
    "events (event_wake c i t s) i = (events s i)\<lparr>set_bits :=
       event_rest (event_info (threads s t)) (event_set (threads s t)) (set_bits (events s i))\<rparr>"
    "j \<noteq> i \<Longrightarrow> events (event_wake c i t s) j = events s j"
    "\<not> is_ready_q q \<Longrightarrow> queues (event_wake c i t s) q = removeAll t (queues s q)"
    "u \<noteq> t \<Longrightarrow> threads (event_wake c i t s) u = threads s u"
    "awake (thread_stat (event_wake c i t s) t)"
    "event_set (threads (event_wake c i t s) t) = event_set (threads s t) AND set_bits (events s i)"
    "error (threads (event_wake c i t s) t) = error (threads s t)"
proof -
  define s1 where "s1 = upd_thread t (\<lambda>th. th\<lparr>event_set := event_set th AND set_bits (events s i)\<rparr>) s"
  define s2 where "s2 = (if event_info (threads s t) AND RT_EVENT_FLAG_CLEAR \<noteq> 0
     then upd_event i (\<lambda>e. e\<lparr>set_bits := set_bits (events s i) AND NOT (event_set (threads s t) AND set_bits (events s i))\<rparr>) s1 else s1)"
  have e: "event_wake c i t s = fst (rt_thread_resume c t s2)"
    by (simp add: event_wake_def s1_def s2_def Let_def upd_thread_def)
  have "kinv s1" unfolding s1_def by (rule kinv_upd_thread [OF assms(1)]) (simp add: same_sched_def)
  then have k: "kinv s2" by (simp add: s2_def)
  have th: "threads s2 = (threads s)(t := (threads s t)\<lparr>event_set := event_set (threads s t) AND set_bits (events s i)\<rparr>)"
    by (simp add: s2_def s1_def)
  have q: "queues s2 = queues s" by (simp add: s2_def s1_def)
  have st: "thread_stat s2 t = RT_THREAD_SUSPEND" using assms(2) by (simp add: thread_stat_def th)
  show "kinv (event_wake c i t s)" unfolding e by (rule kinv_resume [OF k])
  show "sems (event_wake c i t s) = sems s" "mutexes (event_wake c i t s) = mutexes s"
    "events (event_wake c i t s) i = (events s i)\<lparr>set_bits :=
       event_rest (event_info (threads s t)) (event_set (threads s t)) (set_bits (events s i))\<rparr>"
    "j \<noteq> i \<Longrightarrow> events (event_wake c i t s) j = events s j"
    by (simp_all add: e s2_def s1_def event_rest_def)
  show "\<not> is_ready_q q \<Longrightarrow> queues (event_wake c i t s) q = removeAll t (queues s q)"
    using rt_thread_resume_queues [OF st, of q c] by (simp add: e q)
  show "u \<noteq> t \<Longrightarrow> threads (event_wake c i t s) u = threads s u"
    using rt_thread_resume_stat(2) [OF st, of u c] by (simp add: e th)
  show "awake (thread_stat (event_wake c i t s) t)"
    using rt_thread_resume_stat(1) [OF st, of c] by (simp add: e awake_def)
  show "event_set (threads (event_wake c i t s) t) = event_set (threads s t) AND set_bits (events s i)"
    "error (threads (event_wake c i t s) t) = error (threads s t)"
    using st by (simp_all add: e rt_thread_resume_def Let_def insert_thread_threads th)
qed

lemma event_scan_ok:
  assumes "kinv s" "distinct ts"
    "\<And>t. t \<in> set ts \<Longrightarrow> thread_stat s t = RT_THREAD_SUSPEND \<and> event_option_ok (event_info (threads s t))"
    "event_serve (\<lambda>t. event_info (threads s t)) (\<lambda>t. event_set (threads s t)) ts (set_bits (events s i)) = (ws, rest)"
  shows "\<exists>s'. event_scan c i ts need s = (s', need \<or> ws \<noteq> [], False) \<and> kinv s'
    \<and> sems s' = sems s \<and> mutexes s' = mutexes s
    \<and> events s' i = (events s i)\<lparr>set_bits := rest\<rparr> \<and> (\<forall>j. j \<noteq> i \<longrightarrow> events s' j = events s j)
    \<and> (\<forall>q. \<not> is_ready_q q \<longrightarrow> queues s' q = filter (\<lambda>t. t \<notin> fst ` set ws) (queues s q))
    \<and> (\<forall>t. t \<notin> fst ` set ws \<longrightarrow> threads s' t = threads s t)
    \<and> (\<forall>t got. (t, got) \<in> set ws \<longrightarrow> awake (thread_stat s' t) \<and> event_set (threads s' t) = got
          \<and> error (threads s' t) = error (threads s t))"
  using assms
proof (induction ts arbitrary: s need ws)
  case Nil
  then show ?case by simp
next
  case (Cons t ts)
  have st: "thread_stat s t = RT_THREAD_SUSPEND" and op: "event_option_ok (event_info (threads s t))"
    using Cons.prems(3) by auto
  note step = event_scan_step [OF op, of c i ts need]
  show ?case
  proof (cases "event_satisfied (event_info (threads s t)) (event_set (threads s t)) (set_bits (events s i))")
    case False
    then show ?thesis using Cons.IH [OF Cons.prems(1), of ws need] Cons.prems step by simp
  next
    case True
    let ?w = "event_wake c i t s"
    note w = event_wake_ok [OF Cons.prems(1) st, where c = c and i = i]
    have nt: "t \<notin> set ts" using Cons.prems(2) by simp
    have oth: "threads ?w u = threads s u" if "u \<in> set ts" for u using that nt w(7) [of u] by auto
    let ?r = "event_serve (\<lambda>u. event_info (threads s u)) (\<lambda>u. event_set (threads s u)) ts
      (event_rest (event_info (threads s t)) (event_set (threads s t)) (set_bits (events s i)))"
    have sv: "event_serve (\<lambda>u. event_info (threads ?w u)) (\<lambda>u. event_set (threads ?w u)) ts (set_bits (events ?w i)) = ?r"
      unfolding w(4) by (simp, rule event_serve_cong) (simp add: oth)
    have ws: "ws = (t, event_set (threads s t) AND set_bits (events s i)) # fst ?r" "rest = snd ?r"
      using Cons.prems(4) True by (auto simp: Let_def)
    have nr: "t \<notin> fst ` set (fst ?r)" using event_serve_woken nt by blast
    have "\<exists>s'. event_scan c i ts True ?w = (s', True \<or> fst ?r \<noteq> [], False) \<and> kinv s'
      \<and> sems s' = sems ?w \<and> mutexes s' = mutexes ?w
      \<and> events s' i = (events ?w i)\<lparr>set_bits := rest\<rparr> \<and> (\<forall>j. j \<noteq> i \<longrightarrow> events s' j = events ?w j)
      \<and> (\<forall>q. \<not> is_ready_q q \<longrightarrow> queues s' q = filter (\<lambda>t. t \<notin> fst ` set (fst ?r)) (queues ?w q))
      \<and> (\<forall>t. t \<notin> fst ` set (fst ?r) \<longrightarrow> threads s' t = threads ?w t)
      \<and> (\<forall>t got. (t, got) \<in> set (fst ?r) \<longrightarrow> awake (thread_stat s' t) \<and> event_set (threads s' t) = got
          \<and> error (threads s' t) = error (threads ?w t))"
    proof (rule Cons.IH [OF w(1)])
      show "distinct ts" using Cons.prems(2) by simp
      show "thread_stat ?w u = RT_THREAD_SUSPEND \<and> event_option_ok (event_info (threads ?w u))" if "u \<in> set ts" for u
        using Cons.prems(3) [of u] that oth [OF that] by (simp add: thread_stat_def)
      show "event_serve (\<lambda>t. event_info (threads ?w t)) (\<lambda>t. event_set (threads ?w t)) ts (set_bits (events ?w i)) = (fst ?r, rest)"
        using sv ws(2) by (simp add: prod_eq_iff)
    qed
    then obtain s' where s': "event_scan c i ts True ?w = (s', True, False)" "kinv s'"
      "sems s' = sems s" "mutexes s' = mutexes s" "events s' i = (events s i)\<lparr>set_bits := rest\<rparr>"
      "\<And>j. j \<noteq> i \<Longrightarrow> events s' j = events s j"
      "\<And>q. \<not> is_ready_q q \<Longrightarrow> queues s' q = filter (\<lambda>t. t \<notin> fst ` set (fst ?r)) (queues ?w q)"
      "\<And>t. t \<notin> fst ` set (fst ?r) \<Longrightarrow> threads s' t = threads ?w t"
      "\<And>u got. (u, got) \<in> set (fst ?r) \<Longrightarrow> awake (thread_stat s' u) \<and> event_set (threads s' u) = got
          \<and> error (threads s' u) = error (threads ?w u)"
      by (auto simp: w(2,3,4,5))
    have q: "queues s' q = filter (\<lambda>t. t \<notin> fst ` set ws) (queues s q)" if "\<not> is_ready_q q" for q
      using s'(7) [OF that] w(6) [OF that] by (simp add: ws(1) removeAll_filter_not_eq) (metis (mono_tags, lifting))
    have tt: "threads s' t = threads ?w t" by (rule s'(8) [OF nr])
    have aw: "awake (thread_stat s' u) \<and> event_set (threads s' u) = got \<and> error (threads s' u) = error (threads s u)"
      if "(u, got) \<in> set ws" for u got
    proof (cases "(u, got) \<in> set (fst ?r)")
      case True
      then have "u \<in> set ts" using event_serve_woken by force
      with True s'(9) oth show ?thesis by simp
    next
      case False
      then show ?thesis using that w(8-10) tt by (auto simp: ws(1) thread_stat_def)
    qed
    have th: "threads s' u = threads s u" if "u \<notin> fst ` set ws" for u
      using that s'(8) w(7) [of u] by (auto simp: ws(1))
    show ?thesis
      using s'(1-6) q aw th step True by (intro exI [of _ s']) (auto simp: ws(1))
  qed
qed

lemma event_inv_cong:
  assumes "events s' i = events s i" "queues s' (EventQ i) = queues s (EventQ i)"
    "\<And>t. t \<in> set (queues s (EventQ i)) \<Longrightarrow>
      event_set (threads s' t) = event_set (threads s t) \<and> event_info (threads s' t) = event_info (threads s t)"
  shows "event_inv i s' = event_inv i s"
  using assms by (simp add: event_inv_def)

lemma event_inv_schedule:
  assumes "kinv s" "c < RT_CPUS_NR" "rt_schedule c s = Inr s'"
  shows "event_inv i s' = event_inv i s"
proof -
  note os = only_schedD [OF kinv_rt_schedule(2) [OF assms]]
  show ?thesis by (rule event_inv_cong) (use os same_user_sel(9,10) [OF os(1)] in simp_all)
qed

subsection \<open>Sending\<close>

lemma event_wake_preemptible:
  "preemptible c s \<Longrightarrow> preemptible c (event_wake c i t s)" "irq_nest (cpus (event_wake c i t s) c') = irq_nest (cpus s c')"
proof -
  have ev: "preemptible c (upd_event i f x)" if "preemptible c x" for f x
    by (rule preemptible_frame [OF that]) (simp_all add: thread_stat_def)
  have th: "preemptible c (upd_thread t (\<lambda>th. th\<lparr>event_set := b\<rparr>) x)" if "preemptible c x" for b x
    by (rule preemptible_frame [OF that]) (auto simp: thread_stat_def)
  show "preemptible c s \<Longrightarrow> preemptible c (event_wake c i t s)"
    unfolding event_wake_def Let_def by (auto intro!: preemptible_resume ev th)
  show "irq_nest (cpus (event_wake c i t s) c') = irq_nest (cpus s c')"
    by (simp add: event_wake_def Let_def rt_thread_resume_def)
qed

lemma event_scan_preemptible:
  assumes "\<And>t. t \<in> set ts \<Longrightarrow> event_option_ok (event_info (threads s t))" "distinct ts"
    "\<And>t. t \<in> set ts \<Longrightarrow> thread_stat s t = RT_THREAD_SUSPEND" "kinv s" "irq_nest (cpus s c) \<noteq> 0 \<or> preemptible c s"
  shows "irq_nest (cpus (fst (event_scan c i ts need s)) c) \<noteq> 0 \<or> preemptible c (fst (event_scan c i ts need s))"
  using assms
proof (induction ts arbitrary: s need)
  case (Cons t ts)
  note step = event_scan_step [OF Cons.prems(1) [of t], of c i ts need]
  show ?case
  proof (cases "event_satisfied (event_info (threads s t)) (event_set (threads s t)) (set_bits (events s i))")
    case True
    note w = event_wake_ok [OF Cons.prems(4) Cons.prems(3) [of t], where c = c and i = i]
    have oth: "threads (event_wake c i t s) u = threads s u" if "u \<in> set ts" for u
      using that Cons.prems(2) w(7) [of u] by auto
    have "irq_nest (cpus (fst (event_scan c i ts True (event_wake c i t s))) c) \<noteq> 0
        \<or> preemptible c (fst (event_scan c i ts True (event_wake c i t s)))"
      by (rule Cons.IH) (use Cons.prems oth w(1) event_wake_preemptible in \<open>auto simp: thread_stat_def\<close>)
    then show ?thesis using step True by simp
  next
    case False
    then show ?thesis using step Cons.IH [of s need] Cons.prems by simp
  qed
qed simp

lemma event_send_scan:
  assumes "kinv s" "event_inv i s"
    "event_serve (\<lambda>t. event_info (threads s t)) (\<lambda>t. event_set (threads s t)) (queues s (EventQ i))
       (set_bits (events s i) OR st) = (ws, rest)" "irq_nest (cpus s c) \<noteq> 0 \<or> preemptible c s"
  shows "\<exists>s'. event_scan c i (queues s (EventQ i)) False (upd_event i (\<lambda>e. e\<lparr>set_bits := set_bits e OR st\<rparr>) s) = (s', ws \<noteq> [], False)
    \<and> kinv s' \<and> event_inv i s' \<and> set_bits (events s' i) = rest
    \<and> queues s' (EventQ i) = filter (\<lambda>t. t \<notin> fst ` set ws) (queues s (EventQ i))
    \<and> (\<forall>t got. (t, got) \<in> set ws \<longrightarrow> awake (thread_stat s' t) \<and> event_set (threads s' t) = got
          \<and> error (threads s' t) = error (threads s t))
    \<and> (irq_nest (cpus s' c) \<noteq> 0 \<or> preemptible c s')"
proof -
  let ?s = "upd_event i (\<lambda>e. e\<lparr>set_bits := set_bits e OR st\<rparr>) s"
  have k: "kinv ?s" using assms(1) by simp
  have d: "distinct (queues s (EventQ i))"
    using sched_invD(4) [OF kinvD(1) [OF assms(1)]] by (simp add: queues_wf_def)
  have su: "thread_stat ?s t = RT_THREAD_SUSPEND \<and> event_option_ok (event_info (threads ?s t))"
    if "t \<in> set (queues s (EventQ i))" for t
    using that assms(2) kinvD(3) [OF assms(1), unfolded waits_ok_def, rule_format, OF event_wait_q(1) that]
    by (simp add: event_inv_def thread_stat_def)
  have sv: "event_serve (\<lambda>t. event_info (threads ?s t)) (\<lambda>t. event_set (threads ?s t)) (queues s (EventQ i))
      (set_bits (events ?s i)) = (ws, rest)" using assms(3) by simp
  obtain s1 where s1: "event_scan c i (queues s (EventQ i)) False ?s = (s1, False \<or> ws \<noteq> [], False)" "kinv s1"
    "events s1 i = (events ?s i)\<lparr>set_bits := rest\<rparr>"
    "\<forall>q. \<not> is_ready_q q \<longrightarrow> queues s1 q = filter (\<lambda>t. t \<notin> fst ` set ws) (queues ?s q)"
    "\<forall>t. t \<notin> fst ` set ws \<longrightarrow> threads s1 t = threads ?s t"
    "\<forall>t got. (t, got) \<in> set ws \<longrightarrow> awake (thread_stat s1 t) \<and> event_set (threads s1 t) = got
          \<and> error (threads s1 t) = error (threads ?s t)"
    using event_scan_ok [OF k d su sv, of c False] by blast
  have q: "queues s1 (EventQ i) = filter (\<lambda>t. t \<notin> fst ` set ws) (queues s (EventQ i))" using s1(4) by simp
  have left: "\<not> event_satisfied (event_info (threads s t)) (event_set (threads s t)) rest"
    if "t \<in> set (queues s (EventQ i))" "t \<notin> fst ` set ws" for t
    using event_serve_left [OF that(1), of "\<lambda>t. event_info (threads s t)" "\<lambda>t. event_set (threads s t)"] that(2) assms(3)
    by (metis fst_conv snd_conv)
  have "event_inv i s1" using left s1(3,5) assms(2) q by (simp add: event_inv_def)
  moreover have "irq_nest (cpus ?s c) \<noteq> 0 \<or> preemptible c ?s"
    using assms(4) preemptible_frame [of c s ?s] by (auto simp: thread_stat_def)
  then have "irq_nest (cpus s1 c) \<noteq> 0 \<or> preemptible c s1"
    using event_scan_preemptible [OF _ d _ k, of c i False] su s1(1) by simp
  ultimately show ?thesis using s1 q by auto
qed

subsection \<open>Receiving\<close>

text \<open>The call with its guards resolved: deliver, refuse, or record the condition and wait.\<close>

definition event_deliver :: "nat \<Rightarrow> tid \<Rightarrow> u32 \<Rightarrow> u8 \<Rightarrow> kernel \<Rightarrow> kernel" where
  "event_deliver i t st opt s =
    (let s' = upd_thread t (\<lambda>th. th\<lparr>error := RT_EOK, event_set := set_bits (events s i) AND st, event_info := opt\<rparr>) s in
     if opt AND RT_EVENT_FLAG_CLEAR \<noteq> 0 then upd_event i (\<lambda>e. e\<lparr>set_bits := set_bits e AND NOT st\<rparr>) s' else s')"

definition event_ask :: "tid \<Rightarrow> u32 \<Rightarrow> u8 \<Rightarrow> kernel \<Rightarrow> kernel" where
  "event_ask t st opt s = upd_thread t (\<lambda>th. th\<lparr>error := RT_EOK, event_set := st, event_info := opt\<rparr>) s"

lemma event_recv_eq:
  assumes "rt_thread_self c s = Some t" "scheduler_available c s" "event_option_ok opt" "st \<noteq> 0"
  shows "rt_event_recv c i st opt timeout True s =
    (if event_satisfied opt st (set_bits (events s i))
     then Inr (event_deliver i t st opt s, Some (set_bits (events s i) AND st), Return RT_EOK)
     else if timeout = 0 then Inr (upd_thread t (\<lambda>th. th\<lparr>error := - RT_ETIMEOUT\<rparr>) s, None, Return (- RT_ETIMEOUT))
     else and_then (ipc_wait c (EventQ i) (event_flag (events s i)) timeout (event_ask t st opt s)) (\<lambda>s.
          and_then (rt_schedule c s) (\<lambda>s. Inr (s, None, Blocked))))"
proof -
  have twice: "upd_thread t g (upd_thread t f x) = upd_thread t (\<lambda>th. g (f th)) x" for f g x
    by (simp add: upd_thread_def)
  show ?thesis
    using assms by (auto simp: rt_event_recv_def rt_assert_def event_satisfied_def event_option_ok_def event_deliver_def event_ask_def
        Let_def twice and.commute)
qed

lemma event_inv_upd_running:
  assumes "kinv s" "event_inv i s" "thread_stat s t = RT_THREAD_RUNNING"
  shows "event_inv i (upd_thread t f s)" "t \<notin> set (queues s (EventQ i))"
proof -
  show "t \<notin> set (queues s (EventQ i))"
    using removeAll_running(2) [OF kinvD(1) [OF assms(1)] assms(3)] by (simp add: linked_def)
  then show "event_inv i (upd_thread t f s)" using assms(2) by (auto simp: event_inv_def)
qed

lemma event_deliver_ok:
  assumes "kinv s" "event_inv i s" "thread_stat s t = RT_THREAD_RUNNING" "event_satisfied opt st (set_bits (events s i))"
  shows "kinv (event_deliver i t st opt s)" "event_inv i (event_deliver i t st opt s)"
    "queues (event_deliver i t st opt s) = queues s"
    "set_bits (events (event_deliver i t st opt s) i) = event_rest opt st (set_bits (events s i))"
proof -
  let ?bits = "set_bits (events s i)" and ?s = "event_deliver i t st opt s"
  note nw = event_inv_upd_running(2) [OF assms(1-3)]
  have "kinv (upd_thread t (\<lambda>th. th\<lparr>error := RT_EOK, event_set := ?bits AND st, event_info := opt\<rparr>) s)"
    by (rule kinv_upd_thread [OF assms(1)]) (simp add: same_sched_def)
  then show "kinv ?s" by (simp add: event_deliver_def Let_def)
  show q: "queues ?s = queues s" by (simp add: event_deliver_def Let_def)
  have "?bits AND NOT st = event_rest opt st ?bits" if "opt AND RT_EVENT_FLAG_CLEAR \<noteq> 0"
    using that by (auto simp: event_rest_def intro!: bit_eqI simp: bit_simps)
  then show ev: "set_bits (events ?s i) = event_rest opt st ?bits" by (auto simp: event_deliver_def event_rest_def Let_def)
  have fl: "event_flag (events ?s i) = event_flag (events s i)" by (simp add: event_deliver_def Let_def)
  have sub: "event_rest opt st ?bits AND ?bits = event_rest opt st ?bits"
    using event_serve_bits [of "\<lambda>_. opt" "\<lambda>_. st" "[0]" ?bits] assms(4) by (simp add: Let_def)
  have th: "threads ?s u = threads s u" if "u \<in> set (queues s (EventQ i))" for u
    using that nw by (auto simp: event_deliver_def Let_def)
  show "event_inv i ?s"
    using assms(2) ev fl th event_satisfied_mono [OF sub] unfolding event_inv_def q by simp blast
qed

lemma event_ask_ok:
  assumes "kinv s" "preemptible c s" "rt_thread_self c s = Some t" "thread_stat s t = RT_THREAD_RUNNING" "scheduler_available c s"
  shows "kinv (event_ask t st opt s)" "preemptible c (event_ask t st opt s)" "rt_thread_self c (event_ask t st opt s) = Some t"
    "thread_stat (event_ask t st opt s) t = RT_THREAD_RUNNING" "scheduler_available c (event_ask t st opt s)"
    "(\<lambda>u. current_priority (threads (event_ask t st opt s) u)) = (\<lambda>u. current_priority (threads s u))"
proof -
  show "kinv (event_ask t st opt s)"
    unfolding event_ask_def by (rule kinv_upd_thread [OF assms(1)]) (simp add: same_sched_def)
  show "preemptible c (event_ask t st opt s)"
    by (rule preemptible_frame [OF assms(2)]) (auto simp: event_ask_def thread_stat_def)
  show "rt_thread_self c (event_ask t st opt s) = Some t" "thread_stat (event_ask t st opt s) t = RT_THREAD_RUNNING"
    using assms(3,4) by (simp_all add: event_ask_def rt_thread_self_def thread_stat_def)
  show "scheduler_available c (event_ask t st opt s)" using assms(5)
    by (auto simp: event_ask_def scheduler_available_def rt_critical_level_def rt_thread_self_def rt_interrupt_get_nest_def split: option.splits)
  show "(\<lambda>u. current_priority (threads (event_ask t st opt s) u)) = (\<lambda>u. current_priority (threads s u))"
    by (auto simp: event_ask_def)
qed

lemma event_recv_wait:
  assumes "kinv s" "event_inv i s" "preemptible c s" "rt_thread_self c s = Some t" "thread_stat s t = RT_THREAD_RUNNING"
    "scheduler_available c s" "timeout_ok timeout" "event_option_ok opt" "\<not> event_satisfied opt st (set_bits (events s i))"
  shows "\<exists>s1 s'. ipc_wait c (EventQ i) (event_flag (events s i)) timeout (event_ask t st opt s) = Inr s1 \<and> rt_schedule c s1 = Inr s'
    \<and> kinv s' \<and> event_inv i s' \<and> events s' = events s \<and> thread_stat s' t = RT_THREAD_SUSPEND
    \<and> event_set (threads s' t) = st \<and> event_info (threads s' t) = opt
    \<and> queues s' (EventQ i) = order_of (event_flag (events s i)) (\<lambda>u. current_priority (threads s u)) t (queues s (EventQ i))"
proof -
  let ?w = "event_ask t st opt s"
  note w = event_ask_ok [OF assms(1,3-6), of st opt]
  have c: "c < RT_CPUS_NR" using assms(3) by (simp add: preemptible_def)
  have fl: "flag_ok (event_flag (events s i))" using assms(2) by (simp add: event_inv_def)
  note nw = event_inv_upd_running(2) [OF assms(1,2,5)]
  obtain s1 where s1: "ipc_wait c (EventQ i) (event_flag (events s i)) timeout ?w = Inr s1" "kinv s1"
    "threads s1 = (threads ?w)(t := set_stat RT_THREAD_SUSPEND ((threads ?w t)\<lparr>error := RT_EOK\<rparr>))"
    "queues s1 = (queues ?w)(EventQ i := order_of (event_flag (events s i)) (\<lambda>u. current_priority (threads s u)) t (queues ?w (EventQ i)))"
    "events s1 = events ?w"
    using ipc_wait_ok [OF w(1,3,4,5) fl event_wait_q(1) assms(7), unfolded w(6)] by blast
  obtain s' where r: "rt_schedule c s1 = Inr s'"
    using ipc_wait_schedule [OF w(1-5) fl event_wait_q(1) [of i] assms(7)] s1(1) by auto
  note k = kinv_rt_schedule [OF s1(2) c r]
  note os = only_schedD [OF k(2)]
  have "event_inv i s1" using assms(2,8,9) nw by (auto simp: event_inv_def event_ask_def s1(3-5) flag_order.set_ins)
  then have "event_inv i s'" using event_inv_schedule [OF s1(2) c r] by simp
  moreover have "thread_stat s' t = RT_THREAD_SUSPEND"
    using only_sched_suspended(1) [OF k(2), of t] by (simp add: thread_stat_def s1(3))
  ultimately show ?thesis
    using s1(1) r k(1) os same_user_sel(9,10) [OF os(1), of t] by (auto simp: s1(3-5) event_ask_def)
qed

subsection \<open>Properties\<close>

text \<open>
  C16. \<open>rt_event_send\<close> refines the specification: it adds the bits and serves the waiting threads in their
  order, each woken exactly when its condition holds at its turn, with the bits it gets, which it
  consumes if it asked to clear them. Afterwards no thread waits whose condition holds. The call returns in a
  thread and in an interrupt.
\<close>

theorem event_send_spec:
  assumes "kinv s" and "event_inv i s" and "c < RT_CPUS_NR" and "st \<noteq> 0" and "irq_nest (cpus s c) \<noteq> 0 \<or> preemptible c s"
    and "event_serve (\<lambda>t. event_info (threads s t)) (\<lambda>t. event_set (threads s t)) (queues s (EventQ i))
           (set_bits (events s i) OR st) = (ws, rest)"
  shows "\<exists>s'. rt_event_send c i st s = Inr (s', RT_EOK) \<and> kinv s' \<and> event_inv i s' \<and> set_bits (events s' i) = rest
    \<and> queues s' (EventQ i) = filter (\<lambda>t. t \<notin> fst ` set ws) (queues s (EventQ i))
    \<and> (\<forall>t got. (t, got) \<in> set ws \<longrightarrow> awake (thread_stat s' t) \<and> event_set (threads s' t) = got
          \<and> error (threads s' t) = error (threads s t))"
proof -
  obtain s1 where s1: "event_scan c i (queues s (EventQ i)) False (upd_event i (\<lambda>e. e\<lparr>set_bits := set_bits e OR st\<rparr>) s) = (s1, ws \<noteq> [], False)"
    "kinv s1" "event_inv i s1" "set_bits (events s1 i) = rest"
    "queues s1 (EventQ i) = filter (\<lambda>t. t \<notin> fst ` set ws) (queues s (EventQ i))"
    "\<And>t got. (t, got) \<in> set ws \<Longrightarrow> awake (thread_stat s1 t) \<and> event_set (threads s1 t) = got \<and> error (threads s1 t) = error (threads s t)"
    "irq_nest (cpus s1 c) \<noteq> 0 \<or> preemptible c s1"
    using event_send_scan [OF assms(1,2,6,5)] by blast
  have eq: "rt_event_send c i st s = (if ws \<noteq> [] then and_then (rt_schedule c s1) (\<lambda>s. Inr (s, RT_EOK)) else Inr (s1, RT_EOK))"
    using assms(4) s1(1) by (simp add: rt_event_send_def Let_def)
  obtain s' where r: "rt_schedule c s1 = Inr s'" using schedule_returns [OF s1(2,7)] by blast
  note ks = kinv_rt_schedule [OF s1(2) assms(3) r]
  note os = only_schedD [OF ks(2)]
  have "awake (thread_stat s' t) \<and> event_set (threads s' t) = got \<and> error (threads s' t) = error (threads s t)"
    if "(t, got) \<in> set ws" for t got
    using s1(6) [OF that] only_sched_suspended(2) [OF ks(2)] same_user_sel(1,9) [OF os(1), of t] by simp
  then show ?thesis
    using eq r s1 ks(1) event_inv_schedule [OF s1(2) assms(3) r] os(3,8) by (cases "ws = []") auto
qed

text \<open>Thread 3 waits for both of bits 0 and 1 and clears them.\<close>

definition demo_event :: kernel where
  "demo_event = upd_thread 3 (\<lambda>th. th\<lparr>event_set := 3, event_info := 5\<rparr>)
     (wait_insert (order_of RT_IPC_FLAG_FIFO) (EventQ 0) 3 demo_ready)"

lemma demo_event_ok: "kinv demo_event" "event_inv 0 demo_event"
proof -
  have ul: "\<not> linked demo_ready 3"
    using demo_running_sel(1) insert_thread_queues [of demo_running 2 0] demo_running_sel(4)
    by (auto simp: linked_def demo_ready_def)
  have kw: "kinv (wait_insert (order_of RT_IPC_FLAG_FIFO) (EventQ 0) 3 demo_ready)"
    by (rule flag_order.kinv_ins [OF demo_kinv(2) ul event_wait_q(1)])
      (simp add: thread_stat_def demo_ready_threads demo_running_def demo_thread_def stat_defs)
  show "kinv demo_event" using kinv_upd_thread [OF kw, of 3 "\<lambda>th. th\<lparr>event_set := 3, event_info := 5\<rparr>"]
    by (simp add: demo_event_def same_sched_def)
  show "event_inv 0 demo_event" by code_simp
qed

lemma demo_event_preemptible: "preemptible 0 demo_event"
  by (rule preemptible_frame [OF demo_preemptible]) (auto simp: demo_event_def wait_insert_def thread_stat_def)

theorem event_send_spec_witness:
  "\<exists>s'. rt_event_send 0 0 7 demo_event = Inr (s', RT_EOK) \<and> set_bits (events s' 0) = 4
    \<and> awake (thread_stat s' 3) \<and> event_set (threads s' 3) = 3"
proof -
  have sv: "event_serve (\<lambda>t. event_info (threads demo_event t)) (\<lambda>t. event_set (threads demo_event t))
      (queues demo_event (EventQ 0)) (set_bits (events demo_event 0) OR 7) = ([(3, 3)], 4)" by code_simp
  from event_send_spec [OF demo_event_ok _ _ _ sv, of 0] demo_event_preemptible show ?thesis by auto
qed

text \<open>
  \<open>rt_event_recv\<close>, on every branch: a satisfied condition returns the matching bits and clears them if
  asked; with timeout 0 it fails with \<open>RT_ETIMEOUT\<close> and leaves the event alone; otherwise the thread
  waits with its condition recorded. Every branch keeps that no thread waits whose condition holds.
\<close>

theorem event_recv_spec:
  assumes "kinv s" and "event_inv i s" and "preemptible c s" and "rt_thread_self c s = Some t"
    and "thread_stat s t = RT_THREAD_RUNNING" and "scheduler_available c s" and "timeout_ok timeout"
    and "event_option_ok opt" and "st \<noteq> 0"
  shows "\<exists>s' got r. rt_event_recv c i st opt timeout True s = Inr (s', got, r) \<and> kinv s' \<and> event_inv i s' \<and>
    (if event_satisfied opt st (set_bits (events s i))
     then r = Return RT_EOK \<and> got = Some (set_bits (events s i) AND st) \<and> queues s' = queues s
       \<and> set_bits (events s' i) = event_rest opt st (set_bits (events s i))
     else if timeout = 0 then r = Return (- RT_ETIMEOUT) \<and> got = None \<and> events s' = events s \<and> queues s' = queues s
     else r = Blocked \<and> events s' = events s \<and> thread_stat s' t = RT_THREAD_SUSPEND
       \<and> event_set (threads s' t) = st \<and> event_info (threads s' t) = opt
       \<and> queues s' (EventQ i) = order_of (event_flag (events s i)) (\<lambda>u. current_priority (threads s u)) t (queues s (EventQ i)))"
proof -
  note eq = event_recv_eq [OF assms(4,6,8,9), of i timeout]
  consider (sat) "event_satisfied opt st (set_bits (events s i))"
    | (refuse) "\<not> event_satisfied opt st (set_bits (events s i))" "timeout = 0"
    | (wait) "\<not> event_satisfied opt st (set_bits (events s i))" "timeout \<noteq> 0" by blast
  then show ?thesis
  proof cases
    case sat
    then show ?thesis using eq event_deliver_ok [OF assms(1,2,5) sat] by simp
  next
    case refuse
    have "kinv (upd_thread t (\<lambda>th. th\<lparr>error := - RT_ETIMEOUT\<rparr>) s)"
      by (rule kinv_upd_thread [OF assms(1)]) (simp add: same_sched_def)
    then show ?thesis using eq refuse event_inv_upd_running(1) [OF assms(1,2,5)] by simp
  next
    case wait
    then show ?thesis using eq event_recv_wait [OF assms(1-8) wait(1)] by auto
  qed
qed

theorem event_recv_spec_witness:
  "\<exists>s'. rt_event_recv 0 0 8 RT_EVENT_FLAG_OR 20 True demo_event = Inr (s', None, Blocked) \<and> event_inv 0 s'
    \<and> queues s' (EventQ 0) = [3, 4]"
proof -
  have d: "rt_thread_self 0 demo_event = Some 4" "thread_stat demo_event 4 = RT_THREAD_RUNNING" "scheduler_available 0 demo_event"
    "timeout_ok 20" "event_option_ok RT_EVENT_FLAG_OR" "\<not> event_satisfied RT_EVENT_FLAG_OR 8 (set_bits (events demo_event 0))"
    "order_of (event_flag (events demo_event 0)) (\<lambda>u. current_priority (threads demo_event u)) 4 (queues demo_event (EventQ 0)) = [3, 4]"
    by code_simp+
  have "\<exists>s'. rt_event_recv 0 0 8 RT_EVENT_FLAG_OR 20 True demo_event = Inr (s', None, Blocked)"
    using event_recv_eq [OF d(1,3,5), of 8 0 20] event_recv_wait [OF demo_event_ok demo_event_preemptible d(1-6)] d(6) by auto
  with event_recv_spec [OF demo_event_ok demo_event_preemptible d(1-5), of 8] d(6,7) show ?thesis by auto
qed

end
