(* ===== verification/Rt_Wait.thy ===== *)
theory Rt_Wait
  imports Rt_Ipc
begin

unbundle bit_operations_syntax

text \<open>
  The two halves of the loops that mailbox and message queue share in \<open>src/ipc.c\<close>: a thread that finds
  the object full or empty waits for at most the time it has left, and a thread that changes the
  object wakes the first thread of the other side.
\<close>

definition ipc_block :: "cpuid \<Rightarrow> qid \<Rightarrow> u8 \<Rightarrow> 32 word \<Rightarrow> kernel \<Rightarrow> kernel res" where
  "ipc_block c q flag timeout s =
    (case rt_thread_self c s of None \<Rightarrow> Inl NullDeref
     | Some t \<Rightarrow>
        let s = upd_thread t (\<lambda>th. th\<lparr>error := RT_EOK\<rparr>) s in
        and_then (ipc_list_suspend c q t flag s) (\<lambda>s.
        and_then (if 0 < sint timeout then arm_thread_timer c t timeout s else Inr s) (\<lambda>s. rt_schedule c s)))"

definition ipc_wake :: "cpuid \<Rightarrow> qid \<Rightarrow> kernel \<Rightarrow> kernel res" where
  "ipc_wake c q s =
    (if \<not> rt_list_isempty q s then and_then (ipc_list_resume c q s) (\<lambda>s. rt_schedule c s) else Inr s)"

text \<open>
  The time left after a wait that began at tick \<open>tick0\<close>. The difference is taken in 32 bits without
  sign and then read with sign.
\<close>

definition ipc_remaining :: "32 word \<Rightarrow> u32 \<Rightarrow> kernel \<Rightarrow> 32 word" where
  "ipc_remaining timeout tick0 s =
    (if 0 < sint timeout
     then let tick_delta = rt_tick_get s - tick0; timeout = timeout - tick_delta in
          if sint timeout < 0 then 0 else timeout
     else timeout)"

lemma ipc_remaining_exact:
  assumes "0 < sint timeout" "unat (rt_tick_get s - tick0) < 2 ^ 31"
  shows "sint (ipc_remaining timeout tick0 s) = max 0 (sint timeout - int (unat (rt_tick_get s - tick0)))"
proof -
  let ?d = "rt_tick_get s - tick0"
  have d: "sint ?d = int (unat ?d)" using assms(2) by (intro sint_small) simp
  have "sint timeout < 2 ^ 31" using sint_lt [of timeout] by simp
  moreover have "0 \<le> int (unat ?d)" by simp
  moreover have "int (unat ?d) < 2 ^ 31" using assms(2) by (metis of_nat_less_iff of_nat_numeral of_nat_power)
  ultimately have "sint (timeout - ?d) = sint timeout - int (unat ?d)"
    using assms(1) unfolding d [symmetric]
    by (subst sint_word_ariths(2)) (simp add: signed_take_bit_int_eq_self)
  then show ?thesis using assms(1) by (simp add: ipc_remaining_def Let_def)
qed

lemma ipc_remaining_timeout_ok:
  assumes "timeout_ok timeout" "unat (rt_tick_get s - tick0) < 2 ^ 31"
  shows "timeout_ok (ipc_remaining timeout tick0 s)"
proof (cases "0 < sint timeout")
  case True
  have "0 \<le> int (unat (rt_tick_get s - tick0))" by simp
  then show ?thesis using ipc_remaining_exact [OF True assms(2)] assms(1) unfolding timeout_ok_def by linarith
next
  case False
  then show ?thesis using assms(1) by (simp add: ipc_remaining_def)
qed

text \<open>A suspended thread arms its timer when its time is limited, and the core switches to another thread.\<close>

lemma arm_schedule_ok:
  assumes "kinv s" "c < RT_CPUS_NR" "thread_stat s t = RT_THREAD_SUSPEND" "timeout_ok timeout"
    "and_then (if 0 < sint timeout then arm_thread_timer c t timeout s else Inr s) (\<lambda>s. rt_schedule c s) = Inr s'"
  shows "kinv s'" "thread_stat s' t = RT_THREAD_SUSPEND" "error (threads s' t) = error (threads s t)"
    "\<And>q. \<not> is_ready_q q \<Longrightarrow> queues s' q = queues s q"
    "0 < sint timeout \<Longrightarrow> ThreadTimer t \<in> set (timer_q s' HardTimers) \<and> delay s' (ThreadTimer t) = nat (sint timeout)"
proof -
  obtain s2 where s2: "(if 0 < sint timeout then arm_thread_timer c t timeout s else Inr s) = Inr s2" "kinv s2"
    "threads s2 = threads s" "queues s2 = queues s"
    "0 < sint timeout \<longrightarrow> ThreadTimer t \<in> set (timer_q s2 HardTimers) \<and> delay s2 (ThreadTimer t) = nat (sint timeout)"
  proof (cases "0 < sint timeout")
    case True
    have u: "sint timeout = int (unat timeout)" using True by (intro sint_nonneg) simp
    have lt: "timeout < RT_TICK_MAX div 2"
      using assms(4) u by (simp add: timeout_ok_def RT_TICK_HALF word_less_def)
    from kinv_arm [OF assms(1,3) lt, of c] obtain sa where sa: "arm_thread_timer c t timeout s = Inr sa" "kinv sa"
      "threads sa = threads s" "queues sa = queues s" "ThreadTimer t \<in> set (timer_q sa HardTimers)"
      "delay sa (ThreadTimer t) = unat timeout" by blast
    show thesis by (rule that [of sa]) (use sa True u in simp_all)
  next
    case False
    show thesis by (rule that [of s]) (use assms(1) False in simp_all)
  qed
  have r: "rt_schedule c s2 = Inr s'" using assms(5) s2(1) by simp
  note k = kinv_rt_schedule [OF s2(2) assms(2) r]
  note os = only_schedD [OF k(2)]
  show "kinv s'" by (rule k(1))
  have "thread_stat s2 t = RT_THREAD_SUSPEND" using assms(3) by (simp add: thread_stat_def s2(3))
  then show "thread_stat s' t = RT_THREAD_SUSPEND" using only_sched_suspended(1) [OF k(2)] by simp
  show "error (threads s' t) = error (threads s t)" using same_user_sel(1) [OF os(1), of t] by (simp add: s2(3))
  show "\<And>q. \<not> is_ready_q q \<Longrightarrow> queues s' q = queues s q" using os(3) by (simp add: s2(4))
  have "delay s' = delay s2" by (rule delay_cong) (simp_all add: os rt_tick_get_def)
  then show "0 < sint timeout \<Longrightarrow> ThreadTimer t \<in> set (timer_q s' HardTimers) \<and> delay s' (ThreadTimer t) = nat (sint timeout)"
    using s2(5) os(5) by simp
qed

lemma ipc_block_ok:
  assumes "kinv s" "c < RT_CPUS_NR" "rt_thread_self c s = Some t" "thread_stat s t = RT_THREAD_RUNNING"
    "flag_ok flag" "is_wait_q q" "timeout_ok timeout" "ipc_block c q flag timeout s = Inr s'"
  shows "kinv s'" "thread_stat s' t = RT_THREAD_SUSPEND" "error (threads s' t) = RT_EOK"
    "queues s' q = order_of flag (\<lambda>u. current_priority (threads s u)) t (queues s q)"
    "\<And>q'. q' \<noteq> q \<Longrightarrow> \<not> is_ready_q q' \<Longrightarrow> queues s' q' = queues s q'"
    "0 < sint timeout \<Longrightarrow> ThreadTimer t \<in> set (timer_q s' HardTimers) \<and> delay s' (ThreadTimer t) = nat (sint timeout)"
proof -
  let ?e = "upd_thread t (\<lambda>th. th\<lparr>error := RT_EOK\<rparr>) s"
  have ke: "kinv ?e" by (rule kinv_upd_thread [OF assms(1)]) (simp add: same_sched_def)
  have pr: "(\<lambda>u. current_priority (threads ?e u)) = (\<lambda>u. current_priority (threads s u))" by auto
  have se: "rt_thread_self c ?e = Some t" "thread_stat ?e t = RT_THREAD_RUNNING"
    using assms(3,4) by (simp_all add: rt_thread_self_def thread_stat_def)
  obtain s1 where s1: "ipc_list_suspend c q t flag ?e = Inr s1" "kinv s1"
    "threads s1 = (threads s)(t := set_stat RT_THREAD_SUSPEND ((threads s t)\<lparr>error := RT_EOK\<rparr>))"
    "queues s1 = (queues s)(q := order_of flag (\<lambda>u. current_priority (threads s u)) t (queues s q))"
    using ipc_list_suspend_ok [OF ke se assms(5,6), unfolded pr] by auto
  have st: "thread_stat s1 t = RT_THREAD_SUSPEND" by (simp add: thread_stat_def s1(3))
  have "and_then (if 0 < sint timeout then arm_thread_timer c t timeout s1 else Inr s1) (\<lambda>s. rt_schedule c s) = Inr s'"
    using assms(3,8) s1(1) by (simp add: ipc_block_def Let_def)
  note a = arm_schedule_ok [OF s1(2) assms(2) st assms(7) this]
  show "kinv s'" "thread_stat s' t = RT_THREAD_SUSPEND" by (fact a(1,2))+
  show "error (threads s' t) = RT_EOK" using a(3) by (simp add: s1(3))
  show "queues s' q = order_of flag (\<lambda>u. current_priority (threads s u)) t (queues s q)"
    using a(4) [of q] assms(6) by (simp add: s1(4) is_wait_q_def)
  show "\<And>q'. q' \<noteq> q \<Longrightarrow> \<not> is_ready_q q' \<Longrightarrow> queues s' q' = queues s q'"
    using a(4) by (simp add: s1(4))
  show "0 < sint timeout \<Longrightarrow> ThreadTimer t \<in> set (timer_q s' HardTimers) \<and> delay s' (ThreadTimer t) = nat (sint timeout)"
    by (fact a(5))
qed

lemma ipc_wake_ok:
  assumes "kinv s" "c < RT_CPUS_NR" "is_wait_q q" "ipc_wake c q s = Inr s'"
  shows "kinv s'" "queues s' q = tl (queues s q)"
    "\<And>q'. \<not> is_ready_q q' \<Longrightarrow> q' \<noteq> q \<Longrightarrow> queues s' q' = queues s q'"
    "\<And>t ts. queues s q = t # ts \<Longrightarrow> awake (thread_stat s' t)"
    "\<And>t. error (threads s' t) = error (threads s t)"
    "\<And>t. \<not> awake (thread_stat s t) \<Longrightarrow> t \<notin> set (queues s q) \<Longrightarrow> thread_stat s' t = thread_stat s t"
proof -
  have "kinv s' \<and> queues s' q = tl (queues s q)
    \<and> (\<forall>q'. \<not> is_ready_q q' \<longrightarrow> q' \<noteq> q \<longrightarrow> queues s' q' = queues s q')
    \<and> (\<forall>t ts. queues s q = t # ts \<longrightarrow> awake (thread_stat s' t))
    \<and> (\<forall>t. error (threads s' t) = error (threads s t))
    \<and> (\<forall>t. \<not> awake (thread_stat s t) \<longrightarrow> t \<notin> set (queues s q) \<longrightarrow> thread_stat s' t = thread_stat s t)"
  proof (cases "queues s q")
    case Nil
    then show ?thesis using assms(1,4) by (simp add: ipc_wake_def rt_list_isempty_def)
  next
    case (Cons t ts)
    note h = ipc_list_resume_ok [OF assms(1,3) Cons, of c]
    note hd = kinv_wait_head [OF assms(1,3) Cons]
    let ?r = "fst (rt_thread_resume c t s)"
    have r: "rt_schedule c ?r = Inr s'"
      using assms(4) h(1) Cons by (simp add: ipc_wake_def rt_list_isempty_def)
    note k = kinv_rt_schedule [OF kinv_resume [OF assms(1)] assms(2) r]
    note os = only_schedD [OF k(2)]
    have q': "queues s' q' = queues s q'" if "\<not> is_ready_q q'" "q' \<noteq> q" for q'
    proof -
      have "t \<notin> set (queues s q')"
        using sched_invD(4) [OF kinvD(1) [OF assms(1)]] that Cons unfolding queues_wf_def by (metis list.set_intros(1))
      then show ?thesis using os(3) [of q'] rt_thread_resume_queues [OF hd(1), of q' c] that(1)
        by (simp add: removeAll_id)
    qed
    have er: "error (threads s' u) = error (threads s u)" for u
      using same_user_sel(1) [OF os(1), of u] hd(1) by (simp add: rt_thread_resume_def Let_def insert_thread_threads)
    have su: "thread_stat s' u = thread_stat s u" if "\<not> awake (thread_stat s u)" "u \<noteq> t" for u
      using os(2) [of u] rt_thread_resume_stat(2) [OF hd(1), of u c] that
      by (simp add: thread_stat_def)
    have "awake (thread_stat s' t)" using only_sched_suspended(2) [OF k(2)] h(3) by simp
    moreover have "queues s' q = ts" using os(3) [of q] h(2) assms(3) by (simp add: is_wait_q_def)
    ultimately show ?thesis using k(1) q' er su Cons by auto
  qed
  then show "kinv s'" "queues s' q = tl (queues s q)"
    "\<And>q'. \<not> is_ready_q q' \<Longrightarrow> q' \<noteq> q \<Longrightarrow> queues s' q' = queues s q'"
    "\<And>t ts. queues s q = t # ts \<Longrightarrow> awake (thread_stat s' t)"
    "\<And>t. error (threads s' t) = error (threads s t)"
    "\<And>t. \<not> awake (thread_stat s t) \<Longrightarrow> t \<notin> set (queues s q) \<Longrightarrow> thread_stat s' t = thread_stat s t"
    by auto
qed

lemma arm_schedule_returns:
  assumes "kinv s" "preemptible c s" "thread_stat s t = RT_THREAD_SUSPEND" "timeout_ok timeout"
  shows "\<exists>s'. and_then (if 0 < sint timeout then arm_thread_timer c t timeout s else Inr s) (\<lambda>s. rt_schedule c s) = Inr s'"
proof (cases "0 < sint timeout")
  case True
  have u: "sint timeout = int (unat timeout)" using True by (intro sint_nonneg) simp
  have lt: "timeout < RT_TICK_MAX div 2"
    using assms(4) u by (simp add: timeout_ok_def RT_TICK_HALF word_less_def)
  from kinv_arm [OF assms(1,3) lt, of c] obtain sa where sa: "arm_thread_timer c t timeout s = Inr sa" "kinv sa"
    "threads sa = threads s" "cpus sa = cpus s" by blast
  have "preemptible c sa" by (rule preemptible_frame [OF assms(2)]) (simp_all add: sa thread_stat_def)
  from preemptible_schedule [OF sa(2) this] sa(1) True show ?thesis by simp
next
  case False
  then show ?thesis using preemptible_schedule [OF assms(1,2)] by simp
qed

lemma ipc_wake_returns:
  assumes "kinv s" "irq_nest (cpus s c) \<noteq> 0 \<or> preemptible c s"
  shows "\<exists>s'. ipc_wake c q s = Inr s'"
  using ipc_resume_schedule [OF assms]
  by (cases "queues s q") (auto simp: ipc_wake_def rt_list_isempty_def ipc_list_resume_def)

lemma ipc_block_returns:
  assumes "kinv s" "preemptible c s" "rt_thread_self c s = Some t" "thread_stat s t = RT_THREAD_RUNNING"
    "flag_ok flag" "is_wait_q q" "timeout_ok timeout"
  shows "\<exists>s'. ipc_block c q flag timeout s = Inr s'"
proof -
  let ?e = "upd_thread t (\<lambda>th. th\<lparr>error := RT_EOK\<rparr>) s"
  have ke: "kinv ?e" by (rule kinv_upd_thread [OF assms(1)]) (simp add: same_sched_def)
  have se: "rt_thread_self c ?e = Some t" "thread_stat ?e t = RT_THREAD_RUNNING"
    using assms(3,4) by (simp_all add: rt_thread_self_def thread_stat_def)
  obtain s1 where s1: "ipc_list_suspend c q t flag ?e = Inr s1" "kinv s1"
    "threads s1 = (threads s)(t := set_stat RT_THREAD_SUSPEND ((threads s t)\<lparr>error := RT_EOK\<rparr>))"
    "current_thread (cpus s1 c) = current_thread (cpus s c)" "irq_nest (cpus s1 c) = irq_nest (cpus s c)"
    using ipc_list_suspend_ok [OF ke se assms(5,6)] by auto
  have st: "thread_stat s1 t = RT_THREAD_SUSPEND" by (simp add: thread_stat_def s1(3))
  from arm_schedule_returns [OF s1(2) preemptible_sleep [OF assms(2,4) s1(3-5)] st assms(7)] s1(1)
  show ?thesis using assms(3) by (auto simp: ipc_block_def Let_def)
qed

subsection \<open>Critical sections and emptied lists\<close>

lemma kinv_critical:
  assumes "kinv s"
  shows "kinv (rt_enter_critical c s)" "c < RT_CPUS_NR \<Longrightarrow> rt_exit_critical c s = Inr s' \<Longrightarrow> kinv s'"
    "rt_exit_critical c s = Inr s' \<Longrightarrow> \<not> is_ready_q q \<Longrightarrow> c < RT_CPUS_NR \<Longrightarrow> queues s' q = queues s q"
    "rt_exit_critical c s = Inr s' \<Longrightarrow> c < RT_CPUS_NR \<Longrightarrow> error (threads s' t) = error (threads s t) \<and> awake (thread_stat s' t) = awake (thread_stat s t)"
    "queues (rt_enter_critical c s) = queues s"
proof -
  have ul: "kinv (rt_cpus_lock c x)" "kinv (rt_cpus_unlock c x)" if "kinv x" for x
    by (rule kinv_only_sched [OF that only_sched_lock(1)], use kinvD(1) [OF that] in auto)
      (rule kinv_only_sched [OF that only_sched_lock(2)], use kinvD(1) [OF that] in auto)
  show "kinv (rt_enter_critical c s)"
    using assms ul(1) [OF assms] by (auto simp: rt_enter_critical_def same_sched_def split: option.split intro!: kinv_upd_thread)
  show "queues (rt_enter_critical c s) = queues s" by (simp add: rt_enter_critical_def split: option.split)
  have "kinv s' \<and> (\<forall>q. \<not> is_ready_q q \<longrightarrow> queues s' q = queues s q)
      \<and> (\<forall>t. error (threads s' t) = error (threads s t) \<and> awake (thread_stat s' t) = awake (thread_stat s t))"
    if r: "rt_exit_critical c s = Inr s'" and c: "c < RT_CPUS_NR"
  proof (cases "current_thread (cpus s c)")
    case None
    then show ?thesis using r assms by (simp add: rt_exit_critical_def)
  next
    case (Some u)
    let ?u = "upd_thread u (\<lambda>th. th\<lparr>scheduler_lock_nest := scheduler_lock_nest th - 1,
      critical_lock_nest := critical_lock_nest th - 1\<rparr>) s"
    have k: "kinv ?u" by (rule kinv_upd_thread [OF assms]) (simp add: same_sched_def)
    have th: "error (threads ?u t) = error (threads s t)" "thread_stat ?u t = thread_stat s t" for t
      by (simp_all add: thread_stat_def)
    have e: "rt_schedule c (rt_cpus_unlock c ?u) = Inr s' \<or> s' = rt_cpus_unlock c ?u"
      using r Some by (simp add: rt_exit_critical_def Let_def split: if_splits)
    have os: "only_sched ?u (rt_cpus_unlock c ?u)" by simp
    show ?thesis using e
    proof
      assume sc: "rt_schedule c (rt_cpus_unlock c ?u) = Inr s'"
      note ks = kinv_rt_schedule [OF ul(2) [OF k] c sc]
      have "error (threads s' t) = error (threads s t)" for t
        using same_user_sel(1) [OF only_schedD(1) [OF ks(2), of t]] same_user_sel(1) [OF only_schedD(1) [OF os, of t]] th(1) [of t] by simp
      then show ?thesis
        using ks(1) only_schedD(3) [OF ks(2)] only_sched_suspended(2) [OF ks(2)] only_schedD(3) [OF os] only_sched_suspended(2) [OF os] th(2)
        by simp
    next
      assume "s' = rt_cpus_unlock c ?u"
      moreover have "error (threads (rt_cpus_unlock c ?u) t) = error (threads s t)" for t
        using same_user_sel(1) [OF only_schedD(1) [OF os, of t]] th(1) [of t] by simp
      ultimately show ?thesis
        using ul(2) [OF k] only_schedD(3) [OF os] only_sched_suspended(2) [OF os] th(2) by simp
    qed
  qed
  then show "c < RT_CPUS_NR \<Longrightarrow> rt_exit_critical c s = Inr s' \<Longrightarrow> kinv s'"
    "rt_exit_critical c s = Inr s' \<Longrightarrow> \<not> is_ready_q q \<Longrightarrow> c < RT_CPUS_NR \<Longrightarrow> queues s' q = queues s q"
    "rt_exit_critical c s = Inr s' \<Longrightarrow> c < RT_CPUS_NR \<Longrightarrow> error (threads s' t) = error (threads s t) \<and> awake (thread_stat s' t) = awake (thread_stat s t)"
    by blast+
qed

lemma resume_all_frame:
  assumes "kinv s" "is_wait_q q"
  shows "\<exists>s'. ipc_list_resume_all c q s = Inr s' \<and> kinv s' \<and> queues s' q = []
    \<and> (\<forall>q'. q' \<noteq> q \<longrightarrow> \<not> is_ready_q q' \<longrightarrow> queues s' q' = queues s q')
    \<and> (\<forall>t. t \<notin> set (queues s q) \<longrightarrow> threads s' t = threads s t)
    \<and> (\<forall>t \<in> set (queues s q). awake (thread_stat s' t) \<and> error (threads s' t) = - RT_ERROR)"
proof -
  note wf = sched_invD(4) [OF kinvD(1) [OF assms(1)]]
  have "thread_stat s t = RT_THREAD_SUSPEND" if "t \<in> set (queues s q)" for t
    using that assms kinvD(3) by (auto simp: waits_ok_def)
  moreover have "distinct (queues s q)" using wf by (simp add: queues_wf_def)
  ultimately obtain s' where s': "resume_list c (queues s q) s = Inr s'" "kinv s'"
    "\<And>q'. \<not> is_ready_q q' \<Longrightarrow> queues s' q' = filter (\<lambda>t. t \<notin> set (queues s q)) (queues s q')"
    "\<And>t. t \<notin> set (queues s q) \<Longrightarrow> threads s' t = threads s t"
    "\<And>t. t \<in> set (queues s q) \<Longrightarrow> awake (thread_stat s' t) \<and> error (threads s' t) = - RT_ERROR"
    using resume_list_ok [OF assms(1), of "queues s q" c] by blast
  have "filter (\<lambda>t. t \<notin> set (queues s q)) (queues s q') = queues s q'" if "q' \<noteq> q" for q'
    using wf that unfolding queues_wf_def filter_id_conv by blast
  then show ?thesis using s' assms(2) by (auto simp: ipc_list_resume_all_def is_wait_q_def)
qed

end
