(* ===== verification/Rt_Mailbox.thy ===== *)
theory Rt_Mailbox
  imports Rt_Wait Rt_Fifo
begin

unbundle bit_operations_syntax

text \<open>
  Mailboxes, \<open>src/ipc.c\<close>: a circular buffer of words with the list of waiting receivers, \<open>MbQ\<close>, and of
  waiting senders, \<open>MbSendQ\<close>. The buffer is an instance of the contract of a bounded queue with
  urgent elements; the lemmas on the kernel side add who is woken and who waits.
\<close>

record rt_mailbox =
  mb_flag :: u8
  msg_pool :: "u32 list"
  mb_size :: u16
  mb_entry :: u16
  in_offset :: u16
  out_offset :: u16

subsection \<open>Life of a mailbox\<close>

definition mb_clear_queues :: "nat \<Rightarrow> kernel \<Rightarrow> kernel" where
  "mb_clear_queues i s = s\<lparr>queues := (queues s)(MbQ i := [], MbSendQ i := [])\<rparr>"

definition rt_mb_init :: "nat \<Rightarrow> u32 list \<Rightarrow> u32 \<Rightarrow> u8 \<Rightarrow> kernel \<Rightarrow> (rt_mailbox \<times> kernel) res" where
  "rt_mb_init i msgpool sz flag s =
    rt_assert (flag = RT_IPC_FLAG_FIFO \<or> flag = RT_IPC_FLAG_PRIO)
      (Inr (\<lparr>mb_flag = flag, msg_pool = msgpool, mb_size = ucast sz, mb_entry = 0, in_offset = 0, out_offset = 0\<rparr>,
            mb_clear_queues i s))"

text \<open>
  \<open>alloc_obj\<close> says whether the object could be allocated, \<open>alloc\<close> gives the memory for a number of bytes.
\<close>

definition rt_mb_create ::
  "cpuid \<Rightarrow> nat \<Rightarrow> bool \<Rightarrow> (u32 \<Rightarrow> u32 list option) \<Rightarrow> u32 \<Rightarrow> u8 \<Rightarrow> kernel \<Rightarrow> (rt_mailbox option \<times> kernel) res" where
  "rt_mb_create c i alloc_obj alloc sz flag s =
    rt_assert (flag = RT_IPC_FLAG_FIFO \<or> flag = RT_IPC_FLAG_PRIO)
     (rt_assert (rt_interrupt_get_nest c s = 0)
       (if \<not> alloc_obj then Inr (None, s)
        else let mbsize = (ucast sz :: u16) in
          case alloc (ucast mbsize * 4) of None \<Rightarrow> Inr (None, s\<lparr>queues := (queues s)(MbQ i := [])\<rparr>)
          | Some pool \<Rightarrow> Inr (Some \<lparr>mb_flag = flag, msg_pool = pool, mb_size = mbsize, mb_entry = 0, in_offset = 0, out_offset = 0\<rparr>,
              mb_clear_queues i s)))"

definition rt_mb_detach :: "cpuid \<Rightarrow> nat \<Rightarrow> kernel \<Rightarrow> kernel res" where
  "rt_mb_detach c i s = and_then (ipc_list_resume_all c (MbQ i) s) (\<lambda>s. ipc_list_resume_all c (MbSendQ i) s)"

definition rt_mb_delete :: "cpuid \<Rightarrow> nat \<Rightarrow> kernel \<Rightarrow> kernel res" where
  "rt_mb_delete c i s = rt_assert (rt_interrupt_get_nest c s = 0)
     (and_then (ipc_list_resume_all c (MbQ i) s) (\<lambda>s. ipc_list_resume_all c (MbSendQ i) s))"

definition rt_mb_control :: "cpuid \<Rightarrow> nat \<Rightarrow> bool \<Rightarrow> rt_mailbox \<times> kernel \<Rightarrow> ((rt_mailbox \<times> kernel) \<times> int) res" where
  "rt_mb_control c i is_reset = (\<lambda>(mb, s).
    if is_reset
    then and_then (ipc_list_resume_all c (MbQ i) s) (\<lambda>s.
         and_then (ipc_list_resume_all c (MbSendQ i) s) (\<lambda>s.
         and_then (rt_schedule c s) (\<lambda>s. Inr ((mb\<lparr>mb_entry := 0, in_offset := 0, out_offset := 0\<rparr>, s), RT_EOK))))
    else Inr ((mb, s), - RT_ERROR))"

subsection \<open>The buffer\<close>

text \<open>The end of \<open>rt_mb_send_wait\<close>: store the mail and count it.\<close>

definition mb_store :: "u32 \<Rightarrow> rt_mailbox \<Rightarrow> (rt_mailbox \<times> int) res" where
  "mb_store v mb =
    (if unat (in_offset mb) < length (msg_pool mb)
     then
       let mb = mb\<lparr>msg_pool := (msg_pool mb)[unat (in_offset mb) := v]\<rparr>;
           mb = mb\<lparr>in_offset := in_offset mb + 1\<rparr>;
           mb = (if mb_size mb \<le> in_offset mb then mb\<lparr>in_offset := 0\<rparr> else mb)
       in if mb_entry mb < 0xffff then Inr (mb\<lparr>mb_entry := mb_entry mb + 1\<rparr>, RT_EOK) else Inr (mb, - RT_EFULL)
     else Inl OutOfBounds)"

text \<open>The middle of \<open>rt_mb_urgent\<close>: store the mail in front of the others.\<close>

definition mb_store_front :: "u32 \<Rightarrow> rt_mailbox \<Rightarrow> rt_mailbox res" where
  "mb_store_front v mb =
    (let mb = mb\<lparr>out_offset := if 0 < out_offset mb then out_offset mb - 1 else mb_size mb - 1\<rparr> in
     if unat (out_offset mb) < length (msg_pool mb)
     then Inr (mb\<lparr>msg_pool := (msg_pool mb)[unat (out_offset mb) := v], mb_entry := mb_entry mb + 1\<rparr>)
     else Inl OutOfBounds)"

text \<open>The end of \<open>rt_mb_recv\<close>: fetch the oldest mail.\<close>

definition mb_fetch :: "rt_mailbox \<Rightarrow> (u32 \<times> rt_mailbox) res" where
  "mb_fetch mb =
    (if unat (out_offset mb) < length (msg_pool mb)
     then
       let v = msg_pool mb ! unat (out_offset mb);
           mb = mb\<lparr>out_offset := out_offset mb + 1\<rparr>;
           mb = (if mb_size mb \<le> out_offset mb then mb\<lparr>out_offset := 0\<rparr> else mb);
           mb = (if 0 < mb_entry mb then mb\<lparr>mb_entry := mb_entry mb - 1\<rparr> else mb)
       in Inr (v, mb)
     else Inl OutOfBounds)"

subsection \<open>Sending\<close>

text \<open>From the head of the loop on; \<open>timeout\<close> is the time that is left.\<close>

definition mb_send_loop ::
  "cpuid \<Rightarrow> nat \<Rightarrow> u32 \<Rightarrow> 32 word \<Rightarrow> rt_mailbox \<times> kernel \<Rightarrow> ((rt_mailbox \<times> kernel) \<times> outcome) res" where
  "mb_send_loop c i v timeout = (\<lambda>(mb, s).
    if mb_entry mb = mb_size mb
    then if timeout = 0
         then case rt_thread_self c s of None \<Rightarrow> Inl NullDeref
              | Some t \<Rightarrow> Inr ((mb, upd_thread t (\<lambda>th. th\<lparr>error := RT_EOK\<rparr>) s), Return (- RT_EFULL))
         else and_then (ipc_block c (MbSendQ i) (mb_flag mb) timeout s) (\<lambda>s. Inr ((mb, s), Blocked))
    else and_then (mb_store v mb) (\<lambda>(mb, e).
         if e \<noteq> RT_EOK then Inr ((mb, s), Return e)
         else and_then (ipc_wake c (MbQ i) s) (\<lambda>s. Inr ((mb, s), Return RT_EOK))))"

definition rt_mb_send_wait ::
  "cpuid \<Rightarrow> nat \<Rightarrow> u32 \<Rightarrow> 32 word \<Rightarrow> rt_mailbox \<times> kernel \<Rightarrow> ((rt_mailbox \<times> kernel) \<times> outcome) res" where
  "rt_mb_send_wait c i v timeout = (\<lambda>(mb, s).
    rt_assert (timeout \<noteq> 0 \<longrightarrow> scheduler_available c s)
     (if mb_entry mb = mb_size mb \<and> timeout = 0 then Inr ((mb, s), Return (- RT_EFULL))
      else mb_send_loop c i v timeout (mb, s)))"

text \<open>
  When the sender runs again: \<open>timeout\<close> and \<open>tick0\<close> are its local variables, the time it had left when
  it went to wait and the tick at that time.
\<close>

definition rt_mb_send_wait_cont ::
  "cpuid \<Rightarrow> nat \<Rightarrow> u32 \<Rightarrow> 32 word \<Rightarrow> u32 \<Rightarrow> rt_mailbox \<times> kernel \<Rightarrow> ((rt_mailbox \<times> kernel) \<times> outcome) res" where
  "rt_mb_send_wait_cont c i v timeout tick0 = (\<lambda>(mb, s).
    case rt_thread_self c s of None \<Rightarrow> Inl NullDeref
    | Some t \<Rightarrow>
       if error (threads s t) \<noteq> RT_EOK then Inr ((mb, s), Return (error (threads s t)))
       else mb_send_loop c i v (ipc_remaining timeout tick0 s) (mb, s))"

definition rt_mb_send :: "cpuid \<Rightarrow> nat \<Rightarrow> u32 \<Rightarrow> rt_mailbox \<times> kernel \<Rightarrow> ((rt_mailbox \<times> kernel) \<times> outcome) res" where
  "rt_mb_send c i v = rt_mb_send_wait c i v 0"

definition rt_mb_urgent :: "cpuid \<Rightarrow> nat \<Rightarrow> u32 \<Rightarrow> rt_mailbox \<times> kernel \<Rightarrow> ((rt_mailbox \<times> kernel) \<times> int) res" where
  "rt_mb_urgent c i v = (\<lambda>(mb, s).
    if mb_entry mb = mb_size mb then Inr ((mb, s), - RT_EFULL)
    else and_then (mb_store_front v mb) (\<lambda>mb.
         and_then (ipc_wake c (MbQ i) s) (\<lambda>s. Inr ((mb, s), RT_EOK))))"

subsection \<open>Receiving\<close>

definition mb_recv_loop ::
  "cpuid \<Rightarrow> nat \<Rightarrow> 32 word \<Rightarrow> rt_mailbox \<times> kernel \<Rightarrow> ((rt_mailbox \<times> kernel) \<times> u32 option \<times> outcome) res" where
  "mb_recv_loop c i timeout = (\<lambda>(mb, s).
    if mb_entry mb = 0
    then if timeout = 0
         then case rt_thread_self c s of None \<Rightarrow> Inl NullDeref
              | Some t \<Rightarrow> Inr ((mb, upd_thread t (\<lambda>th. th\<lparr>error := - RT_ETIMEOUT\<rparr>) s), None, Return (- RT_ETIMEOUT))
         else and_then (ipc_block c (MbQ i) (mb_flag mb) timeout s) (\<lambda>s. Inr ((mb, s), None, Blocked))
    else and_then (mb_fetch mb) (\<lambda>(v, mb).
         and_then (ipc_wake c (MbSendQ i) s) (\<lambda>s. Inr ((mb, s), Some v, Return RT_EOK))))"

definition rt_mb_recv ::
  "cpuid \<Rightarrow> nat \<Rightarrow> 32 word \<Rightarrow> rt_mailbox \<times> kernel \<Rightarrow> ((rt_mailbox \<times> kernel) \<times> u32 option \<times> outcome) res" where
  "rt_mb_recv c i timeout = (\<lambda>(mb, s).
    rt_assert (timeout \<noteq> 0 \<longrightarrow> scheduler_available c s)
     (if mb_entry mb = 0 \<and> timeout = 0 then Inr ((mb, s), None, Return (- RT_ETIMEOUT))
      else mb_recv_loop c i timeout (mb, s)))"

definition rt_mb_recv_cont ::
  "cpuid \<Rightarrow> nat \<Rightarrow> 32 word \<Rightarrow> u32 \<Rightarrow> rt_mailbox \<times> kernel \<Rightarrow> ((rt_mailbox \<times> kernel) \<times> u32 option \<times> outcome) res" where
  "rt_mb_recv_cont c i timeout tick0 = (\<lambda>(mb, s).
    case rt_thread_self c s of None \<Rightarrow> Inl NullDeref
    | Some t \<Rightarrow>
       if error (threads s t) \<noteq> RT_EOK then Inr ((mb, s), None, Return (error (threads s t)))
       else mb_recv_loop c i (ipc_remaining timeout tick0 s) (mb, s))"

subsection \<open>The buffer is a queue\<close>

definition mb_items :: "rt_mailbox \<Rightarrow> u32 list" where
  "mb_items mb = circ_window (msg_pool mb) (unat (out_offset mb)) (unat (mb_entry mb))"

definition mb_ok :: "rt_mailbox \<Rightarrow> bool" where
  "mb_ok mb \<longleftrightarrow> flag_ok (mb_flag mb) \<and> 0 < mb_size mb \<and> length (msg_pool mb) = unat (mb_size mb)
     \<and> mb_entry mb \<le> mb_size mb \<and> out_offset mb < mb_size mb
     \<and> unat (in_offset mb) = (unat (out_offset mb) + unat (mb_entry mb)) mod unat (mb_size mb)"

definition mb_capacity :: "rt_mailbox \<Rightarrow> nat" where
  "mb_capacity mb = unat (mb_size mb)"

text \<open>Store, store in front and fetch with the tests of \<open>rt_mb_send\<close>, \<open>rt_mb_urgent\<close> and \<open>rt_mb_recv\<close> in front.\<close>

definition mb_enq :: "u32 \<Rightarrow> rt_mailbox \<Rightarrow> rt_mailbox option" where
  "mb_enq v mb = (if mb_entry mb = mb_size mb then None
     else case mb_store v mb of Inl _ \<Rightarrow> None | Inr (mb', e) \<Rightarrow> if e = RT_EOK then Some mb' else None)"

definition mb_deq :: "rt_mailbox \<Rightarrow> (u32 \<times> rt_mailbox) option" where
  "mb_deq mb = (if mb_entry mb = 0 then None else case mb_fetch mb of Inl _ \<Rightarrow> None | Inr r \<Rightarrow> Some r)"

definition mb_push :: "u32 \<Rightarrow> rt_mailbox \<Rightarrow> rt_mailbox option" where
  "mb_push v mb = (if mb_entry mb = mb_size mb then None
     else case mb_store_front v mb of Inl _ \<Rightarrow> None | Inr mb' \<Rightarrow> Some mb')"

lemma mb_okD:
  assumes "mb_ok mb"
  shows "0 < length (msg_pool mb)" "length (msg_pool mb) = unat (mb_size mb)" "unat (mb_entry mb) \<le> unat (mb_size mb)"
    "unat (out_offset mb) < unat (mb_size mb)" "unat (in_offset mb) < length (msg_pool mb)"
    "in_offset mb < mb_size mb"
    "unat (in_offset mb) = (unat (out_offset mb) + unat (mb_entry mb)) mod length (msg_pool mb)"
proof -
  show l: "length (msg_pool mb) = unat (mb_size mb)" using assms by (simp add: mb_ok_def)
  show p: "0 < length (msg_pool mb)" using assms by (simp add: mb_ok_def word_less_nat_alt)
  show "unat (in_offset mb) = (unat (out_offset mb) + unat (mb_entry mb)) mod length (msg_pool mb)"
    using assms by (simp add: mb_ok_def)
  then show i: "unat (in_offset mb) < length (msg_pool mb)" using p by simp
  then show "in_offset mb < mb_size mb" using l by (simp add: word_less_nat_alt)
  show "unat (mb_entry mb) \<le> unat (mb_size mb)" "unat (out_offset mb) < unat (mb_size mb)"
    using assms by (simp_all add: mb_ok_def word_less_nat_alt word_le_nat_alt)
qed

lemma length_mb_items: "length (mb_items mb) = unat (mb_entry mb)"
  by (simp add: mb_items_def)

lemma mb_full_iff: "mb_entry mb = mb_size mb \<longleftrightarrow> length (mb_items mb) = mb_capacity mb"
  by (auto simp: length_mb_items mb_capacity_def word_unat_eq_iff)

lemma mb_empty_iff: "mb_entry mb = 0 \<longleftrightarrow> mb_items mb = []"
  by (metis length_0_conv length_mb_items unat_0 unat_eq_zero)

lemma mb_store_ok:
  assumes "mb_ok mb" "mb_entry mb \<noteq> mb_size mb"
  shows "\<exists>mb'. mb_store v mb = Inr (mb', RT_EOK) \<and> mb_ok mb' \<and> mb_items mb' = mb_items mb @ [v]
    \<and> mb_capacity mb' = mb_capacity mb \<and> mb_flag mb' = mb_flag mb"
proof -
  note d = mb_okD [OF assms(1)]
  have lt: "mb_entry mb < mb_size mb" using assms by (simp add: mb_ok_def order_less_le)
  have e: "unat (mb_entry mb + 1) = unat (mb_entry mb) + 1" by (rule unat_inc [OF lt])
  have ff: "mb_entry mb < 0xffff"
  proof -
    have "unat (mb_size mb) \<le> 0xffff" using unsigned_less [of "mb_size mb", where 'a = nat] by simp
    moreover have "unat (mb_entry mb) < unat (mb_size mb)" using lt by (simp add: word_less_nat_alt)
    ultimately show ?thesis by (simp add: word_less_nat_alt)
  qed
  let ?in = "if mb_size mb \<le> in_offset mb + 1 then 0 else in_offset mb + 1"
  let ?mb = "mb\<lparr>msg_pool := (msg_pool mb)[unat (in_offset mb) := v], in_offset := ?in, mb_entry := mb_entry mb + 1\<rparr>"
  have s: "mb_store v mb = Inr (?mb, RT_EOK)" using d(5) ff by (simp add: mb_store_def Let_def)
  have "unat ?in = (unat (in_offset mb) + 1) mod unat (mb_size mb)" by (rule unat_next_index [OF d(6)])
  also have "\<dots> = (unat (out_offset mb) + unat (mb_entry mb + 1)) mod unat (mb_size mb)"
    using d(2,7) e by (simp add: mod_Suc_eq)
  finally have "mb_ok ?mb" using assms(1) lt e by (simp add: mb_ok_def word_le_nat_alt word_less_nat_alt)
  moreover have "mb_items ?mb = mb_items mb @ [v]"
    using circ_window_snoc [of "unat (out_offset mb)" "msg_pool mb" "unat (mb_entry mb)" v] d e lt
    by (simp add: mb_items_def word_less_nat_alt)
  ultimately show ?thesis using s by (intro exI [of _ ?mb]) (simp add: mb_capacity_def)
qed

lemma mb_store_front_ok:
  assumes "mb_ok mb" "mb_entry mb \<noteq> mb_size mb"
  shows "\<exists>mb'. mb_store_front v mb = Inr mb' \<and> mb_ok mb' \<and> mb_items mb' = v # mb_items mb
    \<and> mb_capacity mb' = mb_capacity mb \<and> mb_flag mb' = mb_flag mb"
proof -
  note d = mb_okD [OF assms(1)]
  have lt: "mb_entry mb < mb_size mb" using assms by (simp add: mb_ok_def order_less_le)
  have e: "unat (mb_entry mb + 1) = unat (mb_entry mb) + 1" by (rule unat_inc [OF lt])
  let ?out = "if 0 < out_offset mb then out_offset mb - 1 else mb_size mb - 1"
  have ol: "out_offset mb < mb_size mb" using d(4) by (simp add: word_less_nat_alt)
  note p = unat_prev_index [OF ol]
  let ?mb = "mb\<lparr>msg_pool := (msg_pool mb)[unat ?out := v], mb_entry := mb_entry mb + 1, out_offset := ?out\<rparr>"
  have s: "mb_store_front v mb = Inr ?mb" using p(1) d(2) by (simp add: mb_store_front_def Let_def)
  have "(unat ?out + unat (mb_entry mb + 1)) mod unat (mb_size mb)
      = ((unat ?out + 1) mod unat (mb_size mb) + unat (mb_entry mb)) mod unat (mb_size mb)"
    unfolding e by (simp only: mod_simps ac_simps)
  then have "unat (in_offset mb) = (unat ?out + unat (mb_entry mb + 1)) mod unat (mb_size mb)"
    unfolding p(2) using d(2,7) by simp
  then have "mb_ok ?mb" using assms(1) lt e p(1) by (simp add: mb_ok_def word_le_nat_alt word_less_nat_alt)
  moreover have "mb_items ?mb = v # mb_items mb"
    using circ_window_Cons [of "unat ?out" "msg_pool mb" "unat (mb_entry mb)" v] d(2) e lt p
    by (simp add: mb_items_def word_less_nat_alt)
  ultimately show ?thesis using s by (intro exI [of _ ?mb]) (simp add: mb_capacity_def)
qed

lemma mb_fetch_ok:
  assumes "mb_ok mb" "mb_items mb = v # vs"
  shows "\<exists>mb'. mb_fetch mb = Inr (v, mb') \<and> mb_ok mb' \<and> mb_items mb' = vs
    \<and> mb_capacity mb' = mb_capacity mb \<and> mb_flag mb' = mb_flag mb"
proof -
  note d = mb_okD [OF assms(1)]
  have en: "0 < mb_entry mb" using assms(2) mb_empty_iff [of mb] by (simp add: word_gt_0)
  have e: "unat (mb_entry mb - 1) = unat (mb_entry mb) - 1" using unat_dec [OF en] by simp
  have ol: "out_offset mb < mb_size mb" using d(4) by (simp add: word_less_nat_alt)
  let ?out = "if mb_size mb \<le> out_offset mb + 1 then 0 else out_offset mb + 1"
  have o: "unat ?out = (unat (out_offset mb) + 1) mod unat (mb_size mb)" by (rule unat_next_index [OF ol])
  have w: "mb_items mb = msg_pool mb ! unat (out_offset mb)
      # circ_window (msg_pool mb) ((unat (out_offset mb) + 1) mod length (msg_pool mb)) (unat (mb_entry mb) - 1)"
    using circ_window_uncons [of "unat (mb_entry mb)" "msg_pool mb" "unat (out_offset mb)"] en d(2,4)
    by (simp add: mb_items_def word_less_nat_alt)
  let ?mb = "mb\<lparr>out_offset := ?out, mb_entry := mb_entry mb - 1\<rparr>"
  have s: "mb_fetch mb = Inr (v, ?mb)" using d(2,4) en w assms(2) by (simp add: mb_fetch_def Let_def)
  have "(unat ?out + unat (mb_entry mb - 1)) mod unat (mb_size mb)
      = (unat (out_offset mb) + (1 + (unat (mb_entry mb) - 1))) mod unat (mb_size mb)"
    unfolding o e by (simp add: mod_simps)
  also have "1 + (unat (mb_entry mb) - 1) = unat (mb_entry mb)" using en by (simp add: word_less_nat_alt)
  finally have "unat (in_offset mb) = (unat ?out + unat (mb_entry mb - 1)) mod unat (mb_size mb)"
    using d(2,7) by simp
  moreover have "?out < mb_size mb" using o d(1,2) by (simp only: word_less_nat_alt) simp
  moreover have "mb_entry mb - 1 \<le> mb_size mb" using d(3) e by (simp add: word_le_nat_alt)
  ultimately have "mb_ok ?mb" using assms(1) by (simp add: mb_ok_def)
  moreover have "mb_items ?mb = vs" using w assms(2) o d(2) by (simp add: mb_items_def e)
  ultimately show ?thesis using s by (intro exI [of _ ?mb]) (simp add: mb_capacity_def)
qed

interpretation mailbox: bounded_deque mb_ok mb_items mb_capacity mb_enq mb_deq mb_push
proof
  fix mb v vs
  show "mb_ok mb \<Longrightarrow> length (mb_items mb) \<le> mb_capacity mb"
    using mb_okD(3) by (simp add: length_mb_items mb_capacity_def)
  show "mb_ok mb \<Longrightarrow> length (mb_items mb) = mb_capacity mb \<Longrightarrow> mb_enq v mb = None"
    "mb_ok mb \<Longrightarrow> length (mb_items mb) = mb_capacity mb \<Longrightarrow> mb_push v mb = None"
    by (simp_all add: mb_enq_def mb_push_def mb_full_iff)
  show "mb_ok mb \<Longrightarrow> mb_items mb = [] \<Longrightarrow> mb_deq mb = None" by (simp add: mb_deq_def mb_empty_iff)
  show "\<exists>mb'. mb_enq v mb = Some mb' \<and> mb_ok mb' \<and> mb_items mb' = mb_items mb @ [v] \<and> mb_capacity mb' = mb_capacity mb"
    if "mb_ok mb" "length (mb_items mb) < mb_capacity mb"
    using mb_store_ok [OF that(1), of v] that(2) mb_full_iff [of mb] by (auto simp: mb_enq_def)
  show "\<exists>mb'. mb_push v mb = Some mb' \<and> mb_ok mb' \<and> mb_items mb' = v # mb_items mb \<and> mb_capacity mb' = mb_capacity mb"
    if "mb_ok mb" "length (mb_items mb) < mb_capacity mb"
    using mb_store_front_ok [OF that(1), of v] that(2) mb_full_iff [of mb] by (auto simp: mb_push_def)
  show "\<exists>mb'. mb_deq mb = Some (v, mb') \<and> mb_ok mb' \<and> mb_items mb' = vs \<and> mb_capacity mb' = mb_capacity mb"
    if "mb_ok mb" "mb_items mb = v # vs"
    using mb_fetch_ok [OF that] that(2) mb_empty_iff [of mb] by (auto simp: mb_deq_def)
qed

lemma mb_wait_q [simp]: "is_wait_q (MbQ i)" "is_wait_q (MbSendQ i)"
  by (simp_all add: is_wait_q_def)

lemma mb_ok_flag: "mb_ok mb \<Longrightarrow> flag_ok (mb_flag mb)"
  by (simp add: mb_ok_def)

lemma mb_send_loop_space:
  assumes "kinv s" "mb_ok mb" "c < RT_CPUS_NR" "mb_entry mb \<noteq> mb_size mb"
    "mb_send_loop c i v timeout (mb, s) = Inr ((mb', s'), r)"
  shows "r = Return RT_EOK \<and> kinv s' \<and> mb_ok mb' \<and> mb_items mb' = mb_items mb @ [v] \<and> mb_capacity mb' = mb_capacity mb
    \<and> queues s' (MbQ i) = tl (queues s (MbQ i)) \<and> queues s' (MbSendQ i) = queues s (MbSendQ i)
    \<and> (\<forall>u us. queues s (MbQ i) = u # us \<longrightarrow> awake (thread_stat s' u))"
proof -
  obtain mb1 where mb1: "mb_store v mb = Inr (mb1, RT_EOK)" "mb_ok mb1" "mb_items mb1 = mb_items mb @ [v]"
    "mb_capacity mb1 = mb_capacity mb" using mb_store_ok [OF assms(2,4), of v] by blast
  with assms(4,5) have w: "ipc_wake c (MbQ i) s = Inr s'" "mb' = mb1" "r = Return RT_EOK"
    by (auto simp: mb_send_loop_def)
  note k = ipc_wake_ok [OF assms(1,3) mb_wait_q(1) w(1)]
  show ?thesis using k w(2,3) mb1 by simp
qed

lemma mb_send_loop_full:
  assumes "kinv s" "mb_ok mb" "c < RT_CPUS_NR" "rt_thread_self c s = Some t" "thread_stat s t = RT_THREAD_RUNNING"
    "timeout_ok timeout" "timeout \<noteq> 0" "mb_entry mb = mb_size mb"
    "mb_send_loop c i v timeout (mb, s) = Inr ((mb', s'), r)"
  shows "r = Blocked \<and> mb' = mb \<and> kinv s' \<and> thread_stat s' t = RT_THREAD_SUSPEND
    \<and> queues s' (MbSendQ i) = order_of (mb_flag mb) (\<lambda>u. current_priority (threads s u)) t (queues s (MbSendQ i))
    \<and> queues s' (MbQ i) = queues s (MbQ i)
    \<and> (0 < sint timeout \<longrightarrow> ThreadTimer t \<in> set (timer_q s' HardTimers) \<and> delay s' (ThreadTimer t) = nat (sint timeout))"
proof -
  have b: "ipc_block c (MbSendQ i) (mb_flag mb) timeout s = Inr s'" "mb' = mb" "r = Blocked"
    using assms(7-9) by (auto simp: mb_send_loop_def)
  note k = ipc_block_ok [OF assms(1,3-5) mb_ok_flag [OF assms(2)] mb_wait_q(2) assms(6) b(1)]
  show ?thesis using k b(2,3) by simp
qed

lemma mb_send_returns:
  assumes "kinv s" "mb_ok mb" "preemptible c s" "rt_thread_self c s = Some t" "thread_stat s t = RT_THREAD_RUNNING" "timeout_ok timeout"
  shows "\<exists>mb' s' r. mb_send_loop c i v timeout (mb, s) = Inr ((mb', s'), r)"
  using ipc_block_returns [OF assms(1,3-5) mb_ok_flag [OF assms(2)] mb_wait_q(2) [of i] assms(6)]
    ipc_wake_returns [OF assms(1), of c "MbQ i"] assms(3,4) mb_store_ok [OF assms(2), of v]
  by (auto simp: mb_send_loop_def)

lemma mb_recv_returns:
  assumes "kinv s" "mb_ok mb" "preemptible c s" "rt_thread_self c s = Some t" "thread_stat s t = RT_THREAD_RUNNING" "timeout_ok timeout"
  shows "\<exists>mb' s' got r. mb_recv_loop c i timeout (mb, s) = Inr ((mb', s'), got, r)"
  using ipc_block_returns [OF assms(1,3-5) mb_ok_flag [OF assms(2)] mb_wait_q(1) [of i] assms(6)]
    ipc_wake_returns [OF assms(1), of c "MbSendQ i"] assms(3,4) mb_fetch_ok [OF assms(2)] mb_empty_iff [of mb]
  by (cases "mb_items mb") (auto simp: mb_recv_loop_def)

subsection \<open>Properties\<close>

text \<open>
  C7. The mailbox buffer is a bounded first-in-first-out queue with urgent mail: any run of sends and
  receives, each accepted or refused as \<open>rt_mb_send\<close> and \<open>rt_mb_recv\<close> do, gives the answers of a list
  bounded by the size of the mailbox, and an urgent mail is the next one received and leaves the
  others in their order.
\<close>

theorem mailbox_refines_queue:
  assumes "mb_ok mb"
  shows "qrun mb_enq mb_deq ops mb = qrun (list_enq (unat (mb_size mb))) list_deq ops (mb_items mb)
    \<and> (mb_entry mb \<noteq> mb_size mb \<longrightarrow>
        (\<exists>mb' mb''. mb_push v mb = Some mb' \<and> mb_deq mb' = Some (v, mb'') \<and> mb_items mb'' = mb_items mb))"
proof (intro conjI impI)
  show "qrun mb_enq mb_deq ops mb = qrun (list_enq (unat (mb_size mb))) list_deq ops (mb_items mb)"
    using mailbox.qrun_list [OF assms] by (simp add: mb_capacity_def)
  assume "mb_entry mb \<noteq> mb_size mb"
  then have "length (mb_items mb) < mb_capacity mb"
    using mb_full_iff [of mb] mailbox.items_bound [OF assms] by simp
  from mailbox.push_deq [OF assms this]
  show "\<exists>mb' mb''. mb_push v mb = Some mb' \<and> mb_deq mb' = Some (v, mb'') \<and> mb_items mb'' = mb_items mb" by blast
qed

definition demo_mb :: rt_mailbox where
  "demo_mb = \<lparr>mb_flag = RT_IPC_FLAG_FIFO, msg_pool = [11, 22], mb_size = 2, mb_entry = 1, in_offset = 0, out_offset = 1\<rparr>"

lemma demo_mb_ok: "mb_ok demo_mb" "mb_items demo_mb = [22]"
  by code_simp+

theorem mailbox_refines_queue_witness:
  "qrun mb_enq mb_deq [Enq 33, Enq 44, Deq, Deq, Deq] demo_mb = [Accepted, Rejected, Got 22, Got 33, Nothing]"
  using mailbox_refines_queue [OF demo_mb_ok(1), of "[Enq 33, Enq 44, Deq, Deq, Deq]"]
  by (simp add: demo_mb_ok(2) list_enq_def) (simp add: demo_mb_def)

lemma mb_send_cases:
  assumes "kinv s" and "mb_ok mb" and "c < RT_CPUS_NR" and "rt_thread_self c s = Some t"
    and "thread_stat s t = RT_THREAD_RUNNING" and "timeout_ok timeout"
    and "rt_mb_send_wait c i v timeout (mb, s) = Inr ((mb', s'), r)"
  shows "kinv s' \<and> mb_ok mb' \<and>
    (if length (mb_items mb) < unat (mb_size mb)
     then r = Return RT_EOK \<and> mb_items mb' = mb_items mb @ [v] \<and> queues s' (MbQ i) = tl (queues s (MbQ i))
       \<and> (\<forall>u us. queues s (MbQ i) = u # us \<longrightarrow> awake (thread_stat s' u))
     else if timeout = 0 then r = Return (- RT_EFULL) \<and> mb' = mb \<and> s' = s
     else r = Blocked \<and> mb' = mb \<and> thread_stat s' t = RT_THREAD_SUSPEND
       \<and> queues s' (MbSendQ i) = order_of (mb_flag mb) (\<lambda>u. current_priority (threads s u)) t (queues s (MbSendQ i))
       \<and> (0 < sint timeout \<longrightarrow> ThreadTimer t \<in> set (timer_q s' HardTimers)
            \<and> delay s' (ThreadTimer t) = nat (sint timeout)))"
proof -
  have cap: "length (mb_items mb) < unat (mb_size mb) \<longleftrightarrow> mb_entry mb \<noteq> mb_size mb"
    using mb_full_iff [of mb] mailbox.items_bound [OF assms(2)] by (auto simp: mb_capacity_def)
  consider (space) "mb_entry mb \<noteq> mb_size mb" | (refuse) "mb_entry mb = mb_size mb" "timeout = 0"
    | (wait) "mb_entry mb = mb_size mb" "timeout \<noteq> 0" by blast
  then show ?thesis
  proof cases
    case space
    then have "mb_send_loop c i v timeout (mb, s) = Inr ((mb', s'), r)"
      using assms(7) by (auto simp: rt_mb_send_wait_def rt_assert_def split: if_splits)
    from mb_send_loop_space [OF assms(1-3) space this] cap space show ?thesis by simp
  next
    case refuse
    then show ?thesis using assms cap by (auto simp: rt_mb_send_wait_def rt_assert_def split: if_splits)
  next
    case wait
    then have "mb_send_loop c i v timeout (mb, s) = Inr ((mb', s'), r)"
      using assms(7) by (auto simp: rt_mb_send_wait_def rt_assert_def split: if_splits)
    from mb_send_loop_full [OF assms(1-6) wait(2,1) this] cap wait assms(2) show ?thesis by simp
  qed
qed

text \<open>
  \<open>rt_mb_send_wait\<close>, on every branch: with space the mail goes last and the first waiting receiver is
  woken; a full mailbox refuses a sender that does not want to wait and nothing changes; otherwise the
  sender is suspended at its place among the senders, with its timer running when the wait is bounded.
  In a thread the call returns or waits, it never fails.
\<close>

theorem mb_send_spec:
  assumes "kinv s" and "mb_ok mb" and "preemptible c s" and "rt_thread_self c s = Some t"
    and "thread_stat s t = RT_THREAD_RUNNING" and "scheduler_available c s" and "timeout_ok timeout"
  shows "\<exists>mb' s' r. rt_mb_send_wait c i v timeout (mb, s) = Inr ((mb', s'), r) \<and> kinv s' \<and> mb_ok mb' \<and>
    (if length (mb_items mb) < unat (mb_size mb)
     then r = Return RT_EOK \<and> mb_items mb' = mb_items mb @ [v] \<and> queues s' (MbQ i) = tl (queues s (MbQ i))
       \<and> (\<forall>u us. queues s (MbQ i) = u # us \<longrightarrow> awake (thread_stat s' u))
     else if timeout = 0 then r = Return (- RT_EFULL) \<and> mb' = mb \<and> s' = s
     else r = Blocked \<and> mb' = mb \<and> thread_stat s' t = RT_THREAD_SUSPEND
       \<and> queues s' (MbSendQ i) = order_of (mb_flag mb) (\<lambda>u. current_priority (threads s u)) t (queues s (MbSendQ i))
       \<and> (0 < sint timeout \<longrightarrow> ThreadTimer t \<in> set (timer_q s' HardTimers)
            \<and> delay s' (ThreadTimer t) = nat (sint timeout)))"
proof -
  have c: "c < RT_CPUS_NR" using assms(3) by (simp add: preemptible_def)
  have "\<exists>mb' s' r. rt_mb_send_wait c i v timeout (mb, s) = Inr ((mb', s'), r)"
    using mb_send_returns [OF assms(1-5,7)] assms(6) by (auto simp: rt_mb_send_wait_def)
  then show ?thesis using mb_send_cases [OF assms(1,2) c assms(4,5,7)] by blast
qed

theorem mb_send_spec_witness:
  "\<exists>mb' s'. rt_mb_send_wait 0 0 33 0 (demo_mb, demo_ready) = Inr ((mb', s'), Return RT_EOK) \<and> mb_items mb' = [22, 33]"
proof -
  have sz: "unat (mb_size demo_mb) = 2" by (simp add: demo_mb_def)
  have to: "timeout_ok 0" by (simp add: timeout_ok_def)
  from mb_send_spec [OF demo_kinv(2) demo_mb_ok(1) demo_preemptible demo_ready_self demo_ready_sel(5) demo_ready_available to, of 0 33]
  show ?thesis by (auto simp: demo_mb_ok(2) sz)
qed

lemma mb_recv_cases:
  assumes "kinv s" and "mb_ok mb" and "c < RT_CPUS_NR" and "rt_thread_self c s = Some t"
    and "thread_stat s t = RT_THREAD_RUNNING" and "timeout_ok timeout"
    and "rt_mb_recv c i timeout (mb, s) = Inr ((mb', s'), got, r)"
  shows "kinv s' \<and> mb_ok mb' \<and>
    (case mb_items mb of
       v # vs \<Rightarrow> r = Return RT_EOK \<and> got = Some v \<and> mb_items mb' = vs \<and> queues s' (MbSendQ i) = tl (queues s (MbSendQ i))
         \<and> (\<forall>u us. queues s (MbSendQ i) = u # us \<longrightarrow> awake (thread_stat s' u))
     | [] \<Rightarrow> got = None \<and> mb' = mb \<and>
        (if timeout = 0 then r = Return (- RT_ETIMEOUT) \<and> s' = s
         else r = Blocked \<and> thread_stat s' t = RT_THREAD_SUSPEND
           \<and> queues s' (MbQ i) = order_of (mb_flag mb) (\<lambda>u. current_priority (threads s u)) t (queues s (MbQ i))))"
proof (cases "mb_items mb")
  case Nil
  then have e: "mb_entry mb = 0" using mb_empty_iff by blast
  show ?thesis
  proof (cases "timeout = 0")
    case True
    then show ?thesis using assms e Nil by (auto simp: rt_mb_recv_def rt_assert_def split: if_splits)
  next
    case False
    then have b: "ipc_block c (MbQ i) (mb_flag mb) timeout s = Inr s'" "mb' = mb" "r = Blocked" "got = None"
      using assms(7) e by (auto simp: rt_mb_recv_def mb_recv_loop_def rt_assert_def split: if_splits)
    note k = ipc_block_ok [OF assms(1,3-5) mb_ok_flag [OF assms(2)] mb_wait_q(1) assms(6) b(1)]
    show ?thesis using k b(2-4) False Nil assms(2) by simp
  qed
next
  case (Cons v vs)
  then have ne: "mb_entry mb \<noteq> 0" using mb_empty_iff [of mb] by simp
  obtain mb1 where mb1: "mb_fetch mb = Inr (v, mb1)" "mb_ok mb1" "mb_items mb1 = vs"
    using mb_fetch_ok [OF assms(2) Cons] by blast
  have w: "ipc_wake c (MbSendQ i) s = Inr s'" "mb' = mb1" "got = Some v" "r = Return RT_EOK"
    using assms(7) ne mb1(1) by (auto simp: rt_mb_recv_def mb_recv_loop_def rt_assert_def split: if_splits)
  note k = ipc_wake_ok [OF assms(1,3) mb_wait_q(2) w(1)]
  show ?thesis using k w(2-4) mb1 Cons by simp
qed

text \<open>
  \<open>rt_mb_recv\<close>, on every branch: it delivers the oldest mail and wakes the first waiting sender; an
  empty mailbox refuses a receiver that does not want to wait and nothing changes; otherwise the
  receiver is suspended at its place among the receivers. In a thread the call returns or waits, it never fails.
\<close>

theorem mb_recv_spec:
  assumes "kinv s" and "mb_ok mb" and "preemptible c s" and "rt_thread_self c s = Some t"
    and "thread_stat s t = RT_THREAD_RUNNING" and "scheduler_available c s" and "timeout_ok timeout"
  shows "\<exists>mb' s' got r. rt_mb_recv c i timeout (mb, s) = Inr ((mb', s'), got, r) \<and> kinv s' \<and> mb_ok mb' \<and>
    (case mb_items mb of
       v # vs \<Rightarrow> r = Return RT_EOK \<and> got = Some v \<and> mb_items mb' = vs \<and> queues s' (MbSendQ i) = tl (queues s (MbSendQ i))
         \<and> (\<forall>u us. queues s (MbSendQ i) = u # us \<longrightarrow> awake (thread_stat s' u))
     | [] \<Rightarrow> got = None \<and> mb' = mb \<and>
        (if timeout = 0 then r = Return (- RT_ETIMEOUT) \<and> s' = s
         else r = Blocked \<and> thread_stat s' t = RT_THREAD_SUSPEND
           \<and> queues s' (MbQ i) = order_of (mb_flag mb) (\<lambda>u. current_priority (threads s u)) t (queues s (MbQ i))))"
proof -
  have c: "c < RT_CPUS_NR" using assms(3) by (simp add: preemptible_def)
  have "\<exists>mb' s' got r. rt_mb_recv c i timeout (mb, s) = Inr ((mb', s'), got, r)"
    using mb_recv_returns [OF assms(1-5,7)] assms(6) by (auto simp: rt_mb_recv_def)
  then show ?thesis using mb_recv_cases [OF assms(1,2) c assms(4,5,7)] by blast
qed

theorem mb_recv_spec_witness:
  "\<exists>mb' s'. rt_mb_recv 0 0 0 (demo_mb, demo_ready) = Inr ((mb', s'), Some 22, Return RT_EOK) \<and> mb_items mb' = []"
proof -
  have to: "timeout_ok 0" by (simp add: timeout_ok_def)
  from mb_recv_spec [OF demo_kinv(2) demo_mb_ok(1) demo_preemptible demo_ready_self demo_ready_sel(5) demo_ready_available to, of 0]
  show ?thesis by (auto simp: demo_mb_ok(2))
qed

text \<open>
  The waits of one \<open>rt_mb_send_wait\<close> add up to at most its timeout: a sender that is woken and finds the
  mailbox full again waits for exactly the ticks that are left, and gives up with \<open>RT_EFULL\<close> when none
  are, across the wrap-around of the tick counter.
\<close>

theorem mb_wait_time_bounded:
  assumes "kinv s" and "mb_ok mb" and "c < RT_CPUS_NR" and "rt_thread_self c s = Some t"
    and "thread_stat s t = RT_THREAD_RUNNING" and "error (threads s t) = RT_EOK" and "mb_entry mb = mb_size mb"
    and "0 < sint timeout" and "timeout_ok timeout" and "unat (rt_tick_get s - tick0) < 2 ^ 31"
    and "rt_mb_send_wait_cont c i v timeout tick0 (mb, s) = Inr ((mb', s'), r)"
  shows "mb' = mb \<and> (if sint timeout \<le> int (unat (rt_tick_get s - tick0)) then r = Return (- RT_EFULL)
    else r = Blocked \<and> thread_stat s' t = RT_THREAD_SUSPEND \<and> ThreadTimer t \<in> set (timer_q s' HardTimers)
      \<and> int (delay s' (ThreadTimer t)) + int (unat (rt_tick_get s - tick0)) = sint timeout)"
proof -
  let ?rem = "ipc_remaining timeout tick0 s"
  note ex = ipc_remaining_exact [OF assms(8,10)]
  have l: "mb_send_loop c i v ?rem (mb, s) = Inr ((mb', s'), r)"
    using assms(4,6,11) by (simp add: rt_mb_send_wait_cont_def)
  show ?thesis
  proof (cases "sint timeout \<le> int (unat (rt_tick_get s - tick0))")
    case True
    then have "sint ?rem = 0" using ex by simp
    then have "?rem = 0" by (simp add: signed_word_eqI)
    then show ?thesis using l True assms(4,7) by (auto simp: mb_send_loop_def)
  next
    case False
    then have p: "0 < sint ?rem" using ex by simp
    then have "?rem \<noteq> 0" by auto
    from mb_send_loop_full [OF assms(1-5) ipc_remaining_timeout_ok [OF assms(9,10)] this assms(7) l] p
    show ?thesis using False ex by auto
  qed
qed

theorem mb_wait_time_bounded_witness:
  "\<exists>s'. rt_mb_send_wait_cont 0 0 33 5 (- 7) (demo_mb\<lparr>mb_size := 1, msg_pool := [9], out_offset := 0\<rparr>, demo_ready)
     = Inr ((demo_mb\<lparr>mb_size := 1, msg_pool := [9], out_offset := 0\<rparr>, s'), Return (- RT_EFULL))"
proof -
  let ?mb = "demo_mb\<lparr>mb_size := 1, msg_pool := [9], out_offset := 0\<rparr>"
  have ok: "mb_ok ?mb" "mb_entry ?mb = mb_size ?mb" by code_simp+
  have "case rt_mb_send_wait_cont 0 0 33 5 (- 7) (?mb, demo_ready) of Inl e \<Rightarrow> False | Inr _ \<Rightarrow> True" by code_simp
  then obtain mb' s' r where r: "rt_mb_send_wait_cont 0 0 33 5 (- 7) (?mb, demo_ready) = Inr ((mb', s'), r)"
    by (auto split: sum.splits)
  have tk: "rt_tick_get demo_ready = 0" and e: "error (threads demo_ready 4) = RT_EOK" by code_simp+
  have "0 < sint (5 :: 32 word)" "timeout_ok 5" "unat (rt_tick_get demo_ready - (- 7)) < 2 ^ 31"
    "sint (5 :: 32 word) \<le> int (unat (rt_tick_get demo_ready - (- 7)))"
    by (simp_all add: tk timeout_ok_def)
  from mb_wait_time_bounded [OF demo_kinv(2) ok(1) _ demo_ready_self demo_ready_sel(5) e ok(2) this(1-3) r] this(4) r
  show ?thesis by auto
qed

end
