(* ===== verification/Rt_Messagequeue.thy ===== *)
theory Rt_Messagequeue
  imports Rt_Wait
begin

unbundle bit_operations_syntax

text \<open>
  Message queues, \<open>src/ipc.c\<close>: a pool of equal slots, each a \<open>next\<close> pointer followed by the bytes of the
  message. A slot is in the chain of free slots, in the chain of queued messages, or held by a thread
  between its two critical sections: \<open>rt_mq_send_wait\<close> and \<open>rt_mq_recv\<close> copy the bytes with the lock
  released. The steps of these functions are separate definitions, so that their interleaving can be
  stated; the functions compose them. A slot is named by its index in the pool.
\<close>

record rt_messagequeue =
  mq_flag :: u8
  msg_size :: u16
  max_msgs :: u16
  mq_entry :: u16
  msg_queue_head :: "nat option"
  msg_queue_tail :: "nat option"
  msg_queue_free :: "nat option"
  mq_next :: "nat \<Rightarrow> nat option"
  mq_data :: "nat \<Rightarrow> u8 list"

subsection \<open>Life of a message queue\<close>

text \<open>The loop over \<open>temp\<close> that pushes slot 0, 1, ... on the free chain.\<close>

fun mq_link_pool :: "nat \<Rightarrow> rt_messagequeue \<Rightarrow> rt_messagequeue" where
  "mq_link_pool 0 mq = mq"
| "mq_link_pool (Suc n) mq =
    (let mq = mq_link_pool n mq in
     mq\<lparr>mq_next := (mq_next mq)(n := msg_queue_free mq), msg_queue_free := Some n\<rparr>)"

text \<open>
  \<open>mem\<close> is what the pool holds before. The message size is rounded up and kept in 16 bits.
\<close>

definition mq_fresh :: "u8 \<Rightarrow> u16 \<Rightarrow> u16 \<Rightarrow> (nat \<Rightarrow> nat option) \<Rightarrow> (nat \<Rightarrow> u8 list) \<Rightarrow> rt_messagequeue" where
  "mq_fresh flag sz n nexts mem = mq_link_pool (unat n)
     \<lparr>mq_flag = flag, msg_size = sz, max_msgs = n, mq_entry = 0, msg_queue_head = None, msg_queue_tail = None,
      msg_queue_free = None, mq_next = nexts, mq_data = (\<lambda>k. take (unat sz) (mem k))\<rparr>"

definition mq_clear_queues :: "nat \<Rightarrow> kernel \<Rightarrow> kernel" where
  "mq_clear_queues i s = s\<lparr>queues := (queues s)(MqQ i := [], MqSendQ i := [])\<rparr>"

definition rt_mq_init ::
  "nat \<Rightarrow> u32 \<Rightarrow> u32 \<Rightarrow> u8 \<Rightarrow> (nat \<Rightarrow> nat option) \<Rightarrow> (nat \<Rightarrow> u8 list) \<Rightarrow> kernel \<Rightarrow> (rt_messagequeue \<times> kernel) res" where
  "rt_mq_init i sz pool_size flag nexts mem s =
    rt_assert (flag = RT_IPC_FLAG_FIFO \<or> flag = RT_IPC_FLAG_PRIO)
     (let msz = (ucast (RT_ALIGN sz 64) :: u16);
          n = (ucast (pool_size div (ucast msz + 4)) :: u16)
      in Inr (mq_fresh flag msz n nexts mem, mq_clear_queues i s))"

definition rt_mq_create ::
  "cpuid \<Rightarrow> nat \<Rightarrow> bool \<Rightarrow> (u32 \<Rightarrow> ((nat \<Rightarrow> nat option) \<times> (nat \<Rightarrow> u8 list)) option) \<Rightarrow> u32 \<Rightarrow> u32 \<Rightarrow> u8 \<Rightarrow> kernel
    \<Rightarrow> (rt_messagequeue option \<times> kernel) res" where
  "rt_mq_create c i alloc_obj alloc sz msgs flag s =
    rt_assert (flag = RT_IPC_FLAG_FIFO \<or> flag = RT_IPC_FLAG_PRIO)
     (rt_assert (rt_interrupt_get_nest c s = 0)
       (if \<not> alloc_obj then Inr (None, s)
        else let msz = (ucast (RT_ALIGN sz 64) :: u16); n = (ucast msgs :: u16) in
          case alloc ((ucast msz + 4) * ucast n) of None \<Rightarrow> Inr (None, s\<lparr>queues := (queues s)(MqQ i := [])\<rparr>)
          | Some (nexts, mem) \<Rightarrow> Inr (Some (mq_fresh flag msz n nexts mem), mq_clear_queues i s)))"

definition rt_mq_detach :: "cpuid \<Rightarrow> nat \<Rightarrow> kernel \<Rightarrow> kernel res" where
  "rt_mq_detach c i s = and_then (ipc_list_resume_all c (MqQ i) s) (\<lambda>s. ipc_list_resume_all c (MqSendQ i) s)"

definition rt_mq_delete :: "cpuid \<Rightarrow> nat \<Rightarrow> kernel \<Rightarrow> kernel res" where
  "rt_mq_delete c i s = rt_assert (rt_interrupt_get_nest c s = 0)
     (and_then (ipc_list_resume_all c (MqQ i) s) (\<lambda>s. ipc_list_resume_all c (MqSendQ i) s))"

subsection \<open>Steps on the chains\<close>

text \<open>The first critical section of a sender.\<close>

definition mq_take_free :: "rt_messagequeue \<Rightarrow> (nat \<times> rt_messagequeue) option" where
  "mq_take_free mq = (case msg_queue_free mq of None \<Rightarrow> None
     | Some k \<Rightarrow> Some (k, mq\<lparr>msg_queue_free := mq_next mq k\<rparr>))"

text \<open>Copying the message, the lock being free.\<close>

definition mq_copy_in :: "nat \<Rightarrow> u8 list \<Rightarrow> u32 \<Rightarrow> rt_messagequeue \<Rightarrow> rt_messagequeue res" where
  "mq_copy_in k buffer n mq =
    (if unat n \<le> length buffer \<and> unat n \<le> length (mq_data mq k)
     then Inr (mq\<lparr>mq_data := (mq_data mq)(k := memcpy (mq_data mq k) 0 buffer 0 (unat n))\<rparr>)
     else Inl OutOfBounds)"

definition mq_seal :: "nat \<Rightarrow> rt_messagequeue \<Rightarrow> rt_messagequeue" where
  "mq_seal k mq = mq\<lparr>mq_next := (mq_next mq)(k := None)\<rparr>"

text \<open>The second critical section of a sender: behind the last message, or in front of the first.\<close>

definition mq_count_up :: "rt_messagequeue \<Rightarrow> rt_messagequeue \<times> int" where
  "mq_count_up mq = (if mq_entry mq < 0xffff then (mq\<lparr>mq_entry := mq_entry mq + 1\<rparr>, RT_EOK) else (mq, - RT_EFULL))"

definition mq_link_tail :: "nat \<Rightarrow> rt_messagequeue \<Rightarrow> rt_messagequeue \<times> int" where
  "mq_link_tail k mq =
    (let mq = (case msg_queue_tail mq of None \<Rightarrow> mq | Some t \<Rightarrow> mq\<lparr>mq_next := (mq_next mq)(t := Some k)\<rparr>);
         mq = mq\<lparr>msg_queue_tail := Some k\<rparr>;
         mq = (if msg_queue_head mq = None then mq\<lparr>msg_queue_head := Some k\<rparr> else mq)
     in mq_count_up mq)"

definition mq_link_head :: "nat \<Rightarrow> rt_messagequeue \<Rightarrow> rt_messagequeue \<times> int" where
  "mq_link_head k mq =
    (let mq = mq\<lparr>mq_next := (mq_next mq)(k := msg_queue_head mq)\<rparr>;
         mq = mq\<lparr>msg_queue_head := Some k\<rparr>;
         mq = (if msg_queue_tail mq = None then mq\<lparr>msg_queue_tail := Some k\<rparr> else mq)
     in mq_count_up mq)"

text \<open>The two critical sections of a receiver, and the copy between them.\<close>

definition mq_unlink :: "rt_messagequeue \<Rightarrow> (nat \<times> rt_messagequeue) res" where
  "mq_unlink mq = (case msg_queue_head mq of None \<Rightarrow> Inl NullDeref
    | Some k \<Rightarrow>
       let mq = mq\<lparr>msg_queue_head := mq_next mq k\<rparr>;
           mq = (if msg_queue_tail mq = Some k then mq\<lparr>msg_queue_tail := None\<rparr> else mq);
           mq = (if 0 < mq_entry mq then mq\<lparr>mq_entry := mq_entry mq - 1\<rparr> else mq)
       in Inr (k, mq))"

definition mq_copy_out :: "nat \<Rightarrow> u32 \<Rightarrow> rt_messagequeue \<Rightarrow> u8 list" where
  "mq_copy_out k n mq = take (unat (if ucast (msg_size mq) < n then ucast (msg_size mq) else n)) (mq_data mq k)"

definition mq_give_back :: "nat \<Rightarrow> rt_messagequeue \<Rightarrow> rt_messagequeue" where
  "mq_give_back k mq = mq\<lparr>mq_next := (mq_next mq)(k := msg_queue_free mq), msg_queue_free := Some k\<rparr>"

subsection \<open>Sending\<close>

definition mq_send_loop ::
  "cpuid \<Rightarrow> nat \<Rightarrow> u8 list \<Rightarrow> u32 \<Rightarrow> 32 word \<Rightarrow> rt_messagequeue \<times> kernel \<Rightarrow> ((rt_messagequeue \<times> kernel) \<times> outcome) res" where
  "mq_send_loop c i buffer n timeout = (\<lambda>(mq, s).
    case mq_take_free mq of
      None \<Rightarrow>
        if timeout = 0
        then case rt_thread_self c s of None \<Rightarrow> Inl NullDeref
             | Some t \<Rightarrow> Inr ((mq, upd_thread t (\<lambda>th. th\<lparr>error := RT_EOK\<rparr>) s), Return (- RT_EFULL))
        else and_then (ipc_block c (MqSendQ i) (mq_flag mq) timeout s) (\<lambda>s. Inr ((mq, s), Blocked))
    | Some (k, mq) \<Rightarrow>
        and_then (mq_copy_in k buffer n (mq_seal k mq)) (\<lambda>mq.
        case mq_link_tail k mq of (mq, e) \<Rightarrow>
          if e \<noteq> RT_EOK then Inr ((mq, s), Return e)
          else and_then (ipc_wake c (MqQ i) s) (\<lambda>s. Inr ((mq, s), Return RT_EOK))))"

definition rt_mq_send_wait ::
  "cpuid \<Rightarrow> nat \<Rightarrow> u8 list \<Rightarrow> u32 \<Rightarrow> 32 word \<Rightarrow> rt_messagequeue \<times> kernel \<Rightarrow> ((rt_messagequeue \<times> kernel) \<times> outcome) res" where
  "rt_mq_send_wait c i buffer n timeout = (\<lambda>(mq, s).
    rt_assert (n \<noteq> 0) (rt_assert (timeout \<noteq> 0 \<longrightarrow> scheduler_available c s)
     (if ucast (msg_size mq) < n then Inr ((mq, s), Return (- RT_ERROR))
      else if msg_queue_free mq = None \<and> timeout = 0 then Inr ((mq, s), Return (- RT_EFULL))
      else mq_send_loop c i buffer n timeout (mq, s))))"

definition rt_mq_send_wait_cont ::
  "cpuid \<Rightarrow> nat \<Rightarrow> u8 list \<Rightarrow> u32 \<Rightarrow> 32 word \<Rightarrow> u32 \<Rightarrow> rt_messagequeue \<times> kernel \<Rightarrow> ((rt_messagequeue \<times> kernel) \<times> outcome) res" where
  "rt_mq_send_wait_cont c i buffer n timeout tick0 = (\<lambda>(mq, s).
    case rt_thread_self c s of None \<Rightarrow> Inl NullDeref
    | Some t \<Rightarrow>
       if error (threads s t) \<noteq> RT_EOK then Inr ((mq, s), Return (error (threads s t)))
       else mq_send_loop c i buffer n (ipc_remaining timeout tick0 s) (mq, s))"

definition rt_mq_send ::
  "cpuid \<Rightarrow> nat \<Rightarrow> u8 list \<Rightarrow> u32 \<Rightarrow> rt_messagequeue \<times> kernel \<Rightarrow> ((rt_messagequeue \<times> kernel) \<times> outcome) res" where
  "rt_mq_send c i buffer n = rt_mq_send_wait c i buffer n 0"

definition rt_mq_urgent ::
  "cpuid \<Rightarrow> nat \<Rightarrow> u8 list \<Rightarrow> u32 \<Rightarrow> rt_messagequeue \<times> kernel \<Rightarrow> ((rt_messagequeue \<times> kernel) \<times> int) res" where
  "rt_mq_urgent c i buffer n = (\<lambda>(mq, s).
    rt_assert (n \<noteq> 0)
     (if ucast (msg_size mq) < n then Inr ((mq, s), - RT_ERROR)
      else case mq_take_free mq of None \<Rightarrow> Inr ((mq, s), - RT_EFULL)
      | Some (k, mq) \<Rightarrow>
         and_then (mq_copy_in k buffer n mq) (\<lambda>mq.
         case mq_link_head k mq of (mq, e) \<Rightarrow>
           if e \<noteq> RT_EOK then Inr ((mq, s), e)
           else and_then (ipc_wake c (MqQ i) s) (\<lambda>s. Inr ((mq, s), RT_EOK)))))"

subsection \<open>Receiving\<close>

definition mq_recv_loop ::
  "cpuid \<Rightarrow> nat \<Rightarrow> u32 \<Rightarrow> 32 word \<Rightarrow> rt_messagequeue \<times> kernel \<Rightarrow> ((rt_messagequeue \<times> kernel) \<times> u8 list option \<times> outcome) res" where
  "mq_recv_loop c i n timeout = (\<lambda>(mq, s).
    if mq_entry mq = 0
    then if timeout = 0
         then case rt_thread_self c s of None \<Rightarrow> Inl NullDeref
              | Some t \<Rightarrow> Inr ((mq, upd_thread t (\<lambda>th. th\<lparr>error := - RT_ETIMEOUT\<rparr>) s), None, Return (- RT_ETIMEOUT))
         else and_then (ipc_block c (MqQ i) (mq_flag mq) timeout s) (\<lambda>s. Inr ((mq, s), None, Blocked))
    else and_then (mq_unlink mq) (\<lambda>(k, mq).
         let out = mq_copy_out k n mq; mq = mq_give_back k mq in
         and_then (ipc_wake c (MqSendQ i) s) (\<lambda>s. Inr ((mq, s), Some out, Return RT_EOK))))"

definition rt_mq_recv ::
  "cpuid \<Rightarrow> nat \<Rightarrow> u32 \<Rightarrow> 32 word \<Rightarrow> rt_messagequeue \<times> kernel \<Rightarrow> ((rt_messagequeue \<times> kernel) \<times> u8 list option \<times> outcome) res" where
  "rt_mq_recv c i n timeout = (\<lambda>(mq, s).
    rt_assert (n \<noteq> 0) (rt_assert (timeout \<noteq> 0 \<longrightarrow> scheduler_available c s)
     (if mq_entry mq = 0 \<and> timeout = 0 then Inr ((mq, s), None, Return (- RT_ETIMEOUT))
      else mq_recv_loop c i n timeout (mq, s))))"

definition rt_mq_recv_cont ::
  "cpuid \<Rightarrow> nat \<Rightarrow> u32 \<Rightarrow> 32 word \<Rightarrow> u32 \<Rightarrow> rt_messagequeue \<times> kernel \<Rightarrow> ((rt_messagequeue \<times> kernel) \<times> u8 list option \<times> outcome) res" where
  "rt_mq_recv_cont c i n timeout tick0 = (\<lambda>(mq, s).
    case rt_thread_self c s of None \<Rightarrow> Inl NullDeref
    | Some t \<Rightarrow>
       if error (threads s t) \<noteq> RT_EOK then Inr ((mq, s), None, Return (error (threads s t)))
       else mq_recv_loop c i n (ipc_remaining timeout tick0 s) (mq, s))"

text \<open>
  \<open>RT_IPC_CMD_RESET\<close> moves every queued message to the free chain. The chain is followed with fuel; a
  chain without end is a hang.
\<close>

fun mq_drain :: "nat \<Rightarrow> rt_messagequeue \<Rightarrow> rt_messagequeue res" where
  "mq_drain 0 mq = (if msg_queue_head mq = None then Inr mq else Inl Hang)"
| "mq_drain (Suc fuel) mq = (case msg_queue_head mq of None \<Rightarrow> Inr mq
    | Some k \<Rightarrow>
       let mq = mq\<lparr>msg_queue_head := mq_next mq k\<rparr>;
           mq = (if msg_queue_tail mq = Some k then mq\<lparr>msg_queue_tail := None\<rparr> else mq)
       in mq_drain fuel (mq_give_back k mq))"

definition rt_mq_control ::
  "cpuid \<Rightarrow> nat \<Rightarrow> bool \<Rightarrow> rt_messagequeue \<times> kernel \<Rightarrow> ((rt_messagequeue \<times> kernel) \<times> int) res" where
  "rt_mq_control c i is_reset = (\<lambda>(mq, s).
    if is_reset
    then and_then (ipc_list_resume_all c (MqQ i) s) (\<lambda>s.
         and_then (ipc_list_resume_all c (MqSendQ i) s) (\<lambda>s.
         and_then (mq_drain (unat (max_msgs mq)) mq) (\<lambda>mq.
         and_then (rt_schedule c s) (\<lambda>s. Inr ((mq\<lparr>mq_entry := 0\<rparr>, s), RT_EOK)))))
    else Inr ((mq, s), - RT_ERROR))"

subsection \<open>Chains\<close>

text \<open>The slots met when following the pointers from \<open>p\<close> to the null pointer.\<close>

fun chain :: "(nat \<Rightarrow> nat option) \<Rightarrow> nat option \<Rightarrow> nat list \<Rightarrow> bool" where
  "chain nx p [] \<longleftrightarrow> p = None"
| "chain nx p (k # ks) \<longleftrightarrow> p = Some k \<and> chain nx (nx k) ks"

lemma chain_None [simp]: "chain nx None ks \<longleftrightarrow> ks = []"
  by (cases ks) auto

lemma chain_Some: "chain nx (Some k) ks \<longleftrightarrow> (\<exists>ks'. ks = k # ks' \<and> chain nx (nx k) ks')"
  by (cases ks) auto

lemma chain_upd [simp]: "k \<notin> set ks \<Longrightarrow> chain (nx(k := v)) p ks = chain nx p ks"
  by (induction ks arbitrary: p) auto

lemma chain_snoc:
  assumes "chain nx p ks" "ks \<noteq> []" "distinct (ks @ [k])" "nx k = None"
  shows "chain (nx(last ks := Some k)) p (ks @ [k])"
  using assms
proof (induction ks arbitrary: p)
  case Nil
  then show ?case by simp
next
  case (Cons x xs)
  show ?case
  proof (cases "xs = []")
    case True
    with Cons.prems show ?thesis by auto
  next
    case False
    moreover have "last xs \<in> set xs" using False by simp
    ultimately show ?thesis using Cons.IH [of "nx x"] Cons.prems by auto
  qed
qed

lemma chain_head: "chain nx p ks \<Longrightarrow> p = (case ks of [] \<Rightarrow> None | k # _ \<Rightarrow> Some k)"
  by (cases ks) auto

subsection \<open>Invariant\<close>

text \<open>
  What a slot outside the chains is held for: a sender took it, has cleared its \<open>next\<close>, or a receiver
  reads it.
\<close>

datatype mq_phase = Taken | Sealed | Reading

definition mq_wf :: "rt_messagequeue \<Rightarrow> (nat \<rightharpoonup> mq_phase) \<Rightarrow> nat list \<Rightarrow> nat list \<Rightarrow> bool" where
  "mq_wf mq ph fs qs \<longleftrightarrow>
     chain (mq_next mq) (msg_queue_free mq) fs \<and> chain (mq_next mq) (msg_queue_head mq) qs
     \<and> msg_queue_tail mq = (if qs = [] then None else Some (last qs))
     \<and> distinct (fs @ qs) \<and> dom ph \<inter> set (fs @ qs) = {} \<and> dom ph \<union> set (fs @ qs) = {..<unat (max_msgs mq)}
     \<and> unat (mq_entry mq) = length qs
     \<and> (\<forall>k. ph k = Some Sealed \<longrightarrow> mq_next mq k = None)
     \<and> (\<forall>k < unat (max_msgs mq). length (mq_data mq k) = unat (msg_size mq))
     \<and> flag_ok (mq_flag mq)"

lemma mq_wfD:
  assumes "mq_wf mq ph fs qs"
  shows "chain (mq_next mq) (msg_queue_free mq) fs" "chain (mq_next mq) (msg_queue_head mq) qs"
    "msg_queue_tail mq = (if qs = [] then None else Some (last qs))"
    "distinct fs" "distinct qs" "set fs \<inter> set qs = {}" "dom ph \<inter> set fs = {}" "dom ph \<inter> set qs = {}"
    "dom ph \<union> set fs \<union> set qs = {..<unat (max_msgs mq)}" "unat (mq_entry mq) = length qs"
    "\<And>k. ph k = Some Sealed \<Longrightarrow> mq_next mq k = None"
    "\<And>k. k < unat (max_msgs mq) \<Longrightarrow> length (mq_data mq k) = unat (msg_size mq)" "flag_ok (mq_flag mq)"
  using assms by (auto simp: mq_wf_def)

lemma mq_queue_bound:
  assumes "mq_wf mq ph fs qs"
  shows "length qs + card (dom ph) + length fs = unat (max_msgs mq)"
proof -
  note d = mq_wfD [OF assms]
  have fin: "finite (dom ph)" using d(9) by (metis finite_Un finite_lessThan)
  have "card (dom ph \<union> set fs \<union> set qs) = card (dom ph) + length fs + length qs"
    using d(4-8) fin by (subst card_Un_disjoint; (subst card_Un_disjoint)?) (auto simp: distinct_card)
  then show ?thesis using d(9) by simp
qed

lemma mq_entry_room:
  assumes "mq_wf mq ph fs qs" "ph k = Some x"
  shows "mq_entry mq < 0xffff" "unat (mq_entry mq + 1) = length qs + 1"
proof -
  note d = mq_wfD [OF assms(1)]
  have fin: "finite (dom ph)" using d(9) by (metis finite_Un finite_lessThan)
  have "0 < card (dom ph)" using assms(2) fin by (auto simp: card_gt_0_iff)
  then have "length qs < unat (max_msgs mq)" using mq_queue_bound [OF assms(1)] by linarith
  moreover have "unat (max_msgs mq) < 2 ^ 16" using unsigned_less [of "max_msgs mq", where 'a = nat] by simp
  ultimately show lt: "mq_entry mq < 0xffff" using d(10) by (simp add: word_less_nat_alt)
  then show "unat (mq_entry mq + 1) = length qs + 1" using unat_inc [OF lt] d(10) by simp
qed

lemma mq_take_free_wf:
  assumes "mq_wf mq ph (k # fs) qs"
  shows "\<exists>mq'. mq_take_free mq = Some (k, mq') \<and> mq_wf mq' (ph(k \<mapsto> Taken)) fs qs
    \<and> mq_data mq' = mq_data mq \<and> msg_size mq' = msg_size mq \<and> mq_flag mq' = mq_flag mq \<and> max_msgs mq' = max_msgs mq"
  using assms by (auto simp: mq_wf_def mq_take_free_def)

lemma mq_take_free_None: "mq_wf mq ph [] qs \<Longrightarrow> mq_take_free mq = None \<and> msg_queue_free mq = None"
  by (simp add: mq_wf_def mq_take_free_def)

lemma mq_seal_wf:
  assumes "mq_wf mq ph fs qs" "k \<in> dom ph"
  shows "mq_wf (mq_seal k mq) (ph(k \<mapsto> Sealed)) fs qs"
proof -
  note d = mq_wfD [OF assms(1)]
  have k: "k \<notin> set fs" "k \<notin> set qs" using d(7,8) assms(2) by auto
  have dm: "insert k (dom ph) = dom ph" using assms(2) by auto
  show ?thesis unfolding mq_wf_def using d k dm by (auto simp: mq_seal_def)
qed

lemma mq_copy_in_wf:
  assumes "mq_wf mq ph fs qs" "k \<in> dom ph" "mq_copy_in k buffer n mq = Inr mq'"
  shows "mq_wf mq' ph fs qs" "take (unat n) (mq_data mq' k) = take (unat n) buffer"
    "\<And>j. j \<noteq> k \<Longrightarrow> mq_data mq' j = mq_data mq j"
    "msg_size mq' = msg_size mq" "mq_flag mq' = mq_flag mq" "max_msgs mq' = max_msgs mq"
proof -
  have b: "unat n \<le> length buffer" "unat n \<le> length (mq_data mq k)"
    "mq' = mq\<lparr>mq_data := (mq_data mq)(k := memcpy (mq_data mq k) 0 buffer 0 (unat n))\<rparr>"
    using assms(3) by (auto simp: mq_copy_in_def split: if_splits)
  show "mq_wf mq' ph fs qs" using assms(1) b by (auto simp: mq_wf_def)
  show "take (unat n) (mq_data mq' k) = take (unat n) buffer" using b by (simp add: memcpy_def)
  show "\<And>j. j \<noteq> k \<Longrightarrow> mq_data mq' j = mq_data mq j" "msg_size mq' = msg_size mq" "mq_flag mq' = mq_flag mq" "max_msgs mq' = max_msgs mq"
    using b(3) by simp_all
qed

lemma mq_link_tail_wf:
  assumes "mq_wf mq ph fs qs" "ph k = Some Sealed"
  shows "\<exists>mq'. mq_link_tail k mq = (mq', RT_EOK) \<and> mq_wf mq' (ph(k := None)) fs (qs @ [k])
    \<and> mq_data mq' = mq_data mq \<and> msg_size mq' = msg_size mq \<and> mq_flag mq' = mq_flag mq"
proof -
  note d = mq_wfD [OF assms(1)]
  note e = mq_entry_room [OF assms]
  have k: "k \<notin> set fs" "k \<notin> set qs" "mq_next mq k = None" using d(7,8,11) assms(2) by auto
  have dm: "dom (ph(k := None)) \<union> set (fs @ qs @ [k]) = {..<unat (max_msgs mq)}" using d(9) assms(2) by auto
  show ?thesis
  proof (cases "qs = []")
    case True
    then show ?thesis using d e k dm by (auto simp: mq_link_tail_def mq_count_up_def mq_wf_def Let_def)
  next
    case False
    let ?nx = "(mq_next mq)(last qs := Some k)"
    have lq: "last qs \<in> set qs" using False by simp
    have c: "chain ?nx (msg_queue_head mq) (qs @ [k])"
      by (rule chain_snoc [OF d(2) False]) (use d(5) k in auto)
    have f: "chain ?nx (msg_queue_free mq) fs" using d(1,6) lq by (subst chain_upd) auto
    have h: "msg_queue_head mq \<noteq> None" using d(2) False by (cases qs) auto
    have pl: "ph (last qs) = None" using d(8) lq by auto
    have sl: "?nx j = None" if "ph j = Some Sealed" "j \<noteq> k" for j
      using that d(8,11) lq by auto
    have "mq_wf (mq\<lparr>mq_next := ?nx, msg_queue_tail := Some k, mq_entry := mq_entry mq + 1\<rparr>) (ph(k := None)) fs (qs @ [k])"
      unfolding mq_wf_def using d c f sl e(2) dm k pl by auto
    then show ?thesis using d(3) False h e(1) by (auto simp: mq_link_tail_def mq_count_up_def Let_def)
  qed
qed

lemma mq_link_head_wf:
  assumes "mq_wf mq ph fs qs" "ph k = Some x"
  shows "\<exists>mq'. mq_link_head k mq = (mq', RT_EOK) \<and> mq_wf mq' (ph(k := None)) fs (k # qs)
    \<and> mq_data mq' = mq_data mq \<and> msg_size mq' = msg_size mq \<and> mq_flag mq' = mq_flag mq"
proof -
  note d = mq_wfD [OF assms(1)]
  note e = mq_entry_room [OF assms]
  have k: "k \<notin> set fs" "k \<notin> set qs" using d(7,8) assms(2) by auto
  let ?nx = "(mq_next mq)(k := msg_queue_head mq)"
  have c: "chain ?nx (Some k) (k # qs)" "chain ?nx (msg_queue_free mq) fs" using d(1,2) k by simp_all
  have dm: "insert k (dom ph - {k} \<union> (set fs \<union> set qs)) = {..<unat (max_msgs mq)}" using d(9) assms(2) by auto
  let ?mq = "mq\<lparr>mq_next := ?nx, msg_queue_head := Some k, msg_queue_tail := (if qs = [] then Some k else msg_queue_tail mq),
    mq_entry := mq_entry mq + 1\<rparr>"
  have "mq_wf ?mq (ph(k := None)) fs (k # qs)"
    unfolding mq_wf_def using d c e(2) dm k by auto
  moreover have "mq_link_head k mq = (?mq, RT_EOK)"
    using d(3) e(1) by (auto simp: mq_link_head_def mq_count_up_def Let_def)
  ultimately show ?thesis by (intro exI [of _ ?mq]) simp
qed

lemma mq_unlink_wf:
  assumes "mq_wf mq ph fs (k # qs)"
  shows "\<exists>mq'. mq_unlink mq = Inr (k, mq') \<and> mq_wf mq' (ph(k \<mapsto> Reading)) fs qs
    \<and> mq_data mq' = mq_data mq \<and> msg_size mq' = msg_size mq \<and> mq_flag mq' = mq_flag mq"
proof -
  note d = mq_wfD [OF assms]
  have h: "msg_queue_head mq = Some k" "chain (mq_next mq) (mq_next mq k) qs" using d(2) by simp_all
  have en: "0 < mq_entry mq" using d(10) by (simp add: word_less_nat_alt)
  have e: "unat (mq_entry mq - 1) = length qs" using unat_dec [OF en] d(10) by simp
  have tl: "msg_queue_tail mq = Some k \<longleftrightarrow> qs = []" using d(3,5) by auto
  let ?mq = "mq\<lparr>msg_queue_head := mq_next mq k, msg_queue_tail := (if qs = [] then None else msg_queue_tail mq),
    mq_entry := mq_entry mq - 1\<rparr>"
  have "mq_wf ?mq (ph(k \<mapsto> Reading)) fs qs"
    unfolding mq_wf_def using d h e by (auto split: if_splits)
  moreover have "mq_unlink mq = Inr (k, ?mq)"
    using h(1) tl en by (auto simp: mq_unlink_def Let_def)
  ultimately show ?thesis by (intro exI [of _ ?mq]) simp
qed

lemma mq_give_back_wf:
  assumes "mq_wf mq ph fs qs" "ph k = Some x"
  shows "mq_wf (mq_give_back k mq) (ph(k := None)) (k # fs) qs"
proof -
  note d = mq_wfD [OF assms(1)]
  have k: "k \<notin> set fs" "k \<notin> set qs" using d(7,8) assms(2) by auto
  have dm: "insert k (dom ph - {k} \<union> (set fs \<union> set qs)) = {..<unat (max_msgs mq)}" using d(9) assms(2) by auto
  show ?thesis unfolding mq_wf_def using d k dm by (auto simp: mq_give_back_def)
qed

text \<open>A fresh queue: every slot is free, the last one first.\<close>

lemma mq_link_pool_sel:
  "mq_flag (mq_link_pool n mq) = mq_flag mq" "msg_size (mq_link_pool n mq) = msg_size mq"
  "max_msgs (mq_link_pool n mq) = max_msgs mq" "mq_entry (mq_link_pool n mq) = mq_entry mq"
  "msg_queue_head (mq_link_pool n mq) = msg_queue_head mq" "msg_queue_tail (mq_link_pool n mq) = msg_queue_tail mq"
  "mq_data (mq_link_pool n mq) = mq_data mq"
  by (induction n) (simp_all add: Let_def)

lemma mq_link_pool_chain:
  "msg_queue_free mq = None \<Longrightarrow> chain (mq_next (mq_link_pool n mq)) (msg_queue_free (mq_link_pool n mq)) (rev [0..<n])"
  by (induction n) (simp_all add: Let_def)

lemma mq_fresh_wf:
  assumes "flag_ok flag" "\<And>k. unat sz \<le> length (mem k)"
  shows "mq_wf (mq_fresh flag sz n nexts mem) Map.empty (rev [0..<unat n]) []"
  using assms mq_link_pool_chain
  by (auto simp: mq_wf_def mq_fresh_def mq_link_pool_sel min_absorb2)

subsection \<open>Interleaving\<close>

text \<open>
  The critical sections and copies of any number of senders and receivers, in any order. Each thread
  goes on only with the slot it holds.
\<close>

inductive mq_step :: "rt_messagequeue \<times> (nat \<rightharpoonup> mq_phase) \<Rightarrow> rt_messagequeue \<times> (nat \<rightharpoonup> mq_phase) \<Rightarrow> bool" where
  take: "mq_take_free mq = Some (k, mq') \<Longrightarrow> mq_step (mq, ph) (mq', ph(k \<mapsto> Taken))"
| seal: "ph k = Some Taken \<Longrightarrow> mq_step (mq, ph) (mq_seal k mq, ph(k \<mapsto> Sealed))"
| copy: "ph k = Some x \<Longrightarrow> x \<noteq> Reading \<Longrightarrow> mq_copy_in k buffer n mq = Inr mq' \<Longrightarrow> mq_step (mq, ph) (mq', ph)"
| send: "ph k = Some Sealed \<Longrightarrow> mq_link_tail k mq = (mq', e) \<Longrightarrow> mq_step (mq, ph) (mq', ph(k := None))"
| urgent: "ph k = Some Taken \<Longrightarrow> mq_link_head k mq = (mq', e) \<Longrightarrow> mq_step (mq, ph) (mq', ph(k := None))"
| receive: "mq_entry mq \<noteq> 0 \<Longrightarrow> mq_unlink mq = Inr (k, mq') \<Longrightarrow> mq_step (mq, ph) (mq', ph(k \<mapsto> Reading))"
| release: "ph k = Some Reading \<Longrightarrow> mq_step (mq, ph) (mq_give_back k mq, ph(k := None))"

inductive_cases mq_stepE: "mq_step (mq, ph) (mq', ph')"

definition mq_ok :: "rt_messagequeue \<Rightarrow> (nat \<rightharpoonup> mq_phase) \<Rightarrow> bool" where
  "mq_ok mq ph \<longleftrightarrow> (\<exists>fs qs. mq_wf mq ph fs qs)"

lemma mq_ok_step:
  assumes "mq_step x y" "mq_ok (fst x) (snd x)"
  shows "mq_ok (fst y) (snd y)"
  using assms
proof (cases rule: mq_step.cases)
  case (take mq k mq' ph)
  obtain fs qs where wf: "mq_wf mq ph fs qs" using assms(2) take(1) by (auto simp: mq_ok_def)
  show ?thesis
  proof (cases fs)
    case Nil
    then show ?thesis using take mq_take_free_None wf by auto
  next
    case (Cons f fs')
    then show ?thesis using mq_take_free_wf [of mq ph f fs' qs] wf take by (auto simp: mq_ok_def)
  qed
next
  case (seal ph k mq)
  then show ?thesis using assms(2) by (auto simp: mq_ok_def) (metis domI mq_seal_wf)
next
  case (copy ph k x' buffer n mq mq')
  then show ?thesis using assms(2) by (auto simp: mq_ok_def) (metis domI mq_copy_in_wf(1))
next
  case (send ph k mq mq' e)
  then show ?thesis using assms(2) mq_link_tail_wf [of mq ph] by (fastforce simp: mq_ok_def)
next
  case (urgent ph k mq mq' e)
  then show ?thesis using assms(2) mq_link_head_wf [of mq ph] by (fastforce simp: mq_ok_def)
next
  case (receive mq k mq' ph)
  obtain fs qs where wf: "mq_wf mq ph fs qs" using assms(2) receive(1) by (auto simp: mq_ok_def)
  have "qs \<noteq> []" using receive(3) mq_wfD(10) [OF wf] by (auto simp: unat_eq_0)
  then obtain q qs' where "qs = q # qs'" by (cases qs) auto
  then show ?thesis using mq_unlink_wf [of mq ph fs q qs'] wf receive by (auto simp: mq_ok_def)
next
  case (release ph k mq)
  then show ?thesis using assms(2) mq_give_back_wf by (fastforce simp: mq_ok_def)
qed

lemma mq_ok_run: "mq_step\<^sup>*\<^sup>* x y \<Longrightarrow> mq_ok (fst x) (snd x) \<Longrightarrow> mq_ok (fst y) (snd y)"
  by (induction rule: rtranclp_induct) (auto intro: mq_ok_step)

subsection \<open>The functions\<close>

lemma mq_wait_q [simp]: "is_wait_q (MqQ i)" "is_wait_q (MqSendQ i)"
  by (simp_all add: is_wait_q_def)

lemma mq_send_step:
  assumes "kinv s" "mq_wf mq ph (k # fs) qs" "c < RT_CPUS_NR" "mq_send_loop c i buffer n timeout (mq, s) = Inr ((mq', s'), r)"
  shows "r = Return RT_EOK \<and> kinv s' \<and> mq_wf mq' ph fs (qs @ [k]) \<and> msg_size mq' = msg_size mq
    \<and> take (unat n) (mq_data mq' k) = take (unat n) buffer \<and> unat n \<le> length buffer
    \<and> (\<forall>j. j \<noteq> k \<longrightarrow> mq_data mq' j = mq_data mq j)
    \<and> queues s' (MqQ i) = tl (queues s (MqQ i)) \<and> (\<forall>u us. queues s (MqQ i) = u # us \<longrightarrow> awake (thread_stat s' u))"
proof -
  obtain mq1 where m1: "mq_take_free mq = Some (k, mq1)" "mq_wf mq1 (ph(k \<mapsto> Taken)) fs qs" "mq_data mq1 = mq_data mq"
    "msg_size mq1 = msg_size mq" using mq_take_free_wf [OF assms(2)] by blast
  have pk: "ph k = None" using mq_wfD(7) [OF assms(2)] by auto
  let ?m2 = "mq_seal k mq1"
  have m2: "mq_wf ?m2 (ph(k \<mapsto> Sealed)) fs qs" using mq_seal_wf [OF m1(2), of k] by simp
  obtain m3 where m3: "mq_copy_in k buffer n ?m2 = Inr m3"
    using assms(4) m1(1) by (auto simp: mq_send_loop_def)
  note c = mq_copy_in_wf [OF m2 _ m3]
  obtain m4 where m4: "mq_link_tail k m3 = (m4, RT_EOK)" "mq_wf m4 ((ph(k \<mapsto> Sealed))(k := None)) fs (qs @ [k])"
    "mq_data m4 = mq_data m3" "msg_size m4 = msg_size m3" using mq_link_tail_wf [OF c(1), of k] by auto
  have e: "(ph(k \<mapsto> Sealed))(k := None) = ph" using pk by auto
  have w: "ipc_wake c (MqQ i) s = Inr s'" "mq' = m4" "r = Return RT_EOK"
    using assms(4) m1(1) m3 m4(1) by (auto simp: mq_send_loop_def)
  have nb: "unat n \<le> length buffer" using m3 by (auto simp: mq_copy_in_def split: if_splits)
  note wk = ipc_wake_ok [OF assms(1,3) mq_wait_q(1) w(1)]
  show ?thesis
    using wk w(2,3) m4 m1 c e nb by (auto simp: mq_seal_def)
qed

lemma mq_send_returns:
  assumes "kinv s" "mq_wf mq ph fs qs" "rt_thread_self c s = Some t" "unat n \<le> unat (msg_size mq)" "unat n \<le> length buffer"
    "irq_nest (cpus s c) \<noteq> 0 \<or> preemptible c s"
    "fs = [] \<Longrightarrow> timeout \<noteq> 0 \<Longrightarrow> preemptible c s \<and> thread_stat s t = RT_THREAD_RUNNING \<and> timeout_ok timeout"
  shows "\<exists>mq' s' r. mq_send_loop c i buffer n timeout (mq, s) = Inr ((mq', s'), r)"
proof (cases fs)
  case Nil
  have "mq_take_free mq = None" using mq_take_free_None assms(2) Nil by blast
  then show ?thesis
    using ipc_block_returns [OF assms(1) _ assms(3) _ mq_wfD(13) [OF assms(2)] mq_wait_q(2) [of i], of timeout] assms(3,7) Nil
    by (auto simp: mq_send_loop_def)
next
  case (Cons k fs')
  obtain m1 where m1: "mq_take_free mq = Some (k, m1)" "mq_wf m1 (ph(k \<mapsto> Taken)) fs' qs" "mq_data m1 = mq_data mq"
    "msg_size m1 = msg_size mq" using mq_take_free_wf [OF assms(2) [unfolded Cons]] by blast
  have "k < unat (max_msgs mq)" using mq_wfD(9) [OF assms(2)] Cons by auto
  then have "length (mq_data mq k) = unat (msg_size mq)" using mq_wfD(12) [OF assms(2)] by blast
  then have "\<exists>m3. mq_copy_in k buffer n (mq_seal k m1) = Inr m3" using assms(4,5) m1(3) by (simp add: mq_copy_in_def mq_seal_def)
  then obtain m3 where "mq_copy_in k buffer n (mq_seal k m1) = Inr m3" by blast
  then show ?thesis using m1(1) ipc_wake_returns [OF assms(1,6), of "MqQ i"]
    by (cases "mq_link_tail k m3") (auto simp: mq_send_loop_def)
qed

lemma mq_recv_returns:
  assumes "kinv s" "mq_wf mq ph fs qs"
    "irq_nest (cpus s c) \<noteq> 0 \<or> preemptible c s"
    "qs = [] \<Longrightarrow> preemptible c s \<and> rt_thread_self c s = Some t \<and> thread_stat s t = RT_THREAD_RUNNING \<and> timeout_ok timeout"
  shows "\<exists>mq' s' got r. mq_recv_loop c i n timeout (mq, s) = Inr ((mq', s'), got, r)"
proof (cases qs)
  case Nil
  then show ?thesis
    using ipc_block_returns [OF assms(1) _ _ _ mq_wfD(13) [OF assms(2)] mq_wait_q(1) [of i], of c t timeout] assms(4) mq_wfD(10) [OF assms(2)]
    by (auto simp: mq_recv_loop_def unat_eq_0)
next
  case (Cons k qs')
  then have "mq_entry mq \<noteq> 0" using mq_wfD(10) [OF assms(2)] by auto
  then show ?thesis using mq_unlink_wf [OF assms(2) [unfolded Cons]] ipc_wake_returns [OF assms(1,3), of "MqSendQ i"]
    by (auto simp: mq_recv_loop_def Let_def)
qed

subsection \<open>Properties\<close>

text \<open>
  C3. In every interleaving of senders and receivers, whose copies run outside the lock, each slot of the
  pool is at every moment in exactly one place: once in the free chain, once in the message chain, or
  held by one thread; the chains end, the tail is the last message, and the count is their number.
\<close>

theorem mq_interleaving_safe:
  assumes "mq_step\<^sup>*\<^sup>* (mq_fresh flag sz n nexts mem, Map.empty) (mq, ph)"
    and "flag_ok flag" and "\<And>k. unat sz \<le> length (mem k)"
  shows "\<exists>fs qs. chain (mq_next mq) (msg_queue_free mq) fs \<and> chain (mq_next mq) (msg_queue_head mq) qs
    \<and> distinct (fs @ qs) \<and> dom ph \<inter> set (fs @ qs) = {} \<and> dom ph \<union> set (fs @ qs) = {..<unat (max_msgs mq)}
    \<and> msg_queue_tail mq = (if qs = [] then None else Some (last qs)) \<and> unat (mq_entry mq) = length qs"
proof -
  have "mq_ok (mq_fresh flag sz n nexts mem) Map.empty"
    using mq_fresh_wf [OF assms(2), of sz mem n nexts] assms(3) by (auto simp: mq_ok_def)
  then have "mq_ok mq ph" using mq_ok_run [OF assms(1)] by simp
  then show ?thesis unfolding mq_ok_def mq_wf_def by blast
qed

lemma mq_two_steps: "mq_step x y \<Longrightarrow> mq_step y z \<Longrightarrow> mq_step\<^sup>*\<^sup>* x z"
  by (meson converse_rtranclp_into_rtranclp r_into_rtranclp)

theorem mq_interleaving_safe_witness:
  "\<exists>fs qs. chain (mq_next (mq_seal 2 (mq_fresh 0 2 3 (\<lambda>k. None) (\<lambda>k. [7, 8])\<lparr>msg_queue_free := Some 1\<rparr>))) (Some 1) fs
     \<and> distinct (fs @ qs) \<and> {2} \<union> set (fs @ qs) = {..<3}"
proof -
  let ?m = "mq_fresh 0 2 3 (\<lambda>k. None) (\<lambda>k. [7, 8 :: u8])"
  let ?m1 = "?m\<lparr>msg_queue_free := Some 1\<rparr>"
  have "msg_queue_free ?m = Some 2" "mq_next ?m 2 = Some 1" by code_simp+
  then have t: "mq_take_free ?m = Some (2, ?m1)" by (simp add: mq_take_free_def)
  have s1: "mq_step (?m, Map.empty) (?m1, [2 \<mapsto> Taken])" using mq_step.take [OF t, of Map.empty] by simp
  have s2: "mq_step (?m1, [2 \<mapsto> Taken]) (mq_seal 2 ?m1, [2 \<mapsto> Sealed])"
    using mq_step.seal [of "[2 \<mapsto> Taken]" 2 ?m1] by simp
  have run: "mq_step\<^sup>*\<^sup>* (?m, Map.empty) (mq_seal 2 ?m1, [2 \<mapsto> Sealed])"
    by (rule mq_two_steps [OF s1 s2])
  have m: "msg_queue_free (mq_seal 2 ?m1) = Some 1" "unat (max_msgs (mq_seal 2 ?m1)) = 3"
    by (simp_all add: mq_seal_def mq_fresh_def mq_link_pool_sel)
  have f: "flag_ok 0" by (simp add: flag_ok_def RT_IPC_FLAG_FIFO_def)
  have d: "dom [2 \<mapsto> Sealed] = {2 :: nat}" by simp
  from mq_interleaving_safe [OF run f] obtain fs qs where
    "chain (mq_next (mq_seal 2 ?m1)) (msg_queue_free (mq_seal 2 ?m1)) fs" "distinct (fs @ qs)"
    "dom [2 \<mapsto> Sealed] \<union> set (fs @ qs) = {..<unat (max_msgs (mq_seal 2 ?m1))}" by auto
  then show ?thesis unfolding m d by blast
qed

lemma mq_send_cases:
  assumes "kinv s" and "mq_wf mq ph fs qs" and "c < RT_CPUS_NR" and "rt_thread_self c s = Some t"
    and "thread_stat s t = RT_THREAD_RUNNING" and "timeout_ok timeout"
    and "rt_mq_send_wait c i buffer n timeout (mq, s) = Inr ((mq', s'), r)"
  shows "kinv s' \<and>
    (if unat (msg_size mq) < unat n then r = Return (- RT_ERROR) \<and> mq' = mq \<and> s' = s
     else case fs of
       k # fs' \<Rightarrow> r = Return RT_EOK \<and> mq_wf mq' ph fs' (qs @ [k])
         \<and> take (unat n) (mq_data mq' k) = take (unat n) buffer \<and> (\<forall>j. j \<noteq> k \<longrightarrow> mq_data mq' j = mq_data mq j)
         \<and> queues s' (MqQ i) = tl (queues s (MqQ i)) \<and> (\<forall>u us. queues s (MqQ i) = u # us \<longrightarrow> awake (thread_stat s' u))
     | [] \<Rightarrow> mq' = mq \<and>
        (if timeout = 0 then r = Return (- RT_EFULL) \<and> s' = s
         else r = Blocked \<and> thread_stat s' t = RT_THREAD_SUSPEND
           \<and> queues s' (MqSendQ i) = order_of (mq_flag mq) (\<lambda>u. current_priority (threads s u)) t (queues s (MqSendQ i))))"
proof -
  have sz: "ucast (msg_size mq) < n \<longleftrightarrow> unat (msg_size mq) < unat n"
    by (simp add: word_less_nat_alt unat_ucast_up)
  show ?thesis
  proof (cases "unat (msg_size mq) < unat n")
    case True
    then show ?thesis using assms(1,7) sz by (auto simp: rt_mq_send_wait_def)
  next
    case fits: False
    show ?thesis
    proof (cases fs)
      case (Cons k fs')
      have "msg_queue_free mq \<noteq> None" using mq_wfD(1) [OF assms(2)] Cons by auto
      then have l: "mq_send_loop c i buffer n timeout (mq, s) = Inr ((mq', s'), r)"
        using assms(7) fits sz by (auto simp: rt_mq_send_wait_def)
      from mq_send_step [OF assms(1) assms(2) [unfolded Cons] assms(3) l] show ?thesis using Cons fits by simp
    next
      case Nil
      have nf: "mq_take_free mq = None" "msg_queue_free mq = None"
        using mq_take_free_None assms(2) Nil by blast+
      show ?thesis
      proof (cases "timeout = 0")
        case True
        then show ?thesis using assms(1,7) nf fits sz Nil by (auto simp: rt_mq_send_wait_def)
      next
        case False
        then have b: "ipc_block c (MqSendQ i) (mq_flag mq) timeout s = Inr s'" "mq' = mq" "r = Blocked"
          using assms(7) nf fits sz by (auto simp: rt_mq_send_wait_def mq_send_loop_def)
        note k = ipc_block_ok [OF assms(1,3-5) mq_wfD(13) [OF assms(2)] mq_wait_q(2) assms(6) b(1)]
        show ?thesis using k b(2,3) False fits Nil by simp
      qed
    qed
  qed
qed

definition demo_mq :: rt_messagequeue where
  "demo_mq = mq_fresh RT_IPC_FLAG_FIFO 4 2 (\<lambda>k. None) (\<lambda>k. [0, 0, 0, 0])"

lemma demo_mq_wf: "mq_wf demo_mq Map.empty [1, 0] []"
proof -
  have "rev [0..<unat (2 :: u16)] = [1, 0]" by (simp add: upt_rec)
  then show ?thesis
    using mq_fresh_wf [of RT_IPC_FLAG_FIFO 4 "\<lambda>k. [0, 0, 0, 0]" 2 "\<lambda>k. None"] by (simp add: demo_mq_def flag_ok_def)
qed

text \<open>
  C36. \<open>rt_mq_send_wait\<close>, on every branch: a message longer than a slot is refused; with a free slot the bytes
  become the last message and the first waiting receiver is woken; without one the sender is refused
  when it does not want to wait, and waits in its place otherwise. In a thread, with a buffer that holds the bytes, the call returns or
  waits, it never fails.
\<close>

theorem mq_send_spec:
  assumes "kinv s" and "mq_wf mq ph fs qs" and "preemptible c s" and "rt_thread_self c s = Some t"
    and "thread_stat s t = RT_THREAD_RUNNING" and "scheduler_available c s" and "timeout_ok timeout"
    and "n \<noteq> 0" and "unat n \<le> length buffer"
  shows "\<exists>mq' s' r. rt_mq_send_wait c i buffer n timeout (mq, s) = Inr ((mq', s'), r) \<and> kinv s' \<and>
    (if unat (msg_size mq) < unat n then r = Return (- RT_ERROR) \<and> mq' = mq \<and> s' = s
     else case fs of
       k # fs' \<Rightarrow> r = Return RT_EOK \<and> mq_wf mq' ph fs' (qs @ [k])
         \<and> take (unat n) (mq_data mq' k) = take (unat n) buffer \<and> (\<forall>j. j \<noteq> k \<longrightarrow> mq_data mq' j = mq_data mq j)
         \<and> queues s' (MqQ i) = tl (queues s (MqQ i)) \<and> (\<forall>u us. queues s (MqQ i) = u # us \<longrightarrow> awake (thread_stat s' u))
     | [] \<Rightarrow> mq' = mq \<and>
        (if timeout = 0 then r = Return (- RT_EFULL) \<and> s' = s
         else r = Blocked \<and> thread_stat s' t = RT_THREAD_SUSPEND
           \<and> queues s' (MqSendQ i) = order_of (mq_flag mq) (\<lambda>u. current_priority (threads s u)) t (queues s (MqSendQ i))))"
proof -
  have c: "c < RT_CPUS_NR" using assms(3) by (simp add: preemptible_def)
  have "\<exists>mq' s' r. rt_mq_send_wait c i buffer n timeout (mq, s) = Inr ((mq', s'), r)"
    using mq_send_returns [OF assms(1,2,4), of n buffer timeout i] assms(3,5-9)
    by (auto simp: rt_mq_send_wait_def not_less word_le_nat_alt unat_ucast_up)
  then show ?thesis using mq_send_cases [OF assms(1,2) c assms(4,5,7)] by blast
qed

theorem mq_send_spec_witness:
  "\<exists>mq' s'. rt_mq_send_wait 0 0 [5, 6] 2 0 (demo_mq, demo_ready) = Inr ((mq', s'), Return RT_EOK)
     \<and> mq_wf mq' Map.empty [0] [1] \<and> take 2 (mq_data mq' 1) = [5, 6]"
proof -
  have to: "timeout_ok 0" by (simp add: timeout_ok_def)
  have sz: "msg_size demo_mq = 4" by code_simp
  from mq_send_spec [OF demo_kinv(2) demo_mq_wf demo_preemptible demo_ready_self demo_ready_sel(5) demo_ready_available to,
      of 2 "[5, 6]" 0]
  show ?thesis by (auto simp: sz)
qed

lemma mq_recv_cases:
  assumes "kinv s" and "mq_wf mq ph fs qs" and "c < RT_CPUS_NR" and "rt_thread_self c s = Some t"
    and "thread_stat s t = RT_THREAD_RUNNING" and "timeout_ok timeout"
    and "rt_mq_recv c i n timeout (mq, s) = Inr ((mq', s'), got, r)"
  shows "kinv s' \<and>
    (case qs of
       k # qs' \<Rightarrow> r = Return RT_EOK \<and> got = Some (take (min (unat n) (unat (msg_size mq))) (mq_data mq k))
         \<and> mq_wf mq' ph (k # fs) qs' \<and> mq_data mq' = mq_data mq
         \<and> queues s' (MqSendQ i) = tl (queues s (MqSendQ i))
         \<and> (\<forall>u us. queues s (MqSendQ i) = u # us \<longrightarrow> awake (thread_stat s' u))
     | [] \<Rightarrow> mq' = mq \<and> got = None \<and>
        (if timeout = 0 then r = Return (- RT_ETIMEOUT) \<and> s' = s
         else r = Blocked \<and> thread_stat s' t = RT_THREAD_SUSPEND
           \<and> queues s' (MqQ i) = order_of (mq_flag mq) (\<lambda>u. current_priority (threads s u)) t (queues s (MqQ i))))"
proof (cases qs)
  case Nil
  then have e: "mq_entry mq = 0" using mq_wfD(10) [OF assms(2)] by (simp add: unat_eq_0)
  show ?thesis
  proof (cases "timeout = 0")
    case True
    then show ?thesis using assms(1,7) e Nil by (auto simp: rt_mq_recv_def)
  next
    case False
    then have b: "ipc_block c (MqQ i) (mq_flag mq) timeout s = Inr s'" "mq' = mq" "r = Blocked" "got = None"
      using assms(7) e by (auto simp: rt_mq_recv_def mq_recv_loop_def)
    note k = ipc_block_ok [OF assms(1,3-5) mq_wfD(13) [OF assms(2)] mq_wait_q(1) assms(6) b(1)]
    show ?thesis using k b(2-4) False Nil by simp
  qed
next
  case (Cons k qs')
  have ne: "mq_entry mq \<noteq> 0" using mq_wfD(10) [OF assms(2)] Cons by auto
  obtain m1 where m1: "mq_unlink mq = Inr (k, m1)" "mq_wf m1 (ph(k \<mapsto> Reading)) fs qs'" "mq_data m1 = mq_data mq"
    "msg_size m1 = msg_size mq" using mq_unlink_wf [OF assms(2) [unfolded Cons]] by blast
  have pk: "(ph(k \<mapsto> Reading))(k := None) = ph" using mq_wfD(8) [OF assms(2)] Cons by auto
  have wf: "mq_wf (mq_give_back k m1) ph (k # fs) qs'" using mq_give_back_wf [OF m1(2), of k Reading] pk by simp
  have w: "ipc_wake c (MqSendQ i) s = Inr s'" "mq' = mq_give_back k m1" "got = Some (mq_copy_out k n m1)" "r = Return RT_EOK"
    using assms(7) ne m1(1) by (auto simp: rt_mq_recv_def mq_recv_loop_def Let_def)
  have o: "mq_copy_out k n m1 = take (min (unat n) (unat (msg_size mq))) (mq_data mq k)"
    using m1(3,4) by (auto simp: mq_copy_out_def min_def word_less_nat_alt unat_ucast_up)
  note wk = ipc_wake_ok [OF assms(1,3) mq_wait_q(2) w(1)]
  have da: "mq_data (mq_give_back k m1) = mq_data mq" using m1(3) by (simp add: mq_give_back_def)
  show ?thesis using wk w(2-4) wf o da Cons by simp
qed

text \<open>
  C37. \<open>rt_mq_recv\<close>, on every branch: it delivers the first bytes of the oldest message, at most a slot's size,
  frees the slot and wakes the first waiting sender; an empty queue refuses a receiver that does not
  want to wait, and the others wait in their place. In a thread the call returns or waits, it never fails.
\<close>

theorem mq_recv_spec:
  assumes "kinv s" and "mq_wf mq ph fs qs" and "preemptible c s" and "rt_thread_self c s = Some t"
    and "thread_stat s t = RT_THREAD_RUNNING" and "scheduler_available c s" and "timeout_ok timeout" and "n \<noteq> 0"
  shows "\<exists>mq' s' got r. rt_mq_recv c i n timeout (mq, s) = Inr ((mq', s'), got, r) \<and> kinv s' \<and>
    (case qs of
       k # qs' \<Rightarrow> r = Return RT_EOK \<and> got = Some (take (min (unat n) (unat (msg_size mq))) (mq_data mq k))
         \<and> mq_wf mq' ph (k # fs) qs' \<and> mq_data mq' = mq_data mq
         \<and> queues s' (MqSendQ i) = tl (queues s (MqSendQ i))
         \<and> (\<forall>u us. queues s (MqSendQ i) = u # us \<longrightarrow> awake (thread_stat s' u))
     | [] \<Rightarrow> mq' = mq \<and> got = None \<and>
        (if timeout = 0 then r = Return (- RT_ETIMEOUT) \<and> s' = s
         else r = Blocked \<and> thread_stat s' t = RT_THREAD_SUSPEND
           \<and> queues s' (MqQ i) = order_of (mq_flag mq) (\<lambda>u. current_priority (threads s u)) t (queues s (MqQ i))))"
proof -
  have c: "c < RT_CPUS_NR" using assms(3) by (simp add: preemptible_def)
  have "\<exists>mq' s' got r. rt_mq_recv c i n timeout (mq, s) = Inr ((mq', s'), got, r)"
    using mq_recv_returns [OF assms(1,2), of c t timeout i n] assms(3-8) by (auto simp: rt_mq_recv_def)
  then show ?thesis using mq_recv_cases [OF assms(1,2) c assms(4,5,7)] by blast
qed

theorem mq_recv_spec_witness:
  "\<exists>s'. rt_mq_recv 0 0 9 0 (demo_mq, demo_ready) = Inr ((demo_mq, s'), None, Return (- RT_ETIMEOUT)) \<and> kinv s'"
proof -
  have to: "timeout_ok 0" by (simp add: timeout_ok_def)
  from mq_recv_spec [OF demo_kinv(2) demo_mq_wf demo_preemptible demo_ready_self demo_ready_sel(5) demo_ready_available to, of 9 0]
    demo_kinv(2)
  show ?thesis by auto
qed

lemma mq_roundtrip_cases:
  assumes "kinv s" and "mq_wf mq ph fs []" and "fs \<noteq> []" and "c < RT_CPUS_NR" and "rt_thread_self c s = Some t"
    and "thread_stat s t = RT_THREAD_RUNNING" and "unat n \<le> unat (msg_size mq)"
    and "rt_mq_send c i buffer n (mq, s) = Inr ((mq1, s1), r1)"
    and "rt_mq_recv c' i n 0 (mq1, s2) = Inr ((mq2, s3), got, r2)"
  shows "r1 = Return RT_EOK \<and> r2 = Return RT_EOK \<and> got = Some (take (unat n) buffer) \<and> mq_wf mq2 ph fs []"
proof -
  obtain k fs' where fs: "fs = k # fs'" using assms(3) by (cases fs) auto
  have nl: "\<not> ucast (msg_size mq) < n" using assms(7) by (simp add: word_less_nat_alt unat_ucast_up)
  have "msg_queue_free mq \<noteq> None" using mq_wfD(1) [OF assms(2)] fs by auto
  then have l: "mq_send_loop c i buffer n 0 (mq, s) = Inr ((mq1, s1), r1)"
    using assms(8) nl by (auto simp: rt_mq_send_def rt_mq_send_wait_def)
  from mq_send_step [OF assms(1) assms(2) [unfolded fs] assms(4) l]
  have s: "r1 = Return RT_EOK" "mq_wf mq1 ph fs' [k]" "msg_size mq1 = msg_size mq"
    "take (unat n) (mq_data mq1 k) = take (unat n) buffer" by simp_all
  have ne: "mq_entry mq1 \<noteq> 0" using mq_wfD(10) [OF s(2)] by auto
  obtain m1 where m1: "mq_unlink mq1 = Inr (k, m1)" "mq_wf m1 (ph(k \<mapsto> Reading)) fs' []" "mq_data m1 = mq_data mq1"
    "msg_size m1 = msg_size mq1" using mq_unlink_wf [OF s(2)] by blast
  have pk: "(ph(k \<mapsto> Reading))(k := None) = ph" using mq_wfD(8) [OF s(2)] by auto
  have w: "mq2 = mq_give_back k m1" "got = Some (mq_copy_out k n m1)" "r2 = Return RT_EOK"
    using assms(9) ne m1(1) by (auto simp: rt_mq_recv_def mq_recv_loop_def Let_def)
  have "mq_copy_out k n m1 = take (unat n) (mq_data mq1 k)"
    using m1(3,4) s(3) nl by (simp add: mq_copy_out_def)
  then show ?thesis using w s mq_give_back_wf [OF m1(2), of k Reading] pk fs by simp
qed

text \<open>
  C38. Round trip: what is sent into an empty queue with a free slot is received, byte for byte, by a receiver
  that asks for as many bytes, whatever threads the two wake and
  wherever the receiver runs: in a thread or in an interrupt, on any core, later on.
\<close>

theorem mq_roundtrip:
  assumes "kinv s" and "mq_wf mq ph fs []" and "fs \<noteq> []" and "preemptible c s" and "rt_thread_self c s = Some t"
    and "thread_stat s t = RT_THREAD_RUNNING" and "n \<noteq> 0" and "unat n \<le> unat (msg_size mq)" and "unat n \<le> length buffer"
  shows "\<exists>mq1 s1. rt_mq_send c i buffer n (mq, s) = Inr ((mq1, s1), Return RT_EOK) \<and> kinv s1
    \<and> (\<forall>c' s2. kinv s2 \<and> (irq_nest (cpus s2 c') \<noteq> 0 \<or> preemptible c' s2) \<longrightarrow>
        (\<exists>mq2 s3. rt_mq_recv c' i n 0 (mq1, s2) = Inr ((mq2, s3), Some (take (unat n) buffer), Return RT_EOK) \<and> mq_wf mq2 ph fs []))"
proof -
  have c: "c < RT_CPUS_NR" using assms(4) by (simp add: preemptible_def)
  obtain k fs' where fs: "fs = k # fs'" using assms(3) by (cases fs) auto
  have nl: "\<not> ucast (msg_size mq) < n" using assms(8) by (simp add: word_less_nat_alt unat_ucast_up)
  have "msg_queue_free mq \<noteq> None" using mq_wfD(1) [OF assms(2)] fs by auto
  then have eq: "rt_mq_send c i buffer n (mq, s) = mq_send_loop c i buffer n 0 (mq, s)"
    using nl assms(7) by (auto simp: rt_mq_send_def rt_mq_send_wait_def)
  obtain mq1 s1 r where l: "mq_send_loop c i buffer n 0 (mq, s) = Inr ((mq1, s1), r)"
    using mq_send_returns [OF assms(1,2,5,8,9), of 0 i] assms(4) fs by auto
  from mq_send_step [OF assms(1) assms(2) [unfolded fs] c l]
  have st: "r = Return RT_EOK" "kinv s1" "mq_wf mq1 ph fs' [k]" by simp_all
  have "\<exists>mq2 s3. rt_mq_recv c' i n 0 (mq1, s2) = Inr ((mq2, s3), Some (take (unat n) buffer), Return RT_EOK) \<and> mq_wf mq2 ph fs []"
    if "kinv s2" "irq_nest (cpus s2 c') \<noteq> 0 \<or> preemptible c' s2" for c' s2
  proof -
    have "mq_entry mq1 \<noteq> 0" using mq_wfD(10) [OF st(3)] by auto
    then have eq': "rt_mq_recv c' i n 0 (mq1, s2) = mq_recv_loop c' i n 0 (mq1, s2)"
      using assms(7) by (simp add: rt_mq_recv_def)
    from mq_recv_returns [OF that(1) st(3) that(2), of _ 0 i n] obtain mq2 s3 got r2
      where "mq_recv_loop c' i n 0 (mq1, s2) = Inr ((mq2, s3), got, r2)" by auto
    with eq' mq_roundtrip_cases [OF assms(1-3) c assms(5,6,8), of i buffer mq1 s1 r c' s2 mq2 s3 got r2] eq l
    show ?thesis by simp
  qed
  then show ?thesis using eq l st(1,2) by auto
qed

theorem mq_roundtrip_witness:
  "\<exists>mq1 s1 mq2 s3. rt_mq_send 0 0 [5, 6] 2 (demo_mq, demo_ready) = Inr ((mq1, s1), Return RT_EOK)
     \<and> rt_mq_recv 0 0 2 0 (mq1, demo_ready) = Inr ((mq2, s3), Some [5, 6], Return RT_EOK)"
proof -
  have sz: "msg_size demo_mq = 4" by code_simp
  from mq_roundtrip [OF demo_kinv(2) demo_mq_wf _ demo_preemptible demo_ready_self demo_ready_sel(5), of 2 "[5, 6]" 0]
    demo_kinv(2) demo_preemptible
  show ?thesis by (auto simp: sz) blast
qed

end
