(* ===== verification/Rt_Sem.thy ===== *)
theory Rt_Sem
  imports Rt_Ipc
begin

unbundle bit_operations_syntax

text \<open>
  Counting semaphores, \<open>src/ipc.c\<close>. A token goes to the first waiter when there is one and is counted
  otherwise, so no thread waits while tokens are there and no token is lost or made up.
\<close>

definition rt_sem_init :: "nat \<Rightarrow> u32 \<Rightarrow> u8 \<Rightarrow> kernel \<Rightarrow> kernel res" where
  "rt_sem_init i v flag s =
    rt_assert (v < 0x10000) (rt_assert (flag = RT_IPC_FLAG_FIFO \<or> flag = RT_IPC_FLAG_PRIO)
      (Inr (upd_sem i (\<lambda>_. \<lparr>sem_flag = flag, sem_value = ucast v\<rparr>) (s\<lparr>queues := (queues s)(SemQ i := [])\<rparr>))))"

definition rt_sem_create :: "cpuid \<Rightarrow> nat option \<Rightarrow> u32 \<Rightarrow> u8 \<Rightarrow> kernel \<Rightarrow> (kernel \<times> nat option) res" where
  "rt_sem_create c alloc v flag s =
    rt_assert (v < 0x10000) (rt_assert (flag = RT_IPC_FLAG_FIFO \<or> flag = RT_IPC_FLAG_PRIO)
      (rt_assert (rt_interrupt_get_nest c s = 0)
        (case alloc of None \<Rightarrow> Inr (s, None)
         | Some i \<Rightarrow> Inr (upd_sem i (\<lambda>_. \<lparr>sem_flag = flag, sem_value = ucast v\<rparr>) (s\<lparr>queues := (queues s)(SemQ i := [])\<rparr>), Some i))))"

definition rt_sem_detach :: "cpuid \<Rightarrow> nat \<Rightarrow> kernel \<Rightarrow> kernel res" where
  "rt_sem_detach c i s = ipc_list_resume_all c (SemQ i) s"

definition rt_sem_delete :: "cpuid \<Rightarrow> nat \<Rightarrow> kernel \<Rightarrow> kernel res" where
  "rt_sem_delete c i s = rt_assert (rt_interrupt_get_nest c s = 0) (ipc_list_resume_all c (SemQ i) s)"

definition rt_sem_take :: "cpuid \<Rightarrow> nat \<Rightarrow> 32 word \<Rightarrow> kernel \<Rightarrow> (kernel \<times> outcome) res" where
  "rt_sem_take c i timeout s =
    (if 0 < sem_value (sems s i)
     then Inr (upd_sem i (\<lambda>m. m\<lparr>sem_value := sem_value m - 1\<rparr>) s, Return RT_EOK)
     else if timeout = 0 then Inr (s, Return (- RT_ETIMEOUT))
     else and_then (ipc_wait c (SemQ i) (sem_flag (sems s i)) timeout s) (\<lambda>s.
          and_then (rt_schedule c s) (\<lambda>s. Inr (s, Blocked))))"

text \<open>What the caller of \<open>rt_sem_take\<close> gets when it runs again.\<close>

definition rt_sem_take_cont :: "tid \<Rightarrow> kernel \<Rightarrow> int" where
  "rt_sem_take_cont t s = (if error (threads s t) \<noteq> RT_EOK then error (threads s t) else RT_EOK)"

definition rt_sem_trytake :: "cpuid \<Rightarrow> nat \<Rightarrow> kernel \<Rightarrow> (kernel \<times> outcome) res" where
  "rt_sem_trytake c i s = rt_sem_take c i 0 s"

definition rt_sem_release :: "cpuid \<Rightarrow> nat \<Rightarrow> kernel \<Rightarrow> (kernel \<times> int) res" where
  "rt_sem_release c i s =
    (if \<not> rt_list_isempty (SemQ i) s
     then and_then (ipc_list_resume c (SemQ i) s) (\<lambda>s.
          and_then (rt_schedule c s) (\<lambda>s. Inr (s, RT_EOK)))
     else if sem_value (sems s i) < 0xffff
          then Inr (upd_sem i (\<lambda>m. m\<lparr>sem_value := sem_value m + 1\<rparr>) s, RT_EOK)
          else Inr (s, - RT_EFULL))"

definition rt_sem_control :: "cpuid \<Rightarrow> nat \<Rightarrow> bool \<Rightarrow> u32 \<Rightarrow> kernel \<Rightarrow> (kernel \<times> int) res" where
  "rt_sem_control c i is_reset v s =
    (if is_reset
     then and_then (ipc_list_resume_all c (SemQ i) s) (\<lambda>s.
          and_then (rt_schedule c (upd_sem i (\<lambda>m. m\<lparr>sem_value := ucast v\<rparr>) s)) (\<lambda>s. Inr (s, RT_EOK)))
     else Inr (s, - RT_ERROR))"

subsection \<open>Invariant\<close>

definition sem_inv :: "nat \<Rightarrow> kernel \<Rightarrow> bool" where
  "sem_inv i s \<longleftrightarrow> flag_ok (sem_flag (sems s i)) \<and> (0 < sem_value (sems s i) \<longrightarrow> queues s (SemQ i) = [])"

lemma sem_wait_q [simp]: "is_wait_q (SemQ i)" "\<not> is_ready_q (SemQ i)"
  by (simp_all add: is_wait_q_def)

lemma sem_take_wait:
  assumes "kinv s" "sem_inv i s" "c < RT_CPUS_NR" "rt_thread_self c s = Some t" "thread_stat s t = RT_THREAD_RUNNING"
    "scheduler_available c s" "sem_value (sems s i) = 0" "timeout \<noteq> 0" "timeout_ok timeout"
    "rt_sem_take c i timeout s = Inr (s', r)"
  shows "r = Blocked \<and> kinv s' \<and> sem_inv i s' \<and> sems s' = sems s
    \<and> queues s' (SemQ i) = order_of (sem_flag (sems s i)) (\<lambda>u. current_priority (threads s u)) t (queues s (SemQ i))
    \<and> thread_stat s' t = RT_THREAD_SUSPEND \<and> error (threads s' t) = RT_EOK
    \<and> (0 < sint timeout \<longrightarrow> ThreadTimer t \<in> set (timer_q s' HardTimers) \<and> delay s' (ThreadTimer t) = nat (sint timeout))"
proof -
  obtain s1 where s1: "ipc_wait c (SemQ i) (sem_flag (sems s i)) timeout s = Inr s1" "kinv s1"
    "threads s1 = (threads s)(t := set_stat RT_THREAD_SUSPEND ((threads s t)\<lparr>error := RT_EOK\<rparr>))"
    "queues s1 = (queues s)(SemQ i := order_of (sem_flag (sems s i)) (\<lambda>u. current_priority (threads s u)) t (queues s (SemQ i)))"
    "sems s1 = sems s"
    "0 < sint timeout \<longrightarrow> ThreadTimer t \<in> set (timer_q s1 HardTimers) \<and> delay s1 (ThreadTimer t) = nat (sint timeout)"
    using ipc_wait_ok [OF assms(1,4,5,6) _ sem_wait_q(1) assms(9)] assms(2) unfolding sem_inv_def by blast
  from assms(7,8,10) s1(1) have r: "rt_schedule c s1 = Inr s'" "r = Blocked" by (auto simp: rt_sem_take_def)
  note k = kinv_rt_schedule [OF s1(2) assms(3) r(1)]
  note os = only_schedD [OF k(2)]
  have "thread_stat s1 t = RT_THREAD_SUSPEND" by (simp add: thread_stat_def s1(3))
  then have "thread_stat s' t = RT_THREAD_SUSPEND" using only_sched_suspended(1) [OF k(2)] by simp
  moreover have "error (threads s' t) = RT_EOK" using same_user_sel(1) [OF os(1), of t] by (simp add: s1(3))
  moreover have "delay s' = delay s1"
    by (rule delay_cong) (simp_all add: os rt_tick_get_def)
  ultimately show ?thesis using k s1 os assms(2,7) r(2) by (simp add: sem_inv_def)
qed

lemma sem_release_wake:
  assumes "kinv s" "sem_inv i s" "c < RT_CPUS_NR" "queues s (SemQ i) = t # ts" "rt_sem_release c i s = Inr (s', e)"
  shows "e = RT_EOK \<and> kinv s' \<and> sem_inv i s' \<and> sems s' = sems s \<and> queues s' (SemQ i) = ts
    \<and> awake (thread_stat s' t) \<and> error (threads s' t) = error (threads s t)"
proof -
  note h = ipc_list_resume_ok [OF assms(1) sem_wait_q(1) assms(4), of c]
  note hd = kinv_wait_head [OF assms(1) sem_wait_q(1) assms(4)]
  let ?r = "fst (rt_thread_resume c t s)"
  have r: "rt_schedule c ?r = Inr s'" "e = RT_EOK"
    using assms(4,5) h(1) by (auto simp: rt_sem_release_def rt_list_isempty_def)
  note k = kinv_rt_schedule [OF kinv_resume [OF assms(1)] assms(3) r(1)]
  note os = only_schedD [OF k(2)]
  have "sem_value (sems s i) = 0" using assms(2,4) by (auto simp: sem_inv_def word_gt_0)
  moreover have "awake (thread_stat s' t)" using only_sched_suspended(2) [OF k(2)] h(3) by simp
  moreover have "error (threads s' t) = error (threads s t)"
    using same_user_sel(1) [OF os(1), of t] hd(1) by (simp add: rt_thread_resume_def Let_def insert_thread_threads)
  ultimately show ?thesis using k os h(2) r(2) assms(2) by (simp add: sem_inv_def)
qed


subsection \<open>Runs\<close>

text \<open>
  The life of one semaphore, with two ghost counters: the tokens handed to takers and the tokens put
  in. A release that finds a waiter hands the token over at once. Between these steps anything else
  may happen that leaves the semaphore alone and adds no waiter to it: scheduling, a timed-out
  waiter, other objects.
\<close>

inductive sem_step :: "nat \<Rightarrow> kernel \<times> nat \<times> nat \<Rightarrow> kernel \<times> nat \<times> nat \<Rightarrow> bool" for i where
  take_now: "rt_sem_take c i timeout s = Inr (s', Return RT_EOK) \<Longrightarrow> sem_step i (s, g, p) (s', g + 1, p)"
| take_fails: "rt_sem_take c i timeout s = Inr (s', Return e) \<Longrightarrow> e \<noteq> RT_EOK \<Longrightarrow> sem_step i (s, g, p) (s', g, p)"
| take_waits: "rt_sem_take c i timeout s = Inr (s', Blocked) \<Longrightarrow> c < RT_CPUS_NR \<Longrightarrow> rt_thread_self c s = Some t \<Longrightarrow>
    thread_stat s t = RT_THREAD_RUNNING \<Longrightarrow> scheduler_available c s \<Longrightarrow> timeout_ok timeout \<Longrightarrow>
    sem_step i (s, g, p) (s', g, p)"
| release_hands_over: "rt_sem_release c i s = Inr (s', RT_EOK) \<Longrightarrow> c < RT_CPUS_NR \<Longrightarrow> queues s (SemQ i) \<noteq> [] \<Longrightarrow>
    sem_step i (s, g, p) (s', g + 1, p + 1)"
| release_counts: "rt_sem_release c i s = Inr (s', RT_EOK) \<Longrightarrow> queues s (SemQ i) = [] \<Longrightarrow>
    sem_step i (s, g, p) (s', g, p + 1)"
| release_fails: "rt_sem_release c i s = Inr (s', e) \<Longrightarrow> e \<noteq> RT_EOK \<Longrightarrow> queues s (SemQ i) = [] \<Longrightarrow>
    sem_step i (s, g, p) (s', g, p)"
| elsewhere: "sems s' i = sems s i \<Longrightarrow> set (queues s' (SemQ i)) \<subseteq> set (queues s (SemQ i)) \<Longrightarrow> kinv s' \<Longrightarrow>
    sem_step i (s, g, p) (s', g, p)"

inductive_cases sem_stepE: "sem_step i (s, g, p) (s', g', p')"

lemma sem_take_return:
  assumes "rt_sem_take c i timeout s = Inr (s', Return e)"
  shows "e = RT_EOK \<and> 0 < sem_value (sems s i) \<and> s' = upd_sem i (\<lambda>m. m\<lparr>sem_value := sem_value m - 1\<rparr>) s
    \<or> e = - RT_ETIMEOUT \<and> sem_value (sems s i) = 0 \<and> timeout = 0 \<and> s' = s"
  using assms by (auto simp: rt_sem_take_def word_gt_0 split: if_splits)

lemma sem_take_blocked:
  assumes "rt_sem_take c i timeout s = Inr (s', Blocked)"
  shows "sem_value (sems s i) = 0" "timeout \<noteq> 0"
  using assms by (auto simp: rt_sem_take_def word_gt_0 split: if_splits)

definition sem_good :: "nat \<Rightarrow> nat \<Rightarrow> kernel \<times> nat \<times> nat \<Rightarrow> bool" where
  "sem_good v0 i = (\<lambda>(s, g, p). kinv s \<and> sem_inv i s \<and> unat (sem_value (sems s i)) + g = v0 + p)"

lemma sem_good_step:
  assumes "sem_step i x y" "sem_good v0 i x"
  shows "sem_good v0 i y"
  using assms
proof (cases rule: sem_step.cases)
  case (take_now c timeout s s' g p)
  from sem_take_return [OF take_now(3)] have e: "0 < sem_value (sems s i)"
    "s' = upd_sem i (\<lambda>m. m\<lparr>sem_value := sem_value m - 1\<rparr>) s" by auto
  with assms(2) take_now(1,2) unat_dec [OF e(1)] show ?thesis by (auto simp: sem_good_def sem_inv_def)
next
  case (take_fails c timeout s s' e g p)
  with assms(2) sem_take_return [OF take_fails(3)] show ?thesis by auto
next
  case (take_waits c timeout s s' t g p)
  with assms(2) sem_take_blocked [OF take_waits(3)] show ?thesis
    using sem_take_wait [of s i c t timeout s' Blocked] by (auto simp: sem_good_def)
next
  case (release_hands_over c s s' g p)
  then obtain t ts where "queues s (SemQ i) = t # ts" by (cases "queues s (SemQ i)") auto
  with assms(2) release_hands_over show ?thesis
    using sem_release_wake [of s i c t ts s' RT_EOK] by (auto simp: sem_good_def)
next
  case (release_counts c s s' g p)
  then have "sem_value (sems s i) < 0xffff" "s' = upd_sem i (\<lambda>m. m\<lparr>sem_value := sem_value m + 1\<rparr>) s"
    by (auto simp: rt_sem_release_def rt_list_isempty_def split: if_splits)
  with assms(2) release_counts unat_inc [OF this(1)] show ?thesis by (auto simp: sem_good_def sem_inv_def)
next
  case (release_fails c s s' e g p)
  then have "s' = s" by (auto simp: rt_sem_release_def rt_list_isempty_def split: if_splits)
  with assms(2) release_fails show ?thesis by simp
next
  case (elsewhere s' s g p)
  with assms(2) show ?thesis by (auto simp: sem_good_def sem_inv_def)
qed

lemma sem_good_run: "(sem_step i)\<^sup>*\<^sup>* x y \<Longrightarrow> sem_good v0 i x \<Longrightarrow> sem_good v0 i y"
  by (induction rule: rtranclp_induct) (auto intro: sem_good_step)

subsection \<open>Properties\<close>

lemma sem_take_cases:
  assumes "kinv s" and "sem_inv i s" and "c < RT_CPUS_NR" and "rt_thread_self c s = Some t"
    and "thread_stat s t = RT_THREAD_RUNNING" and "scheduler_available c s" and "timeout_ok timeout"
    and "rt_sem_take c i timeout s = Inr (s', r)"
  shows "kinv s' \<and> sem_inv i s' \<and>
    (if 0 < sem_value (sems s i)
     then r = Return RT_EOK \<and> unat (sem_value (sems s' i)) + 1 = unat (sem_value (sems s i))
       \<and> threads s' = threads s \<and> queues s' = queues s
     else if timeout = 0 then r = Return (- RT_ETIMEOUT) \<and> s' = s
     else r = Blocked \<and> sems s' = sems s \<and> thread_stat s' t = RT_THREAD_SUSPEND
       \<and> queues s' (SemQ i) = order_of (sem_flag (sems s i)) (\<lambda>u. current_priority (threads s u)) t (queues s (SemQ i))
       \<and> (0 < sint timeout \<longrightarrow> ThreadTimer t \<in> set (timer_q s' HardTimers)
            \<and> delay s' (ThreadTimer t) = nat (sint timeout)))"
proof (cases r)
  case (Return e)
  then show ?thesis using sem_take_return [of c i timeout s s' e] assms(1,2,8) unat_dec
    by (auto simp: sem_inv_def)
next
  case Blocked
  with sem_take_blocked [of c i timeout s s'] assms(8)
  have "sem_value (sems s i) = 0" "timeout \<noteq> 0" by auto
  then show ?thesis using sem_take_wait [OF assms(1-6) _ _ assms(7,8)] by auto
qed

text \<open>
  \<open>rt_sem_take\<close>, on every branch: it takes a token if there is one; with timeout 0 and no token it
  fails with \<open>RT_ETIMEOUT\<close> and changes nothing; otherwise the caller is suspended at its place in the
  waiting list, with its timer running exactly when the timeout is positive.
\<close>

theorem sem_take_spec:
  assumes "kinv s" and "sem_inv i s" and "preemptible c s" and "rt_thread_self c s = Some t"
    and "thread_stat s t = RT_THREAD_RUNNING" and "scheduler_available c s" and "timeout_ok timeout"
  shows "\<exists>s' r. rt_sem_take c i timeout s = Inr (s', r) \<and> kinv s' \<and> sem_inv i s' \<and>
    (if 0 < sem_value (sems s i)
     then r = Return RT_EOK \<and> unat (sem_value (sems s' i)) + 1 = unat (sem_value (sems s i))
       \<and> threads s' = threads s \<and> queues s' = queues s
     else if timeout = 0 then r = Return (- RT_ETIMEOUT) \<and> s' = s
     else r = Blocked \<and> sems s' = sems s \<and> thread_stat s' t = RT_THREAD_SUSPEND
       \<and> queues s' (SemQ i) = order_of (sem_flag (sems s i)) (\<lambda>u. current_priority (threads s u)) t (queues s (SemQ i))
       \<and> (0 < sint timeout \<longrightarrow> ThreadTimer t \<in> set (timer_q s' HardTimers)
            \<and> delay s' (ThreadTimer t) = nat (sint timeout)))"
proof -
  have c: "c < RT_CPUS_NR" using assms(3) by (simp add: preemptible_def)
  have "\<exists>s' r. rt_sem_take c i timeout s = Inr (s', r)"
    using ipc_wait_schedule [OF assms(1,3-6) _ sem_wait_q(1) assms(7)] assms(2) by (fastforce simp: rt_sem_take_def sem_inv_def)
  then show ?thesis using sem_take_cases [OF assms(1,2) c assms(4-7)] by blast
qed

theorem sem_take_spec_witness:
  "\<exists>s'. rt_sem_take 0 0 5 demo_ready = Inr (s', Blocked) \<and> kinv s' \<and> queues s' (SemQ 0) = [4]
    \<and> delay s' (ThreadTimer 4) = 5"
proof -
  have i: "sem_inv 0 demo_ready" and v: "sem_value (sems demo_ready 0) = 0" and f: "sem_flag (sems demo_ready 0) = RT_IPC_FLAG_FIFO"
    by (simp_all add: sem_inv_def demo_ready_waits demo_ready_objects blank_kernel_def flag_ok_def RT_IPC_FLAG_FIFO_def)
  have to: "timeout_ok 5" by (simp add: timeout_ok_def)
  from sem_take_spec [OF demo_kinv(2) i demo_preemptible demo_ready_self demo_ready_sel(5) demo_ready_available to]
  show ?thesis by (auto simp: v f demo_ready_waits order_of_def insert_fifo_def)
qed

lemma sem_release_cases:
  assumes "kinv s" and "sem_inv i s" and "c < RT_CPUS_NR" and "rt_sem_release c i s = Inr (s', e)"
  shows "kinv s' \<and> sem_inv i s' \<and>
    (case queues s (SemQ i) of
       t # ts \<Rightarrow> e = RT_EOK \<and> sems s' = sems s \<and> queues s' (SemQ i) = ts \<and> awake (thread_stat s' t)
         \<and> error (threads s' t) = error (threads s t)
     | [] \<Rightarrow> if sem_value (sems s i) < 0xffff
             then e = RT_EOK \<and> unat (sem_value (sems s' i)) = unat (sem_value (sems s i)) + 1 \<and> threads s' = threads s
             else e = - RT_EFULL \<and> s' = s)"
proof (cases "queues s (SemQ i)")
  case Nil
  then show ?thesis using assms unat_inc [of "sem_value (sems s i)"]
    by (auto simp: rt_sem_release_def rt_list_isempty_def sem_inv_def split: if_splits)
next
  case (Cons t ts)
  then show ?thesis using sem_release_wake [OF assms(1-3) Cons assms(4)] by simp
qed

text \<open>
  C29. \<open>rt_sem_release\<close>, on every branch: it wakes exactly the first waiter and leaves the count at 0; with
  no waiter it counts the token; a full count is refused with \<open>RT_EFULL\<close> and nothing changes. It may be called in a thread and in
  an interrupt.
\<close>

theorem sem_release_spec:
  assumes "kinv s" and "sem_inv i s" and "c < RT_CPUS_NR" and "irq_nest (cpus s c) \<noteq> 0 \<or> preemptible c s"
  shows "\<exists>s' e. rt_sem_release c i s = Inr (s', e) \<and> kinv s' \<and> sem_inv i s' \<and>
    (case queues s (SemQ i) of
       t # ts \<Rightarrow> e = RT_EOK \<and> sems s' = sems s \<and> queues s' (SemQ i) = ts \<and> awake (thread_stat s' t)
         \<and> error (threads s' t) = error (threads s t)
     | [] \<Rightarrow> if sem_value (sems s i) < 0xffff
             then e = RT_EOK \<and> unat (sem_value (sems s' i)) = unat (sem_value (sems s i)) + 1 \<and> threads s' = threads s
             else e = - RT_EFULL \<and> s' = s)"
proof -
  have "\<exists>s' e. rt_sem_release c i s = Inr (s', e)"
    using ipc_resume_schedule [OF assms(1,4)]
    by (cases "queues s (SemQ i)") (auto simp: rt_sem_release_def rt_list_isempty_def ipc_list_resume_def)
  then show ?thesis using sem_release_cases [OF assms(1-3)] by blast
qed

theorem sem_release_spec_witness:
  "\<exists>s'. rt_sem_release 0 0 demo_ready = Inr (s', RT_EOK) \<and> kinv s' \<and> sem_inv 0 s' \<and> unat (sem_value (sems s' 0)) = 1"
proof -
  have i: "sem_inv 0 demo_ready" and v: "sem_value (sems demo_ready 0) = 0" and q: "queues demo_ready (SemQ 0) = []"
    by (simp_all add: sem_inv_def demo_ready_waits demo_ready_objects blank_kernel_def flag_ok_def RT_IPC_FLAG_FIFO_def)
  obtain s' where r: "rt_sem_release 0 0 demo_ready = Inr (s', RT_EOK)"
    by (simp add: rt_sem_release_def v q rt_list_isempty_def)
  with sem_release_spec [OF demo_kinv(2) i, of 0] demo_preemptible show ?thesis by (auto simp: v q)
qed

text \<open>
  C4. Tokens are conserved in every run: the count plus the tokens handed out equals the initial count
  plus the tokens released, and no thread waits while the count is positive.
\<close>

theorem sem_tokens_conserved:
  assumes "(sem_step i)\<^sup>*\<^sup>* (s0, 0, 0) (s, g, p)" and "kinv s0" and "sem_inv i s0"
  shows "unat (sem_value (sems s i)) + g = unat (sem_value (sems s0 i)) + p
    \<and> (queues s (SemQ i) \<noteq> [] \<longrightarrow> sem_value (sems s i) = 0)"
proof -
  have "sem_good (unat (sem_value (sems s0 i))) i (s0, 0, 0)" using assms(2,3) by (simp add: sem_good_def)
  from sem_good_run [OF assms(1) this] show ?thesis by (auto simp: sem_good_def sem_inv_def word_gt_0)
qed

theorem sem_tokens_conserved_witness:
  "\<exists>s. rt_sem_release 0 0 demo_ready = Inr (s, RT_EOK) \<and> unat (sem_value (sems s 0)) + 0 = 0 + 1"
proof -
  have i: "sem_inv 0 demo_ready" and v: "sem_value (sems demo_ready 0) = 0" and q: "queues demo_ready (SemQ 0) = []"
    by (simp_all add: sem_inv_def demo_ready_waits demo_ready_objects blank_kernel_def flag_ok_def RT_IPC_FLAG_FIFO_def)
  obtain s where r: "rt_sem_release 0 0 demo_ready = Inr (s, RT_EOK)"
    by (simp add: rt_sem_release_def v q rt_list_isempty_def)
  have "(sem_step 0)\<^sup>*\<^sup>* (demo_ready, 0, 0) (s, 0, 1)"
    using sem_step.release_counts [OF r q, of 0 0] by simp
  from sem_tokens_conserved [OF this demo_kinv(2) i] r show ?thesis by (simp add: v)
qed

end
