(* ===== verification/Rt_Mutex.thy ===== *)
theory Rt_Mutex
  imports Rt_Wait
begin

unbundle bit_operations_syntax

text \<open>
  Mutexes with recursive locking, priority inheritance and priority ceiling, \<open>src/ipc.c\<close>. A mutex lists
  its waiters by priority; the owner inherits the priority of the first one. The mutexes a thread
  owns without ceiling are in its \<open>taken_object_list\<close>.
\<close>

subsection \<open>Priorities\<close>

definition head_priority :: "nat \<Rightarrow> kernel \<Rightarrow> u8" where
  "head_priority i s = (case queues s (MutexQ i) of [] \<Rightarrow> 0xff | t # _ \<Rightarrow> current_priority (threads s t))"

definition mutex_update_priority :: "nat \<Rightarrow> kernel \<Rightarrow> kernel" where
  "mutex_update_priority i s = upd_mutex i (\<lambda>m. m\<lparr>mutex_priority := head_priority i s\<rparr>) s"

definition thread_get_mutex_priority :: "tid \<Rightarrow> kernel \<Rightarrow> u8" where
  "thread_get_mutex_priority t s =
     foldl (\<lambda>p i. if mutex_priority (mutexes s i) < p then mutex_priority (mutexes s i) else p)
       (init_priority (threads s t)) (taken_object_list (threads s t))"

text \<open>
  \<open>_thread_update_priority\<close> follows the chain of owners. The fuel bounds the recursion; it only matters
  when a thread waits for a mutex and is the running thread at the same time, see
  \<open>update_priority_fuel\<close>.
\<close>

fun thread_update_priority :: "nat \<Rightarrow> cpuid \<Rightarrow> tid \<Rightarrow> u8 \<Rightarrow> kernel \<Rightarrow> kernel res" where
  "thread_update_priority 0 c t p s = Inl Hang"
| "thread_update_priority (Suc fuel) c t p s =
    (let s = thread_change_priority c t p s in
     if thread_stat s t = RT_THREAD_SUSPEND
     then case pending_object (threads s t) of None \<Rightarrow> Inr s
       | Some m \<Rightarrow>
          and_then (ipc_list_suspend c (MutexQ m) t RT_IPC_FLAG_PRIO (rt_list_remove t s)) (\<lambda>s.
            let s = mutex_update_priority m s in
            case owner (mutexes s m) of None \<Rightarrow> Inl NullDeref
            | Some ow \<Rightarrow>
               let mp = thread_get_mutex_priority ow s in
               if mp \<noteq> current_priority (threads s ow) then thread_update_priority fuel c ow mp s else Inr s)
     else Inr s)"

abbreviation update_priority :: "cpuid \<Rightarrow> tid \<Rightarrow> u8 \<Rightarrow> kernel \<Rightarrow> kernel res" where
  "update_priority \<equiv> thread_update_priority 2"

subsection \<open>Life of a mutex\<close>

definition fresh_mutex :: rt_mutex where
  "fresh_mutex = \<lparr>ceiling_priority = 0xff, mutex_priority = 0xff, hold = 0, owner = None\<rparr>"

text \<open>\<open>rt_list_remove(&mutex->taken_list)\<close>\<close>

definition untake :: "nat \<Rightarrow> kernel \<Rightarrow> kernel" where
  "untake i s = s\<lparr>threads := (\<lambda>t. (threads s t)\<lparr>taken_object_list := removeAll i (taken_object_list (threads s t))\<rparr>)\<rparr>"

definition rt_mutex_init :: "nat \<Rightarrow> kernel \<Rightarrow> kernel" where
  "rt_mutex_init i s = upd_mutex i (\<lambda>_. fresh_mutex) (untake i (s\<lparr>queues := (queues s)(MutexQ i := [])\<rparr>))"

definition rt_mutex_create :: "cpuid \<Rightarrow> nat option \<Rightarrow> kernel \<Rightarrow> (kernel \<times> nat option) res" where
  "rt_mutex_create c alloc s = rt_assert (rt_interrupt_get_nest c s = 0)
     (case alloc of None \<Rightarrow> Inr (s, None) | Some i \<Rightarrow> Inr (rt_mutex_init i s, Some i))"

definition rt_mutex_detach :: "cpuid \<Rightarrow> nat \<Rightarrow> kernel \<Rightarrow> kernel res" where
  "rt_mutex_detach c i s = and_then (ipc_list_resume_all c (MutexQ i) s) (\<lambda>s. Inr (untake i s))"

definition rt_mutex_delete :: "cpuid \<Rightarrow> nat \<Rightarrow> kernel \<Rightarrow> kernel res" where
  "rt_mutex_delete c i s = rt_assert (rt_interrupt_get_nest c s = 0)
     (and_then (ipc_list_resume_all c (MutexQ i) s) (\<lambda>s. Inr (untake i s)))"

text \<open>
  The owner's priority after a waiter of equal priority has gone: shared by \<open>rt_mutex_drop_thread\<close> and the
  end of a failed \<open>rt_mutex_take\<close>.
\<close>

definition mutex_waiter_gone :: "cpuid \<Rightarrow> nat \<Rightarrow> tid \<Rightarrow> kernel \<Rightarrow> kernel res" where
  "mutex_waiter_gone c i t s =
    (case owner (mutexes s i) of None \<Rightarrow> Inl NullDeref
     | Some ow \<Rightarrow>
        let need_update = (current_priority (threads s ow) = current_priority (threads s t));
            s = mutex_update_priority i s
        in if need_update
           then let p = thread_get_mutex_priority ow s in
                if p \<noteq> current_priority (threads s ow) then update_priority c ow p s else Inr s
           else Inr s)"

definition rt_mutex_drop_thread :: "cpuid \<Rightarrow> nat \<Rightarrow> tid \<Rightarrow> kernel \<Rightarrow> kernel res" where
  "rt_mutex_drop_thread c i t s = mutex_waiter_gone c i t (rt_list_remove t s)"

definition rt_mutex_setprioceiling :: "cpuid \<Rightarrow> nat option \<Rightarrow> u8 \<Rightarrow> kernel \<Rightarrow> kernel \<times> u8" where
  "rt_mutex_setprioceiling c m p s =
    (case m of None \<Rightarrow> (rt_set_errno c (- RT_EINVAL) s, 0xff)
     | Some i \<Rightarrow>
        if p < 32 then (upd_mutex i (\<lambda>m. m\<lparr>ceiling_priority := p\<rparr>) s, ceiling_priority (mutexes s i))
        else (rt_set_errno c (- RT_EINVAL) s, 0xff))"

definition rt_mutex_getprioceiling :: "nat option \<Rightarrow> kernel \<Rightarrow> u8" where
  "rt_mutex_getprioceiling m s = (case m of None \<Rightarrow> 0xff | Some i \<Rightarrow> ceiling_priority (mutexes s i))"

definition rt_mutex_control :: "nat \<Rightarrow> kernel \<Rightarrow> kernel \<times> int" where
  "rt_mutex_control i s = (s, - RT_ERROR)"

subsection \<open>Taking\<close>

text \<open>A free mutex gets its owner; under a ceiling the owner is raised to it.\<close>

definition mutex_acquire :: "cpuid \<Rightarrow> nat \<Rightarrow> tid \<Rightarrow> kernel \<Rightarrow> kernel res" where
  "mutex_acquire c i t s =
    (let s = upd_mutex i (\<lambda>m. m\<lparr>owner := Some t, mutex_priority := 0xff, hold := 1\<rparr>) s;
         ceil = ceiling_priority (mutexes s i) in
     if ceil \<noteq> 0xff
     then if ceil < current_priority (threads s t) then update_priority c t ceil s else Inr s
     else Inr (upd_thread t (\<lambda>th. th\<lparr>taken_object_list := i # taken_object_list th\<rparr>) s))"

text \<open>An owned mutex: the caller waits, and the owner inherits its priority.\<close>

definition mutex_block :: "cpuid \<Rightarrow> nat \<Rightarrow> tid \<Rightarrow> tid \<Rightarrow> kernel \<Rightarrow> kernel res" where
  "mutex_block c i t ow s =
    (let p = current_priority (threads s t) in
     and_then (ipc_list_suspend c (MutexQ i) t RT_IPC_FLAG_PRIO s) (\<lambda>s.
       let s = upd_thread t (\<lambda>th. th\<lparr>pending_object := Some i\<rparr>) s in
       if p < mutex_priority (mutexes s i)
       then let s = upd_mutex i (\<lambda>m. m\<lparr>mutex_priority := p\<rparr>) s in
            if p < current_priority (threads s ow) then update_priority c ow p s else Inr s
       else Inr s))"

definition rt_mutex_take :: "cpuid \<Rightarrow> nat \<Rightarrow> 32 word \<Rightarrow> kernel \<Rightarrow> (kernel \<times> outcome) res" where
  "rt_mutex_take c i timeout s =
    rt_assert (scheduler_available c s)
     (case rt_thread_self c s of None \<Rightarrow> Inl NullDeref
      | Some t \<Rightarrow>
         let s = upd_thread t (\<lambda>th. th\<lparr>error := RT_EOK\<rparr>) s in
         case owner (mutexes s i) of
           None \<Rightarrow> and_then (mutex_acquire c i t s) (\<lambda>s. Inr (s, Return RT_EOK))
         | Some ow \<Rightarrow>
            if ow = t
            then if hold (mutexes s i) < 0xff then Inr (upd_mutex i (\<lambda>m. m\<lparr>hold := hold m + 1\<rparr>) s, Return RT_EOK)
                 else Inr (s, Return (- RT_EFULL))
            else if timeout = 0
            then Inr (upd_thread t (\<lambda>th. th\<lparr>error := - RT_ETIMEOUT\<rparr>) s, Return (- RT_ETIMEOUT))
            else and_then (mutex_block c i t ow s) (\<lambda>s.
                 and_then (if 0 < sint timeout then arm_thread_timer c t timeout s else Inr s) (\<lambda>s.
                 and_then (rt_schedule c s) (\<lambda>s. Inr (s, Blocked)))))"

text \<open>The rest of \<open>rt_mutex_take\<close>, when the thread that waited runs again.\<close>

definition rt_mutex_take_cont :: "cpuid \<Rightarrow> nat \<Rightarrow> tid \<Rightarrow> kernel \<Rightarrow> (kernel \<times> int) res" where
  "rt_mutex_take_cont c i t s =
    (if error (threads s t) = RT_EOK then Inr (s, RT_EOK)
     else and_then (mutex_waiter_gone c i t s) (\<lambda>s. Inr (s, error (threads s t))))"

definition rt_mutex_trytake :: "cpuid \<Rightarrow> nat \<Rightarrow> kernel \<Rightarrow> (kernel \<times> outcome) res" where
  "rt_mutex_trytake c i s = rt_mutex_take c i 0 s"

subsection \<open>Releasing\<close>

text \<open>The last release hands the mutex to the first waiter, or frees it.\<close>

definition mutex_hand_over :: "cpuid \<Rightarrow> nat \<Rightarrow> kernel \<Rightarrow> kernel" where
  "mutex_hand_over c i s =
    (case queues s (MutexQ i) of
       [] \<Rightarrow> upd_mutex i (\<lambda>m. m\<lparr>owner := None, mutex_priority := 0xff\<rparr>) s
     | nt # _ \<Rightarrow>
        let s = rt_list_remove nt s;
            s = upd_mutex i (\<lambda>m. m\<lparr>owner := Some nt, hold := 1\<rparr>) s;
            s = upd_thread nt (\<lambda>th. th\<lparr>taken_object_list := i # taken_object_list th, pending_object := None\<rparr>) s;
            s = fst (rt_thread_resume c nt s)
        in mutex_update_priority i s)"

definition rt_mutex_release :: "cpuid \<Rightarrow> nat \<Rightarrow> kernel \<Rightarrow> (kernel \<times> int) res" where
  "rt_mutex_release c i s =
    rt_assert (rt_thread_self c s \<noteq> None \<and> rt_interrupt_get_nest c s = 0)
     (case rt_thread_self c s of None \<Rightarrow> Inl NullDeref
      | Some t \<Rightarrow>
         if owner (mutexes s i) \<noteq> Some t
         then Inr (upd_thread t (\<lambda>th. th\<lparr>error := - RT_ERROR\<rparr>) s, - RT_ERROR)
         else
           let s = upd_mutex i (\<lambda>m. m\<lparr>hold := hold m - 1\<rparr>) s in
           if hold (mutexes s i) = 0
           then
             let s = untake i s;
                 restore = (ceiling_priority (mutexes s i) \<noteq> 0xff
                            \<or> current_priority (threads s t) = mutex_priority (mutexes s i));
                 s = (if restore then thread_change_priority c t (thread_get_mutex_priority t s) s else s);
                 wake = (queues s (MutexQ i) \<noteq> []);
                 s = mutex_hand_over c i s
             in if restore \<or> wake then and_then (rt_schedule c s) (\<lambda>s. Inr (s, RT_EOK)) else Inr (s, RT_EOK)
           else Inr (s, RT_EOK))"

subsection \<open>Changing a priority\<close>

lemma change_priority_frame [simp]:
  "timers (thread_change_priority c t p s) = timers s" "timer_q (thread_change_priority c t p s) = timer_q s"
  "sems (thread_change_priority c t p s) = sems s" "mutexes (thread_change_priority c t p s) = mutexes s"
  "events (thread_change_priority c t p s) = events s"
  "tick (cpus (thread_change_priority c t p s) c') = tick (cpus s c')"
  "irq_nest (cpus (thread_change_priority c t p s) c') = irq_nest (cpus s c')"
  "current_thread (cpus (thread_change_priority c t p s) c') = current_thread (cpus s c')"
  by (simp_all add: thread_change_priority_def Let_def)

lemma change_priority_stat:
  assumes "sched_inv s"
  shows "thread_stat (thread_change_priority c t p s) u = thread_stat s u"
proof (cases "thread_stat s t = RT_THREAD_READY")
  case True
  then have "oncpu (threads s t) = RT_CPU_DETACHED"
    using sched_invD(1) [OF assms] ready_inv_in_ready(4) [OF sched_invD(1) [OF assms], of t "ready_q (threads s t)"]
    by (simp add: ready_inv_def ready_complete_def)
  with True show ?thesis
    by (auto simp: thread_change_priority_def Let_def thread_stat_def insert_thread_threads)
next
  case False
  then show ?thesis by (simp add: thread_change_priority_def thread_stat_def)
qed

lemma change_priority_queues:
  assumes "sched_inv s" "\<not> is_ready_q q"
  shows "queues (thread_change_priority c t p s) q = queues s q"
proof (cases "thread_stat s t = RT_THREAD_READY")
  case True
  then have "t \<in> set (queues s (ready_q (threads s t)))"
    using sched_invD(1) [OF assms(1)] by (simp add: ready_inv_def ready_complete_def)
  then have "t \<notin> set (queues s q)"
    using sched_invD(4) [OF assms(1)] assms(2) is_ready_q_ready_q unfolding queues_wf_def by metis
  with True assms(2) show ?thesis by (simp add: thread_change_priority_def Let_def removeAll_id)
next
  case False
  then show ?thesis by (simp add: thread_change_priority_def)
qed

lemma change_priority_thread:
  "threads (thread_change_priority c t p s) u = (if u = t then
      (threads (thread_change_priority c t p s) t) else threads s u)"
  "error (threads (thread_change_priority c t p s) u) = error (threads s u)"
  by (auto simp: thread_change_priority_def Let_def insert_thread_threads with_priority_def)

lemma kinv_change_priority:
  assumes "kinv s" "p < 32"
  shows "kinv (thread_change_priority c t p s)"
proof -
  note k = kinvD [OF assms(1)]
  let ?s = "thread_change_priority c t p s"
  have "timers_wf ?s" using timers_wf_cong [of ?s s] k(2) by (simp add: rt_tick_get_def)
  moreover have "waits_ok ?s"
    using k(3) change_priority_stat [OF k(1)] change_priority_queues [OF k(1)] by (auto simp: waits_ok_def is_wait_q_def)
  moreover have "sleepers_ok ?s" using k(4) change_priority_stat [OF k(1)] by (simp add: sleepers_ok_def)
  ultimately show ?thesis using thread_change_priority_sched_inv [OF k(1) assms(2)] by (simp add: kinv_def)
qed

text \<open>A thread that does not wait for a mutex just changes its priority, whatever the fuel.\<close>

lemma update_priority_plain:
  assumes "sched_inv s" "thread_stat s t \<noteq> RT_THREAD_SUSPEND \<or> pending_object (threads s t) = None"
  shows "thread_update_priority (Suc n) c t p s = Inr (thread_change_priority c t p s)"
  using assms change_priority_stat [OF assms(1), of c t p t] by (auto simp: Let_def)

text \<open>A thread that waits for a mutex and is not the running one fails the assertion of \<open>rt_thread_suspend\<close>.\<close>

lemma update_priority_waiting:
  assumes "sched_inv s" "thread_stat s t = RT_THREAD_SUSPEND" "pending_object (threads s t) = Some m"
    "rt_thread_self c s \<noteq> Some t"
  shows "thread_update_priority (Suc n) c t p s = Inl AssertFail"
proof -
  have "rt_thread_self c (rt_list_remove t (thread_change_priority c t p s)) \<noteq> Some t"
    using assms(4) by (simp add: rt_thread_self_def)
  then have "rt_thread_suspend c t (rt_list_remove t (thread_change_priority c t p s)) = Inl AssertFail"
    by (simp add: rt_thread_suspend_def)
  then show ?thesis
    using assms(2,3) change_priority_stat [OF assms(1), of c t p t] by (simp add: ipc_list_suspend_def Let_def)
qed

lemma update_priority_fuel:
  assumes "sched_inv s" "\<not> (thread_stat s t = RT_THREAD_SUSPEND \<and> rt_thread_self c s = Some t)"
  shows "thread_update_priority (Suc n) c t p s = update_priority c t p s"
proof (cases "thread_stat s t = RT_THREAD_SUSPEND \<and> pending_object (threads s t) \<noteq> None")
  case True
  then obtain m where "pending_object (threads s t) = Some m" by auto
  with True assms show ?thesis
    using update_priority_waiting [OF assms(1), of t m c] by (metis numeral_2_eq_2)
next
  case False
  with assms(1) show ?thesis using update_priority_plain [OF assms(1), of t] by (metis numeral_2_eq_2)
qed

subsection \<open>Invariant of a mutex\<close>

definition mutex_ok :: "nat \<Rightarrow> kernel \<Rightarrow> bool" where
  "mutex_ok i s \<longleftrightarrow>
     (case owner (mutexes s i) of None \<Rightarrow> hold (mutexes s i) = 0 \<and> queues s (MutexQ i) = []
      | Some ow \<Rightarrow> hold (mutexes s i) \<noteq> 0 \<and> ow \<notin> set (queues s (MutexQ i)))
     \<and> sorted (map (\<lambda>t. current_priority (threads s t)) (queues s (MutexQ i)))
     \<and> (ceiling_priority (mutexes s i) = 0xff \<or> ceiling_priority (mutexes s i) < 32)"

text \<open>Priority inheritance: the owner is at least as urgent as the mutex, and the mutex as each waiter.\<close>

definition inherits :: "nat \<Rightarrow> kernel \<Rightarrow> bool" where
  "inherits i s \<longleftrightarrow>
     (\<forall>ow. owner (mutexes s i) = Some ow \<longrightarrow> current_priority (threads s ow) \<le> mutex_priority (mutexes s i))
     \<and> (\<forall>w \<in> set (queues s (MutexQ i)). mutex_priority (mutexes s i) \<le> current_priority (threads s w))"

lemma mutex_wait_q [simp]: "is_wait_q (MutexQ i)" "\<not> is_ready_q (MutexQ i)"
  by (simp_all add: is_wait_q_def)

lemma mutex_ok_cong:
  assumes "mutexes s' i = mutexes s i" "queues s' (MutexQ i) = queues s (MutexQ i)"
    "\<And>t. current_priority (threads s' t) = current_priority (threads s t)"
  shows "mutex_ok i s' = mutex_ok i s" "inherits i s' = inherits i s"
  using assms by (simp_all add: mutex_ok_def inherits_def cong: option.case_cong)

lemma running_prio:
  assumes "kinv s" "thread_stat s t = RT_THREAD_RUNNING"
  shows "current_priority (threads s t) < 32"
  using sched_inv_started [OF kinvD(1) [OF assms(1)], of t] assms(2) by (simp add: started_def prio_ok_def)

lemma mutex_block_ok:
  assumes "kinv s" "mutex_ok i s" "inherits i s" "rt_thread_self c s = Some t" "thread_stat s t = RT_THREAD_RUNNING"
    "owner (mutexes s i) = Some ow" "ow \<noteq> t"
    "thread_stat s ow \<noteq> RT_THREAD_SUSPEND \<or> pending_object (threads s ow) = None"
  shows "\<exists>s'. mutex_block c i t ow s = Inr s' \<and> kinv s' \<and> mutex_ok i s' \<and> inherits i s'
    \<and> queues s' (MutexQ i) = insert_by_prio (\<lambda>u. current_priority (threads s u)) t (queues s (MutexQ i))
    \<and> thread_stat s' t = RT_THREAD_SUSPEND \<and> pending_object (threads s' t) = Some i
    \<and> owner (mutexes s' i) = Some ow \<and> hold (mutexes s' i) = hold (mutexes s i)
    \<and> current_priority (threads s' ow) = min (current_priority (threads s ow)) (current_priority (threads s t))
    \<and> current_priority (threads s' t) = current_priority (threads s t)
    \<and> error (threads s' t) = error (threads s t)
    \<and> (\<forall>c. current_thread (cpus s' c) = current_thread (cpus s c) \<and> irq_nest (cpus s' c) = irq_nest (cpus s c))"
proof -
  let ?p = "current_priority (threads s t)"
  let ?q = "insert_by_prio (\<lambda>u. current_priority (threads s u)) t (queues s (MutexQ i))"
  have fl: "flag_ok RT_IPC_FLAG_PRIO" "order_of RT_IPC_FLAG_PRIO = insert_by_prio"
    by (simp_all add: flag_ok_def order_of_def RT_IPC_FLAG_PRIO_def RT_IPC_FLAG_FIFO_def)
  obtain s1 where s1: "ipc_list_suspend c (MutexQ i) t RT_IPC_FLAG_PRIO s = Inr s1" "kinv s1"
    "threads s1 = (threads s)(t := set_stat RT_THREAD_SUSPEND (threads s t))"
    "queues s1 = (queues s)(MutexQ i := ?q)" "mutexes s1 = mutexes s"
    "\<And>c. current_thread (cpus s1 c) = current_thread (cpus s c) \<and> irq_nest (cpus s1 c) = irq_nest (cpus s c)"
    using ipc_list_suspend_ok [OF assms(1,4,5) fl(1) mutex_wait_q(1), unfolded fl(2)] by blast
  let ?s2 = "upd_thread t (\<lambda>th. th\<lparr>pending_object := Some i\<rparr>) s1"
  have k2: "kinv ?s2" by (rule kinv_upd_thread [OF s1(2)]) (simp add: same_sched_def)
  have pr: "current_priority (threads ?s2 u) = current_priority (threads s u)" for u by (simp add: s1(3))
  have so: "sorted (map (\<lambda>u. current_priority (threads s u)) ?q)"
    using assms(2) by (intro insert_by_prio_sorted) (simp add: mutex_ok_def)
  have q2: "queues ?s2 (MutexQ i) = ?q" by (simp add: s1(4))
  have nin: "ow \<notin> set ?q" using assms(2,6,7) by (simp add: mutex_ok_def prio_order.set_ins)
  have p32: "?p < 32" by (rule running_prio [OF assms(1,5)])
  have ok: "mutex_ok i s'" if "owner (mutexes s' i) = Some ow" "hold (mutexes s' i) = hold (mutexes s i)"
    "ceiling_priority (mutexes s' i) = ceiling_priority (mutexes s i)" "queues s' (MutexQ i) = ?q"
    "\<And>w. w \<in> set ?q \<Longrightarrow> current_priority (threads s' w) = current_priority (threads s w)" for s'
  proof -
    have e: "map (\<lambda>u. current_priority (threads s' u)) ?q = map (\<lambda>u. current_priority (threads s u)) ?q"
      using that(5) by (rule map_cong [OF refl])
    have "sorted (map (\<lambda>u. current_priority (threads s' u)) ?q)" unfolding e by (rule so)
    then show ?thesis using that(1-4) nin assms(2,6) by (simp add: mutex_ok_def)
  qed
  show ?thesis
  proof (cases "?p < mutex_priority (mutexes s i)")
    case True
    let ?s3 = "upd_mutex i (\<lambda>m. m\<lparr>mutex_priority := ?p\<rparr>) ?s2"
    have k3: "kinv ?s3" using k2 by simp
    have w3: "?p \<le> current_priority (threads s w)" if "w \<in> set ?q" for w
      using that True assms(3) by (auto simp: prio_order.set_ins inherits_def)
    have ok3: "mutex_ok i ?s3" by (rule ok) (use pr assms(6) q2 in \<open>simp_all add: s1(5)\<close>)
    show ?thesis
    proof (cases "?p < current_priority (threads s ow)")
      case up: True
      let ?s4 = "thread_change_priority c ow ?p ?s3"
      have st: "thread_stat ?s3 ow \<noteq> RT_THREAD_SUSPEND \<or> pending_object (threads ?s3 ow) = None"
        using assms(7,8) by (auto simp: thread_stat_def s1(3))
      have "update_priority c ow ?p ?s3 = Inr ?s4"
        using update_priority_plain [OF kinvD(1) [OF k3] st, of 1 c ?p] by (simp add: numeral_2_eq_2)
      then have r: "mutex_block c i t ow s = Inr ?s4"
        using s1(1) True up pr by (simp add: mutex_block_def Let_def s1(5))
      have q4: "queues ?s4 (MutexQ i) = ?q"
        using change_priority_queues [OF kinvD(1) [OF k3], of "MutexQ i" c ow ?p] q2 by simp
      have pw: "current_priority (threads ?s4 w) = current_priority (threads s w)" if "w \<in> set ?q" for w
        using that nin pr [of w] by auto
      have "mutex_ok i ?s4" by (rule ok) (use pw q4 assms(6) in \<open>simp_all add: s1(5)\<close>)
      moreover have "inherits i ?s4"
        using q4 w3 pw assms(6) by (auto simp: inherits_def s1(5))
      moreover have "thread_stat ?s4 t = RT_THREAD_SUSPEND"
        using change_priority_stat [OF kinvD(1) [OF k3], of c ow ?p t] by (simp add: thread_stat_def s1(3))
      ultimately show ?thesis
        using r q4 kinv_change_priority [OF k3 p32] up assms(6,7) s1(6)
        by (intro exI [of _ ?s4]) (simp add: s1(3,5) change_priority_thread(2) min_absorb2 less_imp_le)
    next
      case same: False
      then have r: "mutex_block c i t ow s = Inr ?s3"
        using s1(1) True pr by (simp add: mutex_block_def Let_def s1(5))
      have "inherits i ?s3"
        using q2 w3 pr same assms(6) by (auto simp: inherits_def s1(5) not_less)
      then show ?thesis
        using r ok3 k3 q2 same assms(6,7) s1(6)
        by (intro exI [of _ ?s3]) (simp add: s1(3,5) min_def thread_stat_def not_less)
    qed
  next
    case False
    then have r: "mutex_block c i t ow s = Inr ?s2"
      using s1(1) by (simp add: mutex_block_def Let_def s1(5))
    have le: "current_priority (threads s ow) \<le> ?p"
      using False assms(3,6) by (simp add: inherits_def not_less) (meson order_trans)
    have "mutex_ok i ?s2" by (rule ok) (use pr q2 assms(6) in \<open>simp_all add: s1(5)\<close>)
    moreover have "inherits i ?s2"
      using assms(3) False pr by (auto simp: inherits_def s1(4,5) prio_order.set_ins)
    ultimately show ?thesis
      using r k2 q2 le assms(6,7) s1(6)
      by (intro exI [of _ ?s2]) (simp add: s1(3,5) min_def thread_stat_def)
  qed
qed


subsection \<open>Taking and releasing\<close>

lemma kinv_list_remove:
  assumes "kinv s" "thread_stat s t \<noteq> RT_THREAD_READY"
  shows "kinv (rt_list_remove t s)"
proof -
  note k = kinvD [OF assms(1)]
  have th: "thread_stat (rt_list_remove t s) u = thread_stat s u" for u by (simp add: thread_stat_def)
  have "timers_wf (rt_list_remove t s)"
    using timers_wf_cong [of "rt_list_remove t s" s] k(2) by (simp add: rt_tick_get_def)
  moreover have "waits_ok (rt_list_remove t s)"
    using k(3) th by (auto simp: waits_ok_def rt_list_remove_def)
  moreover have "sleepers_ok (rt_list_remove t s)" using k(4) th by (simp add: sleepers_ok_def)
  ultimately show ?thesis using sched_inv_list_remove [OF k(1) assms(2)] by (simp add: kinv_def)
qed

lemma get_mutex_priority_le:
  "foldl (\<lambda>p i. if f i < p then f i else p) p0 xs \<le> (p0 :: u8)"
  "i \<in> set xs \<Longrightarrow> foldl (\<lambda>p i. if f i < p then f i else p) p0 xs \<le> f i"
proof -
  show le: "foldl (\<lambda>p i. if f i < p then f i else p) p0 xs \<le> p0" for p0 :: u8 and xs
  proof (induction xs arbitrary: p0)
    case (Cons x xs)
    then show ?case using order_trans less_imp_le by (fastforce split: if_splits)
  qed simp
  show "i \<in> set xs \<Longrightarrow> foldl (\<lambda>p i. if f i < p then f i else p) p0 xs \<le> f i"
  proof (induction xs arbitrary: p0)
    case (Cons x xs)
    show ?case
    proof (cases "i \<in> set xs")
      case True
      then show ?thesis using Cons.IH by simp
    next
      case False
      then have "i = x" using Cons.prems by simp
      then show ?thesis using le [of "if f x < p0 then f x else p0" xs] by (auto split: if_splits)
    qed
  qed simp
qed

lemma untake_sel [simp]:
  "queues (untake i s) = queues s" "cpus (untake i s) = cpus s" "mutexes (untake i s) = mutexes s"
  "timers (untake i s) = timers s" "timer_q (untake i s) = timer_q s"
  "ready_priority_group (untake i s) = ready_priority_group s"
  "current_priority (threads (untake i s) t) = current_priority (threads s t)"
  "init_priority (threads (untake i s) t) = init_priority (threads s t)"
  "stat (threads (untake i s) t) = stat (threads s t)"
  "taken_object_list (threads (untake i s) t) = removeAll i (taken_object_list (threads s t))"
  "same_sched (threads s t) (threads (untake i s) t)"
  by (simp_all add: untake_def same_sched_def)

lemma kinv_untake: "kinv s \<Longrightarrow> kinv (untake i s)"
  by (erule kinv_frame) simp_all

lemma u8_le_max: "(x :: u8) \<le> 0xff"
proof -
  have "unat x < 2 ^ 8" using unsigned_less [of x, where 'a = nat] by simp
  then show ?thesis by (simp add: word_le_nat_alt)
qed

lemma mutex_hand_over_free:
  assumes "queues s (MutexQ i) = []"
  shows "mutex_hand_over c i s = upd_mutex i (\<lambda>m. m\<lparr>owner := None, mutex_priority := 0xff\<rparr>) s"
  using assms by (simp add: mutex_hand_over_def)

lemma mutex_hand_over_ok:
  assumes "kinv s" "queues s (MutexQ i) = nt # rest"
    "sorted (map (\<lambda>t. current_priority (threads s t)) (queues s (MutexQ i)))"
  shows "kinv (mutex_hand_over c i s)"
    "owner (mutexes (mutex_hand_over c i s) i) = Some nt" "hold (mutexes (mutex_hand_over c i s) i) = 1"
    "ceiling_priority (mutexes (mutex_hand_over c i s) i) = ceiling_priority (mutexes s i)"
    "queues (mutex_hand_over c i s) (MutexQ i) = rest"
    "awake (thread_stat (mutex_hand_over c i s) nt)" "pending_object (threads (mutex_hand_over c i s) nt) = None"
    "i \<in> set (taken_object_list (threads (mutex_hand_over c i s) nt))"
    "\<And>u. error (threads (mutex_hand_over c i s) u) = error (threads s u)"
    "\<And>u. current_priority (threads (mutex_hand_over c i s) u) = current_priority (threads s u)"
    "inherits i (mutex_hand_over c i s)"
proof -
  note h = kinv_wait_head [OF assms(1) mutex_wait_q(1) assms(2)]
  let ?a = "rt_list_remove nt s"
  let ?b = "upd_mutex i (\<lambda>m. m\<lparr>owner := Some nt, hold := 1\<rparr>) ?a"
  let ?d = "upd_thread nt (\<lambda>th. th\<lparr>taken_object_list := i # taken_object_list th, pending_object := None\<rparr>) ?b"
  let ?r = "fst (rt_thread_resume c nt ?d)"
  have e: "mutex_hand_over c i s = mutex_update_priority i ?r"
    using assms(2) by (simp add: mutex_hand_over_def Let_def)
  have kb: "kinv ?b" using kinv_list_remove [OF assms(1), of nt] h(1) by simp
  have kd: "kinv ?d" by (rule kinv_upd_thread [OF kb]) (simp add: same_sched_def)
  show "kinv (mutex_hand_over c i s)" using kinv_resume [OF kd, of c nt] by (simp add: e mutex_update_priority_def)
  have st: "thread_stat ?d nt = RT_THREAD_SUSPEND" using h(1) by (simp add: thread_stat_def)
  have thr: "threads ?r u = (if u = nt then set_stat
      (if oncpu (threads s nt) \<noteq> RT_CPU_DETACHED then RT_THREAD_RUNNING else RT_THREAD_READY)
      ((threads s nt)\<lparr>taken_object_list := i # taken_object_list (threads s nt), pending_object := None\<rparr>) else threads s u)" for u
    using st by (simp add: rt_thread_resume_def Let_def insert_thread_threads)
  have q: "queues ?r (MutexQ i) = rest"
    using rt_thread_resume_queues [OF st, of "MutexQ i" c] assms(2) h(3) by (simp add: rt_list_remove_def removeAll_id)
  have m: "mutexes ?r i = (mutexes s i)\<lparr>owner := Some nt, hold := 1\<rparr>" by (simp add: rt_list_remove_def)
  show "owner (mutexes (mutex_hand_over c i s) i) = Some nt" "hold (mutexes (mutex_hand_over c i s) i) = 1"
    "ceiling_priority (mutexes (mutex_hand_over c i s) i) = ceiling_priority (mutexes s i)"
    "queues (mutex_hand_over c i s) (MutexQ i) = rest"
    using m q by (simp_all add: e mutex_update_priority_def)
  show pr: "\<And>u. current_priority (threads (mutex_hand_over c i s) u) = current_priority (threads s u)"
    by (simp add: e mutex_update_priority_def thr)
  show "pending_object (threads (mutex_hand_over c i s) nt) = None"
    "i \<in> set (taken_object_list (threads (mutex_hand_over c i s) nt))"
    "\<And>u. error (threads (mutex_hand_over c i s) u) = error (threads s u)"
    "awake (thread_stat (mutex_hand_over c i s) nt)"
    by (simp_all add: e mutex_update_priority_def thr thread_stat_def awake_def)
  have hp: "mutex_priority (mutexes (mutex_hand_over c i s) i) = head_priority i ?r"
    by (simp add: e mutex_update_priority_def)
  have pr': "current_priority (threads ?r u) = current_priority (threads s u)" for u by (simp add: thr)
  show "inherits i (mutex_hand_over c i s)"
    unfolding inherits_def hp pr
    using q m pr' assms(2,3)
    by (cases rest) (auto simp: e mutex_update_priority_def head_priority_def u8_le_max)
qed

lemma mutex_acquire_ok:
  assumes "kinv s" "mutex_ok i s" "rt_thread_self c s = Some t" "thread_stat s t = RT_THREAD_RUNNING"
    "owner (mutexes s i) = None"
  shows "\<exists>s'. mutex_acquire c i t s = Inr s' \<and> kinv s' \<and> mutex_ok i s' \<and> inherits i s'
    \<and> owner (mutexes s' i) = Some t \<and> hold (mutexes s' i) = 1
    \<and> current_priority (threads s' t) = (if ceiling_priority (mutexes s i) \<noteq> 0xff
          then min (ceiling_priority (mutexes s i)) (current_priority (threads s t)) else current_priority (threads s t))"
proof -
  let ?m = "upd_mutex i (\<lambda>m. m\<lparr>owner := Some t, mutex_priority := 0xff, hold := 1\<rparr>) s"
  let ?ceil = "ceiling_priority (mutexes s i)"
  have km: "kinv ?m" using assms(1) by simp
  have q: "queues s (MutexQ i) = []" and ce: "?ceil = 0xff \<or> ?ceil < 32"
    using assms(2,5) by (simp_all add: mutex_ok_def)
  have max: "(x :: u8) \<le> 0xff" for x by (rule u8_le_max)
  have st: "thread_stat ?m t \<noteq> RT_THREAD_SUSPEND" using assms(4) by (simp add: thread_stat_def)
  have up: "update_priority c t ?ceil ?m = Inr (thread_change_priority c t ?ceil ?m)"
    using update_priority_plain [OF kinvD(1) [OF km], of t 1 c ?ceil] st by (simp add: numeral_2_eq_2)
  have qc: "queues (thread_change_priority c t ?ceil ?m) (MutexQ i) = []"
    using change_priority_queues [OF kinvD(1) [OF km], of "MutexQ i" c t ?ceil] q by simp
  consider "?ceil = 0xff" | "?ceil \<noteq> 0xff" "?ceil < current_priority (threads s t)"
    | "?ceil \<noteq> 0xff" "\<not> ?ceil < current_priority (threads s t)" by blast
  then show ?thesis
  proof cases
    case 1
    let ?s = "upd_thread t (\<lambda>th. th\<lparr>taken_object_list := i # taken_object_list th\<rparr>) ?m"
    have "kinv ?s" by (rule kinv_upd_thread [OF km]) (simp add: same_sched_def)
    then show ?thesis using 1 q max by (intro exI [of _ ?s]) (simp add: mutex_acquire_def Let_def mutex_ok_def inherits_def)
  next
    case 2
    then have "kinv (thread_change_priority c t ?ceil ?m)" using ce by (intro kinv_change_priority [OF km]) simp
    then show ?thesis using 2 up qc q max ce
      by (intro exI [of _ "thread_change_priority c t ?ceil ?m"])
        (simp add: mutex_acquire_def Let_def mutex_ok_def inherits_def min_absorb1 less_imp_le)
  next
    case 3
    then have "min ?ceil (current_priority (threads s t)) = current_priority (threads s t)"
      by (intro min_absorb2) (simp add: not_less)
    with 3 show ?thesis using q km max ce
      by (intro exI [of _ ?m]) (simp add: mutex_acquire_def Let_def mutex_ok_def inherits_def)
  qed
qed


lemma mutex_take_wait:
  assumes "kinv s" "mutex_ok i s" "inherits i s" "c < RT_CPUS_NR" "rt_thread_self c s = Some t"
    "thread_stat s t = RT_THREAD_RUNNING" "scheduler_available c s" "owner (mutexes s i) = Some ow" "ow \<noteq> t"
    "thread_stat s ow \<noteq> RT_THREAD_SUSPEND \<or> pending_object (threads s ow) = None"
    "timeout \<noteq> 0" "timeout_ok timeout" "rt_mutex_take c i timeout s = Inr (s', r)"
  shows "r = Blocked \<and> kinv s' \<and> mutex_ok i s' \<and> inherits i s'
    \<and> queues s' (MutexQ i) = insert_by_prio (\<lambda>u. current_priority (threads s u)) t (queues s (MutexQ i))
    \<and> thread_stat s' t = RT_THREAD_SUSPEND \<and> pending_object (threads s' t) = Some i
    \<and> owner (mutexes s' i) = Some ow \<and> hold (mutexes s' i) = hold (mutexes s i)
    \<and> current_priority (threads s' ow) = min (current_priority (threads s ow)) (current_priority (threads s t))"
proof -
  let ?e = "upd_thread t (\<lambda>th. th\<lparr>error := RT_EOK\<rparr>) s"
  have ke: "kinv ?e" by (rule kinv_upd_thread [OF assms(1)]) (simp add: same_sched_def)
  have pr: "(\<lambda>u. current_priority (threads ?e u)) = (\<lambda>u. current_priority (threads s u))" by auto
  have oke: "mutex_ok i ?e" "inherits i ?e" using assms(2,3) mutex_ok_cong [of ?e i s] by simp_all
  obtain s1 where s1: "mutex_block c i t ow ?e = Inr s1" "kinv s1" "mutex_ok i s1" "inherits i s1"
    "queues s1 (MutexQ i) = insert_by_prio (\<lambda>u. current_priority (threads s u)) t (queues s (MutexQ i))"
    "thread_stat s1 t = RT_THREAD_SUSPEND" "pending_object (threads s1 t) = Some i"
    "owner (mutexes s1 i) = Some ow" "hold (mutexes s1 i) = hold (mutexes s i)"
    "current_priority (threads s1 ow) = min (current_priority (threads s ow)) (current_priority (threads s t))"
    using mutex_block_ok [OF ke oke, of c t ow, unfolded pr] assms(5-10)
    by (auto simp: rt_thread_self_def thread_stat_def)
  obtain s2 where s2: "(if 0 < sint timeout then arm_thread_timer c t timeout s1 else Inr s1) = Inr s2" "kinv s2"
    "threads s2 = threads s1" "queues s2 = queues s1" "mutexes s2 = mutexes s1"
  proof (cases "0 < sint timeout")
    case True
    have u: "sint timeout = int (unat timeout)" using True by (intro sint_nonneg) simp
    have lt: "timeout < RT_TICK_MAX div 2"
      using assms(12) u by (simp add: timeout_ok_def RT_TICK_HALF word_less_def)
    from kinv_arm [OF s1(2,6) lt, of c] obtain sa where sa: "arm_thread_timer c t timeout s1 = Inr sa" "kinv sa"
      "threads sa = threads s1" "queues sa = queues s1" "mutexes sa = mutexes s1" by blast
    show thesis by (rule that [of sa]) (use sa True in simp_all)
  next
    case False
    show thesis by (rule that [of s1]) (use s1(2) False in simp_all)
  qed
  have r: "rt_schedule c s2 = Inr s'" "r = Blocked"
    using assms(5,7,8,9,11,13) s1(1) s2(1) by (auto simp: rt_mutex_take_def)
  note k = kinv_rt_schedule [OF s2(2) assms(4) r(1)]
  note os = only_schedD [OF k(2)]
  have pr': "current_priority (threads s' u) = current_priority (threads s2 u)"
    "pending_object (threads s' u) = pending_object (threads s2 u)" for u
    using same_user_sel(4,8) [OF os(1), of u] by simp_all
  have ok: "mutex_ok i s' = mutex_ok i s1" "inherits i s' = inherits i s1"
    using mutex_ok_cong [of s' i s1] os s2 pr' by simp_all
  have "thread_stat s2 t = RT_THREAD_SUSPEND" using s1(6) by (simp add: thread_stat_def s2(3))
  then have "thread_stat s' t = RT_THREAD_SUSPEND" using only_sched_suspended(1) [OF k(2)] by simp
  then show ?thesis using r(2) k(1) ok s1 s2 os pr' by simp
qed

subsection \<open>Calls that return\<close>

lemma preemptible_upd_thread:
  assumes "preemptible c s" "ctx_same (threads s t) (f (threads s t))" "stat (f (threads s t)) = stat (threads s t)"
  shows "preemptible c (upd_thread t f s)"
  by (rule preemptible_frame [OF assms(1)]) (use assms(2,3) in \<open>auto simp: thread_stat_def\<close>)

lemma preemptible_upd_mutex [simp]: "preemptible c (upd_mutex i f s) = preemptible c s"
  by (rule iffI; erule preemptible_frame; simp add: thread_stat_def)

lemma ctx_same_priority [simp]: "ctx_same th (with_priority p th') = ctx_same th th'"
  by (simp add: ctx_same_def scheduler_stack_check_def with_priority_def)

lemma preemptible_change_priority:
  assumes "sched_inv s" "preemptible c s"
  shows "preemptible c (thread_change_priority c t p s)"
  by (rule preemptible_frame [OF assms(2)])
    (simp_all add: change_priority_stat [OF assms(1)], simp add: thread_change_priority_def Let_def insert_thread_threads)

lemma preemptible_untake:
  assumes "preemptible c s"
  shows "preemptible c (untake i s)"
  by (rule preemptible_frame [OF assms]) (simp_all add: thread_stat_def, simp add: untake_def ctx_same_def scheduler_stack_check_def)

lemma preemptible_hand_over:
  assumes "preemptible c s"
  shows "preemptible c (mutex_hand_over c i s)"
proof (cases "queues s (MutexQ i)")
  case Nil
  then show ?thesis using assms by (simp add: mutex_hand_over_def)
next
  case (Cons nt rest)
  have "preemptible c (rt_list_remove nt s)" by (rule preemptible_frame [OF assms]) (simp_all add: thread_stat_def)
  then have "preemptible c (upd_thread nt (\<lambda>th. th\<lparr>taken_object_list := i # taken_object_list th, pending_object := None\<rparr>)
      (upd_mutex i (\<lambda>m. m\<lparr>owner := Some nt, hold := 1\<rparr>) (rt_list_remove nt s)))"
    by (intro preemptible_upd_thread) simp_all
  from preemptible_resume [OF this, of nt] Cons show ?thesis
    by (simp add: mutex_hand_over_def Let_def mutex_update_priority_def)
qed

lemma mutex_block_preemptible:
  assumes "kinv s" "preemptible c s" "rt_thread_self c s = Some t" "thread_stat s t = RT_THREAD_RUNNING"
    "mutex_block c i t ow s = Inr s'" "ow \<noteq> t"
    "thread_stat s ow \<noteq> RT_THREAD_SUSPEND \<or> pending_object (threads s ow) = None"
  shows "preemptible c s'"
proof -
  have fl: "flag_ok RT_IPC_FLAG_PRIO" by (simp add: flag_ok_def)
  obtain s1 where s1: "ipc_list_suspend c (MutexQ i) t RT_IPC_FLAG_PRIO s = Inr s1" "kinv s1"
    "threads s1 = (threads s)(t := set_stat RT_THREAD_SUSPEND (threads s t))" "mutexes s1 = mutexes s"
    "current_thread (cpus s1 c) = current_thread (cpus s c)" "irq_nest (cpus s1 c) = irq_nest (cpus s c)"
    using ipc_list_suspend_ok [OF assms(1,3,4) fl mutex_wait_q(1)] by blast
  let ?s2 = "upd_thread t (\<lambda>th. th\<lparr>pending_object := Some i\<rparr>) s1"
  let ?s3 = "upd_mutex i (\<lambda>m. m\<lparr>mutex_priority := current_priority (threads s t)\<rparr>) ?s2"
  have "preemptible c s1"
    by (rule preemptible_frame [OF assms(2) s1(5,6)]) (use assms(4) in \<open>auto simp: s1(3) thread_stat_def\<close>)
  then have p3: "preemptible c ?s3" by (simp add: preemptible_upd_thread)
  have k3: "kinv ?s3" using kinv_upd_thread [OF s1(2), of t "\<lambda>th. th\<lparr>pending_object := Some i\<rparr>"] by (simp add: same_sched_def)
  have st: "thread_stat ?s3 ow \<noteq> RT_THREAD_SUSPEND \<or> pending_object (threads ?s3 ow) = None"
    using assms(6,7) by (auto simp: thread_stat_def s1(3))
  have "update_priority c ow p ?s3 = Inr (thread_change_priority c ow p ?s3)" for p
    using update_priority_plain [OF kinvD(1) [OF k3] st, of 1 c p] by (simp add: numeral_2_eq_2)
  then show ?thesis
    using assms(5) s1(1) p3 preemptible_change_priority [OF kinvD(1) [OF k3] p3]
    by (auto simp: mutex_block_def Let_def s1(3,4) split: if_splits)
qed

text \<open>The state of the last release, before the switch.\<close>

definition restores :: "nat \<Rightarrow> tid \<Rightarrow> kernel \<Rightarrow> bool" where
  "restores i t s \<longleftrightarrow> ceiling_priority (mutexes s i) \<noteq> 0xff \<or> current_priority (threads s t) = mutex_priority (mutexes s i)"

definition released :: "cpuid \<Rightarrow> nat \<Rightarrow> tid \<Rightarrow> kernel \<Rightarrow> kernel" where
  "released c i t s =
    (let u = untake i (upd_mutex i (\<lambda>m. m\<lparr>hold := hold m - 1\<rparr>) s) in
     if restores i t s then thread_change_priority c t (thread_get_mutex_priority t u) u else u)"

lemma release_prio:
  assumes "init_priority (threads s t) < 32"
  shows "thread_get_mutex_priority t (untake i (upd_mutex i (\<lambda>m. m\<lparr>hold := hold m - 1\<rparr>) s)) = thread_get_mutex_priority t (untake i s)"
    "thread_get_mutex_priority t (untake i s) < 32"
proof -
  show "thread_get_mutex_priority t (untake i (upd_mutex i (\<lambda>m. m\<lparr>hold := hold m - 1\<rparr>) s)) = thread_get_mutex_priority t (untake i s)"
    by (simp add: thread_get_mutex_priority_def untake_def) (rule foldl_cong, simp_all)
  have "thread_get_mutex_priority t (untake i s) \<le> init_priority (threads (untake i s) t)"
    unfolding thread_get_mutex_priority_def by (rule get_mutex_priority_le(1))
  also have "\<dots> < 32" using assms by simp
  finally show "thread_get_mutex_priority t (untake i s) < 32" .
qed

lemma released_ok:
  assumes "kinv s" "init_priority (threads s t) < 32"
  shows "kinv (released c i t s)" "queues (released c i t s) (MutexQ i) = queues s (MutexQ i)"
    "mutexes (released c i t s) i = (mutexes s i)\<lparr>hold := hold (mutexes s i) - 1\<rparr>"
    "current_priority (threads (released c i t s) u)
      = (if u = t \<and> restores i t s then thread_get_mutex_priority t (untake i s) else current_priority (threads s u))"
    "error (threads (released c i t s) u) = error (threads s u)"
    "preemptible c s \<Longrightarrow> preemptible c (released c i t s)"
proof -
  let ?u = "untake i (upd_mutex i (\<lambda>m. m\<lparr>hold := hold m - 1\<rparr>) s)"
  have ku: "kinv ?u" using kinv_untake assms(1) by simp
  note gp = release_prio [OF assms(2), of i]
  show "kinv (released c i t s)" using kinv_change_priority [OF ku] ku gp by (simp add: released_def Let_def)
  show "queues (released c i t s) (MutexQ i) = queues s (MutexQ i)"
    using change_priority_queues [OF kinvD(1) [OF ku], of "MutexQ i"] by (simp add: released_def Let_def)
  show "mutexes (released c i t s) i = (mutexes s i)\<lparr>hold := hold (mutexes s i) - 1\<rparr>" by (simp add: released_def Let_def)
  show "current_priority (threads (released c i t s) u)
      = (if u = t \<and> restores i t s then thread_get_mutex_priority t (untake i s) else current_priority (threads s u))"
    using gp(1) by (auto simp: released_def Let_def)
  show "error (threads (released c i t s) u) = error (threads s u)"
    by (simp add: released_def Let_def change_priority_thread(2)) (simp add: untake_def)
  show "preemptible c (released c i t s)" if "preemptible c s"
    using preemptible_change_priority [OF kinvD(1) [OF ku]] preemptible_untake [of c "upd_mutex i (\<lambda>m. m\<lparr>hold := hold m - 1\<rparr>) s" i] that
    by (simp add: released_def Let_def)
qed

lemma mutex_release_eq:
  assumes "rt_thread_self c s = Some t" "rt_interrupt_get_nest c s = 0" "owner (mutexes s i) = Some t" "hold (mutexes s i) = 1"
    "kinv s" "init_priority (threads s t) < 32"
  shows "rt_mutex_release c i s =
    (let m = mutex_hand_over c i (released c i t s) in
     if restores i t s \<or> queues s (MutexQ i) \<noteq> [] then and_then (rt_schedule c m) (\<lambda>s. Inr (s, RT_EOK)) else Inr (m, RT_EOK))"
  using assms(1-4) released_ok(2) [OF assms(5,6), of c i]
  by (simp add: rt_mutex_release_def Let_def released_def restores_def cong: if_cong)

lemma handed_over_ok:
  assumes "kinv s" "mutex_ok i s" "owner (mutexes s i) = Some t" "hold (mutexes s i) = 1" "init_priority (threads s t) < 32"
    "m = mutex_hand_over c i (released c i t s)"
  shows "kinv m \<and> mutex_ok i m \<and> (\<forall>u. error (threads m u) = error (threads s u))
    \<and> current_priority (threads m t) = (if restores i t s then thread_get_mutex_priority t (untake i s) else current_priority (threads s t))
    \<and> (case queues s (MutexQ i) of
         [] \<Rightarrow> owner (mutexes m i) = None
       | nt # rest \<Rightarrow> owner (mutexes m i) = Some nt \<and> hold (mutexes m i) = 1 \<and> queues m (MutexQ i) = rest
           \<and> awake (thread_stat m nt) \<and> pending_object (threads m nt) = None \<and> inherits i m)"
proof -
  let ?v = "released c i t s"
  note v = released_ok [OF assms(1,5), of c i]
  have tq: "t \<notin> set (queues s (MutexQ i))" and ce: "ceiling_priority (mutexes s i) = 0xff \<or> ceiling_priority (mutexes s i) < 32"
    using assms(2,3) by (simp_all add: mutex_ok_def)
  have e: "map (\<lambda>u. current_priority (threads ?v u)) (queues s (MutexQ i)) = map (\<lambda>u. current_priority (threads s u)) (queues s (MutexQ i))"
    by (rule map_cong [OF refl]) (use tq in \<open>auto simp: v(4)\<close>)
  have sv: "sorted (map (\<lambda>u. current_priority (threads ?v u)) (queues ?v (MutexQ i)))"
    unfolding v(2) e using assms(2) by (simp add: mutex_ok_def)
  show ?thesis
  proof (cases "queues s (MutexQ i)")
    case Nil
    then show ?thesis using v ce assms(4) by (simp add: assms(6) mutex_hand_over_free mutex_ok_def)
  next
    case (Cons nt rest)
    note ho = mutex_hand_over_ok [OF v(1) v(2) [unfolded Cons] sv, of c, folded assms(6)]
    have "nt \<notin> set rest"
      using kinv_wait_head(3) [OF assms(1) mutex_wait_q(1) Cons] .
    moreover have "sorted (map (\<lambda>u. current_priority (threads ?v u)) rest)" using sv by (simp add: v(2) Cons)
    ultimately have "mutex_ok i m" using ho ce v(3) by (simp add: mutex_ok_def)
    then show ?thesis using ho Cons v by simp
  qed
qed

lemma mutex_release_last:
  assumes "kinv s" "mutex_ok i s" "c < RT_CPUS_NR" "rt_thread_self c s = Some t" "thread_stat s t = RT_THREAD_RUNNING"
    "owner (mutexes s i) = Some t" "hold (mutexes s i) = 1" "init_priority (threads s t) < 32"
    "rt_mutex_release c i s = Inr (s', e)"
  shows "e = RT_EOK \<and> kinv s' \<and> mutex_ok i s' \<and> (\<forall>u. error (threads s' u) = error (threads s u))
    \<and> current_priority (threads s' t) = (if restores i t s then thread_get_mutex_priority t (untake i s) else current_priority (threads s t))
    \<and> (case queues s (MutexQ i) of
         [] \<Rightarrow> owner (mutexes s' i) = None
       | nt # rest \<Rightarrow> owner (mutexes s' i) = Some nt \<and> hold (mutexes s' i) = 1 \<and> queues s' (MutexQ i) = rest
           \<and> awake (thread_stat s' nt) \<and> pending_object (threads s' nt) = None \<and> inherits i s')"
proof -
  let ?m = "mutex_hand_over c i (released c i t s)"
  note m = handed_over_ok [OF assms(1,2,6-8) refl, of c]
  have n: "rt_interrupt_get_nest c s = 0" using assms(9) by (auto simp: rt_mutex_release_def rt_assert_def split: if_splits)
  obtain sm where sm: "s' = sm" "e = RT_EOK" "only_sched ?m sm" "kinv sm"
    using assms(9) mutex_release_eq [OF assms(4) n assms(6,7,1,8)] kinv_rt_schedule [of ?m c] m assms(3)
    by (auto simp: Let_def split: if_splits)
  note os = only_schedD [OF sm(3)]
  have su: "current_priority (threads sm u) = current_priority (threads ?m u)"
    "pending_object (threads sm u) = pending_object (threads ?m u)" "error (threads sm u) = error (threads ?m u)" for u
    using same_user_sel(1,4,8) [OF os(1), of u] by simp_all
  have ok: "mutex_ok i sm = mutex_ok i ?m" "inherits i sm = inherits i ?m"
    using mutex_ok_cong [of sm i ?m] os su by simp_all
  show ?thesis
    using m sm(1,2,4) ok su os only_sched_suspended(2) [OF sm(3)]
    by (cases "queues s (MutexQ i)") simp_all
qed

lemma mutex_release_returns:
  assumes "kinv s" "mutex_ok i s" "preemptible c s" "rt_thread_self c s = Some t" "init_priority (threads s t) < 32"
  shows "\<exists>s' e. rt_mutex_release c i s = Inr (s', e)"
proof -
  have n: "rt_interrupt_get_nest c s = 0" using assms(3) by (simp add: preemptible_def rt_interrupt_get_nest_def)
  show ?thesis
  proof (cases "owner (mutexes s i) = Some t \<and> hold (mutexes s i) = 1")
    case True
    let ?m = "mutex_hand_over c i (released c i t s)"
    have "kinv ?m" using handed_over_ok [OF assms(1,2) _ _ assms(5) refl, of c] True by blast
    then have "\<exists>s'. rt_schedule c ?m = Inr s'"
      by (rule preemptible_schedule) (intro preemptible_hand_over released_ok(6) assms)
    then show ?thesis using mutex_release_eq [OF assms(4) n _ _ assms(1,5), of i] True by (auto simp: Let_def)
  next
    case False
    then have "owner (mutexes s i) \<noteq> Some t \<or> hold (mutexes s i) - 1 \<noteq> 0" by auto
    then show ?thesis using assms(4) n by (auto simp: rt_mutex_release_def Let_def)
  qed
qed

subsection \<open>Properties\<close>

lemma mutex_take_cases:
  assumes "kinv s" and "mutex_ok i s" and "rt_thread_self c s = Some t" and "thread_stat s t = RT_THREAD_RUNNING"
    and "rt_mutex_take c i timeout s = Inr (s', r)"
    and "case owner (mutexes s i) of None \<Rightarrow> True | Some ow \<Rightarrow> ow = t \<or> timeout = 0"
  shows "kinv s' \<and> mutex_ok i s' \<and>
    (case owner (mutexes s i) of
       None \<Rightarrow> r = Return RT_EOK \<and> owner (mutexes s' i) = Some t \<and> hold (mutexes s' i) = 1
         \<and> current_priority (threads s' t) = (if ceiling_priority (mutexes s i) \<noteq> 0xff
             then min (ceiling_priority (mutexes s i)) (current_priority (threads s t)) else current_priority (threads s t))
     | Some ow \<Rightarrow>
         if ow = t
         then if hold (mutexes s i) < 0xff
              then r = Return RT_EOK \<and> hold (mutexes s' i) = hold (mutexes s i) + 1 \<and> owner (mutexes s' i) = Some t
              else r = Return (- RT_EFULL) \<and> mutexes s' = mutexes s
         else r = Return (- RT_ETIMEOUT) \<and> mutexes s' = mutexes s \<and> queues s' = queues s)"
proof -
  let ?e = "upd_thread t (\<lambda>th. th\<lparr>error := RT_EOK\<rparr>) s"
  have ke: "kinv ?e" by (rule kinv_upd_thread [OF assms(1)]) (simp add: same_sched_def)
  have oke: "mutex_ok i ?e" using assms(2) mutex_ok_cong(1) [of ?e i s] by simp
  show ?thesis
  proof (cases "owner (mutexes s i)")
    case None
    have "\<exists>s'. mutex_acquire c i t ?e = Inr s' \<and> kinv s' \<and> mutex_ok i s' \<and> inherits i s'
      \<and> owner (mutexes s' i) = Some t \<and> hold (mutexes s' i) = 1
      \<and> current_priority (threads s' t) = (if ceiling_priority (mutexes ?e i) \<noteq> 0xff
            then min (ceiling_priority (mutexes ?e i)) (current_priority (threads ?e t)) else current_priority (threads ?e t))"
      by (rule mutex_acquire_ok [OF ke oke]) (use assms(3,4) None in \<open>simp_all add: rt_thread_self_def thread_stat_def\<close>)
    then show ?thesis using None assms(3,5) by (auto simp: rt_mutex_take_def)
  next
    case (Some ow)
    have kt: "kinv (upd_thread t (\<lambda>th. th\<lparr>error := - RT_ETIMEOUT\<rparr>) ?e)"
      by (rule kinv_upd_thread [OF ke]) (simp add: same_sched_def)
    have okt: "mutex_ok i (upd_thread t (\<lambda>th. th\<lparr>error := - RT_ETIMEOUT\<rparr>) ?e)"
      using oke mutex_ok_cong(1) [of "upd_thread t (\<lambda>th. th\<lparr>error := - RT_ETIMEOUT\<rparr>) ?e" i ?e] by simp
    have "x + 1 \<noteq> 0" if "x < 0xff" for x :: u8 using unat_inc [OF that] by auto
    then have hok: "mutex_ok i (upd_mutex i (\<lambda>m. m\<lparr>hold := hold m + 1\<rparr>) ?e)" if "hold (mutexes s i) < 0xff"
      using oke Some that by (simp add: mutex_ok_def cong: map_cong)
    show ?thesis
      using Some assms(3,5,6) ke oke kt okt hok by (auto simp: rt_mutex_take_def split: if_splits)
  qed
qed

text \<open>
  C34. \<open>rt_mutex_take\<close> when it does not wait: a free mutex gets the caller as owner with count 1, raised to
  the ceiling if there is one; the owner itself only counts, up to 255; with timeout 0 a mutex of
  another owner is refused and neither mutexes nor lists change.
\<close>

theorem mutex_take_spec:
  assumes "kinv s" and "mutex_ok i s" and "rt_thread_self c s = Some t" and "thread_stat s t = RT_THREAD_RUNNING"
    and "scheduler_available c s" and "case owner (mutexes s i) of None \<Rightarrow> True | Some ow \<Rightarrow> ow = t \<or> timeout = 0"
  shows "\<exists>s' r. rt_mutex_take c i timeout s = Inr (s', r) \<and> kinv s' \<and> mutex_ok i s' \<and>
    (case owner (mutexes s i) of
       None \<Rightarrow> r = Return RT_EOK \<and> owner (mutexes s' i) = Some t \<and> hold (mutexes s' i) = 1
         \<and> current_priority (threads s' t) = (if ceiling_priority (mutexes s i) \<noteq> 0xff
             then min (ceiling_priority (mutexes s i)) (current_priority (threads s t)) else current_priority (threads s t))
     | Some ow \<Rightarrow>
         if ow = t
         then if hold (mutexes s i) < 0xff
              then r = Return RT_EOK \<and> hold (mutexes s' i) = hold (mutexes s i) + 1 \<and> owner (mutexes s' i) = Some t
              else r = Return (- RT_EFULL) \<and> mutexes s' = mutexes s
         else r = Return (- RT_ETIMEOUT) \<and> mutexes s' = mutexes s \<and> queues s' = queues s)"
proof -
  have "\<exists>s' r. rt_mutex_take c i timeout s = Inr (s', r)"
  proof (cases "owner (mutexes s i)")
    case None
    let ?e = "upd_thread t (\<lambda>th. th\<lparr>error := RT_EOK\<rparr>) s"
    have "kinv ?e" by (rule kinv_upd_thread [OF assms(1)]) (simp add: same_sched_def)
    moreover have "mutex_ok i ?e" using assms(2) mutex_ok_cong(1) [of ?e i s] by simp
    ultimately have "\<exists>s'. mutex_acquire c i t ?e = Inr s'"
      using mutex_acquire_ok [of ?e i c t] assms(3,4) None by (auto simp: rt_thread_self_def thread_stat_def)
    then show ?thesis using None assms(3,5) by (auto simp: rt_mutex_take_def)
  next
    case (Some ow)
    then show ?thesis using assms(3,5,6) by (auto simp: rt_mutex_take_def Let_def)
  qed
  then show ?thesis using mutex_take_cases [OF assms(1-4) _ assms(6)] by blast
qed

theorem mutex_take_spec_witness:
  "\<exists>s'. rt_mutex_take 0 0 7 demo_ready = Inr (s', Return RT_EOK) \<and> owner (mutexes s' 0) = Some 4 \<and> hold (mutexes s' 0) = 1"
proof -
  have ok: "mutex_ok 0 demo_ready" and ow: "owner (mutexes demo_ready 0) = None"
    by (simp_all add: mutex_ok_def demo_ready_waits demo_ready_objects blank_kernel_def)
  from mutex_take_spec [OF demo_kinv(2) ok demo_ready_self demo_ready_sel(5) demo_ready_available, of 7] show ?thesis
    by (auto simp: ow)
qed

lemma mutex_take_blocked:
  assumes "kinv s" and "mutex_ok i s" and "inherits i s" and "c < RT_CPUS_NR" and "rt_thread_self c s = Some t"
    and "thread_stat s t = RT_THREAD_RUNNING" and "scheduler_available c s"
    and "owner (mutexes s i) = Some ow" and "ow \<noteq> t"
    and "thread_stat s ow \<noteq> RT_THREAD_SUSPEND \<or> pending_object (threads s ow) = None"
    and "timeout \<noteq> 0" and "timeout_ok timeout" and "rt_mutex_take c i timeout s = Inr (s', r)"
  shows "r = Blocked \<and> kinv s' \<and> mutex_ok i s'
    \<and> thread_stat s' t = RT_THREAD_SUSPEND \<and> pending_object (threads s' t) = Some i
    \<and> queues s' (MutexQ i) =
        takeWhile (\<lambda>u. current_priority (threads s u) \<le> current_priority (threads s t)) (queues s (MutexQ i)) @ t #
        dropWhile (\<lambda>u. current_priority (threads s u) \<le> current_priority (threads s t)) (queues s (MutexQ i))
    \<and> owner (mutexes s' i) = Some ow \<and> hold (mutexes s' i) = hold (mutexes s i)
    \<and> current_priority (threads s' ow) = min (current_priority (threads s ow)) (current_priority (threads s t))
    \<and> (\<forall>w \<in> set (queues s' (MutexQ i)). current_priority (threads s' ow) \<le> current_priority (threads s' w))"
proof -
  note w = mutex_take_wait [OF assms]
  have "sorted (map (\<lambda>u. current_priority (threads s u)) (queues s (MutexQ i)))" using assms(2) by (simp add: mutex_ok_def)
  note st = insert_by_prio_stable [OF this]
  have "current_priority (threads s' ow) \<le> current_priority (threads s' u)" if "u \<in> set (queues s' (MutexQ i))" for u
  proof -
    have "current_priority (threads s' ow) \<le> mutex_priority (mutexes s' i)"
      "mutex_priority (mutexes s' i) \<le> current_priority (threads s' u)"
      using w that unfolding inherits_def by blast+
    then show ?thesis by (rule order_trans)
  qed
  then show ?thesis using w st by simp
qed

lemma mutex_take_returns:
  assumes "kinv s" "mutex_ok i s" "inherits i s" "preemptible c s" "rt_thread_self c s = Some t"
    "thread_stat s t = RT_THREAD_RUNNING" "scheduler_available c s" "owner (mutexes s i) = Some ow" "ow \<noteq> t"
    "thread_stat s ow \<noteq> RT_THREAD_SUSPEND \<or> pending_object (threads s ow) = None" "timeout \<noteq> 0" "timeout_ok timeout"
  shows "\<exists>s' r. rt_mutex_take c i timeout s = Inr (s', r)"
proof -
  let ?e = "upd_thread t (\<lambda>th. th\<lparr>error := RT_EOK\<rparr>) s"
  have ke: "kinv ?e" by (rule kinv_upd_thread [OF assms(1)]) (simp add: same_sched_def)
  have oke: "mutex_ok i ?e" "inherits i ?e" using assms(2,3) mutex_ok_cong [of ?e i s] by simp_all
  have se: "rt_thread_self c ?e = Some t" "thread_stat ?e t = RT_THREAD_RUNNING"
    using assms(5,6) by (simp_all add: rt_thread_self_def thread_stat_def)
  obtain s1 where s1: "mutex_block c i t ow ?e = Inr s1" "kinv s1" "thread_stat s1 t = RT_THREAD_SUSPEND"
    using mutex_block_ok [OF ke oke se, of ow] assms(8-10) by (auto simp: thread_stat_def)
  have "preemptible c s1" by (rule mutex_block_preemptible [OF ke preemptible_upd_error [OF assms(4)] se s1(1)]) (use assms(9,10) in \<open>auto simp: thread_stat_def\<close>)
  from arm_schedule_returns [OF s1(2) this s1(3) assms(12)] s1(1) show ?thesis
    using assms(5,7-9,11) by (auto simp: rt_mutex_take_def Let_def)
qed

text \<open>
  C5. Priority inheritance: a thread that waits for a mutex goes behind the waiters of its own and better
  priority, and the owner runs at the better of the two priorities from then on; in particular no
  waiter is more urgent than the owner. The owner must not itself be waiting for a mutex.
\<close>

theorem mutex_take_inherits:
  assumes "kinv s" and "mutex_ok i s" and "inherits i s" and "preemptible c s" and "rt_thread_self c s = Some t"
    and "thread_stat s t = RT_THREAD_RUNNING" and "scheduler_available c s"
    and "owner (mutexes s i) = Some ow" and "ow \<noteq> t"
    and "thread_stat s ow \<noteq> RT_THREAD_SUSPEND \<or> pending_object (threads s ow) = None"
    and "timeout \<noteq> 0" and "timeout_ok timeout"
  shows "\<exists>s'. rt_mutex_take c i timeout s = Inr (s', Blocked) \<and> kinv s' \<and> mutex_ok i s'
    \<and> thread_stat s' t = RT_THREAD_SUSPEND \<and> pending_object (threads s' t) = Some i
    \<and> queues s' (MutexQ i) =
        takeWhile (\<lambda>u. current_priority (threads s u) \<le> current_priority (threads s t)) (queues s (MutexQ i)) @ t #
        dropWhile (\<lambda>u. current_priority (threads s u) \<le> current_priority (threads s t)) (queues s (MutexQ i))
    \<and> owner (mutexes s' i) = Some ow \<and> hold (mutexes s' i) = hold (mutexes s i)
    \<and> current_priority (threads s' ow) = min (current_priority (threads s ow)) (current_priority (threads s t))
    \<and> (\<forall>w \<in> set (queues s' (MutexQ i)). current_priority (threads s' ow) \<le> current_priority (threads s' w))"
proof -
  have c: "c < RT_CPUS_NR" using assms(4) by (simp add: preemptible_def)
  show ?thesis using mutex_take_returns [OF assms] mutex_take_blocked [OF assms(1-3) c assms(5-12)] by blast
qed

text \<open>The example system where thread 3, of priority 20, owns mutex 0.\<close>

definition demo_owned :: kernel where
  "demo_owned = upd_mutex 0 (\<lambda>m. m\<lparr>owner := Some 3, hold := 1\<rparr>) (thread_change_priority 0 3 20 demo_ready)"

lemma demo_owned_ok:
  "kinv demo_owned" "mutex_ok 0 demo_owned" "inherits 0 demo_owned" "rt_thread_self 0 demo_owned = Some 4"
  "thread_stat demo_owned 4 = RT_THREAD_RUNNING" "scheduler_available 0 demo_owned" "owner (mutexes demo_owned 0) = Some 3"
  "hold (mutexes demo_owned 0) = 1" "queues demo_owned (MutexQ 0) = []"
  "current_priority (threads demo_owned 4) = 10" "current_priority (threads demo_owned 3) = 20"
  "pending_object (threads demo_owned 3) = None" "thread_stat demo_owned 3 = RT_THREAD_SUSPEND"
proof -
  have si: "sched_inv demo_ready" using demo_kinv(2) by (rule kinvD)
  have q: "queues (thread_change_priority 0 3 20 demo_ready) (MutexQ 0) = []"
    using change_priority_queues [OF si, of "MutexQ 0"] demo_ready_waits by simp
  show "kinv demo_owned" by (simp add: demo_owned_def kinv_change_priority demo_kinv)
  show "mutex_ok 0 demo_owned" "inherits 0 demo_owned" "owner (mutexes demo_owned 0) = Some 3"
    "hold (mutexes demo_owned 0) = 1" "queues demo_owned (MutexQ 0) = []"
    using q by (simp_all add: demo_owned_def mutex_ok_def inherits_def demo_ready_objects blank_kernel_def u8_le_max)
  show "rt_thread_self 0 demo_owned = Some 4" "thread_stat demo_owned 4 = RT_THREAD_RUNNING" "scheduler_available 0 demo_owned"
    "current_priority (threads demo_owned 4) = 10" "current_priority (threads demo_owned 3) = 20"
    "pending_object (threads demo_owned 3) = None" "thread_stat demo_owned 3 = RT_THREAD_SUSPEND"
    by code_simp+
qed

theorem mutex_take_inherits_witness:
  "\<exists>s'. rt_mutex_take 0 0 (- 1) demo_owned = Inr (s', Blocked) \<and> current_priority (threads s' 3) = 10
    \<and> queues s' (MutexQ 0) = [4]"
proof -
  have m: "min 20 (10 :: u8) = 10" by simp
  have to: "timeout_ok (- 1)" by (simp add: timeout_ok_def)
  have p: "preemptible 0 demo_owned"
    using preemptible_change_priority [OF kinvD(1) [OF demo_kinv(2)] demo_preemptible] by (simp add: demo_owned_def)
  from mutex_take_inherits [OF demo_owned_ok(1-3) p demo_owned_ok(4-7) _ _ _ to] show ?thesis
    by (auto simp: demo_owned_ok m)
qed

lemma mutex_release_cases:
  assumes "kinv s" and "mutex_ok i s" and "c < RT_CPUS_NR" and "rt_thread_self c s = Some t"
    and "thread_stat s t = RT_THREAD_RUNNING" and "init_priority (threads s t) < 32"
    and "rt_mutex_release c i s = Inr (s', e)"
  shows "kinv s' \<and> mutex_ok i s' \<and>
    (if owner (mutexes s i) \<noteq> Some t then e = - RT_ERROR \<and> mutexes s' = mutexes s \<and> queues s' = queues s
     else e = RT_EOK \<and>
      (if hold (mutexes s i) \<noteq> 1
       then owner (mutexes s' i) = Some t \<and> unat (hold (mutexes s' i)) + 1 = unat (hold (mutexes s i)) \<and> queues s' = queues s
       else case queues s (MutexQ i) of
          [] \<Rightarrow> owner (mutexes s' i) = None \<and> hold (mutexes s' i) = 0
        | nt # rest \<Rightarrow> owner (mutexes s' i) = Some nt \<and> hold (mutexes s' i) = 1 \<and> queues s' (MutexQ i) = rest
            \<and> awake (thread_stat s' nt) \<and> pending_object (threads s' nt) = None \<and> inherits i s'))"
proof -
  consider "owner (mutexes s i) \<noteq> Some t" | "owner (mutexes s i) = Some t" "hold (mutexes s i) \<noteq> 1"
    | "owner (mutexes s i) = Some t" "hold (mutexes s i) = 1" by blast
  then show ?thesis
  proof cases
    case 1
    let ?e = "upd_thread t (\<lambda>th. th\<lparr>error := - RT_ERROR\<rparr>) s"
    have "kinv ?e" by (rule kinv_upd_thread [OF assms(1)]) (simp add: same_sched_def)
    moreover have "mutex_ok i ?e" using assms(2) mutex_ok_cong(1) [of ?e i s] by simp
    ultimately show ?thesis using 1 assms(4,7) by (auto simp: rt_mutex_release_def)
  next
    case 2
    let ?m = "upd_mutex i (\<lambda>m. m\<lparr>hold := hold m - 1\<rparr>) s"
    have h: "hold (mutexes s i) \<noteq> 0" using 2 assms(2) by (simp add: mutex_ok_def)
    then have u: "unat (hold (mutexes s i) - 1) + 1 = unat (hold (mutexes s i))"
      using unat_minus_one [OF h] by (simp add: unat_gt_0)
    have z: "hold (mutexes s i) - 1 \<noteq> 0" using 2(2) by (simp add: right_minus_eq)
    have "mutex_ok i ?m" using assms(2) 2 z by (simp add: mutex_ok_def)
    then show ?thesis using 2 z u assms(1,4,7) by (auto simp: rt_mutex_release_def Let_def)
  next
    case 3
    note r = mutex_release_last [OF assms(1-5) 3 assms(6,7)]
    then show ?thesis using 3 by (cases "queues s (MutexQ i)") (auto simp: mutex_ok_def)
  qed
qed

text \<open>
  C17. \<open>rt_mutex_release\<close>, on every branch: only the owner may release, anybody else gets \<open>RT_ERROR\<close> and no
  mutex or list changes; an inner release only counts down; the last one hands the mutex with count
  1 to the first waiter, which becomes ready and no longer waits, or frees the mutex when nobody
  waits.
\<close>

theorem mutex_release_spec:
  assumes "kinv s" and "mutex_ok i s" and "preemptible c s" and "rt_thread_self c s = Some t"
    and "thread_stat s t = RT_THREAD_RUNNING" and "init_priority (threads s t) < 32"
  shows "\<exists>s' e. rt_mutex_release c i s = Inr (s', e) \<and> kinv s' \<and> mutex_ok i s' \<and>
    (if owner (mutexes s i) \<noteq> Some t then e = - RT_ERROR \<and> mutexes s' = mutexes s \<and> queues s' = queues s
     else e = RT_EOK \<and>
      (if hold (mutexes s i) \<noteq> 1
       then owner (mutexes s' i) = Some t \<and> unat (hold (mutexes s' i)) + 1 = unat (hold (mutexes s i)) \<and> queues s' = queues s
       else case queues s (MutexQ i) of
          [] \<Rightarrow> owner (mutexes s' i) = None \<and> hold (mutexes s' i) = 0
        | nt # rest \<Rightarrow> owner (mutexes s' i) = Some nt \<and> hold (mutexes s' i) = 1 \<and> queues s' (MutexQ i) = rest
            \<and> awake (thread_stat s' nt) \<and> pending_object (threads s' nt) = None \<and> inherits i s'))"
proof -
  have c: "c < RT_CPUS_NR" using assms(3) by (simp add: preemptible_def)
  show ?thesis using mutex_release_returns [OF assms(1-4,6)] mutex_release_cases [OF assms(1,2) c assms(4-6)] by blast
qed

text \<open>Thread 4 owns mutex 0, thread 3 waits for it, and thread 4 has inherited its priority 7.\<close>

definition demo_lent :: kernel where
  "demo_lent = upd_mutex 0 (\<lambda>m. m\<lparr>owner := Some 4, hold := 1, mutex_priority := 7\<rparr>)
     (upd_thread 4 (\<lambda>th. th\<lparr>taken_object_list := [0]\<rparr>)
       (thread_change_priority 0 4 7 (wait_insert (order_of RT_IPC_FLAG_PRIO) (MutexQ 0) 3 demo_ready)))"

lemma demo_lent_waiting: "kinv (wait_insert (order_of RT_IPC_FLAG_PRIO) (MutexQ 0) 3 demo_ready)"
proof -
  have ul: "\<not> linked demo_ready 3"
    using demo_running_sel(1) insert_thread_queues [of demo_running 2 0] demo_running_sel(4)
    by (auto simp: linked_def demo_ready_def)
  show ?thesis
    by (rule flag_order.kinv_ins [OF demo_kinv(2) ul mutex_wait_q(1)])
      (simp add: thread_stat_def demo_ready_threads demo_running_def demo_thread_def stat_defs)
qed

lemma demo_lent_ok:
  "kinv demo_lent" "mutex_ok 0 demo_lent" "rt_thread_self 0 demo_lent = Some 4"
  "thread_stat demo_lent 4 = RT_THREAD_RUNNING" "init_priority (threads demo_lent 4) = 10"
  "owner (mutexes demo_lent 0) = Some 4" "hold (mutexes demo_lent 0) = 1" "queues demo_lent (MutexQ 0) = [3]"
  "ceiling_priority (mutexes demo_lent 0) = 0xff" "current_priority (threads demo_lent 4) = 7"
  "mutex_priority (mutexes demo_lent 0) = 7" "taken_object_list (threads demo_lent 4) = [0]"
proof -
  note kw = demo_lent_waiting
  have kc: "kinv (thread_change_priority 0 4 7 (wait_insert (order_of RT_IPC_FLAG_PRIO) (MutexQ 0) 3 demo_ready))"
    by (rule kinv_change_priority [OF kw]) simp
  show "kinv demo_lent" using kinv_upd_thread [OF kc, of 4 "\<lambda>th. th\<lparr>taken_object_list := [0]\<rparr>"]
    by (simp add: demo_lent_def same_sched_def)
  show "mutex_ok 0 demo_lent" "rt_thread_self 0 demo_lent = Some 4"
    "thread_stat demo_lent 4 = RT_THREAD_RUNNING" "init_priority (threads demo_lent 4) = 10"
    "owner (mutexes demo_lent 0) = Some 4" "hold (mutexes demo_lent 0) = 1" "queues demo_lent (MutexQ 0) = [3]"
    "ceiling_priority (mutexes demo_lent 0) = 0xff" "current_priority (threads demo_lent 4) = 7"
    "mutex_priority (mutexes demo_lent 0) = 7" "taken_object_list (threads demo_lent 4) = [0]"
    by code_simp+
qed

lemma demo_lent_preemptible: "preemptible 0 demo_lent"
proof -
  have "preemptible 0 (wait_insert (order_of RT_IPC_FLAG_PRIO) (MutexQ 0) 3 demo_ready)"
    by (rule preemptible_frame [OF demo_preemptible]) (simp_all add: wait_insert_def thread_stat_def)
  moreover have "sched_inv (wait_insert (order_of RT_IPC_FLAG_PRIO) (MutexQ 0) 3 demo_ready)"
    using demo_lent_waiting by (rule kinvD)
  ultimately show ?thesis using preemptible_change_priority [of _ 0 4 7]
    by (simp add: demo_lent_def preemptible_upd_thread)
qed

theorem mutex_release_spec_witness:
  "\<exists>s'. rt_mutex_release 0 0 demo_lent = Inr (s', RT_EOK) \<and> owner (mutexes s' 0) = Some 3
    \<and> awake (thread_stat s' 3) \<and> queues s' (MutexQ 0) = []"
  using mutex_release_spec [OF demo_lent_ok(1,2) demo_lent_preemptible demo_lent_ok(3,4)] by (auto simp: demo_lent_ok)



text \<open>
  Inheritance does not follow a chain: when the owner itself is suspended waiting for another mutex, a
  more urgent thread that takes the mutex does not pass its priority on. \<open>_thread_update_priority\<close>
  suspends the owner a second time, from a thread that is not the owner, and the assertion of
  \<open>rt_thread_suspend\<close> fails.
\<close>

theorem mutex_chain_asserts:
  assumes "kinv s" and "c < RT_CPUS_NR" and "rt_thread_self c s = Some t" and "thread_stat s t = RT_THREAD_RUNNING"
    and "scheduler_available c s" and "owner (mutexes s i) = Some ow"
    and "ow \<noteq> t" and "thread_stat s ow = RT_THREAD_SUSPEND" and "pending_object (threads s ow) = Some j"
    and "current_priority (threads s t) < current_priority (threads s ow)"
    and "current_priority (threads s t) < mutex_priority (mutexes s i)" and "timeout \<noteq> 0"
  shows "rt_mutex_take c i timeout s = Inl AssertFail"
proof -
  let ?p = "current_priority (threads s t)"
  let ?e = "upd_thread t (\<lambda>th. th\<lparr>error := RT_EOK\<rparr>) s"
  have ke: "kinv ?e" by (rule kinv_upd_thread [OF assms(1)]) (simp add: same_sched_def)
  have fl: "flag_ok RT_IPC_FLAG_PRIO" by (simp add: flag_ok_def)
  have se: "rt_thread_self c ?e = Some t" "thread_stat ?e t = RT_THREAD_RUNNING"
    using assms(3,4) by (simp_all add: rt_thread_self_def thread_stat_def)
  obtain s1 where s1: "ipc_list_suspend c (MutexQ i) t RT_IPC_FLAG_PRIO ?e = Inr s1" "kinv s1"
    "threads s1 = (threads ?e)(t := set_stat RT_THREAD_SUSPEND (threads ?e t))" "mutexes s1 = mutexes s"
    "\<And>c. current_thread (cpus s1 c) = current_thread (cpus s c)"
    using ipc_list_suspend_ok [OF ke se fl mutex_wait_q(1), of i] by auto
  let ?s2 = "upd_thread t (\<lambda>th. th\<lparr>pending_object := Some i\<rparr>) s1"
  let ?s3 = "upd_mutex i (\<lambda>m. m\<lparr>mutex_priority := ?p\<rparr>) ?s2"
  have "kinv ?s2" by (rule kinv_upd_thread [OF s1(2)]) (simp add: same_sched_def)
  then have k3: "kinv ?s3" by simp
  have "update_priority c ow ?p ?s3 = Inl AssertFail"
    using update_priority_waiting [OF kinvD(1) [OF k3], of ow j c 1 ?p] assms(3,7-9) s1(5)
    by (auto simp: s1(3) thread_stat_def rt_thread_self_def numeral_2_eq_2)
  then have "mutex_block c i t ow ?e = Inl AssertFail"
    using s1(1) assms(7,10,11) by (simp add: mutex_block_def Let_def s1(3,4))
  then show ?thesis using assms(3,5-7,12) by (simp add: rt_mutex_take_def Let_def)
qed

definition demo_chain :: kernel where
  "demo_chain = upd_thread 3 (\<lambda>th. th\<lparr>pending_object := Some 9\<rparr>) demo_owned"

theorem mutex_chain_asserts_witness:
  "rt_mutex_take 0 0 50 demo_chain = Inl AssertFail"
proof -
  have k: "kinv demo_chain"
    unfolding demo_chain_def by (rule kinv_upd_thread [OF demo_owned_ok(1)]) (simp add: same_sched_def)
  have "rt_thread_self 0 demo_chain = Some 4" "thread_stat demo_chain 4 = RT_THREAD_RUNNING" "scheduler_available 0 demo_chain"
    "owner (mutexes demo_chain 0) = Some 3" "thread_stat demo_chain 3 = RT_THREAD_SUSPEND"
    "pending_object (threads demo_chain 3) = Some 9"
    "current_priority (threads demo_chain 4) < current_priority (threads demo_chain 3)"
    "current_priority (threads demo_chain 4) < mutex_priority (mutexes demo_chain 0)"
    by code_simp+
  from mutex_chain_asserts [OF k _ this(1-4) _ this(5-8), of 50] show ?thesis by simp
qed

text \<open>
  A thread whose wait timed out, and which has not run yet, reads the priority of the owner when it
  runs again. If the owner has released the mutex for the last time in between, and nobody else
  waited, the owner is null: \<open>rt_mutex_take\<close> dereferences a null pointer.
\<close>

theorem mutex_timeout_null_owner:
  assumes "kinv s" and "mutex_ok i s" and "c < RT_CPUS_NR" and "rt_thread_self c s = Some ow"
    and "thread_stat s ow = RT_THREAD_RUNNING" and "owner (mutexes s i) = Some ow" and "hold (mutexes s i) = 1"
    and "init_priority (threads s ow) < 32" and "queues s (MutexQ i) = []"
    and "error (threads s t) = - RT_ETIMEOUT" and "rt_mutex_release c i s = Inr (s', e)"
  shows "rt_mutex_take_cont c' i t s' = Inl NullDeref"
  using mutex_release_last [OF assms(1-8,11)] assms(9,10) by (simp add: rt_mutex_take_cont_def mutex_waiter_gone_def)

definition demo_late :: kernel where
  "demo_late = upd_mutex 0 (\<lambda>m. m\<lparr>owner := Some 4, hold := 1\<rparr>)
     (upd_thread 2 (\<lambda>th. th\<lparr>error := - RT_ETIMEOUT\<rparr>) demo_ready)"

theorem mutex_timeout_null_owner_witness:
  "\<exists>s' e. rt_mutex_release 0 0 demo_late = Inr (s', e) \<and> rt_mutex_take_cont 1 0 2 s' = Inl NullDeref"
proof -
  have k: "kinv demo_late"
    using kinv_upd_thread [OF demo_kinv(2), of 2 "\<lambda>th. th\<lparr>error := - RT_ETIMEOUT\<rparr>"]
    by (simp add: demo_late_def same_sched_def)
  have "case rt_mutex_release 0 0 demo_late of Inl e \<Rightarrow> False | Inr _ \<Rightarrow> True" by code_simp
  then obtain s' e where r: "rt_mutex_release 0 0 demo_late = Inr (s', e)" by (auto split: sum.splits)
  have "mutex_ok 0 demo_late" "rt_thread_self 0 demo_late = Some 4" "thread_stat demo_late 4 = RT_THREAD_RUNNING"
    "owner (mutexes demo_late 0) = Some 4" "hold (mutexes demo_late 0) = 1" "init_priority (threads demo_late 4) < 32"
    "queues demo_late (MutexQ 0) = []" "error (threads demo_late 2) = - RT_ETIMEOUT"
    by code_simp+
  from mutex_timeout_null_owner [OF k this(1) _ this(2-8) r, of 1] r show ?thesis by auto
qed

end
