(* ===== verification/Rt_Close.thy ===== *)
theory Rt_Close
  imports Rt_Sem Rt_Mutex Rt_Wait
begin

unbundle bit_operations_syntax

text \<open>
  The end of a thread: \<open>_thread_exit\<close>, \<open>rt_thread_detach\<close>, \<open>rt_thread_delete\<close> and \<open>rt_thread_control\<close> of
  \<open>src/thread.c\<close>, and the list of defunct threads of \<open>src/idle.c\<close>, which the system thread empties when
  the semaphore \<open>system_sem\<close> tells it to. A closed thread is out of every list but the defunct one and
  its timer is stopped, so nothing can wake or schedule it.
\<close>

text \<open>The static semaphore \<open>system_sem\<close> has a number like any other.\<close>

definition system_sem :: nat where "system_sem = 0"

definition rt_thread_defunct_enqueue :: "cpuid \<Rightarrow> tid \<Rightarrow> kernel \<Rightarrow> kernel res" where
  "rt_thread_defunct_enqueue c t s =
     and_then (rt_sem_release c system_sem (rt_list_insert_after Defunct t s)) (\<lambda>(s, _). Inr s)"

definition rt_thread_defunct_dequeue :: "kernel \<Rightarrow> kernel \<times> tid option" where
  "rt_thread_defunct_dequeue s = (case queues s Defunct of [] \<Rightarrow> (s, None) | t # _ \<Rightarrow> (rt_list_remove t s, Some t))"

text \<open>
  \<open>rt_defunct_execute\<close> empties the list; \<open>cleanup\<close> stands for the clean-up function of the thread and the
  release of its memory.
\<close>

fun rt_defunct_execute :: "nat \<Rightarrow> (tid \<Rightarrow> kernel \<Rightarrow> kernel res) \<Rightarrow> kernel \<Rightarrow> kernel res" where
  "rt_defunct_execute 0 cleanup s = Inl Hang"
| "rt_defunct_execute (Suc fuel) cleanup s =
    (case rt_thread_defunct_dequeue s of (s, None) \<Rightarrow> Inr s
     | (s, Some t) \<Rightarrow> and_then (cleanup t s) (\<lambda>s. rt_defunct_execute fuel cleanup s))"

text \<open>
  Both ends of a thread run \<open>rt_thread_defunct_enqueue\<close> inside \<open>rt_hw_interrupt_disable\<close>, and the release of
  the semaphore there may already switch to the system thread, for the scheduler only looks at its own
  nesting count. The caller then leaves the core with the lock counted twice, and gives it back when it
  runs again: \<open>unlock_if_running\<close> is the end of the section when no switch took place.
\<close>

definition unlock_if_running :: "cpuid \<Rightarrow> tid option \<Rightarrow> kernel \<Rightarrow> kernel" where
  "unlock_if_running c self s = (if rt_thread_self c s = self then rt_cpus_unlock c s else s)"

text \<open>\<open>_thread_exit\<close>. When the semaphore has already switched to another thread, the rest never runs.\<close>

definition thread_exit :: "cpuid \<Rightarrow> kernel \<Rightarrow> kernel res" where
  "thread_exit c s = (case rt_thread_self c s of None \<Rightarrow> Inl NullDeref
    | Some t \<Rightarrow>
       let s = rt_cpus_lock c s;
           s = rt_schedule_remove_thread t s;
           s = rt_timer_detach (ThreadTimer t) s;
           s = upd_thread t (\<lambda>th. th\<lparr>stat := RT_THREAD_CLOSE\<rparr>) s
       in and_then (rt_thread_defunct_enqueue c t s) (\<lambda>s.
            if rt_thread_self c s = Some t then rt_schedule c (rt_cpus_unlock c s) else Inr s))"

text \<open>
  What \<open>rt_thread_detach\<close> and \<open>rt_thread_delete\<close> have in common. The number in the result is what the call
  returns, at once or when the caller runs again.
\<close>

definition thread_close :: "cpuid \<Rightarrow> tid \<Rightarrow> kernel \<Rightarrow> (kernel \<times> int) res" where
  "thread_close c t s =
    (if thread_stat s t = RT_THREAD_CLOSE then Inr (s, RT_EOK)
     else
       let self = rt_thread_self c s;
           s = (if thread_stat s t \<noteq> RT_THREAD_INIT then rt_schedule_remove_thread t s else s);
           s = rt_cpus_lock c s;
           s = rt_timer_detach (ThreadTimer t) s;
           s = upd_thread t (\<lambda>th. th\<lparr>stat := RT_THREAD_CLOSE\<rparr>) s
       in and_then (case pending_object (threads s t) of None \<Rightarrow> Inr s
             | Some m \<Rightarrow> and_then (rt_mutex_drop_thread c m t s) (\<lambda>s.
                 Inr (upd_thread t (\<lambda>th. th\<lparr>pending_object := None\<rparr>) s))) (\<lambda>s.
          and_then (rt_thread_defunct_enqueue c t s) (\<lambda>s.
            Inr (unlock_if_running c self s, RT_EOK))))"

text \<open>\<open>is_system\<close> is the result of \<open>rt_object_is_systemobject\<close> for the thread.\<close>

definition rt_thread_detach :: "bool \<Rightarrow> cpuid \<Rightarrow> tid \<Rightarrow> kernel \<Rightarrow> (kernel \<times> int) res" where
  "rt_thread_detach is_system c t s = rt_assert is_system (thread_close c t s)"

definition rt_thread_delete :: "bool \<Rightarrow> cpuid \<Rightarrow> tid \<Rightarrow> kernel \<Rightarrow> (kernel \<times> int) res" where
  "rt_thread_delete is_system c t s = rt_assert (\<not> is_system) (thread_close c t s)"

text \<open>
  After \<open>RT_THREAD_CTRL_CLOSE\<close> the caller calls the scheduler, if the close has not switched to another
  thread already; otherwise that call is part of its next run.
\<close>

datatype thread_cmd = CTRL_CHANGE_PRIORITY u8 | CTRL_STARTUP | CTRL_CLOSE | CTRL_BIND_CPU u8 | CTRL_OTHER

definition rt_thread_control :: "bool \<Rightarrow> cpuid \<Rightarrow> tid \<Rightarrow> thread_cmd \<Rightarrow> kernel \<Rightarrow> (kernel \<times> int) res" where
  "rt_thread_control is_system c t cmd s =
    (case cmd of
       CTRL_CHANGE_PRIORITY p \<Rightarrow> Inr (thread_change_priority c t p s, RT_EOK)
     | CTRL_STARTUP \<Rightarrow> and_then (rt_thread_startup c t s) (\<lambda>s. Inr (s, RT_EOK))
     | CTRL_CLOSE \<Rightarrow>
         let self = rt_thread_self c s in
         and_then (if is_system then rt_thread_detach is_system c t s else rt_thread_delete is_system c t s) (\<lambda>(s, e).
           if rt_thread_self c s = self then and_then (rt_schedule c s) (\<lambda>s. Inr (s, e)) else Inr (s, e))
     | CTRL_BIND_CPU cpu \<Rightarrow> Inr (thread_bind_cpu t cpu s)
     | CTRL_OTHER \<Rightarrow> Inr (s, RT_EOK))"

subsection \<open>Closing a thread\<close>

definition closed :: "tid \<Rightarrow> kernel \<Rightarrow> kernel" where
  "closed t s = upd_thread t (\<lambda>th. th\<lparr>stat := RT_THREAD_CLOSE\<rparr>)
     (rt_timer_detach (ThreadTimer t) (rt_schedule_remove_thread t s))"

lemma close_stat [simp]: "RT_THREAD_CLOSE AND RT_THREAD_STAT_MASK = RT_THREAD_CLOSE" "\<not> awake RT_THREAD_CLOSE"
  by (simp_all add: stat_defs awake_def)

lemma closed_sel [simp]:
  "threads (closed t s) = (threads s)(t := (threads s t)\<lparr>stat := RT_THREAD_CLOSE\<rparr>)"
  "queues (closed t s) = (\<lambda>q. removeAll t (queues s q))" "thread_stat (closed t s) t = RT_THREAD_CLOSE"
  "current_thread (cpus (closed t s) c) = current_thread (cpus s c)" "tick (cpus (closed t s) c) = tick (cpus s c)"
  by (simp_all add: closed_def thread_stat_def)

lemma kinv_closed:
  assumes "kinv s" "started (thread_stat s t)"
  shows "kinv (closed t s)"
proof -
  note k = kinvD [OF assms(1)]
  let ?r = "upd_thread t (\<lambda>th. th\<lparr>stat := RT_THREAD_CLOSE\<rparr>) (rt_schedule_remove_thread t s)"
  have p: "prio_ok (threads s t)" using sched_inv_started [OF k(1)] assms(2) by simp
  have r: "sched_inv ?r" by (rule sched_inv_stop_thread [OF k(1) p]) (simp_all add: stat_defs)
  have "sched_inv (closed t s)" by (rule sched_inv_frame [OF r]) (simp_all add: closed_def)
  moreover have "timers_wf (closed t s)"
  proof -
    have "timers_wf ?r" using timers_wf_cong [of ?r s] k(2) by (simp add: rt_tick_get_def)
    from timers_wf_deactivate [OF this, of "ThreadTimer t"] show ?thesis
      by (subst timers_wf_cong [of _ "upd_timer (ThreadTimer t) deactivate (timer_remove (ThreadTimer t) ?r)"])
        (simp_all add: closed_def rt_timer_detach_def timer_remove_def rt_tick_get_def)
  qed
  moreover have "waits_ok (closed t s)"
    using k(3) by (auto simp: waits_ok_def thread_stat_def)
  moreover have "sleepers_ok (closed t s)"
  proof -
    have "timer_q (closed t s) HardTimers = removeAll (ThreadTimer t) (timer_q s HardTimers)"
      by (simp add: closed_def rt_timer_detach_def timer_remove_def)
    then show ?thesis using k(4) by (auto simp: sleepers_ok_def thread_stat_def)
  qed
  ultimately show ?thesis by (simp add: kinv_def)
qed

lemma kinv_defunct:
  assumes "kinv s" "\<not> linked s t" "\<not> awake (thread_stat s t)"
  shows "kinv (rt_list_insert_after Defunct t s)"
proof -
  note k = kinvD [OF assms(1)]
  let ?s = "rt_list_insert_after Defunct t s"
  have e: "?s = wait_insert (\<lambda>prio t xs. t # xs) Defunct t s"
    by (simp add: wait_insert_def rt_list_insert_after_def)
  have th: "thread_stat ?s u = thread_stat s u" for u by (simp add: thread_stat_def rt_list_insert_after_def)
  have "sched_inv ?s" unfolding e by (rule lifo_order.wait_sched_inv [OF k(1) assms(2) _ assms(3)]) simp
  moreover have "timers_wf ?s" using timers_wf_cong [of ?s s] k(2) by (simp add: rt_list_insert_after_def rt_tick_get_def)
  moreover have "waits_ok ?s"
    using k(3) th by (auto simp: waits_ok_def) (auto simp: rt_list_insert_after_def is_wait_q_def split: if_splits)
  moreover have "sleepers_ok ?s" using k(4) th by (simp add: sleepers_ok_def) (simp add: rt_list_insert_after_def)
  ultimately show ?thesis by (simp add: kinv_def)
qed

lemma defunct_enqueue_ok:
  assumes "kinv s" "c < RT_CPUS_NR" "\<not> linked s t" "\<not> awake (thread_stat s t)"
    "rt_thread_defunct_enqueue c t s = Inr s'"
  shows "kinv s'" "thread_stat s' t = thread_stat s t" "queues s' Defunct = t # queues s Defunct"
proof -
  let ?s = "rt_list_insert_after Defunct t s"
  have k: "kinv ?s" by (rule kinv_defunct [OF assms(1,3,4)])
  have st: "thread_stat ?s t = thread_stat s t" by (simp add: thread_stat_def rt_list_insert_after_def)
  have d: "queues ?s Defunct = t # queues s Defunct" by (simp add: rt_list_insert_after_def)
  have nq: "t \<notin> set (queues ?s (SemQ system_sem))"
    using assms(3) by (simp add: linked_def rt_list_insert_after_def)
  show "kinv s'" "thread_stat s' t = thread_stat s t" "queues s' Defunct = t # queues s Defunct"
  proof -
    have "kinv s' \<and> thread_stat s' t = thread_stat s t \<and> queues s' Defunct = t # queues s Defunct"
    proof (cases "queues ?s (SemQ system_sem)")
      case Nil
      then have "s' = ?s \<or> (\<exists>f. s' = upd_sem system_sem f ?s)"
        using assms(5) by (auto simp: rt_thread_defunct_enqueue_def rt_sem_release_def rt_list_isempty_def split: if_splits)
      then show ?thesis using k d st by (auto simp: thread_stat_def)
    next
      case (Cons u us)
      then have w: "ipc_wake c (SemQ system_sem) ?s = Inr s'"
        using assms(5) by (auto simp: rt_thread_defunct_enqueue_def rt_sem_release_def ipc_wake_def rt_list_isempty_def)
      note wk = ipc_wake_ok [OF k assms(2) sem_wait_q(1) w]
      show ?thesis using wk(1) wk(3) [of Defunct] wk(6) [of t] assms(4) st nq d by simp
    qed
    then show "kinv s'" "thread_stat s' t = thread_stat s t" "queues s' Defunct = t # queues s Defunct" by auto
  qed
qed

lemma remove_upd_thread:
  assumes "\<And>th. same_sched th (f th)"
  shows "rt_schedule_remove_thread t (upd_thread u f s) = upd_thread u f (rt_schedule_remove_thread t s)"
proof -
  have f: "bind_cpu (f th) = bind_cpu th" "current_priority (f th) = current_priority th" "number_mask (f th) = number_mask th" for th
    using assms [of th] by (simp_all add: same_sched_def)
  show ?thesis by (simp add: rt_schedule_remove_thread_def rt_list_remove_def rt_list_isempty_def Let_def upd_defs f)
qed

lemma remove_lock: "rt_schedule_remove_thread t (rt_cpus_lock c s) = rt_cpus_lock c (rt_schedule_remove_thread t s)"
  by (cases "current_thread (cpus s c)") (simp_all add: rt_cpus_lock_def remove_upd_thread same_sched_def)

lemma kinv_lock: "kinv s \<Longrightarrow> kinv (rt_cpus_lock c s)" "kinv s \<Longrightarrow> kinv (rt_cpus_unlock c s)"
proof -
  assume k: "kinv s"
  have "sched_inv (rt_cpus_lock c s)" "sched_inv (rt_cpus_unlock c s)" using kinvD(1) [OF k] by auto
  then show "kinv (rt_cpus_lock c s)" "kinv (rt_cpus_unlock c s)" using kinv_only_sched [OF k] only_sched_lock by blast+
qed

lemma lock_stat [simp]:
  "thread_stat (rt_cpus_lock c s) t = thread_stat s t" "thread_stat (rt_cpus_unlock c s) t = thread_stat s t"
  "pending_object (threads (rt_cpus_lock c s) t) = pending_object (threads s t)"
  by (auto simp: thread_stat_def rt_cpus_lock_def rt_cpus_unlock_def split: option.split)

lemma unlock_if_running_ok:
  "kinv s \<Longrightarrow> kinv (unlock_if_running c self s)" "thread_stat (unlock_if_running c self s) t = thread_stat s t"
  "queues (unlock_if_running c self s) = queues s" "timer_q (unlock_if_running c self s) = timer_q s"
  by (auto simp: unlock_if_running_def intro: kinv_lock)

lemma thread_close_started:
  assumes "started (thread_stat s t)" "pending_object (threads s t) = None"
  shows "thread_close c t s = and_then (rt_thread_defunct_enqueue c t (closed t (rt_cpus_lock c s)))
    (\<lambda>s'. Inr (unlock_if_running c (rt_thread_self c s) s', RT_EOK))"
proof -
  have "thread_stat s t \<noteq> RT_THREAD_CLOSE" "thread_stat s t \<noteq> RT_THREAD_INIT"
    using assms(1) by (auto simp: started_def stat_defs)
  then show ?thesis using assms(2) by (simp add: thread_close_def closed_def Let_def remove_lock)
qed

lemma thread_close_ok:
  assumes "kinv s" "c < RT_CPUS_NR" "started (thread_stat s t)" "pending_object (threads s t) = None"
    "thread_close c t s = Inr (s', e)"
  shows "e = RT_EOK" "kinv s'" "thread_stat s' t = RT_THREAD_CLOSE" "queues s' Defunct = t # removeAll t (queues s Defunct)"
proof -
  let ?s = "closed t (rt_cpus_lock c s)"
  obtain s1 where q: "rt_thread_defunct_enqueue c t ?s = Inr s1" "s' = unlock_if_running c (rt_thread_self c s) s1" "e = RT_EOK"
    using assms(5) thread_close_started [OF assms(3,4)] by auto
  have ul: "\<not> linked ?s t" by (simp add: linked_def)
  have k: "kinv ?s" by (rule kinv_closed) (use kinv_lock [OF assms(1)] assms(3) in simp_all)
  note d = defunct_enqueue_ok [OF k assms(2) ul _ q(1)]
  show "e = RT_EOK" "kinv s'" "thread_stat s' t = RT_THREAD_CLOSE" "queues s' Defunct = t # removeAll t (queues s Defunct)"
    using d q(2,3) unlock_if_running_ok by simp_all
qed

lemma live_closed:
  "current_thread (cpus (closed t (rt_cpus_lock c s)) c') = current_thread (cpus s c')"
  "irq_nest (cpus (closed t (rt_cpus_lock c s)) c') = irq_nest (cpus s c')"
  "stacks_ok s \<Longrightarrow> stacks_ok (closed t (rt_cpus_lock c s))"
proof -
  have f: "scheduler_stack_check (th\<lparr>stat := x\<rparr>) = scheduler_stack_check th" for th x by (simp add: scheduler_stack_check_def)
  show "stacks_ok s \<Longrightarrow> stacks_ok (closed t (rt_cpus_lock c s))"
    by (simp add: stacks_ok_def closed_def rt_timer_detach_def rt_schedule_remove_thread_def rt_list_remove_def Let_def f)
qed (simp_all add: closed_def rt_timer_detach_def rt_schedule_remove_thread_def rt_list_remove_def Let_def)

lemma resume_live:
  "current_thread (cpus (fst (rt_thread_resume c t s)) c') = current_thread (cpus s c')"
  "irq_nest (cpus (fst (rt_thread_resume c t s)) c') = irq_nest (cpus s c')"
  "stacks_ok s \<Longrightarrow> stacks_ok (fst (rt_thread_resume c t s))"
proof -
  have f: "scheduler_stack_check (set_stat x th) = scheduler_stack_check th" for th x
    using ctx_same_simps(2) [of th x th] by (simp add: ctx_same_def)
  show "stacks_ok s \<Longrightarrow> stacks_ok (fst (rt_thread_resume c t s))"
    by (simp add: rt_thread_resume_def Let_def stacks_ok_def insert_thread_threads f)
qed (simp_all add: rt_thread_resume_def Let_def)

lemma defunct_enqueue_returns:
  assumes "kinv s" "c < RT_CPUS_NR" "\<not> linked s t" "\<not> awake (thread_stat s t)"
    "irq_nest (cpus s c) \<noteq> 0 \<or> current_thread (cpus s c) \<noteq> None \<and> stacks_ok s"
  shows "\<exists>s'. rt_thread_defunct_enqueue c t s = Inr s'"
proof -
  let ?s = "rt_list_insert_after Defunct t s"
  have k: "kinv ?s" by (rule kinv_defunct [OF assms(1,3,4)])
  have l: "irq_nest (cpus ?s c) \<noteq> 0 \<or> current_thread (cpus ?s c) \<noteq> None \<and> stacks_ok ?s"
    using assms(5) by (simp add: rt_list_insert_after_def stacks_ok_def)
  have "\<exists>s'. rt_schedule c (fst (rt_thread_resume c u ?s)) = Inr s'" for u
    using rt_schedule_total [OF kinvD(1) [OF kinv_resume [OF k]] assms(2)] rt_schedule_in_irq [of "fst (rt_thread_resume c u ?s)" c] l
    by (auto simp: resume_live)
  then show ?thesis
    by (cases "queues ?s (SemQ system_sem)")
      (auto simp: rt_thread_defunct_enqueue_def rt_sem_release_def rt_list_isempty_def ipc_list_resume_def)
qed

lemma thread_delete_cases:
  assumes "kinv s" and "c < RT_CPUS_NR" and "started (thread_stat s t)" and "pending_object (threads s t) = None"
    and "rt_thread_delete False c t s = Inr (s', e)"
  shows "e = RT_EOK \<and> kinv s' \<and> thread_stat s' t = RT_THREAD_CLOSE
    \<and> queues s' Defunct = t # removeAll t (queues s Defunct) \<and> (\<forall>q. q \<noteq> Defunct \<longrightarrow> t \<notin> set (queues s' q))
    \<and> ThreadTimer t \<notin> set (timer_q s' HardTimers)
    \<and> rt_thread_resume c' t s' = (s', - RT_ERROR) \<and> rt_thread_delete False c' t s' = Inr (s', RT_EOK)"
proof -
  have "thread_close c t s = Inr (s', e)" using assms(5) by (simp add: rt_thread_delete_def rt_assert_def)
  note r = thread_close_ok [OF assms(1-4) this]
  note k = kinvD [OF r(2)]
  have "t \<in> set (queues s' Defunct)" using r(4) by simp
  then have "\<forall>q. q \<noteq> Defunct \<longrightarrow> t \<notin> set (queues s' q)" using sched_invD(4) [OF k(1)] unfolding queues_wf_def by blast
  moreover have "ThreadTimer t \<notin> set (timer_q s' HardTimers)"
    using k(4) r(3) by (auto simp: sleepers_ok_def stat_defs)
  moreover have "rt_thread_resume c' t s' = (s', - RT_ERROR)" using r(3) by (simp add: rt_thread_resume_def stat_defs)
  moreover have "rt_thread_delete False c' t s' = Inr (s', RT_EOK)"
    using r(3) by (simp add: rt_thread_delete_def rt_assert_def thread_close_def)
  ultimately show ?thesis using r by simp
qed

text \<open>
  C32. \<open>rt_thread_delete\<close> of a thread that was started, does not wait for a mutex and has not kept \<open>pending_object\<close> from a wait
  for one that timed out (see \<open>thread_delete_after_timeout\<close>), retires it for good: the call returns \<open>RT_EOK\<close>, in a
  thread with intact stacks around and in an interrupt, and
  keeps the kernel invariant, the thread is closed and stands first among the defunct threads, it is in no
  other list and its timer is stopped, and neither \<open>rt_thread_resume\<close> nor a second \<open>rt_thread_delete\<close>
  changes anything.
\<close>

theorem thread_delete_retires:
  assumes "kinv s" and "c < RT_CPUS_NR" and "started (thread_stat s t)" and "pending_object (threads s t) = None"
    and "irq_nest (cpus s c) \<noteq> 0 \<or> current_thread (cpus s c) \<noteq> None \<and> stacks_ok s"
  shows "\<exists>s' e. rt_thread_delete False c t s = Inr (s', e) \<and> e = RT_EOK \<and> kinv s' \<and> thread_stat s' t = RT_THREAD_CLOSE
    \<and> queues s' Defunct = t # removeAll t (queues s Defunct) \<and> (\<forall>q. q \<noteq> Defunct \<longrightarrow> t \<notin> set (queues s' q))
    \<and> ThreadTimer t \<notin> set (timer_q s' HardTimers)
    \<and> rt_thread_resume c' t s' = (s', - RT_ERROR) \<and> rt_thread_delete False c' t s' = Inr (s', RT_EOK)"
proof -
  let ?s = "closed t (rt_cpus_lock c s)"
  have ul: "\<not> linked ?s t" "\<not> awake (thread_stat ?s t)" by (simp_all add: linked_def)
  have k: "kinv ?s" by (rule kinv_closed) (use kinv_lock [OF assms(1)] assms(3) in simp_all)
  have "\<exists>s'. rt_thread_defunct_enqueue c t ?s = Inr s'"
    by (rule defunct_enqueue_returns [OF k assms(2) ul]) (use assms(5) live_closed in auto)
  then have "\<exists>s' e. rt_thread_delete False c t s = Inr (s', e)"
    using thread_close_started [OF assms(3,4), of c] by (auto simp: rt_thread_delete_def rt_assert_def)
  then show ?thesis using thread_delete_cases [OF assms(1-4)] by blast
qed

theorem thread_delete_retires_witness:
  "\<exists>s' e. rt_thread_delete False 0 2 demo_ready = Inr (s', e) \<and> thread_stat s' 2 = RT_THREAD_CLOSE
    \<and> queues s' Defunct = [2] \<and> rt_thread_resume 1 2 s' = (s', - RT_ERROR)"
proof -
  have "started (thread_stat demo_ready 2)" "pending_object (threads demo_ready 2) = None" "queues demo_ready Defunct = []"
    by code_simp+
  with thread_delete_retires [OF demo_kinv(2) _ this(1,2), of 0 1] demo_preemptible show ?thesis
    by (auto simp: preemptible_def)
qed

lemma suspend_pending:
  assumes "ipc_list_suspend c q t flag s = Inr s'"
  shows "pending_object (threads s' u) = pending_object (threads s u)"
  using assms by (auto simp: ipc_list_suspend_def rt_thread_suspend_def wait_insert_def Let_def split: if_splits sum.splits option.splits)

lemma update_priority_pending:
  "thread_update_priority fuel c t p s = Inr s' \<Longrightarrow> pending_object (threads s' u) = pending_object (threads s u)"
proof (induction fuel arbitrary: t p s)
  case (Suc fuel)
  let ?s = "thread_change_priority c t p s"
  show ?case
  proof (cases "thread_stat ?s t = RT_THREAD_SUSPEND \<and> pending_object (threads s t) \<noteq> None")
    case True
    then obtain m where m: "pending_object (threads s t) = Some m" by auto
    then obtain s1 where s1: "ipc_list_suspend c (MutexQ m) t RT_IPC_FLAG_PRIO (rt_list_remove t ?s) = Inr s1"
      using Suc.prems True by (auto simp: Let_def)
    note p = suspend_pending [OF s1, of u]
    show ?thesis using Suc.prems True m s1 p
      by (auto simp: Let_def mutex_update_priority_def split: option.splits if_splits dest!: Suc.IH)
  next
    case False
    then show ?thesis using Suc.prems by (auto simp: Let_def split: if_splits)
  qed
qed simp

text \<open>
  A wait for a mutex that ends by timeout leaves \<open>pending_object\<close> of the thread pointing to the mutex.
  If the mutex is free when the thread is deleted later, \<open>rt_thread_delete\<close> takes the thread for a waiter,
  calls \<open>rt_mutex_drop_thread\<close>, and that reads the priority of a null owner.
\<close>

theorem thread_delete_after_timeout:
  assumes "pending_object (threads s t) = Some i" and "error (threads s t) = - RT_ETIMEOUT"
    and "rt_mutex_take_cont c i t s = Inr (s1, e)"
    and "pending_object (threads s2 t) = pending_object (threads s1 t)"
    and "thread_stat s2 t \<noteq> RT_THREAD_CLOSE" and "owner (mutexes s2 i) = None"
  shows "rt_thread_delete False c' t s2 = Inl NullDeref"
proof -
  have "mutex_waiter_gone c i t s = Inr s1" using assms(2,3) by (auto simp: rt_mutex_take_cont_def)
  then have "pending_object (threads s1 t) = pending_object (threads s t)"
    by (auto simp: mutex_waiter_gone_def mutex_update_priority_def Let_def split: if_splits option.splits dest!: update_priority_pending [of _ _ _ _ _ _ t])
  then have p: "pending_object (threads s2 t) = Some i" using assms(1,4) by simp
  have "owner (mutexes (rt_cpus_lock c' s) i) = owner (mutexes s i)" for s
    by (simp add: rt_cpus_lock_def split: option.split)
  then show ?thesis using p assms(5,6)
    by (simp add: rt_thread_delete_def rt_assert_def thread_close_def rt_mutex_drop_thread_def mutex_waiter_gone_def Let_def rt_list_remove_def)
qed

text \<open>Thread 2 ran into its timeout while thread 4 owned mutex 0, and is deleted after the release.\<close>

definition demo_stale :: kernel where
  "demo_stale = upd_thread 2 (\<lambda>th. th\<lparr>pending_object := Some 0\<rparr>) demo_late"

theorem thread_delete_after_timeout_witness:
  "\<exists>s1 e s2 e'. rt_mutex_take_cont 1 0 2 demo_stale = Inr (s1, e) \<and> rt_mutex_release 0 0 s1 = Inr (s2, e')
    \<and> rt_thread_delete False 0 2 s2 = Inl NullDeref"
proof -
  have d: "case rt_mutex_take_cont 1 0 2 demo_stale of Inl e \<Rightarrow> False | Inr (s1, e) \<Rightarrow>
      case rt_mutex_release 0 0 s1 of Inl e \<Rightarrow> False | Inr (s2, e') \<Rightarrow>
        pending_object (threads s2 2) = pending_object (threads s1 2) \<and> thread_stat s2 2 \<noteq> RT_THREAD_CLOSE
        \<and> owner (mutexes s2 0) = None"
    by code_simp
  then obtain s1 e s2 e' where r: "rt_mutex_take_cont 1 0 2 demo_stale = Inr (s1, e)" "rt_mutex_release 0 0 s1 = Inr (s2, e')"
    "pending_object (threads s2 2) = pending_object (threads s1 2)" "thread_stat s2 2 \<noteq> RT_THREAD_CLOSE"
    "owner (mutexes s2 0) = None" by (auto split: sum.splits prod.splits)
  have "pending_object (threads demo_stale 2) = Some 0" "error (threads demo_stale 2) = - RT_ETIMEOUT" by code_simp+
  from thread_delete_after_timeout [OF this r(1,3-5), of 0] r(1,2) show ?thesis by blast
qed

subsection \<open>Emptying the defunct list\<close>

text \<open>Each thread of the list once, in its order, unlinked and then cleaned up.\<close>

fun reap :: "(tid \<Rightarrow> kernel \<Rightarrow> kernel res) \<Rightarrow> tid list \<Rightarrow> kernel \<Rightarrow> kernel res" where
  "reap cleanup [] s = Inr s"
| "reap cleanup (t # ts) s = and_then (cleanup t (rt_list_remove t s)) (reap cleanup ts)"

lemma defunct_execute_reap:
  assumes c: "\<And>t s s'. cleanup t s = Inr s' \<Longrightarrow> queues s' Defunct = queues s Defunct"
  shows "distinct (queues s Defunct) \<Longrightarrow> length (queues s Defunct) < fuel
    \<Longrightarrow> rt_defunct_execute fuel cleanup s = reap cleanup (queues s Defunct) s"
proof (induction fuel arbitrary: s)
  case (Suc fuel)
  show ?case
  proof (cases "queues s Defunct")
    case (Cons t ts)
    let ?r = "rt_list_remove t s"
    have r: "queues ?r Defunct = ts" using Cons Suc.prems(1) by (simp add: rt_list_remove_def removeAll_id)
    show ?thesis
    proof (cases "cleanup t ?r")
      case (Inr s1)
      then have "queues s1 Defunct = ts" using c [OF Inr] r by simp
      then show ?thesis using Suc.IH [of s1] Suc.prems Cons Inr by (simp add: rt_thread_defunct_dequeue_def)
    qed (use Cons in \<open>simp add: rt_thread_defunct_dequeue_def\<close>)
  qed (simp add: rt_thread_defunct_dequeue_def)
qed simp

lemma reap_empties:
  assumes "\<And>t s s'. cleanup t s = Inr s' \<Longrightarrow> queues s' Defunct = queues s Defunct"
  shows "distinct (queues s Defunct) \<Longrightarrow> reap cleanup (queues s Defunct) s = Inr s' \<Longrightarrow> queues s' Defunct = []"
proof (induction "queues s Defunct" arbitrary: s)
  case (Cons t ts)
  let ?r = "rt_list_remove t s"
  have r: "queues ?r Defunct = ts" using Cons.hyps(2) [symmetric] Cons.prems(1) by (simp add: rt_list_remove_def removeAll_id)
  obtain s1 where s1: "cleanup t ?r = Inr s1" "reap cleanup ts s1 = Inr s'"
    using Cons.prems(2) Cons.hyps(2) [symmetric] by auto
  have q: "queues s1 Defunct = ts" using assms [OF s1(1)] r by simp
  have "distinct ts" using Cons.prems(1) Cons.hyps(2) [symmetric] by simp
  then show ?case using Cons.hyps(1) [of s1] q s1(2) by simp
qed simp

text \<open>
  The loop of \<open>rt_defunct_execute\<close> ends after one turn for each defunct thread: with fuel for that many
  turns and the final test it cleans up exactly the listed threads, in order, each after it was unlinked,
  stops at the first clean-up that fails, and leaves the list empty, for any clean-up function that does not
  close further threads.
\<close>

theorem defunct_execute_terminates:
  assumes "kinv s" and "\<And>t s s'. cleanup t s = Inr s' \<Longrightarrow> queues s' Defunct = queues s Defunct"
    and "length (queues s Defunct) < fuel"
  shows "rt_defunct_execute fuel cleanup s = reap cleanup (queues s Defunct) s
    \<and> (\<forall>s'. rt_defunct_execute fuel cleanup s = Inr s' \<longrightarrow> queues s' Defunct = [])"
proof -
  have d: "distinct (queues s Defunct)"
    using sched_invD(4) [OF kinvD(1) [OF assms(1)]] unfolding queues_wf_def by blast
  show ?thesis using defunct_execute_reap [of cleanup s, OF assms(2) d assms(3)] reap_empties [of cleanup s, OF assms(2) d] by auto
qed

theorem defunct_execute_terminates_witness:
  "\<exists>s' e s''. rt_thread_delete False 0 2 demo_ready = Inr (s', e)
    \<and> rt_defunct_execute 2 (\<lambda>t s. Inr (upd_thread t (\<lambda>th. th\<lparr>error := 0\<rparr>) s)) s' = Inr s'' \<and> queues s'' Defunct = []"
proof -
  have "case rt_thread_delete False 0 2 demo_ready of Inl e \<Rightarrow> False | Inr (s, _) \<Rightarrow> queues s Defunct = [2]" by code_simp
  then obtain s' e where r: "rt_thread_delete False 0 2 demo_ready = Inr (s', e)" "queues s' Defunct = [2]"
    by (auto split: sum.splits)
  have "started (thread_stat demo_ready 2)" "pending_object (threads demo_ready 2) = None" by code_simp+
  moreover have "thread_close 0 2 demo_ready = Inr (s', e)" using r(1) by (simp add: rt_thread_delete_def rt_assert_def)
  ultimately have "kinv s'" using thread_close_ok(2) [OF demo_kinv(2), of 0 2 s' e] by simp
  from defunct_execute_terminates [OF this, of "\<lambda>t s. Inr (upd_thread t (\<lambda>th. th\<lparr>error := 0\<rparr>) s)" 2] r
  show ?thesis by auto
qed

end
