(* ===== verification/Rt_Smem.thy ===== *)
theory Rt_Smem
  imports Rt_Prelude
begin

unbundle bit_operations_syntax

text \<open>
  The system heap, \<open>src/mem.c\<close> (\<open>RT_USING_SMALL_MEM_AS_HEAP\<close>): one region cut into blocks, each a header
  of 64 bytes (the structure rounded up to \<open>RT_ALIGN_SIZE\<close>) and its payload, the headers linked in both
  directions by offsets from \<open>heap_ptr\<close>. Allocation is first fit from the lowest free block \<open>lfree\<close>;
  freeing merges a block with its free neighbours.

  Headers are a store from offsets to header records, the payload a store from offsets to bytes.
  Pointers into the region are offsets from \<open>heap_ptr\<close>, the null pointer is \<open>None\<close>; all sizes and offsets
  are 32-bit words, as in the source. The specification is a list of blocks, each its length with the
  header and whether it is in use: \<open>rt_smem_alloc\<close> refines first fit on that list, and \<open>rt_smem_free\<close> the
  merging of free neighbours.
\<close>

record rt_small_mem_item =
  pool_ptr :: u32
  item_next :: u32
  item_prev :: u32

record rt_small_mem =
  smem_addr :: u32
  heap_ptr :: u32
  heap_end :: u32
  lfree :: u32
  mem_size_aligned :: u32
  smem_total :: u32
  smem_used :: u32
  smem_max :: u32
  smem_items :: "nat \<Rightarrow> rt_small_mem_item"
  smem_bytes :: "nat \<Rightarrow> u8"

subsection \<open>Headers\<close>

definition MIN_SIZE :: u32 where "MIN_SIZE = 12"
definition MIN_SIZE_ALIGNED :: u32 where "MIN_SIZE_ALIGNED = RT_ALIGN MIN_SIZE 64"
definition SIZEOF_STRUCT_MEM :: u32 where "SIZEOF_STRUCT_MEM = RT_ALIGN 12 64"
definition MEM_MASK :: u32 where "MEM_MASK = 0xfffffffe"

text \<open>\<open>sizeof(struct rt_small_mem)\<close> on the 32-bit target: an object of 24 bytes and nine words.\<close>

definition SIZEOF_SMALL_MEM :: u32 where "SIZEOF_SMALL_MEM = 60"

definition MEM_USED :: "rt_small_mem \<Rightarrow> u32" where "MEM_USED m = (smem_addr m AND MEM_MASK) OR 1"
definition MEM_FREED :: "rt_small_mem \<Rightarrow> u32" where "MEM_FREED m = (smem_addr m AND MEM_MASK) OR 0"
definition MEM_ISUSED :: "rt_small_mem_item \<Rightarrow> bool" where "MEM_ISUSED it \<longleftrightarrow> pool_ptr it AND NOT MEM_MASK \<noteq> 0"
definition MEM_POOL :: "rt_small_mem_item \<Rightarrow> u32" where "MEM_POOL it = pool_ptr it AND MEM_MASK"

definition smem_item :: "rt_small_mem \<Rightarrow> u32 \<Rightarrow> rt_small_mem_item" where
  "smem_item m p = smem_items m (unat p)"

definition upd_item :: "u32 \<Rightarrow> (rt_small_mem_item \<Rightarrow> rt_small_mem_item) \<Rightarrow> rt_small_mem \<Rightarrow> rt_small_mem" where
  "upd_item p f m = m\<lparr>smem_items := (smem_items m)(unat p := f (smem_items m (unat p)))\<rparr>"

subsection \<open>Set-up\<close>

text \<open>\<open>items\<close> and \<open>bytes\<close> are what the region holds before.\<close>

definition rt_smem_init ::
  "u32 \<Rightarrow> u32 \<Rightarrow> (nat \<Rightarrow> rt_small_mem_item) \<Rightarrow> (nat \<Rightarrow> u8) \<Rightarrow> rt_small_mem option" where
  "rt_smem_init begin_addr sz items bytes =
    (let small_mem = RT_ALIGN begin_addr 64;
         start_addr = small_mem + SIZEOF_SMALL_MEM;
         begin_align = RT_ALIGN start_addr 64;
         end_align = RT_ALIGN_DOWN (begin_addr + sz) 64
     in if 2 * SIZEOF_STRUCT_MEM < end_align \<and> start_addr \<le> end_align - 2 * SIZEOF_STRUCT_MEM
        then
          let mem_size = end_align - begin_align - 2 * SIZEOF_STRUCT_MEM;
              m = \<lparr>smem_addr = small_mem, heap_ptr = begin_align, heap_end = 0, lfree = 0,
                   mem_size_aligned = mem_size, smem_total = mem_size, smem_used = 0, smem_max = 0,
                   smem_items = items, smem_bytes = bytes\<rparr>;
              m = upd_item 0 (\<lambda>it. it\<lparr>pool_ptr := MEM_FREED m, item_next := mem_size + SIZEOF_STRUCT_MEM,
                                     item_prev := 0\<rparr>) m;
              m = m\<lparr>heap_end := item_next (smem_item m 0)\<rparr>;
              m = upd_item (heap_end m) (\<lambda>it. it\<lparr>pool_ptr := MEM_USED m, item_next := mem_size + SIZEOF_STRUCT_MEM,
                                     item_prev := mem_size + SIZEOF_STRUCT_MEM\<rparr>) m
          in Some (m\<lparr>lfree := 0\<rparr>)
        else None)"

subsection \<open>Merging neighbours\<close>

definition plug_next :: "u32 \<Rightarrow> rt_small_mem \<Rightarrow> rt_small_mem" where
  "plug_next mem m =
    (let nmem = item_next (smem_item m mem) in
     if mem \<noteq> nmem \<and> \<not> MEM_ISUSED (smem_item m nmem) \<and> nmem \<noteq> heap_end m
     then
       let m = (if lfree m = nmem then m\<lparr>lfree := mem\<rparr> else m);
           m = upd_item nmem (\<lambda>it. it\<lparr>pool_ptr := 0\<rparr>) m;
           m = upd_item mem (\<lambda>it. it\<lparr>item_next := item_next (smem_item m nmem)\<rparr>) m
       in upd_item (item_next (smem_item m nmem)) (\<lambda>it. it\<lparr>item_prev := mem\<rparr>) m
     else m)"

definition plug_prev :: "u32 \<Rightarrow> rt_small_mem \<Rightarrow> rt_small_mem" where
  "plug_prev mem m =
    (let pmem = item_prev (smem_item m mem) in
     if pmem \<noteq> mem \<and> \<not> MEM_ISUSED (smem_item m pmem)
     then
       let m = (if lfree m = mem then m\<lparr>lfree := pmem\<rparr> else m);
           m = upd_item mem (\<lambda>it. it\<lparr>pool_ptr := 0\<rparr>) m;
           m = upd_item pmem (\<lambda>it. it\<lparr>item_next := item_next (smem_item m mem)\<rparr>) m
       in upd_item (item_next (smem_item m mem)) (\<lambda>it. it\<lparr>item_prev := pmem\<rparr>) m
     else m)"

definition plug_holes :: "u32 \<Rightarrow> rt_small_mem \<Rightarrow> rt_small_mem res" where
  "plug_holes mem m = rt_assert (mem < heap_end m) (Inr (plug_prev mem (plug_next mem m)))"

subsection \<open>Allocation\<close>

text \<open>
  The two loops along the blocks. Each turn goes to a block further on, so one turn per 64 bytes of the
  region is fuel enough; a chain that does not end is a hang.
\<close>

fun smem_find :: "nat \<Rightarrow> u32 \<Rightarrow> u32 \<Rightarrow> rt_small_mem \<Rightarrow> u32 option res" where
  "smem_find 0 sz ptr m = Inl Hang"
| "smem_find (Suc fuel) sz ptr m =
    (if ptr \<le> mem_size_aligned m - sz
     then if \<not> MEM_ISUSED (smem_item m ptr) \<and> sz \<le> item_next (smem_item m ptr) - (ptr + SIZEOF_STRUCT_MEM)
          then Inr (Some ptr)
          else smem_find fuel sz (item_next (smem_item m ptr)) m
     else Inr None)"

fun smem_skip :: "nat \<Rightarrow> rt_small_mem \<Rightarrow> rt_small_mem res" where
  "smem_skip 0 m = Inl Hang"
| "smem_skip (Suc fuel) m =
    (if MEM_ISUSED (smem_item m (lfree m)) \<and> lfree m \<noteq> heap_end m
     then smem_skip fuel (m\<lparr>lfree := item_next (smem_item m (lfree m))\<rparr>)
     else Inr m)"

definition smem_fuel :: "rt_small_mem \<Rightarrow> nat" where
  "smem_fuel m = unat (mem_size_aligned m) div 64 + 3"

definition smem_account :: "u32 \<Rightarrow> rt_small_mem \<Rightarrow> rt_small_mem" where
  "smem_account n m =
    (let m = m\<lparr>smem_used := smem_used m + n\<rparr> in
     if smem_max m < smem_used m then m\<lparr>smem_max := smem_used m\<rparr> else m)"

text \<open>The new block behind \<open>ptr\<close>, of what \<open>sz\<close> bytes leave of it; shared by allocation and reallocation.\<close>

definition smem_cut :: "u32 \<Rightarrow> u32 \<Rightarrow> rt_small_mem \<Rightarrow> rt_small_mem" where
  "smem_cut ptr sz m =
    (let ptr2 = ptr + SIZEOF_STRUCT_MEM + sz;
         m = upd_item ptr2 (\<lambda>it. it\<lparr>pool_ptr := MEM_FREED m, item_next := item_next (smem_item m ptr), item_prev := ptr\<rparr>) m;
         m = upd_item ptr (\<lambda>it. it\<lparr>item_next := ptr2\<rparr>) m;
         nx = item_next (smem_item m ptr2)
     in if nx \<noteq> mem_size_aligned m + SIZEOF_STRUCT_MEM then upd_item nx (\<lambda>it. it\<lparr>item_prev := ptr2\<rparr>) m else m)"

definition smem_carve :: "u32 \<Rightarrow> u32 \<Rightarrow> rt_small_mem \<Rightarrow> rt_small_mem" where
  "smem_carve ptr sz m =
    (if sz + SIZEOF_STRUCT_MEM + MIN_SIZE_ALIGNED \<le> item_next (smem_item m ptr) - (ptr + SIZEOF_STRUCT_MEM)
     then smem_account (sz + SIZEOF_STRUCT_MEM) (smem_cut ptr sz m)
     else smem_account (item_next (smem_item m ptr) - ptr) m)"

text \<open>The lowest free block moves on when it was taken.\<close>

definition smem_advance :: "u32 \<Rightarrow> rt_small_mem \<Rightarrow> rt_small_mem res" where
  "smem_advance ptr m =
    (if ptr = lfree m
     then and_then (smem_skip (smem_fuel m) m) (\<lambda>m.
       rt_assert (lfree m = heap_end m \<or> \<not> MEM_ISUSED (smem_item m (lfree m))) (Inr m))
     else Inr m)"

definition rt_smem_alloc :: "u32 \<Rightarrow> rt_small_mem \<Rightarrow> (rt_small_mem \<times> u32 option) res" where
  "rt_smem_alloc sz m =
    (if sz = 0 then Inr (m, None)
     else
       let sz = RT_ALIGN sz 64;
           sz = (if sz < MIN_SIZE_ALIGNED then MIN_SIZE_ALIGNED else sz)
       in if mem_size_aligned m < sz then Inr (m, None)
          else and_then (smem_find (smem_fuel m) sz (lfree m) m) (\<lambda>found.
            case found of None \<Rightarrow> Inr (m, None)
            | Some ptr \<Rightarrow>
               let m = smem_carve ptr sz m;
                   m = upd_item ptr (\<lambda>it. it\<lparr>pool_ptr := MEM_USED m\<rparr>) m
               in and_then (smem_advance ptr m) (\<lambda>m.
                  rt_assert (heap_ptr m + ptr + SIZEOF_STRUCT_MEM + sz \<le> heap_ptr m + heap_end m)
                  (rt_assert ((heap_ptr m + ptr + SIZEOF_STRUCT_MEM) mod 64 = 0)
                  (rt_assert ((heap_ptr m + ptr) AND (64 - 1) = 0)
                   (Inr (m, Some (ptr + SIZEOF_STRUCT_MEM))))))))"

subsection \<open>Release\<close>

text \<open>A header that names another heap is not of this region.\<close>

definition rt_smem_free :: "u32 option \<Rightarrow> rt_small_mem \<Rightarrow> rt_small_mem res" where
  "rt_smem_free rmem m = (case rmem of None \<Rightarrow> Inr m
    | Some r \<Rightarrow>
       rt_assert ((heap_ptr m + r) AND (64 - 1) = 0)
       (let mem = r - SIZEOF_STRUCT_MEM; it = smem_item m mem in
        rt_assert (MEM_POOL it \<noteq> 0) (rt_assert (MEM_ISUSED it)
        (if MEM_POOL it \<noteq> smem_addr m then Inl OutOfBounds
         else rt_assert (heap_ptr m \<le> heap_ptr m + r \<and> heap_ptr m + r < heap_ptr m + heap_end m)
          (rt_assert (MEM_POOL (smem_item m (item_next it)) = smem_addr m)
            (let m = upd_item mem (\<lambda>it. it\<lparr>pool_ptr := MEM_FREED m\<rparr>) m;
                 m = (if mem < lfree m then m\<lparr>lfree := mem\<rparr> else m);
                 m = m\<lparr>smem_used := smem_used m - (item_next (smem_item m mem) - mem)\<rparr>
             in plug_holes mem m))))))"

subsection \<open>Reallocation\<close>

definition smem_copy :: "u32 \<Rightarrow> u32 \<Rightarrow> u32 \<Rightarrow> rt_small_mem \<Rightarrow> rt_small_mem" where
  "smem_copy dst src n m = m\<lparr>smem_bytes := (\<lambda>a.
     if unat dst \<le> a \<and> a < unat dst + unat n then smem_bytes m (unat src + (a - unat dst)) else smem_bytes m a)\<rparr>"

definition rt_smem_realloc :: "u32 option \<Rightarrow> u32 \<Rightarrow> rt_small_mem \<Rightarrow> (rt_small_mem \<times> u32 option) res" where
  "rt_smem_realloc rmem newsize m =
    (let newsize = RT_ALIGN newsize 64 in
     if mem_size_aligned m < newsize then Inr (m, None)
     else if newsize = 0 then and_then (rt_smem_free rmem m) (\<lambda>m. Inr (m, None))
     else case rmem of None \<Rightarrow> rt_smem_alloc newsize m
     | Some r \<Rightarrow>
        rt_assert ((heap_ptr m + r) AND (64 - 1) = 0)
        (rt_assert (heap_ptr m \<le> heap_ptr m + r) (rt_assert (heap_ptr m + r < heap_ptr m + heap_end m)
         (let ptr = r - SIZEOF_STRUCT_MEM;
              sz = item_next (smem_item m ptr) - ptr - SIZEOF_STRUCT_MEM
          in if sz = newsize then Inr (m, Some r)
             else if newsize + SIZEOF_STRUCT_MEM + MIN_SIZE < sz
             then
               let m = m\<lparr>smem_used := smem_used m - (sz - newsize)\<rparr>;
                   ptr2 = ptr + SIZEOF_STRUCT_MEM + newsize;
                   m = smem_cut ptr newsize m;
                   m = (if ptr2 < lfree m then m\<lparr>lfree := ptr2\<rparr> else m)
               in and_then (plug_holes ptr2 m) (\<lambda>m. Inr (m, Some r))
             else and_then (rt_smem_alloc newsize m) (\<lambda>(m, nmem).
               case nmem of None \<Rightarrow> Inr (m, None)
               | Some d \<Rightarrow> and_then (rt_smem_free (Some r) (smem_copy d r (if sz < newsize then sz else newsize) m))
                             (\<lambda>m. Inr (m, nmem)))))))"

end
