(* ===== verification/Rt_Smem_Inv.thy ===== *)
theory Rt_Smem_Inv
  imports Rt_Smem
begin

unbundle bit_operations_syntax

text \<open>
  The blocks of the system heap as a list, and what the operations of \<open>Rt_Smem\<close> do to it. \<open>smem_wf m bs\<close> says
  that the headers of the heap \<open>m\<close>, its lowest free block and its count of bytes in use describe the list \<open>bs\<close>,
  that no two neighbours of the list are free, and that the region fits the address space. The lemmas show that
  both loops end within their fuel, that allocation is first fit on the list (\<open>alloc_spec\<close>), and that release
  marks a block free and merges free neighbours (\<open>coalesce\<close>).
\<close>

subsection \<open>Layout of the region\<close>

text \<open>A block is its length with the header, and whether it is in use.\<close>

type_synonym layout = "(nat \<times> bool) list"

definition blen :: "layout \<Rightarrow> nat" where "blen bs = sum_list (map fst bs)"

lemma blen_simps [simp]: "blen [] = 0" "blen (b # bs) = fst b + blen bs" "blen (xs @ ys) = blen xs + blen ys"
  by (simp_all add: blen_def)

text \<open>The bytes in use, with their headers.\<close>

definition busy :: "layout \<Rightarrow> nat" where "busy bs = sum_list (map (\<lambda>(n, u). if u then n else 0) bs)"

lemma busy_simps [simp]: "busy [] = 0" "busy ((n, u) # bs) = (if u then n else 0) + busy bs" "busy (xs @ ys) = busy xs + busy ys"
  by (simp_all add: busy_def)

lemma busy_le_blen: "busy bs \<le> blen bs"
  by (induction bs) auto

fun first_free :: "nat \<Rightarrow> layout \<Rightarrow> nat" where
  "first_free p [] = p"
| "first_free p ((n, u) # bs) = (if u then first_free (p + n) bs else p)"

fun no_adjacent :: "layout \<Rightarrow> bool" where
  "no_adjacent (a # b # bs) \<longleftrightarrow> (snd a \<or> snd b) \<and> no_adjacent (b # bs)"
| "no_adjacent bs \<longleftrightarrow> True"

definition all_used :: "layout \<Rightarrow> bool" where "all_used bs \<longleftrightarrow> (\<forall>b \<in> set bs. snd b)"

lemma all_used_simps [simp]:
  "all_used []" "all_used (b # bs) \<longleftrightarrow> snd b \<and> all_used bs" "all_used (xs @ ys) \<longleftrightarrow> all_used xs \<and> all_used ys"
  by (auto simp: all_used_def)

lemma first_free_append:
  "first_free p (xs @ ys) = (if all_used xs then first_free (p + blen xs) ys else first_free p xs)"
  by (induction p xs rule: first_free.induct) (auto simp: add.assoc)

lemma first_free_bounds: "p \<le> first_free p bs" "first_free p bs \<le> p + blen bs"
  by (induction p bs rule: first_free.induct) auto

lemma first_free_free:
  assumes "\<not> all_used bs" "\<forall>b \<in> set bs. 0 < fst b"
  shows "first_free p bs < p + blen bs"
  using assms by (induction p bs rule: first_free.induct) auto

lemma no_adjacent_append:
  "no_adjacent (xs @ ys) \<longleftrightarrow> no_adjacent xs \<and> no_adjacent ys \<and> (xs \<noteq> [] \<longrightarrow> ys \<noteq> [] \<longrightarrow> snd (last xs) \<or> snd (hd ys))"
proof (induction xs)
  case (Cons b xs)
  then show ?case by (cases xs; cases ys) auto
qed simp

lemma no_adjacent_Cons: "no_adjacent (b # bs) \<Longrightarrow> no_adjacent bs"
  by (cases bs) auto

lemma no_adjacent_used [simp]: "no_adjacent ((a, True) # bs) \<longleftrightarrow> no_adjacent bs"
  by (cases bs) auto

text \<open>Merging all neighbouring free blocks.\<close>

fun coalesce :: "layout \<Rightarrow> layout" where
  "coalesce ((a, False) # (b, False) # bs) = coalesce ((a + b, False) # bs)"
| "coalesce (x # bs) = x # coalesce bs"
| "coalesce [] = []"

lemma coalesce_True [simp]: "coalesce ((a, True) # bs) = (a, True) # coalesce bs"
  by (cases bs) auto

lemma coalesce_id: "no_adjacent bs \<Longrightarrow> coalesce bs = bs"
  by (induction bs rule: coalesce.induct) (auto dest: no_adjacent_Cons)

lemma coalesce_prefix: "no_adjacent (xs @ [(a, True)]) \<Longrightarrow> coalesce (xs @ (a, True) # zs) = xs @ (a, True) # coalesce zs"
  by (induction xs rule: no_adjacent.induct) (auto split: bool.splits)

lemma coalesce_blen: "blen (coalesce bs) = blen bs"
  by (induction bs rule: coalesce.induct) auto

subsection \<open>First fit\<close>

fun alloc_spec :: "nat \<Rightarrow> nat \<Rightarrow> layout \<Rightarrow> (nat \<times> layout) option" where
  "alloc_spec n p [] = None"
| "alloc_spec n p ((k, u) # bs) =
    (if \<not> u \<and> n + 64 \<le> k
     then Some (p + 64, (if n + 192 \<le> k then [(n + 64, True), (k - (n + 64), False)] else [(k, True)]) @ bs)
     else map_option (\<lambda>(r, bs). (r, (k, u) # bs)) (alloc_spec n (p + k) bs))"

definition too_small :: "nat \<Rightarrow> layout \<Rightarrow> bool" where
  "too_small n bs \<longleftrightarrow> (\<forall>(k, u) \<in> set bs. u \<or> k < n + 64)"

lemma alloc_spec_None: "alloc_spec n p bs = None \<longleftrightarrow> too_small n bs"
  by (induction n p bs rule: alloc_spec.induct) (auto simp: too_small_def)

lemma alloc_spec_Some:
  assumes "alloc_spec n p bs = Some (r, bs')"
  shows "\<exists>xs k ys. bs = xs @ (k, False) # ys \<and> too_small n xs \<and> n + 64 \<le> k \<and> r = p + blen xs + 64
    \<and> bs' = xs @ (if n + 192 \<le> k then [(n + 64, True), (k - (n + 64), False)] else [(k, True)]) @ ys"
  using assms
proof (induction n p bs arbitrary: bs' rule: alloc_spec.induct)
  case (2 n p k u bs)
  show ?case
  proof (cases "\<not> u \<and> n + 64 \<le> k")
    case True
    then show ?thesis using 2(2) by (intro exI [of _ "[]"] exI [of _ k] exI [of _ bs]) (auto simp: too_small_def)
  next
    case False
    with 2(2) obtain b where b: "alloc_spec n (p + k) bs = Some (r, b)" "bs' = (k, u) # b" by auto
    from 2(1) [OF False b(1)] obtain xs j ys where *: "bs = xs @ (j, False) # ys" "too_small n xs" "n + 64 \<le> j"
      "r = p + k + blen xs + 64"
      "b = xs @ (if n + 192 \<le> j then [(n + 64, True), (j - (n + 64), False)] else [(j, True)]) @ ys" by blast
    show ?thesis
      by (rule exI [of _ "(k, u) # xs"], rule exI [of _ j], rule exI [of _ ys])
        (use * b(2) False in \<open>auto simp: too_small_def\<close>)
  qed
qed simp

subsection \<open>Well-formed heaps\<close>

definition flag :: "rt_small_mem \<Rightarrow> bool \<Rightarrow> u32" where "flag m u = (if u then MEM_USED m else MEM_FREED m)"

fun seg :: "(bool \<Rightarrow> u32) \<Rightarrow> (nat \<Rightarrow> rt_small_mem_item) \<Rightarrow> nat \<Rightarrow> nat \<Rightarrow> layout \<Rightarrow> bool" where
  "seg fl it pp p [] \<longleftrightarrow> True"
| "seg fl it pp p ((n, u) # bs) \<longleftrightarrow>
     it p = \<lparr>pool_ptr = fl u, item_next = of_nat (p + n), item_prev = of_nat pp\<rparr>
     \<and> 64 \<le> n \<and> 64 dvd n \<and> seg fl it p (p + n) bs"

definition last_pos :: "nat \<Rightarrow> nat \<Rightarrow> layout \<Rightarrow> nat" where
  "last_pos pp p bs = (if bs = [] then pp else p + blen (butlast bs))"

lemma seg_append [simp]:
  "seg fl it pp p (xs @ ys) \<longleftrightarrow> seg fl it pp p xs \<and> seg fl it (last_pos pp p xs) (p + blen xs) ys"
proof (induction xs arbitrary: pp p)
  case (Cons b xs)
  obtain n u where "b = (n, u)" by (cases b)
  then show ?case using Cons by (cases "xs = []") (auto simp: last_pos_def add.assoc)
qed (simp add: last_pos_def)

lemma seg_upd [simp]: "a < p \<or> p + blen bs \<le> a \<Longrightarrow> seg fl (it(a := x)) pp p bs = seg fl it pp p bs"
proof (induction bs arbitrary: pp p)
  case (Cons b bs)
  then show ?case by (cases b) (auto simp: add.assoc)
qed simp

lemma seg_length: "seg fl it pp p bs \<Longrightarrow> 64 * length bs \<le> blen bs"
  by (induction fl it pp p bs rule: seg.induct) auto

lemma seg_pos: "seg fl it pp p bs \<Longrightarrow> b \<in> set bs \<Longrightarrow> 64 \<le> fst b \<and> 64 dvd fst b"
  by (induction fl it pp p bs rule: seg.induct) auto

lemma seg_dvd: "seg fl it pp p bs \<Longrightarrow> 64 dvd blen bs"
  by (induction fl it pp p bs rule: seg.induct) auto

definition smem_seg :: "rt_small_mem \<Rightarrow> layout \<Rightarrow> bool" where
  "smem_seg m bs \<longleftrightarrow> bs \<noteq> [] \<and> seg (flag m) (smem_items m) 0 0 bs \<and> unat (heap_end m) = blen bs
     \<and> unat (mem_size_aligned m) + 64 = blen bs \<and> pool_ptr (smem_items m (blen bs)) = MEM_USED m
     \<and> 64 \<le> unat (heap_ptr m) \<and> 64 dvd unat (heap_ptr m) \<and> unat (heap_ptr m) + blen bs + 64 \<le> 2 ^ 32
     \<and> smem_addr m AND MEM_MASK = smem_addr m \<and> smem_addr m \<noteq> 0"

definition smem_raw :: "rt_small_mem \<Rightarrow> layout \<Rightarrow> bool" where
  "smem_raw m bs \<longleftrightarrow> smem_seg m bs \<and> unat (lfree m) = first_free 0 bs \<and> unat (smem_used m) = busy bs
     \<and> smem_used m \<le> smem_max m"

text \<open>No two neighbours are free, and a block in use has at least 64 bytes.\<close>

definition smem_wf :: "rt_small_mem \<Rightarrow> layout \<Rightarrow> bool" where
  "smem_wf m bs \<longleftrightarrow> smem_raw m bs \<and> no_adjacent bs \<and> (\<forall>b \<in> set bs. snd b \<longrightarrow> 128 \<le> fst b)"

lemma u32_of_nat:
  assumes "a < 2 ^ 32" "b < 2 ^ 32"
  shows "(of_nat a \<le> (of_nat b :: u32)) = (a \<le> b)" "(of_nat a < (of_nat b :: u32)) = (a < b)"
    "(of_nat a = (of_nat b :: u32)) = (a = b)"
  using assms by (simp_all add: word_le_nat_alt word_less_nat_alt word_unat_eq_iff)

lemma u32_le_diff:
  assumes "a < 2 ^ 32" "b < 2 ^ 32" "c \<le> b"
  shows "(of_nat a \<le> (of_nat b - of_nat c :: u32)) = (a + c \<le> b)"
proof -
  have "(of_nat b - of_nat c :: u32) = of_nat (b - c)" by (rule of_nat_diff [OF assms(3), symmetric])
  then show ?thesis using u32_of_nat(1) [of a "b - c"] assms by (simp only:) auto
qed

lemma of_nat_unat_eq: "unat w = n \<Longrightarrow> w = (of_nat n :: 'a::len word)"
  by auto

lemma smem_consts [simp]: "SIZEOF_STRUCT_MEM = 64" "MIN_SIZE_ALIGNED = 64" "MIN_SIZE = 12"
  by (simp_all add: SIZEOF_STRUCT_MEM_def MIN_SIZE_ALIGNED_def MIN_SIZE_def RT_ALIGN_def)

lemma smem_segD:
  assumes "smem_seg m bs"
  shows "bs \<noteq> []" "seg (flag m) (smem_items m) 0 0 bs" "heap_end m = of_nat (blen bs)"
    "mem_size_aligned m = of_nat (blen bs) - 64" "64 \<le> blen bs" "blen bs + 128 \<le> 2 ^ 32"
    "pool_ptr (smem_items m (blen bs)) = MEM_USED m" "smem_addr m AND MEM_MASK = smem_addr m"
proof -
  have "of_nat (unat (mem_size_aligned m) + 64) = (of_nat (blen bs) :: u32)" using assms by (simp add: smem_seg_def)
  then show "mem_size_aligned m = of_nat (blen bs) - 64" by (simp add: algebra_simps)
qed (use assms in \<open>auto simp: smem_seg_def intro!: of_nat_unat_eq\<close>)

lemma smem_rawD:
  assumes "smem_raw m bs"
  shows "smem_seg m bs" "lfree m = of_nat (first_free 0 bs)" "smem_used m = of_nat (busy bs)" "smem_used m \<le> smem_max m"
  using assms by (auto simp: smem_raw_def intro!: of_nat_unat_eq)

lemma flag_used:
  assumes "smem_addr m AND MEM_MASK = smem_addr m" "pool_ptr it = flag m u"
  shows "MEM_ISUSED it = u" "MEM_POOL it = smem_addr m"
proof -
  have n: "NOT MEM_MASK = 1" "1 AND MEM_MASK = 0" "MEM_MASK AND 1 = 0" by (simp_all add: MEM_MASK_def)
  have "smem_addr m AND 1 = (smem_addr m AND MEM_MASK) AND 1" using assms(1) by simp
  also have "\<dots> = smem_addr m AND (MEM_MASK AND 1)" by (simp only: and.assoc)
  finally have z: "smem_addr m AND 1 = 0" using n(3) by simp
  show "MEM_ISUSED it = u" "MEM_POOL it = smem_addr m"
    using assms z n by (auto simp: flag_def MEM_USED_def MEM_FREED_def MEM_ISUSED_def MEM_POOL_def bit.conj_disj_distrib2)
qed

lemma smem_find_ok:
  assumes "seg (flag m) (smem_items m) pp p bs" "smem_addr m AND MEM_MASK = smem_addr m"
    "p + blen bs = blen all" "blen all + 128 \<le> 2 ^ 32" "mem_size_aligned m = of_nat (blen all) - 64"
    "n + 64 \<le> blen all" "length bs < fuel"
  shows "smem_find fuel (of_nat n) (of_nat p) m
    = Inr (map_option (\<lambda>(r, _). of_nat (r - 64)) (alloc_spec n p bs))"
proof -
  have g0: "(of_nat p \<le> mem_size_aligned m - of_nat n) = (p + n + 64 \<le> blen all)" if "p < 2 ^ 32" for p
  proof -
    have "mem_size_aligned m - of_nat n = of_nat (blen all) - of_nat (64 + n)" using assms(5) by simp
    then show ?thesis using u32_le_diff [of p "blen all" "64 + n"] that assms(4,6) by (simp only:) auto
  qed
  show ?thesis using assms(1,3,7)
proof (induction bs arbitrary: pp p fuel)
  case Nil
  then obtain f where f: "fuel = Suc f" by (cases fuel) auto
  have "(of_nat p \<le> mem_size_aligned m - of_nat n) = (p + (64 + n) \<le> blen all)"
    using g0 [of p] Nil assms(4) by simp
  then have "\<not> (of_nat p \<le> mem_size_aligned m - of_nat n)" using Nil by simp
  then show ?case by (simp add: f)
next
  case (Cons b bs)
  obtain k u where b: "b = (k, u)" by (cases b)
  obtain f where f: "fuel = Suc f" "length bs < f" using Cons.prems(3) by (cases fuel) auto
  have it: "smem_item m (of_nat p) = \<lparr>pool_ptr = flag m u, item_next = of_nat (p + k), item_prev = of_nat pp\<rparr>"
    "64 \<le> k" "seg (flag m) (smem_items m) p (p + k) bs" "p + k + blen bs = blen all"
    using Cons.prems(1,2) assms(4) b by (auto simp: smem_item_def)
  have IH: "smem_find f (of_nat n) (of_nat (p + k)) m = Inr (map_option (\<lambda>(r, _). of_nat (r - 64)) (alloc_spec n (p + k) bs))"
    by (rule Cons.IH [OF it(3,4) f(2)])
  have g: "(of_nat p \<le> mem_size_aligned m - of_nat n) = (p + n + 64 \<le> blen all)"
    using g0 [of p] it(4) assms(4) by simp
  have h: "(of_nat n \<le> (of_nat (p + k) - (of_nat p + 64) :: u32)) = (n + 64 \<le> k)"
    using u32_le_diff [of n k 64] it(2,4) assms(4,6) by (simp add: add.commute)
  have us: "MEM_ISUSED (smem_item m (of_nat p)) = u" using flag_used(1) [OF assms(2)] it(1) by simp
  show ?case
  proof (cases "p + n + 64 \<le> blen all")
    case True
    show ?thesis
    proof (cases "\<not> u \<and> n + 64 \<le> k")
      case True
      then show ?thesis using g h us it(1) \<open>p + n + 64 \<le> blen all\<close> by (simp add: b f)
    next
      case False
      then have "smem_find fuel (of_nat n) (of_nat p) m = smem_find f (of_nat n) (of_nat (p + k)) m"
        using g h us it(1) \<open>p + n + 64 \<le> blen all\<close> by (auto simp: f)
      then show ?thesis using IH False by (auto simp: b option.map_comp comp_def case_prod_unfold)
    qed
  next
    case False
    have "too_small n (b # bs)"
    proof -
      have "k' + p \<le> blen all" if "(k', u') \<in> set (b # bs)" for k' u'
      proof -
        have "k' \<le> blen (b # bs)" using that member_le_sum_list [of k' "map fst (b # bs)"] by (force simp: blen_def)
        then show ?thesis using Cons.prems(2) by simp
      qed
      then show ?thesis using False by (force simp: too_small_def)
    qed
    then have "alloc_spec n p (b # bs) = None" by (simp only: alloc_spec_None)
    then show ?thesis using g False by (simp add: f)
  qed
qed
qed

lemma smem_skip_ok:
  assumes "seg (flag m) (smem_items m) pp p bs" "smem_addr m AND MEM_MASK = smem_addr m"
    "p + blen bs = e" "e < 2 ^ 32" "heap_end m = of_nat e" "length bs < fuel"
  shows "smem_skip fuel (m\<lparr>lfree := of_nat p\<rparr>) = Inr (m\<lparr>lfree := of_nat (first_free p bs)\<rparr>)"
  using assms(1,3,6)
proof (induction bs arbitrary: pp p fuel)
  case Nil
  then show ?case using assms(5) by (cases fuel) auto
next
  case (Cons b bs)
  obtain k u where b: "b = (k, u)" by (cases b)
  obtain f where f: "fuel = Suc f" "length bs < f" using Cons.prems(3) by (cases fuel) auto
  have it: "smem_items m p = \<lparr>pool_ptr = flag m u, item_next = of_nat (p + k), item_prev = of_nat pp\<rparr>"
    "64 \<le> k" "seg (flag m) (smem_items m) p (p + k) bs" "p + k + blen bs = e"
    using Cons.prems(1,2) b by auto
  have p: "unat (of_nat p :: u32) = p" "(of_nat p :: u32) \<noteq> of_nat e"
    using it(2,4) assms(4) u32_of_nat(3) [of p e] by auto
  have us: "MEM_ISUSED (smem_items m p) = u" using flag_used(1) [OF assms(2)] it(1) by simp
  show ?case
    using Cons.IH [OF it(3,4) f(2)] us p it(1) assms(5) by (simp add: b f smem_item_def)
qed

lemma flag_cong: "smem_addr m' = smem_addr m \<Longrightarrow> flag m' = flag m" "smem_addr m' = smem_addr m \<Longrightarrow> MEM_USED m' = MEM_USED m"
  by (simp_all add: flag_def MEM_USED_def MEM_FREED_def fun_eq_iff)

lemma header_flag: "flag m True = MEM_USED m" "flag m False = MEM_FREED m"
  by (simp_all add: flag_def)

lemma upd_item_sel [simp]:
  "smem_addr (upd_item p f m) = smem_addr m" "heap_ptr (upd_item p f m) = heap_ptr m" "heap_end (upd_item p f m) = heap_end m"
  "lfree (upd_item p f m) = lfree m" "mem_size_aligned (upd_item p f m) = mem_size_aligned m"
  "smem_used (upd_item p f m) = smem_used m" "smem_max (upd_item p f m) = smem_max m" "smem_bytes (upd_item p f m) = smem_bytes m"
  "smem_items (upd_item p f m) = (smem_items m)(unat p := f (smem_items m (unat p)))"
  by (simp_all add: upd_item_def)

text \<open>The first block of a rest has a new predecessor.\<close>

lemma seg_reprev:
  assumes "seg fl it pp p ys" "ys \<noteq> []"
  shows "seg fl (it(p := (it p)\<lparr>item_prev := of_nat pp'\<rparr>)) pp' p ys"
proof -
  obtain k u zs where "ys = (k, u) # zs" using assms(2) by (cases ys) auto
  then show ?thesis using assms(1) by auto
qed

lemma seg_cut:
  assumes "seg fl it pp p ((k, v) # ys)" "n + 128 \<le> k" "64 dvd n" "p + k + blen ys < 2 ^ 32"
    "pool_ptr (it (p + k + blen ys)) = used"
    "it' = (it(p + 64 + n := x))(p := y)" "x = \<lparr>pool_ptr = fl False, item_next = of_nat (p + k), item_prev = of_nat p\<rparr>"
    "y = \<lparr>pool_ptr = fl u, item_next = of_nat (p + 64 + n), item_prev = of_nat pp\<rparr>"
    "it'' = (if ys = [] then it' else it'(p + k := (it' (p + k))\<lparr>item_prev := of_nat (p + 64 + n)\<rparr>))"
  shows "seg fl it'' pp p ((n + 64, u) # (k - (n + 64), False) # ys)"
    "pool_ptr (it'' (p + k + blen ys)) = used"
proof -
  have k: "64 dvd k" "seg fl it p (p + k) ys" using assms(1) by auto
  have d: "64 dvd k - (n + 64)" using k(1) assms(3) by (simp add: dvd_diff_nat)
  have s: "seg fl it'' (p + 64 + n) (p + k) ys"
  proof (cases "ys = []")
    case False
    have "seg fl it' p (p + k) ys" using k(2) assms(2) by (simp add: assms(6))
    then show ?thesis using seg_reprev [OF _ False, of fl it' p "p + k" "p + 64 + n"] False by (simp add: assms(9))
  qed simp
  show "seg fl it'' pp p ((n + 64, u) # (k - (n + 64), False) # ys)"
    using s d assms(2,3) by (auto simp: assms(6-9) add.commute add.left_commute)
  show "pool_ptr (it'' (p + k + blen ys)) = used"
    using assms(2,5) by (auto simp: assms(6-9))
qed


lemma flag_upd [simp]:
  "flag (m\<lparr>lfree := x\<rparr>) = flag m" "flag (m\<lparr>smem_used := x\<rparr>) = flag m" "flag (m\<lparr>smem_max := x\<rparr>) = flag m"
  "flag (m\<lparr>smem_bytes := g\<rparr>) = flag m" "flag (m\<lparr>smem_items := i\<rparr>) = flag m" "flag (upd_item p f m) = flag m"
  "MEM_USED (m\<lparr>lfree := x\<rparr>) = MEM_USED m" "MEM_USED (m\<lparr>smem_used := x\<rparr>) = MEM_USED m" "MEM_USED (m\<lparr>smem_max := x\<rparr>) = MEM_USED m"
  "MEM_USED (m\<lparr>smem_bytes := g\<rparr>) = MEM_USED m" "MEM_USED (m\<lparr>smem_items := i\<rparr>) = MEM_USED m" "MEM_USED (upd_item p f m) = MEM_USED m"
  by (rule flag_cong; simp)+

lemma smem_seg_upd [simp]:
  "smem_seg (m\<lparr>lfree := x\<rparr>) bs = smem_seg m bs" "smem_seg (m\<lparr>smem_used := x\<rparr>) bs = smem_seg m bs"
  "smem_seg (m\<lparr>smem_max := x\<rparr>) bs = smem_seg m bs" "smem_seg (m\<lparr>smem_bytes := g\<rparr>) bs = smem_seg m bs"
  by (simp_all add: smem_seg_def)

text \<open>A block of the region, found at its offset.\<close>

lemma smem_seg_block:
  assumes "smem_seg m (xs @ (k, u) # ys)" "p = blen xs"
  shows "smem_item m (of_nat p) = \<lparr>pool_ptr = flag m u, item_next = of_nat (p + k), item_prev = of_nat (last_pos 0 0 xs)\<rparr>"
    "unat (of_nat p :: u32) = p" "64 \<le> k" "64 dvd k" "64 dvd p" "p + k + blen ys + 128 \<le> 2 ^ 32"
    "unat (of_nat (p + k) :: u32) = p + k" "MEM_ISUSED (smem_item m (of_nat p)) = u" "MEM_POOL (smem_item m (of_nat p)) = smem_addr m"
proof -
  note d = smem_segD [OF assms(1)]
  show b: "p + k + blen ys + 128 \<le> 2 ^ 32" using d(6) assms(2) by simp
  then show u: "unat (of_nat p :: u32) = p" "unat (of_nat (p + k) :: u32) = p + k"
    by (auto intro!: unat_of_nat_small simp del: of_nat_add)
  have "seg (flag m) (smem_items m) 0 0 xs" using d(2) by simp
  then show "64 dvd p" using seg_dvd assms(2) by simp
  show it: "smem_item m (of_nat p) = \<lparr>pool_ptr = flag m u, item_next = of_nat (p + k), item_prev = of_nat (last_pos 0 0 xs)\<rparr>"
    using d(2) u(1) assms(2) by (simp add: smem_item_def)
  show "64 \<le> k" "64 dvd k" using d(2) by simp_all
  show "MEM_ISUSED (smem_item m (of_nat p)) = u" "MEM_POOL (smem_item m (of_nat p)) = smem_addr m"
    using flag_used [OF d(8)] it by simp_all
qed

lemma smem_mark:
  assumes "smem_seg m (xs @ (k, u) # ys)" "p = blen xs"
  shows "smem_seg (upd_item (of_nat p) (\<lambda>it. it\<lparr>pool_ptr := flag m v\<rparr>) m) (xs @ (k, v) # ys)"
proof -
  note b = smem_seg_block [OF assms]
  note d = smem_segD [OF assms(1)]
  have "seg (flag m) ((smem_items m)(p := (smem_items m p)\<lparr>pool_ptr := flag m v\<rparr>)) 0 0 (xs @ (k, v) # ys)"
    using d(2) b(3) assms(2) by auto
  moreover have "p \<noteq> blen (xs @ (k, u) # ys)" using b(3) assms(2) by simp
  ultimately show ?thesis using assms(1) b(2) by (auto simp: smem_seg_def)
qed

lemma item_all: "(r :: rt_small_mem_item)\<lparr>pool_ptr := a, item_next := b, item_prev := c\<rparr> = \<lparr>pool_ptr = a, item_next = b, item_prev = c\<rparr>"
  by (cases r) simp

lemma smem_cut_seg:
  assumes "smem_seg m (xs @ (k, u) # ys)" "p = blen xs" "n + 128 \<le> k" "64 dvd n"
  shows "smem_seg (smem_cut (of_nat p) (of_nat n) m) (xs @ (n + 64, u) # (k - (n + 64), False) # ys)"
    "\<exists>it. smem_cut (of_nat p) (of_nat n) m = m\<lparr>smem_items := it\<rparr>"
proof -
  note b = smem_seg_block [OF assms(1,2)]
  note d = smem_segD [OF assms(1)]
  let ?q = "p + 64 + n" and ?it = "smem_items m"
  let ?x = "\<lparr>pool_ptr = flag m False, item_next = of_nat (p + k), item_prev = of_nat p\<rparr>"
  let ?y = "\<lparr>pool_ptr = flag m u, item_next = of_nat ?q, item_prev = of_nat (last_pos 0 0 xs)\<rparr>"
  let ?it1 = "(?it(?q := ?x))(p := ?y)"
  let ?it2 = "if ys = [] then ?it1 else ?it1(p + k := (?it1 (p + k))\<lparr>item_prev := of_nat ?q\<rparr>)"
  have q: "of_nat p + 64 + of_nat n = (of_nat ?q :: u32)" "unat (of_nat ?q :: u32) = ?q"
    using b(6) assms(3) by (simp, intro unat_of_nat_small) simp
  have e: "(of_nat (p + k) \<noteq> mem_size_aligned m + 64) = (ys \<noteq> [])"
  proof -
    have "mem_size_aligned m + 64 = of_nat (p + k + blen ys)" using d(4) assms(2) by (simp add: add.assoc)
    moreover have "blen ys = 0 \<longleftrightarrow> ys = []" using d(2) seg_length [of "flag m" ?it p "p + k" ys] assms(2) by auto
    ultimately show ?thesis using u32_of_nat(3) [of "p + k" "p + k + blen ys"] b(6) by (simp only:) auto
  qed
  have i: "smem_items m p = \<lparr>pool_ptr = flag m u, item_next = of_nat (p + k), item_prev = of_nat (last_pos 0 0 xs)\<rparr>"
    using b(1,2) by (simp add: smem_item_def)
  have c: "smem_cut (of_nat p) (of_nat n) m = m\<lparr>smem_items := ?it2\<rparr>"
    unfolding smem_cut_def Let_def smem_consts q(1)
    using e b(1,2,7) q(2) i by (auto simp: smem_item_def upd_item_def item_all header_flag simp del: of_nat_add)
  then show "\<exists>it. smem_cut (of_nat p) (of_nat n) m = m\<lparr>smem_items := it\<rparr>" by blast
  have s: "seg (flag m) ?it (last_pos 0 0 xs) p ((k, u) # ys)" "seg (flag m) ?it 0 0 xs"
    "pool_ptr (?it (p + k + blen ys)) = MEM_USED m" using d(2,7) assms(2) by (simp_all add: add.assoc)
  have lt: "p + k + blen ys < 2 ^ 32" using b(6) by simp
  note sc = seg_cut [OF s(1) assms(3,4) lt s(3) refl refl refl refl]
  have x: "seg (flag m) ?it2 0 0 xs" using s(2) assms(2) b(3) by simp
  have "seg (flag m) ?it2 0 0 (xs @ (n + 64, u) # (k - (n + 64), False) # ys)"
    unfolding seg_append using x sc(1) assms(2) by (simp only: add_0_left)
  moreover have "blen (xs @ (n + 64, u) # (k - (n + 64), False) # ys) = blen (xs @ (k, u) # ys)" using assms(3) by simp
  moreover have "pool_ptr (?it2 (blen (xs @ (k, u) # ys))) = MEM_USED m" using sc(2) assms(2) by (simp add: add.assoc)
  moreover have "xs @ (n + 64, u) # (k - (n + 64), False) # ys \<noteq> []" by simp
  ultimately show "smem_seg (smem_cut (of_nat p) (of_nat n) m) (xs @ (n + 64, u) # (k - (n + 64), False) # ys)"
    using assms(1) unfolding c smem_seg_def flag_upd by (simp only: rt_small_mem.simps) simp
qed

subsection \<open>Allocation\<close>

lemma first_free_split:
  "\<exists>pre post. bs = pre @ post \<and> all_used pre \<and> first_free p bs = p + blen pre \<and> (post = [] \<or> \<not> snd (hd post))"
proof -
  have "first_free p bs = p + blen (takeWhile snd bs)" by (induction p bs rule: first_free.induct) auto
  moreover have "all_used (takeWhile snd bs)" by (auto simp: all_used_def dest: set_takeWhileD)
  moreover have "dropWhile snd bs = [] \<or> \<not> snd (hd (dropWhile snd bs))" using hd_dropWhile by blast
  ultimately show ?thesis
    by - (rule exI [of _ "takeWhile snd bs"], rule exI [of _ "dropWhile snd bs"], simp)
qed

lemma first_free_block:
  assumes "smem_seg m bs"
  shows "of_nat (first_free 0 bs) = heap_end m \<or> \<not> MEM_ISUSED (smem_item m (of_nat (first_free 0 bs)))"
proof -
  obtain pre post where pp: "bs = pre @ post" "first_free 0 bs = blen pre" "post = [] \<or> \<not> snd (hd post)"
    using first_free_split [of bs 0] by auto
  show ?thesis
  proof (cases post)
    case Nil
    then show ?thesis using smem_segD(3) [OF assms] pp by simp
  next
    case (Cons b ys)
    then obtain k where "post = (k, False) # ys" using pp(3) by (cases b) auto
    then show ?thesis using smem_seg_block(8) [of m pre k False ys "blen pre"] assms pp by simp
  qed
qed

lemma alloc_spec_used_prefix:
  "all_used pre \<Longrightarrow> alloc_spec n p (pre @ post) = map_option (\<lambda>(r, bs). (r, pre @ bs)) (alloc_spec n (p + blen pre) post)"
proof (induction pre arbitrary: p)
  case (Cons b pre)
  then show ?case by (cases b) (auto simp: add.assoc option.map_comp comp_def case_prod_unfold)
qed (simp add: case_prod_unfold option.map_ident)

lemma blen_member: "b \<in> set bs \<Longrightarrow> fst b \<le> blen bs"
  using member_le_sum_list [of "fst b" "map fst bs"] by (force simp: blen_def)

lemma smem_fuel_enough:
  assumes "smem_seg m bs"
  shows "length bs < smem_fuel m"
proof -
  have "unat (mem_size_aligned m) + 64 = blen bs" using assms by (simp add: smem_seg_def)
  moreover have "64 * length bs \<le> blen bs" using seg_length smem_segD(2) [OF assms] by blast
  ultimately show ?thesis unfolding smem_fuel_def by linarith
qed

lemma smem_find_first_fit:
  assumes "smem_raw m bs" "n + 64 \<le> blen bs"
  shows "smem_find (smem_fuel m) (of_nat n) (lfree m) m = Inr (map_option (\<lambda>(r, _). of_nat (r - 64)) (alloc_spec n 0 bs))"
proof -
  note r = smem_rawD [OF assms(1)]
  note d = smem_segD [OF r(1)]
  obtain pre post where pp: "bs = pre @ post" "all_used pre" "first_free 0 bs = blen pre"
    using first_free_split [of bs 0] by auto
  have sg: "seg (flag m) (smem_items m) (last_pos 0 0 pre) (blen pre) post" using d(2) pp(1) by simp
  have fu: "length post < smem_fuel m" using smem_fuel_enough [OF r(1)] pp(1) by simp
  have "blen pre + blen post = blen bs" using pp(1) by simp
  from smem_find_ok [OF sg d(8) this d(6,4) assms(2) fu]
  have "smem_find (smem_fuel m) (of_nat n) (lfree m) m
      = Inr (map_option (\<lambda>(r, _). of_nat (r - 64)) (alloc_spec n (blen pre) post))" using r(2) pp(3) by simp
  then show ?thesis using alloc_spec_used_prefix [OF pp(2), of n 0 post] pp(1)
    by (simp add: option.map_comp comp_def case_prod_unfold)
qed

definition cut_block :: "nat \<Rightarrow> nat \<Rightarrow> bool \<Rightarrow> layout" where
  "cut_block n k u = (if n + 192 \<le> k then [(n + 64, u), (k - (n + 64), False)] else [(k, u)])"

lemma smem_account_ok:
  "\<exists>x. smem_account n m = m\<lparr>smem_used := smem_used m + n, smem_max := x\<rparr> \<and> smem_used m + n \<le> x"
  by (auto simp: smem_account_def Let_def intro!: exI [of _ "if smem_max m < smem_used m + n then smem_used m + n else smem_max m"])

lemma smem_carve_ok:
  assumes "smem_seg m (xs @ (k, False) # ys)" "p = blen xs" "n + 64 \<le> k" "64 dvd n"
  shows "\<exists>it mx. smem_carve (of_nat p) (of_nat n) m
      = m\<lparr>smem_items := it, smem_used := smem_used m + of_nat (busy (cut_block n k True)), smem_max := mx\<rparr>
    \<and> smem_used m + of_nat (busy (cut_block n k True)) \<le> mx
    \<and> smem_seg (m\<lparr>smem_items := it\<rparr>) (xs @ cut_block n k False @ ys)"
proof -
  note b = smem_seg_block [OF assms(1,2)]
  have c: "(of_nat n + 64 + 64 \<le> (item_next (smem_item m (of_nat p)) - (of_nat p + 64) :: u32)) = (n + 192 \<le> k)"
  proof -
    have "item_next (smem_item m (of_nat p)) - (of_nat p + 64) = of_nat k - (of_nat 64 :: u32)" using b(1) by simp
    moreover have "of_nat n + 64 + 64 = (of_nat (n + 128) :: u32)" by simp
    ultimately show ?thesis using u32_le_diff [of "n + 128" k 64] b(3,6) assms(3) by (simp only:) auto
  qed
  show ?thesis
  proof (cases "n + 192 \<le> k")
    case True
    then have k: "n + 128 \<le> k" by simp
    note s = smem_cut_seg [OF assms(1,2) k assms(4)]
    obtain it where it: "smem_cut (of_nat p) (of_nat n) m = m\<lparr>smem_items := it\<rparr>" using s(2) by blast
    obtain mx where "smem_account (of_nat n + 64) (m\<lparr>smem_items := it\<rparr>)
        = m\<lparr>smem_items := it, smem_used := smem_used m + (of_nat n + 64), smem_max := mx\<rparr>" "smem_used m + (of_nat n + 64) \<le> mx"
      using smem_account_ok [of "of_nat n + 64" "m\<lparr>smem_items := it\<rparr>"] by auto
    then show ?thesis using s(1) it c True
      by (intro exI [of _ it] exI [of _ mx]) (simp add: smem_carve_def cut_block_def)
  next
    case False
    obtain mx where "smem_account (of_nat k) m = m\<lparr>smem_used := smem_used m + of_nat k, smem_max := mx\<rparr>"
      "smem_used m + of_nat k \<le> mx" using smem_account_ok [of "of_nat k" m] by auto
    then show ?thesis using assms(1) b(1) c False
      by (intro exI [of _ "smem_items m"] exI [of _ mx]) (simp add: smem_carve_def cut_block_def)
  qed
qed

lemma first_free_at:
  assumes "smem_seg m (xs @ (k, False) # ys)"
  shows "(blen xs = first_free 0 (xs @ (k, False) # ys)) = all_used xs"
proof -
  have "\<forall>b \<in> set xs. 0 < fst b" using smem_segD(2) [OF assms] seg_pos by (metis UnCI gr_zeroI less_numeral_extra(3) le_zero_eq set_append zero_neq_numeral)
  then show ?thesis using first_free_free [of xs 0] by (auto simp: first_free_append)
qed

lemma smem_alloc_tail:
  assumes "smem_seg m (xs @ (k, False) # ys)" "lfree m = of_nat (first_free 0 (xs @ (k, False) # ys))"
    "smem_seg m' (xs @ cut_block n k True @ ys)" "lfree m' = lfree m"
  shows "smem_advance (of_nat (blen xs)) m' = Inr (m'\<lparr>lfree := of_nat (first_free 0 (xs @ cut_block n k True @ ys))\<rparr>)"
proof -
  let ?bs = "xs @ cut_block n k True @ ys"
  note b = smem_seg_block [OF assms(1) refl]
  note d = smem_segD [OF assms(3)]
  have bl: "blen ?bs = blen xs + k + blen ys" by (simp add: cut_block_def)
  have eq: "(of_nat (blen xs) = (lfree m' :: u32)) = all_used xs"
  proof -
    have "first_free 0 (xs @ (k, False) # ys) < 2 ^ 32"
      using first_free_bounds(2) [of 0 "xs @ (k, False) # ys"] b(6) by simp
    then show ?thesis using first_free_at [OF assms(1)] u32_of_nat(3) [of "blen xs"] b(6) assms(2,4) by simp
  qed
  show ?thesis
  proof (cases "all_used xs")
    case True
    let ?f = "first_free 0 ?bs"
    have ff: "?f = first_free (blen xs) (cut_block n k True @ ys)" using True by (simp add: first_free_append)
    have sg: "seg (flag m') (smem_items m') (last_pos 0 0 xs) (blen xs) (cut_block n k True @ ys)" using d(2) by simp
    have "length (cut_block n k True @ ys) < smem_fuel m'" using smem_fuel_enough [OF assms(3)] by simp
    moreover have "blen xs + blen (cut_block n k True @ ys) = blen ?bs" by simp
    ultimately have sk: "smem_skip (smem_fuel m') (m'\<lparr>lfree := of_nat (blen xs)\<rparr>) = Inr (m'\<lparr>lfree := of_nat ?f\<rparr>)"
      using smem_skip_ok [OF sg d(8) _ _ d(3)] d(6) ff by simp
    have m': "m'\<lparr>lfree := of_nat (blen xs)\<rparr> = m'" using True eq by simp
    have "of_nat ?f = heap_end m' \<or> \<not> MEM_ISUSED (smem_item m' (of_nat ?f))" by (rule first_free_block [OF assms(3)])
    then show ?thesis using True eq sk m' by (simp add: smem_advance_def smem_item_def)
  next
    case False
    then have "first_free 0 ?bs = first_free 0 (xs @ (k, False) # ys)" by (simp add: first_free_append)
    then have "m'\<lparr>lfree := of_nat (first_free 0 ?bs)\<rparr> = m'" using assms(2,4) by simp
    then show ?thesis using False eq by (simp add: smem_advance_def)
  qed
qed

lemma no_adjacent_cut:
  assumes "no_adjacent (xs @ (k, False) # ys)"
  shows "no_adjacent (xs @ cut_block n k True @ ys)"
  using assms by (cases ys) (auto simp: no_adjacent_append cut_block_def)

lemma round_up_64:
  assumes "0 < (x :: nat)"
  shows "64 \<le> (x + 63) div 64 * 64" "x \<le> (x + 63) div 64 * 64"
proof -
  have "(x + 63) div 64 * 64 + (x + 63) mod 64 = x + 63" "(x + 63) mod 64 < 64" by simp_all
  then show le: "x \<le> (x + 63) div 64 * 64" by linarith
  then have "0 < (x + 63) div 64" using assms by (cases "(x + 63) div 64") auto
  then show "64 \<le> (x + 63) div 64 * 64" by linarith
qed

lemma align_64:
  assumes "0 < sz" "unat (sz :: u32) \<le> 2 ^ 32 - 64"
  shows "64 \<le> unat (RT_ALIGN sz 64)" "64 dvd unat (RT_ALIGN sz 64)" "unat sz \<le> unat (RT_ALIGN sz 64)"
proof -
  have s: "unat (RT_ALIGN sz 64) = (unat sz + 63) div 64 * 64" using assms(2) by (intro unat_RT_ALIGN_64) auto
  have p: "0 < unat sz" using assms(1) by (simp add: word_less_nat_alt)
  show "64 dvd unat (RT_ALIGN sz 64)" using s by simp
  show "64 \<le> unat (RT_ALIGN sz 64)" "unat sz \<le> unat (RT_ALIGN sz 64)" using s round_up_64 [OF p] by simp_all
qed

lemma aligned_64:
  assumes "64 dvd unat (w :: u32)"
  shows "w mod 64 = 0" "w AND 63 = 0"
proof -
  have "unat (w mod 64) = 0" using assms by (simp add: unat_mod)
  then show m: "w mod 64 = 0" by (simp add: unat_eq_zero)
  have "w AND 63 = take_bit 6 w" by (simp add: take_bit_eq_mask mask_eq_exp_minus_1)
  also have "\<dots> = w mod 64" by (simp add: take_bit_eq_mod)
  finally show "w AND 63 = 0" using m by simp
qed

text \<open>Offsets of the region do not wrap around when they are added to its address.\<close>

lemma smem_addr_of:
  assumes "smem_seg m bs" "q \<le> blen bs"
  shows "unat (heap_ptr m + of_nat q) = unat (heap_ptr m) + q"
proof -
  have "heap_ptr m + of_nat q = of_nat (unat (heap_ptr m) + q)" by simp
  moreover have "unat (of_nat (unat (heap_ptr m) + q) :: u32) = unat (heap_ptr m) + q"
    by (rule unat_of_nat_small) (use assms in \<open>simp add: smem_seg_def\<close>)
  ultimately show ?thesis by simp
qed

lemma smem_alloc_asserts:
  assumes "smem_seg m (xs @ (k, u) # ys)" "n + 64 \<le> k" "64 dvd n" "p = blen xs"
  shows "heap_ptr m + of_nat p + 64 + of_nat n \<le> heap_ptr m + heap_end m"
    "(heap_ptr m + of_nat p + 64) mod 64 = 0" "(heap_ptr m + of_nat p) AND (64 - 1) = 0"
proof -
  note a = smem_addr_of [OF assms(1)]
  note b = smem_seg_block [OF assms(1,4)]
  have h: "64 dvd unat (heap_ptr m)" using assms(1) by (simp add: smem_seg_def)
  have "heap_ptr m + of_nat p + 64 + of_nat n = heap_ptr m + of_nat (p + 64 + n)" by simp
  then have "unat (heap_ptr m + of_nat p + 64 + of_nat n) = unat (heap_ptr m) + (p + 64 + n)"
    using a [of "p + 64 + n"] assms(2,4) by (simp add: add.assoc)
  then show "heap_ptr m + of_nat p + 64 + of_nat n \<le> heap_ptr m + heap_end m"
    using a [OF order_refl] smem_segD(3) [OF assms(1)] assms(2,4) by (simp add: word_le_nat_alt)
  have "unat (heap_ptr m + of_nat (p + 64)) = unat (heap_ptr m) + (p + 64)" using a [of "p + 64"] assms(2,4) by simp
  then have "64 dvd unat (heap_ptr m + of_nat p + 64)" using h b(5) by (simp add: add.assoc)
  then show "(heap_ptr m + of_nat p + 64) mod 64 = 0" by (rule aligned_64)
  have "64 dvd unat (heap_ptr m + of_nat p)" using a [of p] h b(5) assms(4) by simp
  then show "(heap_ptr m + of_nat p) AND (64 - 1) = 0" using aligned_64(2) by simp
qed

lemma smem_alloc_Some:
  assumes "smem_wf m bs" "0 < sz" "unat sz \<le> 2 ^ 32 - 64" "alloc_spec (unat (RT_ALIGN sz 64)) 0 bs = Some (r, bs')"
  shows "\<exists>m'. rt_smem_alloc sz m = Inr (m', Some (of_nat r)) \<and> smem_wf m' bs' \<and> smem_bytes m' = smem_bytes m"
proof -
  define n where "n = unat (RT_ALIGN sz 64)"
  note al = align_64 [OF assms(2,3), folded n_def]
  have rw: "smem_raw m bs" and na: "no_adjacent bs" using assms(1) by (simp_all add: smem_wf_def)
  note rd = smem_rawD [OF rw]
  obtain xs k ys where x: "bs = xs @ (k, False) # ys" "n + 64 \<le> k" "r = blen xs + 64" "bs' = xs @ cut_block n k True @ ys"
    using alloc_spec_Some [OF assms(4), folded n_def] by (auto simp: cut_block_def)
  have sb: "smem_seg m (xs @ (k, False) # ys)" using rd(1) x(1) by simp
  note b = smem_seg_block [OF sb refl]
  obtain it mx where c: "smem_carve (of_nat (blen xs)) (of_nat n) m
      = m\<lparr>smem_items := it, smem_used := smem_used m + of_nat (busy (cut_block n k True)), smem_max := mx\<rparr>"
    "smem_used m + of_nat (busy (cut_block n k True)) \<le> mx" "smem_seg (m\<lparr>smem_items := it\<rparr>) (xs @ cut_block n k False @ ys)"
    using smem_carve_ok [OF sb refl x(2) al(2)] by blast
  define m1 where "m1 = m\<lparr>smem_items := it, smem_used := smem_used m + of_nat (busy (cut_block n k True)), smem_max := mx\<rparr>"
  define m2 where "m2 = upd_item (of_nat (blen xs)) (\<lambda>it. it\<lparr>pool_ptr := MEM_USED m1\<rparr>) m1"
  have s1: "smem_seg m1 (xs @ cut_block n k False @ ys)" using c(3) unfolding m1_def by simp
  obtain k0 rest where k0: "\<And>u. cut_block n k u @ ys = (k0, u) # rest" "n + 64 \<le> k0"
    using x(2) by (cases "n + 192 \<le> k") (auto simp: cut_block_def)
  have s2: "smem_seg m2 (xs @ (k0, True) # rest)"
    using smem_mark [of m1 xs k0 False rest _ True] s1 k0(1) by (simp add: m2_def header_flag)
  have fnd: "smem_find (smem_fuel m) (RT_ALIGN sz 64) (lfree m) m = Inr (Some (of_nat (blen xs)))"
    using smem_find_first_fit [OF rw, of n] x assms(4) by (simp add: n_def)
  have us: "unat (smem_used m2) = busy bs'"
  proof -
    have "smem_used m2 = of_nat (busy bs')" using rd(3) x(1,4) by (simp add: m2_def m1_def)
    moreover have "busy bs' < 2 ^ 32"
      using busy_le_blen [of bs'] b(6) k0 smem_segD(6) [OF s2] x(4) by (simp add: k0)
    ultimately show ?thesis by simp
  qed
  define m3 where "m3 = m2\<lparr>lfree := of_nat (first_free 0 bs')\<rparr>"
  have s2': "smem_seg m2 (xs @ cut_block n k True @ ys)" using s2 k0(1) by simp
  have lf: "lfree m2 = lfree m" by (simp add: m2_def m1_def)
  note t = smem_alloc_tail [OF sb rd(2) [unfolded x(1)] s2' lf, folded x(4), folded m3_def]
  have s3: "smem_seg m3 (xs @ (k0, True) # rest)" using s2 by (simp add: m3_def)
  note as = smem_alloc_asserts [OF s3 k0(2) al(2) refl]
  have nn: "of_nat n = RT_ALIGN sz 64" by (simp add: n_def)
  have le: "\<not> mem_size_aligned m < RT_ALIGN sz 64" "\<not> RT_ALIGN sz 64 < 64"
    using rd(1) x(1,2) al(1) by (auto simp: smem_seg_def word_less_nat_alt n_def)
  have "rt_smem_alloc sz m = Inr (m3, Some (of_nat r))"
    using assms(2) le fnd c(1) t as unfolding rt_smem_alloc_def Let_def nn smem_consts
    by (simp add: m1_def [symmetric] m2_def [symmetric] x(3) nn)
  moreover have "smem_wf m3 bs'"
  proof -
    have e: "bs' = xs @ (k0, True) # rest" using x(4) k0(1) by simp
    have "first_free 0 bs' < 2 ^ 32" using first_free_bounds(2) [of 0 bs'] smem_segD(6) [OF s3] e by simp
    then have "unat (lfree m3) = first_free 0 bs'" by (simp add: m3_def)
    moreover have "no_adjacent bs'" using no_adjacent_cut na x(1,4) by simp
    moreover have "\<forall>b \<in> set bs'. snd b \<longrightarrow> 128 \<le> fst b"
      using assms(1) x(1,2,4) al(1) by (auto simp: smem_wf_def cut_block_def)
    moreover have "smem_used m3 \<le> smem_max m3" "unat (smem_used m3) = busy bs'"
      using c(2) us by (simp_all add: m3_def m2_def m1_def)
    ultimately show ?thesis using s3 e by (simp add: smem_wf_def smem_raw_def)
  qed
  ultimately show ?thesis by (intro exI [of _ m3]) (simp add: m3_def m2_def m1_def)
qed

lemma smem_alloc_None:
  assumes "smem_wf m bs" "0 < sz" "unat sz \<le> 2 ^ 32 - 64" "alloc_spec (unat (RT_ALIGN sz 64)) 0 bs = None"
  shows "rt_smem_alloc sz m = Inr (m, None)"
proof -
  have rw: "smem_raw m bs" using assms(1) by (simp add: smem_wf_def)
  let ?n = "unat (RT_ALIGN sz 64)"
  note al = align_64 [OF assms(2,3)]
  have ms: "unat (mem_size_aligned m) + 64 = blen bs" using rw by (simp add: smem_raw_def smem_seg_def)
  have n: "\<not> RT_ALIGN sz 64 < 64" using al(1) by (simp add: word_less_nat_alt)
  show ?thesis
  proof (cases "mem_size_aligned m < RT_ALIGN sz 64")
    case True
    then show ?thesis using assms(2) n by (simp add: rt_smem_alloc_def Let_def)
  next
    case False
    then have "?n + 64 \<le> blen bs" using ms by (simp add: word_less_nat_alt)
    from smem_find_first_fit [OF rw this] assms(4) False n assms(2) show ?thesis
      by (simp add: rt_smem_alloc_def Let_def)
  qed
qed

subsection \<open>Merging\<close>

definition joined :: "u32 \<Rightarrow> u32 \<Rightarrow> rt_small_mem \<Rightarrow> rt_small_mem" where
  "joined a b m =
    (let m = upd_item b (\<lambda>it. it\<lparr>pool_ptr := 0\<rparr>) m;
         m = upd_item a (\<lambda>it. it\<lparr>item_next := item_next (smem_item m b)\<rparr>) m
     in upd_item (item_next (smem_item m b)) (\<lambda>it. it\<lparr>item_prev := a\<rparr>) m)"

lemma joined_sel [simp]:
  "smem_addr (joined a b m) = smem_addr m" "heap_ptr (joined a b m) = heap_ptr m" "heap_end (joined a b m) = heap_end m"
  "lfree (joined a b m) = lfree m" "mem_size_aligned (joined a b m) = mem_size_aligned m"
  "smem_used (joined a b m) = smem_used m" "smem_max (joined a b m) = smem_max m" "smem_bytes (joined a b m) = smem_bytes m"
  "flag (joined a b m) = flag m" "MEM_USED (joined a b m) = MEM_USED m"
  by (simp_all add: joined_def Let_def)

lemma seg_joined:
  assumes "seg fl it pp a ((j, u) # (k, v) # zs)"
    "it' = (it(a + j := x))(a := (it a)\<lparr>item_next := of_nat (a + j + k)\<rparr>)"
    "it'' = it'(a + j + k := (it' (a + j + k))\<lparr>item_prev := of_nat a\<rparr>)"
  shows "seg fl it'' pp a ((j + k, u) # zs)"
proof -
  have k: "64 \<le> j" "64 \<le> k" "64 dvd j" "64 dvd k" "seg fl it (a + j) (a + j + k) zs" using assms(1) by auto
  have "seg fl it'' a (a + j + k) zs"
  proof (cases "zs = []")
    case False
    have "seg fl it' (a + j) (a + j + k) zs" using k by (simp add: assms(2))
    then show ?thesis using seg_reprev [OF _ False, of fl it' "a + j" "a + j + k" a] by (simp add: assms(3))
  qed simp
  then show ?thesis using k assms(1) by (simp add: assms(2,3) add.assoc)
qed

lemma joined_seg:
  assumes "smem_seg m (ws @ (j, u) # (k, v) # zs)" "a = blen ws"
  shows "smem_seg (joined (of_nat a) (of_nat (a + j)) m) (ws @ (j + k, u) # zs)"
proof -
  let ?it = "smem_items m" and ?bs = "ws @ (j, u) # (k, v) # zs"
  note d = smem_segD [OF assms(1)]
  note ba = smem_seg_block [OF assms(1,2)]
  have "smem_seg m ((ws @ [(j, u)]) @ (k, v) # zs)" using assms(1) by simp
  note bb = smem_seg_block [OF this, of "a + j"]
  have bb': "smem_item m (of_nat (a + j)) = \<lparr>pool_ptr = flag m v, item_next = of_nat (a + j + k), item_prev = of_nat a\<rparr>"
    "unat (of_nat (a + j) :: u32) = a + j" "64 \<le> k" "unat (of_nat (a + j + k) :: u32) = a + j + k"
    using bb assms(2) by (simp_all add: last_pos_def)
  define it' where "it' = (?it(a + j := (?it (a + j))\<lparr>pool_ptr := 0\<rparr>))(a := (?it a)\<lparr>item_next := of_nat (a + j + k)\<rparr>)"
  define it'' where "it'' = it'(a + j + k := (it' (a + j + k))\<lparr>item_prev := of_nat a\<rparr>)"
  have i: "smem_items (joined (of_nat a) (of_nat (a + j)) m) = it''"
    using ba(2,3) bb' by (simp add: joined_def Let_def smem_item_def it'_def it''_def del: of_nat_add)
  have s: "seg (flag m) ?it (last_pos 0 0 ws) a ((j, u) # (k, v) # zs)" "seg (flag m) ?it 0 0 ws" using d(2) assms(2) by simp_all
  have "seg (flag m) it'' 0 0 ws" using s(2) assms(2) ba(3) bb'(3) by (simp add: it''_def it'_def)
  then have "seg (flag m) it'' 0 0 (ws @ (j + k, u) # zs)"
    using seg_joined [OF s(1) it'_def it''_def] assms(2) by (simp only: seg_append add_0_left)
  moreover have "blen (ws @ (j + k, u) # zs) = blen ?bs" by simp
  moreover have "pool_ptr (it'' (blen ?bs)) = MEM_USED m" using d(7) assms(2) ba(3) bb'(3) by (auto simp: it''_def it'_def add.assoc)
  ultimately show ?thesis using assms(1) unfolding smem_seg_def joined_sel i by (auto simp: add.assoc)
qed

fun merge_next :: "nat \<Rightarrow> layout \<Rightarrow> layout" where
  "merge_next k ((j, False) # zs) = (k + j, False) # zs"
| "merge_next k ys = (k, False) # ys"

lemma merge_next_sum: "blen (merge_next k ys) = k + blen ys" "busy (merge_next k ys) = busy ys"
  by (cases "(k, ys)" rule: merge_next.cases; simp)+

lemma first_free_le:
  "first_free 0 (xs @ (k, False) # ys) \<le> blen xs"
  using first_free_bounds(2) [of 0 xs] by (simp add: first_free_append)

lemma plug_next_ok:
  assumes "smem_raw m (xs @ (k, False) # ys)" "p = blen xs"
  shows "smem_raw (plug_next (of_nat p) m) (xs @ merge_next k ys)" "smem_bytes (plug_next (of_nat p) m) = smem_bytes m"
proof -
  note r = smem_rawD [OF assms(1)]
  note d = smem_segD [OF r(1)]
  note b = smem_seg_block [OF r(1) assms(2)]
  let ?nmem = "item_next (smem_item m (of_nat p))"
  have nm: "?nmem = of_nat (p + k)" using b(1) by simp
  have ne: "of_nat p \<noteq> (of_nat (p + k) :: u32)" using u32_of_nat(3) [of p "p + k"] b(3,6) by simp
  have "smem_raw (plug_next (of_nat p) m) (xs @ merge_next k ys) \<and> smem_bytes (plug_next (of_nat p) m) = smem_bytes m"
  proof (cases "\<exists>j zs. ys = (j, False) # zs")
    case True
    then obtain j zs where ys: "ys = (j, False) # zs" by blast
    have sg: "smem_seg m ((xs @ [(k, False)]) @ (j, False) # zs)" using r(1) ys by simp
    note bn = smem_seg_block [OF sg, of "p + k"]
    have bn': "\<not> MEM_ISUSED (smem_item m (of_nat (p + k)))" "64 \<le> j" using bn(3,8) assms(2) by simp_all
    have he: "of_nat (p + k) \<noteq> heap_end m"
      using u32_of_nat(3) [of "p + k" "blen (xs @ (k, False) # ys)"] d(3,6) bn'(2) ys assms(2) by (simp del: of_nat_add)
    have lf: "lfree m \<noteq> of_nat (p + k)"
    proof -
      have "first_free 0 (xs @ (k, False) # ys) < p + k" using first_free_le [of xs k ys] b(3) assms(2) by simp
      then show ?thesis using r(2) u32_of_nat(3) [of "first_free 0 (xs @ (k, False) # ys)" "p + k"] b(6) by (simp del: of_nat_add)
    qed
    have e: "plug_next (of_nat p) m = joined (of_nat p) (of_nat (p + k)) m"
      using ne bn'(1) he lf unfolding plug_next_def nm Let_def joined_def by simp
    have "smem_seg (plug_next (of_nat p) m) (xs @ merge_next k ys)"
      unfolding e using joined_seg [of m xs k False j False zs p] r(1) ys assms(2) by simp
    moreover have "first_free 0 (xs @ merge_next k ys) = first_free 0 (xs @ (k, False) # ys)" by (simp add: ys first_free_append)
    ultimately show ?thesis using assms(1) by (simp add: smem_raw_def merge_next_sum e)
  next
    case False
    then have mn: "merge_next k ys = (k, False) # ys" by (cases "(k, ys)" rule: merge_next.cases) auto
    have "MEM_ISUSED (smem_item m (of_nat (p + k)))"
    proof (cases ys)
      case Nil
      then have "pool_ptr (smem_items m (p + k)) = flag m True" using d(7) assms(2) by (simp add: header_flag)
      then show ?thesis using flag_used(1) [OF d(8)] b(7) by (simp add: smem_item_def del: of_nat_add)
    next
      case (Cons c zs)
      then obtain j where ys: "ys = (j, True) # zs" using False by (cases c) auto
      have sg: "smem_seg m ((xs @ [(k, False)]) @ (j, True) # zs)" using r(1) ys by simp
      show ?thesis using smem_seg_block(8) [OF sg, of "p + k"] assms(2) by simp
    qed
    then have "plug_next (of_nat p) m = m" unfolding plug_next_def nm Let_def by (simp del: of_nat_add)
    then show ?thesis using assms(1) mn by simp
  qed
  then show "smem_raw (plug_next (of_nat p) m) (xs @ merge_next k ys)" "smem_bytes (plug_next (of_nat p) m) = smem_bytes m"
    by auto
qed

definition merge_prev :: "layout \<Rightarrow> nat \<Rightarrow> layout" where
  "merge_prev xs k = (if xs \<noteq> [] \<and> \<not> snd (last xs) then butlast xs @ [(fst (last xs) + k, False)] else xs @ [(k, False)])"

lemma plug_prev_ok:
  assumes "smem_raw m (xs @ (k, False) # ys)" "p = blen xs"
  shows "smem_raw (plug_prev (of_nat p) m) (merge_prev xs k @ ys)" "smem_bytes (plug_prev (of_nat p) m) = smem_bytes m"
proof -
  note r = smem_rawD [OF assms(1)]
  note d = smem_segD [OF r(1)]
  note b = smem_seg_block [OF r(1) assms(2)]
  let ?pmem = "item_prev (smem_item m (of_nat p))"
  have pm: "?pmem = of_nat (last_pos 0 0 xs)" using b(1) by simp
  have "smem_raw (plug_prev (of_nat p) m) (merge_prev xs k @ ys) \<and> smem_bytes (plug_prev (of_nat p) m) = smem_bytes m"
  proof (cases xs rule: rev_cases)
    case Nil
    then have "plug_prev (of_nat p) m = m" using pm assms(2) by (simp add: plug_prev_def Let_def last_pos_def)
    then show ?thesis using assms(1) Nil by (simp add: merge_prev_def)
  next
    case (snoc ws c)
    obtain j u where c: "c = (j, u)" by (cases c)
    let ?a = "blen ws"
    have sg: "smem_seg m (ws @ (j, u) # (k, False) # ys)" using r(1) snoc c by simp
    note bp = smem_seg_block [OF sg refl]
    have p: "p = ?a + j" using assms(2) snoc c by simp
    have pm': "?pmem = of_nat ?a" using pm snoc by (simp add: last_pos_def)
    have ne: "of_nat ?a \<noteq> (of_nat p :: u32)" using u32_of_nat(3) [of ?a p] bp(3,6) p by simp
    show ?thesis
    proof (cases u)
      case True
      then have "plug_prev (of_nat p) m = m" using bp(8) unfolding plug_prev_def pm' Let_def by simp
      then show ?thesis using assms(1) snoc c True by (simp add: merge_prev_def)
    next
      case False
      have lf: "lfree m \<noteq> of_nat p"
      proof -
        have "first_free 0 (xs @ (k, False) # ys) < p"
          using first_free_le [of ws j "(k, False) # ys"] bp(3) False p snoc c by simp
        then show ?thesis using r(2) u32_of_nat(3) [of "first_free 0 (xs @ (k, False) # ys)" p] b(6) by simp
      qed
      have e: "plug_prev (of_nat p) m = joined (of_nat ?a) (of_nat p) m"
        using ne bp(8) lf False unfolding plug_prev_def pm' Let_def joined_def by simp
      have mp: "merge_prev xs k @ ys = ws @ (j + k, False) # ys" using snoc c False by (simp add: merge_prev_def)
      have "smem_seg (plug_prev (of_nat p) m) (merge_prev xs k @ ys)"
        unfolding e mp using joined_seg [OF sg refl] p False by simp
      moreover have "first_free 0 (merge_prev xs k @ ys) = first_free 0 (xs @ (k, False) # ys)"
        unfolding mp using snoc c False by (simp add: first_free_append)
      moreover have "busy (merge_prev xs k @ ys) = busy (xs @ (k, False) # ys)" unfolding mp using snoc c False by simp
      ultimately show ?thesis using assms(1) by (simp add: smem_raw_def e)
    qed
  qed
  then show "smem_raw (plug_prev (of_nat p) m) (merge_prev xs k @ ys)" "smem_bytes (plug_prev (of_nat p) m) = smem_bytes m"
    by auto
qed

text \<open>Merging the neighbours of one new free block is merging all neighbours.\<close>

lemma coalesce_hd: "coalesce bs = [] \<longleftrightarrow> bs = []" "bs \<noteq> [] \<Longrightarrow> snd (hd (coalesce bs)) = snd (hd bs)"
  by (induction bs rule: coalesce.induct) auto

lemma coalesce_no_adjacent: "no_adjacent (coalesce bs)"
  by (induction bs rule: coalesce.induct) auto

lemma coalesce_skip: "no_adjacent xs \<Longrightarrow> xs = [] \<or> snd (last xs) \<Longrightarrow> coalesce (xs @ zs) = xs @ coalesce zs"
  by (induction xs rule: coalesce.induct) (auto dest: no_adjacent_Cons split: if_splits)

lemma coalesce_merge_next: "no_adjacent ys \<Longrightarrow> coalesce ((k, False) # ys) = merge_next k ys"
proof (cases "(k, ys)" rule: merge_next.cases)
  case (1 k j zs)
  assume "no_adjacent ys"
  with 1 show ?thesis using coalesce_id [of "(k + j, False) # zs"] by (cases zs) auto
qed (auto simp: coalesce_id)

lemma merge_next_add: "merge_next k ys = (k', False) # ys' \<Longrightarrow> merge_next (j + k) ys = (j + k', False) # ys'"
  by (cases "(k, ys)" rule: merge_next.cases) auto

lemma merge_coalesce:
  assumes "no_adjacent (xs @ (k, True) # ys)" "merge_next k ys = (k', False) # ys'"
  shows "merge_prev xs k' @ ys' = coalesce (xs @ (k, False) # ys)"
proof -
  have na: "no_adjacent xs" "no_adjacent ys" using assms(1) no_adjacent_Cons by (auto simp: no_adjacent_append)
  show ?thesis
  proof (cases "xs = [] \<or> snd (last xs)")
    case True
    then have "coalesce (xs @ (k, False) # ys) = xs @ merge_next k ys"
      using coalesce_skip [OF na(1) True] coalesce_merge_next [OF na(2)] by simp
    then show ?thesis using True assms(2) by (auto simp: merge_prev_def)
  next
    case False
    then obtain ws j where xs: "xs = ws @ [(j, False)]" by (cases xs rule: rev_cases) auto
    then have ws: "no_adjacent ws" "ws = [] \<or> snd (last ws)" using na(1) by (auto simp: no_adjacent_append)
    have "coalesce (xs @ (k, False) # ys) = ws @ merge_next (j + k) ys"
      using coalesce_skip [OF ws] coalesce_merge_next [OF na(2), of "j + k"] xs by simp
    then show ?thesis using merge_next_add [OF assms(2), of j] xs by (simp add: merge_prev_def)
  qed
qed

lemma coalesce_used: "b \<in> set (coalesce bs) \<Longrightarrow> snd b \<Longrightarrow> b \<in> set bs"
  by (induction bs rule: coalesce.induct) auto

lemma plug_holes_ok:
  assumes "smem_raw m (xs @ (k, False) # ys)" "p = blen xs" "no_adjacent (xs @ (k, True) # ys)"
    "\<forall>b \<in> set (xs @ ys). snd b \<longrightarrow> 128 \<le> fst b"
  shows "\<exists>m'. plug_holes (of_nat p) m = Inr m' \<and> smem_wf m' (coalesce (xs @ (k, False) # ys)) \<and> smem_bytes m' = smem_bytes m"
proof -
  note r = smem_rawD [OF assms(1)]
  note b = smem_seg_block [OF r(1) assms(2)]
  obtain k' ys' where mn: "merge_next k ys = (k', False) # ys'" by (cases "(k, ys)" rule: merge_next.cases) auto
  note n = plug_next_ok [OF assms(1,2), unfolded mn]
  note pr = plug_prev_ok [OF n(1) assms(2)]
  note mc = merge_coalesce [OF assms(3) mn]
  have "of_nat p < heap_end m"
    using smem_segD(3,6) [OF r(1)] u32_of_nat(2) [of p "blen (xs @ (k, False) # ys)"] b(3) assms(2) by (simp del: of_nat_add)
  moreover have "\<forall>b \<in> set (coalesce (xs @ (k, False) # ys)). snd b \<longrightarrow> 128 \<le> fst b"
    using coalesce_used [of _ "xs @ (k, False) # ys"] assms(4) by fastforce
  ultimately show ?thesis using pr n(2) mc coalesce_no_adjacent by (auto simp: plug_holes_def smem_wf_def)
qed

lemma first_free_release:
  assumes "smem_seg m (xs @ (k, u) # ys)"
  shows "first_free 0 (xs @ (k, False) # ys) = min (blen xs) (first_free 0 (xs @ (k, True) # ys))"
proof (cases "all_used xs")
  case True
  then show ?thesis using first_free_bounds(1) [of "blen xs + k" ys] by (simp add: first_free_append)
next
  case False
  then show ?thesis using first_free_bounds(2) [of 0 xs] by (simp add: first_free_append)
qed

lemma smem_pointer_ok:
  assumes "smem_seg m (xs @ (k, u) # ys)" "p = blen xs" "128 \<le> k"
  shows "(heap_ptr m + of_nat (p + 64)) AND (64 - 1) = 0" "heap_ptr m \<le> heap_ptr m + of_nat (p + 64)"
    "heap_ptr m + of_nat (p + 64) < heap_ptr m + heap_end m"
proof -
  note a = smem_addr_of [OF assms(1)]
  note b = smem_seg_block [OF assms(1,2)]
  have h: "unat (heap_ptr m + of_nat (p + 64)) = unat (heap_ptr m) + (p + 64)" using a [of "p + 64"] assms(2,3) by simp
  have "64 dvd unat (heap_ptr m)" using assms(1) by (simp add: smem_seg_def)
  then have "64 dvd unat (heap_ptr m + of_nat (p + 64))" unfolding h using b(5) by simp
  then show "(heap_ptr m + of_nat (p + 64)) AND (64 - 1) = 0" using aligned_64(2) by simp
  show "heap_ptr m \<le> heap_ptr m + of_nat (p + 64)" "heap_ptr m + of_nat (p + 64) < heap_ptr m + heap_end m"
    using h a [OF order_refl] smem_segD(3) [OF assms(1)] assms(2,3)
    by (simp_all only: word_le_nat_alt word_less_nat_alt) simp_all
qed

lemma smem_free_ok:
  assumes "smem_wf m (xs @ (k, True) # ys)" "p = blen xs"
  shows "\<exists>m'. rt_smem_free (Some (of_nat (p + 64))) m = Inr m' \<and> smem_wf m' (coalesce (xs @ (k, False) # ys))
    \<and> smem_bytes m' = smem_bytes m"
proof -
  let ?bs = "xs @ (k, True) # ys"
  have rw: "smem_raw m ?bs" and na: "no_adjacent ?bs"
    and bg: "\<forall>b \<in> set (xs @ ys). snd b \<longrightarrow> 128 \<le> fst b" and k: "128 \<le> k" using assms(1) by (auto simp: smem_wf_def)
  note r = smem_rawD [OF rw]
  note d = smem_segD [OF r(1)]
  note b = smem_seg_block [OF r(1) assms(2)]
  let ?mem = "of_nat p :: u32"
  define m1 where "m1 = upd_item ?mem (\<lambda>it. it\<lparr>pool_ptr := MEM_FREED m\<rparr>) m"
  define m2 where "m2 = (if ?mem < lfree m1 then m1\<lparr>lfree := ?mem\<rparr> else m1)"
  define m3 where "m3 = m2\<lparr>smem_used := smem_used m2 - (item_next (smem_item m2 ?mem) - ?mem)\<rparr>"
  have s1: "smem_seg m1 (xs @ (k, False) # ys)"
    using smem_mark [OF r(1) assms(2), of False] by (simp add: m1_def header_flag)
  have it2: "item_next (smem_item m2 ?mem) - ?mem = of_nat k"
    using b(1,2) by (simp add: m2_def m1_def smem_item_def)
  have raw: "smem_raw m3 (xs @ (k, False) # ys)"
  proof -
    have ff: "first_free 0 ?bs \<le> blen ?bs" using first_free_bounds(2) [of 0 ?bs] by simp
    have "unat (lfree m3) = min p (first_free 0 ?bs)"
      using r(2) b(2,6) ff assms(2) u32_of_nat(2) [of p "first_free 0 ?bs"] by (auto simp: m3_def m2_def m1_def)
    then have "unat (lfree m3) = first_free 0 (xs @ (k, False) # ys)" using first_free_release [OF r(1)] assms(2) by simp
    moreover have u: "unat (smem_used m3) = busy (xs @ (k, False) # ys)"
    proof -
      have "smem_used m3 = of_nat (busy ?bs) - of_nat k" using r(3) it2 by (simp add: m3_def) (simp add: m2_def m1_def)
      also have "\<dots> = of_nat (busy (xs @ (k, False) # ys))" by simp
      finally show ?thesis using busy_le_blen [of "xs @ (k, False) # ys"] d(6)
        by (simp only:) (rule unat_of_nat_small, simp)
    qed
    moreover have "smem_used m3 \<le> smem_max m3"
    proof -
      have "unat (smem_used m3) \<le> unat (smem_used m)" using u rw by (simp add: smem_raw_def)
      moreover have "smem_max m3 = smem_max m" by (simp add: m3_def m2_def m1_def)
      ultimately show ?thesis using r(4) by (simp add: word_le_nat_alt)
    qed
    ultimately show ?thesis using s1 by (simp add: smem_raw_def m3_def m2_def)
  qed
  have ad: "smem_addr m \<noteq> 0" using r(1) by (simp add: smem_seg_def)
  have nx: "MEM_POOL (smem_item m (item_next (smem_item m ?mem))) = smem_addr m"
  proof (cases ys)
    case Nil
    then have "pool_ptr (smem_items m (p + k)) = flag m True" using d(7) assms(2) by (simp add: header_flag)
    then show ?thesis using flag_used(2) [OF d(8)] b(1,7) by (simp add: smem_item_def del: of_nat_add)
  next
    case (Cons c zs)
    then obtain j u where ys: "ys = (j, u) # zs" by (cases c) auto
    have "smem_seg m ((xs @ [(k, True)]) @ (j, u) # zs)" using r(1) ys by simp
    from smem_seg_block(9) [OF this, of "p + k"] show ?thesis using assms(2) b(1) by simp
  qed
  note as = smem_pointer_ok [OF r(1) assms(2) k]
  have "rt_smem_free (Some (of_nat (p + 64))) m = plug_holes ?mem m3"
    using as nx b(8,9) ad unfolding rt_smem_free_def smem_consts
    by (simp add: Let_def m1_def [symmetric] m2_def [symmetric] m3_def [symmetric])
  moreover have "smem_bytes m3 = smem_bytes m" by (simp add: m3_def m2_def m1_def)
  ultimately show ?thesis using plug_holes_ok [OF raw assms(2) na bg] by simp
qed

subsection \<open>Set-up\<close>

lemma align_64_word:
  assumes "64 dvd unat (w :: u32)" "d < 64" "unat w + d + 63 < 2 ^ 32"
  shows "unat (RT_ALIGN (w + of_nat d) 64) = unat w + (if d = 0 then 0 else 64)"
proof -
  have u: "unat (w + of_nat d) = unat w + d"
  proof -
    have "w + of_nat d = of_nat (unat w + d)" by simp
    moreover have "unat (of_nat (unat w + d) :: u32) = unat w + d" by (rule unat_of_nat_small) (use assms(3) in simp)
    ultimately show ?thesis by simp
  qed
  have "unat (RT_ALIGN (w + of_nat d) 64) = (unat w + d + 63) div 64 * 64"
    using unat_RT_ALIGN_64 [of "w + of_nat d"] assms(3) u by simp
  moreover obtain q where "unat w = 64 * q" using assms(1) by blast
  moreover have "(64 * q + d + 63) div 64 = q + (if d = 0 then 0 else 1)" using assms(2) by auto
  ultimately show ?thesis by auto
qed

lemma addr_masked:
  assumes "64 dvd unat (w :: u32)"
  shows "w AND MEM_MASK = w"
proof -
  have "MEM_MASK OR 1 = (- 1 :: u32)" by (simp add: MEM_MASK_def)
  then have "w = (w AND MEM_MASK) OR (w AND 1)" by (metis bit.conj_disj_distrib bit.conj_one_right)
  moreover have "w AND 1 = 0"
  proof -
    have "w AND 1 = (w AND 63) AND 1" by (simp add: and.assoc)
    then show ?thesis using aligned_64(2) [OF assms] by simp
  qed
  ultimately show ?thesis by simp
qed

lemma smem_init_region:
  fixes begin_addr sz :: u32
  defines "a \<equiv> RT_ALIGN begin_addr 64" and "e \<equiv> RT_ALIGN_DOWN (begin_addr + sz) 64"
  defines "b \<equiv> RT_ALIGN (a + SIZEOF_SMALL_MEM) 64"
  assumes "0 < begin_addr" "64 \<le> sz" "unat begin_addr + unat sz < 2 ^ 32" "128 < e" "a + SIZEOF_SMALL_MEM \<le> e - 128"
  shows "64 dvd unat a" "64 \<le> unat a" "unat b = unat a + 64" "unat (e - b - 128) + unat a + 192 = unat e"
    "64 dvd unat e" "unat e + 64 \<le> 2 ^ 32"
proof -
  have s: "64 \<le> unat sz" "0 < unat begin_addr" using assms(4,5) by (simp_all add: word_le_nat_alt word_less_nat_alt)
  have "unat (begin_addr + sz) = unat begin_addr + unat sz" using assms(6) unat_add_lem [of begin_addr sz] by simp
  then have e: "unat e = (unat begin_addr + unat sz) div 64 * 64" by (simp add: e_def unat_RT_ALIGN_DOWN_64)
  have a: "unat a = (unat begin_addr + 63) div 64 * 64"
    unfolding a_def by (rule unat_RT_ALIGN_64) (use assms(6) s in auto)
  show da: "64 dvd unat a" and de: "64 dvd unat e" using a e by simp_all
  have gen: "x + 64 \<le> 2 ^ 32" if "64 dvd x" "x < 2 ^ 32" for x :: nat using that by (auto elim!: dvdE)
  have gap: "y + 192 \<le> x" if d: "64 dvd x" "64 dvd y" "y + 60 \<le> x - 128" for x y :: nat
  proof -
    obtain i j where "x = 64 * i" "y = 64 * j" using d(1,2) by (elim dvdE)
    then show ?thesis using d(3) by (cases "j + 3 \<le> i") auto
  qed
  show "64 \<le> unat a" using a round_up_64(1) [OF s(2)] by simp
  have eb: "unat e < 2 ^ 32" using e assms(6) div_times_less_eq_dividend [of "unat begin_addr + unat sz" 64] by linarith
  then show e64: "unat e + 64 \<le> 2 ^ 32" using gen [OF de] by simp
  have ae: "unat a \<le> unat e" unfolding a e using s(1) by (intro mult_le_mono1 div_le_mono) simp
  have a60: "unat (a + SIZEOF_SMALL_MEM) = unat a + 60"
    using ae e64 unat_add_lem [of a "SIZEOF_SMALL_MEM"] by (simp add: SIZEOF_SMALL_MEM_def)
  have "unat (e - 128) = unat e - 128" using assms(7) by (simp add: unat_sub word_less_nat_alt word_le_nat_alt)
  then have "unat a + 60 \<le> unat e - 128" using assms(8) a60 by (simp add: word_le_nat_alt)
  then have le: "unat a + 192 \<le> unat e" by (rule gap [OF de da])
  show b: "unat b = unat a + 64"
    using align_64_word [of a 60] da le eb by (simp add: b_def SIZEOF_SMALL_MEM_def)
  have "unat (b + 128) = unat a + 192" using unat_add_lem [of b 128] b le eb by simp
  then have "unat (e - (b + 128)) = unat e - (unat a + 192)" using le by (simp add: unat_sub word_le_nat_alt)
  moreover have "e - (b + 128) = e - b - 128" by (simp add: algebra_simps)
  ultimately show "unat (e - b - 128) + unat a + 192 = unat e" using le by simp
qed

lemma smem_init_wf:
  assumes "rt_smem_init begin_addr sz items bytes = Some m" "0 < begin_addr" "64 \<le> sz"
    "unat begin_addr + unat sz < 2 ^ 32"
  shows "smem_wf m [(unat (mem_size_aligned m) + 64, False)]"
proof -
  let ?a = "RT_ALIGN begin_addr 64" and ?e = "RT_ALIGN_DOWN (begin_addr + sz) 64"
  let ?b = "RT_ALIGN (?a + SIZEOF_SMALL_MEM) 64"
  have c: "128 < ?e" "?a + SIZEOF_SMALL_MEM \<le> ?e - 128"
    using assms(1) by (auto simp: rt_smem_init_def Let_def split: if_splits)
  note g = smem_init_region [OF assms(2-4) c]
  let ?s = "?e - ?b - 128"
  define n where "n = unat ?s + 64"
  have n: "of_nat n = ?s + 64" "unat (?s + 64) = n" using g(4,6) unat_add_lem [of ?s 64] by (simp_all add: n_def)
  have m: "mem_size_aligned m = ?s" "heap_ptr m = ?b" "smem_addr m = ?a" "lfree m = 0" "smem_used m = 0" "heap_end m = ?s + 64"
    "smem_items m = (items(0 := \<lparr>pool_ptr = MEM_FREED m, item_next = ?s + 64, item_prev = 0\<rparr>))
       (n := \<lparr>pool_ptr = MEM_USED m, item_next = ?s + 64, item_prev = ?s + 64\<rparr>)"
    using assms(1) c n
    by (auto simp: rt_smem_init_def Let_def smem_item_def item_all MEM_FREED_def MEM_USED_def split: if_splits)
  have "64 dvd n"
  proof -
    have "n + (unat ?a + 128) = unat ?e" using g(4) by (simp add: n_def)
    moreover have "64 dvd unat ?a + 128" using g(1) by simp
    ultimately show ?thesis using g(5) by (metis dvd_add_left_iff)
  qed
  then have "smem_seg m [(n, False)]"
    using m n g addr_masked [OF g(1)] unfolding smem_seg_def by (auto simp: header_flag n_def)
  then show ?thesis using m by (simp add: smem_wf_def smem_raw_def n_def)
qed

end
