(* ===== verification/Rt_Refine.thy ===== *)
theory Rt_Refine
  imports Rt_Prelude
begin

text \<open>
  A forward simulation between the operations of a component and the operations of its specification. A
  component step is an operation on a state that may fault; a specification step gives nothing when the
  caller breaks the rules. If every step allowed by the specification is matched with the same answer,
  every run is: the allocators interpret the locale on their own operations.
\<close>

fun runs :: "('op \<Rightarrow> 's \<Rightarrow> ('s \<times> 'out) res) \<Rightarrow> 'op list \<Rightarrow> 's \<Rightarrow> ('s \<times> 'out list) res" where
  "runs step [] s = Inr (s, [])"
| "runs step (x # xs) s = and_then (step x s) (\<lambda>(s, y). and_then (runs step xs s) (\<lambda>(s, ys). Inr (s, y # ys)))"

fun spec_runs :: "('op \<Rightarrow> 'a \<Rightarrow> ('a \<times> 'out) option) \<Rightarrow> 'op list \<Rightarrow> 'a \<Rightarrow> ('a \<times> 'out list) option" where
  "spec_runs step [] a = Some (a, [])"
| "spec_runs step (x # xs) a = (case step x a of None \<Rightarrow> None
    | Some (a, y) \<Rightarrow> (case spec_runs step xs a of None \<Rightarrow> None | Some (a, ys) \<Rightarrow> Some (a, y # ys)))"

locale simulation =
  fixes step :: "'op \<Rightarrow> 's \<Rightarrow> ('s \<times> 'out) res"
    and spec_step :: "'op \<Rightarrow> 'a \<Rightarrow> ('a \<times> 'out) option"
    and rel :: "'s \<Rightarrow> 'a \<Rightarrow> bool"
  assumes step_sim: "rel s a \<Longrightarrow> spec_step x a = Some (a', y) \<Longrightarrow> \<exists>s'. step x s = Inr (s', y) \<and> rel s' a'"
begin

lemma runs_sim: "rel s a \<Longrightarrow> spec_runs spec_step xs a = Some (a', ys) \<Longrightarrow> \<exists>s'. runs step xs s = Inr (s', ys) \<and> rel s' a'"
proof (induction xs arbitrary: s a ys)
  case Nil
  then show ?case by simp
next
  case (Cons x xs)
  obtain a1 y zs where a: "spec_step x a = Some (a1, y)" "spec_runs spec_step xs a1 = Some (a', zs)" "ys = y # zs"
    using Cons.prems(2) by (auto split: option.splits)
  obtain s1 where s1: "step x s = Inr (s1, y)" "rel s1 a1" using step_sim [OF Cons.prems(1) a(1)] by blast
  from Cons.IH [OF s1(2) a(2)] s1(1) a(3) show ?case by auto
qed

end

end
