(* ===== verification/Rt_Smem_Spec.thy ===== *)
theory Rt_Smem_Spec
  imports Rt_Smem_Inv Rt_Refine
begin

unbundle bit_operations_syntax

text \<open>
  The promises of the system heap: every run from \<open>rt_smem_init\<close> on answers as a first-fit allocator, a block that
  is handed out is new memory, and reallocation keeps the contents.
\<close>

subsection \<open>Runs\<close>

text \<open>Releasing the block whose payload starts at \<open>r\<close>.\<close>

fun release_spec :: "nat \<Rightarrow> nat \<Rightarrow> layout \<Rightarrow> layout option" where
  "release_spec r p [] = None"
| "release_spec r p ((k, u) # bs) =
    (if u \<and> r = p + 64 then Some ((k, False) # bs) else map_option (Cons (k, u)) (release_spec r (p + k) bs))"

lemma release_spec_Some:
  "release_spec r p bs = Some bs' \<Longrightarrow>
    \<exists>xs k ys. bs = xs @ (k, True) # ys \<and> r = p + blen xs + 64 \<and> bs' = xs @ (k, False) # ys"
proof (induction r p bs arbitrary: bs' rule: release_spec.induct)
  case (2 r p k u bs)
  show ?case
  proof (cases "u \<and> r = p + 64")
    case True
    then show ?thesis using 2(2) by (intro exI [of _ "[]"]) auto
  next
    case False
    with 2(2) obtain b where b: "release_spec r (p + k) bs = Some b" "bs' = (k, u) # b" by auto
    from 2(1) [OF False b(1)] obtain xs j ys where
      "bs = xs @ (j, True) # ys" "r = p + k + blen xs + 64" "b = xs @ (j, False) # ys" by blast
    then have "(k, u) # bs = ((k, u) # xs) @ (j, True) # ys \<and> r = p + blen ((k, u) # xs) + 64
        \<and> bs' = ((k, u) # xs) @ (j, False) # ys" using b(2) by simp
    then show ?thesis by blast
  qed
qed simp

datatype smem_op = Alloc u32 | Free u32

definition smem_step :: "smem_op \<Rightarrow> rt_small_mem \<Rightarrow> (rt_small_mem \<times> u32 option) res" where
  "smem_step x m = (case x of Alloc sz \<Rightarrow> rt_smem_alloc sz m
     | Free r \<Rightarrow> and_then (rt_smem_free (Some r) m) (\<lambda>m. Inr (m, None)))"

definition heap_spec :: "smem_op \<Rightarrow> layout \<Rightarrow> (layout \<times> u32 option) option" where
  "heap_spec x bs = (case x of
     Alloc sz \<Rightarrow>
       if 0 < sz \<and> unat sz \<le> 2 ^ 32 - 64
       then Some (case alloc_spec (unat (RT_ALIGN sz 64)) 0 bs of None \<Rightarrow> (bs, None) | Some (r, bs') \<Rightarrow> (bs', Some (of_nat r)))
       else None
   | Free r \<Rightarrow> map_option (\<lambda>bs. (coalesce bs, None)) (release_spec (unat r) 0 bs))"

interpretation smem_sim: simulation smem_step heap_spec smem_wf
proof
  fix m bs x bs' out
  assume wf: "smem_wf m bs" and sp: "heap_spec x bs = Some (bs', out)"
  show "\<exists>m'. smem_step x m = Inr (m', out) \<and> smem_wf m' bs'"
  proof (cases x)
    case (Alloc sz)
    then have sz: "0 < sz" "unat sz \<le> 2 ^ 32 - 64" using sp by (auto simp: heap_spec_def split: if_splits)
    show ?thesis
    proof (cases "alloc_spec (unat (RT_ALIGN sz 64)) 0 bs")
      case None
      then show ?thesis using smem_alloc_None [OF wf sz None] sp wf sz Alloc by (simp add: heap_spec_def smem_step_def)
    next
      case (Some a)
      then obtain r b where "alloc_spec (unat (RT_ALIGN sz 64)) 0 bs = Some (r, b)" by (cases a) auto
      then show ?thesis using smem_alloc_Some [OF wf sz] sp sz Alloc by (auto simp: heap_spec_def smem_step_def)
    qed
  next
    case (Free r)
    then obtain b where b: "release_spec (unat r) 0 bs = Some b" "bs' = coalesce b" "out = None"
      using sp by (auto simp: heap_spec_def)
    from release_spec_Some [OF b(1)] obtain xs k ys where x: "bs = xs @ (k, True) # ys" "unat r = blen xs + 64" "b = xs @ (k, False) # ys"
      by auto
    have "r = of_nat (blen xs + 64)" using x(2) by (rule of_nat_unat_eq)
    then show ?thesis using smem_free_ok [OF wf [unfolded x(1)] refl] Free b x(3) by (auto simp: smem_step_def simp del: of_nat_add)
  qed
qed

fun payloads :: "nat \<Rightarrow> layout \<Rightarrow> (nat \<times> nat) set" where
  "payloads p [] = {}"
| "payloads p ((k, u) # bs) = (if u then insert (p + 64, k - 64) (payloads (p + k) bs) else payloads (p + k) bs)"

lemma payloads_append [simp]: "payloads p (xs @ ys) = payloads p xs \<union> payloads (p + blen xs) ys"
  by (induction p xs rule: payloads.induct) (auto simp: add.assoc)

lemma payloads_range:
  "\<forall>b \<in> set bs. 64 \<le> fst b \<Longrightarrow> (q, l) \<in> payloads p bs \<Longrightarrow> p + 64 \<le> q \<and> q + l \<le> p + blen bs"
proof (induction p bs rule: payloads.induct)
  case (2 p k u bs)
  then show ?case by (cases u) (auto simp: add.assoc)
qed simp

text \<open>
  C2. The system heap is a first-fit allocator. From \<open>rt_smem_init\<close> on, any sequence of \<open>rt_smem_alloc\<close> and
  \<open>rt_smem_free\<close> calls, in which each size is positive and does not overflow when it is rounded up and each
  pointer given back is that of a block in use, returns the pointers of first fit over a list of blocks in
  which a released block is merged with its free neighbours; no assertion fails and no loop runs away, and
  the headers, the lowest free block and the count of bytes in use always describe that list.
\<close>

theorem smem_refines_first_fit:
  assumes "rt_smem_init begin_addr sz items bytes = Some m" and "0 < begin_addr" and "64 \<le> sz"
    and "unat begin_addr + unat sz < 2 ^ 32"
    and "spec_runs heap_spec xs [(unat (mem_size_aligned m) + 64, False)] = Some (bs, outs)"
  shows "\<exists>m'. runs smem_step xs m = Inr (m', outs) \<and> smem_wf m' bs"
  by (rule smem_sim.runs_sim [OF smem_init_wf [OF assms(1-4)] assms(5)])

text \<open>A heap of four kilobytes at address \<open>0x80000000\<close>: three blocks, the middle one released and used again.\<close>

definition demo_heap :: "rt_small_mem option" where
  "demo_heap = rt_smem_init 0x80000000 4096 (\<lambda>_. \<lparr>pool_ptr = 0, item_next = 0, item_prev = 0\<rparr>) (\<lambda>_. 0)"

definition demo_ops :: "smem_op list" where
  "demo_ops = [Alloc 100, Alloc 200, Alloc 50, Free 256, Alloc 120, Free 64]"

theorem smem_refines_first_fit_witness:
  "\<exists>m m' bs. demo_heap = Some m \<and> runs smem_step demo_ops m
    = Inr (m', [Some 64, Some 256, Some 576, None, Some 256, None]) \<and> smem_wf m' bs"
proof -
  have "case demo_heap of None \<Rightarrow> False | Some m \<Rightarrow> mem_size_aligned m = 3904" by code_simp
  then obtain m where m: "demo_heap = Some m" "mem_size_aligned m = 3904" by (auto split: option.splits)
  have "\<exists>bs. spec_runs heap_spec demo_ops [(3968, False)] = Some (bs, [Some 64, Some 256, Some 576, None, Some 256, None])"
    by (simp add: demo_ops_def heap_spec_def RT_ALIGN_def)
  then obtain bs where "spec_runs heap_spec demo_ops [(unat (mem_size_aligned m) + 64, False)]
      = Some (bs, [Some 64, Some 256, Some 576, None, Some 256, None])" using m(2) by auto
  from smem_refines_first_fit [OF m(1) [unfolded demo_heap_def] _ _ _ this] m(1) show ?thesis by auto
qed

lemma smem_alloc_cases:
  assumes "smem_wf m bs" "0 < sz" "unat sz \<le> 2 ^ 32 - 64" "rt_smem_alloc sz m = Inr (m', Some r)"
  shows "\<exists>bs'. alloc_spec (unat (RT_ALIGN sz 64)) 0 bs = Some (unat r, bs') \<and> smem_wf m' bs' \<and> smem_bytes m' = smem_bytes m"
proof (cases "alloc_spec (unat (RT_ALIGN sz 64)) 0 bs")
  case None
  then show ?thesis using smem_alloc_None [OF assms(1-3) None] assms(4) by simp
next
  case (Some a)
  then obtain q b where q: "alloc_spec (unat (RT_ALIGN sz 64)) 0 bs = Some (q, b)" by (cases a) auto
  have "smem_seg m bs" using assms(1) by (simp add: smem_wf_def smem_raw_def)
  then have "q < 2 ^ 32" using alloc_spec_Some [OF q] smem_segD(6) [of m bs] by auto
  then show ?thesis using smem_alloc_Some [OF assms(1-3) q] assms(4) q by auto
qed

lemma alloc_spec_fresh:
  assumes "\<forall>b \<in> set bs. 64 \<le> fst b" "alloc_spec n 0 bs = Some (r, bs')"
  shows "\<exists>len. n \<le> len \<and> payloads 0 bs' = insert (r, len) (payloads 0 bs) \<and> r + len \<le> blen bs'
    \<and> (\<forall>(q, l) \<in> payloads 0 bs. q + l \<le> r - 64 \<or> r + len \<le> q - 64)
    \<and> (\<exists>xs k0 ys. bs' = xs @ (k0, True) # ys \<and> r = blen xs + 64 \<and> k0 = len + 64)"
proof -
  obtain xs k ys where x: "bs = xs @ (k, False) # ys" "n + 64 \<le> k" "r = blen xs + 64" "bs' = xs @ cut_block n k True @ ys"
    using alloc_spec_Some [OF assms(2)] by (auto simp: cut_block_def)
  obtain k0 rest where k0: "cut_block n k True @ ys = (k0, True) # rest" "n + 64 \<le> k0" "k0 \<le> k"
    "payloads (blen xs + k0) rest = payloads (blen xs + k) ys"
    using x(2) by (cases "n + 192 \<le> k") (auto simp: cut_block_def)
  have g: "\<forall>b \<in> set xs. 64 \<le> fst b" "\<forall>b \<in> set ys. 64 \<le> fst b" using assms(1) x(1) by auto
  have p: "payloads 0 bs' = insert (r, k0 - 64) (payloads 0 bs)" using x k0 by auto
  have "q + l \<le> r - 64 \<or> r + (k0 - 64) \<le> q - 64" if "(q, l) \<in> payloads 0 bs" for q l
    using that payloads_range [OF g(1), of q l 0] payloads_range [OF g(2), of q l "blen xs + k"] x(1,3) k0(2,3) by auto
  moreover have "r + (k0 - 64) \<le> blen bs'" using x(3,4) k0 by simp
  ultimately show ?thesis using p x(3,4) k0 by (intro exI [of _ "k0 - 64"]) auto
qed

lemma smem_alloc_new:
  assumes "smem_wf m bs" "0 < sz" "unat sz \<le> 2 ^ 32 - 64" "rt_smem_alloc sz m = Inr (m', Some r)"
  shows "\<exists>bs' len. alloc_spec (unat (RT_ALIGN sz 64)) 0 bs = Some (unat r, bs') \<and> smem_wf m' bs' \<and> unat sz \<le> len
    \<and> payloads 0 bs' = insert (unat r, len) (payloads 0 bs)
    \<and> (heap_ptr m' + r) mod 64 = 0 \<and> unat r + len \<le> unat (heap_end m')
    \<and> (\<forall>(q, l) \<in> payloads 0 bs. q + l \<le> unat r - 64 \<or> unat r + len \<le> q - 64) \<and> smem_bytes m' = smem_bytes m"
proof -
  note al = align_64 [OF assms(2,3)]
  obtain bs' where a: "alloc_spec (unat (RT_ALIGN sz 64)) 0 bs = Some (unat r, bs')" "smem_wf m' bs'" "smem_bytes m' = smem_bytes m"
    using smem_alloc_cases [OF assms] by blast
  have sg: "smem_seg m bs" "smem_seg m' bs'" using assms(1) a(2) by (simp_all add: smem_wf_def smem_raw_def)
  have "\<forall>b \<in> set bs. 64 \<le> fst b" using seg_pos smem_segD(2) [OF sg(1)] by blast
  from alloc_spec_fresh [OF this a(1)] obtain len xs k0 ys where f: "unat (RT_ALIGN sz 64) \<le> len"
    "payloads 0 bs' = insert (unat r, len) (payloads 0 bs)" "unat r + len \<le> blen bs'"
    "\<forall>(q, l) \<in> payloads 0 bs. q + l \<le> unat r - 64 \<or> unat r + len \<le> q - 64"
    "bs' = xs @ (k0, True) # ys" "unat r = blen xs + 64" "k0 = len + 64" by blast
  have "(heap_ptr m' + of_nat (blen xs) + 64) mod 64 = 0"
    using smem_alloc_asserts(2) [of m' xs k0 True ys 0 "blen xs"] sg(2) f(5,7) by simp
  moreover have "r = of_nat (blen xs) + 64" using of_nat_unat_eq [OF f(6)] by simp
  moreover have "unat (heap_end m') = blen bs'" using sg(2) by (simp add: smem_seg_def)
  ultimately show ?thesis using a f(1-4) al(3) by (intro exI [of _ bs'] exI [of _ len]) (auto simp: add.assoc)
qed

text \<open>
  A size above \<open>2 ^ 32 - 64\<close> is rounded up to zero, and the request is served as one of 64 bytes.
\<close>

lemma smem_alloc_size_overflow:
  assumes "2 ^ 32 - 64 < unat (sz :: u32)"
  shows "rt_smem_alloc sz m = rt_smem_alloc 64 m"
proof -
  have "unat sz < 2 ^ 32" using unsigned_less [of sz, where 'a = nat] by simp
  moreover have "unat (sz + 63) = (unat sz + 63) mod 2 ^ 32" by (simp add: unat_word_ariths)
  ultimately have "unat (sz + 63) < 64" using assms by (simp add: mod_if) linarith
  then have "unat (RT_ALIGN_DOWN (sz + 63) 64) = 0" by (simp add: unat_RT_ALIGN_DOWN_64)
  then have "RT_ALIGN sz 64 = 0" by (simp add: unat_eq_zero RT_ALIGN_def RT_ALIGN_DOWN_def algebra_simps)
  moreover have "sz \<noteq> 0" using assms by auto
  ultimately show ?thesis by (simp add: rt_smem_alloc_def Let_def RT_ALIGN_def)
qed

text \<open>The size is rounded up first.\<close>

lemma smem_alloc_aligned:
  assumes "0 < (sz :: u32)"
  shows "unat sz \<le> 2 ^ 32 - 64 \<Longrightarrow> rt_smem_alloc (RT_ALIGN sz 64) m = rt_smem_alloc sz m"
    "unat sz \<le> 2 ^ 32 - 64 \<Longrightarrow> 0 < RT_ALIGN sz 64 \<and> 64 \<le> unat (RT_ALIGN sz 64) \<and> unat (RT_ALIGN sz 64) \<le> 2 ^ 32 - 64
      \<and> unat sz \<le> unat (RT_ALIGN sz 64)"
proof -
  assume s: "unat sz \<le> 2 ^ 32 - 64"
  note a = align_64 [OF assms s]
  have "unat (RT_ALIGN sz 64) < 2 ^ 32" using unsigned_less [of "RT_ALIGN sz 64", where 'a = nat] by simp
  then have u: "unat (RT_ALIGN sz 64) \<le> 2 ^ 32 - 64" using a(2) by (elim dvdE) simp
  show g: "0 < RT_ALIGN sz 64 \<and> 64 \<le> unat (RT_ALIGN sz 64) \<and> unat (RT_ALIGN sz 64) \<le> 2 ^ 32 - 64 \<and> unat sz \<le> unat (RT_ALIGN sz 64)"
    using a u by (simp add: word_less_nat_alt)
  have "(x + 63) div 64 * 64 = x" if "64 dvd x" for x :: nat using that by (elim dvdE) simp
  from this [OF a(2)] have "unat (RT_ALIGN (RT_ALIGN sz 64) 64) = unat (RT_ALIGN sz 64)"
    using a(2) u by (subst unat_RT_ALIGN_64) simp_all
  then have "RT_ALIGN (RT_ALIGN sz 64) 64 = RT_ALIGN sz 64" by (simp only: word_unat_eq_iff)
  then show "rt_smem_alloc (RT_ALIGN sz 64) m = rt_smem_alloc sz m"
    using g assms by (simp add: rt_smem_alloc_def Let_def word_gt_0)
qed

text \<open>
  C30. A block that \<open>rt_smem_alloc\<close> hands out is new memory, whatever the size asked for: its address is a multiple of
  64, it lies in the region, no byte of it and of its header belongs to a block already in use, every block in use stays in
  use with its size, and the contents of the region are left alone. It has at least 64 bytes, and at least the
  bytes asked for if these are at most \<open>2 ^ 32 - 64\<close>. A larger size wraps around to 0 when it is rounded up, and
  then the block may be too small.
\<close>

theorem smem_alloc_fresh:
  assumes "smem_wf m bs" and "rt_smem_alloc sz m = Inr (m', Some r)"
  shows "\<exists>bs' len. smem_wf m' bs' \<and> 64 \<le> len \<and> (unat sz \<le> 2 ^ 32 - 64 \<longrightarrow> unat sz \<le> len)
    \<and> payloads 0 bs' = insert (unat r, len) (payloads 0 bs)
    \<and> (heap_ptr m' + r) mod 64 = 0 \<and> unat r + len \<le> unat (heap_end m')
    \<and> (\<forall>(q, l) \<in> payloads 0 bs. q + l \<le> unat r - 64 \<or> unat r + len \<le> q - 64) \<and> smem_bytes m' = smem_bytes m"
proof -
  have "0 < sz" using assms(2) by (auto simp: rt_smem_alloc_def word_gt_0)
  define z :: u32 where "z = (if unat sz \<le> 2 ^ 32 - 64 then RT_ALIGN sz 64 else 64)"
  have z: "0 < z" "unat z \<le> 2 ^ 32 - 64" "64 \<le> unat z" "unat sz \<le> 2 ^ 32 - 64 \<longrightarrow> unat sz \<le> unat z" "rt_smem_alloc z m = Inr (m', Some r)"
    using smem_alloc_aligned(1) [OF \<open>0 < sz\<close>, of m] smem_alloc_aligned(2) [OF \<open>0 < sz\<close>] smem_alloc_size_overflow [where sz = sz and m = m] assms(2) by (auto simp: z_def not_le)
  from smem_alloc_new [OF assms(1) z(1,2,5)] obtain bs' len where n: "smem_wf m' bs'" "unat z \<le> len"
    "payloads 0 bs' = insert (unat r, len) (payloads 0 bs)" "(heap_ptr m' + r) mod 64 = 0" "unat r + len \<le> unat (heap_end m')"
    "\<forall>(q, l) \<in> payloads 0 bs. q + l \<le> unat r - 64 \<or> unat r + len \<le> q - 64" "smem_bytes m' = smem_bytes m"
    by (elim exE conjE)
  have "64 \<le> len" "unat sz \<le> 2 ^ 32 - 64 \<longrightarrow> unat sz \<le> len" using n(2) z(3,4) le_trans by blast+
  with n show ?thesis by (intro exI [of _ bs'] exI [of _ len] conjI)
qed

theorem smem_alloc_fresh_witness:
  "\<exists>m m' bs len. demo_heap = Some m \<and> rt_smem_alloc 100 m = Inr (m', Some 64) \<and> 100 \<le> len
    \<and> payloads 0 bs = {(64, len)} \<and> smem_wf m' bs"
proof -
  have "case demo_heap of None \<Rightarrow> False | Some m \<Rightarrow> (case rt_smem_alloc 100 m of Inl _ \<Rightarrow> False
      | Inr (m', r) \<Rightarrow> r = Some 64)" by code_simp
  then obtain m m' where m: "demo_heap = Some m" "rt_smem_alloc 100 m = Inr (m', Some 64)"
    by (auto split: option.splits sum.splits)
  have wf: "smem_wf m [(unat (mem_size_aligned m) + 64, False)]" using m(1) smem_init_wf by (simp add: demo_heap_def)
  from smem_alloc_fresh [OF wf m(2)] m show ?thesis by auto
qed

subsection \<open>Reallocation\<close>

text \<open>Blocks in use stay where they are when another block is allocated.\<close>

lemma alloc_spec_keeps:
  "alloc_spec n p (xs @ (k, True) # ys) = Some (q, bs') \<Longrightarrow>
    \<exists>xs' ys'. bs' = xs' @ (k, True) # ys' \<and> blen xs' = blen xs"
proof (induction xs arbitrary: p bs')
  case Nil
  then obtain b where "bs' = [] @ (k, True) # b" by auto
  then show ?case by (metis blen_simps(1))
next
  case (Cons b xs)
  obtain j u where b: "b = (j, u)" by (cases b)
  show ?case
  proof (cases "\<not> u \<and> n + 64 \<le> j")
    case True
    then have "bs' = (cut_block n j True @ xs) @ (k, True) # ys" using Cons.prems b by (auto simp: cut_block_def)
    moreover have "blen (cut_block n j True @ xs) = blen (b # xs)" using b by (simp add: cut_block_def)
    ultimately show ?thesis by blast
  next
    case False
    then obtain b' where b': "alloc_spec n (p + j) (xs @ (k, True) # ys) = Some (q, b')" "bs' = (j, u) # b'"
      using Cons.prems b by auto
    obtain xs' ys' where "b' = xs' @ (k, True) # ys'" "blen xs' = blen xs" using Cons.IH [OF b'(1)] by blast
    then have "bs' = ((j, u) # xs') @ (k, True) # ys'" "blen ((j, u) # xs') = blen (b # xs)" using b' b by simp_all
    then show ?thesis by blast
  qed
qed

lemma smem_wf_bytes [simp]: "smem_wf (m\<lparr>smem_bytes := g\<rparr>) bs = smem_wf m bs"
  by (simp add: smem_wf_def smem_raw_def)

lemma payloads_Cons: "payloads p (b # bs) = (if snd b then {(p + 64, fst b - 64)} else {}) \<union> payloads (p + fst b) bs"
  by (cases b) auto

lemma payloads_coalesce: "payloads p (coalesce bs) = payloads p bs"
proof (induction bs arbitrary: p rule: coalesce.induct, goal_cases)
  case (4 x vb va p)
  then show ?case by (simp only: coalesce.simps payloads_Cons [of p x])
qed (simp_all add: add.assoc)

lemma payloads_remove:
  assumes "smem_seg m (xs @ (k, u) # ys)"
  shows "payloads 0 (xs @ (k, False) # ys) = payloads 0 (xs @ (k, True) # ys) - {(blen xs + 64, k - 64)}"
proof -
  have "\<forall>b \<in> set (xs @ (k, u) # ys). 64 \<le> fst b" using seg_pos smem_segD(2) [OF assms] by blast
  then have g: "\<forall>b \<in> set xs. 64 \<le> fst b" "\<forall>b \<in> set ys. 64 \<le> fst b" "64 \<le> k" by auto
  have "(blen xs + 64, k - 64) \<notin> payloads 0 xs" using payloads_range [OF g(1), of "blen xs + 64" "k - 64" 0] g(3) by auto
  moreover have "(blen xs + 64, k - 64) \<notin> payloads (blen xs + k) ys"
    using payloads_range [OF g(2), of "blen xs + 64" "k - 64" "blen xs + k"] g(3) by auto
  ultimately show ?thesis by auto
qed

lemma realloc_block:
  assumes "smem_wf m (xs @ (k, True) # ys)" "p = blen xs"
  shows "item_next (smem_item m (of_nat p)) - of_nat p - 64 = (of_nat (k - 64) :: u32)" "unat (of_nat (k - 64) :: u32) = k - 64"
    "64 dvd k" "128 \<le> k" "k + 128 \<le> 2 ^ 32" "smem_seg m (xs @ (k, True) # ys)"
proof -
  show s: "smem_seg m (xs @ (k, True) # ys)" and k: "128 \<le> k" using assms(1) by (auto simp: smem_wf_def smem_raw_def)
  note b = smem_seg_block [OF s assms(2)]
  show "64 dvd k" "k + 128 \<le> 2 ^ 32" using b(4,6) by simp_all
  show "item_next (smem_item m (of_nat p)) - of_nat p - 64 = (of_nat (k - 64) :: u32)" using b(1) k by (simp add: of_nat_diff)
  show "unat (of_nat (k - 64) :: u32) = k - 64" by (rule unat_of_nat_small) (use b(6) in simp)
qed

text \<open>Shrinking in place.\<close>

lemma realloc_shrink:
  assumes "smem_wf m (xs @ (k, True) # ys)" "p = blen xs" "n + 192 \<le> k" "64 dvd n" "64 \<le> n"
    "m1 = smem_cut (of_nat p) (of_nat n) (m\<lparr>smem_used := smem_used m - (of_nat (k - 64) - of_nat n)\<rparr>)"
    "m2 = (if of_nat (p + 64 + n) < lfree m1 then m1\<lparr>lfree := of_nat (p + 64 + n)\<rparr> else m1)"
  shows "\<exists>m'. plug_holes (of_nat (p + 64 + n)) m2 = Inr m'
    \<and> smem_wf m' (coalesce (xs @ (n + 64, True) # (k - (n + 64), False) # ys)) \<and> smem_bytes m' = smem_bytes m"
proof -
  let ?k = "k - (n + 64)" and ?xs = "xs @ [(n + 64, True)]" and ?q = "p + 64 + n"
  note rb = realloc_block [OF assms(1,2)]
  have rw: "smem_raw m (xs @ (k, True) # ys)" and na: "no_adjacent (xs @ (k, True) # ys)" 
    and bg: "\<forall>b \<in> set (xs @ ys). snd b \<longrightarrow> 128 \<le> fst b" using assms(1) by (auto simp: smem_wf_def)
  note r = smem_rawD [OF rw]
  let ?m0 = "m\<lparr>smem_used := smem_used m - (of_nat (k - 64) - of_nat n)\<rparr>"
  have k: "n + 128 \<le> k" using assms(3) by simp
  have "smem_seg ?m0 (xs @ (k, True) # ys)" using rb(6) by simp
  note c = smem_cut_seg [OF this assms(2) k assms(4), folded assms(6)]
  obtain it where it: "m1 = ?m0\<lparr>smem_items := it\<rparr>" using c(2) by blast
  have s: "smem_seg m2 (?xs @ (?k, False) # ys)" using c(1) by (simp add: assms(7))
  have q: "?q = blen ?xs" using assms(2) by simp
  have bl: "blen (?xs @ (?k, False) # ys) = blen (xs @ (k, True) # ys)" using k by simp
  note d = smem_segD [OF s]
  have lt: "?q < 2 ^ 32" "first_free 0 (xs @ (k, True) # ys) < 2 ^ 32"
    using d(6) bl first_free_bounds(2) [of 0 "xs @ (k, True) # ys"] q by auto
  have "smem_raw m2 (?xs @ (?k, False) # ys)"
  proof -
    have "first_free 0 (?xs @ (?k, True) # ys) = first_free 0 (xs @ (k, True) # ys)" using k by (simp add: first_free_append)
    then have f: "first_free 0 (?xs @ (?k, False) # ys) = min ?q (first_free 0 (xs @ (k, True) # ys))"
      using first_free_release [OF s] q by simp
    have lf: "lfree m1 = of_nat (first_free 0 (xs @ (k, True) # ys))" using r(2) it by simp
    have "unat (lfree m2) = first_free 0 (?xs @ (?k, False) # ys)"
      unfolding f assms(7) lf using u32_of_nat(2) [OF lt] lt by (simp add: lf del: of_nat_add)
    moreover have u: "unat (smem_used m2) = busy (?xs @ (?k, False) # ys)"
    proof -
      have "smem_used m2 = of_nat (busy (xs @ (k, True) # ys)) - (of_nat (k - 64) - of_nat n)"
        using r(3) it by (simp add: assms(7))
      also have "\<dots> = of_nat (busy (?xs @ (?k, False) # ys))" using k by (simp add: of_nat_diff)
      finally show ?thesis using busy_le_blen [of "?xs @ (?k, False) # ys"] d(6)
        by (simp only:) (rule unat_of_nat_small, simp)
    qed
    moreover have "smem_used m2 \<le> smem_max m2"
    proof -
      have "unat (smem_used m2) \<le> unat (smem_used m)" using u rw k by (simp add: smem_raw_def)
      moreover have "smem_max m2 = smem_max m" using it by (simp add: assms(7))
      ultimately show ?thesis using r(4) by (simp add: word_le_nat_alt)
    qed
    ultimately show ?thesis using s by (simp add: smem_raw_def)
  qed
  moreover have "no_adjacent (?xs @ (?k, True) # ys)" using na by (auto simp: no_adjacent_append)
  moreover have "\<forall>b \<in> set (?xs @ ys). snd b \<longrightarrow> 128 \<le> fst b" using bg assms(5) by auto
  moreover have "smem_bytes m2 = smem_bytes m" using it by (simp add: assms(7))
  ultimately show ?thesis using plug_holes_ok [of m2 ?xs ?k ys ?q] q by (simp add: add.assoc add.commute [of 64])
qed

text \<open>What a successful reallocation promises.\<close>

definition moved :: "layout \<Rightarrow> nat \<Rightarrow> nat \<Rightarrow> nat \<Rightarrow> rt_small_mem \<Rightarrow> rt_small_mem \<Rightarrow> u32 \<Rightarrow> bool" where
  "moved bs p k newsize m m' r \<longleftrightarrow> (\<exists>bs' len. smem_wf m' bs' \<and> newsize \<le> len
     \<and> payloads 0 bs' = insert (unat r, len) (payloads 0 bs - {(p + 64, k - 64)})
     \<and> (\<forall>i < min (k - 64) newsize. smem_bytes m' (unat r + i) = smem_bytes m (p + 64 + i))
     \<and> (\<forall>a. a < unat r \<or> unat r + len \<le> a \<longrightarrow> smem_bytes m' a = smem_bytes m a))"

lemma realloc_move:
  assumes "smem_wf m (xs @ (k, True) # ys)" "p = blen xs" "0 < sz" "unat sz \<le> 2 ^ 32 - 64"
    "rt_smem_alloc sz m = Inr (m1, Some d)"
  shows "\<exists>m'. rt_smem_free (Some (of_nat (p + 64))) (smem_copy d (of_nat (p + 64)) (if of_nat (k - 64) < sz then of_nat (k - 64) else sz) m1) = Inr m'
    \<and> moved (xs @ (k, True) # ys) p k (unat sz) m m' d"
proof -
  let ?bs = "xs @ (k, True) # ys" and ?c = "if of_nat (k - 64) < sz then of_nat (k - 64) else sz :: u32"
  note rb = realloc_block [OF assms(1,2)]
  obtain b1 len where a: "alloc_spec (unat (RT_ALIGN sz 64)) 0 ?bs = Some (unat d, b1)" "smem_wf m1 b1" "unat sz \<le> len"
    "payloads 0 b1 = insert (unat d, len) (payloads 0 ?bs)"
    "\<forall>(q, l) \<in> payloads 0 ?bs. q + l \<le> unat d - 64 \<or> unat d + len \<le> q - 64" "smem_bytes m1 = smem_bytes m"
    using smem_alloc_new [OF assms(1,3-5)] by blast
  obtain xs' ys' where b1: "b1 = xs' @ (k, True) # ys'" "blen xs' = p" using alloc_spec_keeps [OF a(1)] assms(2) by blast
  let ?m2 = "smem_copy d (of_nat (p + 64)) ?c m1"
  have wf2: "smem_wf ?m2 (xs' @ (k, True) # ys')" using a(2) b1 by (simp add: smem_copy_def)
  obtain m' where m': "rt_smem_free (Some (of_nat (p + 64))) ?m2 = Inr m'" "smem_wf m' (coalesce (xs' @ (k, False) # ys'))"
    "smem_bytes m' = smem_bytes ?m2" using smem_free_ok [OF wf2 b1(2) [symmetric]] by blast
  have c: "unat ?c = min (k - 64) (unat sz)" using rb(2) by (auto simp: word_less_nat_alt min_def)
  have p64: "unat (of_nat (p + 64) :: u32) = p + 64"
    by (rule unat_of_nat_small) (use smem_seg_block(6) [OF rb(6) assms(2)] rb(4) in simp)
  have by': "smem_bytes m' x = (if unat d \<le> x \<and> x < unat d + min (k - 64) (unat sz) then smem_bytes m (p + 64 + (x - unat d))
      else smem_bytes m x)" for x unfolding m'(3) smem_copy_def c p64 a(6) by simp
  have ne: "(unat d, len) \<noteq> (p + 64, k - 64)"
    using a(5) assms(2) rb(4) by auto
  have pl: "payloads 0 (coalesce (xs' @ (k, False) # ys')) = insert (unat d, len) (payloads 0 ?bs - {(p + 64, k - 64)})"
    using payloads_remove [OF realloc_block(6) [OF wf2 refl]] a(4) b1 ne by (auto simp: payloads_coalesce)
  have "moved ?bs p k (unat sz) m m' d" unfolding moved_def
    using m'(2) a(3) pl by' by (intro exI [of _ "coalesce (xs' @ (k, False) # ys')"] exI [of _ len]) auto
  then show ?thesis using m'(1) by blast
qed

lemma shrink_test: "64 dvd x \<Longrightarrow> 64 dvd y \<Longrightarrow> 128 \<le> y \<Longrightarrow> (x + 76 < y - 64) = (x + 192 \<le> y)" for x y :: nat
proof -
  assume d: "64 dvd x" "64 dvd y" "128 \<le> y"
  obtain a b where "x = 64 * a" "y = 64 * b" using d(1,2) by (elim dvdE)
  then show ?thesis using d(3) by (cases "a + 3 \<le> b") auto
qed

lemma u32_lt: "unat (w :: u32) < 2 ^ 32"
  using unsigned_less [of w, where 'a = nat] by simp

lemma realloc_cases:
  assumes "smem_wf m (xs @ (k, True) # ys)" "p = blen xs" "0 < newsize" "unat newsize \<le> 2 ^ 32 - 64"
    "n = unat (RT_ALIGN newsize 64)" "\<not> mem_size_aligned m < RT_ALIGN newsize 64"
    "m1 = smem_cut (of_nat p) (of_nat n) (m\<lparr>smem_used := smem_used m - (of_nat (k - 64) - of_nat n)\<rparr>)"
    "m2 = (if of_nat (p + 64 + n) < lfree m1 then m1\<lparr>lfree := of_nat (p + 64 + n)\<rparr> else m1)"
  shows "rt_smem_realloc (Some (of_nat (p + 64))) newsize m =
    (if k - 64 = n then Inr (m, Some (of_nat (p + 64)))
     else if n + 192 \<le> k then and_then (plug_holes (of_nat (p + 64 + n)) m2) (\<lambda>m. Inr (m, Some (of_nat (p + 64))))
     else and_then (rt_smem_alloc (of_nat n) m) (\<lambda>(m, nmem). case nmem of None \<Rightarrow> Inr (m, None)
       | Some d \<Rightarrow> and_then (rt_smem_free (Some (of_nat (p + 64)))
           (smem_copy d (of_nat (p + 64)) (if of_nat (k - 64) < (of_nat n :: u32) then of_nat (k - 64) else of_nat n) m)) (\<lambda>m. Inr (m, nmem))))"
proof -
  let ?sz = "RT_ALIGN newsize 64"
  note al = align_64 [OF assms(3,4), folded assms(5)]
  note rb = realloc_block [OF assms(1,2)]
  note pt = smem_pointer_ok [OF rb(6) assms(2) rb(4)]
  have sz: "?sz = of_nat n" "?sz \<noteq> 0" "n < 2 ^ 32" using al(1) assms(5) u32_lt [of ?sz] by auto
  have "unat (mem_size_aligned m) + 64 = blen (xs @ (k, True) # ys)" using rb(6) by (simp add: smem_seg_def)
  then have n76: "n + 76 < 2 ^ 32" using assms(5,6) smem_segD(6) [OF rb(6)] by (simp add: word_less_nat_alt)
  have t: "((of_nat n + 64 + 12 :: u32) < of_nat (k - 64)) = (n + 192 \<le> k)"
    using u32_of_nat(2) [of "n + 76" "k - 64"] n76 rb(5) shrink_test [OF al(2) rb(3,4)] by (simp add: add.commute)
  have e: "(of_nat (k - 64) = (of_nat n :: u32)) = (k - 64 = n)" using u32_of_nat(3) [of "k - 64" n] sz(3) rb(5) by simp
  have q: "(of_nat p + 64 + of_nat n :: u32) = of_nat (p + 64 + n)" "of_nat (p + 64) - 64 = (of_nat p :: u32)" by simp_all
  show ?thesis
    unfolding rt_smem_realloc_def Let_def smem_consts option.case sz(1) q(2) rb(1) e t q(1) assms(7,8)
    using assms(6) sz pt by (simp only: sz(1) rt_assert_True if_False simp_thms)
qed

lemma moved_mono: "moved bs p k n m m' r \<Longrightarrow> n' \<le> n \<Longrightarrow> moved bs p k n' m m' r"
proof -
  assume "moved bs p k n m m' r" "n' \<le> n"
  then obtain bs' len where "smem_wf m' bs'" "n' \<le> len" "payloads 0 bs' = insert (unat r, len) (payloads 0 bs - {(p + 64, k - 64)})"
    "\<forall>i < min (k - 64) n. smem_bytes m' (unat r + i) = smem_bytes m (p + 64 + i)" "n' \<le> n"
    "\<forall>a. a < unat r \<or> unat r + len \<le> a \<longrightarrow> smem_bytes m' a = smem_bytes m a" unfolding moved_def by (auto dest: le_trans)
  then show ?thesis unfolding moved_def by (intro exI [of _ bs'] exI [of _ len]) simp
qed

lemma moved_in_place:
  assumes "smem_wf m (xs @ (k, True) # ys)" "p = blen xs" "smem_wf m' bs'" "n + 64 \<le> k" "smem_bytes m' = smem_bytes m"
    "payloads 0 bs' = insert (p + 64, n) (payloads 0 (xs @ (k, False) # ys))"
  shows "moved (xs @ (k, True) # ys) p k n m m' (of_nat (p + 64))"
proof -
  note rb = realloc_block [OF assms(1,2)]
  have "unat (of_nat (p + 64) :: u32) = p + 64"
    by (rule unat_of_nat_small) (use smem_seg_block(6) [OF rb(6) assms(2)] rb(4) in simp)
  then show ?thesis unfolding moved_def using assms payloads_remove [OF rb(6)]
    by (intro exI [of _ bs'] exI [of _ n]) simp
qed

lemma realloc_copy:
  assumes "smem_wf m (xs @ (k, True) # ys)" "p = blen xs" "64 \<le> n" "64 dvd n" "n = unat (RT_ALIGN (newsize :: u32) 64)"
  shows "\<exists>m' res. and_then (rt_smem_alloc (of_nat n) m) (\<lambda>(m, nmem). case nmem of None \<Rightarrow> Inr (m, None)
       | Some d \<Rightarrow> and_then (rt_smem_free (Some (of_nat (p + 64)))
           (smem_copy d (of_nat (p + 64)) (if of_nat (k - 64) < (of_nat n :: u32) then of_nat (k - 64) else of_nat n) m)) (\<lambda>m. Inr (m, nmem)))
    = Inr (m', res) \<and> (case res of None \<Rightarrow> m' = m | Some r \<Rightarrow> moved (xs @ (k, True) # ys) p k n m m' r)"
proof -
  let ?sz = "of_nat n :: u32"
  have "n < 2 ^ 32" using assms(5) u32_lt by simp
  moreover have "x < 2 ^ 32 \<Longrightarrow> 64 dvd x \<Longrightarrow> x \<le> 2 ^ 32 - 64" for x :: nat by (auto elim!: dvdE)
  ultimately have sz: "0 < ?sz" "unat ?sz \<le> 2 ^ 32 - 64" "unat ?sz = n" using assms(3,4) by (auto simp: word_less_nat_alt)
  show ?thesis
  proof (cases "alloc_spec (unat (RT_ALIGN ?sz 64)) 0 (xs @ (k, True) # ys)")
    case None
    then show ?thesis using smem_alloc_None [OF assms(1) sz(1,2)] by simp
  next
    case (Some a)
    then obtain q b where "alloc_spec (unat (RT_ALIGN ?sz 64)) 0 (xs @ (k, True) # ys) = Some (q, b)" by (cases a) auto
    then obtain m1 where m1: "rt_smem_alloc ?sz m = Inr (m1, Some (of_nat q))" using smem_alloc_Some [OF assms(1) sz(1,2)] by blast
    from realloc_move [OF assms(1,2) sz(1,2) m1] m1 sz(3) show ?thesis by auto
  qed
qed

lemma smem_realloc_ok:
  assumes "smem_wf m (xs @ (k, True) # ys)" and "0 < newsize" and "unat newsize \<le> 2 ^ 32 - 64"
  shows "\<exists>m' res. rt_smem_realloc (Some (of_nat (blen xs + 64))) newsize m = Inr (m', res)
    \<and> (case res of None \<Rightarrow> m' = m | Some r \<Rightarrow> moved (xs @ (k, True) # ys) (blen xs) k (unat newsize) m m' r)"
proof (cases "mem_size_aligned m < RT_ALIGN newsize 64")
  case True
  then show ?thesis by (intro exI [of _ m] exI [of _ None]) (simp add: rt_smem_realloc_def Let_def)
next
  case False
  let ?p = "blen xs" and ?bs = "xs @ (k, True) # ys"
  define n where "n = unat (RT_ALIGN newsize 64)"
  note al = align_64 [OF assms(2,3), folded n_def]
  note rb = realloc_block [OF assms(1) refl]
  note rc = realloc_cases [OF assms(1) refl assms(2,3) n_def False refl refl]
  note mono = moved_mono [OF _ al(3)]
  consider "k - 64 = n" | "k - 64 \<noteq> n" "n + 192 \<le> k" | "k - 64 \<noteq> n" "\<not> n + 192 \<le> k" by blast
  then show ?thesis
  proof cases
    case 1
    have "moved ?bs ?p k n m m (of_nat (?p + 64))"
      by (rule moved_in_place [OF assms(1) refl assms(1)]) (use 1 rb(4) in auto)
    then show ?thesis using rc 1 mono by auto
  next
    case 2
    then obtain m' where m': "rt_smem_realloc (Some (of_nat (?p + 64))) newsize m = Inr (m', Some (of_nat (?p + 64)))"
      "smem_wf m' (coalesce (xs @ (n + 64, True) # (k - (n + 64), False) # ys))" "smem_bytes m' = smem_bytes m"
      using realloc_shrink [OF assms(1) refl 2(2) al(2,1) refl refl] rc by auto
    have "moved ?bs ?p k n m m' (of_nat (?p + 64))"
      by (rule moved_in_place [OF assms(1) refl m'(2) _ m'(3)]) (use 2 in \<open>auto simp: payloads_coalesce\<close>)
    then show ?thesis using m'(1) mono by auto
  next
    case 3
    have "\<exists>m' res. rt_smem_realloc (Some (of_nat (?p + 64))) newsize m = Inr (m', res)
        \<and> (case res of None \<Rightarrow> m' = m | Some r \<Rightarrow> moved ?bs ?p k n m m' r)"
      unfolding rc using realloc_copy [OF assms(1) refl al(1,2) n_def] by (simp only: 3 if_False)
    then obtain m' res where r: "rt_smem_realloc (Some (of_nat (?p + 64))) newsize m = Inr (m', res)"
      "case res of None \<Rightarrow> m' = m | Some r \<Rightarrow> moved ?bs ?p k n m m' r" by blast
    then show ?thesis using mono by (cases res) auto
  qed
qed

text \<open>A size of 0, and one that is rounded up to 0, releases the block.\<close>

lemma align_wraps:
  assumes "sz = 0 \<or> 2 ^ 32 - 64 < unat (sz :: u32)"
  shows "RT_ALIGN sz 64 = 0"
proof -
  have "unat sz < 2 ^ 32" using unsigned_less [of sz, where 'a = nat] by simp
  moreover have "unat (sz + 63) = (unat sz + 63) mod 2 ^ 32" by (simp add: unat_word_ariths)
  ultimately have "unat (sz + 63) < 64" using assms by (auto simp: mod_if)
  then have "unat (RT_ALIGN_DOWN (sz + 63) 64) = 0" by (simp add: unat_RT_ALIGN_DOWN_64)
  then show ?thesis by (simp add: unat_eq_zero RT_ALIGN_def RT_ALIGN_DOWN_def algebra_simps)
qed

lemma smem_realloc_zero:
  assumes "smem_wf m (xs @ (k, True) # ys)" and "newsize = 0 \<or> 2 ^ 32 - 64 < unat newsize"
  shows "\<exists>m' bs'. rt_smem_realloc (Some (of_nat (blen xs + 64))) newsize m = Inr (m', None) \<and> smem_bytes m' = smem_bytes m
    \<and> smem_wf m' bs' \<and> payloads 0 bs' = payloads 0 (xs @ (k, True) # ys) - {(blen xs + 64, k - 64)}"
proof -
  obtain m' where m': "rt_smem_free (Some (of_nat (blen xs + 64))) m = Inr m'" "smem_wf m' (coalesce (xs @ (k, False) # ys))"
    "smem_bytes m' = smem_bytes m" using smem_free_ok [OF assms(1) refl] by blast
  have "payloads 0 (coalesce (xs @ (k, False) # ys)) = payloads 0 (xs @ (k, True) # ys) - {(blen xs + 64, k - 64)}"
    using payloads_remove [OF realloc_block(6) [OF assms(1) refl]] by (simp add: payloads_coalesce)
  then show ?thesis using m' align_wraps [OF assms(2)]
    by (intro exI [of _ m'] exI [of _ "coalesce (xs @ (k, False) # ys)"]) (simp add: rt_smem_realloc_def Let_def)
qed

text \<open>
  C31. \<open>rt_smem_realloc\<close> of a block in use always returns. For a new size from 1 to \<open>2 ^ 32 - 64\<close> it either returns null, and
  the heap is as before, or the block it returns has the new size, holds the old contents up to the smaller of the two
  sizes, replaces the old block among the blocks in use, and every byte outside the returned block is unchanged. For size 0, and for
  a larger size, which is rounded up to 0, it returns null and has released the block and nothing else.
\<close>

theorem smem_realloc_keeps_content:
  assumes "smem_wf m (xs @ (k, True) # ys)"
  shows "\<exists>m' res. rt_smem_realloc (Some (of_nat (blen xs + 64))) newsize m = Inr (m', res)
    \<and> (if 0 < newsize \<and> unat newsize \<le> 2 ^ 32 - 64
       then case res of None \<Rightarrow> m' = m | Some r \<Rightarrow> moved (xs @ (k, True) # ys) (blen xs) k (unat newsize) m m' r
       else res = None \<and> smem_bytes m' = smem_bytes m
         \<and> (\<exists>bs'. smem_wf m' bs' \<and> payloads 0 bs' = payloads 0 (xs @ (k, True) # ys) - {(blen xs + 64, k - 64)}))"
proof (cases "0 < newsize \<and> unat newsize \<le> 2 ^ 32 - 64")
  case True
  then show ?thesis using smem_realloc_ok [OF assms, of newsize] by (simp only: if_P simp_thms)
next
  case False
  then have "newsize = 0 \<or> 2 ^ 32 - 64 < unat newsize" by (auto simp: word_gt_0 not_le)
  from smem_realloc_zero [OF assms this] show ?thesis using False by (simp only: if_not_P simp_thms if_False) blast
qed

theorem smem_realloc_keeps_content_witness:
  "\<exists>m m1 m' res. demo_heap = Some m \<and> rt_smem_alloc 100 m = Inr (m1, Some 64)
    \<and> rt_smem_realloc (Some 64) 1000 m1 = Inr (m', res)
    \<and> (case res of None \<Rightarrow> m' = m1 | Some r \<Rightarrow> moved [(192, True), (3776, False)] 0 192 1000 m1 m' r)"
proof -
  have "case demo_heap of None \<Rightarrow> False | Some m \<Rightarrow> (case rt_smem_alloc 100 m of Inl _ \<Rightarrow> False
      | Inr (m', r) \<Rightarrow> r = Some 64 \<and> mem_size_aligned m = 3904)" by code_simp
  then obtain m m1 where m: "demo_heap = Some m" "rt_smem_alloc 100 m = Inr (m1, Some 64)" "mem_size_aligned m = 3904"
    by (auto split: option.splits sum.splits)
  have "smem_wf m [(3968, False)]" using m(1,3) smem_init_wf [of _ _ _ _ m] by (simp add: demo_heap_def)
  from smem_alloc_cases [OF this _ _ m(2)] have "smem_wf m1 ([] @ (192, True) # [(3776, False)])" by (simp add: RT_ALIGN_def)
  from smem_realloc_keeps_content [OF this, of 1000] m(1,2) show ?thesis by (auto cong: option.case_cong)
qed

end
