(* ===== verification/Rt_Mempool.thy ===== *)
theory Rt_Mempool
  imports Rt_Wait Rt_Refine
begin

unbundle bit_operations_syntax

text \<open>
  Memory pools, \<open>src/mempool.c\<close>: blocks of one size behind a header word each. The header of a free block
  points to the next free block, that of a block in use to the pool. An address is its distance from
  \<open>start_address\<close>; \<open>mp_extent\<close> is the number of bytes that are really there. A thread that finds no block waits in
  the list \<open>MpQ\<close>. The pool is a free list; it refines the specification below.
\<close>

subsection \<open>The pool\<close>

datatype block_word = Link "u32 option" | Owner | Data

record rt_mempool =
  mp_size :: u32
  mp_block_size :: u32
  block_list :: "u32 option"
  block_total_count :: u32
  block_free_count :: u32
  mp_extent :: nat
  mp_words :: "u32 \<Rightarrow> block_word"

definition mp_write :: "u32 \<Rightarrow> block_word \<Rightarrow> rt_mempool \<Rightarrow> rt_mempool res" where
  "mp_write a w mp = (if unat a + 4 \<le> mp_extent mp then Inr (mp\<lparr>mp_words := (mp_words mp)(a := w)\<rparr>) else Inl OutOfBounds)"

definition mp_read :: "u32 \<Rightarrow> rt_mempool \<Rightarrow> block_word res" where
  "mp_read a mp = (if unat a + 4 \<le> mp_extent mp then Inr (mp_words mp a) else Inl OutOfBounds)"

definition mp_stride :: "rt_mempool \<Rightarrow> u32" where
  "mp_stride mp = mp_block_size mp + 4"

text \<open>The loop over the blocks links each to the next; the last link is then cleared.\<close>

fun mp_link_each :: "nat list \<Rightarrow> rt_mempool \<Rightarrow> rt_mempool res" where
  "mp_link_each [] mp = Inr mp"
| "mp_link_each (k # ks) mp =
    and_then (mp_write (of_nat k * mp_stride mp) (Link (Some ((of_nat k + 1) * mp_stride mp))) mp) (mp_link_each ks)"

definition mp_link_blocks :: "rt_mempool \<Rightarrow> rt_mempool res" where
  "mp_link_blocks mp =
    and_then (mp_link_each [0..<unat (block_total_count mp)] mp) (\<lambda>mp.
    and_then (mp_write ((block_total_count mp - 1) * mp_stride mp) (Link None) mp) (\<lambda>mp.
      Inr (mp\<lparr>block_list := Some 0\<rparr>)))"

subsection \<open>Life of a pool\<close>

definition rt_mp_init :: "nat \<Rightarrow> (u32 \<Rightarrow> block_word) \<Rightarrow> u32 \<Rightarrow> u32 \<Rightarrow> kernel \<Rightarrow> (rt_mempool \<times> kernel) res" where
  "rt_mp_init i mem sz block_sz s =
    rt_assert (0 < sz \<and> 0 < block_sz)
      (let msz = RT_ALIGN_DOWN sz 64; bsz = RT_ALIGN block_sz 64; n = msz div (bsz + 4);
           mp = \<lparr>mp_size = msz, mp_block_size = bsz, block_list = None, block_total_count = n, block_free_count = n,
                 mp_extent = unat sz, mp_words = mem\<rparr>;
           s = s\<lparr>queues := (queues s)(MpQ i := [])\<rparr>
       in and_then (mp_link_blocks mp) (\<lambda>mp. Inr (mp, s)))"

text \<open>
  \<open>alloc_obj\<close> says whether the object could be allocated, \<open>alloc\<close> gives the memory for a number of bytes. The
  number of bytes is a product of 32 bits.
\<close>

definition rt_mp_create ::
  "cpuid \<Rightarrow> nat \<Rightarrow> bool \<Rightarrow> (u32 \<Rightarrow> (u32 \<Rightarrow> block_word) option) \<Rightarrow> u32 \<Rightarrow> u32 \<Rightarrow> kernel \<Rightarrow> (rt_mempool option \<times> kernel) res" where
  "rt_mp_create c i alloc_obj alloc block_count block_sz s =
    rt_assert (rt_interrupt_get_nest c s = 0) (rt_assert (0 < block_count \<and> 0 < block_sz)
     (if \<not> alloc_obj then Inr (None, s)
      else let bsz = RT_ALIGN block_sz 64; msz = (bsz + 4) * block_count in
        case alloc msz of None \<Rightarrow> Inr (None, s)
        | Some mem \<Rightarrow>
           let mp = \<lparr>mp_size = msz, mp_block_size = bsz, block_list = None, block_total_count = block_count,
                     block_free_count = block_count, mp_extent = unat msz, mp_words = mem\<rparr>;
               s = s\<lparr>queues := (queues s)(MpQ i := [])\<rparr>
           in and_then (mp_link_blocks mp) (\<lambda>mp. Inr (Some mp, s))))"

definition rt_mp_detach :: "cpuid \<Rightarrow> nat \<Rightarrow> kernel \<Rightarrow> kernel res" where
  "rt_mp_detach c i s = ipc_list_resume_all c (MpQ i) s"

definition rt_mp_delete :: "cpuid \<Rightarrow> nat \<Rightarrow> kernel \<Rightarrow> kernel res" where
  "rt_mp_delete c i s = rt_assert (rt_interrupt_get_nest c s = 0) (ipc_list_resume_all c (MpQ i) s)"

subsection \<open>Taking a block\<close>

datatype mp_outcome = Returned "u32 option" | Suspended

text \<open>
  The end of \<open>rt_mp_alloc\<close>. A header that is not a link would be followed out of the pool.
\<close>

definition mp_take :: "rt_mempool \<Rightarrow> (rt_mempool \<times> u32) res" where
  "mp_take mp =
    (let mp = mp\<lparr>block_free_count := block_free_count mp - 1\<rparr> in
     case block_list mp of None \<Rightarrow> Inl AssertFail
     | Some b \<Rightarrow> and_then (mp_read b mp) (\<lambda>w. case w of
         Link nxt \<Rightarrow> and_then (mp_write b Owner (mp\<lparr>block_list := nxt\<rparr>)) (\<lambda>mp. Inr (mp, b + 4))
       | _ \<Rightarrow> Inl OutOfBounds))"

text \<open>A thread without a block: the newest goes to the front of the waiting list.\<close>

definition mp_block :: "cpuid \<Rightarrow> nat \<Rightarrow> 32 word \<Rightarrow> kernel \<Rightarrow> kernel res" where
  "mp_block c i time s =
    rt_assert (rt_interrupt_get_nest c s = 0)
     (case rt_thread_self c s of None \<Rightarrow> Inl NullDeref
      | Some t \<Rightarrow>
         let s = upd_thread t (\<lambda>th. th\<lparr>error := RT_EOK\<rparr>) s in
         and_then (rt_thread_suspend c t s) (\<lambda>(s, _).
         let s = rt_list_insert_after (MpQ i) t s in
         and_then (if 0 < sint time then arm_thread_timer c t time s else Inr s) (\<lambda>s. rt_schedule c s)))"

text \<open>From the head of the loop on; \<open>time\<close> is the time that is left.\<close>

definition mp_alloc_loop ::
  "cpuid \<Rightarrow> nat \<Rightarrow> 32 word \<Rightarrow> rt_mempool \<times> kernel \<Rightarrow> ((rt_mempool \<times> kernel) \<times> mp_outcome) res" where
  "mp_alloc_loop c i time = (\<lambda>(mp, s).
    if block_free_count mp = 0
    then if time = 0 then Inr ((mp, rt_set_errno c (- RT_ETIMEOUT) s), Returned None)
         else and_then (mp_block c i time s) (\<lambda>s. Inr ((mp, s), Suspended))
    else and_then (mp_take mp) (\<lambda>(mp, b). Inr ((mp, s), Returned (Some b))))"

definition rt_mp_alloc ::
  "cpuid \<Rightarrow> nat \<Rightarrow> 32 word \<Rightarrow> rt_mempool \<times> kernel \<Rightarrow> ((rt_mempool \<times> kernel) \<times> mp_outcome) res" where
  "rt_mp_alloc c i time = mp_alloc_loop c i time"

text \<open>When the thread runs again: \<open>time\<close> and \<open>before_sleep\<close> are its local variables.\<close>

definition rt_mp_alloc_cont ::
  "cpuid \<Rightarrow> nat \<Rightarrow> 32 word \<Rightarrow> u32 \<Rightarrow> rt_mempool \<times> kernel \<Rightarrow> ((rt_mempool \<times> kernel) \<times> mp_outcome) res" where
  "rt_mp_alloc_cont c i time before_sleep = (\<lambda>(mp, s).
    case rt_thread_self c s of None \<Rightarrow> Inl NullDeref
    | Some t \<Rightarrow>
       if error (threads s t) \<noteq> RT_EOK then Inr ((mp, s), Returned None)
       else mp_alloc_loop c i (ipc_remaining time before_sleep s) (mp, s))"

subsection \<open>Giving a block back\<close>

text \<open>
  The pool is read from the header of the block: with a free block the code takes the next block for a pool.
\<close>

definition mp_put :: "u32 \<Rightarrow> rt_mempool \<Rightarrow> rt_mempool res" where
  "mp_put b mp = and_then (mp_write b (Link (block_list mp)) (mp\<lparr>block_free_count := block_free_count mp + 1\<rparr>))
     (\<lambda>mp. Inr (mp\<lparr>block_list := Some b\<rparr>))"

definition mp_wake :: "cpuid \<Rightarrow> nat \<Rightarrow> kernel \<Rightarrow> kernel res" where
  "mp_wake c i s =
    (case queues s (MpQ i) of [] \<Rightarrow> Inr s
     | t # _ \<Rightarrow>
        let s = upd_thread t (\<lambda>th. th\<lparr>error := RT_EOK\<rparr>) s in rt_schedule c (fst (rt_thread_resume c t s)))"

definition rt_mp_free :: "cpuid \<Rightarrow> nat \<Rightarrow> u32 option \<Rightarrow> rt_mempool \<times> kernel \<Rightarrow> (rt_mempool \<times> kernel) res" where
  "rt_mp_free c i block = (\<lambda>(mp, s).
    case block of None \<Rightarrow> Inr (mp, s)
    | Some a \<Rightarrow>
       let b = a - 4 in
       and_then (mp_read b mp) (\<lambda>w.
         case w of Owner \<Rightarrow> and_then (mp_put b mp) (\<lambda>mp. and_then (mp_wake c i s) (\<lambda>s. Inr (mp, s)))
         | Link None \<Rightarrow> Inl NullDeref
         | _ \<Rightarrow> Inl OutOfBounds))"

subsection \<open>The free list\<close>

fun chain :: "(u32 \<Rightarrow> block_word) \<Rightarrow> u32 option \<Rightarrow> u32 list \<Rightarrow> bool" where
  "chain w h [] \<longleftrightarrow> h = None"
| "chain w h (x # xs) \<longleftrightarrow> h = Some x \<and> (\<exists>n. w x = Link n \<and> chain w n xs)"

text \<open>The header of the block number \<open>k\<close>, and the address that the user gets.\<close>

definition header :: "rt_mempool \<Rightarrow> nat \<Rightarrow> u32" where
  "header mp k = of_nat (k * unat (mp_stride mp))"

definition mp_geom :: "rt_mempool \<Rightarrow> bool" where
  "mp_geom mp \<longleftrightarrow> unat (block_total_count mp) * unat (mp_stride mp) \<le> mp_extent mp \<and> mp_extent mp < 2 ^ 32
     \<and> unat (mp_stride mp) = unat (mp_block_size mp) + 4"

text \<open>\<open>free\<close> are the numbers of the free blocks, in the order in which they will be handed out.\<close>

definition mp_ok :: "rt_mempool \<Rightarrow> nat list \<Rightarrow> bool" where
  "mp_ok mp free \<longleftrightarrow> mp_geom mp
     \<and> distinct free \<and> set free \<subseteq> {..<unat (block_total_count mp)} \<and> length free = unat (block_free_count mp)
     \<and> chain (mp_words mp) (block_list mp) (map (header mp) free)
     \<and> (\<forall>k < unat (block_total_count mp). k \<notin> set free \<longrightarrow> mp_words mp (header mp k) = Owner)"

text \<open>The headers are apart from each other and inside the memory.\<close>

lemma unat_header:
  assumes "mp_geom mp" "k < unat (block_total_count mp)"
  shows "unat (header mp k) = k * unat (mp_stride mp)"
    "k * unat (mp_stride mp) + unat (mp_stride mp) \<le> mp_extent mp"
    "unat (header mp k) + 4 \<le> mp_extent mp"
    "unat (header mp k + 4) = k * unat (mp_stride mp) + 4"
proof -
  have g: "unat (block_total_count mp) * unat (mp_stride mp) \<le> mp_extent mp" "mp_extent mp < 2 ^ 32"
    "unat (mp_stride mp) = unat (mp_block_size mp) + 4" using assms(1) unfolding mp_geom_def by blast+
  have "Suc k * unat (mp_stride mp) \<le> unat (block_total_count mp) * unat (mp_stride mp)"
    using assms(2) by (intro mult_right_mono) simp_all
  then show le: "k * unat (mp_stride mp) + unat (mp_stride mp) \<le> mp_extent mp" using g(1) by simp
  then have lt: "k * unat (mp_stride mp) + 4 < 2 ^ 32 \<or> unat (mp_block_size mp) = 0" "k * unat (mp_stride mp) < 2 ^ 32"
    using g by auto
  show u: "unat (header mp k) = k * unat (mp_stride mp)"
    unfolding header_def by (rule unat_of_nat_small) (use lt in simp)
  then show "unat (header mp k) + 4 \<le> mp_extent mp" using le g by simp
  then have "unat (header mp k) + unat (4 :: u32) < 2 ^ 32" using g by simp
  then have "unat (header mp k + 4) = unat (header mp k) + 4" by (subst unat_add_lem [THEN iffD1]) simp_all
  then show "unat (header mp k + 4) = k * unat (mp_stride mp) + 4" using u by simp
qed

lemma header_inj:
  assumes "mp_geom mp" "k < unat (block_total_count mp)" "j < unat (block_total_count mp)"
  shows "header mp k = header mp j \<longleftrightarrow> k = j"
proof
  assume "header mp k = header mp j"
  then have "k * unat (mp_stride mp) = j * unat (mp_stride mp)"
    using unat_header(1) [OF assms(1,2)] unat_header(1) [OF assms(1,3)] by metis
  then show "k = j" using assms(1) by (simp add: mp_geom_def)
qed simp

lemma header_word: "of_nat k * mp_stride mp = header mp k" "(of_nat k + 1) * mp_stride mp = header mp (Suc k)"
  by (simp_all add: header_def algebra_simps)

lemma header_cong [simp]:
  "header (mp\<lparr>mp_words := w\<rparr>) = header mp" "header (mp\<lparr>block_list := l\<rparr>) = header mp"
  "header (mp\<lparr>block_free_count := n\<rparr>) = header mp"
  by (simp_all add: header_def mp_stride_def fun_eq_iff)

lemma mp_geom_cong [simp]:
  "mp_geom (mp\<lparr>mp_words := w\<rparr>) = mp_geom mp" "mp_geom (mp\<lparr>block_list := l\<rparr>) = mp_geom mp"
  "mp_geom (mp\<lparr>block_free_count := n\<rparr>) = mp_geom mp"
  by (simp_all add: mp_geom_def mp_stride_def)

lemma chain_cong: "(\<And>x. x \<in> set xs \<Longrightarrow> w' x = w x) \<Longrightarrow> chain w' h xs = chain w h xs"
  by (induction xs arbitrary: h) auto

lemma chain_upt:
  assumes "\<And>k. j \<le> k \<Longrightarrow> k < n \<Longrightarrow> w (h k) = Link (if Suc k < n then Some (h (Suc k)) else None)" "j < n"
  shows "chain w (Some (h j)) (map h [j..<n])"
  using assms
proof (induction "n - j" arbitrary: j)
  case (Suc d)
  show ?case
  proof (cases "Suc j < n")
    case True
    have "chain w (Some (h (Suc j))) (map h [Suc j..<n])" by (rule Suc.hyps) (use Suc True in auto)
    then show ?thesis using Suc.prems True by (simp add: upt_conv_Cons)
  next
    case False
    then have "n = Suc j" using Suc.prems(2) by simp
    then show ?thesis using Suc.prems by simp
  qed
qed simp

lemma mp_link_each_ok:
  assumes "mp_geom mp" "set ks \<subseteq> {..<unat (block_total_count mp)}" "distinct ks"
  shows "\<exists>w. mp_link_each ks mp = Inr (mp\<lparr>mp_words := w\<rparr>)
    \<and> (\<forall>k < unat (block_total_count mp). w (header mp k) =
        (if k \<in> set ks then Link (Some (header mp (Suc k))) else mp_words mp (header mp k)))"
  using assms
proof (induction ks arbitrary: mp)
  case Nil
  then show ?case by (intro exI [of _ "mp_words mp"]) simp
next
  case (Cons k ks)
  let ?mp = "mp\<lparr>mp_words := (mp_words mp)(header mp k := Link (Some (header mp (Suc k))))\<rparr>"
  have k: "k < unat (block_total_count mp)" using Cons.prems(2) by simp
  have w: "mp_write (header mp k) x mp = Inr (mp\<lparr>mp_words := (mp_words mp)(header mp k := x)\<rparr>)" for x
    using unat_header(3) [OF Cons.prems(1) k] by (simp add: mp_write_def)
  obtain v where v: "mp_link_each ks ?mp = Inr (?mp\<lparr>mp_words := v\<rparr>)"
    "\<And>j. j < unat (block_total_count mp) \<Longrightarrow> v (header mp j) =
      (if j \<in> set ks then Link (Some (header mp (Suc j))) else mp_words ?mp (header mp j))"
    using Cons.IH [of ?mp] Cons.prems by auto
  show ?case
    using v(1) w v(2) k Cons.prems(3) header_inj [OF Cons.prems(1) _ k]
    by (intro exI [of _ v]) (auto simp: header_word)
qed

lemma mp_link_blocks_ok:
  assumes "mp_geom mp" "0 < block_total_count mp" "block_free_count mp = block_total_count mp"
  shows "\<exists>mp'. mp_link_blocks mp = Inr mp' \<and> mp_ok mp' [0..<unat (block_total_count mp)]
    \<and> mp_stride mp' = mp_stride mp \<and> mp_block_size mp' = mp_block_size mp \<and> block_total_count mp' = block_total_count mp
    \<and> mp_extent mp' = mp_extent mp"
proof -
  let ?n = "unat (block_total_count mp)"
  have n: "0 < ?n" "?n - 1 < ?n" using assms(2) by (simp_all add: word_less_nat_alt)
  obtain w where w: "mp_link_each [0..<?n] mp = Inr (mp\<lparr>mp_words := w\<rparr>)"
    "\<And>k. k < ?n \<Longrightarrow> w (header mp k) = Link (Some (header mp (Suc k)))"
    using mp_link_each_ok [OF assms(1), of "[0..<?n]"] by (auto simp: lessThan_atLeast0)
  have "block_total_count mp - 1 = of_nat (?n - 1)" using n(1) by (simp add: of_nat_diff)
  then have h: "(block_total_count mp - 1) * mp_stride mp = header mp (?n - 1)" by (simp only: header_word)
  let ?w = "w(header mp (?n - 1) := Link None)"
  let ?mp = "mp\<lparr>mp_words := ?w, block_list := Some 0\<rparr>"
  have "mp_link_blocks mp = Inr ?mp"
    using w(1) h unat_header(3) [OF assms(1) n(2)] by (simp add: mp_link_blocks_def mp_write_def) (simp add: mp_stride_def)
  moreover have "chain ?w (Some (header mp 0)) (map (header mp) [0..<?n])"
    by (rule chain_upt) (use n w(2) header_inj [OF assms(1)] in auto)
  ultimately show ?thesis using assms by (intro exI [of _ ?mp]) (auto simp: mp_ok_def header_def mp_stride_def)
qed

definition same_pool :: "rt_mempool \<Rightarrow> rt_mempool \<Rightarrow> bool" where
  "same_pool mp mp' \<longleftrightarrow> mp_block_size mp' = mp_block_size mp \<and> block_total_count mp' = block_total_count mp
     \<and> mp_extent mp' = mp_extent mp"

lemma mp_okD:
  assumes "mp_ok mp free"
  shows "mp_geom mp" "distinct free" "set free \<subseteq> {..<unat (block_total_count mp)}" "length free = unat (block_free_count mp)"
    "chain (mp_words mp) (block_list mp) (map (header mp) free)"
    "\<And>k. k < unat (block_total_count mp) \<Longrightarrow> k \<notin> set free \<Longrightarrow> mp_words mp (header mp k) = Owner"
  using assms by (simp_all add: mp_ok_def)

lemma mp_ok_free_count: "mp_ok mp free \<Longrightarrow> block_free_count mp = 0 \<longleftrightarrow> free = []"
  using mp_okD(4) [of mp free] by (metis length_0_conv unat_0 unat_eq_zero)

lemma mp_take_ok:
  assumes "mp_ok mp (k # ks)"
  shows "\<exists>mp'. mp_take mp = Inr (mp', header mp k + 4) \<and> mp_ok mp' ks \<and> same_pool mp mp'"
proof -
  note d = mp_okD [OF assms]
  obtain n where n: "block_list mp = Some (header mp k)" "mp_words mp (header mp k) = Link n"
    "chain (mp_words mp) n (map (header mp) ks)" using d(5) by auto
  let ?w = "(mp_words mp)(header mp k := Owner)"
  let ?mp = "mp\<lparr>block_free_count := block_free_count mp - 1, block_list := n, mp_words := ?w\<rparr>"
  have k: "k < unat (block_total_count mp)" using d(3) by simp
  have h: "header mp j = header mp k \<longleftrightarrow> j = k" if "j < unat (block_total_count mp)" for j
    using header_inj [OF d(1) that k] .
  have "mp_take mp = Inr (?mp, header mp k + 4)"
    using n(1,2) unat_header(3) [OF d(1) k] by (simp add: mp_take_def Let_def mp_read_def mp_write_def)
  moreover have "chain ?w n (map (header mp) ks)"
    using n(3) d(2,3) by (subst chain_cong) (auto simp: h)
  moreover have "length ks = unat (block_free_count mp - 1)"
    using unat_dec [of "block_free_count mp"] d(4) by (simp add: word_less_nat_alt)
  ultimately show ?thesis using d by (intro exI [of _ ?mp]) (auto simp: mp_ok_def same_pool_def)
qed

lemma mp_put_ok:
  assumes "mp_ok mp ks" "k < unat (block_total_count mp)" "k \<notin> set ks"
  shows "\<exists>mp'. mp_put (header mp k) mp = Inr mp' \<and> mp_ok mp' (k # ks) \<and> same_pool mp mp'"
proof -
  note d = mp_okD [OF assms(1)]
  let ?w = "(mp_words mp)(header mp k := Link (block_list mp))"
  let ?mp = "mp\<lparr>block_free_count := block_free_count mp + 1, block_list := Some (header mp k), mp_words := ?w\<rparr>"
  have h: "header mp j = header mp k \<longleftrightarrow> j = k" if "j < unat (block_total_count mp)" for j
    using header_inj [OF d(1) that assms(2)] .
  have "mp_put (header mp k) mp = Inr ?mp"
    using unat_header(3) [OF d(1) assms(2)] by (simp add: mp_put_def mp_write_def)
  moreover have "chain ?w (block_list mp) (map (header mp) ks)"
    using d(3,5) assms(3) by (subst chain_cong) (auto simp: h)
  moreover have "unat (block_free_count mp) < unat (block_total_count mp)"
  proof -
    have "card (set (k # ks)) \<le> card {..<unat (block_total_count mp)}" using assms(2) d(3) by (intro card_mono) auto
    then show ?thesis using d(2,4) assms(3) by (simp add: distinct_card)
  qed
  then have "unat (block_free_count mp + 1) = unat (block_free_count mp) + 1"
    by (intro unat_inc [of _ "block_total_count mp"]) (simp add: word_less_nat_alt)
  ultimately show ?thesis using d assms(2,3) h by (intro exI [of _ ?mp]) (auto simp: mp_ok_def same_pool_def)
qed

lemma mp_words_used: "mp_ok mp ks \<Longrightarrow> k < unat (block_total_count mp) \<Longrightarrow> k \<notin> set ks \<Longrightarrow> mp_read (header mp k) mp = Inr Owner"
  using unat_header(3) mp_okD(1,6) by (simp add: mp_read_def)

text \<open>Giving a block back twice is caught by no check: the code follows a header that is not a pool.\<close>

lemma mp_free_twice:
  assumes "mp_ok mp ks" "k \<in> set ks"
  shows "\<exists>e. rt_mp_free c i (Some (header mp k + 4)) (mp, s) = Inl e"
proof -
  have "\<exists>n. w x = Link n" if "chain w h xs" "x \<in> set xs" for w h x xs
    using that by (induction xs arbitrary: h) auto
  then obtain n where "mp_words mp (header mp k) = Link n" using mp_okD(5) [OF assms(1)] assms(2) by fastforce
  then show ?thesis by (cases n) (auto simp: rt_mp_free_def mp_read_def Let_def)
qed

subsection \<open>Waiting and waking\<close>

lemma mp_wait_q [simp]: "is_wait_q (MpQ i)"
  by (simp add: is_wait_q_def)

lemma mp_wake_eq:
  "mp_wake c i s = (case queues s (MpQ i) of [] \<Rightarrow> Inr s
    | t # _ \<Rightarrow> ipc_wake c (MpQ i) (upd_thread t (\<lambda>th. th\<lparr>error := RT_EOK\<rparr>) s))"
  by (simp add: mp_wake_def ipc_wake_def ipc_list_resume_def rt_list_isempty_def Let_def split: list.split)

lemma mp_wake_ok:
  assumes "kinv s" "c < RT_CPUS_NR" "mp_wake c i s = Inr s'"
  shows "kinv s'" "queues s' (MpQ i) = tl (queues s (MpQ i))"
    "\<And>t ts. queues s (MpQ i) = t # ts \<Longrightarrow> awake (thread_stat s' t) \<and> error (threads s' t) = RT_EOK"
proof -
  have "kinv s' \<and> queues s' (MpQ i) = tl (queues s (MpQ i))
    \<and> (\<forall>t ts. queues s (MpQ i) = t # ts \<longrightarrow> awake (thread_stat s' t) \<and> error (threads s' t) = RT_EOK)"
  proof (cases "queues s (MpQ i)")
    case Nil
    then show ?thesis using assms(1,3) by (simp add: mp_wake_def)
  next
    case (Cons t ts)
    let ?e = "upd_thread t (\<lambda>th. th\<lparr>error := RT_EOK\<rparr>) s"
    have k: "kinv ?e" by (rule kinv_upd_thread [OF assms(1)]) (simp add: same_sched_def)
    have w: "ipc_wake c (MpQ i) ?e = Inr s'" using assms(3) Cons by (simp add: mp_wake_eq)
    note o = ipc_wake_ok [OF k assms(2) mp_wait_q w]
    show ?thesis using o(1,2) o(4) [of t ts] o(5) [of t] Cons by simp
  qed
  then show "kinv s'" "queues s' (MpQ i) = tl (queues s (MpQ i))"
    "\<And>t ts. queues s (MpQ i) = t # ts \<Longrightarrow> awake (thread_stat s' t) \<and> error (threads s' t) = RT_EOK" by auto
qed

lemma mp_block_ok:
  assumes "kinv s" "c < RT_CPUS_NR" "rt_thread_self c s = Some t" "thread_stat s t = RT_THREAD_RUNNING"
    "timeout_ok time" "mp_block c i time s = Inr s'"
  shows "kinv s'" "thread_stat s' t = RT_THREAD_SUSPEND" "error (threads s' t) = RT_EOK"
    "queues s' (MpQ i) = t # queues s (MpQ i)"
    "0 < sint time \<Longrightarrow> ThreadTimer t \<in> set (timer_q s' HardTimers) \<and> delay s' (ThreadTimer t) = nat (sint time)"
proof -
  let ?e = "upd_thread t (\<lambda>th. th\<lparr>error := RT_EOK\<rparr>) s"
  let ?a = "asleep t ?e"
  let ?s = "rt_list_insert_after (MpQ i) t ?a"
  have ke: "kinv ?e" by (rule kinv_upd_thread [OF assms(1)]) (simp add: same_sched_def)
  have se: "rt_thread_self c ?e = Some t" "thread_stat ?e t = RT_THREAD_RUNNING"
    using assms(3,4) by (simp_all add: rt_thread_self_def thread_stat_def)
  have q: "queues ?a = queues s" using removeAll_running(1) [OF kinvD(1) [OF ke] se(2)] by (simp add: fun_eq_iff)
  have ul: "\<not> linked ?a t" using removeAll_running(2) [OF kinvD(1) [OF ke] se(2)] by (simp add: linked_def q)
  have st: "thread_stat ?a t = RT_THREAD_SUSPEND" by (simp add: thread_stat_def)
  have e: "?s = wait_insert (\<lambda>prio t xs. t # xs) (MpQ i) t ?a" by (simp add: wait_insert_def rt_list_insert_after_def)
  have ks: "kinv ?s" unfolding e by (rule lifo_order.kinv_ins [OF kinv_asleep [OF ke se] ul mp_wait_q st])
  have ss: "thread_stat ?s t = RT_THREAD_SUSPEND" using st by (simp add: rt_list_insert_after_def thread_stat_def)
  have "and_then (if 0 < sint time then arm_thread_timer c t time ?s else Inr ?s) (\<lambda>s. rt_schedule c s) = Inr s'"
    using assms(3,6) suspend_self [OF kinvD(1) [OF ke] se] by (simp add: mp_block_def Let_def)
  note a = arm_schedule_ok [OF ks assms(2) ss assms(5) this]
  show "kinv s'" "thread_stat s' t = RT_THREAD_SUSPEND" by (fact a(1,2))+
  show "error (threads s' t) = RT_EOK" using a(3) by (simp add: rt_list_insert_after_def)
  show "queues s' (MpQ i) = t # queues s (MpQ i)" using a(4) [of "MpQ i"] by (simp add: rt_list_insert_after_def q del: asleep_sel(2))
  show "0 < sint time \<Longrightarrow> ThreadTimer t \<in> set (timer_q s' HardTimers) \<and> delay s' (ThreadTimer t) = nat (sint time)"
    by (fact a(5))
qed

subsection \<open>The pool refines a free list\<close>

lemma mp_init_ok:
  assumes "0 < block_sz" "unat block_sz \<le> 2 ^ 32 - 64" "st = unat (RT_ALIGN block_sz 64) + 4"
    "st \<le> unat (RT_ALIGN_DOWN sz 64)" "n = unat (RT_ALIGN_DOWN sz 64) div st"
  shows "\<exists>mp. rt_mp_init i mem sz block_sz s = Inr (mp, s\<lparr>queues := (queues s)(MpQ i := [])\<rparr>) \<and> mp_ok mp [0..<n]
      \<and> unat (block_total_count mp) = n \<and> unat (mp_stride mp) = st"
    "n * st \<le> unat sz" "unat block_sz + 4 \<le> st"
proof -
  let ?sz = "RT_ALIGN_DOWN sz 64" and ?b = "RT_ALIGN block_sz 64"
  let ?mp = "\<lparr>mp_size = ?sz, mp_block_size = ?b, block_list = None, block_total_count = ?sz div (?b + 4),
    block_free_count = ?sz div (?b + 4), mp_extent = unat sz, mp_words = mem\<rparr>"
  have sz: "unat ?sz \<le> unat sz" unfolding unat_RT_ALIGN_DOWN_64 by simp
  have lt: "unat sz < 2 ^ 32" using unsigned_less [of sz, where 'a = nat] by simp
  have b4: "unat (?b + 4) = st"
    using assms(3,4) sz lt by (subst unat_add_lem [THEN iffD1]) simp_all
  have n: "unat (?sz div (?b + 4)) = n" unfolding unat_div_distrib b4 assms(5) ..
  have pos: "0 < n" unfolding assms(5) using assms(3,4) by (simp add: div_greater_zero_iff)
  have le: "n * st \<le> unat ?sz" unfolding assms(5) by simp
  then show nst: "n * st \<le> unat sz" using sz by simp
  show "unat block_sz + 4 \<le> st" using RT_ALIGN_64_bounds(1) [OF assms(2)] assms(3) by simp
  have "mp_geom ?mp" using nst lt n b4 assms(3) by (simp add: mp_geom_def mp_stride_def)
  moreover have "0 < block_total_count ?mp" using n pos by (simp add: word_less_nat_alt)
  moreover have "0 < sz" using pos nst assms(3) by (cases "sz = 0") (simp_all add: word_gt_0)
  ultimately show "\<exists>mp. rt_mp_init i mem sz block_sz s = Inr (mp, s\<lparr>queues := (queues s)(MpQ i := [])\<rparr>) \<and> mp_ok mp [0..<n]
      \<and> unat (block_total_count mp) = n \<and> unat (mp_stride mp) = st"
    using mp_link_blocks_ok [of ?mp] n b4 assms(1)
    by (auto simp: rt_mp_init_def Let_def rt_assert_def mp_stride_def)
qed

text \<open>A pool with less memory than one block: the link that is cleared last lies before the pool.\<close>

lemma mp_init_too_small:
  assumes "0 < sz" "0 < block_sz" "unat block_sz \<le> 2 ^ 30" "RT_ALIGN_DOWN sz 64 < RT_ALIGN block_sz 64 + 4"
  shows "rt_mp_init i mem sz block_sz s = Inl OutOfBounds"
proof -
  let ?b = "RT_ALIGN block_sz 64"
  have b: "unat block_sz \<le> unat ?b" "unat ?b < unat block_sz + 64"
    using RT_ALIGN_64_bounds [of block_sz] assms(3) by simp_all
  then have b4: "unat (?b + 4) = unat ?b + 4" using assms(3) by (subst unat_add_lem [THEN iffD1]) simp_all
  have "unat sz < unat (RT_ALIGN_DOWN sz 64) + 64" unfolding unat_RT_ALIGN_DOWN_64 by (metis add.commute div_mult_mod_eq mod_less_divisor nat_add_left_cancel_less zero_less_numeral)
  then have sz: "unat sz < 2 ^ 30 + 200" using assms(3,4) b b4 by (simp add: word_less_nat_alt)
  have "- (?b + 4) = of_nat (2 ^ 32 - unat (?b + 4))"
    using b b4 assms(3) by (subst of_nat_diff) simp_all
  then have "unat (- (?b + 4)) = 2 ^ 32 - unat (?b + 4)"
    using b4 by (simp only:) (rule unat_of_nat_small, simp)
  then have "\<not> unat (- (?b + 4)) + 4 \<le> unat sz" using sz b b4 assms(3) by simp
  then show ?thesis using assms(1,2,4)
    by (simp add: rt_mp_init_def Let_def rt_assert_def mp_link_blocks_def mp_write_def mp_stride_def div_word_less)
qed

datatype mp_op = MpAlloc | MpFree u32

definition mp_step :: "cpuid \<Rightarrow> nat \<Rightarrow> mp_op \<Rightarrow> rt_mempool \<times> kernel \<Rightarrow> ((rt_mempool \<times> kernel) \<times> mp_outcome) res" where
  "mp_step c i x m = (case x of MpAlloc \<Rightarrow> rt_mp_alloc c i 0 m
     | MpFree a \<Rightarrow> and_then (rt_mp_free c i (Some a) m) (\<lambda>m. Inr (m, Returned None)))"

text \<open>
  \<open>n\<close> blocks, \<open>st\<close> bytes apart: the block given back last is handed out first, and only a block that was
  handed out may be given back.
\<close>

definition free_list_spec :: "nat \<Rightarrow> nat \<Rightarrow> mp_op \<Rightarrow> nat list \<Rightarrow> (nat list \<times> mp_outcome) option" where
  "free_list_spec n st x free = (case x of
     MpAlloc \<Rightarrow> Some (case free of [] \<Rightarrow> ([], Returned None) | k # ks \<Rightarrow> (ks, Returned (Some (of_nat (k * st + 4)))))
   | MpFree a \<Rightarrow> (case filter (\<lambda>k. of_nat (k * st + 4) = a \<and> k \<notin> set free) [0..<n] of
       [] \<Rightarrow> None | k # _ \<Rightarrow> Some (k # free, Returned None)))"

definition pool_rel :: "nat \<Rightarrow> nat \<Rightarrow> nat \<Rightarrow> rt_mempool \<times> kernel \<Rightarrow> nat list \<Rightarrow> bool" where
  "pool_rel i n st m free \<longleftrightarrow> mp_ok (fst m) free \<and> unat (block_total_count (fst m)) = n \<and> unat (mp_stride (fst m)) = st
     \<and> queues (snd m) (MpQ i) = []"

lemma pool_rel_same: "pool_rel i n st (mp, s) free \<Longrightarrow> same_pool mp mp' \<Longrightarrow> mp_ok mp' free' \<Longrightarrow> pool_rel i n st (mp', s) free'"
  by (simp add: pool_rel_def same_pool_def mp_stride_def)

interpretation pool_sim: simulation "mp_step c i" "free_list_spec n st" "pool_rel i n st" for c i n st
proof
  fix m free x free' out
  assume rel: "pool_rel i n st m free" and sp: "free_list_spec n st x free = Some (free', out)"
  obtain mp s where m: "m = (mp, s)" by fastforce
  have ok: "mp_ok mp free" "unat (block_total_count mp) = n" "queues s (MpQ i) = []" "unat (mp_stride mp) = st"
    using rel by (simp_all add: pool_rel_def m)
  have addr: "header mp k + 4 = of_nat (k * st + 4)" for k using ok(4) by (simp add: header_def)
  show "\<exists>m'. mp_step c i x m = Inr (m', out) \<and> pool_rel i n st m' free'"
  proof (cases x)
    case MpAlloc
    show ?thesis
    proof (cases free)
      case Nil
      then show ?thesis using sp MpAlloc mp_ok_free_count [OF ok(1)] rel
        by (auto simp: m mp_step_def rt_mp_alloc_def mp_alloc_loop_def free_list_spec_def pool_rel_def rt_set_errno_def split: option.split)
    next
      case (Cons k ks)
      obtain mp' where mp': "mp_take mp = Inr (mp', header mp k + 4)" "mp_ok mp' ks" "same_pool mp mp'"
        using mp_take_ok ok(1) Cons by blast
      show ?thesis using sp MpAlloc Cons mp'(1) addr mp_ok_free_count [OF ok(1)] pool_rel_same [OF rel [unfolded m] mp'(3,2)]
        by (auto simp: m mp_step_def rt_mp_alloc_def mp_alloc_loop_def free_list_spec_def)
    qed
  next
    case (MpFree a)
    then obtain k ks where f: "filter (\<lambda>k. of_nat (k * st + 4) = a \<and> k \<notin> set free) [0..<n] = k # ks"
      "free' = k # free" "out = Returned None" using sp by (auto simp: free_list_spec_def split: list.splits)
    then have "k \<in> set (filter (\<lambda>k. of_nat (k * st + 4) = a \<and> k \<notin> set free) [0..<n])" by simp
    then have k: "of_nat (k * st + 4) = a" "k \<notin> set free" "k < n" by auto
    obtain mp' where mp': "mp_put (header mp k) mp = Inr mp'" "mp_ok mp' (k # free)" "same_pool mp mp'"
      using mp_put_ok [OF ok(1)] k(2,3) ok(2) by blast
    have "a - 4 = header mp k" using addr [of k] k(1) by (simp add: algebra_simps)
    then show ?thesis
      using MpFree mp'(1) f(2,3) mp_words_used [OF ok(1)] k ok(2,3) pool_rel_same [OF rel [unfolded m] mp'(3,2)]
      by (auto simp: m mp_step_def rt_mp_free_def mp_wake_def Let_def)
  qed
qed

text \<open>
  C19. A memory pool is a free list. A pool that has room for a block is initialised without a fault, its blocks
  are as large as requested, apart from each other and inside the memory; and from then on any sequence of
  \<open>rt_mp_alloc\<close> calls without waiting and \<open>rt_mp_free\<close> calls that give back blocks in use hands out exactly the blocks that a
  free list of these blocks hands out, the last one given back first, and \<open>RT_NULL\<close> when there is none;
  the links in the memory always describe that list.
\<close>

theorem mp_refines_free_list:
  assumes "0 < block_sz" and "unat block_sz \<le> 2 ^ 32 - 64" and "st = unat (RT_ALIGN block_sz 64) + 4"
    and "st \<le> unat (RT_ALIGN_DOWN sz 64)" and "n = unat (RT_ALIGN_DOWN sz 64) div st"
    and "spec_runs (free_list_spec n st) ops [0..<n] = Some (free, outs)"
  shows "n * st \<le> unat sz \<and> unat block_sz + 4 \<le> st
    \<and> (\<exists>mp s0 mp' s'. rt_mp_init i mem sz block_sz s = Inr (mp, s0)
        \<and> runs (mp_step c i) ops (mp, s0) = Inr ((mp', s'), outs) \<and> mp_ok mp' free)"
proof -
  obtain mp s0 where mp: "rt_mp_init i mem sz block_sz s = Inr (mp, s0)" "pool_rel i n st (mp, s0) [0..<n]"
    using mp_init_ok(1) [OF assms(1-5), of i mem s] by (auto simp: pool_rel_def)
  from pool_sim.runs_sim [OF mp(2) assms(6), of c] show ?thesis
    using mp(1) mp_init_ok(2,3) [OF assms(1-5)] by (fastforce simp: pool_rel_def)
qed

definition demo_mp_ops :: "mp_op list" where
  "demo_mp_ops = [MpAlloc, MpAlloc, MpFree 4, MpAlloc, MpAlloc, MpAlloc]"

theorem mp_refines_free_list_witness:
  "\<exists>mp s0 mp' s'. rt_mp_init 2 (\<lambda>_. Data) 300 50 demo_ready = Inr (mp, s0)
    \<and> runs (mp_step 0 2) demo_mp_ops (mp, s0)
      = Inr ((mp', s'), [Returned (Some 4), Returned (Some 72), Returned None, Returned (Some 4), Returned (Some 140), Returned None])
    \<and> mp_ok mp' []"
proof -
  have a: "RT_ALIGN 50 64 = (64 :: u32)" "RT_ALIGN_DOWN 300 64 = (256 :: u32)" by (simp_all add: RT_ALIGN_def RT_ALIGN_DOWN_def)
  have "spec_runs (free_list_spec 3 68) demo_mp_ops [0..<3]
    = Some ([], [Returned (Some 4), Returned (Some 72), Returned None, Returned (Some 4), Returned (Some 140), Returned None])"
    by (simp add: demo_mp_ops_def free_list_spec_def upt_rec)
  then show ?thesis
    using mp_refines_free_list [of 50 68 300 3 demo_mp_ops "[]" _ 2 "\<lambda>_. Data" demo_ready 0] a by simp
qed

end
