(* ===== verification/Rt_Object.thy ===== *)
theory Rt_Object
  imports Rt_Thread
begin

unbundle bit_operations_syntax

text \<open>
  Kernel objects, \<open>src/object.c\<close>: a container for each class of objects, the type byte with its flag for
  static objects, and the search by name. An object is a number, its node is in one list at a time. The
  module of the calling thread and the address that the heap gives are arguments.
\<close>

subsection \<open>Objects and containers\<close>

definition RT_Object_Class_Null :: u8 where "RT_Object_Class_Null = 0"
definition RT_Object_Class_Static :: u8 where "RT_Object_Class_Static = 0x80"

record rt_object =
  obj_name :: string
  obj_type :: u8
  obj_flag :: u8
  module_id :: "nat option"

record object_system =
  objects :: "nat \<Rightarrow> rt_object"
  object_list :: "u8 \<Rightarrow> nat list"
  module_list :: "nat \<Rightarrow> nat list"

text \<open>
  \<open>_object_container\<close> in this build, in the order of the table: thread, semaphore, mutex, event, mailbox, message queue,
  memory heap, memory pool, device, timer, module, memory.
\<close>

definition object_container :: "u8 list" where
  "object_container = [1, 2, 3, 4, 5, 6, 7, 8, 9, 0xa, 0xb, 0xc]"

definition rt_object_get_information :: "u8 \<Rightarrow> u8 option" where
  "rt_object_get_information type = List.find (\<lambda>cl. cl = type) object_container"

definition upd_object :: "nat \<Rightarrow> (rt_object \<Rightarrow> rt_object) \<Rightarrow> object_system \<Rightarrow> object_system" where
  "upd_object ob f os = os\<lparr>objects := (objects os)(ob := f (objects os ob))\<rparr>"

subsection \<open>Names\<close>

text \<open>
  A string is the list of its characters before the terminating null character. With
  \<open>RT_KSERVICE_USING_STDLIB\<close> the functions are those of the C library: \<open>strncpy\<close> fills the rest of the field
  with null characters, and writes none when the string is as long as the field.
\<close>

definition nul :: char where "nul = CHR 0x00"

fun strncpy :: "string \<Rightarrow> nat \<Rightarrow> string" where
  "strncpy src 0 = []"
| "strncpy [] (Suc n) = nul # strncpy [] n"
| "strncpy (x # src) (Suc n) = x # strncpy src n"

text \<open>Whether \<open>strncmp\<close> gives 0; behind its end a list stands for its terminator.\<close>

fun strncmp_same :: "string \<Rightarrow> string \<Rightarrow> nat \<Rightarrow> bool" where
  "strncmp_same cs ct 0 = True"
| "strncmp_same cs ct (Suc n) =
    (let x = (case cs of [] \<Rightarrow> nul | x # _ \<Rightarrow> x); y = (case ct of [] \<Rightarrow> nul | y # _ \<Rightarrow> y) in
     if x \<noteq> y then False else if x = nul then True else strncmp_same (tl cs) (tl ct) n)"

subsection \<open>Operations\<close>

text \<open>The newest object is first, in the list of its class or of the module that made it.\<close>

definition object_attach :: "nat option \<Rightarrow> nat \<Rightarrow> u8 \<Rightarrow> object_system \<Rightarrow> object_system" where
  "object_attach module ob type os = (case module of
     Some m \<Rightarrow> upd_object ob (\<lambda>r. r\<lparr>module_id := Some m\<rparr>) (os\<lparr>module_list := (module_list os)(m := ob # module_list os m)\<rparr>)
   | None \<Rightarrow> os\<lparr>object_list := (object_list os)(type := ob # object_list os type)\<rparr>)"

definition object_remove :: "nat \<Rightarrow> object_system \<Rightarrow> object_system" where
  "object_remove ob os = os\<lparr>object_list := (\<lambda>cl. removeAll ob (object_list os cl)),
     module_list := (\<lambda>m. removeAll ob (module_list os m))\<rparr>"

definition rt_object_init ::
  "cpuid \<Rightarrow> nat option \<Rightarrow> nat \<Rightarrow> u8 \<Rightarrow> string \<Rightarrow> object_system \<times> kernel \<Rightarrow> (object_system \<times> kernel) res" where
  "rt_object_init c module ob type name = (\<lambda>(os, s).
    rt_assert (rt_object_get_information type \<noteq> None)
     (let s = rt_enter_critical c s in
      rt_assert (ob \<notin> set (object_list os type))
       (and_then (rt_exit_critical c s) (\<lambda>s.
          let os = upd_object ob (\<lambda>r. r\<lparr>obj_type := type OR RT_Object_Class_Static, obj_name := strncpy name 8\<rparr>) os
          in Inr (object_attach module ob type os, s)))))"

definition rt_object_detach :: "nat \<Rightarrow> object_system \<Rightarrow> object_system" where
  "rt_object_detach ob os = object_remove ob (upd_object ob (\<lambda>r. r\<lparr>obj_type := 0\<rparr>) os)"

text \<open>\<open>alloc\<close> is the result of \<open>RT_KERNEL_MALLOC\<close>; the memory is cleared before it is used.\<close>

definition rt_object_allocate ::
  "cpuid \<Rightarrow> nat option \<Rightarrow> nat option \<Rightarrow> u8 \<Rightarrow> string \<Rightarrow> object_system \<times> kernel \<Rightarrow> (object_system \<times> nat option) res" where
  "rt_object_allocate c module alloc type name = (\<lambda>(os, s).
    rt_assert (rt_interrupt_get_nest c s = 0)
     (rt_assert (rt_object_get_information type \<noteq> None)
       (case alloc of None \<Rightarrow> Inr (os, None)
        | Some ob \<Rightarrow>
           let os = upd_object ob (\<lambda>_. \<lparr>obj_name = replicate 8 nul, obj_type = 0, obj_flag = 0, module_id = None\<rparr>) os;
               os = upd_object ob (\<lambda>r. r\<lparr>obj_type := type, obj_flag := 0, obj_name := strncpy name 8\<rparr>) os
           in Inr (object_attach module ob type os, Some ob))))"

definition rt_object_delete :: "nat \<Rightarrow> object_system \<Rightarrow> object_system res" where
  "rt_object_delete ob os =
    rt_assert (obj_type (objects os ob) AND RT_Object_Class_Static = 0)
      (Inr (object_remove ob (upd_object ob (\<lambda>r. r\<lparr>obj_type := RT_Object_Class_Null\<rparr>) os)))"

definition rt_object_is_systemobject :: "nat \<Rightarrow> object_system \<Rightarrow> bool" where
  "rt_object_is_systemobject ob os \<longleftrightarrow> obj_type (objects os ob) AND RT_Object_Class_Static \<noteq> 0"

definition rt_object_get_type :: "nat \<Rightarrow> object_system \<Rightarrow> u8" where
  "rt_object_get_type ob os = obj_type (objects os ob) AND NOT RT_Object_Class_Static"

definition rt_object_get_length :: "u8 \<Rightarrow> object_system \<Rightarrow> nat" where
  "rt_object_get_length type os =
    (case rt_object_get_information type of None \<Rightarrow> 0 | Some cl \<Rightarrow> foldl (\<lambda>n _. n + 1) 0 (object_list os cl))"

text \<open>The pointers written to the array of the caller; their number is returned.\<close>

fun fill_pointers :: "nat \<Rightarrow> nat \<Rightarrow> nat list \<Rightarrow> nat list" where
  "fill_pointers index maxlen [] = []"
| "fill_pointers index maxlen (ob # obs) =
    ob # (if maxlen \<le> index + 1 then [] else fill_pointers (index + 1) maxlen obs)"

definition rt_object_get_pointers :: "u8 \<Rightarrow> int \<Rightarrow> object_system \<Rightarrow> nat list" where
  "rt_object_get_pointers type maxlen os =
    (if maxlen \<le> 0 then []
     else case rt_object_get_information type of None \<Rightarrow> []
     | Some cl \<Rightarrow> fill_pointers 0 (nat maxlen) (object_list os cl))"

definition rt_object_find :: "cpuid \<Rightarrow> string option \<Rightarrow> u8 \<Rightarrow> object_system \<times> kernel \<Rightarrow> (kernel \<times> nat option) res" where
  "rt_object_find c name type = (\<lambda>(os, s).
    case (name, rt_object_get_information type) of
      (Some nm, Some cl) \<Rightarrow>
        rt_assert (rt_interrupt_get_nest c s = 0)
          (and_then (rt_exit_critical c (rt_enter_critical c s)) (\<lambda>s.
             Inr (s, List.find (\<lambda>ob. strncmp_same (obj_name (objects os ob)) nm 8) (object_list os cl))))
    | _ \<Rightarrow> Inr (s, None))"

subsection \<open>Names and tables\<close>

lemma strncpy_take: "strncpy src n = take n (src @ replicate n nul)"
proof (induction src n rule: strncpy.induct)
  case (3 x src n)
  have "take n (src @ replicate (Suc n) nul) = take n (src @ replicate n nul)"
    by (simp add: replicate_append_same [symmetric] del: replicate_Suc)
  then show ?case using 3 by simp
qed simp_all

lemma strncmp_same_iff:
  assumes "nul \<notin> set nm" "nul \<notin> set nm'"
  shows "strncmp_same (strncpy nm n) nm' n \<longleftrightarrow> take n nm = take n nm'"
  using assms
proof (induction n arbitrary: nm nm')
  case (Suc n)
  then show ?case by (cases nm; cases nm') auto
qed simp

lemma get_information_iff: "rt_object_get_information type = Some cl \<longleftrightarrow> cl = type \<and> type \<in> set object_container"
proof -
  have "List.find (\<lambda>cl. cl = type) xs = Some cl \<longleftrightarrow> cl = type \<and> type \<in> set xs" for xs by (induction xs) auto
  then show ?thesis by (simp add: rt_object_get_information_def)
qed

lemma get_information_None: "rt_object_get_information type = None \<longleftrightarrow> type \<notin> set object_container"
  using get_information_iff [of type] by (cases "rt_object_get_information type") auto

lemma static_type:
  assumes "type \<in> set object_container"
  shows "(type OR RT_Object_Class_Static) AND NOT RT_Object_Class_Static = type"
    "type AND NOT RT_Object_Class_Static = type" "type \<noteq> 0" "type AND RT_Object_Class_Static = 0"
    "(type OR RT_Object_Class_Static) AND RT_Object_Class_Static \<noteq> 0"
  using assms by (auto simp: object_container_def RT_Object_Class_Static_def)

lemma get_length_eq: "type \<in> set object_container \<Longrightarrow> rt_object_get_length type os = length (object_list os type)"
proof -
  have "foldl (\<lambda>n _. n + 1) k xs = k + length xs" for k :: nat and xs :: "nat list" by (induction xs arbitrary: k) auto
  then show "type \<in> set object_container \<Longrightarrow> ?thesis"
    using get_information_iff [of type type] by (simp add: rt_object_get_length_def)
qed

lemma get_pointers_take:
  assumes "type \<in> set object_container"
  shows "rt_object_get_pointers type maxlen os = take (nat maxlen) (object_list os type)"
proof -
  have "fill_pointers k n xs = take (n - k) xs" if "k < n" for k n xs
    using that
  proof (induction xs arbitrary: k)
    case (Cons x xs)
    show ?case
    proof (cases "n \<le> k + 1")
      case True
      with Cons.prems have "n - k = 1" by simp
      with True show ?thesis by simp
    next
      case False
      with Cons.IH [of "k + 1"] have "fill_pointers (k + 1) n xs = take (n - (k + 1)) xs" by simp
      moreover have "n - k = Suc (n - (k + 1))" using Cons.prems by simp
      ultimately show ?thesis using False by simp
    qed
  qed simp
  from this [of 0 "nat maxlen"] show ?thesis
    using get_information_iff [of type type] assms by (simp add: rt_object_get_pointers_def)
qed

subsection \<open>Types and containers agree\<close>

definition obj_linked :: "object_system \<Rightarrow> nat \<Rightarrow> bool" where
  "obj_linked os ob \<longleftrightarrow> (\<exists>cl. ob \<in> set (object_list os cl)) \<or> (\<exists>m. ob \<in> set (module_list os m))"

definition obj_inv :: "object_system \<Rightarrow> bool" where
  "obj_inv os \<longleftrightarrow>
     (\<forall>cl ob. ob \<in> set (object_list os cl) \<longrightarrow> rt_object_get_type ob os = cl \<and> cl \<in> set object_container)
   \<and> (\<forall>m ob. ob \<in> set (module_list os m) \<longrightarrow> rt_object_get_type ob os \<in> set object_container \<and> module_id (objects os ob) = Some m)
   \<and> (\<forall>cl m ob. ob \<in> set (object_list os cl) \<longrightarrow> ob \<notin> set (module_list os m))
   \<and> (\<forall>cl. distinct (object_list os cl)) \<and> (\<forall>m. distinct (module_list os m))"

lemma obj_inv_attach:
  assumes "obj_inv os" "\<not> obj_linked os ob" "type \<in> set object_container" "f (objects os ob) AND NOT RT_Object_Class_Static = type"
    "\<And>r. obj_type (g r) = f r"
  shows "obj_inv (object_attach module ob type (upd_object ob g os))"
proof (cases module)
  case None
  then show ?thesis using assms
    by (fastforce simp: obj_inv_def object_attach_def upd_object_def obj_linked_def rt_object_get_type_def)
next
  case (Some m)
  then show ?thesis using assms
    by (fastforce simp: obj_inv_def object_attach_def upd_object_def obj_linked_def rt_object_get_type_def)
qed

lemma obj_inv_remove:
  assumes "obj_inv os"
  shows "obj_inv (object_remove ob (upd_object ob g os))"
  using assms by (auto simp: obj_inv_def object_remove_def upd_object_def rt_object_get_type_def distinct_removeAll)

text \<open>
  The calls of any threads in any order: each rule is one call that returned. An object is registered while its
  node is in no list, and the heap gives memory that no registered object occupies.
\<close>

inductive obj_step :: "object_system \<Rightarrow> object_system \<Rightarrow> bool" where
  init: "rt_object_init c module ob type name (os, s) = Inr (os', s') \<Longrightarrow> \<not> obj_linked os ob \<Longrightarrow> obj_step os os'"
| allocate: "rt_object_allocate c module alloc type name (os, s) = Inr (os', r) \<Longrightarrow> (\<forall>ob. alloc = Some ob \<longrightarrow> \<not> obj_linked os ob)
    \<Longrightarrow> obj_step os os'"
| detach: "os' = rt_object_detach ob os \<Longrightarrow> obj_step os os'"
| delete: "rt_object_delete ob os = Inr os' \<Longrightarrow> obj_step os os'"

lemma obj_inv_init:
  assumes "obj_inv os" "rt_object_init c module ob type name (os, s) = Inr (os', s')" "\<not> obj_linked os ob"
  shows "obj_inv os'"
proof -
  have i: "type \<in> set object_container"
    using assms(2) get_information_None [of type] by (auto simp: rt_object_init_def rt_assert_def split: if_splits)
  have "os' = object_attach module ob type
      (upd_object ob (\<lambda>r. r\<lparr>obj_type := type OR RT_Object_Class_Static, obj_name := strncpy name 8\<rparr>) os)"
    using assms(2) by (auto simp: rt_object_init_def Let_def rt_assert_def split: if_splits)
  then show ?thesis
    using obj_inv_attach [OF assms(1,3) i, where f = "\<lambda>_. type OR RT_Object_Class_Static"] static_type(1) [OF i] by simp
qed

lemma obj_inv_allocate:
  assumes "obj_inv os" "rt_object_allocate c module alloc type name (os, s) = Inr (os', r)"
    "\<forall>ob. alloc = Some ob \<longrightarrow> \<not> obj_linked os ob"
  shows "obj_inv os'"
proof (cases alloc)
  case None
  then show ?thesis using assms(1,2) by (auto simp: rt_object_allocate_def rt_assert_def split: if_splits)
next
  case (Some ob)
  have i: "type \<in> set object_container"
    using assms(2) get_information_None [of type] by (auto simp: rt_object_allocate_def rt_assert_def split: if_splits)
  have "os' = object_attach module ob type (upd_object ob
      (\<lambda>_. \<lparr>obj_name = strncpy name 8, obj_type = type, obj_flag = 0, module_id = None\<rparr>) os)"
    using assms(2) Some by (auto simp: rt_object_allocate_def Let_def rt_assert_def upd_object_def split: if_splits)
  then show ?thesis
    using obj_inv_attach [OF assms(1) _ i, where f = "\<lambda>_. type"] static_type(2) [OF i] assms(3) Some by simp
qed

lemma obj_inv_step: "obj_step os os' \<Longrightarrow> obj_inv os \<Longrightarrow> obj_inv os'"
proof (induction rule: obj_step.induct)
  case (init c module ob type name os s os' s')
  then show ?case using obj_inv_init by blast
next
  case (allocate c module alloc type name os s os' r)
  then show ?case using obj_inv_allocate by blast
next
  case (detach os' ob os)
  then show ?case using obj_inv_remove by (simp add: rt_object_detach_def)
next
  case (delete ob os os')
  then show ?case using obj_inv_remove by (auto simp: rt_object_delete_def rt_assert_def split: if_splits)
qed

lemma obj_inv_reach: "obj_step\<^sup>*\<^sup>* os os' \<Longrightarrow> obj_inv os \<Longrightarrow> obj_inv os'"
  by (induction rule: rtranclp_induct) (auto intro: obj_inv_step)

definition no_objects :: object_system where
  "no_objects = \<lparr>objects = (\<lambda>_. \<lparr>obj_name = [], obj_type = 0, obj_flag = 0, module_id = None\<rparr>),
     object_list = (\<lambda>_. []), module_list = (\<lambda>_. [])\<rparr>"

text \<open>
  C28. The containers are typed. Whatever sequence of registrations, allocations, detachments and deletions has run
  since boot, an object in the list of a class has exactly that class in its type byte, with or without the
  flag for static objects; it is in no other list, it is in it once, and it has the type 0 and is in no list once it
  is detached. The number that \<open>rt_object_get_length\<close> counts and the pointers of \<open>rt_object_get_pointers\<close> are those of that class.
\<close>

theorem object_types_ok:
  assumes "obj_step\<^sup>*\<^sup>* no_objects os"
  shows "(\<forall>cl. \<forall>ob \<in> set (object_list os cl). rt_object_get_type ob os = cl \<and> cl \<in> set object_container
        \<and> (\<forall>cl'. ob \<in> set (object_list os cl') \<longrightarrow> cl' = cl) \<and> (\<forall>m. ob \<notin> set (module_list os m)))
    \<and> (\<forall>cl. distinct (object_list os cl))
    \<and> (\<forall>ob. \<not> obj_linked (rt_object_detach ob os) ob \<and> rt_object_get_type ob (rt_object_detach ob os) = 0)
    \<and> (\<forall>cl maxlen. cl \<in> set object_container \<longrightarrow> rt_object_get_length cl os = length (object_list os cl)
        \<and> (\<forall>ob \<in> set (rt_object_get_pointers cl maxlen os). rt_object_get_type ob os = cl))"
proof -
  have i: "obj_inv os" using obj_inv_reach [OF assms] by (simp add: obj_inv_def no_objects_def)
  have "\<not> obj_linked (rt_object_detach ob os) ob \<and> rt_object_get_type ob (rt_object_detach ob os) = 0" for ob
    by (simp add: obj_linked_def rt_object_detach_def object_remove_def upd_object_def rt_object_get_type_def)
  moreover have "\<forall>ob \<in> set (rt_object_get_pointers cl maxlen os). rt_object_get_type ob os = cl"
    if "cl \<in> set object_container" for cl maxlen
    using i get_pointers_take [OF that] set_take_subset [of "nat maxlen" "object_list os cl"] by (auto simp: obj_inv_def)
  moreover have "cl' = cl" if "ob \<in> set (object_list os cl)" "ob \<in> set (object_list os cl')" for ob cl cl'
    using i that unfolding obj_inv_def by metis
  ultimately show ?thesis using i get_length_eq by (simp add: obj_inv_def)
qed

text \<open>A static semaphore, an allocated mutex, and the semaphore detached.\<close>

definition demo_objects :: object_system where
  "demo_objects = object_attach None 7 3 (upd_object 7 (\<lambda>_. \<lparr>obj_name = strncpy ''lock'' 8, obj_type = 3, obj_flag = 0, module_id = None\<rparr>)
     (object_attach None 5 2 (upd_object 5 (\<lambda>r. r\<lparr>obj_type := 2 OR RT_Object_Class_Static, obj_name := strncpy ''sem'' 8\<rparr>) no_objects)))"

lemma demo_objects_reach: "obj_step\<^sup>*\<^sup>* no_objects demo_objects"
proof -
  let ?os = "object_attach None 5 2 (upd_object 5 (\<lambda>r. r\<lparr>obj_type := 2 OR RT_Object_Class_Static, obj_name := strncpy ''sem'' 8\<rparr>) no_objects)"
  have c: "current_thread (cpus blank_kernel 0) = None" "irq_nest (cpus blank_kernel 0) = 0"
    by (simp_all add: blank_kernel_def blank_cpu_def)
  have i: "rt_object_get_information 2 \<noteq> None" "rt_object_get_information 3 \<noteq> None"
    by (simp_all add: get_information_None object_container_def)
  have "rt_object_init 0 None 5 2 ''sem'' (no_objects, blank_kernel) = Inr (?os, blank_kernel)"
    using i(1) c(1) by (simp add: rt_object_init_def rt_assert_def Let_def rt_enter_critical_def rt_exit_critical_def)
      (simp add: no_objects_def)
  then have "obj_step no_objects ?os" by (rule obj_step.init) (simp add: obj_linked_def no_objects_def)
  moreover have "rt_object_allocate 0 None (Some 7) 3 ''lock'' (?os, blank_kernel) = Inr (demo_objects, Some 7)"
    using i(2) c(2) by (simp add: rt_object_allocate_def rt_assert_def Let_def rt_interrupt_get_nest_def demo_objects_def)
      (simp add: upd_object_def)
  then have "obj_step ?os demo_objects"
    by (rule obj_step.allocate) (simp add: obj_linked_def no_objects_def object_attach_def upd_object_def)
  ultimately show ?thesis by (meson converse_rtranclp_into_rtranclp r_into_rtranclp)
qed

theorem object_types_ok_witness:
  "object_list demo_objects 2 = [5] \<and> object_list demo_objects 3 = [7]
    \<and> rt_object_get_type 5 demo_objects = 2 \<and> rt_object_get_type 7 demo_objects = 3 \<and> rt_object_get_length 2 demo_objects = 1"
proof -
  have l: "object_list demo_objects 2 = [5]" "object_list demo_objects 3 = [7]"
    by (simp_all add: demo_objects_def object_attach_def upd_object_def no_objects_def)
  note t = object_types_ok [OF demo_objects_reach]
  have "(2 :: u8) \<in> set object_container" by (simp add: object_container_def)
  then show ?thesis using t l by auto
qed

subsection \<open>Search by name\<close>

lemma critical_section_ok:
  assumes "sched_inv s" "c < RT_CPUS_NR" "current_thread (cpus s c) = Some cur" "irq_nest (cpus s c) = 0"
    "scheduler_lock_nest (threads s cur) = 0" "cpus_lock_nest (threads s cur) = 0" "stacks_ok s"
    "thread_stat s cur = RT_THREAD_RUNNING"
  shows "\<exists>s'. rt_exit_critical c (rt_enter_critical c s) = Inr s' \<and> sched_inv s'"
  using exit_enter_critical [OF assms(3,5,6)] rt_schedule_best [OF assms(1-7)] assms(8) by auto

lemma init_none_eq:
  assumes "rt_object_init c None ob type name (os, s) = Inr (os', s')"
  shows "object_list os' = (object_list os)(type := ob # object_list os type)" "type \<in> set object_container"
    "objects os' = (objects os)(ob := (objects os ob)\<lparr>obj_type := type OR RT_Object_Class_Static, obj_name := strncpy name 8\<rparr>)"
  using assms get_information_None [of type]
  by (auto simp: rt_object_init_def Let_def rt_assert_def object_attach_def upd_object_def split: if_splits)

lemma find_cong_list: "(\<And>x. x \<in> set xs \<Longrightarrow> P x = Q x) \<Longrightarrow> List.find P xs = List.find Q xs"
  by (induction xs) auto

text \<open>
  A registered object is found by its name. After \<open>rt_object_init\<close> a search in the class of the new object with a
  name that agrees with its name in the first eight characters (\<open>RT_NAME_MAX\<close>) gives the new object, even when an
  older one has the same name; a search with any other name, or in another class, gives what it gave before.
  Detaching the object again makes every search give what it gave before the registration. The search runs
  in a critical section and always returns.
\<close>

theorem object_find_newest:
  assumes "rt_object_init c None ob type name (os, s) = Inr (os', s')" and "\<not> obj_linked os ob"
    and "nul \<notin> set name" and "nul \<notin> set name'" and "type' \<in> set object_container"
    and "sched_inv s1" and "c1 < RT_CPUS_NR" and "current_thread (cpus s1 c1) = Some cur" and "irq_nest (cpus s1 c1) = 0"
    and "scheduler_lock_nest (threads s1 cur) = 0" and "cpus_lock_nest (threads s1 cur) = 0" and "stacks_ok s1"
    and "thread_stat s1 cur = RT_THREAD_RUNNING"
  shows "\<exists>s2 r. rt_object_find c1 (Some name') type' (os, s1) = Inr (s2, r)
    \<and> rt_object_find c1 (Some name') type' (os', s1)
        = Inr (s2, if type' = type \<and> take 8 name' = take 8 name then Some ob else r)
    \<and> rt_object_find c1 (Some name') type' (rt_object_detach ob os', s1) = Inr (s2, r)"
proof -
  obtain s2 where s2: "rt_exit_critical c1 (rt_enter_critical c1 s1) = Inr s2"
    using critical_section_ok [OF assms(6-13)] by blast
  note i = init_none_eq [OF assms(1)]
  have n: "rt_interrupt_get_nest c1 s1 = 0" using assms(9) by (simp add: rt_interrupt_get_nest_def)
  let ?P = "\<lambda>os ob. strncmp_same (obj_name (objects os ob)) name' 8"
  have f: "rt_object_find c1 (Some name') type' (x, s1) = Inr (s2, List.find (?P x) (object_list x type'))" for x
    using get_information_iff [of type' type'] assms(5) n s2 by (simp add: rt_object_find_def rt_assert_def)
  have nl: "ob \<notin> set (object_list os cl)" for cl using assms(2) by (simp add: obj_linked_def)
  have P: "?P os' x = ?P os x" if "x \<noteq> ob" for x using that by (simp add: i(3))
  have old: "List.find (?P os') (object_list os cl) = List.find (?P os) (object_list os cl)" for cl
    using nl by (intro find_cong_list) (metis P)
  have "?P os' ob \<longleftrightarrow> take 8 name' = take 8 name"
    using strncmp_same_iff [OF assms(3,4), of 8] by (simp add: i(3) eq_commute)
  then have new: "List.find (?P os') (object_list os' type')
      = (if type' = type \<and> take 8 name' = take 8 name then Some ob else List.find (?P os) (object_list os type'))"
    using old by (simp add: i(1))
  have "object_list (rt_object_detach ob os') cl = object_list os cl" for cl
    using nl by (simp add: rt_object_detach_def object_remove_def upd_object_def i(1) removeAll_id)
  moreover have "?P (rt_object_detach ob os') x = ?P os' x" for x
    by (simp add: rt_object_detach_def object_remove_def upd_object_def)
  ultimately show ?thesis using f new old by (intro exI conjI) simp_all
qed

theorem object_find_newest_witness:
  "\<exists>os' s2 r. rt_object_init 0 None 9 2 ''sem'' (demo_objects, blank_kernel) = Inr (os', blank_kernel)
    \<and> rt_object_find 0 (Some ''sem'') 2 (demo_objects, demo_ready) = Inr (s2, r)
    \<and> rt_object_find 0 (Some ''sem'') 2 (os', demo_ready) = Inr (s2, Some 9)"
proof -
  have "rt_object_get_information 2 \<noteq> None" by (simp add: get_information_None object_container_def)
  then obtain os' where i: "rt_object_init 0 None 9 2 ''sem'' (demo_objects, blank_kernel) = Inr (os', blank_kernel)"
    by (simp add: rt_object_init_def rt_assert_def Let_def rt_enter_critical_def rt_exit_critical_def blank_kernel_def blank_cpu_def
        demo_objects_def object_attach_def upd_object_def no_objects_def)
  have l: "\<not> obj_linked demo_objects 9"
    by (simp add: obj_linked_def demo_objects_def object_attach_def upd_object_def no_objects_def)
  have n: "nul \<notin> set ''sem''" "(2 :: u8) \<in> set object_container" by (simp_all add: nul_def object_container_def)
  from object_find_newest [OF i l n(1,1,2) demo_ready_inv, of 0 4] i show ?thesis
    by (auto simp: demo_ready_sel)
qed

end
