(* ===== verification/Rt_Printf.thy ===== *)
theory Rt_Printf
  imports Rt_Prelude
begin

unbundle bit_operations_syntax

text \<open>
  Formatted output, \<open>rt_vsnprintf\<close> and \<open>print_number\<close> of \<open>src/kservice.c\<close>, with \<open>long\<close> of 32 bits and precisions. Memory
  is a function of 32-bit addresses. Both functions write through the pattern \<open>if (str < end) *str = c; ++ str\<close>, and
  \<open>str\<close> wraps around at the end of the address space. The text that a format stands for has a closed form; what is
  written is that text cut to the buffer, as long as \<open>str\<close> does not wrap, and when it does the text goes on at address 0.
\<close>

subsection \<open>The output buffer\<close>

record outbuf =
  out_mem :: "u32 \<Rightarrow> char"
  out_pos :: u32
  out_end :: u32

definition emit :: "char \<Rightarrow> outbuf \<Rightarrow> outbuf" where
  "emit c b = b\<lparr>out_mem := if out_pos b < out_end b then (out_mem b)(out_pos b := c) else out_mem b,
               out_pos := out_pos b + 1\<rparr>"

text \<open>The loops \<open>while (lo < n--)\<close> and \<open>while (--n > 0)\<close> around the pattern, with the value of \<open>n\<close> after the loop.\<close>

function emit_while :: "int \<Rightarrow> int \<Rightarrow> char \<Rightarrow> outbuf \<Rightarrow> outbuf \<times> int" where
  "emit_while lo n c b = (if lo < n then emit_while lo (n - 1) c (emit c b) else (b, n - 1))"
  by pat_completeness auto
termination by (relation "measure (\<lambda>(lo, n, c, b). nat (n - lo))") auto

function emit_while_pre :: "int \<Rightarrow> char \<Rightarrow> outbuf \<Rightarrow> outbuf \<times> int" where
  "emit_while_pre n c b = (if 0 < n - 1 then emit_while_pre (n - 1) c (emit c b) else (b, n - 1))"
  by pat_completeness auto
termination by (relation "measure (\<lambda>(n, c, b). nat n)") auto

fun emit_string :: "string \<Rightarrow> outbuf \<Rightarrow> outbuf" where
  "emit_string [] b = b"
| "emit_string (x # xs) b = emit_string xs (emit x b)"

subsection \<open>Numbers\<close>

definition ZEROPAD :: u8 where "ZEROPAD = 1"
definition SIGN :: u8 where "SIGN = 2"
definition PLUS :: u8 where "PLUS = 4"
definition SPACE :: u8 where "SPACE = 8"
definition LEFT :: u8 where "LEFT = 16"
definition SPECIAL :: u8 where "SPECIAL = 32"
definition LARGE :: u8 where "LARGE = 64"

definition divide :: "u32 \<Rightarrow> u32 \<Rightarrow> u32 \<times> u32" where
  "divide n base = (n mod base, n div base)"

text \<open>The digits go to \<open>tmp\<close>, an array of 32 characters, the lowest first.\<close>

function digit_loop :: "string \<Rightarrow> u32 \<Rightarrow> u32 \<Rightarrow> string \<Rightarrow> string res" where
  "digit_loop digits num base tmp =
    (if num = 0 then Inr tmp
     else if 32 \<le> length tmp then Inl OutOfBounds
     else let (r, num) = divide num base in digit_loop digits num base (tmp @ [digits ! unat r]))"
  by pat_completeness auto
termination by (relation "measure (\<lambda>(d, n, b, tmp). 32 - length tmp)") auto

declare emit_while.simps [simp del] emit_while_pre.simps [simp del] digit_loop.simps [simp del]

definition sign_char :: "u8 \<Rightarrow> u32 \<Rightarrow> char option" where
  "sign_char type num =
    (if type AND SIGN \<noteq> 0
     then if sint num < 0 then Some CHR ''-''
          else if type AND PLUS \<noteq> 0 then Some CHR ''+''
          else if type AND SPACE \<noteq> 0 then Some CHR '' '' else None
     else None)"

definition print_number :: "u32 \<Rightarrow> u32 \<Rightarrow> int \<Rightarrow> int \<Rightarrow> u8 \<Rightarrow> outbuf \<Rightarrow> outbuf res" where
  "print_number num base s precision type b =
    (let digits = (if type AND LARGE \<noteq> 0 then ''0123456789ABCDEF'' else ''0123456789abcdef'');
         type = (if type AND LEFT \<noteq> 0 then type AND NOT ZEROPAD else type);
         c = (if type AND ZEROPAD \<noteq> 0 then CHR ''0'' else CHR '' '');
         sign = sign_char type num;
         num = (if type AND SIGN \<noteq> 0 \<and> sint num < 0 then - num else num)
     in and_then (if num = 0 then Inr ''0'' else digit_loop digits num base []) (\<lambda>tmp.
       let i = int (length tmp);
           prec = (if i > precision then i else precision);
           size = s - prec;
           (b, size) = (if type AND (ZEROPAD OR LEFT) = 0
              then emit_while 0 (if sign \<noteq> None \<and> 0 < size then size - 1 else size) CHR '' '' b else (b, size));
           (b, size) = (case sign of None \<Rightarrow> (b, size) | Some x \<Rightarrow> (emit x b, size - 1));
           (b, size) = (if type AND LEFT = 0 then emit_while 0 size c b else (b, size));
           (b, prec) = emit_while i prec CHR ''0'' b;
           b = (if precision \<noteq> 0 then emit_string (rev tmp) b else b);
           (b, size) = emit_while 0 size CHR '' '' b
       in Inr b))"

subsection \<open>Formats\<close>

text \<open>
  An argument is a word, or the address of a string with its characters. Taking an argument that is not
  there, or reading a word as a string, reads foreign memory.
\<close>

datatype va = Word u32 | Str u32 string

fun va_word :: "va list \<Rightarrow> (u32 \<times> va list) res" where
  "va_word [] = Inl OutOfBounds"
| "va_word (Word w # args) = Inr (w, args)"
| "va_word (Str a s # args) = Inr (a, args)"

fun va_string :: "va list \<Rightarrow> (string option \<times> va list) res" where
  "va_string [] = Inl OutOfBounds"
| "va_string (Word w # args) = (if w = 0 then Inr (None, args) else Inl OutOfBounds)"
| "va_string (Str a s # args) = Inr (if a = 0 then None else Some s, args)"

definition isdigit :: "char \<Rightarrow> bool" where
  "isdigit c \<longleftrightarrow> 48 \<le> (of_char c :: nat) \<and> (of_char c :: nat) < 58"

text \<open>The format is the list of its characters; the empty list is the terminator.\<close>

fun skip_atoi :: "int \<Rightarrow> string \<Rightarrow> int \<times> string" where
  "skip_atoi i [] = (i, [])"
| "skip_atoi i (x # xs) =
    (if isdigit x then skip_atoi (sint (word_of_int (i * 10 + of_char x - 48) :: 32 word)) xs else (i, x # xs))"

fun scan_flags :: "u8 \<Rightarrow> string \<Rightarrow> u8 \<times> string" where
  "scan_flags flags [] = (flags, [])"
| "scan_flags flags (x # xs) =
    (if x = CHR ''-'' then scan_flags (flags OR LEFT) xs
     else if x = CHR ''+'' then scan_flags (flags OR PLUS) xs
     else if x = CHR '' '' then scan_flags (flags OR SPACE) xs
     else if x = CHR ''#'' then scan_flags (flags OR SPECIAL) xs
     else if x = CHR ''0'' then scan_flags (flags OR ZEROPAD) xs
     else (flags, x # xs))"

definition starts_digit :: "string \<Rightarrow> bool" where
  "starts_digit fmt = (case fmt of [] \<Rightarrow> False | x # _ \<Rightarrow> isdigit x)"

definition starts :: "char \<Rightarrow> string \<Rightarrow> bool" where
  "starts c fmt = (case fmt of [] \<Rightarrow> False | x # _ \<Rightarrow> x = c)"

definition scan_width :: "u8 \<Rightarrow> string \<Rightarrow> va list \<Rightarrow> (int \<times> u8 \<times> string \<times> va list) res" where
  "scan_width flags fmt args =
    (if starts_digit fmt then let (w, fmt) = skip_atoi 0 fmt in Inr (w, flags, fmt, args)
     else if starts CHR ''*'' fmt
     then and_then (va_word args) (\<lambda>(w, args).
       if sint w < 0 then Inr (sint (- w), flags OR LEFT, tl fmt, args) else Inr (sint w, flags, tl fmt, args))
     else Inr (- 1, flags, fmt, args))"

definition scan_precision :: "string \<Rightarrow> va list \<Rightarrow> (int \<times> string \<times> va list) res" where
  "scan_precision fmt args =
    (if starts CHR ''.'' fmt
     then let fmt = tl fmt in
       and_then (if starts_digit fmt then let (p, fmt) = skip_atoi 0 fmt in Inr (p, fmt, args)
                 else if starts CHR ''*'' fmt then and_then (va_word args) (\<lambda>(w, args). Inr (sint w, tl fmt, args))
                 else Inr (- 1, fmt, args))
         (\<lambda>(p, fmt, args). Inr (if p < 0 then 0 else p, fmt, args))
     else Inr (- 1, fmt, args))"

definition scan_qualifier :: "string \<Rightarrow> char option \<times> string" where
  "scan_qualifier fmt = (if starts CHR ''h'' fmt then (Some CHR ''h'', tl fmt)
     else if starts CHR ''l'' fmt then (Some CHR ''l'', tl fmt) else (None, fmt))"

text \<open>The number of a conversion: 16 bits with \<open>h\<close>, extended by sign or by zero.\<close>

definition conv_number :: "char option \<Rightarrow> u8 \<Rightarrow> u32 \<Rightarrow> u32" where
  "conv_number qualifier flags w =
    (if qualifier = Some CHR ''h''
     then if flags AND SIGN \<noteq> 0 then scast (ucast w :: u16) else ucast (ucast w :: u16)
     else w)"

definition print_char :: "int \<Rightarrow> u8 \<Rightarrow> char \<Rightarrow> outbuf \<Rightarrow> outbuf" where
  "print_char field_width flags c b =
    (let (b, field_width) = (if flags AND LEFT = 0 then emit_while_pre field_width CHR '' '' b else (b, field_width));
         b = emit c b
     in fst (emit_while_pre field_width CHR '' '' b))"

text \<open>\<open>for (len = 0; (len != field_width) && (s[len] != 0); len++)\<close>: a width that is not negative cuts the string.\<close>

fun string_len :: "nat \<Rightarrow> int \<Rightarrow> string \<Rightarrow> nat" where
  "string_len len field_width [] = len"
| "string_len len field_width (x # xs) = (if int len = field_width then len else string_len (len + 1) field_width xs)"

definition print_string :: "int \<Rightarrow> int \<Rightarrow> u8 \<Rightarrow> string option \<Rightarrow> outbuf \<Rightarrow> outbuf" where
  "print_string field_width precision flags s b =
    (let s = (case s of None \<Rightarrow> ''(NULL)'' | Some s \<Rightarrow> s);
         len = string_len 0 field_width s;
         len = (if 0 < precision \<and> precision < int len then nat precision else len);
         (b, field_width) = (if flags AND LEFT = 0 then emit_while (int len) field_width CHR '' '' b else (b, field_width));
         b = emit_string (take len s) b
     in fst (emit_while (int len) field_width CHR '' '' b))"

text \<open>The base and the flags that a conversion adds; a pointer is printed with eight digits unless a width is given.\<close>

definition conv_base :: "char \<Rightarrow> u32" where
  "conv_base x = (if x = CHR ''b'' then 2 else if x = CHR ''o'' then 8 else if x = CHR ''X'' \<or> x = CHR ''x'' then 16 else 10)"

definition conv_flags :: "char \<Rightarrow> u8 \<Rightarrow> u8" where
  "conv_flags x flags = (if x = CHR ''X'' then flags OR LARGE else if x = CHR ''d'' \<or> x = CHR ''i'' then flags OR SIGN else flags)"

definition pointer_width :: "int \<Rightarrow> int" where
  "pointer_width field_width = (if field_width = - 1 then 8 else field_width)"

definition pointer_flags :: "int \<Rightarrow> u8 \<Rightarrow> u8" where
  "pointer_flags field_width flags = (if field_width = - 1 then flags OR ZEROPAD else flags)"

text \<open>
  One conversion, behind flags, width, precision and qualifier; what is left of the format and of the arguments.
\<close>

definition print_conv ::
  "u8 \<Rightarrow> int \<Rightarrow> int \<Rightarrow> char option \<Rightarrow> string \<Rightarrow> va list \<Rightarrow> outbuf \<Rightarrow> (string \<times> va list \<times> outbuf) res" where
  "print_conv flags field_width precision qualifier fmt args b =
    (case fmt of [] \<Rightarrow> Inr ([], args, emit CHR ''%'' b)
     | x # fmt \<Rightarrow>
        if x = CHR ''c'' then and_then (va_word args) (\<lambda>(w, args).
          Inr (fmt, args, print_char field_width flags (char_of (unat (ucast w :: u8))) b))
        else if x = CHR ''s'' then and_then (va_string args) (\<lambda>(s, args).
          Inr (fmt, args, print_string field_width precision flags s b))
        else if x = CHR ''p'' then and_then (va_word args) (\<lambda>(w, args).
          and_then (print_number w 16 (pointer_width field_width) precision (pointer_flags field_width flags) b) (\<lambda>b.
            Inr (fmt, args, b)))
        else if x = CHR ''%'' then Inr (fmt, args, emit CHR ''%'' b)
        else if x \<in> {CHR ''b'', CHR ''o'', CHR ''X'', CHR ''x'', CHR ''d'', CHR ''i'', CHR ''u''} then
          and_then (va_word args) (\<lambda>(w, args).
          and_then (print_number (conv_number qualifier (conv_flags x flags) w) (conv_base x) field_width precision (conv_flags x flags) b) (\<lambda>b.
            Inr (fmt, args, b)))
        else Inr (fmt, args, emit x (emit CHR ''%'' b)))"

definition print_directive :: "string \<Rightarrow> va list \<Rightarrow> outbuf \<Rightarrow> (string \<times> va list \<times> outbuf) res" where
  "print_directive fmt args b =
    (let (flags, fmt) = scan_flags 0 fmt in
     and_then (scan_width flags fmt args) (\<lambda>(field_width, flags, fmt, args).
     and_then (scan_precision fmt args) (\<lambda>(precision, fmt, args).
     let (qualifier, fmt) = scan_qualifier fmt in
     print_conv flags field_width precision qualifier fmt args b)))"

text \<open>A conversion never moves the format backwards, so the loop over the format ends.\<close>

lemma length_skip_atoi: "length (snd (skip_atoi i xs)) \<le> length xs"
  by (induction i xs rule: skip_atoi.induct) auto

lemma length_scan_flags: "length (snd (scan_flags f xs)) \<le> length xs"
  by (induction f xs rule: scan_flags.induct) auto

lemma length_scan_width: "scan_width flags fmt args = Inr (w, flags', fmt', args') \<Longrightarrow> length fmt' \<le> length fmt"
  using length_skip_atoi [of 0 fmt] by (auto simp: scan_width_def Let_def split: prod.splits if_splits)

lemma length_scan_precision: "scan_precision fmt args = Inr (p, fmt', args') \<Longrightarrow> length fmt' \<le> length fmt"
  using length_skip_atoi [of 0 "tl fmt"] by (auto simp: scan_precision_def Let_def split: prod.splits if_splits)

lemma length_scan_qualifier: "scan_qualifier fmt = (q, fmt') \<Longrightarrow> length fmt' \<le> length fmt"
  by (auto simp: scan_qualifier_def split: if_splits)

lemma length_print_conv: "print_conv flags fw prec q fmt args b = Inr (fmt', args', b') \<Longrightarrow> length fmt' \<le> length fmt"
proof (cases fmt)
  case (Cons x r)
  assume "print_conv flags fw prec q fmt args b = Inr (fmt', args', b')"
  then have "fmt' = r" unfolding print_conv_def Cons list.case
    by (simp add: if_split_asm del: insert_iff empty_iff split: if_split_asm) (blast | auto)+
  then show ?thesis using Cons by simp
qed (simp add: print_conv_def)

lemma length_print_directive:
  assumes "print_directive fmt args b = Inr (fmt', args', b')"
  shows "length fmt' \<le> length fmt"
proof -
  obtain flags f1 w flags' f2 a2 p f3 a3 q f4 where e: "scan_flags 0 fmt = (flags, f1)"
    "scan_width flags f1 args = Inr (w, flags', f2, a2)" "scan_precision f2 a2 = Inr (p, f3, a3)"
    "scan_qualifier f3 = (q, f4)" "print_conv flags' w p q f4 a3 b = Inr (fmt', args', b')"
    using assms by (auto simp: print_directive_def split: prod.split_asm) (metis surj_pair)
  have "length f1 \<le> length fmt" using length_scan_flags [of 0 fmt] e(1) by simp
  then show ?thesis using length_scan_width [OF e(2)] length_scan_precision [OF e(3)] length_scan_qualifier [OF e(4)]
    length_print_conv [OF e(5)] by simp
qed

function vsn_loop :: "string \<Rightarrow> va list \<Rightarrow> outbuf \<Rightarrow> outbuf res" where
  "vsn_loop [] args b = Inr b"
| "vsn_loop (x # fmt) args b =
    (if x \<noteq> CHR ''%'' then vsn_loop fmt args (emit x b)
     else case print_directive fmt args b of Inl e \<Rightarrow> Inl e
     | Inr (fmt', args', b') \<Rightarrow> vsn_loop fmt' args' b')"
  by pat_completeness auto
termination
  by (relation "measure (\<lambda>(fmt, args, b). length fmt)") (auto simp: less_Suc_eq_le dest: length_print_directive)

text \<open>
  \<open>buf\<close> is the address of the buffer; an end that wraps around is moved to the end of the address space. The
  result is the memory, and the distance that \<open>str\<close> has gone, an \<open>int\<close>.
\<close>

definition output_end :: "u32 \<Rightarrow> u32 \<Rightarrow> u32 \<times> u32" where
  "output_end buf sz = (if buf + sz < buf then (- 1, - 1 - buf) else (buf + sz, sz))"

definition rt_vsnprintf :: "u32 \<Rightarrow> u32 \<Rightarrow> string \<Rightarrow> va list \<Rightarrow> (u32 \<Rightarrow> char) \<Rightarrow> ((u32 \<Rightarrow> char) \<times> int) res" where
  "rt_vsnprintf buf sz fmt args mem =
    (case output_end buf sz of (e, n) \<Rightarrow>
     and_then (vsn_loop fmt args \<lparr>out_mem = mem, out_pos = buf, out_end = e\<rparr>) (\<lambda>b.
       let mem = (if 0 < n then if out_pos b < e then (out_mem b)(out_pos b := CHR 0x00)
                                else (out_mem b)(e - 1 := CHR 0x00)
                  else out_mem b)
       in Inr (mem, sint (out_pos b - buf))))"

definition rt_snprintf :: "u32 \<Rightarrow> u32 \<Rightarrow> string \<Rightarrow> va list \<Rightarrow> (u32 \<Rightarrow> char) \<Rightarrow> ((u32 \<Rightarrow> char) \<times> int) res" where
  "rt_snprintf buf sz fmt args mem = rt_vsnprintf buf sz fmt args mem"

definition rt_vsprintf :: "u32 \<Rightarrow> string \<Rightarrow> va list \<Rightarrow> (u32 \<Rightarrow> char) \<Rightarrow> ((u32 \<Rightarrow> char) \<times> int) res" where
  "rt_vsprintf buf fmt args mem = rt_vsnprintf buf (- 1) fmt args mem"

definition rt_sprintf :: "u32 \<Rightarrow> string \<Rightarrow> va list \<Rightarrow> (u32 \<Rightarrow> char) \<Rightarrow> ((u32 \<Rightarrow> char) \<times> int) res" where
  "rt_sprintf buf fmt args mem = rt_vsprintf buf fmt args mem"

subsection \<open>What is written\<close>

lemma emit_string_append: "emit_string (xs @ ys) b = emit_string ys (emit_string xs b)"
  by (induction xs arbitrary: b) auto

lemma emit_is_string: "emit c b = emit_string [c] b"
  by simp

lemma emit_string_sel [simp]:
  "out_pos (emit_string xs b) = out_pos b + of_nat (length xs)" "out_end (emit_string xs b) = out_end b"
  by (induction xs arbitrary: b) (simp_all add: emit_def algebra_simps)

text \<open>A text of up to \<open>2 ^ 32\<close> characters overwrites none of its own, and character \<open>i\<close> goes \<open>i\<close> places on, modulo \<open>2 ^ 32\<close>.\<close>

lemma emit_string_mem:
  assumes "length xs \<le> 2 ^ 32"
  shows "out_mem (emit_string xs b) a
    = (if a < out_end b \<and> unat (a - out_pos b) < length xs then xs ! unat (a - out_pos b) else out_mem b a)"
  using assms
proof (induction xs arbitrary: b)
  case (Cons x xs)
  have len: "length xs < 2 ^ 32" using Cons.prems by simp
  have IH: "out_mem (emit_string (x # xs) b) a = (if a < out_end b \<and> unat (a - out_pos b - 1) < length xs
      then xs ! unat (a - out_pos b - 1) else out_mem (emit x b) a)"
    using Cons.IH [of "emit x b"] len by (simp add: emit_def diff_diff_eq)
  show ?case
  proof (cases "a = out_pos b")
    case True
    have "unat (- 1 :: u32) = 2 ^ 32 - 1" by (simp add: unsigned_minus_1_eq_mask mask_eq_exp_minus_1)
    then show ?thesis unfolding IH using True len by (simp add: emit_def)
  next
    case False
    then have "a - out_pos b \<noteq> 0" by simp
    then have u: "unat (a - out_pos b) = Suc (unat (a - out_pos b - 1))"
      using unat_minus_one [of "a - out_pos b"] unat_gt_0 [of "a - out_pos b"] by linarith
    show ?thesis unfolding IH u using False by (simp add: emit_def)
  qed
qed simp

lemma emit_while_eq: "emit_while lo n c b = (emit_string (replicate (nat (n - lo)) c) b, min n lo - 1)"
proof (induction lo n c b rule: emit_while.induct)
  case (1 lo n c b)
  show ?case
  proof (cases "lo < n")
    case True
    then have "nat (n - lo) = Suc (nat (n - 1 - lo))" by simp
    then show ?thesis using 1 True by (simp add: emit_while.simps [of lo n])
  qed (simp add: emit_while.simps [of lo n])
qed

lemma emit_while_pre_eq: "emit_while_pre n c b = (emit_string (replicate (nat (n - 1)) c) b, min (n - 1) 0)"
proof (induction n c b rule: emit_while_pre.induct)
  case (1 n c b)
  show ?case
  proof (cases "0 < n - 1")
    case True
    then have "nat (n - 1) = Suc (nat (n - 1 - 1))" by simp
    then show ?thesis using 1 True by (simp add: emit_while_pre.simps [of n])
  qed (simp add: emit_while_pre.simps [of n])
qed

subsection \<open>The text of a number\<close>

text \<open>The digits of a number in a base, the highest first, and the value of such a list.\<close>

function digits_of :: "nat \<Rightarrow> nat \<Rightarrow> nat list" where
  "digits_of base n = (if base < 2 \<or> n < base then [n] else digits_of base (n div base) @ [n mod base])"
  by pat_completeness auto
termination by (relation "measure snd") auto

declare digits_of.simps [simp del]

definition value_of :: "nat \<Rightarrow> nat list \<Rightarrow> nat" where
  "value_of base ds = foldl (\<lambda>a d. a * base + d) 0 ds"

lemma value_digits: "2 \<le> base \<Longrightarrow> value_of base (digits_of base n) = n"
proof (induction base n rule: digits_of.induct)
  case (1 base n)
  then show ?case by (simp add: digits_of.simps [of base n] value_of_def)
qed

lemma digits_less: "2 \<le> base \<Longrightarrow> d \<in> set (digits_of base n) \<Longrightarrow> d < base"
proof (induction base n rule: digits_of.induct)
  case (1 base n)
  then show ?case by (auto simp: digits_of.simps [of base n] split: if_splits)
qed

lemma length_digits: "2 \<le> base \<Longrightarrow> n < 2 ^ k \<Longrightarrow> 0 < k \<Longrightarrow> length (digits_of base n) \<le> k"
proof (induction base n arbitrary: k rule: digits_of.induct)
  case (1 base n)
  show ?case
  proof (cases "n < base")
    case True
    then show ?thesis using 1(4) by (simp add: digits_of.simps [of base n])
  next
    case False
    obtain j where j: "k = Suc j" using 1(4) by (cases k) auto
    have "n div base \<le> n div 2" using 1(2) by (intro div_le_mono2) auto
    also have "\<dots> < 2 ^ j" using 1(3) j by (simp add: less_mult_imp_div_less mult.commute)
    finally have d: "n div base < 2 ^ j" .
    moreover have "0 < n div base" using False 1(2) by (simp add: div_greater_zero_iff)
    ultimately have "0 < j" by (cases j) auto
    then have "length (digits_of base (n div base)) \<le> j" using 1(1) [of j] 1(2) False d by simp
    then show ?thesis using False 1(2) j by (simp add: digits_of.simps [of base n])
  qed
qed

lemma digits_of_not_Nil [simp]: "digits_of base n \<noteq> []"
  by (simp add: digits_of.simps [of base n])

text \<open>The array for the digits is large enough for 32 bits in every base from 2 on.\<close>

lemma digit_loop_eq:
  assumes "2 \<le> base" "length tmp \<le> 32" "unat num < 2 ^ (32 - length tmp)" "num \<noteq> 0"
  shows "digit_loop tab num base tmp = Inr (tmp @ rev (map (nth tab) (digits_of (unat base) (unat num))))"
  using assms
proof (induction tab num base tmp rule: digit_loop.induct)
  case (1 tab num base tmp)
  let ?tmp = "tmp @ [tab ! unat (num mod base)]"
  have b2: "2 \<le> unat base" using 1(2) by (simp add: word_le_nat_alt)
  have n0: "0 < unat num" using 1(5) by (simp add: unat_gt_0)
  have len: "length tmp < 32" using 1(3,4) n0 by (cases "length tmp = 32") auto
  have dv: "unat (num div base) = unat num div unat base" "unat (num mod base) = unat num mod unat base"
    by (simp_all add: unat_div_distrib unat_mod_distrib)
  have step: "digit_loop tab num base tmp = digit_loop tab (num div base) base ?tmp"
    using 1(5) len by (simp add: digit_loop.simps [of tab num] divide_def)
  show ?case
  proof (cases "unat num < unat base")
    case True
    then have "num div base = 0" using dv(1) by (simp add: unat_eq_zero)
    then show ?thesis using step True dv(2) by (simp add: digit_loop.simps [of tab 0] digits_of.simps [of _ "unat num"])
  next
    case False
    have "unat num div unat base \<le> unat num div 2" using b2 by (intro div_le_mono2) auto
    also have "\<dots> < 2 ^ (32 - length ?tmp)"
    proof -
      have "32 - length tmp = Suc (32 - length ?tmp)" using len by simp
      then show ?thesis using 1(4) by (metis less_mult_imp_div_less mult.commute power_Suc)
    qed
    finally have lt: "unat (num div base) < 2 ^ (32 - length ?tmp)" using dv(1) by simp
    have "0 < unat num div unat base" using False b2 by (simp add: div_greater_zero_iff)
    then have nz: "num div base \<noteq> 0" using dv(1) by auto
    have "digit_loop tab (num div base) base ?tmp
        = Inr (?tmp @ rev (map (nth tab) (digits_of (unat base) (unat (num div base)))))"
      by (rule 1(1) [OF 1(5) _ _ refl]) (use len lt nz 1(2) in \<open>simp_all add: divide_def\<close>)
    then show ?thesis using step False b2 dv by (simp add: digits_of.simps [of _ "unat num"])
  qed
qed

definition num_text :: "u32 \<Rightarrow> nat \<Rightarrow> int \<Rightarrow> int \<Rightarrow> u8 \<Rightarrow> string" where
  "num_text num base width precision flags =
    (let tab = (if flags AND LARGE \<noteq> 0 then ''0123456789ABCDEF'' else ''0123456789abcdef'');
         sign = (case sign_char flags num of None \<Rightarrow> [] | Some x \<Rightarrow> [x]);
         m = (if flags AND SIGN \<noteq> 0 then nat \<bar>sint num\<bar> else unat num);
         ds = map (nth tab) (digits_of base m);
         body = replicate (nat (precision - int (length ds))) CHR ''0'' @ (if precision = 0 then [] else ds);
         w = nat (width - max precision (int (length ds)) - int (length sign))
     in if flags AND LEFT \<noteq> 0 then sign @ body @ replicate w CHR '' ''
        else if flags AND ZEROPAD \<noteq> 0 then sign @ replicate w CHR ''0'' @ body
        else replicate w CHR '' '' @ sign @ body)"

lemma unat_neg_sint: "sint (num :: u32) < 0 \<Longrightarrow> unat (- num) = nat \<bar>sint num\<bar>"
proof -
  assume n: "sint num < 0"
  have "- num = word_of_int (- sint num)" by simp
  moreover have "0 \<le> - sint num" "- sint num < 2 ^ 32" using n sint_ge [of num] by simp_all
  ultimately have "uint (- num) = - sint num" by (simp only: uint_word_of_int) (simp add: take_bit_int_eq_self)
  then show ?thesis using n by (metis abs_of_neg unat_eq_nat_uint)
qed

lemma sint_pos_unat: "0 \<le> sint (num :: u32) \<Longrightarrow> unat num = nat \<bar>sint num\<bar>"
  using sint_nonneg [of num] by simp

lemma num_digits:
  assumes "2 \<le> base"
  shows "(if num = 0 then Inr ''0'' else digit_loop tab num base []) = Inr (rev (if num = 0 then ''0'' else map (nth tab) (digits_of (unat base) (unat num))))"
  using digit_loop_eq [OF assms, of "[]" num tab] unsigned_less [of num, where 'a = nat] by simp

lemma print_number_eq:
  assumes "base \<in> {2, 8, 10, 16}"
  shows "print_number num base width precision flags b = Inr (emit_string (num_text num (unat base) width precision flags) b)"
proof -
  let ?f = "if flags AND LEFT \<noteq> 0 then flags AND NOT ZEROPAD else flags"
  let ?tab = "if flags AND LARGE \<noteq> 0 then ''0123456789ABCDEF'' else ''0123456789abcdef''"
  let ?num = "if flags AND SIGN \<noteq> 0 \<and> sint num < 0 then - num else num"
  let ?m = "if flags AND SIGN \<noteq> 0 then nat \<bar>sint num\<bar> else unat num"
  define ds where "ds = map (nth ?tab) (digits_of (unat base) ?m)"
  have bits: "?f AND SIGN = flags AND SIGN" "?f AND PLUS = flags AND PLUS" "?f AND SPACE = flags AND SPACE"
    "?f AND LEFT = flags AND LEFT" "?f AND ZEROPAD = (if flags AND LEFT \<noteq> 0 then 0 else flags AND ZEROPAD)"
    by (simp_all add: SIGN_def PLUS_def SPACE_def LEFT_def ZEROPAD_def and.assoc)
  have zl: "?f AND (ZEROPAD OR LEFT) = 0 \<longleftrightarrow> flags AND LEFT = 0 \<and> flags AND ZEROPAD = 0"
    by (auto simp: bit.conj_disj_distrib or_eq_0_iff bits)
  have sg: "sign_char ?f num = sign_char flags num" by (simp only: sign_char_def bits)
  have b2: "2 \<le> base" "2 \<le> unat base" using assms by auto
  have um: "unat ?num = ?m" using unat_neg_sint [of num] sint_pos_unat [of num] by (auto simp: not_less)
  have dg: "(if ?num = 0 then Inr ''0'' else digit_loop ?tab ?num base []) = Inr (rev ds)"
  proof (cases "?num = 0")
    case True
    then have "?m = 0" using um by simp
    then have "ds = ''0''" using b2 by (simp add: ds_def digits_of.simps [of _ 0])
    then show ?thesis using True by simp
  next
    case False
    then show ?thesis using num_digits [OF b2(1), of ?num ?tab] by (simp only: um ds_def if_False)
  qed
  show ?thesis
    unfolding print_number_def Let_def bits(1) sg zl bits(4,5) dg
    by (cases "sign_char flags num")
      (auto simp: num_text_def Let_def emit_while_eq ds_def [symmetric] emit_is_string emit_string_append [symmetric]
        simp del: emit_string.simps)
qed

subsection \<open>The text of a format\<close>

definition char_text :: "int \<Rightarrow> u8 \<Rightarrow> char \<Rightarrow> string" where
  "char_text width flags c = (let pad = replicate (nat (width - 1)) CHR '' '' in if flags AND LEFT \<noteq> 0 then c # pad else pad @ [c])"

definition string_text :: "int \<Rightarrow> int \<Rightarrow> u8 \<Rightarrow> string option \<Rightarrow> string" where
  "string_text width precision flags s =
    (let s = (case s of None \<Rightarrow> ''(NULL)'' | Some s \<Rightarrow> s);
         s = (if 0 \<le> width then take (nat width) s else s);
         s = (if 0 < precision then take (nat precision) s else s);
         pad = replicate (nat (width - int (length s))) CHR '' ''
     in if flags AND LEFT \<noteq> 0 then s @ pad else pad @ s)"

definition conv_text :: "u8 \<Rightarrow> int \<Rightarrow> int \<Rightarrow> char option \<Rightarrow> string \<Rightarrow> va list \<Rightarrow> (string \<times> va list \<times> string) res" where
  "conv_text flags width precision qualifier fmt args =
    (case fmt of [] \<Rightarrow> Inr ([], args, ''%'')
     | x # fmt \<Rightarrow>
        if x = CHR ''c'' then and_then (va_word args) (\<lambda>(w, args).
          Inr (fmt, args, char_text width flags (char_of (unat (ucast w :: u8)))))
        else if x = CHR ''s'' then and_then (va_string args) (\<lambda>(s, args). Inr (fmt, args, string_text width precision flags s))
        else if x = CHR ''p'' then and_then (va_word args) (\<lambda>(w, args).
          Inr (fmt, args, num_text w 16 (pointer_width width) precision (pointer_flags width flags)))
        else if x = CHR ''%'' then Inr (fmt, args, ''%'')
        else if x \<in> {CHR ''b'', CHR ''o'', CHR ''X'', CHR ''x'', CHR ''d'', CHR ''i'', CHR ''u''} then
          and_then (va_word args) (\<lambda>(w, args).
            Inr (fmt, args, num_text (conv_number qualifier (conv_flags x flags) w) (unat (conv_base x)) width precision (conv_flags x flags)))
        else Inr (fmt, args, [CHR ''%'', x]))"

definition directive_text :: "string \<Rightarrow> va list \<Rightarrow> (string \<times> va list \<times> string) res" where
  "directive_text fmt args =
    (let (flags, fmt) = scan_flags 0 fmt in
     and_then (scan_width flags fmt args) (\<lambda>(width, flags, fmt, args).
     and_then (scan_precision fmt args) (\<lambda>(precision, fmt, args).
     let (qualifier, fmt) = scan_qualifier fmt in conv_text flags width precision qualifier fmt args)))"

lemma print_char_eq: "print_char width flags c b = emit_string (char_text width flags c) b"
  by (auto simp: print_char_def char_text_def Let_def emit_while_pre_eq emit_is_string emit_string_append [symmetric] min_def
      simp del: emit_string.simps)

lemma string_len_eq: "string_len k width s = (if int k \<le> width then min (nat width) (k + length s) else k + length s)"
  by (induction k width s rule: string_len.induct) (auto simp: min_def)

lemma print_string_eq: "print_string width precision flags s b = emit_string (string_text width precision flags s) b"
proof -
  define s' where "s' = (case s of None \<Rightarrow> ''(NULL)'' | Some s \<Rightarrow> s)"
  define len where "len = (let l = string_len 0 width s' in if 0 < precision \<and> precision < int l then nat precision else l)"
  have t: "(let s = (if 0 \<le> width then take (nat width) s' else s') in if 0 < precision then take (nat precision) s else s) = take len s'"
    by (auto simp: len_def string_len_eq Let_def min_def nat_le_eq_zle not_less dest: order.antisym)
  have l: "length (take len s') = len" by (auto simp: len_def string_len_eq Let_def min_def)
  have tx: "string_text width precision flags s =
      (let pad = replicate (nat (width - int len)) CHR '' '' in if flags AND LEFT \<noteq> 0 then take len s' @ pad else pad @ take len s')"
    unfolding string_text_def s'_def [symmetric] using t l by (simp only: Let_def)
  show ?thesis
    unfolding print_string_def tx s'_def [symmetric] Let_def
    unfolding len_def [unfolded Let_def, symmetric]
    by (auto simp: emit_while_eq emit_string_append [symmetric] min_def simp del: emit_string.simps)
qed

lemma print_conv_eq:
  "print_conv flags width precision qualifier fmt args b =
    and_then (conv_text flags width precision qualifier fmt args) (\<lambda>(fmt, args, t). Inr (fmt, args, emit_string t b))"
proof -
  have "conv_base x \<in> {2, 8, 10, 16}" for x by (simp add: conv_base_def)
  note n = print_number_eq [OF this] print_number_eq [of 16, simplified]
  show ?thesis
    by (cases fmt) (auto simp: print_conv_def conv_text_def print_char_eq print_string_eq n and_then_assoc case_prod_unfold)
qed

lemma print_directive_eq:
  "print_directive fmt args b = and_then (directive_text fmt args) (\<lambda>(fmt, args, t). Inr (fmt, args, emit_string t b))"
  by (simp add: print_directive_def directive_text_def print_conv_eq and_then_assoc case_prod_unfold Let_def)

lemma length_directive_text: "directive_text fmt args = Inr (fmt', args', t) \<Longrightarrow> length fmt' \<le> length fmt"
  using length_print_directive [of fmt args undefined fmt' args'] by (simp add: print_directive_eq)

function format_text :: "string \<Rightarrow> va list \<Rightarrow> string res" where
  "format_text [] args = Inr []"
| "format_text (x # fmt) args =
    (if x \<noteq> CHR ''%'' then and_then (format_text fmt args) (\<lambda>t. Inr (x # t))
     else case directive_text fmt args of Inl e \<Rightarrow> Inl e
     | Inr (fmt', args', t) \<Rightarrow> and_then (format_text fmt' args') (\<lambda>t'. Inr (t @ t')))"
  by pat_completeness auto
termination
  by (relation "measure (\<lambda>(fmt, args). length fmt)") (auto simp: less_Suc_eq_le dest: length_directive_text)

lemma vsn_loop_eq: "vsn_loop fmt args b = and_then (format_text fmt args) (\<lambda>t. Inr (emit_string t b))"
proof (induction fmt args arbitrary: b rule: format_text.induct)
  case (2 x fmt args)
  show ?case
  proof (cases "x = CHR ''%''")
    case True
    then show ?thesis using 2(2) by (auto simp: print_directive_eq and_then_assoc emit_string_append split: sum.split prod.split)
  next
    case False
    then show ?thesis using 2(1) by (simp add: and_then_assoc)
  qed
qed simp

subsection \<open>Promises\<close>

text \<open>The number of bytes that belong to the buffer.\<close>

definition buffer_size :: "u32 \<Rightarrow> u32 \<Rightarrow> nat" where
  "buffer_size buf sz = min (unat sz) (2 ^ 32 - 1 - unat buf)"

lemma output_end_eq: "output_end buf sz = (buf + of_nat (buffer_size buf sz), of_nat (buffer_size buf sz))"
  "unat buf + buffer_size buf sz < 2 ^ 32"
proof -
  have b: "unat buf < 2 ^ 32" using unsigned_less [of buf, where 'a = nat] by simp
  have s: "unat sz < 2 ^ 32" using unsigned_less [of sz, where 'a = nat] by simp
  have m: "unat (- 1 - buf) = 2 ^ 32 - 1 - unat buf"
    using b by (simp add: unat_sub_if_size word_size unsigned_minus_1_eq_mask mask_eq_exp_minus_1)
  have "of_nat (unat (- 1 - buf)) = - 1 - buf" by simp
  then have m': "of_nat (2 ^ 32 - 1 - unat buf) = - 1 - buf" unfolding m .
  have wrap: "buf + sz < buf \<longleftrightarrow> 2 ^ 32 \<le> unat buf + unat sz"
    using b s by (simp add: word_less_nat_alt unat_plus_if') auto
  then show "output_end buf sz = (buf + of_nat (buffer_size buf sz), of_nat (buffer_size buf sz))"
  proof (cases "buf + sz < buf")
    case True
    then have "buffer_size buf sz = 2 ^ 32 - 1 - unat buf" using wrap by (simp add: buffer_size_def)
    then show ?thesis using True m' by (simp only: output_end_def if_True) simp
  next
    case False
    then have "buffer_size buf sz = unat sz" using wrap by (simp add: buffer_size_def)
    then show ?thesis using False by (simp add: output_end_def)
  qed
  show "unat buf + buffer_size buf sz < 2 ^ 32" using b by (simp add: buffer_size_def)
qed

lemma buffer_size_le: "buffer_size buf sz \<le> unat sz"
  by (simp add: buffer_size_def)

text \<open>The memory after a text that does not run into the end of the address space.\<close>

definition cut_text :: "string \<Rightarrow> nat \<Rightarrow> u32 \<Rightarrow> (u32 \<Rightarrow> char) \<Rightarrow> u32 \<Rightarrow> char" where
  "cut_text t n buf mem a =
    (let i = unat (a - buf); k = min (length t) (n - 1)
     in if n = 0 then mem a else if i < k then t ! i else if i = k then CHR 0x00 else mem a)"

lemma vsnprintf_cut:
  assumes "format_text fmt args = Inr t" "unat buf + length t < 2 ^ 32"
  shows "rt_vsnprintf buf sz fmt args mem = Inr (cut_text t (buffer_size buf sz) buf mem, sint (of_nat (length t) :: u32))"
proof -
  let ?n = "buffer_size buf sz" and ?L = "length t"
  let ?b = "emit_string t \<lparr>out_mem = mem, out_pos = buf, out_end = buf + of_nat ?n\<rparr>"
  have n: "unat buf + ?n < 2 ^ 32" by (rule output_end_eq(2))
  have add: "unat (buf + of_nat k) = unat buf + k" if "unat buf + k < 2 ^ 32" for k
    using that by (simp add: unat_word_ariths(1) unat_of_nat)
  have diff: "unat (buf + of_nat k - buf) = k" if "unat buf + k < 2 ^ 32" for k
    using that by (simp add: unat_of_nat)
  have place: "a = buf + of_nat k \<longleftrightarrow> unat (a - buf) = k" if "unat buf + k < 2 ^ 32" for a k
    using diff [OF that] by (metis diff_add_cancel add.commute word_unat_eq_iff)
  have M: "out_mem ?b a = (if unat (a - buf) < ?L \<and> unat (a - buf) < ?n then t ! unat (a - buf) else mem a)" for a
  proof -
    have "a < buf + of_nat ?n \<longleftrightarrow> unat (a - buf) < ?n" if "unat (a - buf) < ?L"
    proof -
      have i: "unat buf + unat (a - buf) < 2 ^ 32" using that assms(2) by simp
      then have "unat a = unat buf + unat (a - buf)" using place [OF i, of a] add [OF i] by simp
      then show ?thesis using add [OF n] by (simp add: word_less_nat_alt)
    qed
    then show ?thesis using assms(2) by (cases "unat (a - buf) < ?L") (simp_all add: emit_string_mem)
  qed
  have p: "out_pos ?b < buf + of_nat ?n \<longleftrightarrow> ?L < ?n" using add [OF assms(2)] add [OF n] by (simp add: word_less_nat_alt)
  have z: "0 < (of_nat ?n :: u32) \<longleftrightarrow> 0 < ?n" using n by (simp add: word_less_nat_alt unat_of_nat)
  have run: "rt_vsnprintf buf sz fmt args mem = Inr (if 0 < ?n then if ?L < ?n then (out_mem ?b)(buf + of_nat ?L := CHR 0x00)
      else (out_mem ?b)(buf + of_nat (?n - 1) := CHR 0x00) else out_mem ?b, sint (of_nat ?L :: u32))"
    using p assms(1) by (simp add: rt_vsnprintf_def output_end_eq(1) vsn_loop_eq z Let_def add_diff_eq)
  have "(if 0 < ?n then if ?L < ?n then (out_mem ?b)(buf + of_nat ?L := CHR 0x00)
      else (out_mem ?b)(buf + of_nat (?n - 1) := CHR 0x00) else out_mem ?b) = cut_text t ?n buf mem"
    (is "?l = ?r")
  proof
    fix a
    have "unat buf + (?n - 1) < 2 ^ 32" using n by simp
    note pl = place [OF assms(2), of a] place [OF this, of a]
    consider "?n = 0" | "0 < ?n" "?L < ?n" | "0 < ?n" "\<not> ?L < ?n" by blast
    then show "?l a = ?r a"
    proof cases
      case 1 then show ?thesis using M [of a] by (simp add: cut_text_def)
    next
      case 2
      then have "min ?L (?n - 1) = ?L" "?n \<noteq> 0" by simp_all
      then show ?thesis using 2 by (simp only: M pl fun_upd_apply cut_text_def Let_def if_True if_False simp_thms)
        (auto dest: less_trans)
    next
      case 3
      then have "min ?L (?n - 1) = ?n - 1" "?n \<noteq> 0" by simp_all
      moreover have "unat (a - buf) \<noteq> ?n - 1 \<Longrightarrow> unat (a - buf) < ?L \<and> unat (a - buf) < ?n \<longleftrightarrow> unat (a - buf) < ?n - 1" using 3 by linarith
      ultimately show ?thesis using 3 by (simp only: M pl fun_upd_apply cut_text_def Let_def if_True if_False simp_thms) auto
    qed
  qed
  then show ?thesis using run by simp
qed

text \<open>
  C23. \<open>rt_vsnprintf\<close> writes the text of the format, cut to the buffer and terminated. For every buffer, size, format and list of
  arguments it faults exactly when the format asks for an argument that is not there. Otherwise, if the whole text would
  end inside the address space, a buffer of size 0 is not touched; any other gets the longest prefix of the text that
  leaves room for the terminator, then the terminator; no other byte changes, and the bytes written lie in the buffer
  and in the address space. The result is the length of the whole text, as an \<open>int\<close> of 32 bits.
\<close>

theorem vsnprintf_writes_text:
  "(case format_text fmt args of Inl e \<Rightarrow> rt_vsnprintf buf sz fmt args mem = Inl e
     | Inr t \<Rightarrow> unat buf + length t < 2 ^ 32 \<longrightarrow>
         rt_vsnprintf buf sz fmt args mem
           = (let n = buffer_size buf sz; k = min (length t) (n - 1) in
              Inr (\<lambda>a. if n = 0 then mem a else if unat (a - buf) < k then t ! unat (a - buf)
                       else if unat (a - buf) = k then CHR 0x00 else mem a, sint (of_nat (length t) :: u32))))
    \<and> buffer_size buf sz \<le> unat sz \<and> unat buf + buffer_size buf sz < 2 ^ 32"
proof -
  have c: "(\<lambda>a. if n = 0 then mem a else if unat (a - buf) < min (length t) (n - 1) then t ! unat (a - buf)
      else if unat (a - buf) = min (length t) (n - 1) then CHR 0x00 else mem a) = cut_text t n buf mem" for t n
    by (rule ext) (simp only: cut_text_def Let_def)
  show ?thesis
  proof (cases "format_text fmt args")
    case (Inl e)
    then have "rt_vsnprintf buf sz fmt args mem = Inl e" by (simp add: rt_vsnprintf_def vsn_loop_eq output_end_eq(1))
    then show ?thesis using buffer_size_le output_end_eq(2) unfolding Inl sum.case by blast
  next
    case (Inr t)
    show ?thesis using vsnprintf_cut [OF Inr, of buf sz mem] buffer_size_le [of buf sz] output_end_eq(2) [of buf sz]
      unfolding Inr sum.case Let_def c by blast
  qed
qed

text \<open>Eight bytes for a text of nine characters.\<close>

theorem vsnprintf_writes_text_witness:
  "\<exists>m. rt_vsnprintf 0x80001000 8 ''key=%05d'' [Word 42] (\<lambda>_. CHR ''z'') = Inr (m, 9)
    \<and> map (\<lambda>i. m (0x80001000 + of_nat i)) [0..<10] = [CHR ''k'', CHR ''e'', CHR ''y'', CHR ''='', CHR ''0'', CHR ''0'', CHR ''0'', CHR 0x00, CHR ''z'', CHR ''z'']"
proof -
  have t: "format_text ''key=%05d'' [Word 42] = Inr ''key=00042''" by code_simp
  have n: "buffer_size 0x80001000 8 = 8" by (simp add: buffer_size_def)
  have l: "length ''key=00042'' = 9" "min (9 :: nat) (8 - 1) = 7" by simp_all
  have "rt_vsnprintf 0x80001000 8 ''key=%05d'' [Word 42] (\<lambda>_. CHR ''z'')
      = Inr (\<lambda>a. if unat (a - 0x80001000) < 7 then ''key=00042'' ! unat (a - 0x80001000)
              else if unat (a - 0x80001000) = 7 then CHR 0x00 else CHR ''z'', 9)"
    using vsnprintf_writes_text [where fmt = "''key=%05d''" and args = "[Word 42]" and buf = "0x80001000" and sz = 8
        and mem = "\<lambda>_. CHR ''z''"] unfolding t sum.case Let_def n l by simp
  then show ?thesis by (simp add: upt_rec)
qed

text \<open>
  A text that runs over the end of the address space goes on at address 0, below the end of the buffer: there the test
  \<open>str < end\<close> holds again. On this machine the memory starts at \<open>0x80000000\<close>, and a width of \<open>0x7fffffff\<close> reaches that far.
\<close>

lemma vsnprintf_wraps_around:
  assumes "format_text fmt args = Inr t" "length t \<le> 2 ^ 32" "i < length t" "2 ^ 32 \<le> unat buf + i"
    "unat buf + i - 2 ^ 32 < unat (fst (output_end buf sz))"
  shows "\<exists>b. vsn_loop fmt args \<lparr>out_mem = mem, out_pos = buf, out_end = fst (output_end buf sz)\<rparr> = Inr b
    \<and> out_mem b (of_nat (unat buf + i - 2 ^ 32)) = t ! i"
proof -
  let ?a = "of_nat (unat buf + i - 2 ^ 32) :: u32"
  have e: "?a = buf + of_nat i" using assms(4) by (simp add: of_nat_diff)
  have "i < 2 ^ 32" using assms(2,3) by simp
  then have "unat (?a - buf) = i" unfolding e by (simp add: unat_of_nat)
  moreover have "?a < fst (output_end buf sz)"
    using assms(5) unsigned_less [of "fst (output_end buf sz)", where 'a = nat]
    by (simp add: word_less_nat_alt unat_of_nat)
  ultimately show ?thesis using assms(1-3) by (simp add: vsn_loop_eq emit_string_mem)
qed

text \<open>Reading a number back.\<close>

definition digit_val :: "char \<Rightarrow> nat" where
  "digit_val c = (if isdigit c then of_char c - 48 else if 97 \<le> (of_char c :: nat) then of_char c - 87 else of_char c - 55)"

definition read_nat :: "nat \<Rightarrow> string \<Rightarrow> nat" where
  "read_nat base s = value_of base (map digit_val s)"

definition read_int :: "string \<Rightarrow> int" where
  "read_int s = (if starts CHR ''-'' s then - int (read_nat 10 (tl s)) else int (read_nat 10 s))"

lemma digit_val_tab:
  assumes "d < 16"
  shows "digit_val (''0123456789ABCDEF'' ! d) = d" "digit_val (''0123456789abcdef'' ! d) = d"
proof -
  have "list_all (\<lambda>d. digit_val (''0123456789ABCDEF'' ! d) = d \<and> digit_val (''0123456789abcdef'' ! d) = d) [0..<16]" by code_simp
  then show "digit_val (''0123456789ABCDEF'' ! d) = d" "digit_val (''0123456789abcdef'' ! d) = d"
    using assms by (simp_all add: list_all_iff)
qed

lemma read_digits:
  assumes "2 \<le> base" "base \<le> 16"
  shows "read_nat base (map (nth (if P then ''0123456789ABCDEF'' else ''0123456789abcdef'')) (digits_of base n)) = n"
proof -
  have "map (digit_val \<circ> nth (if P then ''0123456789ABCDEF'' else ''0123456789abcdef'')) (digits_of base n) = digits_of base n"
    using digits_less [OF assms(1)] assms(2) digit_val_tab by (intro map_idI) fastforce
  then show ?thesis using value_digits [OF assms(1)] by (simp add: read_nat_def)
qed

lemma plain_directive:
  assumes "x \<in> {CHR ''b'', CHR ''o'', CHR ''X'', CHR ''x'', CHR ''d'', CHR ''i'', CHR ''u''}"
  shows "format_text [CHR ''%'', x] [Word w] = Inr (num_text w (unat (conv_base x)) (- 1) (- 1) (conv_flags x 0))"
proof -
  have "scan_flags 0 [x] = (0, [x])" "\<not> starts_digit [x]" "\<not> starts CHR ''*'' [x]" "\<not> starts CHR ''.'' [x]"
    "scan_qualifier [x] = (None, [x])"
    using assms by (auto simp: starts_digit_def isdigit_def starts_def scan_qualifier_def)
  then have "directive_text [x] [Word w] = conv_text 0 (- 1) (- 1) None [x] [Word w]"
    by (simp add: directive_text_def scan_width_def scan_precision_def)
  moreover have "conv_text 0 (- 1) (- 1) None [x] [Word w]
      = Inr ([], [], num_text w (unat (conv_base x)) (- 1) (- 1) (conv_flags x 0))"
    using assms by (auto simp: conv_text_def conv_number_def)
  ultimately show ?thesis by simp
qed

lemma plain_num_text:
  "num_text w base (- 1) (- 1) flags =
    (case sign_char flags w of None \<Rightarrow> [] | Some x \<Rightarrow> [x])
    @ map (nth (if flags AND LARGE \<noteq> 0 then ''0123456789ABCDEF'' else ''0123456789abcdef''))
        (digits_of base (if flags AND SIGN \<noteq> 0 then nat \<bar>sint w\<bar> else unat w))"
  by (simp add: num_text_def Let_def split: option.split)

lemma vsnprintf_fits:
  assumes "format_text fmt args = Inr t" "length t < unat sz" "unat buf + unat sz < 2 ^ 32" "length t < 2 ^ 31"
  shows "\<exists>mem'. rt_vsnprintf buf sz fmt args mem = Inr (mem', int (length t))
    \<and> map (\<lambda>i. mem' (buf + of_nat i)) [0..<length t] = t \<and> mem' (buf + of_nat (length t)) = CHR 0x00"
proof -
  have n: "buffer_size buf sz = unat sz" using assms(3) by (simp add: buffer_size_def)
  have L: "unat (of_nat k :: u32) = k" if "k \<le> length t" for k using that assms(4) by (simp add: unat_of_nat)
  have "sint (of_nat (length t) :: u32) = int (length t)" using assms(4) by (simp add: signed_of_nat signed_take_bit_int_eq_self)
  then have "rt_vsnprintf buf sz fmt args mem = Inr (cut_text t (unat sz) buf mem, int (length t))"
    using vsnprintf_cut [OF assms(1)] assms(2,3) n by simp
  moreover have "map (\<lambda>i. cut_text t (unat sz) buf mem (buf + of_nat i)) [0..<length t] = t"
    using assms(2) by (auto simp: cut_text_def Let_def L intro!: nth_equalityI)
  moreover have "cut_text t (unat sz) buf mem (buf + of_nat (length t)) = CHR 0x00"
    using assms(2) by (simp add: cut_text_def Let_def L)
  ultimately show ?thesis by blast
qed

lemma not_minus:
  assumes "2 \<le> base" "base \<le> 16"
  shows "\<not> starts CHR ''-'' (map (nth ''0123456789abcdef'') (digits_of base n))"
proof -
  obtain d ds where d: "digits_of base n = d # ds" by (cases "digits_of base n") auto
  have "list_all (\<lambda>d. ''0123456789abcdef'' ! d \<noteq> CHR ''-'') [0..<16]" by code_simp
  moreover have "d < 16" using digits_less [OF assms(1), of d n] assms(2) d by simp
  ultimately show ?thesis using d by (simp add: starts_def list_all_iff)
qed

text \<open>What a plain conversion of an integer prints.\<close>

lemma plain_signed:
  assumes "x = CHR ''d'' \<or> x = CHR ''i''"
  shows "num_text w (unat (conv_base x)) (- 1) (- 1) (conv_flags x 0)
    = (if sint w < 0 then ''-'' else []) @ map (nth ''0123456789abcdef'') (digits_of 10 (nat \<bar>sint w\<bar>))"
  using assms by (auto simp: plain_num_text conv_base_def conv_flags_def sign_char_def SIGN_def LARGE_def PLUS_def SPACE_def)

lemma plain_unsigned:
  assumes "x \<in> {CHR ''b'', CHR ''o'', CHR ''X'', CHR ''x'', CHR ''u''}"
  shows "num_text w (unat (conv_base x)) (- 1) (- 1) (conv_flags x 0)
    = map (nth (if x = CHR ''X'' then ''0123456789ABCDEF'' else ''0123456789abcdef'')) (digits_of (unat (conv_base x)) (unat w))"
  using assms by (auto simp: plain_num_text conv_flags_def sign_char_def SIGN_def LARGE_def)

lemma plain_signed_reads:
  assumes "x = CHR ''d'' \<or> x = CHR ''i''"
  shows "read_int (num_text w (unat (conv_base x)) (- 1) (- 1) (conv_flags x 0)) = sint w"
    "length (num_text w (unat (conv_base x)) (- 1) (- 1) (conv_flags x 0)) \<le> 33"
proof -
  have r: "read_nat 10 (map (nth ''0123456789abcdef'') (digits_of 10 n)) = n" for n
    using read_digits [of 10 False n] by simp
  show "read_int (num_text w (unat (conv_base x)) (- 1) (- 1) (conv_flags x 0)) = sint w"
    unfolding plain_signed [OF assms] using r not_minus [of 10] by (auto simp: read_int_def starts_def)
  have "nat \<bar>sint w\<bar> < 2 ^ 32" using sint_ge [of w] sint_lt [of w] by auto
  then show "length (num_text w (unat (conv_base x)) (- 1) (- 1) (conv_flags x 0)) \<le> 33"
    unfolding plain_signed [OF assms] using length_digits [of 10 "nat \<bar>sint w\<bar>" 32] by (auto simp: abs_if)
qed

lemma plain_unsigned_reads:
  assumes "x \<in> {CHR ''b'', CHR ''o'', CHR ''X'', CHR ''x'', CHR ''u''}"
  shows "read_nat (unat (conv_base x)) (num_text w (unat (conv_base x)) (- 1) (- 1) (conv_flags x 0)) = unat w"
    "length (num_text w (unat (conv_base x)) (- 1) (- 1) (conv_flags x 0)) \<le> 33"
proof -
  have b: "2 \<le> unat (conv_base x)" "unat (conv_base x) \<le> 16" by (simp_all add: conv_base_def)
  show "read_nat (unat (conv_base x)) (num_text w (unat (conv_base x)) (- 1) (- 1) (conv_flags x 0)) = unat w"
    unfolding plain_unsigned [OF assms] by (rule read_digits [OF b])
  show "length (num_text w (unat (conv_base x)) (- 1) (- 1) (conv_flags x 0)) \<le> 33"
    unfolding plain_unsigned [OF assms] using length_digits [OF b(1), of "unat w" 32] unsigned_less [of w, where 'a = nat] by simp
qed

text \<open>
  A number that is printed reads back. For every word, \<open>%d\<close> and \<open>%i\<close> print a text whose value, read as a signed decimal
  number, is the word with sign, the most negative one included; \<open>%u\<close>, \<open>%x\<close>, \<open>%X\<close>, \<open>%o\<close> and \<open>%b\<close> print a text whose value in base
  10, 16, 8 or 2 is the word without sign. The text ends with a null character and its length is returned.
\<close>

theorem printf_number_roundtrip:
  assumes "x \<in> {CHR ''b'', CHR ''o'', CHR ''X'', CHR ''x'', CHR ''d'', CHR ''i'', CHR ''u''}"
    and "40 \<le> unat sz" and "unat buf + unat sz < 2 ^ 32"
  shows "\<exists>mem' n. rt_vsnprintf buf sz [CHR ''%'', x] [Word w] mem = Inr (mem', int n) \<and> mem' (buf + of_nat n) = CHR 0x00
    \<and> (if x = CHR ''d'' \<or> x = CHR ''i'' then read_int (map (\<lambda>i. mem' (buf + of_nat i)) [0..<n]) = sint w
       else read_nat (unat (conv_base x)) (map (\<lambda>i. mem' (buf + of_nat i)) [0..<n]) = unat w)"
proof -
  let ?t = "num_text w (unat (conv_base x)) (- 1) (- 1) (conv_flags x 0)"
  have u: "x \<in> {CHR ''b'', CHR ''o'', CHR ''X'', CHR ''x'', CHR ''u''}" if "\<not> (x = CHR ''d'' \<or> x = CHR ''i'')"
    using assms(1) that by auto
  have "length ?t \<le> 33" using plain_signed_reads(2) [of x w] plain_unsigned_reads(2) [OF u] by blast
  then obtain mem' where "rt_vsnprintf buf sz [CHR ''%'', x] [Word w] mem = Inr (mem', int (length ?t))"
    "map (\<lambda>i. mem' (buf + of_nat i)) [0..<length ?t] = ?t" "mem' (buf + of_nat (length ?t)) = CHR 0x00"
    using vsnprintf_fits [OF plain_directive [OF assms(1)] _ assms(3), of w mem] assms(2) by auto
  then show ?thesis using plain_signed_reads(1) [of x w] plain_unsigned_reads(1) [OF u, of w]
    by (intro exI [of _ mem'] exI [of _ "length ?t"]) auto
qed

theorem printf_number_roundtrip_witness:
  "\<exists>mem' n. rt_vsnprintf 0x80001000 64 ''%d'' [Word (- 2147483648)] (\<lambda>_. CHR ''z'') = Inr (mem', int n)
    \<and> mem' (0x80001000 + of_nat n) = CHR 0x00 \<and> read_int (map (\<lambda>i. mem' (0x80001000 + of_nat i)) [0..<n]) = - 2147483648"
  using printf_number_roundtrip [of "CHR ''d''" 64 "0x80001000" "- 2147483648" "\<lambda>_. CHR ''z''"] by simp

text \<open>A precision of 0 prints no digit of any number: the test for it does not look at the value.\<close>

lemma printf_zero_precision:
  assumes "0 \<le> sint w"
  shows "format_text ''%.0d'' [Word w] = Inr []"
proof -
  have "directive_text ''.0d'' [Word w] = conv_text 0 (- 1) 0 None ''d'' [Word w]"
    by (simp add: directive_text_def scan_width_def scan_precision_def starts_digit_def starts_def isdigit_def scan_qualifier_def)
  moreover have "num_text w 10 (- 1) 0 SIGN = []"
    using assms by (simp add: num_text_def Let_def sign_char_def SIGN_def PLUS_def SPACE_def LARGE_def LEFT_def ZEROPAD_def)
  ultimately show ?thesis by (simp add: conv_text_def conv_number_def conv_flags_def conv_base_def)
qed

end
