(* ===== verification/Rt_Kmem.thy ===== *)
theory Rt_Kmem
  imports Rt_Prelude
begin

text \<open>
  The memory functions of \<open>src/kservice.c\<close>, in the variant of \<open>RT_KSERVICE_USING_TINY_SIZE\<close> that this build selects: byte by
  byte, on a memory of bytes. A range lies inside the address space, so addresses are natural numbers.
\<close>

type_synonym memory = "nat \<Rightarrow> u8"

fun rt_memset :: "memory \<Rightarrow> nat \<Rightarrow> u8 \<Rightarrow> nat \<Rightarrow> memory" where
  "rt_memset m s c 0 = m"
| "rt_memset m s c (Suc n) = rt_memset (m(s := c)) (s + 1) c n"

text \<open>The loops from the lowest byte up and from the highest byte down.\<close>

fun copy_up :: "memory \<Rightarrow> nat \<Rightarrow> nat \<Rightarrow> nat \<Rightarrow> memory" where
  "copy_up m d s 0 = m"
| "copy_up m d s (Suc n) = copy_up (m(d := m s)) (d + 1) (s + 1) n"

fun copy_down :: "memory \<Rightarrow> nat \<Rightarrow> nat \<Rightarrow> nat \<Rightarrow> memory" where
  "copy_down m d s 0 = m"
| "copy_down m d s (Suc n) = copy_down (m(d + n := m (s + n))) d s n"

definition rt_memcpy :: "memory \<Rightarrow> nat \<Rightarrow> nat \<Rightarrow> nat \<Rightarrow> memory" where
  "rt_memcpy m dst src n = (if dst \<le> src \<or> src + n < dst then copy_up m dst src n else copy_down m dst src n)"

definition rt_memmove :: "memory \<Rightarrow> nat \<Rightarrow> nat \<Rightarrow> nat \<Rightarrow> memory" where
  "rt_memmove m dst src n = (if src < dst \<and> dst < src + n then copy_down m dst src n else copy_up m dst src n)"

fun rt_memcmp :: "memory \<Rightarrow> nat \<Rightarrow> nat \<Rightarrow> nat \<Rightarrow> int" where
  "rt_memcmp m cs ct 0 = 0"
| "rt_memcmp m cs ct (Suc n) =
    (let res = uint (m cs) - uint (m ct) in if res \<noteq> 0 then res else rt_memcmp m (cs + 1) (ct + 1) n)"

subsection \<open>Overlapping ranges\<close>

text \<open>A copy of the whole range at once.\<close>

definition block_copy :: "memory \<Rightarrow> nat \<Rightarrow> nat \<Rightarrow> nat \<Rightarrow> memory" where
  "block_copy m d s n = (\<lambda>a. if d \<le> a \<and> a < d + n then m (s + (a - d)) else m a)"

lemma copy_up_block: "d \<le> s \<or> s + n \<le> d \<Longrightarrow> copy_up m d s n = block_copy m d s n"
proof (induction n arbitrary: m d s)
  case (Suc n)
  have "copy_up (m(d := m s)) (d + 1) (s + 1) n = block_copy (m(d := m s)) (d + 1) (s + 1) n"
    by (rule Suc.IH) (use Suc.prems in auto)
  also have "\<dots> = block_copy m d s (Suc n)"
  proof
    fix a
    show "block_copy (m(d := m s)) (d + 1) (s + 1) n a = block_copy m d s (Suc n) a"
    proof (cases "d + 1 \<le> a \<and> a < d + 1 + n")
      case True
      then have "s + 1 + (a - (d + 1)) = s + (a - d)" by linarith
      moreover have "s + (a - d) \<noteq> d" using True Suc.prems by auto
      ultimately show ?thesis using True by (simp add: block_copy_def)
    qed (auto simp: block_copy_def)
  qed
  finally show ?case by simp
qed (auto simp: block_copy_def fun_eq_iff)

lemma copy_down_block: "s \<le> d \<Longrightarrow> copy_down m d s n = block_copy m d s n"
proof (induction n arbitrary: m)
  case (Suc n)
  have "copy_down (m(d + n := m (s + n))) d s n = block_copy (m(d + n := m (s + n))) d s n"
    by (rule Suc.IH) (rule Suc.prems)
  also have "\<dots> = block_copy m d s (Suc n)"
  proof
    fix a
    show "block_copy (m(d + n := m (s + n))) d s n a = block_copy m d s (Suc n) a"
    proof (cases "d \<le> a \<and> a < d + n")
      case True
      then have "s + (a - d) \<noteq> d + n" using Suc.prems by auto
      then show ?thesis using True by (simp add: block_copy_def)
    qed (auto simp: block_copy_def)
  qed
  finally show ?case by simp
qed (auto simp: block_copy_def fun_eq_iff)

lemma rt_memset_fill: "rt_memset m d c n = (\<lambda>a. if d \<le> a \<and> a < d + n then c else m a)"
  by (induction n arbitrary: m d) (auto simp: fun_eq_iff)

text \<open>
  \<open>rt_memcpy\<close> and \<open>rt_memmove\<close> agree. For every source, destination and length, overlapping or not, both leave the
  memory as if the whole source had been read before the first byte was written. \<open>rt_memcmp\<close> gives 0 exactly for equal
  ranges, and \<open>rt_memset\<close> fills exactly its range.
\<close>

theorem memcpy_is_memmove:
  "rt_memcpy m dst src n = block_copy m dst src n \<and> rt_memmove m dst src n = block_copy m dst src n
    \<and> (rt_memcmp m cs ct n = 0 \<longleftrightarrow> (\<forall>i < n. m (cs + i) = m (ct + i)))
    \<and> rt_memset m dst c n = (\<lambda>a. if dst \<le> a \<and> a < dst + n then c else m a)"
proof -
  have "rt_memcpy m dst src n = block_copy m dst src n"
    using copy_up_block [of dst src n m] copy_down_block [of src dst m n] by (auto simp: rt_memcpy_def)
  moreover have "rt_memmove m dst src n = block_copy m dst src n"
    using copy_up_block [of dst src n m] copy_down_block [of src dst m n] by (auto simp: rt_memmove_def)
  moreover have "rt_memcmp m cs ct n = 0 \<longleftrightarrow> (\<forall>i < n. m (cs + i) = m (ct + i))"
    by (induction m cs ct n rule: rt_memcmp.induct) (auto simp: Let_def less_Suc_eq_0_disj word_uint_eq_iff)
  moreover have "rt_memset m dst c n = (\<lambda>a. if dst \<le> a \<and> a < dst + n then c else m a)"
    by (rule rt_memset_fill)
  ultimately show ?thesis by blast
qed

theorem memcpy_is_memmove_witness:
  "rt_memcpy (\<lambda>a. of_nat a) 12 10 4 15 = 13 \<and> rt_memcmp (\<lambda>_. 7) 3 9 2 = 0"
proof -
  note m = memcpy_is_memmove
  have "rt_memcpy (\<lambda>a. of_nat a) 12 10 4 = block_copy (\<lambda>a. of_nat a) 12 10 4" using m by blast
  moreover have "rt_memcmp (\<lambda>_. 7) 3 9 2 = 0" using m [where m = "\<lambda>_. 7" and cs = 3 and ct = 9 and n = 2] by simp
  ultimately show ?thesis by (simp add: block_copy_def)
qed

end
