(* ===== verification/Rt_Completion.thy ===== *)
theory Rt_Completion
  imports Rt_Wait
begin

text \<open>
  The completion of the device drivers, \<open>components/drivers/ipc/completion.c\<close>: one thread waits until an
  interrupt handler or another thread reports that a piece of work is done. The report is remembered in a
  flag when it comes first. The waiting list of completion \<open>i\<close> is \<open>CompletionQ i\<close>; the code allows one waiter.
  The properties show that neither order of the two calls loses the report, and the one case in which it is lost.
\<close>

record rt_completion =
  comp_flag :: u32

definition RT_COMPLETED :: u32 where
  "RT_COMPLETED = 1"

definition RT_UNCOMPLETED :: u32 where
  "RT_UNCOMPLETED = 0"

definition rt_completion_init :: "nat \<Rightarrow> kernel \<Rightarrow> rt_completion \<times> kernel" where
  "rt_completion_init i s = (\<lparr>comp_flag = RT_UNCOMPLETED\<rparr>, s\<lparr>queues := (queues s)(CompletionQ i := [])\<rparr>)"

definition rt_completion_wait ::
  "cpuid \<Rightarrow> nat \<Rightarrow> 32 word \<Rightarrow> rt_completion \<times> kernel \<Rightarrow> ((rt_completion \<times> kernel) \<times> outcome) res" where
  "rt_completion_wait c i timeout = (\<lambda>(cp, s).
    rt_assert (timeout \<noteq> 0 \<longrightarrow> scheduler_available c s)
     (if comp_flag cp \<noteq> RT_COMPLETED
      then rt_assert (rt_list_isempty (CompletionQ i) s)
        (if timeout = 0 then Inr ((cp, s), Return (- RT_ETIMEOUT))
         else and_then (ipc_block c (CompletionQ i) RT_IPC_FLAG_FIFO timeout s) (\<lambda>s. Inr ((cp, s), Blocked)))
      else Inr ((cp\<lparr>comp_flag := RT_UNCOMPLETED\<rparr>, s), Return RT_EOK)))"

text \<open>When the waiter runs again:\<close>

definition rt_completion_wait_cont :: "cpuid \<Rightarrow> rt_completion \<times> kernel \<Rightarrow> ((rt_completion \<times> kernel) \<times> outcome) res" where
  "rt_completion_wait_cont c = (\<lambda>(cp, s).
    case rt_thread_self c s of None \<Rightarrow> Inl NullDeref
    | Some t \<Rightarrow> Inr ((cp\<lparr>comp_flag := RT_UNCOMPLETED\<rparr>, s), Return (error (threads s t))))"

definition rt_completion_done :: "cpuid \<Rightarrow> nat \<Rightarrow> rt_completion \<times> kernel \<Rightarrow> (rt_completion \<times> kernel) res" where
  "rt_completion_done c i = (\<lambda>(cp, s).
    if comp_flag cp = RT_COMPLETED then Inr (cp, s)
    else and_then (ipc_wake c (CompletionQ i) s) (\<lambda>s. Inr (cp\<lparr>comp_flag := RT_COMPLETED\<rparr>, s)))"

lemma completion_wait_q [simp]: "is_wait_q (CompletionQ i)"
  by (simp add: is_wait_q_def)

lemma fifo_flag_ok [simp]: "flag_ok RT_IPC_FLAG_FIFO"
  by (simp add: flag_ok_def)

lemma completion_flags [simp]: "RT_COMPLETED \<noteq> RT_UNCOMPLETED" "RT_UNCOMPLETED \<noteq> RT_COMPLETED"
  by (simp_all add: RT_COMPLETED_def RT_UNCOMPLETED_def)

lemma completion_blocks:
  assumes "kinv s" "preemptible c s" "rt_thread_self c s = Some t" "thread_stat s t = RT_THREAD_RUNNING"
    "scheduler_available c s" "timeout_ok timeout" "timeout \<noteq> 0" "comp_flag cp = RT_UNCOMPLETED" "queues s (CompletionQ i) = []"
  shows "\<exists>s'. rt_completion_wait c i timeout (cp, s) = Inr ((cp, s'), Blocked) \<and> kinv s'
    \<and> queues s' (CompletionQ i) = [t] \<and> thread_stat s' t = RT_THREAD_SUSPEND \<and> error (threads s' t) = RT_EOK
    \<and> (0 < sint timeout \<longrightarrow> ThreadTimer t \<in> set (timer_q s' HardTimers) \<and> delay s' (ThreadTimer t) = nat (sint timeout))"
proof -
  have c: "c < RT_CPUS_NR" using assms(2) by (simp add: preemptible_def)
  obtain s' where b: "ipc_block c (CompletionQ i) RT_IPC_FLAG_FIFO timeout s = Inr s'"
    using ipc_block_returns [OF assms(1-4) fifo_flag_ok completion_wait_q assms(6)] by blast
  note k = ipc_block_ok [OF assms(1) c assms(3,4) fifo_flag_ok completion_wait_q assms(6) b]
  have "queues s' (CompletionQ i) = [t]" using k(4) assms(9) by (simp add: order_of_def insert_fifo_def)
  then show ?thesis using k(1-3,6) b assms(5,7-9) by (simp add: rt_completion_wait_def rt_list_isempty_def)
qed

lemma completion_wakes:
  assumes "kinv s" "c < RT_CPUS_NR" "irq_nest (cpus s c) \<noteq> 0 \<or> preemptible c s" "comp_flag cp = RT_UNCOMPLETED"
  shows "\<exists>s'. rt_completion_done c i (cp, s) = Inr (cp\<lparr>comp_flag := RT_COMPLETED\<rparr>, s') \<and> kinv s'
    \<and> queues s' (CompletionQ i) = tl (queues s (CompletionQ i)) \<and> (queues s (CompletionQ i) = [] \<longrightarrow> s' = s)
    \<and> (\<forall>t ts. queues s (CompletionQ i) = t # ts \<longrightarrow> awake (thread_stat s' t) \<and> error (threads s' t) = error (threads s t))"
proof -
  obtain s' where w: "ipc_wake c (CompletionQ i) s = Inr s'" using ipc_wake_returns [OF assms(1,3)] by blast
  note k = ipc_wake_ok [OF assms(1,2) completion_wait_q w]
  have "queues s (CompletionQ i) = [] \<Longrightarrow> s' = s" using w by (simp add: ipc_wake_def rt_list_isempty_def)
  then show ?thesis using k(1,2,4,5) w assms(4) by (auto simp: rt_completion_done_def)
qed

subsection \<open>Properties\<close>

text \<open>
  C10. A completion is never lost between \<open>rt_completion_wait\<close> and \<open>rt_completion_done\<close>, in either order. A
  thread that waits first is suspended, alone in the list and with its timer running; the report, from an
  interrupt or a thread of any core, makes it runnable without an error, and its call then returns \<open>RT_EOK\<close>
  and resets the flag. When the report comes first, the wait returns \<open>RT_EOK\<close> at once and resets the flag.
\<close>

theorem completion_rendezvous:
  assumes "kinv s" and "preemptible c s" and "rt_thread_self c s = Some t" and "thread_stat s t = RT_THREAD_RUNNING"
    and "scheduler_available c s" and "timeout_ok timeout" and "timeout \<noteq> 0" and "comp_flag cp = RT_UNCOMPLETED"
    and "queues s (CompletionQ i) = []"
  shows "(\<exists>s1. rt_completion_wait c i timeout (cp, s) = Inr ((cp, s1), Blocked) \<and> kinv s1
      \<and> thread_stat s1 t = RT_THREAD_SUSPEND \<and> queues s1 (CompletionQ i) = [t]
      \<and> (0 < sint timeout \<longrightarrow> delay s1 (ThreadTimer t) = nat (sint timeout))
      \<and> (\<forall>c' < RT_CPUS_NR. irq_nest (cpus s1 c') \<noteq> 0 \<or> preemptible c' s1 \<longrightarrow>
           (\<exists>cp2 s2. rt_completion_done c' i (cp, s1) = Inr (cp2, s2) \<and> kinv s2 \<and> awake (thread_stat s2 t)
             \<and> queues s2 (CompletionQ i) = []
             \<and> (\<forall>c3 s3. rt_thread_self c3 s3 = Some t \<and> error (threads s3 t) = error (threads s2 t) \<longrightarrow>
                  rt_completion_wait_cont c3 (cp2, s3) = Inr ((cp, s3), Return RT_EOK)))))
    \<and> (\<exists>cp1. rt_completion_done c i (cp, s) = Inr (cp1, s) \<and> rt_completion_done c i (cp1, s) = Inr (cp1, s)
         \<and> rt_completion_wait c i timeout (cp1, s) = Inr ((cp, s), Return RT_EOK))"
proof (rule conjI)
  have c: "c < RT_CPUS_NR" using assms(2) by (simp add: preemptible_def)
  have cp: "cp\<lparr>comp_flag := x, comp_flag := RT_UNCOMPLETED\<rparr> = cp" for x using assms(8) by simp
  obtain s1 where s1: "rt_completion_wait c i timeout (cp, s) = Inr ((cp, s1), Blocked)" "kinv s1"
    "queues s1 (CompletionQ i) = [t]" "thread_stat s1 t = RT_THREAD_SUSPEND" "error (threads s1 t) = RT_EOK"
    "0 < sint timeout \<longrightarrow> delay s1 (ThreadTimer t) = nat (sint timeout)"
    using completion_blocks [OF assms] by blast
  have "\<exists>cp2 s2. rt_completion_done c' i (cp, s1) = Inr (cp2, s2) \<and> kinv s2 \<and> awake (thread_stat s2 t)
      \<and> queues s2 (CompletionQ i) = []
      \<and> (\<forall>c3 s3. rt_thread_self c3 s3 = Some t \<and> error (threads s3 t) = error (threads s2 t) \<longrightarrow>
           rt_completion_wait_cont c3 (cp2, s3) = Inr ((cp, s3), Return RT_EOK))"
    if "c' < RT_CPUS_NR" "irq_nest (cpus s1 c') \<noteq> 0 \<or> preemptible c' s1" for c'
    using completion_wakes [OF s1(2) that assms(8), of i] s1(3,5) cp by (auto simp: rt_completion_wait_cont_def)
  then show "\<exists>s1. rt_completion_wait c i timeout (cp, s) = Inr ((cp, s1), Blocked) \<and> kinv s1
      \<and> thread_stat s1 t = RT_THREAD_SUSPEND \<and> queues s1 (CompletionQ i) = [t]
      \<and> (0 < sint timeout \<longrightarrow> delay s1 (ThreadTimer t) = nat (sint timeout))
      \<and> (\<forall>c' < RT_CPUS_NR. irq_nest (cpus s1 c') \<noteq> 0 \<or> preemptible c' s1 \<longrightarrow>
           (\<exists>cp2 s2. rt_completion_done c' i (cp, s1) = Inr (cp2, s2) \<and> kinv s2 \<and> awake (thread_stat s2 t)
             \<and> queues s2 (CompletionQ i) = []
             \<and> (\<forall>c3 s3. rt_thread_self c3 s3 = Some t \<and> error (threads s3 t) = error (threads s2 t) \<longrightarrow>
                  rt_completion_wait_cont c3 (cp2, s3) = Inr ((cp, s3), Return RT_EOK))))"
    using s1 by blast
  show "\<exists>cp1. rt_completion_done c i (cp, s) = Inr (cp1, s) \<and> rt_completion_done c i (cp1, s) = Inr (cp1, s)
      \<and> rt_completion_wait c i timeout (cp1, s) = Inr ((cp, s), Return RT_EOK)"
    using completion_wakes [OF assms(1) c _ assms(8), of i] assms(2,5,9) cp
    by (intro exI [of _ "cp\<lparr>comp_flag := RT_COMPLETED\<rparr>"]) (auto simp: rt_completion_done_def rt_completion_wait_def)
qed

theorem completion_rendezvous_witness:
  "\<exists>s1. rt_completion_wait 0 7 5 (\<lparr>comp_flag = RT_UNCOMPLETED\<rparr>, demo_ready) = Inr ((\<lparr>comp_flag = RT_UNCOMPLETED\<rparr>, s1), Blocked)
    \<and> queues s1 (CompletionQ 7) = [4] \<and> delay s1 (ThreadTimer 4) = 5"
proof -
  have to: "timeout_ok 5" by (simp add: timeout_ok_def)
  have q: "queues demo_ready (CompletionQ 7) = []" by (simp add: demo_ready_waits)
  from completion_rendezvous [OF demo_kinv(2) demo_preemptible demo_ready_self demo_ready_sel(5) demo_ready_available to _ _ q,
      of "\<lparr>comp_flag = RT_UNCOMPLETED\<rparr>"]
  show ?thesis by auto
qed

text \<open>
  A report that comes when the waiter has timed out but does not run yet is lost: the waiter returns the error
  and resets the flag all the same, so that its next wait is suspended although the work is done.
\<close>

lemma completion_lost_after_timeout:
  assumes "kinv s" "c < RT_CPUS_NR" "irq_nest (cpus s c) \<noteq> 0 \<or> preemptible c s" "comp_flag cp = RT_UNCOMPLETED"
    "queues s (CompletionQ i) = []"
    "rt_thread_self c' s' = Some t" "error (threads s' t) = - RT_ETIMEOUT"
  shows "\<exists>cp1. rt_completion_done c i (cp, s) = Inr (cp1, s) \<and> rt_completion_wait_cont c' (cp1, s') = Inr ((cp, s'), Return (- RT_ETIMEOUT))"
  using completion_wakes [OF assms(1-4), of i] assms(4-7)
  by (intro exI [of _ "cp\<lparr>comp_flag := RT_COMPLETED\<rparr>"]) (auto simp: rt_completion_wait_cont_def)

end
