(* ===== verification/Rt_Dataqueue.thy ===== *)
theory Rt_Dataqueue
  imports Rt_Completion Rt_Fifo
begin

text \<open>
  The data queue of the device drivers, \<open>components/drivers/ipc/dataqueue.c\<close>: a circular array of references
  to data. A full queue suspends the threads that push, an empty one those that pop; a pop wakes a waiting
  pusher only when the queue has drained to its low water mark. The two indices are bit fields of 15 bits, which
  the model keeps as \<open>15 word\<close>. The waiting lists of queue \<open>i\<close> are \<open>DqPushQ i\<close> and \<open>DqPopQ i\<close>. The
  operations return the event that they report to \<open>evt_notify\<close> as their last action, if they report one.
  The properties show that the array is a bounded queue, and what push and pop do on every branch.
\<close>

type_synonym data_item = "u32 \<times> u32"

record rt_data_queue =
  dq_magic :: u32
  dq_size :: u16
  dq_lwm :: u16
  get_index :: "15 word"
  is_empty :: bool
  put_index :: "15 word"
  is_full :: bool
  dq_queue :: "data_item list"
  evt_notify :: bool

definition DATAQUEUE_MAGIC :: u32 where
  "DATAQUEUE_MAGIC = 0xbead0e0e"

definition RT_DATAQUEUE_EVENT_POP :: u32 where
  "RT_DATAQUEUE_EVENT_POP = 1"

definition RT_DATAQUEUE_EVENT_PUSH :: u32 where
  "RT_DATAQUEUE_EVENT_PUSH = 2"

definition RT_DATAQUEUE_EVENT_LWM :: u32 where
  "RT_DATAQUEUE_EVENT_LWM = 3"

definition notify :: "u32 \<Rightarrow> rt_data_queue \<Rightarrow> u32 option" where
  "notify ev q = (if evt_notify q then Some ev else None)"

subsection \<open>Initialisation\<close>

text \<open>\<open>alloc\<close> is the memory that \<open>rt_malloc\<close> gives for a number of bytes; an item has 8 bytes.\<close>

definition rt_data_queue_init ::
  "nat \<Rightarrow> (u32 \<Rightarrow> data_item list option) \<Rightarrow> u16 \<Rightarrow> u16 \<Rightarrow> bool \<Rightarrow> kernel \<Rightarrow> ((rt_data_queue \<times> kernel) \<times> int) res" where
  "rt_data_queue_init i alloc sz lwm nfy s =
    rt_assert (0 < sz)
     (let q = \<lparr>dq_magic = DATAQUEUE_MAGIC, dq_size = sz, dq_lwm = lwm, get_index = 0, is_empty = True,
               put_index = 0, is_full = False, dq_queue = [], evt_notify = nfy\<rparr>;
          s = s\<lparr>queues := (queues s)(DqPushQ i := [], DqPopQ i := [])\<rparr>
      in case alloc (8 * ucast sz) of None \<Rightarrow> Inr ((q, s), - RT_ENOMEM)
         | Some mem \<Rightarrow> Inr ((q\<lparr>dq_queue := mem\<rparr>, s), RT_EOK))"

definition rt_data_queue_len :: "rt_data_queue \<Rightarrow> u16 res" where
  "rt_data_queue_len q =
    rt_assert (dq_magic q = DATAQUEUE_MAGIC)
     (if is_empty q then Inr 0
      else if get_index q < put_index q then Inr (ucast (put_index q) - ucast (get_index q))
      else Inr (dq_size q + ucast (put_index q) - ucast (get_index q)))"

subsection \<open>The array\<close>

definition dq_put :: "data_item \<Rightarrow> rt_data_queue \<Rightarrow> rt_data_queue res" where
  "dq_put x q =
    (if unat (put_index q) < length (dq_queue q)
     then
       let q = q\<lparr>dq_queue := (dq_queue q)[unat (put_index q) := x]\<rparr>;
           q = q\<lparr>put_index := put_index q + 1\<rparr>;
           q = (if unat (put_index q) = unat (dq_size q) then q\<lparr>put_index := 0\<rparr> else q);
           q = q\<lparr>is_empty := False\<rparr>
       in Inr (if put_index q = get_index q then q\<lparr>is_full := True\<rparr> else q)
     else Inl OutOfBounds)"

definition dq_get :: "rt_data_queue \<Rightarrow> (data_item \<times> rt_data_queue) res" where
  "dq_get q =
    (if unat (get_index q) < length (dq_queue q)
     then
       let x = dq_queue q ! unat (get_index q);
           q = q\<lparr>get_index := get_index q + 1\<rparr>;
           q = (if unat (get_index q) = unat (dq_size q) then q\<lparr>get_index := 0\<rparr> else q);
           q = q\<lparr>is_full := False\<rparr>
       in Inr (x, if put_index q = get_index q then q\<lparr>is_empty := True\<rparr> else q)
     else Inl OutOfBounds)"

subsection \<open>Push and pop\<close>

text \<open>From the head of the loop on. The loops start again with the whole timeout.\<close>

definition dq_push_loop ::
  "cpuid \<Rightarrow> nat \<Rightarrow> data_item \<Rightarrow> 32 word \<Rightarrow> rt_data_queue \<times> kernel \<Rightarrow> ((rt_data_queue \<times> kernel) \<times> u32 option \<times> outcome) res" where
  "dq_push_loop c i x timeout = (\<lambda>(q, s).
    if is_full q
    then if timeout = 0 then Inr ((q, s), None, Return (- RT_ETIMEOUT))
         else and_then (ipc_block c (DqPushQ i) RT_IPC_FLAG_FIFO timeout s) (\<lambda>s. Inr ((q, s), None, Blocked))
    else and_then (dq_put x q) (\<lambda>q.
         if \<not> rt_list_isempty (DqPopQ i) s
         then and_then (ipc_wake c (DqPopQ i) s) (\<lambda>s. Inr ((q, s), None, Return RT_EOK))
         else Inr ((q, s), notify RT_DATAQUEUE_EVENT_PUSH q, Return RT_EOK)))"

definition rt_data_queue_push ::
  "cpuid \<Rightarrow> nat \<Rightarrow> data_item \<Rightarrow> 32 word \<Rightarrow> rt_data_queue \<times> kernel \<Rightarrow> ((rt_data_queue \<times> kernel) \<times> u32 option \<times> outcome) res" where
  "rt_data_queue_push c i x timeout = (\<lambda>(q, s).
    rt_assert (dq_magic q = DATAQUEUE_MAGIC) (rt_assert (timeout \<noteq> 0 \<longrightarrow> scheduler_available c s)
     (dq_push_loop c i x timeout (q, s))))"

definition rt_data_queue_push_cont ::
  "cpuid \<Rightarrow> nat \<Rightarrow> data_item \<Rightarrow> 32 word \<Rightarrow> rt_data_queue \<times> kernel \<Rightarrow> ((rt_data_queue \<times> kernel) \<times> u32 option \<times> outcome) res" where
  "rt_data_queue_push_cont c i x timeout = (\<lambda>(q, s).
    case rt_thread_self c s of None \<Rightarrow> Inl NullDeref
    | Some t \<Rightarrow>
       if error (threads s t) \<noteq> RT_EOK then Inr ((q, s), None, Return (error (threads s t)))
       else dq_push_loop c i x timeout (q, s))"

definition dq_pop_loop ::
  "cpuid \<Rightarrow> nat \<Rightarrow> 32 word \<Rightarrow> rt_data_queue \<times> kernel
    \<Rightarrow> ((rt_data_queue \<times> kernel) \<times> data_item option \<times> u32 option \<times> outcome) res" where
  "dq_pop_loop c i timeout = (\<lambda>(q, s).
    if is_empty q
    then if timeout = 0 then Inr ((q, s), None, None, Return (- RT_ETIMEOUT))
         else and_then (ipc_block c (DqPopQ i) RT_IPC_FLAG_FIFO timeout s) (\<lambda>s. Inr ((q, s), None, None, Blocked))
    else and_then (dq_get q) (\<lambda>(x, q).
         and_then (rt_data_queue_len q) (\<lambda>len.
         if len \<le> dq_lwm q
         then and_then (ipc_wake c (DqPushQ i) s) (\<lambda>s.
              Inr ((q, s), Some x, notify RT_DATAQUEUE_EVENT_LWM q, Return RT_EOK))
         else Inr ((q, s), Some x, notify RT_DATAQUEUE_EVENT_POP q, Return RT_EOK))))"

definition rt_data_queue_pop ::
  "cpuid \<Rightarrow> nat \<Rightarrow> 32 word \<Rightarrow> rt_data_queue \<times> kernel
    \<Rightarrow> ((rt_data_queue \<times> kernel) \<times> data_item option \<times> u32 option \<times> outcome) res" where
  "rt_data_queue_pop c i timeout = (\<lambda>(q, s).
    rt_assert (dq_magic q = DATAQUEUE_MAGIC) (rt_assert (timeout \<noteq> 0 \<longrightarrow> scheduler_available c s)
     (dq_pop_loop c i timeout (q, s))))"

definition rt_data_queue_pop_cont ::
  "cpuid \<Rightarrow> nat \<Rightarrow> 32 word \<Rightarrow> rt_data_queue \<times> kernel
    \<Rightarrow> ((rt_data_queue \<times> kernel) \<times> data_item option \<times> u32 option \<times> outcome) res" where
  "rt_data_queue_pop_cont c i timeout = (\<lambda>(q, s).
    case rt_thread_self c s of None \<Rightarrow> Inl NullDeref
    | Some t \<Rightarrow>
       if error (threads s t) \<noteq> RT_EOK then Inr ((q, s), None, None, Return (error (threads s t)))
       else dq_pop_loop c i timeout (q, s))"

definition rt_data_queue_peek :: "rt_data_queue \<Rightarrow> (data_item option \<times> int) res" where
  "rt_data_queue_peek q =
    rt_assert (dq_magic q = DATAQUEUE_MAGIC)
     (if is_empty q then Inr (None, - RT_EEMPTY)
      else if unat (get_index q) < length (dq_queue q) then Inr (Some (dq_queue q ! unat (get_index q)), RT_EOK)
      else Inl OutOfBounds)"

subsection \<open>Reset\<close>

text \<open>
  Both lists are emptied with the scheduler locked. If leaving the critical section switches to another thread
  already, the call of the scheduler that follows is part of the caller's next run.
\<close>

definition rt_data_queue_reset :: "cpuid \<Rightarrow> nat \<Rightarrow> rt_data_queue \<times> kernel \<Rightarrow> (rt_data_queue \<times> kernel) res" where
  "rt_data_queue_reset c i = (\<lambda>(q, s).
    rt_assert (dq_magic q = DATAQUEUE_MAGIC)
     (let q = q\<lparr>get_index := 0, put_index := 0, is_empty := True, is_full := False\<rparr>;
          self = rt_thread_self c s
      in and_then (ipc_list_resume_all c (DqPopQ i) (rt_enter_critical c s)) (\<lambda>s.
         and_then (ipc_list_resume_all c (DqPushQ i) s) (\<lambda>s.
         and_then (rt_exit_critical c s) (\<lambda>s.
         and_then (if rt_thread_self c s = self then rt_schedule c s else Inr s) (\<lambda>s. Inr (q, s)))))))"

text \<open>The memory of the array goes back to the heap.\<close>

definition rt_data_queue_deinit :: "cpuid \<Rightarrow> nat \<Rightarrow> rt_data_queue \<times> kernel \<Rightarrow> ((rt_data_queue \<times> kernel) \<times> int) res" where
  "rt_data_queue_deinit c i = (\<lambda>(q, s).
    rt_assert (dq_magic q = DATAQUEUE_MAGIC)
     (and_then (rt_data_queue_reset c i (q, s)) (\<lambda>(q, s). Inr ((q\<lparr>dq_magic := 0, dq_queue := []\<rparr>, s), RT_EOK))))"

subsection \<open>The array is a queue\<close>

definition dq_count :: "rt_data_queue \<Rightarrow> nat" where
  "dq_count q = (if is_empty q then 0
     else if unat (get_index q) < unat (put_index q) then unat (put_index q) - unat (get_index q)
     else unat (dq_size q) + unat (put_index q) - unat (get_index q))"

definition dq_items :: "rt_data_queue \<Rightarrow> data_item list" where
  "dq_items q = circ_window (dq_queue q) (unat (get_index q)) (dq_count q)"

definition dq_ok :: "rt_data_queue \<Rightarrow> bool" where
  "dq_ok q \<longleftrightarrow> dq_magic q = DATAQUEUE_MAGIC \<and> 0 < dq_size q \<and> dq_size q \<le> 2 ^ 15 \<and> length (dq_queue q) = unat (dq_size q)
     \<and> unat (get_index q) < unat (dq_size q) \<and> unat (put_index q) < unat (dq_size q)
     \<and> \<not> (is_empty q \<and> is_full q) \<and> (put_index q = get_index q \<longleftrightarrow> is_empty q \<or> is_full q)"

definition dq_capacity :: "rt_data_queue \<Rightarrow> nat" where
  "dq_capacity q = unat (dq_size q)"

definition dq_enq :: "data_item \<Rightarrow> rt_data_queue \<Rightarrow> rt_data_queue option" where
  "dq_enq x q = (if is_full q then None else case dq_put x q of Inl _ \<Rightarrow> None | Inr q' \<Rightarrow> Some q')"

definition dq_deq :: "rt_data_queue \<Rightarrow> (data_item \<times> rt_data_queue) option" where
  "dq_deq q = (if is_empty q then None else case dq_get q of Inl _ \<Rightarrow> None | Inr r \<Rightarrow> Some r)"

lemma dq_next_index:
  assumes "unat (i :: 15 word) < unat n" "(n :: u16) \<le> 2 ^ 15"
  shows "unat (if unat (i + 1) = unat n then 0 else i + 1) = (unat i + 1) mod unat n"
proof -
  have n: "unat n \<le> 2 ^ 15" using assms(2) by (simp add: word_le_nat_alt)
  have u: "unat (i + 1) = (unat i + 1) mod 2 ^ 15" by (simp add: unat_word_ariths)
  show ?thesis
  proof (cases "unat i + 1 = 2 ^ 15")
    case True
    then have "unat n = 2 ^ 15" using n assms(1) by linarith
    then show ?thesis using u True by (simp del: unat_eq_zero)
  next
    case False
    then have "unat (i + 1) = unat i + 1" using u assms(1) n by simp
    then show ?thesis using assms(1) by (cases "unat n = unat i + 1") auto
  qed
qed

lemma circ_count:
  assumes "g < n" "0 < k" "k \<le> (n :: nat)"
  shows "(if g < (g + k) mod n then (g + k) mod n - g else n + (g + k) mod n - g) = k"
proof (cases "g + k < n")
  case False
  then have "(g + k) mod n = g + k - n" using assms by (simp add: mod_if)
  then show ?thesis using False assms by auto
qed (use assms in auto)

lemma circ_same: "g < n \<Longrightarrow> k < (n :: nat) \<Longrightarrow> (g + k) mod n = g \<longleftrightarrow> k = 0"
  by (auto simp: mod_if)

lemma dq_okD:
  assumes "dq_ok q"
  shows "dq_count q \<le> unat (dq_size q)" "unat (put_index q) = (unat (get_index q) + dq_count q) mod unat (dq_size q)"
    "is_full q \<longleftrightarrow> dq_count q = unat (dq_size q)" "is_empty q \<longleftrightarrow> dq_count q = 0"
    "length (dq_queue q) = unat (dq_size q)" "unat (get_index q) < unat (dq_size q)" "unat (put_index q) < unat (dq_size q)"
    "dq_size q \<le> 2 ^ 15" "dq_magic q = DATAQUEUE_MAGIC"
proof -
  show d: "length (dq_queue q) = unat (dq_size q)" "unat (get_index q) < unat (dq_size q)" "unat (put_index q) < unat (dq_size q)"
    "dq_size q \<le> 2 ^ 15" "dq_magic q = DATAQUEUE_MAGIC"
    using assms by (simp_all add: dq_ok_def)
  have f: "put_index q = get_index q \<longleftrightarrow> is_empty q \<or> is_full q" "\<not> (is_empty q \<and> is_full q)"
    using assms by (simp_all add: dq_ok_def)
  have e: "put_index q = get_index q \<longleftrightarrow> unat (put_index q) = unat (get_index q)" by (simp add: word_unat_eq_iff)
  show "dq_count q \<le> unat (dq_size q)" "is_full q \<longleftrightarrow> dq_count q = unat (dq_size q)" "is_empty q \<longleftrightarrow> dq_count q = 0"
    using d f unfolding dq_count_def e by auto
  show "unat (put_index q) = (unat (get_index q) + dq_count q) mod unat (dq_size q)"
    using d(2,3) f unfolding dq_count_def e by auto
qed

text \<open>The state of the array is determined by the place of the first item and the number of items.\<close>

lemma dq_okI:
  assumes "dq_magic q = DATAQUEUE_MAGIC" "0 < dq_size q" "dq_size q \<le> 2 ^ 15" "length (dq_queue q) = unat (dq_size q)"
    "unat (get_index q) < unat (dq_size q)" "unat (put_index q) = (unat (get_index q) + k) mod unat (dq_size q)"
    "k \<le> unat (dq_size q)" "is_empty q \<longleftrightarrow> k = 0" "is_full q \<longleftrightarrow> k = unat (dq_size q)"
  shows "dq_ok q" "dq_count q = k"
proof -
  have n: "0 < unat (dq_size q)" using assms(2) by (simp add: word_less_nat_alt)
  have eq: "put_index q = get_index q \<longleftrightarrow> k = 0 \<or> k = unat (dq_size q)"
  proof (cases "k = unat (dq_size q)")
    case True
    then show ?thesis using assms(5,6) by (simp add: word_unat_eq_iff)
  next
    case False
    then show ?thesis using circ_same [OF assms(5), of k] assms(6,7) by (simp add: word_unat_eq_iff)
  qed
  show "dq_ok q" unfolding dq_ok_def eq using assms n by auto
  show "dq_count q = k"
    using circ_count [OF assms(5) _ assms(7)] assms(8) unfolding dq_count_def assms(6) by auto
qed

lemma dq_put_ok:
  assumes "dq_ok q" "\<not> is_full q"
  shows "\<exists>q'. dq_put x q = Inr q' \<and> dq_ok q' \<and> dq_items q' = dq_items q @ [x] \<and> dq_size q' = dq_size q
    \<and> dq_lwm q' = dq_lwm q \<and> evt_notify q' = evt_notify q \<and> dq_magic q' = dq_magic q"
proof -
  note d = dq_okD [OF assms(1)]
  let ?n = "unat (dq_size q)"
  let ?p = "if unat (put_index q + 1) = ?n then 0 else put_index q + 1"
  let ?q = "q\<lparr>dq_queue := (dq_queue q)[unat (put_index q) := x], put_index := ?p, is_empty := False, is_full := (?p = get_index q)\<rparr>"
  have lt: "dq_count q < ?n" using d(1,3) assms(2) by simp
  have n0: "0 < dq_size q" using assms(1) by (simp add: dq_ok_def)
  have r: "dq_put x q = Inr ?q" using d(5,7) assms(2) by (simp add: dq_put_def Let_def)
  have p: "unat ?p = (unat (get_index q) + (dq_count q + 1)) mod ?n"
    unfolding dq_next_index [OF d(7,8)] d(2) by (simp add: mod_Suc_eq)
  have full: "?p = get_index q \<longleftrightarrow> dq_count q + 1 = ?n"
  proof (cases "dq_count q + 1 = ?n")
    case True
    then have "unat ?p = unat (get_index q)" using p d(6) by (metis mod_add_self2 mod_less)
    then show ?thesis using True by (simp add: word_unat_eq_iff)
  next
    case False
    then have "unat ?p \<noteq> unat (get_index q)" using p circ_same [OF d(6), of "dq_count q + 1"] lt by simp
    then show ?thesis using False by auto
  qed
  have ok: "dq_ok ?q" "dq_count ?q = dq_count q + 1"
    by (rule dq_okI [where k = "dq_count q + 1"]; use d n0 p full lt in \<open>simp del: unat_eq_zero\<close>)+
  moreover have "dq_items ?q = dq_items q @ [x]"
    using circ_window_snoc [of "unat (get_index q)" "dq_queue q" "dq_count q" x] d(2,5,6) lt ok(2) by (simp add: dq_items_def)
  ultimately show ?thesis using r by (intro exI [of _ ?q]) simp
qed

lemma dq_get_ok:
  assumes "dq_ok q" "dq_items q = x # xs"
  shows "\<exists>q'. dq_get q = Inr (x, q') \<and> dq_ok q' \<and> dq_items q' = xs \<and> dq_size q' = dq_size q
    \<and> dq_lwm q' = dq_lwm q \<and> evt_notify q' = evt_notify q \<and> dq_magic q' = dq_magic q"
proof -
  note d = dq_okD [OF assms(1)]
  let ?n = "unat (dq_size q)"
  let ?g = "if unat (get_index q + 1) = ?n then 0 else get_index q + 1"
  let ?q = "q\<lparr>get_index := ?g, is_full := False, is_empty := (put_index q = ?g)\<rparr>"
  have pos: "0 < dq_count q" using arg_cong [OF assms(2), of length] by (simp add: dq_items_def)
  have n0: "0 < dq_size q" using assms(1) by (simp add: dq_ok_def)
  have w: "dq_items q = dq_queue q ! unat (get_index q) # circ_window (dq_queue q) ((unat (get_index q) + 1) mod ?n) (dq_count q - 1)"
    using circ_window_uncons [OF pos, of "dq_queue q" "unat (get_index q)"] d(5,6) by (simp add: dq_items_def)
  have ne: "\<not> is_empty q" using d(4) pos by simp
  have r: "dq_get q = Inr (x, ?q)" using d(5,6) w assms(2) ne by (simp add: dq_get_def Let_def)
  have g: "unat ?g = (unat (get_index q) + 1) mod ?n" by (rule dq_next_index [OF d(6,8)])
  have g': "unat ?g < ?n" unfolding g using n0 by (simp add: word_less_nat_alt)
  obtain k where k: "dq_count q = Suc k" using pos gr0_conv_Suc by blast
  have p: "unat (put_index q) = (unat ?g + (dq_count q - 1)) mod ?n"
    unfolding g using d(2) k by (simp add: mod_simps)
  have e: "put_index q = ?g \<longleftrightarrow> dq_count q - 1 = 0"
    unfolding word_unat_eq_iff p by (rule circ_same [OF g']) (use pos d(1) in simp)
  have ok: "dq_ok ?q" "dq_count ?q = dq_count q - 1"
    by (rule dq_okI [where k = "dq_count q - 1"]; use d n0 p g' e pos in \<open>simp del: unat_eq_zero\<close>; simp)+
  moreover have "dq_items ?q = xs" using w assms(2) g ok(2) by (simp add: dq_items_def)
  ultimately show ?thesis using r by (intro exI [of _ ?q]) simp
qed

interpretation data_queue: bounded_fifo dq_ok dq_items dq_capacity dq_enq dq_deq
proof
  fix q x xs
  show "dq_ok q \<Longrightarrow> length (dq_items q) \<le> dq_capacity q" using dq_okD(1) by (simp add: dq_items_def dq_capacity_def)
  show "dq_ok q \<Longrightarrow> length (dq_items q) = dq_capacity q \<Longrightarrow> dq_enq x q = None"
    using dq_okD(3) by (simp add: dq_items_def dq_capacity_def dq_enq_def)
  show "dq_ok q \<Longrightarrow> dq_items q = [] \<Longrightarrow> dq_deq q = None"
    using dq_okD(4) by (simp add: dq_items_def dq_deq_def circ_window_def)
  show "\<exists>q'. dq_enq x q = Some q' \<and> dq_ok q' \<and> dq_items q' = dq_items q @ [x] \<and> dq_capacity q' = dq_capacity q"
    if "dq_ok q" "length (dq_items q) < dq_capacity q"
    using dq_put_ok [OF that(1), of x] dq_okD(3) [OF that(1)] that(2) by (auto simp: dq_enq_def dq_items_def dq_capacity_def)
  show "\<exists>q'. dq_deq q = Some (x, q') \<and> dq_ok q' \<and> dq_items q' = xs \<and> dq_capacity q' = dq_capacity q"
    if "dq_ok q" "dq_items q = x # xs"
    using dq_get_ok [OF that] dq_okD(4) [OF that(1)] arg_cong [OF that(2), of length] by (auto simp: dq_deq_def dq_capacity_def dq_items_def)
qed

lemma data_queue_len_exact:
  assumes "dq_ok q"
  shows "\<exists>len. rt_data_queue_len q = Inr len \<and> unat len = length (dq_items q)"
proof -
  note d = dq_okD [OF assms]
  have sz: "unat (dq_size q) \<le> 2 ^ 15" using d(8) by (simp add: word_le_nat_alt)
  have u: "unat (ucast (i :: 15 word) :: u16) = unat i" for i by (rule unat_ucast_up) simp
  show ?thesis
  proof (cases "is_empty q")
    case True
    then show ?thesis using d(4,9) by (simp add: rt_data_queue_len_def dq_items_def)
  next
    case ne: False
    show ?thesis
    proof (cases "get_index q < put_index q")
      case True
      then have "(ucast (get_index q) :: u16) \<le> ucast (put_index q)" by (simp add: word_le_nat_alt word_less_nat_alt u)
      then have "unat (ucast (put_index q) - ucast (get_index q) :: u16) = unat (put_index q) - unat (get_index q)"
        by (simp add: unat_sub u)
      then show ?thesis using True ne d(9) by (simp add: rt_data_queue_len_def dq_items_def dq_count_def word_less_nat_alt)
    next
      case False
      have s: "unat (dq_size q + ucast (put_index q)) = unat (dq_size q) + unat (put_index q)"
        using sz d(7) by (simp add: unat_word_ariths u)
      then have "(ucast (get_index q) :: u16) \<le> dq_size q + ucast (put_index q)" using d(6) by (simp add: word_le_nat_alt u)
      then have "unat (dq_size q + ucast (put_index q) - ucast (get_index q)) = unat (dq_size q) + unat (put_index q) - unat (get_index q)"
        by (simp add: unat_sub s u)
      then show ?thesis using False ne d(9) by (simp add: rt_data_queue_len_def dq_items_def dq_count_def word_less_nat_alt)
    qed
  qed
qed

subsection \<open>The functions\<close>

lemma dq_wait_q [simp]: "is_wait_q (DqPushQ i)" "is_wait_q (DqPopQ i)"
  by (simp_all add: is_wait_q_def)

lemma length_dq_items: "length (dq_items q) = dq_count q"
  by (simp add: dq_items_def)

lemma dq_full_iff: "dq_ok q \<Longrightarrow> is_full q \<longleftrightarrow> length (dq_items q) = unat (dq_size q)"
  using dq_okD(3) by (simp add: length_dq_items)

lemma dq_empty_iff: "dq_ok q \<Longrightarrow> is_empty q \<longleftrightarrow> dq_items q = []"
  using dq_okD(4) by (metis length_0_conv length_dq_items)

text \<open>Waiting in one of the two lists, and waking the first thread of one.\<close>

lemma fifo_block:
  assumes "kinv s" "preemptible c s" "rt_thread_self c s = Some t" "thread_stat s t = RT_THREAD_RUNNING"
    "is_wait_q q" "timeout_ok timeout"
  shows "\<exists>s'. ipc_block c q RT_IPC_FLAG_FIFO timeout s = Inr s' \<and> kinv s' \<and> thread_stat s' t = RT_THREAD_SUSPEND
    \<and> queues s' q = queues s q @ [t]
    \<and> (0 < sint timeout \<longrightarrow> ThreadTimer t \<in> set (timer_q s' HardTimers) \<and> delay s' (ThreadTimer t) = nat (sint timeout))"
proof -
  have c: "c < RT_CPUS_NR" using assms(2) by (simp add: preemptible_def)
  obtain s' where b: "ipc_block c q RT_IPC_FLAG_FIFO timeout s = Inr s'"
    using ipc_block_returns [OF assms(1-4) fifo_flag_ok assms(5,6)] by blast
  note k = ipc_block_ok [OF assms(1) c assms(3,4) fifo_flag_ok assms(5,6) b]
  show ?thesis using k(1,2,4,6) b by (simp add: order_of_def insert_fifo_def)
qed

lemma wake_first:
  assumes "kinv s" "c < RT_CPUS_NR" "irq_nest (cpus s c) \<noteq> 0 \<or> preemptible c s" "is_wait_q q"
  shows "\<exists>s'. ipc_wake c q s = Inr s' \<and> kinv s' \<and> queues s' q = tl (queues s q)
    \<and> (\<forall>u us. queues s q = u # us \<longrightarrow> awake (thread_stat s' u))"
proof -
  obtain s' where w: "ipc_wake c q s = Inr s'" using ipc_wake_returns [OF assms(1,3)] by blast
  show ?thesis using ipc_wake_ok [OF assms(1,2,4) w] w by auto
qed

lemma data_queue_push_cases:
  assumes "kinv s" "dq_ok q" "preemptible c s" "rt_thread_self c s = Some t"
    "thread_stat s t = RT_THREAD_RUNNING" "scheduler_available c s" "timeout_ok timeout"
  shows "\<exists>q' s' ev r. rt_data_queue_push c i x timeout (q, s) = Inr ((q', s'), ev, r) \<and> kinv s' \<and> dq_ok q' \<and>
      (if length (dq_items q) < unat (dq_size q)
       then r = Return RT_EOK \<and> dq_items q' = dq_items q @ [x] \<and> queues s' (DqPopQ i) = tl (queues s (DqPopQ i))
         \<and> (case queues s (DqPopQ i) of [] \<Rightarrow> s' = s \<and> ev = notify RT_DATAQUEUE_EVENT_PUSH q | u # _ \<Rightarrow> awake (thread_stat s' u) \<and> ev = None)
       else ev = None \<and> q' = q \<and> (if timeout = 0 then r = Return (- RT_ETIMEOUT) \<and> s' = s
         else r = Blocked \<and> thread_stat s' t = RT_THREAD_SUSPEND \<and> queues s' (DqPushQ i) = queues s (DqPushQ i) @ [t]
           \<and> (0 < sint timeout \<longrightarrow> delay s' (ThreadTimer t) = nat (sint timeout))))"
proof -
  note d = dq_okD [OF assms(2)]
  have c: "c < RT_CPUS_NR" using assms(3) by (simp add: preemptible_def)
  have full: "length (dq_items q) < unat (dq_size q) \<longleftrightarrow> \<not> is_full q"
    using dq_full_iff [OF assms(2)] d(1) by (auto simp: length_dq_items)
  have eq: "rt_data_queue_push c i x timeout (q, s) = dq_push_loop c i x timeout (q, s)"
    using d(9) assms(6) by (simp add: rt_data_queue_push_def)
  show ?thesis
  proof (cases "is_full q")
    case True
    then show ?thesis
      using eq full assms(1,2) fifo_block [OF assms(1,3-5) dq_wait_q(1) [of i] assms(7)]
      by (cases "timeout = 0") (auto simp: dq_push_loop_def)
  next
    case False
    obtain q' where q': "dq_put x q = Inr q'" "dq_ok q'" "dq_items q' = dq_items q @ [x]" "evt_notify q' = evt_notify q"
      using dq_put_ok [OF assms(2) False, of x] by blast
    show ?thesis
      using eq full False q' assms(1,3) wake_first [OF assms(1) c _ dq_wait_q(2) [of i]]
      by (cases "queues s (DqPopQ i)") (auto simp: dq_push_loop_def rt_list_isempty_def notify_def)
  qed
qed

lemma data_queue_pop_cases:
  assumes "kinv s" "dq_ok q" "preemptible c s" "rt_thread_self c s = Some t"
    "thread_stat s t = RT_THREAD_RUNNING" "scheduler_available c s" "timeout_ok timeout"
  shows "\<exists>q' s' got ev r. rt_data_queue_pop c i timeout (q, s) = Inr ((q', s'), got, ev, r) \<and> kinv s' \<and> dq_ok q' \<and>
      (case dq_items q of
         y # ys \<Rightarrow> r = Return RT_EOK \<and> got = Some y \<and> dq_items q' = ys \<and>
           (if length ys \<le> unat (dq_lwm q)
            then ev = notify RT_DATAQUEUE_EVENT_LWM q \<and> queues s' (DqPushQ i) = tl (queues s (DqPushQ i))
              \<and> (\<forall>u us. queues s (DqPushQ i) = u # us \<longrightarrow> awake (thread_stat s' u))
            else ev = notify RT_DATAQUEUE_EVENT_POP q \<and> s' = s)
       | [] \<Rightarrow> got = None \<and> ev = None \<and> q' = q \<and> (if timeout = 0 then r = Return (- RT_ETIMEOUT) \<and> s' = s
         else r = Blocked \<and> thread_stat s' t = RT_THREAD_SUSPEND \<and> queues s' (DqPopQ i) = queues s (DqPopQ i) @ [t]
           \<and> (0 < sint timeout \<longrightarrow> delay s' (ThreadTimer t) = nat (sint timeout))))"
proof -
  note d = dq_okD [OF assms(2)]
  have c: "c < RT_CPUS_NR" using assms(3) by (simp add: preemptible_def)
  have eq: "rt_data_queue_pop c i timeout (q, s) = dq_pop_loop c i timeout (q, s)"
    using d(9) assms(6) by (simp add: rt_data_queue_pop_def)
  show ?thesis
  proof (cases "dq_items q")
    case Nil
    then have "is_empty q" using dq_empty_iff [OF assms(2)] by simp
    then show ?thesis
      using eq Nil assms(1,2) fifo_block [OF assms(1,3-5) dq_wait_q(2) [of i] assms(7)]
      by (cases "timeout = 0") (auto simp: dq_pop_loop_def)
  next
    case (Cons y ys)
    then have ne: "\<not> is_empty q" using dq_empty_iff [OF assms(2)] by simp
    obtain q' where q': "dq_get q = Inr (y, q')" "dq_ok q'" "dq_items q' = ys" "evt_notify q' = evt_notify q" "dq_lwm q' = dq_lwm q"
      using dq_get_ok [OF assms(2) Cons] by blast
    obtain len where len: "rt_data_queue_len q' = Inr len" "unat len = length ys"
      using data_queue_len_exact [OF q'(2)] q'(3) by auto
    show ?thesis
      using eq ne Cons q' len assms(1,3) wake_first [OF assms(1) c _ dq_wait_q(1) [of i]]
      by (cases "length ys \<le> unat (dq_lwm q)") (auto simp: dq_pop_loop_def notify_def word_le_nat_alt)
  qed
qed

subsection \<open>Properties\<close>

text \<open>
  C20. The array of a data queue of at most 32768 items is a bounded first-in-first-out queue: any run of
  pushes and pops, each accepted or refused as the functions do, gives the answers of a list bounded by the
  size, and \<open>rt_data_queue_len\<close> and \<open>rt_data_queue_peek\<close> give the length and the first item of that list,
  although the indices have 15 bits and the length is computed in 16 bits with wrap-around.
\<close>

theorem data_queue_refines_queue:
  assumes "dq_ok q"
  shows "qrun dq_enq dq_deq ops q = qrun (list_enq (unat (dq_size q))) list_deq ops (dq_items q)
    \<and> (\<exists>len. rt_data_queue_len q = Inr len \<and> unat len = length (dq_items q))
    \<and> rt_data_queue_peek q = Inr (case dq_items q of [] \<Rightarrow> (None, - RT_EEMPTY) | x # _ \<Rightarrow> (Some x, RT_EOK))"
proof -
  note d = dq_okD [OF assms]
  have "rt_data_queue_peek q = Inr (case dq_items q of [] \<Rightarrow> (None, - RT_EEMPTY) | x # _ \<Rightarrow> (Some x, RT_EOK))"
  proof (cases "dq_items q")
    case Nil
    then show ?thesis using dq_empty_iff [OF assms] d(9) by (simp add: rt_data_queue_peek_def)
  next
    case (Cons x xs)
    then have "dq_queue q ! unat (get_index q) = x"
      using circ_window_uncons [of "dq_count q" "dq_queue q" "unat (get_index q)"] d(5,6) length_dq_items [of q]
      by (simp add: dq_items_def)
    then show ?thesis using Cons dq_empty_iff [OF assms] d(5,6,9) by (simp add: rt_data_queue_peek_def)
  qed
  then show ?thesis using data_queue.qrun_list [OF assms] data_queue_len_exact [OF assms] by (simp add: dq_capacity_def)
qed

definition demo_dq :: rt_data_queue where
  "demo_dq = \<lparr>dq_magic = DATAQUEUE_MAGIC, dq_size = 2, dq_lwm = 0, get_index = 1, is_empty = False, put_index = 0,
     is_full = False, dq_queue = [(11, 1), (22, 2)], evt_notify = True\<rparr>"

lemma demo_dq_ok: "dq_ok demo_dq" "dq_items demo_dq = [(22, 2)]"
  by code_simp+

theorem data_queue_refines_queue_witness:
  "qrun dq_enq dq_deq [Enq (33, 3), Enq (44, 4), Deq, Deq, Deq] demo_dq = [Accepted, Rejected, Got (22, 2), Got (33, 3), Nothing]"
  using data_queue_refines_queue [OF demo_dq_ok(1), of "[Enq (33, 3), Enq (44, 4), Deq, Deq, Deq]"]
  by (simp add: demo_dq_ok(2) list_enq_def) (simp add: demo_dq_def)

text \<open>
  \<open>rt_data_queue_push\<close> and \<open>rt_data_queue_pop\<close>, on every branch, called in a thread: with space the item
  goes last and either the first waiting reader is woken or the event \<open>PUSH\<close> is reported; a pop delivers the
  oldest item and, when at most the low water mark is left, wakes the first waiting writer and reports the event
  \<open>LWM\<close>, otherwise the event \<open>POP\<close>. A full or empty queue refuses a caller that does not want to wait, and suspends
  the others last in the list, with their timer running when the wait is bounded.
\<close>

theorem data_queue_push_pop_spec:
  assumes "kinv s" and "dq_ok q" and "preemptible c s" and "rt_thread_self c s = Some t"
    and "thread_stat s t = RT_THREAD_RUNNING" and "scheduler_available c s" and "timeout_ok timeout"
  shows "(\<exists>q' s' ev r. rt_data_queue_push c i x timeout (q, s) = Inr ((q', s'), ev, r) \<and> kinv s' \<and> dq_ok q' \<and>
      (if length (dq_items q) < unat (dq_size q)
       then r = Return RT_EOK \<and> dq_items q' = dq_items q @ [x] \<and> queues s' (DqPopQ i) = tl (queues s (DqPopQ i))
         \<and> (case queues s (DqPopQ i) of [] \<Rightarrow> s' = s \<and> ev = notify RT_DATAQUEUE_EVENT_PUSH q | u # _ \<Rightarrow> awake (thread_stat s' u) \<and> ev = None)
       else ev = None \<and> q' = q \<and> (if timeout = 0 then r = Return (- RT_ETIMEOUT) \<and> s' = s
         else r = Blocked \<and> thread_stat s' t = RT_THREAD_SUSPEND \<and> queues s' (DqPushQ i) = queues s (DqPushQ i) @ [t]
           \<and> (0 < sint timeout \<longrightarrow> delay s' (ThreadTimer t) = nat (sint timeout)))))
    \<and> (\<exists>q' s' got ev r. rt_data_queue_pop c i timeout (q, s) = Inr ((q', s'), got, ev, r) \<and> kinv s' \<and> dq_ok q' \<and>
      (case dq_items q of
         y # ys \<Rightarrow> r = Return RT_EOK \<and> got = Some y \<and> dq_items q' = ys \<and>
           (if length ys \<le> unat (dq_lwm q)
            then ev = notify RT_DATAQUEUE_EVENT_LWM q \<and> queues s' (DqPushQ i) = tl (queues s (DqPushQ i))
              \<and> (\<forall>u us. queues s (DqPushQ i) = u # us \<longrightarrow> awake (thread_stat s' u))
            else ev = notify RT_DATAQUEUE_EVENT_POP q \<and> s' = s)
       | [] \<Rightarrow> got = None \<and> ev = None \<and> q' = q \<and> (if timeout = 0 then r = Return (- RT_ETIMEOUT) \<and> s' = s
         else r = Blocked \<and> thread_stat s' t = RT_THREAD_SUSPEND \<and> queues s' (DqPopQ i) = queues s (DqPopQ i) @ [t]
           \<and> (0 < sint timeout \<longrightarrow> delay s' (ThreadTimer t) = nat (sint timeout)))))"
  using data_queue_push_cases [OF assms, of i x] data_queue_pop_cases [OF assms, of i] by (rule conjI)

theorem data_queue_push_pop_spec_witness:
  "\<exists>q' s' ev. rt_data_queue_push 0 7 (33, 3) 0 (demo_dq, demo_ready) = Inr ((q', s'), ev, Return RT_EOK)
     \<and> dq_items q' = [(22, 2), (33, 3)] \<and> ev = Some RT_DATAQUEUE_EVENT_PUSH"
proof -
  have to: "timeout_ok 0" by (simp add: timeout_ok_def)
  have sz: "unat (dq_size demo_dq) = 2" "notify RT_DATAQUEUE_EVENT_PUSH demo_dq = Some RT_DATAQUEUE_EVENT_PUSH"
    by (simp_all add: demo_dq_def notify_def)
  have q: "queues demo_ready (DqPopQ 7) = []" by (simp add: demo_ready_waits)
  from data_queue_push_pop_spec [OF demo_kinv(2) demo_dq_ok(1) demo_preemptible demo_ready_self demo_ready_sel(5) demo_ready_available to,
      of 7 "(33, 3)"]
  show ?thesis by (auto simp: demo_dq_ok(2) sz q)
qed

text \<open>
  \<open>rt_data_queue_reset\<close> leaves an empty queue, and every thread that waited is runnable again with the error
  \<open>RT_ERROR\<close>.
\<close>

lemma data_queue_reset_ok:
  assumes "kinv s" "c < RT_CPUS_NR" "dq_ok q" "rt_data_queue_reset c i (q, s) = Inr (q', s')"
  shows "kinv s'" "dq_ok q'" "dq_items q' = []" "queues s' (DqPopQ i) = []" "queues s' (DqPushQ i) = []"
    "t \<in> set (queues s (DqPopQ i)) \<union> set (queues s (DqPushQ i)) \<Longrightarrow> awake (thread_stat s' t) \<and> error (threads s' t) = - RT_ERROR"
proof -
  let ?s = "rt_enter_critical c s" and ?q = "q\<lparr>get_index := 0, put_index := 0, is_empty := True, is_full := False\<rparr>"
  have eq: "queues ?s = queues s" by (rule kinv_critical(5) [OF assms(1)])
  obtain s1 where s1: "ipc_list_resume_all c (DqPopQ i) ?s = Inr s1" "kinv s1" "queues s1 (DqPopQ i) = []"
    "queues s1 (DqPushQ i) = queues s (DqPushQ i)"
    "\<And>t. t \<in> set (queues s (DqPopQ i)) \<Longrightarrow> awake (thread_stat s1 t) \<and> error (threads s1 t) = - RT_ERROR"
    using resume_all_frame [OF kinv_critical(1) [OF assms(1)] dq_wait_q(2), of c i c] eq by auto
  obtain s2 where s2: "ipc_list_resume_all c (DqPushQ i) s1 = Inr s2" "kinv s2" "queues s2 (DqPushQ i) = []"
    "queues s2 (DqPopQ i) = queues s1 (DqPopQ i)"
    "\<And>t. t \<in> set (queues s1 (DqPushQ i)) \<Longrightarrow> awake (thread_stat s2 t) \<and> error (threads s2 t) = - RT_ERROR"
    "\<And>t. t \<notin> set (queues s1 (DqPushQ i)) \<Longrightarrow> threads s2 t = threads s1 t"
    using resume_all_frame [OF s1(2) dq_wait_q(1), of c i] by auto
  have w2: "awake (thread_stat s2 t) \<and> error (threads s2 t) = - RT_ERROR"
    if "t \<in> set (queues s (DqPopQ i)) \<union> set (queues s (DqPushQ i))" for t
    using that s1(4,5) s2(5,6) by (cases "t \<in> set (queues s1 (DqPushQ i))") (auto simp: thread_stat_def)
  obtain s3 where s3: "rt_exit_critical c s2 = Inr s3" "s' = s3 \<or> rt_schedule c s3 = Inr s'" "q' = ?q"
    using assms(3,4) s1(1) s2(1) by (auto simp: rt_data_queue_reset_def dq_ok_def Let_def split: if_splits)
  note e = kinv_critical(2-4) [OF s2(2)]
  have k3: "kinv s3" using e(1) [OF assms(2) s3(1)] .
  have w3: "queues s3 q = queues s2 q" if "\<not> is_ready_q q" for q using e(2) [OF s3(1) that assms(2)] .
  have fin: "kinv s' \<and> (\<forall>q. \<not> is_ready_q q \<longrightarrow> queues s' q = queues s3 q)
      \<and> (\<forall>t. error (threads s' t) = error (threads s3 t) \<and> awake (thread_stat s' t) = awake (thread_stat s3 t))"
    using s3(2)
  proof
    assume sc: "rt_schedule c s3 = Inr s'"
    note ks = kinv_rt_schedule [OF k3 assms(2) sc]
    show ?thesis using ks(1) only_schedD(3) [OF ks(2)] only_sched_suspended(2) [OF ks(2)]
        same_user_sel(1) [OF only_schedD(1) [OF ks(2)]] by simp
  qed (use k3 in simp)
  show "kinv s'" using fin by simp
  show "queues s' (DqPopQ i) = []" "queues s' (DqPushQ i) = []" using fin w3 s2(3,4) s1(3) by simp_all
  show "t \<in> set (queues s (DqPopQ i)) \<union> set (queues s (DqPushQ i)) \<Longrightarrow> awake (thread_stat s' t) \<and> error (threads s' t) = - RT_ERROR"
    using fin w2 [of t] e(3) [OF s3(1) assms(2), of t] by simp
  have "0 < unat (dq_size q)" using assms(3) by (simp add: dq_ok_def word_less_nat_alt)
  then show "dq_ok q'" using assms(3) s3(3) by (simp add: dq_ok_def)
  show "dq_items q' = []" using s3(3) by (simp add: dq_items_def dq_count_def circ_window_def)
qed

text \<open>
  A queue of more than 32768 items never uses the rest of its array: the index of 15 bits starts again at 0 before
  it reaches the size.
\<close>

lemma data_queue_oversize:
  assumes "2 ^ 15 < unat (dq_size q)" "length (dq_queue q) = unat (dq_size q)"
  shows "\<exists>q'. dq_put x q = Inr q' \<and> unat (put_index q') = (unat (put_index q) + 1) mod 2 ^ 15"
proof -
  have lt: "unat (j :: 15 word) < 2 ^ 15" for j using unsigned_less [of j, where 'a = nat] by simp
  then have "unat (put_index q + 1) \<noteq> unat (dq_size q)" "unat (put_index q) < length (dq_queue q)"
    using assms lt [of "put_index q"] lt [of "put_index q + 1"] by linarith+
  moreover have "unat (put_index q + 1) = (unat (put_index q) + 1) mod 2 ^ 15" by (simp add: unat_word_ariths)
  ultimately show ?thesis by (auto simp: dq_put_def Let_def)
qed

end
