(* ===== verification/Rt_Workqueue.thy ===== *)
theory Rt_Workqueue
  imports Rt_Close
begin

unbundle bit_operations_syntax

text \<open>
  The work queues of the device drivers, \<open>components/drivers/ipc/workqueue.c\<close>. A queue has a thread that takes
  the works of its list in order and calls their functions; a work can also be submitted with a delay, and then
  stands in a second list until its timer fires. Works and queues are numbered: \<open>works\<close> and \<open>wqs\<close> give their
  records, the timer of work \<open>w\<close> is \<open>UserTimer w\<close>. The lists are intrusive, so a work that is unlinked leaves
  whatever list it is in.
  The properties show that in every interleaving of callers, timers and worker threads a work is in one place at most,
  that a submitted work never waits for a sleeping worker, and that the worker releases every thread that waits for it.
\<close>

definition RT_WORK_STATE_PENDING :: u16 where
  "RT_WORK_STATE_PENDING = 1"

definition RT_WORK_STATE_SUBMITTING :: u16 where
  "RT_WORK_STATE_SUBMITTING = 2"

record rt_work =
  work_flags :: u16
  work_type :: u16
  workqueue :: "nat option"

record rt_workqueue =
  work_list :: "nat list"
  delayed_list :: "nat list"
  work_current :: "nat option"
  wq_sem :: nat
  work_thread :: tid

record workqueues =
  wqs :: "nat \<Rightarrow> rt_workqueue"
  works :: "nat \<Rightarrow> rt_work"

definition upd_wq :: "nat \<Rightarrow> (rt_workqueue \<Rightarrow> rt_workqueue) \<Rightarrow> workqueues \<Rightarrow> workqueues" where
  "upd_wq k f ws = ws\<lparr>wqs := (wqs ws)(k := f (wqs ws k))\<rparr>"

definition upd_work :: "nat \<Rightarrow> (rt_work \<Rightarrow> rt_work) \<Rightarrow> workqueues \<Rightarrow> workqueues" where
  "upd_work w f ws = ws\<lparr>works := (works ws)(w := f (works ws w))\<rparr>"

text \<open>\<open>rt_list_remove\<close> of the list node of a work.\<close>

definition work_unlink :: "nat \<Rightarrow> workqueues \<Rightarrow> workqueues" where
  "work_unlink w ws = ws\<lparr>wqs := (\<lambda>k. (wqs ws k)\<lparr>work_list := removeAll w (work_list (wqs ws k)),
      delayed_list := removeAll w (delayed_list (wqs ws k))\<rparr>)\<rparr>"

definition set_flag :: "u16 \<Rightarrow> rt_work \<Rightarrow> rt_work" where
  "set_flag f r = r\<lparr>work_flags := work_flags r OR f\<rparr>"

definition clear_flag :: "u16 \<Rightarrow> rt_work \<Rightarrow> rt_work" where
  "clear_flag f r = r\<lparr>work_flags := work_flags r AND NOT f\<rparr>"

definition has_flag :: "u16 \<Rightarrow> rt_work \<Rightarrow> bool" where
  "has_flag f r \<longleftrightarrow> work_flags r AND f \<noteq> 0"

subsection \<open>Creation\<close>

text \<open>A work is initialised while it is in no list.\<close>

definition rt_work_init :: "nat \<Rightarrow> workqueues \<Rightarrow> workqueues" where
  "rt_work_init w ws = upd_work w (\<lambda>_. \<lparr>work_flags = 0, work_type = 0, workqueue = None\<rparr>) ws"

text \<open>
  \<open>alloc\<close> says whether the queue could be allocated, \<open>obj\<close> and \<open>mem\<close> are the thread object and its stack, \<open>sm\<close> is the
  semaphore inside the queue.
\<close>

definition rt_workqueue_create ::
  "cpuid \<Rightarrow> nat \<Rightarrow> bool \<Rightarrow> nat \<Rightarrow> tid option \<Rightarrow> u32 option \<Rightarrow> u16 \<Rightarrow> u8 \<Rightarrow> workqueues \<times> kernel
    \<Rightarrow> ((workqueues \<times> kernel) \<times> nat option) res" where
  "rt_workqueue_create c k alloc sm obj mem stk priority = (\<lambda>(ws, s).
    if \<not> alloc then Inr ((ws, s), None)
    else and_then (rt_sem_init sm 0 RT_IPC_FLAG_FIFO s) (\<lambda>s.
         and_then (rt_thread_create obj mem (ucast stk) priority 10 s) (\<lambda>(s, th).
         case th of None \<Rightarrow> Inr ((ws, s), None)
         | Some t \<Rightarrow>
            and_then (rt_thread_startup c t s) (\<lambda>s.
            Inr ((upd_wq k (\<lambda>_. \<lparr>work_list = [], delayed_list = [], work_current = None, wq_sem = sm, work_thread = t\<rparr>) ws, s), Some k)))))"

subsection \<open>The worker\<close>

text \<open>The end of a submission: an idle worker that sleeps is woken.\<close>

definition wake_worker :: "cpuid \<Rightarrow> nat \<Rightarrow> workqueues \<times> kernel \<Rightarrow> (workqueues \<times> kernel) res" where
  "wake_worker c k = (\<lambda>(ws, s).
    if work_current (wqs ws k) = None \<and> thread_stat s (work_thread (wqs ws k)) = RT_THREAD_SUSPEND
    then and_then (rt_schedule c (fst (rt_thread_resume c (work_thread (wqs ws k)) s))) (\<lambda>s. Inr (ws, s))
    else Inr (ws, s))"

text \<open>
  One turn of \<open>_workqueue_thread_entry\<close> up to the call of the work function: the work to run, or none when the
  worker goes to sleep. \<open>workqueue_finish\<close> is the rest of the turn.
\<close>

definition workqueue_fetch :: "cpuid \<Rightarrow> nat \<Rightarrow> workqueues \<times> kernel \<Rightarrow> ((workqueues \<times> kernel) \<times> nat option) res" where
  "workqueue_fetch c k = (\<lambda>(ws, s).
    case work_list (wqs ws k) of
      [] \<Rightarrow> (case rt_thread_self c s of None \<Rightarrow> Inl NullDeref
         | Some t \<Rightarrow> and_then (rt_thread_suspend c t s) (\<lambda>(s, _).
             and_then (rt_schedule c s) (\<lambda>s. Inr ((ws, s), None))))
    | w # _ \<Rightarrow>
        let ws = work_unlink w ws;
            ws = upd_wq k (\<lambda>q. q\<lparr>work_current := Some w\<rparr>) ws;
            ws = upd_work w (clear_flag RT_WORK_STATE_PENDING) ws;
            ws = upd_work w (\<lambda>r. r\<lparr>workqueue := None\<rparr>) ws
        in Inr ((ws, s), Some w))"

text \<open>
  \<open>_workqueue_work_completion\<close> releases the semaphore until it gets it itself, so that every waiting thread runs
  again. The loop takes one turn for each of them and two more.
\<close>

fun work_completion_loop :: "nat \<Rightarrow> cpuid \<Rightarrow> nat \<Rightarrow> kernel \<Rightarrow> (kernel \<times> int) res option" where
  "work_completion_loop 0 c i s = None"
| "work_completion_loop (Suc fuel) c i s =
    (case rt_sem_trytake c i s of Inl e \<Rightarrow> Some (Inl e)
     | Inr (s, r) \<Rightarrow>
        if r = Return (- RT_ETIMEOUT)
        then (case rt_sem_release c i s of Inl e \<Rightarrow> Some (Inl e) | Inr (s, _) \<Rightarrow> work_completion_loop fuel c i s)
        else if r = Return RT_EOK then Some (Inr (s, RT_EOK))
        else Some (Inr (s, - RT_ERROR)))"

definition workqueue_work_completion :: "nat \<Rightarrow> cpuid \<Rightarrow> nat \<Rightarrow> kernel \<Rightarrow> (kernel \<times> int) res option" where
  "workqueue_work_completion fuel c i s =
    (case work_completion_loop fuel c i (rt_enter_critical c s) of None \<Rightarrow> None
     | Some (Inl e) \<Rightarrow> Some (Inl e)
     | Some (Inr (s, r)) \<Rightarrow> Some (and_then (rt_exit_critical c s) (\<lambda>s. Inr (s, r))))"

definition workqueue_finish :: "nat \<Rightarrow> cpuid \<Rightarrow> nat \<Rightarrow> workqueues \<times> kernel \<Rightarrow> (workqueues \<times> kernel) res option" where
  "workqueue_finish fuel c k = (\<lambda>(ws, s).
    let ws = upd_wq k (\<lambda>q. q\<lparr>work_current := None\<rparr>) ws in
    case workqueue_work_completion fuel c (wq_sem (wqs ws k)) s of None \<Rightarrow> None
    | Some r \<Rightarrow> Some (and_then r (\<lambda>(s, _). Inr (ws, s))))"

subsection \<open>Submission\<close>

definition workqueue_submit_work ::
  "cpuid \<Rightarrow> nat \<Rightarrow> nat \<Rightarrow> u32 \<Rightarrow> workqueues \<times> kernel \<Rightarrow> ((workqueues \<times> kernel) \<times> int) res" where
  "workqueue_submit_work c k w ticks = (\<lambda>(ws, s).
    let ws = upd_work w (clear_flag RT_WORK_STATE_PENDING) (work_unlink w ws) in
    if ticks = 0
    then
      let r = (if work_current (wqs ws k) \<noteq> Some w
               then (upd_work w (\<lambda>r. (set_flag RT_WORK_STATE_PENDING r)\<lparr>workqueue := Some k\<rparr>)
                       (upd_wq k (\<lambda>q. q\<lparr>work_list := work_list q @ [w]\<rparr>) ws), RT_EOK)
               else (ws, - RT_EBUSY))
      in and_then (wake_worker c k (fst r, s)) (\<lambda>(ws, s). Inr ((ws, s), snd r))
    else if ticks < RT_TICK_MAX div 2
    then
      and_then
        (if has_flag RT_WORK_STATE_SUBMITTING (works ws w)
         then and_then (rt_timer_control (UserTimer w) (SET_TIME ticks) (fst (rt_timer_stop (UserTimer w) s))) (\<lambda>(s, _). Inr (ws, s))
         else and_then (rt_timer_init (UserTimer w) ticks RT_TIMER_FLAG_SOFT_TIMER s) (\<lambda>s.
              Inr (upd_work w (set_flag RT_WORK_STATE_SUBMITTING) ws, s))) (\<lambda>(ws, s).
      let ws = upd_work w (\<lambda>r. r\<lparr>workqueue := Some k\<rparr>) ws;
          ws = upd_wq k (\<lambda>q. q\<lparr>delayed_list := delayed_list q @ [w]\<rparr>) ws
      in and_then (rt_timer_start c (UserTimer w) s) (\<lambda>s. Inr ((ws, s), RT_EOK)))
    else Inr ((ws, s), - RT_ERROR))"

definition rt_workqueue_dowork :: "cpuid \<Rightarrow> nat \<Rightarrow> nat \<Rightarrow> workqueues \<times> kernel \<Rightarrow> ((workqueues \<times> kernel) \<times> int) res" where
  "rt_workqueue_dowork c k w = workqueue_submit_work c k w 0"

definition rt_workqueue_submit_work ::
  "cpuid \<Rightarrow> nat \<Rightarrow> nat \<Rightarrow> u32 \<Rightarrow> workqueues \<times> kernel \<Rightarrow> ((workqueues \<times> kernel) \<times> int) res" where
  "rt_workqueue_submit_work c k w ticks x = rt_assert (ticks < RT_TICK_MAX div 2) (workqueue_submit_work c k w ticks x)"

definition rt_workqueue_urgent_work ::
  "cpuid \<Rightarrow> nat \<Rightarrow> nat \<Rightarrow> workqueues \<times> kernel \<Rightarrow> ((workqueues \<times> kernel) \<times> int) res" where
  "rt_workqueue_urgent_work c k w = (\<lambda>(ws, s).
    and_then (wake_worker c k (upd_wq k (\<lambda>q. q\<lparr>work_list := w # work_list q\<rparr>) (work_unlink w ws), s)) (\<lambda>x. Inr (x, RT_EOK)))"

text \<open>
  The call-back of the timer of work \<open>w\<close>. It reads the queue of the work before it takes the lock, in
  \<open>timeout_queue\<close>; \<open>timeout_requeue\<close> is the section under the lock, and what follows it. The call-back runs in
  the timer thread, so that other threads may run in between.
\<close>

definition timeout_queue :: "nat \<Rightarrow> workqueues \<Rightarrow> nat res" where
  "timeout_queue w ws = (case workqueue (works ws w) of None \<Rightarrow> Inl AssertFail | Some k \<Rightarrow> Inr k)"

definition timeout_requeue :: "cpuid \<Rightarrow> nat \<Rightarrow> nat \<Rightarrow> workqueues \<times> kernel \<Rightarrow> (workqueues \<times> kernel) res" where
  "timeout_requeue c k w = (\<lambda>(ws, s).
     let s = rt_timer_detach (UserTimer w) s;
         ws = upd_work w (clear_flag RT_WORK_STATE_SUBMITTING) ws;
         ws = work_unlink w ws;
         ws = (if work_current (wqs ws k) \<noteq> Some w
               then upd_work w (set_flag RT_WORK_STATE_PENDING) (upd_wq k (\<lambda>q. q\<lparr>work_list := work_list q @ [w]\<rparr>) ws)
               else ws)
     in wake_worker c k (ws, s))"

definition delayed_work_timeout_handler :: "cpuid \<Rightarrow> nat \<Rightarrow> workqueues \<times> kernel \<Rightarrow> (workqueues \<times> kernel) res" where
  "delayed_work_timeout_handler c w x = and_then (timeout_queue w (fst x)) (\<lambda>k. timeout_requeue c k w x)"

subsection \<open>Cancelling\<close>

definition workqueue_cancel_work :: "nat \<Rightarrow> nat \<Rightarrow> workqueues \<times> kernel \<Rightarrow> (workqueues \<times> kernel) \<times> int" where
  "workqueue_cancel_work k w = (\<lambda>(ws, s).
    let ws = upd_work w (clear_flag RT_WORK_STATE_PENDING) (work_unlink w ws);
        x = (if has_flag RT_WORK_STATE_SUBMITTING (works ws w)
             then (upd_work w (clear_flag RT_WORK_STATE_SUBMITTING) ws,
                   rt_timer_detach (UserTimer w) (fst (rt_timer_stop (UserTimer w) s)))
             else (ws, s));
        e = (if work_current (wqs ws k) \<noteq> Some w then RT_EOK else - RT_EBUSY)
    in ((upd_work w (\<lambda>r. r\<lparr>workqueue := None\<rparr>) (fst x), snd x), e))"

definition rt_workqueue_cancel_work :: "nat \<Rightarrow> nat \<Rightarrow> workqueues \<times> kernel \<Rightarrow> (workqueues \<times> kernel) \<times> int" where
  "rt_workqueue_cancel_work k w x = workqueue_cancel_work k w x"

text \<open>The synchronous form waits until the worker has run the work. It answers \<open>RT_EOK\<close> in any case.\<close>

definition rt_workqueue_cancel_work_sync ::
  "cpuid \<Rightarrow> nat \<Rightarrow> nat \<Rightarrow> workqueues \<times> kernel \<Rightarrow> ((workqueues \<times> kernel) \<times> outcome) res" where
  "rt_workqueue_cancel_work_sync c k w = (\<lambda>(ws, s).
    if work_current (wqs ws k) = Some w
    then and_then (rt_sem_take c (wq_sem (wqs ws k)) (- 1) s) (\<lambda>(s, r).
         Inr ((ws, s), if r = Blocked then Blocked else Return RT_EOK))
    else Inr (fst (workqueue_cancel_work k w (ws, s)), Return RT_EOK))"

lemma cancel_shortens:
  "work_list (wqs (fst (fst (workqueue_cancel_work k w (ws, s)))) j) = removeAll w (work_list (wqs ws j))"
  "delayed_list (wqs (fst (fst (workqueue_cancel_work k w (ws, s)))) j) = removeAll w (delayed_list (wqs ws j))"
  by (simp_all add: workqueue_cancel_work_def Let_def upd_work_def work_unlink_def)

function cancel_pending :: "nat \<Rightarrow> workqueues \<times> kernel \<Rightarrow> workqueues \<times> kernel" where
  "cancel_pending k x = (case work_list (wqs (fst x) k) of [] \<Rightarrow> x
     | w # _ \<Rightarrow> cancel_pending k (fst (workqueue_cancel_work k w x)))"
  by auto
termination
  by (relation "measure (\<lambda>(k, x). length (work_list (wqs (fst x) k)))")
    (auto simp: cancel_shortens less_Suc_eq_le split: prod.splits)

function cancel_delayed :: "nat \<Rightarrow> workqueues \<times> kernel \<Rightarrow> workqueues \<times> kernel" where
  "cancel_delayed k x = (case delayed_list (wqs (fst x) k) of [] \<Rightarrow> x
     | w # _ \<Rightarrow> cancel_delayed k (fst (workqueue_cancel_work k w x)))"
  by auto
termination
  by (relation "measure (\<lambda>(k, x). length (delayed_list (wqs (fst x) k)))")
    (auto simp: cancel_shortens less_Suc_eq_le split: prod.splits)

definition rt_workqueue_cancel_all_work ::
  "cpuid \<Rightarrow> nat \<Rightarrow> workqueues \<times> kernel \<Rightarrow> ((workqueues \<times> kernel) \<times> int) res" where
  "rt_workqueue_cancel_all_work c k = (\<lambda>(ws, s).
    let (ws, s) = cancel_delayed k (cancel_pending k (ws, rt_enter_critical c s)) in
    and_then (rt_exit_critical c s) (\<lambda>s. Inr ((ws, s), RT_EOK)))"

definition rt_workqueue_destroy :: "cpuid \<Rightarrow> nat \<Rightarrow> workqueues \<times> kernel \<Rightarrow> ((workqueues \<times> kernel) \<times> int) res" where
  "rt_workqueue_destroy c k x =
    and_then (rt_workqueue_cancel_all_work c k x) (\<lambda>((ws, s), _).
    and_then (rt_thread_delete False c (work_thread (wqs ws k)) s) (\<lambda>(s, _).
    and_then (rt_sem_detach c (wq_sem (wqs ws k)) s) (\<lambda>s. Inr ((ws, s), RT_EOK))))"

text \<open>The queue of the system, number 0.\<close>

definition sys_workq :: nat where
  "sys_workq = 0"

definition rt_work_submit :: "cpuid \<Rightarrow> nat \<Rightarrow> u32 \<Rightarrow> workqueues \<times> kernel \<Rightarrow> ((workqueues \<times> kernel) \<times> int) res" where
  "rt_work_submit c w ticks x = rt_workqueue_submit_work c sys_workq w ticks x"

definition rt_work_urgent :: "cpuid \<Rightarrow> nat \<Rightarrow> workqueues \<times> kernel \<Rightarrow> ((workqueues \<times> kernel) \<times> int) res" where
  "rt_work_urgent c w x = rt_workqueue_urgent_work c sys_workq w x"

definition rt_work_cancel :: "nat \<Rightarrow> workqueues \<times> kernel \<Rightarrow> (workqueues \<times> kernel) \<times> int" where
  "rt_work_cancel w x = rt_workqueue_cancel_work sys_workq w x"

subsection \<open>Where a work is\<close>

definition members :: "workqueues \<Rightarrow> nat \<Rightarrow> nat set" where
  "members ws k = set (work_list (wqs ws k)) \<union> set (delayed_list (wqs ws k))"

definition wq_lists_ok :: "workqueues \<Rightarrow> bool" where
  "wq_lists_ok ws \<longleftrightarrow> (\<forall>k. distinct (work_list (wqs ws k) @ delayed_list (wqs ws k)))
     \<and> (\<forall>k k'. k \<noteq> k' \<longrightarrow> members ws k \<inter> members ws k' = {})
     \<and> (\<forall>k w. w \<in> set (delayed_list (wqs ws k)) \<longrightarrow>
          has_flag RT_WORK_STATE_SUBMITTING (works ws w) \<and> workqueue (works ws w) = Some k)"

text \<open>
  A work marked as pending is in the list of a queue, and some condition \<open>Q\<close> on the queue it knows and the queues
  that run it holds; \<open>U\<close> are the works this is claimed of. Two such invariants are used below, one for callers that
  do not overlap and one for all interleavings. For both \<open>Q\<close> stays true when fewer queues run the work.
\<close>

definition pending_ok :: "(nat \<Rightarrow> bool) \<Rightarrow> (nat option \<Rightarrow> (nat \<Rightarrow> bool) \<Rightarrow> nat \<Rightarrow> bool) \<Rightarrow> workqueues \<Rightarrow> nat \<Rightarrow> bool" where
  "pending_ok U Q ws w \<longleftrightarrow> (U w \<longrightarrow> has_flag RT_WORK_STATE_PENDING (works ws w) \<longrightarrow>
     (\<exists>k. w \<in> set (work_list (wqs ws k))) \<and> Q (workqueue (works ws w)) (\<lambda>k. work_current (wqs ws k) = Some w) w)"

definition wq_inv_for :: "(nat \<Rightarrow> bool) \<Rightarrow> (nat option \<Rightarrow> (nat \<Rightarrow> bool) \<Rightarrow> nat \<Rightarrow> bool) \<Rightarrow> workqueues \<Rightarrow> bool" where
  "wq_inv_for U Q ws \<longleftrightarrow> wq_lists_ok ws \<and> (\<forall>w. pending_ok U Q ws w)"

text \<open>In the middle of an operation on work \<open>w\<close>, which is in no list then:\<close>

definition wq_but :: "(nat \<Rightarrow> bool) \<Rightarrow> (nat option \<Rightarrow> (nat \<Rightarrow> bool) \<Rightarrow> nat \<Rightarrow> bool) \<Rightarrow> nat \<Rightarrow> workqueues \<Rightarrow> bool" where
  "wq_but U Q w ws \<longleftrightarrow> wq_lists_ok ws \<and> (\<forall>v. v \<noteq> w \<longrightarrow> pending_ok U Q ws v) \<and> (\<forall>k. w \<notin> members ws k)"

lemmas wq_defs = wq_inv_for_def wq_but_def wq_lists_ok_def members_def pending_ok_def

lemma work_flag_simps [simp]:
  "\<not> has_flag RT_WORK_STATE_PENDING (clear_flag RT_WORK_STATE_PENDING r)"
  "has_flag RT_WORK_STATE_SUBMITTING (clear_flag RT_WORK_STATE_PENDING r) = has_flag RT_WORK_STATE_SUBMITTING r"
  "has_flag RT_WORK_STATE_SUBMITTING (set_flag RT_WORK_STATE_SUBMITTING r)"
  "has_flag RT_WORK_STATE_PENDING (set_flag RT_WORK_STATE_SUBMITTING r) = has_flag RT_WORK_STATE_PENDING r"
  "has_flag RT_WORK_STATE_PENDING (clear_flag RT_WORK_STATE_SUBMITTING r) = has_flag RT_WORK_STATE_PENDING r"
  "has_flag RT_WORK_STATE_PENDING (set_flag RT_WORK_STATE_PENDING r)"
  "has_flag f (r\<lparr>workqueue := x\<rparr>) = has_flag f r"
  by (simp_all add: has_flag_def clear_flag_def set_flag_def RT_WORK_STATE_PENDING_def RT_WORK_STATE_SUBMITTING_def
      bit.conj_disj_distrib2 or_eq_0_iff and.assoc)

lemma upd_wq_sel [simp]: "wqs (upd_wq k f ws) = (wqs ws)(k := f (wqs ws k))" "works (upd_wq k f ws) = works ws"
  by (simp_all add: upd_wq_def)

lemma upd_work_sel [simp]: "wqs (upd_work w f ws) = wqs ws" "works (upd_work w f ws) = (works ws)(w := f (works ws w))"
  by (simp_all add: upd_work_def)

lemma work_unlink_sel [simp]:
  "work_list (wqs (work_unlink w ws) k) = removeAll w (work_list (wqs ws k))"
  "delayed_list (wqs (work_unlink w ws) k) = removeAll w (delayed_list (wqs ws k))"
  "work_current (wqs (work_unlink w ws) k) = work_current (wqs ws k)"
  "work_thread (wqs (work_unlink w ws) k) = work_thread (wqs ws k)" "wq_sem (wqs (work_unlink w ws) k) = wq_sem (wqs ws k)"
  "works (work_unlink w ws) = works ws"
  by (simp_all add: work_unlink_def)

definition no_workqueues :: workqueues where
  "no_workqueues = \<lparr>wqs = (\<lambda>_. \<lparr>work_list = [], delayed_list = [], work_current = None, wq_sem = 0, work_thread = 0\<rparr>),
     works = (\<lambda>_. \<lparr>work_flags = 0, work_type = 0, workqueue = None\<rparr>)\<rparr>"

lemma wake_worker_ws: "wake_worker c k (ws, s) = Inr (ws', s') \<Longrightarrow> ws' = ws"
  by (auto simp: wake_worker_def split: if_splits)

lemma timeout_ws:
  assumes "timeout_requeue c k w (ws, s) = Inr (ws', s')"
  shows "ws' = (let u = work_unlink w (upd_work w (clear_flag RT_WORK_STATE_SUBMITTING) ws) in
    if work_current (wqs u k) \<noteq> Some w
    then upd_work w (set_flag RT_WORK_STATE_PENDING) (upd_wq k (\<lambda>q. q\<lparr>work_list := work_list q @ [w]\<rparr>) u) else u)"
  using assms wake_worker_ws unfolding timeout_requeue_def Let_def by auto

locale wq_pending =
  fixes U :: "nat \<Rightarrow> bool" and Q :: "nat option \<Rightarrow> (nat \<Rightarrow> bool) \<Rightarrow> nat \<Rightarrow> bool"
  assumes fewer: "Q q run w \<Longrightarrow> (\<And>k. run' k \<Longrightarrow> run k) \<Longrightarrow> Q q run' w"
begin

lemma pending_fewer:
  assumes "pending_ok U Q ws v" "\<And>k. work_list (wqs ws' k) = work_list (wqs ws k)" "works ws' v = works ws v"
    "\<And>k. work_current (wqs ws' k) = Some v \<Longrightarrow> work_current (wqs ws k) = Some v"
  shows "pending_ok U Q ws' v"
  using assms(1) fewer [of _ "\<lambda>k. work_current (wqs ws k) = Some v" v "\<lambda>k. work_current (wqs ws' k) = Some v"] assms(4)
  unfolding pending_ok_def assms(2,3) by blast

lemma wq_but_unlink: "wq_inv_for U Q ws \<Longrightarrow> wq_but U Q w (work_unlink w ws)"
  by (fastforce simp: wq_defs distinct_removeAll)

lemma wq_but_upd [simp]: "wq_but U Q w ws \<Longrightarrow> wq_but U Q w (upd_work w f ws)"
  by (auto simp: wq_defs)

lemma lists_frame:
  assumes "wq_lists_ok ws" "\<And>j. work_list (wqs ws' j) = work_list (wqs ws j)" "\<And>j. delayed_list (wqs ws' j) = delayed_list (wqs ws j)"
    "works ws' = works ws"
  shows "wq_lists_ok ws'"
  using assms(1) unfolding wq_lists_ok_def members_def assms(2-4) .

lemma wq_current:
  "wq_inv_for U Q ws \<Longrightarrow> wq_inv_for U Q (upd_wq k (\<lambda>q. q\<lparr>work_current := None\<rparr>) ws)"
  "wq_but U Q w ws \<Longrightarrow> wq_but U Q w (upd_wq k (\<lambda>q. q\<lparr>work_current := Some w\<rparr>) ws)"
proof -
  let ?x = "\<lambda>y. upd_wq k (\<lambda>q. q\<lparr>work_current := y\<rparr>) ws"
  have l: "work_list (wqs (?x y) j) = work_list (wqs ws j)" "delayed_list (wqs (?x y) j) = delayed_list (wqs ws j)" for j y by simp_all
  have "wq_lists_ok (?x y)" if "wq_lists_ok ws" for y by (rule lists_frame [OF that l]) simp
  moreover have "pending_ok U Q (?x y) v" if "pending_ok U Q ws v" "y \<noteq> Some v" for y v
    by (rule pending_fewer [OF that(1) l(1)]) (use that(2) in \<open>simp_all split: if_split_asm\<close>)
  moreover have "members (?x y) j = members ws j" for j y by (simp add: members_def)
  ultimately show "wq_inv_for U Q ws \<Longrightarrow> wq_inv_for U Q (?x None)" "wq_but U Q w ws \<Longrightarrow> wq_but U Q w (?x (Some w))"
    unfolding wq_inv_for_def wq_but_def by auto
qed

lemma wq_but_done: "wq_but U Q w ws \<Longrightarrow> (U w \<Longrightarrow> \<not> has_flag RT_WORK_STATE_PENDING (works ws w)) \<Longrightarrow> wq_inv_for U Q ws"
  unfolding wq_but_def wq_inv_for_def pending_ok_def by metis

lemma wq_place:
  assumes "wq_but U Q w ws" "set xs = insert w (set (work_list (wqs ws k)))" "distinct xs"
    "U w \<Longrightarrow> has_flag RT_WORK_STATE_PENDING (f (works ws w)) \<Longrightarrow> Q (workqueue (f (works ws w))) (\<lambda>j. work_current (wqs ws j) = Some w) w"
  shows "wq_inv_for U Q (upd_work w f (upd_wq k (\<lambda>q. q\<lparr>work_list := xs\<rparr>) ws))"
proof -
  let ?x = "upd_work w f (upd_wq k (\<lambda>q. q\<lparr>work_list := xs\<rparr>) ws)"
  have nw: "w \<notin> set (work_list (wqs ws j))" "w \<notin> set (delayed_list (wqs ws j))" for j
    using assms(1) by (auto simp: wq_but_def members_def)
  have l: "work_list (wqs ?x j) = (if j = k then xs else work_list (wqs ws j))" "delayed_list (wqs ?x j) = delayed_list (wqs ws j)"
    "work_current (wqs ?x j) = work_current (wqs ws j)" for j
    by simp_all
  have m: "members ?x j = (if j = k then insert w (members ws j) else members ws j)" for j
    using assms(2) by (auto simp: members_def l)
  have lo: "wq_lists_ok ws" using assms(1) by (simp add: wq_but_def)
  have "wq_lists_ok ?x"
    unfolding wq_lists_ok_def
  proof (intro conjI allI impI)
    show "distinct (work_list (wqs ?x j) @ delayed_list (wqs ?x j))" for j
      using lo assms(2,3) nw unfolding l wq_lists_ok_def by (cases "j = k") (auto simp: distinct_append)
    show "members ?x j \<inter> members ?x j' = {}" if "j \<noteq> j'" for j j'
    proof -
      have "members ws j \<inter> members ws j' = {}" "w \<notin> members ws j" "w \<notin> members ws j'"
        using lo that assms(1) by (simp_all add: wq_lists_ok_def wq_but_def)
      then show ?thesis using that unfolding m by auto
    qed
    show "has_flag RT_WORK_STATE_SUBMITTING (works ?x v)" "workqueue (works ?x v) = Some j" if "v \<in> set (delayed_list (wqs ?x j))" for v j
      using lo that nw unfolding l wq_lists_ok_def by auto
  qed
  moreover have "pending_ok U Q ?x v" for v
  proof (cases "v = w")
    case True
    moreover have "works ?x w = f (works ws w)" "w \<in> set (work_list (wqs ?x k))" using assms(2) by simp_all
    ultimately show ?thesis using assms(4) unfolding pending_ok_def l(3) by metis
  next
    case False
    then have "pending_ok U Q ws v" using assms(1) by (simp add: wq_but_def)
    moreover have "works ?x v = works ws v" using False by simp
    moreover have "\<exists>j. v \<in> set (work_list (wqs ?x j))" if "\<exists>j. v \<in> set (work_list (wqs ws j))"
      using that assms(2) unfolding l by auto
    ultimately show ?thesis unfolding pending_ok_def l(3) by metis
  qed
  ultimately show ?thesis by (simp add: wq_inv_for_def)
qed

lemma wq_place_delayed:
  assumes "wq_but U Q w ws" "\<not> has_flag RT_WORK_STATE_PENDING (works ws w)" "has_flag RT_WORK_STATE_SUBMITTING (works ws w)"
    "workqueue (works ws w) = Some k"
  shows "wq_inv_for U Q (upd_wq k (\<lambda>q. q\<lparr>delayed_list := delayed_list q @ [w]\<rparr>) ws)"
proof -
  let ?x = "upd_wq k (\<lambda>q. q\<lparr>delayed_list := delayed_list q @ [w]\<rparr>) ws"
  have nw: "w \<notin> set (work_list (wqs ws j))" "w \<notin> set (delayed_list (wqs ws j))" for j
    using assms(1) by (auto simp: wq_but_def members_def)
  have l: "delayed_list (wqs ?x j) = (if j = k then delayed_list (wqs ws j) @ [w] else delayed_list (wqs ws j))"
    "work_list (wqs ?x j) = work_list (wqs ws j)" "work_current (wqs ?x j) = work_current (wqs ws j)" for j by simp_all
  have m: "members ?x j = (if j = k then insert w (members ws j) else members ws j)" for j by (auto simp: members_def l)
  have lo: "wq_lists_ok ws" using assms(1) by (simp add: wq_but_def)
  have "wq_lists_ok ?x"
    unfolding wq_lists_ok_def
  proof (intro conjI allI impI)
    show "distinct (work_list (wqs ?x j) @ delayed_list (wqs ?x j))" for j
      using lo nw unfolding l wq_lists_ok_def by (cases "j = k") (auto simp: distinct_append)
    show "members ?x j \<inter> members ?x j' = {}" if "j \<noteq> j'" for j j'
    proof -
      have "members ws j \<inter> members ws j' = {}" "w \<notin> members ws j" "w \<notin> members ws j'"
        using lo that assms(1) by (simp_all add: wq_lists_ok_def wq_but_def)
      then show ?thesis using that unfolding m by auto
    qed
    show "has_flag RT_WORK_STATE_SUBMITTING (works ?x v)" "workqueue (works ?x v) = Some j" if "v \<in> set (delayed_list (wqs ?x j))" for v j
      using lo that assms(3,4) unfolding l wq_lists_ok_def by (auto split: if_splits)
  qed
  moreover have "pending_ok U Q ?x v" for v
    using assms(1,2) unfolding pending_ok_def wq_but_def l by (cases "v = w") auto
  ultimately show ?thesis by (simp add: wq_inv_for_def)
qed

lemma wq_append:
  assumes "wq_but U Q w ws"
    "U w \<Longrightarrow> has_flag RT_WORK_STATE_PENDING (f (works ws w)) \<Longrightarrow> Q (workqueue (f (works ws w))) (\<lambda>j. work_current (wqs ws j) = Some w) w"
  shows "wq_inv_for U Q (upd_work w f (upd_wq k (\<lambda>q. q\<lparr>work_list := work_list q @ [w]\<rparr>) ws))"
proof -
  have "upd_wq k (\<lambda>q. q\<lparr>work_list := work_list q @ [w]\<rparr>) ws = upd_wq k (\<lambda>q. q\<lparr>work_list := work_list (wqs ws k) @ [w]\<rparr>) ws"
    by (simp add: upd_wq_def)
  moreover have "w \<notin> set (work_list (wqs ws k))" "distinct (work_list (wqs ws k))"
    using assms(1) by (auto simp: wq_defs)
  ultimately show ?thesis using wq_place [OF assms(1), of "work_list (wqs ws k) @ [w]" k f] assms(2) by (simp only:) simp
qed

lemma submit_inv:
  assumes "wq_inv_for U Q ws" "workqueue_submit_work c k w ticks (ws, s) = Inr ((ws', s'), e)"
    and "\<And>run. U w \<Longrightarrow> \<not> run k \<Longrightarrow> Q (Some k) run w"
  shows "wq_inv_for U Q ws'"
proof -
  let ?u = "upd_work w (clear_flag RT_WORK_STATE_PENDING) (work_unlink w ws)"
  have b: "wq_but U Q w ?u" by (intro wq_but_upd wq_but_unlink assms(1))
  have np: "\<not> has_flag RT_WORK_STATE_PENDING (works ?u w)" by simp
  consider (now) "ticks = 0" | (later) "ticks \<noteq> 0" "ticks < RT_TICK_MAX div 2" | (bad) "ticks \<noteq> 0" "\<not> ticks < RT_TICK_MAX div 2" by blast
  then show ?thesis
  proof cases
    case now
    have "ws' = fst (if work_current (wqs ?u k) \<noteq> Some w
        then (upd_work w (\<lambda>r. (set_flag RT_WORK_STATE_PENDING r)\<lparr>workqueue := Some k\<rparr>)
                (upd_wq k (\<lambda>q. q\<lparr>work_list := work_list q @ [w]\<rparr>) ?u), RT_EOK)
        else (?u, - RT_EBUSY))"
      using assms(2) now wake_worker_ws unfolding workqueue_submit_work_def Let_def by auto
    then show ?thesis
      using wq_append [OF b, of "\<lambda>r. (set_flag RT_WORK_STATE_PENDING r)\<lparr>workqueue := Some k\<rparr>" k] wq_but_done [OF b np] assms(3)
      by (cases "work_current (wqs ?u k) = Some w") auto
  next
    case later
    let ?f = "if has_flag RT_WORK_STATE_SUBMITTING (works ?u w) then \<lambda>r. r else set_flag RT_WORK_STATE_SUBMITTING"
    have "ws' = upd_wq k (\<lambda>q. q\<lparr>delayed_list := delayed_list q @ [w]\<rparr>) (upd_work w (\<lambda>r. r\<lparr>workqueue := Some k\<rparr>) (upd_work w ?f ?u))"
      using assms(2) later unfolding workqueue_submit_work_def Let_def by (auto simp: upd_work_def split: if_splits)
    moreover have "wq_but U Q w (upd_work w (\<lambda>r. r\<lparr>workqueue := Some k\<rparr>) (upd_work w ?f ?u))" by (rule wq_but_upd [OF wq_but_upd [OF b]])
    moreover have "\<not> has_flag RT_WORK_STATE_PENDING (works (upd_work w (\<lambda>r. r\<lparr>workqueue := Some k\<rparr>) (upd_work w ?f ?u)) w)"
      "has_flag RT_WORK_STATE_SUBMITTING (works (upd_work w (\<lambda>r. r\<lparr>workqueue := Some k\<rparr>) (upd_work w ?f ?u)) w)" by simp_all
    ultimately show ?thesis using wq_place_delayed by simp
  next
    case bad
    then have "ws' = ?u" using assms(2) unfolding workqueue_submit_work_def Let_def by auto
    then show ?thesis using wq_but_done [OF b np] by simp
  qed
qed

lemma urgent_inv:
  assumes "wq_inv_for U Q ws" "rt_workqueue_urgent_work c k w (ws, s) = Inr ((ws', s'), e)"
  shows "wq_inv_for U Q ws'"
proof -
  let ?u = "work_unlink w ws"
  have b: "wq_but U Q w ?u" by (rule wq_but_unlink [OF assms(1)])
  have "ws' = upd_wq k (\<lambda>q. q\<lparr>work_list := w # work_list q\<rparr>) ?u"
    using assms(2) wake_worker_ws by (auto simp: rt_workqueue_urgent_work_def)
  also have "\<dots> = upd_work w (\<lambda>r. r) (upd_wq k (\<lambda>q. q\<lparr>work_list := w # work_list (wqs ?u k)\<rparr>) ?u)"
    by (simp add: upd_wq_def upd_work_def)
  finally have "ws' = upd_work w (\<lambda>r. r) (upd_wq k (\<lambda>q. q\<lparr>work_list := w # work_list (wqs ?u k)\<rparr>) ?u)" .
  moreover have "pending_ok U Q ws w" "distinct (w # work_list (wqs ?u k))" using assms(1) by (auto simp: wq_inv_for_def wq_lists_ok_def distinct_removeAll)
  ultimately show ?thesis
    using wq_place [OF b, of "w # work_list (wqs ?u k)" k "\<lambda>r. r"] by (simp add: pending_ok_def)
qed

lemma cancel_inv:
  assumes "wq_inv_for U Q ws"
  shows "wq_inv_for U Q (fst (fst (workqueue_cancel_work k w (ws, s))))"
proof -
  let ?u = "upd_work w (clear_flag RT_WORK_STATE_PENDING) (work_unlink w ws)"
  have b: "wq_but U Q w (upd_work w g (upd_work w f ?u))" for f g by (intro wq_but_upd wq_but_unlink assms(1))
  show ?thesis
    using wq_but_done [OF b [of "\<lambda>r. r\<lparr>workqueue := None\<rparr>" "clear_flag RT_WORK_STATE_SUBMITTING"]]
      wq_but_done [OF b [of "\<lambda>r. r\<lparr>workqueue := None\<rparr>" "\<lambda>r. r"]]
    by (simp add: workqueue_cancel_work_def Let_def) (simp add: upd_work_def)
qed

lemma timeout_inv:
  assumes "wq_inv_for U Q ws" "timeout_requeue c k w (ws, s) = Inr (ws', s')"
    and "U w \<Longrightarrow> work_current (wqs ws k) = Some w \<Longrightarrow> \<not> has_flag RT_WORK_STATE_PENDING (works ws w)"
    and "\<And>run. U w \<Longrightarrow> \<not> run k \<Longrightarrow> Q (workqueue (works ws w)) run w"
  shows "wq_inv_for U Q ws'"
proof -
  let ?u = "work_unlink w (upd_work w (clear_flag RT_WORK_STATE_SUBMITTING) ws)"
  have eq: "?u = upd_work w (clear_flag RT_WORK_STATE_SUBMITTING) (work_unlink w ws)"
    by (simp add: work_unlink_def upd_work_def)
  have b: "wq_but U Q w ?u" unfolding eq by (intro wq_but_upd wq_but_unlink assms(1))
  have q: "workqueue (set_flag RT_WORK_STATE_PENDING (works ?u w)) = workqueue (works ws w)" by (simp add: set_flag_def clear_flag_def)
  show ?thesis
  proof (cases "work_current (wqs ws k) = Some w")
    case True
    then show ?thesis using wq_but_done [OF b] assms(3) timeout_ws [OF assms(2)] by (simp add: Let_def)
  next
    case False
    then have "ws' = upd_work w (set_flag RT_WORK_STATE_PENDING) (upd_wq k (\<lambda>q. q\<lparr>work_list := work_list q @ [w]\<rparr>) ?u)"
      using timeout_ws [OF assms(2)] by (simp add: Let_def)
    then show ?thesis using wq_append [OF b, of "set_flag RT_WORK_STATE_PENDING" k] assms(4) False unfolding q by simp
  qed
qed

lemma fetch_inv:
  assumes "wq_inv_for U Q ws" "workqueue_fetch c k (ws, s) = Inr ((ws', s'), r)"
  shows "wq_inv_for U Q ws'"
proof (cases "work_list (wqs ws k)")
  case Nil
  then show ?thesis using assms by (auto simp: workqueue_fetch_def split: option.splits)
next
  case (Cons w rest)
  let ?x = "upd_work w (\<lambda>r. r\<lparr>workqueue := None\<rparr>) (upd_work w (clear_flag RT_WORK_STATE_PENDING)
    (upd_wq k (\<lambda>q. q\<lparr>work_current := Some w\<rparr>) (work_unlink w ws)))"
  have "wq_but U Q w ?x" by (intro wq_but_upd wq_current(2) wq_but_unlink assms(1))
  moreover have "ws' = ?x" using Cons assms(2) by (auto simp: workqueue_fetch_def Let_def)
  ultimately show ?thesis using wq_but_done [of w ?x] by simp
qed

lemma cancel_pending_inv: "wq_inv_for U Q (fst x) \<Longrightarrow> wq_inv_for U Q (fst (cancel_pending k x))"
proof (induction k x rule: cancel_pending.induct)
  case (1 k x)
  show ?case
  proof (cases "work_list (wqs (fst x) k)")
    case (Cons w rest)
    then show ?thesis using "1.IH" [OF Cons] cancel_inv [OF "1.prems", of k w "snd x"]
      by (subst cancel_pending.simps) simp
  qed (use 1 in \<open>subst cancel_pending.simps, simp\<close>)
qed

lemma cancel_delayed_inv: "wq_inv_for U Q (fst x) \<Longrightarrow> wq_inv_for U Q (fst (cancel_delayed k x))"
proof (induction k x rule: cancel_delayed.induct)
  case (1 k x)
  show ?case
  proof (cases "delayed_list (wqs (fst x) k)")
    case (Cons w rest)
    then show ?thesis using "1.IH" [OF Cons] cancel_inv [OF "1.prems", of k w "snd x"]
      by (subst cancel_delayed.simps) simp
  qed (use 1 in \<open>subst cancel_delayed.simps, simp\<close>)
qed

lemma init_inv:
  assumes "wq_inv_for U Q ws" "\<And>k. w \<notin> members ws k"
  shows "wq_inv_for U Q (rt_work_init w ws)"
proof -
  have "wq_but U Q w ws" using assms by (simp add: wq_inv_for_def wq_but_def)
  then have "wq_but U Q w (rt_work_init w ws)" by (simp add: rt_work_init_def)
  then show ?thesis by (rule wq_but_done) (simp add: rt_work_init_def has_flag_def)
qed

lemma create_inv:
  assumes "wq_inv_for U Q ws" "work_list (wqs ws k) = []" "delayed_list (wqs ws k) = []"
  shows "wq_inv_for U Q (upd_wq k (\<lambda>_. \<lparr>work_list = [], delayed_list = [], work_current = None, wq_sem = sm, work_thread = t\<rparr>) ws)"
proof -
  let ?n = "\<lparr>work_list = [], delayed_list = [], work_current = None, wq_sem = sm, work_thread = t\<rparr>"
  let ?x = "upd_wq k (\<lambda>_. ?n) ws"
  have l: "work_list (wqs ?x j) = work_list (wqs ws j)" "delayed_list (wqs ?x j) = delayed_list (wqs ws j)" for j
    using assms(2,3) by simp_all
  have "wq_lists_ok ?x" by (rule lists_frame [OF _ l]) (use assms(1) in \<open>simp_all add: wq_inv_for_def\<close>)
  moreover have "pending_ok U Q ?x v" for v
    by (rule pending_fewer [OF _ l(1)]) (use assms(1) in \<open>simp_all add: wq_inv_for_def split: if_split_asm\<close>)
  ultimately show ?thesis by (simp add: wq_inv_for_def)
qed

lemma none_inv: "wq_inv_for U Q no_workqueues"
  by (simp add: wq_defs no_workqueues_def has_flag_def)

end

text \<open>Cancelling all works leaves both lists of the queue empty.\<close>

lemma cancel_pending_empty: "work_list (wqs (fst (cancel_pending k x)) k) = []"
proof (induction k x rule: cancel_pending.induct)
  case (1 k x)
  then show ?case by (cases "work_list (wqs (fst x) k)") (subst cancel_pending.simps, simp)+
qed

lemma cancel_delayed_empty:
  "delayed_list (wqs (fst (cancel_delayed k x)) k) = []"
  "work_list (wqs (fst x) k) = [] \<Longrightarrow> work_list (wqs (fst (cancel_delayed k x)) k) = []"
proof (induction k x rule: cancel_delayed.induct)
  case (1 k x)
  {
    case 1
    then show ?case using "1.IH"(1) by (cases "delayed_list (wqs (fst x) k)") (subst cancel_delayed.simps, simp)+
  next
    case 2
    then show ?case using "1.IH"(2) cancel_shortens(1) [of k _ "fst x" "snd x" k]
      by (cases "delayed_list (wqs (fst x) k)") (subst cancel_delayed.simps, simp)+
  }
qed

subsection \<open>Calls that do not overlap\<close>

text \<open>
  As long as a call-back is not overtaken between its two parts, a pending work also knows its queue, and that queue
  does not run it.
\<close>

definition wq_inv :: "workqueues \<Rightarrow> bool" where
  "wq_inv ws \<longleftrightarrow> wq_lists_ok ws \<and> (\<forall>w. has_flag RT_WORK_STATE_PENDING (works ws w) \<longrightarrow>
     (\<exists>k. w \<in> set (work_list (wqs ws k))) \<and> (\<exists>k. workqueue (works ws w) = Some k \<and> work_current (wqs ws k) \<noteq> Some w))"

interpretation seq: wq_pending "\<lambda>_. True" "\<lambda>q run w. \<exists>k. q = Some k \<and> \<not> run k"
  by unfold_locales blast

lemma wq_inv_seq: "wq_inv ws \<longleftrightarrow> wq_inv_for (\<lambda>_. True) (\<lambda>q run w. \<exists>k. q = Some k \<and> \<not> run k) ws"
  by (auto simp: wq_inv_def wq_inv_for_def pending_ok_def)

lemma handler_inv:
  assumes "wq_inv ws" "delayed_work_timeout_handler c w (ws, s) = Inr (ws', s')"
  shows "wq_inv ws'"
proof -
  obtain k where k: "workqueue (works ws w) = Some k" "timeout_requeue c k w (ws, s) = Inr (ws', s')"
    using assms(2) by (auto simp: delayed_work_timeout_handler_def timeout_queue_def split: option.splits)
  have "\<not> has_flag RT_WORK_STATE_PENDING (works ws w)" if "work_current (wqs ws k) = Some w"
    using assms(1) k(1) that unfolding wq_inv_def by (metis option.inject)
  then show ?thesis using seq.timeout_inv [OF _ k(2)] assms(1) k(1) by (simp add: wq_inv_seq)
qed

subsection \<open>Interleavings\<close>

text \<open>
  The calls of threads and workers in any order, each atomic in the sections that hold the lock, and the
  rest of the system: \<open>kernel\<close> is any change of the kernel state that does not touch the queues. What a call does after
  its last section under the lock is such a change as well; the loops of \<open>rt_workqueue_cancel_all_work\<close>, which hold
  the scheduler only, are also runs of \<open>cancel\<close> steps with steps of interrupts between them. \<open>uses w k\<close> says that work
  \<open>w\<close> may be submitted to queue \<open>k\<close>.
\<close>

inductive wq_step :: "(nat \<Rightarrow> nat \<Rightarrow> bool) \<Rightarrow> workqueues \<times> kernel \<Rightarrow> workqueues \<times> kernel \<Rightarrow> bool" for uses where
  init: "(\<And>k. w \<notin> members ws k) \<Longrightarrow> wq_step uses (ws, s) (rt_work_init w ws, s)"
| create: "work_list (wqs ws k) = [] \<Longrightarrow> delayed_list (wqs ws k) = [] \<Longrightarrow>
    rt_workqueue_create c k alloc sm obj mem stk prio (ws, s) = Inr (x, r) \<Longrightarrow> wq_step uses (ws, s) x"
| submit: "uses w k \<Longrightarrow> workqueue_submit_work c k w ticks (ws, s) = Inr (x, e) \<Longrightarrow> wq_step uses (ws, s) x"
| urgent: "rt_workqueue_urgent_work c k w (ws, s) = Inr (x, e) \<Longrightarrow> wq_step uses (ws, s) x"
| cancel: "wq_step uses (ws, s) (fst (workqueue_cancel_work k w (ws, s)))"
| cancel_sync: "rt_workqueue_cancel_work_sync c k w (ws, s) = Inr (x, out) \<Longrightarrow> wq_step uses (ws, s) x"
| cancel_all: "rt_workqueue_cancel_all_work c k (ws, s) = Inr (x, e) \<Longrightarrow> wq_step uses (ws, s) x"
| fetch: "workqueue_fetch c k (ws, s) = Inr (x, r) \<Longrightarrow> wq_step uses (ws, s) x"
| finish: "workqueue_finish fuel c k (ws, s) = Some (Inr x) \<Longrightarrow> wq_step uses (ws, s) x"
| kernel: "wq_step uses (ws, s) (ws, s')"

text \<open>
  The call-backs of the timers take two steps. Between them \<open>H\<close> holds the work and the queue that was read for it,
  and every other step may come in between.
\<close>

inductive wq_conc :: "(nat \<Rightarrow> nat \<Rightarrow> bool) \<Rightarrow> (workqueues \<times> kernel) \<times> (nat \<times> nat) set
    \<Rightarrow> (workqueues \<times> kernel) \<times> (nat \<times> nat) set \<Rightarrow> bool" for uses where
  call: "wq_step uses x y \<Longrightarrow> wq_conc uses (x, H) (y, H)"
| expire: "timeout_queue w ws = Inr k \<Longrightarrow> wq_conc uses ((ws, s), H) ((ws, s), insert (w, k) H)"
| timeout: "(w, k) \<in> H \<Longrightarrow> timeout_requeue c k w (ws, s) = Inr x \<Longrightarrow> wq_conc uses ((ws, s), H) (x, H - {(w, k)})"

definition one_queue :: "(nat \<Rightarrow> nat \<Rightarrow> bool) \<Rightarrow> nat \<Rightarrow> bool" where
  "one_queue uses w \<longleftrightarrow> (\<forall>k k'. uses w k \<longrightarrow> uses w k' \<longrightarrow> k = k')"

interpretation conc: wq_pending "one_queue uses" "\<lambda>q run w. \<forall>k. uses w k \<longrightarrow> \<not> run k" for uses
  by unfold_locales blast

definition conc_inv :: "(nat \<Rightarrow> nat \<Rightarrow> bool) \<Rightarrow> workqueues \<Rightarrow> bool" where
  "conc_inv uses ws \<longleftrightarrow> wq_inv_for (one_queue uses) (\<lambda>q run w. \<forall>k. uses w k \<longrightarrow> \<not> run k) ws
     \<and> (\<forall>w k. workqueue (works ws w) = Some k \<longrightarrow> uses w k)"

text \<open>Only a submission makes a queue known to a work.\<close>

lemma set_flag_queue [simp]: "workqueue (set_flag f r) = workqueue r" "workqueue (clear_flag f r) = workqueue r"
  by (simp_all add: set_flag_def clear_flag_def)

lemma cancel_queue: "workqueue (works (fst (fst (workqueue_cancel_work k w (ws, s)))) v) = Some j \<Longrightarrow> workqueue (works ws v) = Some j"
  by (auto simp: workqueue_cancel_work_def Let_def split: if_splits)

lemma cancel_pending_queue: "workqueue (works (fst (cancel_pending k x)) v) = Some j \<Longrightarrow> workqueue (works (fst x) v) = Some j"
proof (induction k x rule: cancel_pending.induct)
  case (1 k x)
  then show ?case using cancel_queue [of k _ "fst x" "snd x" v j]
    by (cases "work_list (wqs (fst x) k)") (auto simp: cancel_pending.simps [of k x])
qed

lemma cancel_delayed_queue: "workqueue (works (fst (cancel_delayed k x)) v) = Some j \<Longrightarrow> workqueue (works (fst x) v) = Some j"
proof (induction k x rule: cancel_delayed.induct)
  case (1 k x)
  then show ?case using cancel_queue [of k _ "fst x" "snd x" v j]
    by (cases "delayed_list (wqs (fst x) k)") (auto simp: cancel_delayed.simps [of k x])
qed

lemma submit_queue:
  assumes "workqueue_submit_work c k w ticks (ws, s) = Inr ((ws', s'), e)" "workqueue (works ws' v) = Some j"
  shows "workqueue (works ws v) = Some j \<or> v = w \<and> j = k"
  using assms wake_worker_ws by (fastforce simp: workqueue_submit_work_def Let_def split: if_splits)

lemma wq_step_inv:
  assumes "wq_step uses (ws, s) (ws', s')" "conc_inv uses ws"
  shows "conc_inv uses ws'"
proof -
  let ?I = "wq_inv_for (one_queue uses) (\<lambda>q run w. \<forall>k. uses w k \<longrightarrow> \<not> run k)"
  have i: "?I ws" and u: "\<And>w k. workqueue (works ws w) = Some k \<Longrightarrow> uses w k" using assms(2) by (auto simp: conc_inv_def)
  have "?I ws' \<and> (\<forall>w k. workqueue (works ws' w) = Some k \<longrightarrow> workqueue (works ws w) = Some k \<or> uses w k)"
    using assms(1)
  proof cases
    case (create k c alloc sm obj mem stk prio r)
    then have "ws' = ws \<or> (\<exists>t. ws' = upd_wq k (\<lambda>_. \<lparr>work_list = [], delayed_list = [], work_current = None, wq_sem = sm, work_thread = t\<rparr>) ws)"
      by (auto simp: rt_workqueue_create_def split: if_splits option.splits)
    then show ?thesis using conc.create_inv [OF i create(1,2)] i by auto
  next
    case (cancel k w)
    then show ?thesis using conc.cancel_inv [OF i, of k w s] cancel_queue [of k w ws s] by (metis fst_conv)
  next
    case (cancel_sync c k w out)
    then show ?thesis using conc.cancel_inv [OF i, of k w s] cancel_queue [of k w ws s] i
      by (auto simp: rt_workqueue_cancel_work_sync_def split: if_splits)
  next
    case (cancel_all c k e)
    let ?y = "cancel_pending k (ws, rt_enter_critical c s)"
    have "ws' = fst (cancel_delayed k ?y)" using cancel_all by (auto simp: rt_workqueue_cancel_all_work_def split: prod.splits)
    then show ?thesis using conc.cancel_delayed_inv conc.cancel_pending_inv [of uses "(ws, rt_enter_critical c s)"] i
        cancel_delayed_queue [of k ?y] cancel_pending_queue [of k "(ws, rt_enter_critical c s)"] by auto
  next
    case (finish fuel c k)
    then have "ws' = upd_wq k (\<lambda>q. q\<lparr>work_current := None\<rparr>) ws"
      by (auto simp: workqueue_finish_def Let_def split: option.splits)
    then show ?thesis using conc.wq_current(1) [OF i] by simp
  next
    case (init w)
    then show ?thesis using conc.init_inv [OF i] by (auto simp: rt_work_init_def)
  next
    case (submit w k c ticks e)
    then show ?thesis using conc.submit_inv [OF i submit(2)] submit_queue [OF submit(2)] by (auto simp: one_queue_def)
  next
    case (urgent c k w e)
    then have "works ws' = works ws" by (auto simp: rt_workqueue_urgent_work_def dest!: wake_worker_ws)
    then show ?thesis using conc.urgent_inv [OF i urgent] by simp
  next
    case (fetch c k r)
    then show ?thesis using conc.fetch_inv [OF i fetch] by (auto simp: workqueue_fetch_def Let_def split: list.splits option.splits if_splits)
  qed (use i in simp)
  then show ?thesis using u by (auto simp: conc_inv_def)
qed

lemma wq_conc_inv:
  assumes "wq_conc uses (x, H) (y, H')" "conc_inv uses (fst x)" "\<And>w k. (w, k) \<in> H \<Longrightarrow> uses w k"
  shows "conc_inv uses (fst y) \<and> (\<forall>w k. (w, k) \<in> H' \<longrightarrow> uses w k)"
  using assms(1)
proof cases
  case call
  then show ?thesis using wq_step_inv [of uses "fst x" "snd x" "fst y" "snd y"] assms(2,3) by simp
next
  case (expire w ws k s)
  then show ?thesis using assms(2,3) by (auto simp: conc_inv_def timeout_queue_def split: option.splits)
next
  case (timeout w k c ws s)
  let ?I = "wq_inv_for (one_queue uses) (\<lambda>q run w. \<forall>k. uses w k \<longrightarrow> \<not> run k)"
  have uk: "uses w k" using assms(3) timeout(3) by simp
  have i: "?I ws" using assms(2) timeout(1) by (simp add: conc_inv_def)
  have r: "timeout_requeue c k w (ws, s) = Inr (fst y, snd y)" using timeout(4) by simp
  have p: "\<not> has_flag RT_WORK_STATE_PENDING (works ws w)" if "one_queue uses w" "work_current (wqs ws k) = Some w"
    using i uk that unfolding wq_inv_for_def pending_ok_def by blast
  have "?I (fst y)" using conc.timeout_inv [OF i r] p uk by (auto simp: one_queue_def)
  moreover have "workqueue (works (fst y) v) = workqueue (works ws v)" for v using timeout_ws [OF r] by (simp add: Let_def)
  ultimately show ?thesis using assms(2,3) timeout(1,2) by (auto simp: conc_inv_def)
qed

lemma wq_run_inv:
  "(wq_conc uses)\<^sup>*\<^sup>* x y \<Longrightarrow> conc_inv uses (fst (fst x)) \<Longrightarrow> (\<And>w k. (w, k) \<in> snd x \<Longrightarrow> uses w k)
    \<Longrightarrow> conc_inv uses (fst (fst y)) \<and> (\<forall>w k. (w, k) \<in> snd y \<longrightarrow> uses w k)"
proof (induction rule: rtranclp_induct)
  case (step y z)
  then show ?case using wq_conc_inv [of uses "fst y" "snd y" "fst z" "snd z"] by simp
qed simp

text \<open>
  What the read before the lock costs. A work that is cancelled between the two parts of its call-back, and for which the
  caller was told \<open>RT_EOK\<close>, is put into the queue again. And a work that is submitted to another queue in between leaves the list of
  that queue, while it stays marked as pending.
\<close>

lemma cancelled_work_requeued:
  assumes "timeout_queue w ws = Inr k" "work_current (wqs ws k) \<noteq> Some w"
  shows "snd (workqueue_cancel_work k w (ws, s)) = RT_EOK"
    and "timeout_requeue c k w (fst (workqueue_cancel_work k w (ws, s))) = Inr (ws', s')
      \<Longrightarrow> w \<in> set (work_list (wqs ws' k)) \<and> workqueue (works ws' w) = None"
proof -
  let ?x = "fst (workqueue_cancel_work k w (ws, s))"
  have c: "work_current (wqs (fst ?x) k) = work_current (wqs ws k)" "workqueue (works (fst ?x) w) = None"
    by (simp_all add: workqueue_cancel_work_def Let_def)
  show "snd (workqueue_cancel_work k w (ws, s)) = RT_EOK" using assms(2) by (simp add: workqueue_cancel_work_def Let_def)
  assume "timeout_requeue c k w ?x = Inr (ws', s')"
  then show "w \<in> set (work_list (wqs ws' k)) \<and> workqueue (works ws' w) = None"
    using timeout_ws [of c k w "fst ?x" "snd ?x" ws' s'] c assms(2) by (simp add: Let_def)
qed

lemma timeout_loses_resubmitted:
  assumes "work_current (wqs ws k) = Some w" "has_flag RT_WORK_STATE_PENDING (works ws w)"
    "timeout_requeue c k w (ws, s) = Inr (ws', s')"
  shows "has_flag RT_WORK_STATE_PENDING (works ws' w) \<and> (\<forall>j. w \<notin> members ws' j)"
  using timeout_ws [OF assms(3)] assms(1,2) by (simp add: Let_def members_def)

subsection \<open>The worker sleeps only when it has nothing to do\<close>

lemma resume_awake:
  assumes "kinv s" "c < RT_CPUS_NR" "irq_nest (cpus s c) \<noteq> 0 \<or> preemptible c s" "thread_stat s t = RT_THREAD_SUSPEND"
  shows "\<exists>s'. rt_schedule c (fst (rt_thread_resume c t s)) = Inr s' \<and> kinv s' \<and> awake (thread_stat s' t)"
proof -
  obtain s' where r: "rt_schedule c (fst (rt_thread_resume c t s)) = Inr s'" using ipc_resume_schedule [OF assms(1,3)] by blast
  note k = kinv_rt_schedule [OF kinv_resume [OF assms(1)] assms(2) r]
  have "awake (thread_stat (fst (rt_thread_resume c t s)) t)"
    using rt_thread_resume_stat(1) [OF assms(4), of c] by (simp add: awake_def)
  then show ?thesis using r k(1) only_sched_suspended(2) [OF k(2)] by auto
qed

lemma awake_not_suspended: "awake x \<Longrightarrow> x \<noteq> RT_THREAD_SUSPEND"
  by (auto simp: awake_def stat_defs)

lemma wake_worker_ok:
  assumes "kinv s" "c < RT_CPUS_NR" "irq_nest (cpus s c) \<noteq> 0 \<or> preemptible c s"
  shows "\<exists>s'. wake_worker c k (ws, s) = Inr (ws, s') \<and> kinv s'
    \<and> (work_current (wqs ws k) = None \<longrightarrow> thread_stat s' (work_thread (wqs ws k)) \<noteq> RT_THREAD_SUSPEND)"
proof (cases "work_current (wqs ws k) = None \<and> thread_stat s (work_thread (wqs ws k)) = RT_THREAD_SUSPEND")
  case True
  obtain s' where "rt_schedule c (fst (rt_thread_resume c (work_thread (wqs ws k)) s)) = Inr s'" "kinv s'"
    "awake (thread_stat s' (work_thread (wqs ws k)))" using resume_awake [OF assms] True by blast
  then show ?thesis using True awake_not_suspended by (auto simp: wake_worker_def)
next
  case False
  then show ?thesis using assms(1) unfolding wake_worker_def by auto
qed

subsection \<open>The loop of the completion\<close>

definition locked_by :: "cpuid \<Rightarrow> tid \<Rightarrow> kernel \<Rightarrow> bool" where
  "locked_by c t s \<longleftrightarrow> irq_nest (cpus s c) = 0 \<and> current_thread (cpus s c) = Some t
     \<and> cpus_lock_nest (threads s t) \<noteq> 0 \<and> scheduler_lock_nest (threads s t) \<noteq> 1"

lemma locked_by_resume: "locked_by c t s \<Longrightarrow> locked_by c t (fst (rt_thread_resume c u s))"
  by (auto simp: locked_by_def rt_thread_resume_def Let_def insert_thread_threads)

lemma work_completion_loop_ok:
  assumes "kinv s" "sem_inv i s" "c < RT_CPUS_NR" "locked_by c cur s" "stacks_ok s" "queues s (SemQ i) = ts" "length ts + 2 \<le> fuel"
  shows "\<exists>s'. work_completion_loop fuel c i s = Some (Inr (s', RT_EOK)) \<and> kinv s' \<and> sem_inv i s' \<and> locked_by c cur s' \<and> stacks_ok s'
    \<and> queues s' (SemQ i) = [] \<and> sem_value (sems s' i) = sem_value (sems s i) - (if sem_value (sems s i) = 0 then 0 else 1)
    \<and> (\<forall>t \<in> set ts. awake (thread_stat s' t)) \<and> (\<forall>t. error (threads s' t) = error (threads s t))
    \<and> (\<forall>t. awake (thread_stat s t) \<longrightarrow> awake (thread_stat s' t))"
  using assms
proof (induction ts arbitrary: s fuel)
  case Nil
  obtain f where f: "fuel = Suc (Suc f)" using Nil.prems(7) by (cases fuel; cases "fuel - 1") auto
  let ?d = "upd_sem i (\<lambda>m. m\<lparr>sem_value := sem_value m - 1\<rparr>)"
  let ?u = "upd_sem i (\<lambda>m. m\<lparr>sem_value := sem_value m + 1\<rparr>) s"
  show ?case
  proof (cases "0 < sem_value (sems s i)")
    case True
    then have "work_completion_loop fuel c i s = Some (Inr (?d s, RT_EOK))"
      by (simp add: f rt_sem_trytake_def rt_sem_take_def)
    moreover have "sem_value (sems s i) \<noteq> 0" using True by auto
    ultimately show ?thesis using Nil.prems
      by (intro exI [of _ "?d s"]) (simp add: sem_inv_def locked_by_def stacks_ok_def thread_stat_def)
  next
    case False
    then have v: "sem_value (sems s i) = 0" by (simp add: word_gt_0)
    have "work_completion_loop fuel c i s = Some (Inr (?d ?u, RT_EOK))"
      using Nil.prems(6) v by (simp add: f rt_sem_trytake_def rt_sem_take_def rt_sem_release_def rt_list_isempty_def)
    moreover have "sem_value (sems (?d ?u) i) = sem_value (sems s i)" by simp
    ultimately show ?thesis using Nil.prems v
      by (intro exI [of _ "?d ?u"]) (simp add: sem_inv_def locked_by_def stacks_ok_def thread_stat_def)
  qed
next
  case (Cons t ts)
  obtain f where f: "fuel = Suc f" "length ts + 2 \<le> f" using Cons.prems(7) by (cases fuel) auto
  have v: "sem_value (sems s i) = 0" using Cons.prems(2,6) by (auto simp: sem_inv_def word_gt_0)
  let ?s = "fst (rt_thread_resume c t s)"
  note h = ipc_list_resume_ok [OF Cons.prems(1) sem_wait_q(1) Cons.prems(6), of c]
  note hd = kinv_wait_head [OF Cons.prems(1) sem_wait_q(1) Cons.prems(6)]
  have lk: "locked_by c cur ?s" by (rule locked_by_resume [OF Cons.prems(4)])
  have "rt_schedule c ?s = Inr ?s" using lk by (intro rt_schedule_locked [where cur = cur]) (simp_all add: locked_by_def)
  then have step: "work_completion_loop fuel c i s = work_completion_loop f c i ?s"
    using v h(1) Cons.prems(6) by (simp add: f(1) rt_sem_trytake_def rt_sem_take_def rt_sem_release_def rt_list_isempty_def)
  have sm: "sems ?s = sems s" by (simp add: rt_thread_resume_def Let_def rt_list_remove_def)
  have er: "error (threads ?s u) = error (threads s u)" for u
    using hd(1) by (simp add: rt_thread_resume_def Let_def insert_thread_threads)
  have aw: "awake (thread_stat ?s u)" if "awake (thread_stat s u)" for u
    using that h(3) rt_thread_resume_stat(2) [OF hd(1), of u c] by (cases "u = t") (auto simp: thread_stat_def)
  have "sem_inv i ?s" using Cons.prems(2) v sm by (simp add: sem_inv_def)
  from Cons.IH [OF kinv_resume [OF Cons.prems(1)] this Cons.prems(3) lk resume_live(3) [OF Cons.prems(5)] h(2) f(2)]
  obtain s' where "work_completion_loop f c i ?s = Some (Inr (s', RT_EOK))" "kinv s'" "sem_inv i s'" "locked_by c cur s'" "stacks_ok s'"
    "queues s' (SemQ i) = []" "sem_value (sems s' i) = 0" "\<And>t. t \<in> set ts \<Longrightarrow> awake (thread_stat s' t)"
    "\<And>t. error (threads s' t) = error (threads ?s t)" "\<And>t. awake (thread_stat ?s t) \<Longrightarrow> awake (thread_stat s' t)"
    using v sm by auto
  then show ?case using step v er aw h(3) by (intro exI [of _ s']) auto
qed

lemma locked_by_enter:
  assumes "irq_nest (cpus s c) = 0" "current_thread (cpus s c) = Some t" "scheduler_lock_nest (threads s t) = 0"
    "cpus_lock_nest (threads s t) = 0"
  shows "locked_by c t (rt_enter_critical c s)"
  using assms by (simp add: locked_by_def rt_enter_critical_def rt_cpus_lock_def)

lemma enter_critical_frame:
  "sems (rt_enter_critical c s) = sems s" "stacks_ok (rt_enter_critical c s) = stacks_ok s"
  "error (threads (rt_enter_critical c s) t) = error (threads s t)" "thread_stat (rt_enter_critical c s) t = thread_stat s t"
  by (auto simp: rt_enter_critical_def rt_cpus_lock_def stacks_ok_def scheduler_stack_check_def thread_stat_def split: option.split)

lemma exit_critical_returns:
  assumes "kinv s" "c < RT_CPUS_NR" "current_thread (cpus s c) = Some cur" "stacks_ok s"
  shows "\<exists>s'. rt_exit_critical c s = Inr s' \<and> sems s' = sems s"
proof -
  let ?u = "rt_cpus_unlock c (upd_thread cur (\<lambda>th. th\<lparr>scheduler_lock_nest := scheduler_lock_nest th - 1,
    critical_lock_nest := critical_lock_nest th - 1\<rparr>) s)"
  have "sched_inv (upd_thread cur (\<lambda>th. th\<lparr>scheduler_lock_nest := scheduler_lock_nest th - 1,
    critical_lock_nest := critical_lock_nest th - 1\<rparr>) s)"
    using kinvD(1) [OF kinv_upd_thread [OF assms(1), of cur "\<lambda>th. th\<lparr>scheduler_lock_nest := scheduler_lock_nest th - 1,
      critical_lock_nest := critical_lock_nest th - 1\<rparr>"]] by (simp add: same_sched_def)
  then have u: "sched_inv ?u" by auto
  have "scheduler_stack_check (th\<lparr>scheduler_lock_nest := a, critical_lock_nest := b\<rparr>) = scheduler_stack_check th" for th a b
    by (simp add: scheduler_stack_check_def)
  then have "stacks_ok ?u" using assms(4) by (simp add: stacks_ok_def)
  then obtain s' where "rt_schedule c ?u = Inr s'" using rt_schedule_total [OF u assms(2), of cur] assms(3) by auto
  moreover from this have "sems s' = sems s"
    using only_schedD(6) [OF only_sched_rt_schedule [OF u assms(2)]] by simp
  ultimately show ?thesis using assms(3) by (simp add: rt_exit_critical_def Let_def)
qed

subsection \<open>Properties\<close>

lemma no_workqueues_inv: "wq_inv no_workqueues" "conc_inv uses no_workqueues"
  using seq.none_inv conc.none_inv [of uses] by (simp_all add: wq_inv_seq conc_inv_def) (simp add: no_workqueues_def)

text \<open>
  C9. In every interleaving of submissions, cancellations, worker threads and timers, where the call-back of a timer
  reads the queue in one step and requeues the work in a later one, a work stands at every moment at most once
  in the lists of all the queues; a delayed work is marked as such and knows its queue, so that a call-back that starts
  while the work is delayed finds the queue. A work that is submitted to one queue only, as often as one likes, is in the
  list of a queue whenever it is marked as pending, and is not being run by its queue then.
\<close>

theorem workqueue_interleaving_safe:
  assumes "(wq_conc uses)\<^sup>*\<^sup>* ((no_workqueues, s0), {}) ((ws, s), H)"
  shows "distinct (work_list (wqs ws k) @ delayed_list (wqs ws k))
    \<and> (k \<noteq> k' \<longrightarrow> members ws k \<inter> members ws k' = {})
    \<and> (w \<in> set (delayed_list (wqs ws k)) \<longrightarrow> has_flag RT_WORK_STATE_SUBMITTING (works ws w)
          \<and> workqueue (works ws w) = Some k \<and> timeout_queue w ws = Inr k)
    \<and> ((\<forall>j j'. uses w j \<longrightarrow> uses w j' \<longrightarrow> j = j') \<longrightarrow> has_flag RT_WORK_STATE_PENDING (works ws w) \<longrightarrow>
          (\<exists>j. w \<in> set (work_list (wqs ws j))) \<and> (\<forall>j. uses w j \<longrightarrow> work_current (wqs ws j) \<noteq> Some w))"
proof -
  have i: "conc_inv uses ws" using wq_run_inv [OF assms] no_workqueues_inv(2) by simp
  then have "wq_lists_ok ws" and p: "pending_ok (one_queue uses) (\<lambda>q run w. \<forall>k. uses w k \<longrightarrow> \<not> run k) ws w"
    by (simp_all add: conc_inv_def wq_inv_for_def)
  then show ?thesis using p unfolding pending_ok_def one_queue_def wq_lists_ok_def by (auto simp: timeout_queue_def)
qed

text \<open>Example: queue 0 with the thread 4, which runs, and no work.\<close>

definition demo_wq :: workqueues where
  "demo_wq = upd_wq 0 (\<lambda>q. q\<lparr>wq_sem := 7, work_thread := 4\<rparr>) no_workqueues"

theorem workqueue_interleaving_safe_witness:
  "\<exists>ws s. rt_workqueue_urgent_work 0 0 5 (no_workqueues, demo_ready) = Inr ((ws, s), RT_EOK)
     \<and> distinct (work_list (wqs ws 0) @ delayed_list (wqs ws 0)) \<and> members ws 0 \<inter> members ws 1 = {}"
proof -
  have "kinv demo_ready" "irq_nest (cpus demo_ready 0) \<noteq> 0 \<or> preemptible 0 demo_ready" using demo_kinv demo_preemptible by simp_all
  from wake_worker_ok [OF this(1) _ this(2)] obtain ws s
    where r: "rt_workqueue_urgent_work 0 0 5 (no_workqueues, demo_ready) = Inr ((ws, s), RT_EOK)"
    by (fastforce simp: rt_workqueue_urgent_work_def)
  have "wq_conc (\<lambda>_ _. True) ((no_workqueues, demo_ready), {}) ((ws, s), {})" by (rule wq_conc.call [OF wq_step.urgent [OF r]])
  then have run: "(wq_conc (\<lambda>_ _. True))\<^sup>*\<^sup>* ((no_workqueues, demo_ready), {}) ((ws, s), {})" by blast
  show ?thesis using workqueue_interleaving_safe [OF run, of 0 1] r by auto
qed

lemma dowork_cases:
  assumes "kinv s"
    "wq_inv ws"
    "c < RT_CPUS_NR"
    "irq_nest (cpus s c) \<noteq> 0 \<or> preemptible c s"
  shows "\<exists>ws' s' e. rt_workqueue_dowork c k w (ws, s) = Inr ((ws', s'), e) \<and> kinv s' \<and> wq_inv ws'
      \<and> (if work_current (wqs ws k) = Some w
         then e = - RT_EBUSY \<and> (\<forall>j. w \<notin> members ws' j)
         else e = RT_EOK \<and> work_list (wqs ws' k) = removeAll w (work_list (wqs ws k)) @ [w]
           \<and> has_flag RT_WORK_STATE_PENDING (works ws' w))
      \<and> (work_current (wqs ws k) = None \<longrightarrow> thread_stat s' (work_thread (wqs ws k)) \<noteq> RT_THREAD_SUSPEND)"
proof -
  let ?u = "upd_work w (clear_flag RT_WORK_STATE_PENDING) (work_unlink w ws)"
  let ?r = "if work_current (wqs ?u k) \<noteq> Some w
    then (upd_work w (\<lambda>r. (set_flag RT_WORK_STATE_PENDING r)\<lparr>workqueue := Some k\<rparr>)
            (upd_wq k (\<lambda>q. q\<lparr>work_list := work_list q @ [w]\<rparr>) ?u), RT_EOK)
    else (?u, - RT_EBUSY)"
  obtain s' where s': "wake_worker c k (fst ?r, s) = Inr (fst ?r, s')" "kinv s'"
    "work_current (wqs (fst ?r) k) = None \<longrightarrow> thread_stat s' (work_thread (wqs (fst ?r) k)) \<noteq> RT_THREAD_SUSPEND"
    using wake_worker_ok [OF assms(1,3,4)] by blast
  have eq: "rt_workqueue_dowork c k w (ws, s) = Inr ((fst ?r, s'), snd ?r)"
    using s'(1) unfolding rt_workqueue_dowork_def workqueue_submit_work_def Let_def by simp
  then have inv: "wq_inv (fst ?r)" using seq.submit_inv [of ws c k w 0 s "fst ?r" s' "snd ?r"] assms(2)
    unfolding rt_workqueue_dowork_def wq_inv_seq by blast
  have cur: "work_current (wqs (fst ?r) k) = work_current (wqs ws k)" "work_thread (wqs (fst ?r) k) = work_thread (wqs ws k)" by simp_all
  have res: "if work_current (wqs ws k) = Some w then snd ?r = - RT_EBUSY \<and> (\<forall>j. w \<notin> members (fst ?r) j)
    else snd ?r = RT_EOK \<and> work_list (wqs (fst ?r) k) = removeAll w (work_list (wqs ws k)) @ [w]
      \<and> has_flag RT_WORK_STATE_PENDING (works (fst ?r) w)" by (simp add: members_def)
  have awk: "work_current (wqs ws k) = None \<longrightarrow> thread_stat s' (work_thread (wqs ws k)) \<noteq> RT_THREAD_SUSPEND"
    using s'(3) unfolding cur .
  show "\<exists>ws' s' e. rt_workqueue_dowork c k w (ws, s) = Inr ((ws', s'), e) \<and> kinv s' \<and> wq_inv ws'
      \<and> (if work_current (wqs ws k) = Some w
         then e = - RT_EBUSY \<and> (\<forall>j. w \<notin> members ws' j)
         else e = RT_EOK \<and> work_list (wqs ws' k) = removeAll w (work_list (wqs ws k)) @ [w]
           \<and> has_flag RT_WORK_STATE_PENDING (works ws' w))
      \<and> (work_current (wqs ws k) = None \<longrightarrow> thread_stat s' (work_thread (wqs ws k)) \<noteq> RT_THREAD_SUSPEND)"
    by (intro exI [of _ "fst ?r"] exI [of _ s'] exI [of _ "snd ?r"] conjI; (rule eq | rule inv | rule s'(2) | rule res | rule awk))
qed

text \<open>
  C22. \<open>rt_workqueue_dowork\<close> in a thread or an interrupt: the work goes last into the list, whatever list it was in
  before, and is marked as pending; the work that the worker runs at the moment is refused with \<open>RT_EBUSY\<close>. In
  both cases a worker that runs no work does not sleep afterwards: a submitted work is never left to a sleeping worker.
  The worker takes the works in the order of the list and belongs to the one it runs.
\<close>

theorem workqueue_dowork_spec:
  assumes "kinv s" and "wq_inv ws" and "c < RT_CPUS_NR" and "irq_nest (cpus s c) \<noteq> 0 \<or> preemptible c s"
  shows "(\<exists>ws' s' e. rt_workqueue_dowork c k w (ws, s) = Inr ((ws', s'), e) \<and> kinv s' \<and> wq_inv ws'
      \<and> (if work_current (wqs ws k) = Some w
         then e = - RT_EBUSY \<and> (\<forall>j. w \<notin> members ws' j)
         else e = RT_EOK \<and> work_list (wqs ws' k) = removeAll w (work_list (wqs ws k)) @ [w]
           \<and> has_flag RT_WORK_STATE_PENDING (works ws' w))
      \<and> (work_current (wqs ws k) = None \<longrightarrow> thread_stat s' (work_thread (wqs ws k)) \<noteq> RT_THREAD_SUSPEND))
    \<and> (\<forall>v vs. work_list (wqs ws k) = v # vs \<longrightarrow> (\<exists>ws'. workqueue_fetch c k (ws, s) = Inr ((ws', s), Some v) \<and> wq_inv ws'
         \<and> work_list (wqs ws' k) = vs \<and> work_current (wqs ws' k) = Some v))"
proof (rule conjI)
  show "\<exists>ws' s' e. rt_workqueue_dowork c k w (ws, s) = Inr ((ws', s'), e) \<and> kinv s' \<and> wq_inv ws'
      \<and> (if work_current (wqs ws k) = Some w
         then e = - RT_EBUSY \<and> (\<forall>j. w \<notin> members ws' j)
         else e = RT_EOK \<and> work_list (wqs ws' k) = removeAll w (work_list (wqs ws k)) @ [w]
           \<and> has_flag RT_WORK_STATE_PENDING (works ws' w))
      \<and> (work_current (wqs ws k) = None \<longrightarrow> thread_stat s' (work_thread (wqs ws k)) \<noteq> RT_THREAD_SUSPEND)"
    by (rule dowork_cases [OF assms])
  show "\<forall>v vs. work_list (wqs ws k) = v # vs \<longrightarrow> (\<exists>ws'. workqueue_fetch c k (ws, s) = Inr ((ws', s), Some v) \<and> wq_inv ws'
      \<and> work_list (wqs ws' k) = vs \<and> work_current (wqs ws' k) = Some v)"
  proof (intro allI impI)
    fix v vs assume l: "work_list (wqs ws k) = v # vs"
    then obtain ws' where f: "workqueue_fetch c k (ws, s) = Inr ((ws', s), Some v)"
      "work_list (wqs ws' k) = removeAll v vs" "work_current (wqs ws' k) = Some v"
      by (simp add: workqueue_fetch_def Let_def)
    have "v \<notin> set vs" using assms(2) l unfolding wq_inv_def wq_lists_ok_def by (metis distinct.simps(2) distinct_append)
    then show "\<exists>ws'. workqueue_fetch c k (ws, s) = Inr ((ws', s), Some v) \<and> wq_inv ws'
        \<and> work_list (wqs ws' k) = vs \<and> work_current (wqs ws' k) = Some v"
      using f seq.fetch_inv [of ws, OF _ f(1)] assms(2) unfolding wq_inv_seq by auto
  qed
qed

lemma demo_wq_inv: "wq_inv demo_wq"
  using seq.create_inv [OF no_workqueues_inv(1) [unfolded wq_inv_seq], of 0 7 4] unfolding wq_inv_seq by (simp add: demo_wq_def no_workqueues_def upd_wq_def)

theorem workqueue_dowork_spec_witness:
  "\<exists>ws' s'. rt_workqueue_dowork 0 0 5 (demo_wq, demo_ready) = Inr ((ws', s'), RT_EOK) \<and> work_list (wqs ws' 0) = [5]"
proof -
  have "work_current (wqs demo_wq 0) = None" "work_list (wqs demo_wq 0) = []" by (simp_all add: demo_wq_def no_workqueues_def)
  then show ?thesis
    using workqueue_dowork_spec [OF demo_kinv(2) demo_wq_inv, of 0 0 5] demo_preemptible by auto
qed

text \<open>
  C21. After a work the worker lets every thread go on that waits in \<open>rt_workqueue_cancel_work_sync\<close>: the loop of
  \<open>_workqueue_work_completion\<close> ends after one turn for each of them and two more, all of them are runnable
  without an error, the list of the semaphore is empty, and its count is what it was, or one less.
\<close>

theorem work_completion_releases_all:
  assumes "kinv s" and "sem_inv i s" and "c < RT_CPUS_NR" and "irq_nest (cpus s c) = 0" and "current_thread (cpus s c) = Some cur"
    and "scheduler_lock_nest (threads s cur) = 0" and "cpus_lock_nest (threads s cur) = 0" and "stacks_ok s"
    and "length (queues s (SemQ i)) + 2 \<le> fuel"
  shows "\<exists>s'. workqueue_work_completion fuel c i s = Some (Inr (s', RT_EOK)) \<and> kinv s' \<and> queues s' (SemQ i) = []
    \<and> sem_value (sems s' i) = (if sem_value (sems s i) = 0 then 0 else sem_value (sems s i) - 1)
    \<and> (\<forall>t \<in> set (queues s (SemQ i)). awake (thread_stat s' t) \<and> error (threads s' t) = error (threads s t))"
proof -
  let ?e = "rt_enter_critical c s"
  have si: "sem_inv i ?e" using assms(2) kinv_critical(5) [OF assms(1), of c] by (simp add: sem_inv_def enter_critical_frame)
  have st: "stacks_ok ?e" using assms(8) by (simp add: enter_critical_frame)
  have q: "queues ?e (SemQ i) = queues s (SemQ i)" by (simp add: kinv_critical(5) [OF assms(1)])
  obtain s1 where s1: "work_completion_loop fuel c i ?e = Some (Inr (s1, RT_EOK))" "kinv s1" "locked_by c cur s1" "stacks_ok s1"
    "queues s1 (SemQ i) = []" "sem_value (sems s1 i) = sem_value (sems s i) - (if sem_value (sems s i) = 0 then 0 else 1)"
    "\<And>t. t \<in> set (queues s (SemQ i)) \<Longrightarrow> awake (thread_stat s1 t)" "\<And>t. error (threads s1 t) = error (threads s t)"
    using work_completion_loop_ok [OF kinv_critical(1) [OF assms(1)] si assms(3) locked_by_enter [OF assms(4-7)] st q assms(9)]
    by (auto simp: enter_critical_frame)
  obtain s' where s': "rt_exit_critical c s1 = Inr s'" "sems s' = sems s1"
    using exit_critical_returns [OF s1(2) assms(3) _ s1(4), of cur] s1(3) by (auto simp: locked_by_def)
  note e = kinv_critical(2-4) [OF s1(2)]
  have "kinv s'" "queues s' (SemQ i) = []" using e(1) [OF assms(3) s'(1)] e(2) [OF s'(1) _ assms(3), of "SemQ i"] s1(5) by simp_all
  moreover have "awake (thread_stat s' t) \<and> error (threads s' t) = error (threads s t)" if "t \<in> set (queues s (SemQ i))" for t
    using e(3) [OF s'(1) assms(3), of t] s1(7) [OF that] s1(8) [of t] by simp
  ultimately show ?thesis using s1(1,6) s' by (simp add: workqueue_work_completion_def)
qed

theorem work_completion_releases_all_witness:
  "\<exists>s'. workqueue_work_completion 2 0 7 demo_ready = Some (Inr (s', RT_EOK)) \<and> kinv s' \<and> sem_value (sems s' 7) = 0"
proof -
  have v: "sem_inv 7 demo_ready" "sem_value (sems demo_ready 7) = 0" "queues demo_ready (SemQ 7) = []"
    by (simp_all add: sem_inv_def demo_ready_waits demo_ready_objects blank_kernel_def flag_ok_def RT_IPC_FLAG_FIFO_def)
  show ?thesis
    using work_completion_releases_all [OF demo_kinv(2) v(1), of 0 4 2] v(2,3) by (auto simp: demo_ready_sel)
qed

lemma resume_user_timers:
  "timers (fst (rt_thread_resume c t s)) (UserTimer n) = timers s (UserTimer n)"
  "UserTimer n \<in> set (timer_q (fst (rt_thread_resume c t s)) q) \<longleftrightarrow> UserTimer n \<in> set (timer_q s q)"
  by (simp_all add: rt_thread_resume_def Let_def rt_timer_stop_def timer_remove_def)

text \<open>
  C40. A delayed work that is submitted once more without delay keeps its timer running. When the worker has taken the
  work in the meantime, the work does not know its queue any more, and the call-back of the timer fails its assertion.
\<close>

theorem delayed_resubmission_asserts:
  assumes "kinv s" and "wq_inv ws" and "c < RT_CPUS_NR" and "irq_nest (cpus s c) \<noteq> 0 \<or> preemptible c s"
    and "work_current (wqs ws k) = None" and "work_list (wqs ws k) = []" and "UserTimer w \<in> set (timer_q s SoftTimers)"
  shows "\<exists>ws1 s1. rt_workqueue_dowork c k w (ws, s) = Inr ((ws1, s1), RT_EOK) \<and> UserTimer w \<in> set (timer_q s1 SoftTimers)
    \<and> (\<forall>c2 s2. \<exists>ws2. workqueue_fetch c2 k (ws1, s2) = Inr ((ws2, s2), Some w)
         \<and> (\<forall>c3 s3. delayed_work_timeout_handler c3 w (ws2, s3) = Inl AssertFail))"
proof -
  obtain ws1 s1 where d: "rt_workqueue_dowork c k w (ws, s) = Inr ((ws1, s1), RT_EOK)" "work_list (wqs ws1 k) = [w]"
    using dowork_cases [OF assms(1-4), of k w] assms(5,6) by auto
  then obtain x where x: "wake_worker c k (x, s) = Inr (ws1, s1)"
    by (auto simp: rt_workqueue_dowork_def workqueue_submit_work_def Let_def)
  have "UserTimer w \<in> set (timer_q s1 SoftTimers)"
  proof (cases "s1 = s")
    case False
    then obtain t where r: "rt_schedule c (fst (rt_thread_resume c t s)) = Inr s1"
      using x by (auto simp: wake_worker_def split: if_splits)
    have "timer_q s1 = timer_q (fst (rt_thread_resume c t s))"
      using only_schedD(5) [OF kinv_rt_schedule(2) [OF kinv_resume [OF assms(1)] assms(3) r]] .
    then show ?thesis using assms(7) resume_user_timers(2) by simp
  qed (use assms(7) in simp)
  moreover have "\<exists>ws2. workqueue_fetch c2 k (ws1, s2) = Inr ((ws2, s2), Some w) \<and> workqueue (works ws2 w) = None" for c2 s2
    using d(2) by (simp add: workqueue_fetch_def Let_def)
  ultimately show ?thesis using d(1) unfolding delayed_work_timeout_handler_def timeout_queue_def by fastforce
qed

definition demo_delayed :: kernel where
  "demo_delayed = timer_enqueue (UserTimer 5) (timer_init (UserTimer 5) 10 RT_TIMER_FLAG_SOFT_TIMER demo_ready)"

lemma demo_delayed_ok:
  "kinv demo_delayed" "preemptible 0 demo_delayed" "UserTimer 5 \<in> set (timer_q demo_delayed SoftTimers)"
proof -
  let ?i = "timer_init (UserTimer 5) 10 RT_TIMER_FLAG_SOFT_TIMER demo_ready"
  note k = kinvD [OF demo_kinv(2)]
  have sel: "threads demo_delayed = threads demo_ready" "queues demo_delayed = queues demo_ready" "cpus demo_delayed = cpus demo_ready"
    "ready_priority_group demo_delayed = ready_priority_group demo_ready"
    by (simp_all add: demo_delayed_def timer_init_def timer_remove_def)
  have l: "timer_init_tick (timers ?i (UserTimer 5)) = 10" "timer_list_of (timers ?i (UserTimer 5)) = SoftTimers"
    by (simp_all add: timer_init_def deactivate_def timer_list_of_def RT_TIMER_FLAG_SOFT_TIMER_def RT_TIMER_FLAG_ACTIVATED_def)
  have "timers_wf demo_delayed" unfolding demo_delayed_def
    by (rule timers_wf_enqueue [OF timers_wf_user_init [OF k(2)]]) (simp add: l RT_TICK_HALF)
  moreover have q: "timer_q demo_delayed HardTimers = removeAll (UserTimer 5) (timer_q demo_ready HardTimers)"
    by (simp add: demo_delayed_def timer_enqueue_q l Let_def) (simp add: timer_init_def timer_remove_def)
  moreover have "sched_inv demo_delayed" by (rule sched_inv_frame [OF k(1)]) (simp_all add: sel)
  ultimately show "kinv demo_delayed"
    using k(3,4) by (auto simp: kinv_def waits_ok_def sleepers_ok_def sel thread_stat_def)
  show "preemptible 0 demo_delayed" by (rule preemptible_frame [OF demo_preemptible]) (simp_all add: sel thread_stat_def)
  show "UserTimer 5 \<in> set (timer_q demo_delayed SoftTimers)" by (simp add: demo_delayed_def timer_enqueue_q l Let_def)
qed

theorem delayed_resubmission_asserts_witness:
  "\<exists>ws1 s1 ws2. rt_workqueue_dowork 0 0 5 (demo_wq, demo_delayed) = Inr ((ws1, s1), RT_EOK) \<and> UserTimer 5 \<in> set (timer_q s1 SoftTimers)
    \<and> workqueue_fetch 0 0 (ws1, s1) = Inr ((ws2, s1), Some 5) \<and> delayed_work_timeout_handler 0 5 (ws2, s1) = Inl AssertFail"
proof -
  have w: "work_current (wqs demo_wq 0) = None" "work_list (wqs demo_wq 0) = []" by (simp_all add: demo_wq_def no_workqueues_def)
  have h: "irq_nest (cpus demo_delayed 0) \<noteq> 0 \<or> preemptible 0 demo_delayed" using demo_delayed_ok(2) by simp
  show ?thesis using delayed_resubmission_asserts [OF demo_delayed_ok(1) demo_wq_inv _ h w demo_delayed_ok(3)] by fastforce
qed

end
