(* ===== verification/Rt_Rbb.thy ===== *)
theory Rt_Rbb
  imports Rt_Smem_Spec
begin

unbundle bit_operations_syntax

text \<open>
  The ring block buffer of \<open>components/drivers/ipc/ringblk_buf.c\<close>: blocks of different sizes are allocated one behind
  the other in a circular buffer, filled in place, and taken in the order of their allocation. A descriptor is a number
  below \<open>blk_max_num\<close>; the two singly linked lists are lists of numbers, and \<open>tail\<close> is \<open>None\<close> when it points to the
  head of the block list. Addresses are words of 32 bits, the size of a block has 24 bits. The properties show that
  blocks never overlap, what allocation, taking and releasing do on every branch, and that creating and destroying a
  buffer leaves the system heap as it was; three defects have lemmas of their own.
\<close>

datatype rt_rbb_status = RT_RBB_BLK_UNUSED | RT_RBB_BLK_INITED | RT_RBB_BLK_PUT | RT_RBB_BLK_GET

record rt_rbb_blk =
  blk_status :: rt_rbb_status
  blk_size :: "24 word"
  blk_buf :: u32

record rt_rbb =
  rbb_buf :: u32
  rbb_buf_size :: u32
  blk_set :: "nat \<Rightarrow> rt_rbb_blk"
  blk_max_num :: u32
  blk_list :: "nat list"
  rbb_tail :: "nat option"
  rbb_free_list :: "nat list"

record rt_rbb_blk_queue =
  queue_blocks :: nat
  queue_blk_num :: u32

definition upd_blk :: "nat \<Rightarrow> (rt_rbb_blk \<Rightarrow> rt_rbb_blk) \<Rightarrow> rt_rbb \<Rightarrow> rt_rbb" where
  "upd_blk b f r = r\<lparr>blk_set := (blk_set r)(b := f (blk_set r b))\<rparr>"

subsection \<open>Initialisation\<close>

definition rbb_add_unused :: "nat \<Rightarrow> rt_rbb \<Rightarrow> rt_rbb" where
  "rbb_add_unused i r =
    (let r = upd_blk i (\<lambda>k. k\<lparr>blk_status := RT_RBB_BLK_UNUSED\<rparr>) r
     in r\<lparr>rbb_free_list := i # rbb_free_list r\<rparr>)"

definition rt_rbb_init :: "u32 \<Rightarrow> u32 \<Rightarrow> (nat \<Rightarrow> rt_rbb_blk) \<Rightarrow> u32 \<Rightarrow> rt_rbb res" where
  "rt_rbb_init buf sz block_set n =
    rt_assert (buf \<noteq> 0)
     (Inr (fold rbb_add_unused [0..<unat n]
       \<lparr>rbb_buf = buf, rbb_buf_size = sz, blk_set = block_set, blk_max_num = n, blk_list = [], rbb_tail = None,
        rbb_free_list = []\<rparr>))"

subsection \<open>Lists\<close>

definition find_empty_blk_in_set :: "rt_rbb \<Rightarrow> (nat option \<times> rt_rbb) res" where
  "find_empty_blk_in_set r = (case rbb_free_list r of [] \<Rightarrow> Inr (None, r)
    | b # bs \<Rightarrow>
       let r = r\<lparr>rbb_free_list := bs\<rparr>
       in rt_assert (blk_status (blk_set r b) = RT_RBB_BLK_UNUSED) (Inr (Some b, r)))"

text \<open>The node behind \<open>t\<close> becomes \<open>n\<close>, the last one, in whichever list \<open>t\<close> stands.\<close>

definition link_behind :: "nat \<Rightarrow> nat \<Rightarrow> nat list \<Rightarrow> nat list" where
  "link_behind t n xs = (if t \<in> set xs then takeWhile (\<lambda>x. x \<noteq> t) xs @ [t, n] else xs)"

definition list_append :: "nat \<Rightarrow> rt_rbb \<Rightarrow> rt_rbb" where
  "list_append n r =
    (let r = (case rbb_tail r of None \<Rightarrow> r\<lparr>blk_list := [n]\<rparr>
       | Some t \<Rightarrow> r\<lparr>blk_list := link_behind t n (blk_list r), rbb_free_list := link_behind t n (rbb_free_list r)\<rparr>)
     in r\<lparr>rbb_tail := Some n\<rparr>)"

definition list_remove :: "nat \<Rightarrow> rt_rbb \<Rightarrow> rt_rbb" where
  "list_remove n r =
    (if n \<in> set (blk_list r)
     then
       let before = takeWhile (\<lambda>x. x \<noteq> n) (blk_list r);
           r = r\<lparr>blk_list := remove1 n (blk_list r)\<rparr>
       in if rbb_tail r = Some n then r\<lparr>rbb_tail := (if before = [] then None else Some (last before))\<rparr> else r
     else r)"

subsection \<open>Blocks\<close>

text \<open>The end of each successful branch of \<open>rt_rbb_blk_alloc\<close>: the new block of \<open>n\<close> bytes at \<open>a\<close>.\<close>

definition rbb_place :: "nat \<Rightarrow> u32 \<Rightarrow> u32 \<Rightarrow> rt_rbb \<Rightarrow> rt_rbb" where
  "rbb_place b a n r =
    upd_blk b (\<lambda>k. k\<lparr>blk_status := RT_RBB_BLK_INITED, blk_buf := a, blk_size := ucast n\<rparr>) (list_append b r)"

definition blk_end :: "rt_rbb_blk \<Rightarrow> u32" where
  "blk_end k = blk_buf k + ucast (blk_size k)"

definition rt_rbb_blk_alloc :: "u32 \<Rightarrow> rt_rbb \<Rightarrow> (nat option \<times> rt_rbb) res" where
  "rt_rbb_blk_alloc n r =
    rt_assert (n < push_bit 24 1)
     (and_then (find_empty_blk_in_set r) (\<lambda>(new_rbb, r).
      case new_rbb of None \<Rightarrow> Inr (None, r)
      | Some b \<Rightarrow>
         if blk_list r \<noteq> []
         then case rbb_tail r of None \<Rightarrow> Inl OutOfBounds
           | Some t \<Rightarrow>
              let hd_blk = blk_set r (hd (blk_list r));
                  tl_blk = blk_set r t
              in if blk_buf hd_blk \<le> blk_buf tl_blk
                 then
                   let empty1 = (rbb_buf r + rbb_buf_size r) - blk_end tl_blk;
                       empty2 = blk_buf hd_blk - rbb_buf r
                   in if n \<le> empty1 then Inr (Some b, rbb_place b (blk_end tl_blk) n r)
                      else if n \<le> empty2 then Inr (Some b, rbb_place b (rbb_buf r) n r)
                      else Inr (None, r)
                 else
                   let empty1 = blk_buf hd_blk - blk_end tl_blk
                   in if n \<le> empty1 then Inr (Some b, rbb_place b (blk_end tl_blk) n r)
                      else Inr (None, r)
         else Inr (Some b, rbb_place b (rbb_buf r) n r)))"

definition rt_rbb_blk_put :: "nat \<Rightarrow> rt_rbb \<Rightarrow> rt_rbb res" where
  "rt_rbb_blk_put b r =
    rt_assert (blk_status (blk_set r b) = RT_RBB_BLK_INITED)
     (Inr (upd_blk b (\<lambda>k. k\<lparr>blk_status := RT_RBB_BLK_PUT\<rparr>) r))"

fun rbb_get_loop :: "nat list \<Rightarrow> rt_rbb \<Rightarrow> nat option \<times> rt_rbb" where
  "rbb_get_loop [] r = (None, r)"
| "rbb_get_loop (b # bs) r =
    (if blk_status (blk_set r b) = RT_RBB_BLK_PUT
     then (Some b, upd_blk b (\<lambda>k. k\<lparr>blk_status := RT_RBB_BLK_GET\<rparr>) r)
     else rbb_get_loop bs r)"

definition rt_rbb_blk_get :: "rt_rbb \<Rightarrow> nat option \<times> rt_rbb" where
  "rt_rbb_blk_get r = (if blk_list r = [] then (None, r) else rbb_get_loop (blk_list r) r)"

definition rt_rbb_blk_size :: "nat \<Rightarrow> rt_rbb \<Rightarrow> u32" where
  "rt_rbb_blk_size b r = ucast (blk_size (blk_set r b))"

definition rt_rbb_blk_buf :: "nat \<Rightarrow> rt_rbb \<Rightarrow> u32" where
  "rt_rbb_blk_buf b r = blk_buf (blk_set r b)"

definition rt_rbb_blk_free :: "nat \<Rightarrow> rt_rbb \<Rightarrow> rt_rbb res" where
  "rt_rbb_blk_free b r =
    rt_assert (blk_status (blk_set r b) \<noteq> RT_RBB_BLK_UNUSED)
     (let r = list_remove b r;
          r = upd_blk b (\<lambda>k. k\<lparr>blk_status := RT_RBB_BLK_UNUSED\<rparr>) r
      in Inr (r\<lparr>rbb_free_list := b # rbb_free_list r\<rparr>))"

subsection \<open>Queues of blocks\<close>

text \<open>
  The loop at node \<open>b\<close>, with the nodes behind it. The increment of the loop reads the successor of the next node
  even when there is no next node.
\<close>

fun queue_get_loop ::
  "u32 \<Rightarrow> nat list \<Rightarrow> nat option \<Rightarrow> u32 \<Rightarrow> rt_rbb_blk_queue \<Rightarrow> rt_rbb \<Rightarrow> (u32 \<times> rt_rbb_blk_queue \<times> rt_rbb) res" where
  "queue_get_loop len [] last_block sum_len q r = Inr (sum_len, q, r)"
| "queue_get_loop len (b # bs) last_block sum_len q r =
    (let pick = (\<lambda>q.
       let sum_len = sum_len + rt_rbb_blk_size b r;
           r = upd_blk b (\<lambda>k. k\<lparr>blk_status := RT_RBB_BLK_GET\<rparr>) r;
           q = q\<lparr>queue_blk_num := queue_blk_num q + 1\<rparr>
       in if bs = [] then Inl NullDeref else queue_get_loop len bs (Some b) sum_len q r)
     in case last_block of
       None \<Rightarrow>
         if blk_status (blk_set r b) = RT_RBB_BLK_PUT then pick (q\<lparr>queue_blocks := b, queue_blk_num := 0\<rparr>)
         else if bs = [] then Inl NullDeref else queue_get_loop len bs None sum_len q r
     | Some l \<Rightarrow>
         if blk_status (blk_set r b) \<noteq> RT_RBB_BLK_PUT \<or> blk_buf (blk_set r b) < blk_buf (blk_set r l)
            \<or> len < sum_len + rt_rbb_blk_size b r
         then Inr (sum_len, q, r)
         else pick q)"

definition rt_rbb_blk_queue_get ::
  "u32 \<Rightarrow> rt_rbb_blk_queue \<Rightarrow> rt_rbb \<Rightarrow> (u32 \<times> rt_rbb_blk_queue \<times> rt_rbb) res" where
  "rt_rbb_blk_queue_get len q r =
    (if blk_list r = [] then Inr (0, q, r) else queue_get_loop len (blk_list r) None 0 q r)"

fun successor :: "nat \<Rightarrow> nat list \<Rightarrow> nat option" where
  "successor b (x # y # xs) = (if x = b then Some y else successor b (y # xs))"
| "successor b xs = None"

text \<open>The \<open>next\<close> of a block, in the list in which it stands.\<close>

definition blk_next :: "nat \<Rightarrow> rt_rbb \<Rightarrow> nat option" where
  "blk_next b r = successor b (if b \<in> set (blk_list r) then blk_list r else rbb_free_list r)"

fun queue_len_loop :: "nat \<Rightarrow> nat option \<Rightarrow> u32 \<Rightarrow> rt_rbb \<Rightarrow> u32 res" where
  "queue_len_loop 0 b sum_len r = Inr sum_len"
| "queue_len_loop (Suc k) b sum_len r = (case b of None \<Rightarrow> Inl NullDeref
    | Some b \<Rightarrow> queue_len_loop k (blk_next b r) (sum_len + rt_rbb_blk_size b r) r)"

definition rt_rbb_blk_queue_len :: "rt_rbb_blk_queue \<Rightarrow> rt_rbb \<Rightarrow> u32 res" where
  "rt_rbb_blk_queue_len q r = queue_len_loop (unat (queue_blk_num q)) (Some (queue_blocks q)) 0 r"

definition rt_rbb_blk_queue_buf :: "rt_rbb_blk_queue \<Rightarrow> rt_rbb \<Rightarrow> u32" where
  "rt_rbb_blk_queue_buf q r = blk_buf (blk_set r (queue_blocks q))"

fun queue_free_loop :: "nat \<Rightarrow> nat option \<Rightarrow> rt_rbb \<Rightarrow> rt_rbb res" where
  "queue_free_loop 0 b r = Inr r"
| "queue_free_loop (Suc k) b r = (case b of None \<Rightarrow> Inl NullDeref
    | Some b \<Rightarrow>
       let next_blk = blk_next b r
       in and_then (rt_rbb_blk_free b r) (\<lambda>r. queue_free_loop k next_blk r))"

definition rt_rbb_blk_queue_free :: "rt_rbb_blk_queue \<Rightarrow> rt_rbb \<Rightarrow> rt_rbb res" where
  "rt_rbb_blk_queue_free q r = queue_free_loop (unat (queue_blk_num q)) (Some (queue_blocks q)) r"

fun next_queue_len_loop :: "nat list \<Rightarrow> nat option \<Rightarrow> u32 \<Rightarrow> rt_rbb \<Rightarrow> u32" where
  "next_queue_len_loop [] last_block len r = len"
| "next_queue_len_loop (b # bs) last_block len r = (case last_block of
     None \<Rightarrow>
       if blk_status (blk_set r b) \<noteq> RT_RBB_BLK_PUT then next_queue_len_loop bs None len r
       else next_queue_len_loop bs (Some b) (len + rt_rbb_blk_size b r) r
   | Some l \<Rightarrow>
       if blk_status (blk_set r b) \<noteq> RT_RBB_BLK_PUT \<or> blk_buf (blk_set r b) < blk_buf (blk_set r l) then len
       else next_queue_len_loop bs (Some b) (len + rt_rbb_blk_size b r) r)"

definition rt_rbb_next_blk_queue_len :: "rt_rbb \<Rightarrow> u32" where
  "rt_rbb_next_blk_queue_len r = (if blk_list r = [] then 0 else next_queue_len_loop (blk_list r) None 0 r)"

definition rt_rbb_get_buf_size :: "rt_rbb \<Rightarrow> u32" where
  "rt_rbb_get_buf_size r = rbb_buf_size r"

subsection \<open>Creation on the system heap\<close>

text \<open>\<open>struct rt_rbb\<close> has 28 bytes, \<open>struct rt_rbb_blk\<close> 12. A pointer is the offset of a block in the heap.\<close>

record rbb_handle =
  rbb_ptr :: u32
  buf_ptr :: u32
  blk_set_ptr :: u32

definition rt_rbb_create ::
  "u32 \<Rightarrow> u32 \<Rightarrow> (nat \<Rightarrow> rt_rbb_blk) \<Rightarrow> rt_small_mem \<Rightarrow> (rt_small_mem \<times> (rbb_handle \<times> rt_rbb) option) res" where
  "rt_rbb_create sz n mem h =
    and_then (rt_smem_alloc 28 h) (\<lambda>(h, p). case p of None \<Rightarrow> Inr (h, None)
    | Some rbb \<Rightarrow> and_then (rt_smem_alloc sz h) (\<lambda>(h, p). case p of
        None \<Rightarrow> and_then (rt_smem_free (Some rbb) h) (\<lambda>h. Inr (h, None))
      | Some buf \<Rightarrow> and_then (rt_smem_alloc (12 * n) h) (\<lambda>(h, p). case p of
          None \<Rightarrow> and_then (rt_smem_free (Some buf) h) (\<lambda>h. and_then (rt_smem_free (Some rbb) h) (\<lambda>h. Inr (h, None)))
        | Some blks \<Rightarrow> and_then (rt_rbb_init (heap_ptr h + buf) sz mem n) (\<lambda>r.
            Inr (h, Some (\<lparr>rbb_ptr = rbb, buf_ptr = buf, blk_set_ptr = blks\<rparr>, r))))))"

definition rt_rbb_destroy :: "rbb_handle \<Rightarrow> rt_small_mem \<Rightarrow> rt_small_mem res" where
  "rt_rbb_destroy p h =
    and_then (rt_smem_free (Some (buf_ptr p)) h) (\<lambda>h.
    and_then (rt_smem_free (Some (blk_set_ptr p)) h) (\<lambda>h. rt_smem_free (Some (rbb_ptr p)) h))"

subsection \<open>The invariant\<close>

text \<open>
  In the order of allocation the blocks are a rotation of an ascending sequence: those in front of the wrap, then
  those behind it, which lie below.
\<close>

definition ring_order :: "('a \<Rightarrow> 'a \<Rightarrow> bool) \<Rightarrow> 'a list \<Rightarrow> bool" where
  "ring_order P xs \<longleftrightarrow> (\<exists>H L. xs = H @ L \<and> (H = [] \<longrightarrow> L = []) \<and> sorted_wrt P (L @ H))"

abbreviation blk_lo :: "rt_rbb \<Rightarrow> nat \<Rightarrow> nat" where
  "blk_lo r b \<equiv> unat (blk_buf (blk_set r b))"

abbreviation blk_hi :: "rt_rbb \<Rightarrow> nat \<Rightarrow> nat" where
  "blk_hi r b \<equiv> blk_lo r b + unat (blk_size (blk_set r b))"

definition blk_before :: "rt_rbb \<Rightarrow> nat \<Rightarrow> nat \<Rightarrow> bool" where
  "blk_before r b b' \<longleftrightarrow> blk_hi r b \<le> blk_lo r b'"

definition blk_inside :: "rt_rbb \<Rightarrow> nat \<Rightarrow> bool" where
  "blk_inside r b \<longleftrightarrow> unat (rbb_buf r) \<le> blk_lo r b \<and> blk_lo r b < blk_hi r b
    \<and> blk_hi r b \<le> unat (rbb_buf r) + unat (rbb_buf_size r)"

definition rbb_wf :: "rt_rbb \<Rightarrow> bool" where
  "rbb_wf r \<longleftrightarrow> unat (rbb_buf r) + unat (rbb_buf_size r) < 2 ^ 32
    \<and> distinct (blk_list r @ rbb_free_list r) \<and> set (blk_list r @ rbb_free_list r) \<subseteq> {..<unat (blk_max_num r)}
    \<and> (\<forall>b < unat (blk_max_num r). b \<in> set (blk_list r) \<longleftrightarrow> blk_status (blk_set r b) \<noteq> RT_RBB_BLK_UNUSED)
    \<and> (\<forall>b \<in> set (blk_list r). blk_inside r b)
    \<and> rbb_tail r = (if blk_list r = [] then None else Some (last (blk_list r)))
    \<and> ring_order (blk_before r) (blk_list r)"

lemma ring_order_Nil [simp]: "ring_order P []"
  by (simp add: ring_order_def)

lemma ring_orderI: "xs = H @ L \<Longrightarrow> sorted_wrt P (L @ H) \<Longrightarrow> ring_order P xs"
  unfolding ring_order_def by (cases H) (rule exI [of _ L], simp, blast)

lemma ring_orderE:
  assumes "ring_order P xs"
  obtains H L where "xs = H @ L" "xs \<noteq> [] \<Longrightarrow> H \<noteq> []" "sorted_wrt P (L @ H)"
  using assms unfolding ring_order_def by blast

lemma ring_order_filter:
  assumes "ring_order P xs"
  shows "ring_order P (filter Q xs)"
proof -
  obtain H L where x: "xs = H @ L" "sorted_wrt P (L @ H)" using assms by (rule ring_orderE)
  show ?thesis
  proof (rule ring_orderI)
    show "filter Q xs = filter Q H @ filter Q L" using x(1) by simp
    show "sorted_wrt P (filter Q L @ filter Q H)" using x(2) by (metis filter_append sorted_wrt_filter)
  qed
qed

lemma ring_order_cong:
  assumes "ring_order P xs" and "\<And>x y. x \<in> set xs \<Longrightarrow> y \<in> set xs \<Longrightarrow> P x y \<Longrightarrow> Q x y"
  shows "ring_order Q xs"
proof -
  obtain H L where x: "xs = H @ L" "sorted_wrt P (L @ H)" using assms(1) by (rule ring_orderE)
  have "sorted_wrt Q (L @ H)" by (rule sorted_wrt_mono_rel [OF _ x(2)]) (use x(1) assms(2) in auto)
  with x(1) show ?thesis by (rule ring_orderI)
qed

lemma sorted_wrt_total: "sorted_wrt P xs \<Longrightarrow> x \<in> set xs \<Longrightarrow> y \<in> set xs \<Longrightarrow> x \<noteq> y \<Longrightarrow> P x y \<or> P y x"
  by (induction xs) auto

lemma ring_order_total:
  assumes "ring_order P xs" "x \<in> set xs" "y \<in> set xs" "x \<noteq> y"
  shows "P x y \<or> P y x"
proof -
  obtain H L where x: "xs = H @ L" "sorted_wrt P (L @ H)" using assms(1) by (rule ring_orderE)
  then show ?thesis using sorted_wrt_total [OF x(2), of x y] assms(2-4) by auto
qed

lemma before_hd: "sorted_wrt (blk_before r) xs \<Longrightarrow> x \<in> set xs \<Longrightarrow> blk_lo r (hd xs) \<le> blk_lo r x"
  by (cases xs) (auto simp: blk_before_def)

lemma before_last:
  assumes "sorted_wrt (blk_before r) xs" "x \<in> set xs"
  shows "blk_hi r x \<le> blk_hi r (last xs)"
proof (cases "x = last xs")
  case False
  obtain ys z where xs: "xs = ys @ [z]" using assms(2) by (cases xs rule: rev_cases) auto
  then have "blk_before r x z" using assms False by (auto simp: sorted_wrt_append)
  then show ?thesis using xs by (simp add: blk_before_def)
qed simp

lemma unwrapped:
  assumes "ring_order (blk_before r) xs" "\<forall>b \<in> set xs. blk_lo r b < blk_hi r b" "xs \<noteq> []"
    "blk_lo r (hd xs) \<le> blk_lo r (last xs)"
  shows "sorted_wrt (blk_before r) xs"
proof -
  obtain H L where x: "xs = H @ L" "H \<noteq> []" "sorted_wrt (blk_before r) (L @ H)"
    using assms(1,3) by (metis ring_orderE)
  have "L = []"
  proof (rule ccontr)
    assume L: "L \<noteq> []"
    then have "blk_before r (last L) (hd H)" using x(2,3) by (auto simp: sorted_wrt_append)
    moreover have "blk_lo r (last L) < blk_hi r (last L)" using assms(2) x(1) L by auto
    ultimately show False using assms(4) x(1,2) L by (simp add: blk_before_def)
  qed
  then show ?thesis using x(1,3) by simp
qed

lemma wrapped:
  assumes "ring_order (blk_before r) xs" "\<forall>b \<in> set xs. blk_lo r b < blk_hi r b" "xs \<noteq> []"
    "blk_lo r (last xs) < blk_lo r (hd xs)"
  obtains H L where "xs = H @ L" "H \<noteq> []" "L \<noteq> []" "sorted_wrt (blk_before r) (L @ H)"
proof -
  obtain H L where x: "xs = H @ L" "H \<noteq> []" "sorted_wrt (blk_before r) (L @ H)"
    using assms(1,3) by (metis ring_orderE)
  have "L \<noteq> []"
  proof
    assume "L = []"
    then show False using before_hd [of r xs "last xs"] x(1,3) assms(3,4) by auto
  qed
  with x that show thesis by blast
qed

subsection \<open>Allocation\<close>

text \<open>Where a block of \<open>n\<close> bytes goes, on natural numbers: behind the newest block, or to the start of the buffer.\<close>

definition rbb_spot :: "rt_rbb \<Rightarrow> nat \<Rightarrow> nat option" where
  "rbb_spot r n =
    (if blk_list r = [] then Some (unat (rbb_buf r))
     else
       let oldest = blk_lo r (hd (blk_list r)); newest = last (blk_list r)
       in if oldest \<le> blk_lo r newest
          then if blk_hi r newest + n \<le> unat (rbb_buf r) + unat (rbb_buf_size r) then Some (blk_hi r newest)
               else if unat (rbb_buf r) + n \<le> oldest then Some (unat (rbb_buf r))
               else None
          else if blk_hi r newest + n \<le> oldest then Some (blk_hi r newest) else None)"

lemma unat_diff_le_iff:
  "unat b \<le> unat a \<Longrightarrow> n \<le> a - b \<longleftrightarrow> unat b + unat n \<le> unat a" for a b n :: u32
  by (simp add: word_le_nat_alt unat_sub_if') linarith

lemma link_behind_last: "distinct xs \<Longrightarrow> xs \<noteq> [] \<Longrightarrow> link_behind (last xs) n xs = xs @ [n]"
proof (induction xs rule: rev_induct)
  case (snoc x xs)
  then have "takeWhile (\<lambda>y. y \<noteq> x) xs = xs" by (auto simp: takeWhile_eq_all_conv)
  then show ?case by (simp add: link_behind_def takeWhile_append)
qed simp

lemma link_behind_other [simp]: "t \<notin> set xs \<Longrightarrow> link_behind t n xs = xs"
  by (simp add: link_behind_def)

definition rbb_alloc_at :: "nat \<Rightarrow> nat list \<Rightarrow> nat \<Rightarrow> u32 \<Rightarrow> rt_rbb \<Rightarrow> rt_rbb" where
  "rbb_alloc_at b bs a n r = r\<lparr>rbb_free_list := bs, blk_list := blk_list r @ [b], rbb_tail := Some b,
     blk_set := (blk_set r)(b := \<lparr>blk_status = RT_RBB_BLK_INITED, blk_size = ucast n, blk_buf = of_nat a\<rparr>)\<rparr>"

lemma rbb_place_alloc:
  assumes "rbb_wf r" "rbb_free_list r = b # bs"
  shows "rbb_place b a n (r\<lparr>rbb_free_list := bs\<rparr>) = rbb_alloc_at b bs (unat a) n r"
proof -
  have w: "distinct (blk_list r)" "blk_list r \<noteq> [] \<Longrightarrow> last (blk_list r) \<notin> set bs"
    "rbb_tail r = (if blk_list r = [] then None else Some (last (blk_list r)))"
    using assms by (auto simp: rbb_wf_def)
  show ?thesis
    by (cases "blk_list r = []")
      (simp_all add: w rbb_place_def rbb_alloc_at_def list_append_def upd_blk_def link_behind_last fun_eq_iff)
qed

lemma rbb_wf_nowrap: "rbb_wf r \<Longrightarrow> unat (rbb_buf r + rbb_buf_size r) = unat (rbb_buf r) + unat (rbb_buf_size r)"
  by (simp add: rbb_wf_def unat_word_ariths)

lemma rbb_wf_inside: "rbb_wf r \<Longrightarrow> b \<in> set (blk_list r) \<Longrightarrow> blk_inside r b"
  by (simp add: rbb_wf_def)

lemma unat_blk_end:
  assumes "rbb_wf r" "b \<in> set (blk_list r)"
  shows "unat (blk_end (blk_set r b)) = blk_hi r b"
proof -
  have "blk_hi r b < 2 ^ 32" using assms by (auto simp: rbb_wf_def blk_inside_def)
  then show ?thesis by (simp add: blk_end_def unat_word_ariths unat_ucast_up)
qed

lemma rbb_wf_positive: "rbb_wf r \<Longrightarrow> \<forall>b \<in> set (blk_list r). blk_lo r b < blk_hi r b"
  by (simp add: rbb_wf_def blk_inside_def)

text \<open>The code's comparisons of differences of pointers, on natural numbers.\<close>

lemma alloc_tests:
  assumes "rbb_wf r" "blk_list r = x # xs"
  shows "blk_buf (blk_set r x) \<le> blk_buf (blk_set r (last (x # xs))) \<longleftrightarrow> blk_lo r x \<le> blk_lo r (last (x # xs))"
    and "n \<le> rbb_buf r + rbb_buf_size r - blk_end (blk_set r (last (x # xs)))
      \<longleftrightarrow> blk_hi r (last (x # xs)) + unat n \<le> unat (rbb_buf r) + unat (rbb_buf_size r)"
    and "n \<le> blk_buf (blk_set r x) - rbb_buf r \<longleftrightarrow> unat (rbb_buf r) + unat n \<le> blk_lo r x"
    and "\<not> blk_lo r x \<le> blk_lo r (last (x # xs)) \<Longrightarrow>
      n \<le> blk_buf (blk_set r x) - blk_end (blk_set r (last (x # xs))) \<longleftrightarrow> blk_hi r (last (x # xs)) + unat n \<le> blk_lo r x"
proof -
  have mem: "last (x # xs) \<in> set (blk_list r)" "x \<in> set (blk_list r)" using assms(2) by auto
  note ins = rbb_wf_inside [OF assms(1) mem(1)] rbb_wf_inside [OF assms(1) mem(2)]
  note e = unat_blk_end [OF assms(1) mem(1)] rbb_wf_nowrap [OF assms(1)]
  show "blk_buf (blk_set r x) \<le> blk_buf (blk_set r (last (x # xs))) \<longleftrightarrow> blk_lo r x \<le> blk_lo r (last (x # xs))"
    by (simp add: word_le_nat_alt)
  have "unat (blk_end (blk_set r (last (x # xs)))) \<le> unat (rbb_buf r + rbb_buf_size r)"
    unfolding e using ins(1) by (simp only: blk_inside_def)
  from unat_diff_le_iff [OF this, of n] show "n \<le> rbb_buf r + rbb_buf_size r - blk_end (blk_set r (last (x # xs)))
      \<longleftrightarrow> blk_hi r (last (x # xs)) + unat n \<le> unat (rbb_buf r) + unat (rbb_buf_size r)"
    unfolding e .
  have "unat (rbb_buf r) \<le> blk_lo r x" using ins(2) by (simp add: blk_inside_def)
  from unat_diff_le_iff [OF this, of n]
  show "n \<le> blk_buf (blk_set r x) - rbb_buf r \<longleftrightarrow> unat (rbb_buf r) + unat n \<le> blk_lo r x" .
  assume w: "\<not> blk_lo r x \<le> blk_lo r (last (x # xs))"
  have ne: "last (x # xs) \<noteq> x" using w by auto
  have "ring_order (blk_before r) (blk_list r)" using assms(1) by (simp add: rbb_wf_def)
  from ring_order_total [OF this mem ne] have "blk_before r (last (x # xs)) x"
    using w ins(2) by (auto simp: blk_before_def)
  then have "unat (blk_end (blk_set r (last (x # xs)))) \<le> blk_lo r x" unfolding e blk_before_def .
  from unat_diff_le_iff [OF this, of n]
  show "n \<le> blk_buf (blk_set r x) - blk_end (blk_set r (last (x # xs))) \<longleftrightarrow> blk_hi r (last (x # xs)) + unat n \<le> blk_lo r x"
    unfolding e .
qed

text \<open>
  \<open>rt_rbb_blk_alloc\<close> on every branch. Without a free descriptor nothing happens. Otherwise the first free
  descriptor is taken; an empty buffer gives its start, whatever the size; a buffer whose newest block lies above the
  oldest gives the room up to the end, and when that is too small the room below the oldest block; a buffer that has
  wrapped gives the room between the newest and the oldest block. The new block is the last of the list and in state
  \<open>INITED\<close>. When there is no room, the buffer is left alone but for the descriptor, which is lost.
\<close>

lemma rbb_alloc_spec:
  assumes "rbb_wf r" and "unat n < 2 ^ 24"
  shows "rt_rbb_blk_alloc n r = Inr (case rbb_free_list r of [] \<Rightarrow> (None, r)
    | b # bs \<Rightarrow> (case rbb_spot r (unat n) of None \<Rightarrow> (None, r\<lparr>rbb_free_list := bs\<rparr>)
        | Some a \<Rightarrow> (Some b, rbb_alloc_at b bs a n r)))"
proof (cases "rbb_free_list r")
  case Nil
  then show ?thesis using assms(2) by (simp add: rt_rbb_blk_alloc_def find_empty_blk_in_set_def word_less_nat_alt)
next
  case (Cons b bs)
  have n: "n < push_bit 24 1" using assms(2) by (simp add: word_less_nat_alt)
  have "b < unat (blk_max_num r)" "b \<notin> set (blk_list r)" using assms(1) Cons by (auto simp: rbb_wf_def)
  then have st: "blk_status (blk_set r b) = RT_RBB_BLK_UNUSED" using assms(1) by (auto simp: rbb_wf_def)
  note [simp] = rbb_place_alloc [OF assms(1) Cons]
  show ?thesis
  proof (cases "blk_list r")
    case Nil
    then show ?thesis using n st Cons by (simp add: rt_rbb_blk_alloc_def find_empty_blk_in_set_def rbb_spot_def)
  next
    case L: (Cons x xs)
    have tl: "rbb_tail r = Some (last (x # xs))" using assms(1) L by (simp add: rbb_wf_def)
    have e: "unat (blk_end (blk_set r (last (x # xs)))) = blk_hi r (last (x # xs))"
      using unat_blk_end [OF assms(1), of "last (x # xs)"] L by auto
    note t = alloc_tests [OF assms(1) L]
    show ?thesis using n st Cons
      by (simp add: rt_rbb_blk_alloc_def find_empty_blk_in_set_def rbb_spot_def L tl Let_def t e del: last.simps cong: if_cong)
  qed
qed

lemma rbb_alloc_positions:
  assumes "rbb_wf r" "rbb_spot r n = Some a" "0 < n" "n \<le> unat (rbb_buf_size r)"
  shows "unat (rbb_buf r) \<le> a" "a + n \<le> unat (rbb_buf r) + unat (rbb_buf_size r)"
proof -
  show "unat (rbb_buf r) \<le> a"
  proof (cases "blk_list r = []")
    case False
    then show ?thesis using assms rbb_wf_inside [OF assms(1), of "last (blk_list r)"]
      by (auto simp: rbb_spot_def Let_def blk_inside_def split: if_splits)
  qed (use assms in \<open>simp add: rbb_spot_def\<close>)
  show "a + n \<le> unat (rbb_buf r) + unat (rbb_buf_size r)"
  proof (cases "blk_list r = []")
    case False
    then show ?thesis using assms rbb_wf_inside [OF assms(1), of "hd (blk_list r)"]
      by (auto simp: rbb_spot_def Let_def blk_inside_def split: if_splits)
  qed (use assms in \<open>simp add: rbb_spot_def\<close>)
qed

text \<open>The new block keeps the order, where \<open>Q\<close> is the order after the allocation.\<close>

lemma rbb_spot_order:
  assumes "rbb_wf r" "rbb_spot r n = Some a" "0 < n"
    and Q: "\<And>x y. x \<in> set (blk_list r) \<Longrightarrow> y \<in> set (blk_list r) \<Longrightarrow> Q x y = blk_before r x y"
      "\<And>x. x \<in> set (blk_list r) \<Longrightarrow> Q b x \<longleftrightarrow> a + n \<le> blk_lo r x"
      "\<And>x. x \<in> set (blk_list r) \<Longrightarrow> Q x b \<longleftrightarrow> blk_hi r x \<le> a"
  shows "ring_order Q (blk_list r @ [b])"
proof (cases "blk_list r = []")
  case True
  then show ?thesis by (simp add: ring_orderI [of _ "[b]" "[]"])
next
  case False
  let ?xs = "blk_list r"
  have ro: "ring_order (blk_before r) ?xs" using assms(1) by (simp add: rbb_wf_def)
  note pos = rbb_wf_positive [OF assms(1)]
  have S: "sorted_wrt Q zs" if "sorted_wrt (blk_before r) zs" "set zs \<subseteq> set ?xs" for zs
    by (rule sorted_wrt_mono_rel [OF _ that(1)]) (use that(2) Q(1) in auto)
  show ?thesis
  proof (cases "blk_lo r (hd ?xs) \<le> blk_lo r (last ?xs)")
    case True
    note so = unwrapped [OF ro pos False True]
    consider "a = blk_hi r (last ?xs)" | "a + n \<le> blk_lo r (hd ?xs)"
      using assms(2) False True by (auto simp: rbb_spot_def Let_def split: if_splits)
    then show ?thesis
    proof cases
      case 1
      have "sorted_wrt Q (?xs @ [b])" using S [OF so] before_last [OF so] Q(3) 1 by (simp add: sorted_wrt_append)
      then show ?thesis by (intro ring_orderI [of _ "?xs @ [b]" "[]"]) simp_all
    next
      case 2
      have "Q b x" if "x \<in> set ?xs" for x using Q(2) [OF that] before_hd [OF so that] 2 by simp
      then have "sorted_wrt Q ([b] @ ?xs)" using S [OF so] by simp
      then show ?thesis by (intro ring_orderI [of _ ?xs "[b]"]) simp_all
    qed
  next
    case W: False
    then obtain H L where x: "?xs = H @ L" "H \<noteq> []" "L \<noteq> []" "sorted_wrt (blk_before r) (L @ H)"
      using wrapped [OF ro pos False] by (metis not_le)
    have a: "a = blk_hi r (last L)" "a + n \<le> blk_lo r (hd H)"
      using assms(2) False W x by (auto simp: rbb_spot_def Let_def split: if_splits)
    have so: "sorted_wrt (blk_before r) L" "sorted_wrt (blk_before r) H" using x(4) by (auto simp: sorted_wrt_append)
    have "Q y b" if "y \<in> set L" for y using Q(3) [of y] before_last [OF so(1) that] that x(1) a(1) by simp
    moreover have "Q b y" if "y \<in> set H" for y using Q(2) [of y] before_hd [OF so(2) that] that x(1) a(2) by simp
    moreover have "sorted_wrt Q (L @ H)" using S [OF x(4)] x(1) by auto
    ultimately have "sorted_wrt Q ((L @ [b]) @ H)" by (auto simp: sorted_wrt_append)
    then show ?thesis by (intro ring_orderI [of _ H "L @ [b]"]) (simp_all add: x(1))
  qed
qed

lemma rbb_alloc_wf:
  assumes "rbb_wf r" "0 < unat n" "unat n < 2 ^ 24" "unat n \<le> unat (rbb_buf_size r)" "rt_rbb_blk_alloc n r = Inr (x, r')"
  shows "rbb_wf r'"
proof (cases "rbb_free_list r")
  case Nil
  then show ?thesis using rbb_alloc_spec [OF assms(1,3)] assms(1,5) by simp
next
  case (Cons b bs)
  have b: "b \<notin> set (blk_list r)" "b \<notin> set bs" "b < unat (blk_max_num r)" using assms(1) Cons by (auto simp: rbb_wf_def)
  show ?thesis
  proof (cases "rbb_spot r (unat n)")
    case None
    then have "r' = r\<lparr>rbb_free_list := bs\<rparr>" using rbb_alloc_spec [OF assms(1,3)] Cons assms(5) by simp
    then show ?thesis using assms(1) Cons by (auto simp: rbb_wf_def blk_inside_def blk_before_def [abs_def])
  next
    case (Some a)
    then have r': "r' = rbb_alloc_at b bs a n r" using rbb_alloc_spec [OF assms(1,3)] Cons assms(5) by simp
    note p = rbb_alloc_positions [OF assms(1) Some assms(2,4)]
    have bound: "unat (rbb_buf r) + unat (rbb_buf_size r) < 2 ^ 32" using assms(1) by (simp add: rbb_wf_def)
    have n: "unat (ucast n :: 24 word) = unat n" using assms(3) by simp
    have a: "unat (of_nat a :: u32) = a" using p(2) assms(2) bound by simp
    have ro: "ring_order (blk_before r') (blk_list r @ [b])"
      by (rule rbb_spot_order [OF assms(1) Some assms(2)]) (use b(1) in \<open>auto simp: r' rbb_alloc_at_def blk_before_def n a\<close>)
    have ins: "blk_inside r' y" if "y \<in> set (blk_list r @ [b])" for y
      using that rbb_wf_inside [OF assms(1), of y] b(1) p assms(2) by (auto simp: r' rbb_alloc_at_def blk_inside_def n a)
    have set: "set (blk_list r') = insert b (set (blk_list r))" "rbb_free_list r' = bs" "blk_max_num r' = blk_max_num r"
      "blk_list r' = blk_list r @ [b]" "rbb_tail r' = Some b" "rbb_buf r' = rbb_buf r" "rbb_buf_size r' = rbb_buf_size r"
      by (auto simp: r' rbb_alloc_at_def)
    have st: "blk_status (blk_set r' y) = (if y = b then RT_RBB_BLK_INITED else blk_status (blk_set r y))" for y
      by (simp add: r' rbb_alloc_at_def)
    show ?thesis using assms(1) Cons b ro ins by (auto simp: rbb_wf_def set st)
  qed
qed

subsection \<open>The other operations keep the invariant\<close>

lemma upd_blk_simps [simp]:
  "rbb_buf (upd_blk b f r) = rbb_buf r" "rbb_buf_size (upd_blk b f r) = rbb_buf_size r"
  "blk_max_num (upd_blk b f r) = blk_max_num r" "blk_list (upd_blk b f r) = blk_list r"
  "rbb_tail (upd_blk b f r) = rbb_tail r" "rbb_free_list (upd_blk b f r) = rbb_free_list r"
  "blk_set (upd_blk b f r) = (blk_set r)(b := f (blk_set r b))"
  by (simp_all add: upd_blk_def)

text \<open>The invariant does not change with the state of a block in the list.\<close>

lemma rbb_wf_status:
  assumes "rbb_wf r" "b \<in> set (blk_list r)" "st \<noteq> RT_RBB_BLK_UNUSED"
  shows "rbb_wf (upd_blk b (\<lambda>k. k\<lparr>blk_status := st\<rparr>) r)"
proof -
  let ?r = "upd_blk b (\<lambda>k. k\<lparr>blk_status := st\<rparr>) r"
  have "ring_order (blk_before ?r) (blk_list r)"
    by (rule ring_order_cong [of "blk_before r"]) (use assms(1) in \<open>auto simp: rbb_wf_def blk_before_def\<close>)
  moreover have "blk_inside ?r y = blk_inside r y" for y by (simp add: blk_inside_def)
  ultimately show ?thesis using assms by (auto simp: rbb_wf_def)
qed

lemma rbb_wf_live: "rbb_wf r \<Longrightarrow> b < unat (blk_max_num r) \<Longrightarrow> b \<in> set (blk_list r) \<longleftrightarrow> blk_status (blk_set r b) \<noteq> RT_RBB_BLK_UNUSED"
  by (simp add: rbb_wf_def)

lemma rbb_put_wf:
  "rbb_wf r \<Longrightarrow> b < unat (blk_max_num r) \<Longrightarrow> rt_rbb_blk_put b r = Inr r' \<Longrightarrow> rbb_wf r'"
  using rbb_wf_live [of r b] by (auto simp: rt_rbb_blk_put_def intro: rbb_wf_status)

text \<open>Taking marks the oldest block that has been put.\<close>

lemma rbb_get_loop_find:
  "rbb_get_loop bs r = (case find (\<lambda>b. blk_status (blk_set r b) = RT_RBB_BLK_PUT) bs of None \<Rightarrow> (None, r)
    | Some b \<Rightarrow> (Some b, upd_blk b (\<lambda>k. k\<lparr>blk_status := RT_RBB_BLK_GET\<rparr>) r))"
  by (induction bs) auto

lemma rbb_get_find:
  "rt_rbb_blk_get r = (case find (\<lambda>b. blk_status (blk_set r b) = RT_RBB_BLK_PUT) (blk_list r) of None \<Rightarrow> (None, r)
    | Some b \<Rightarrow> (Some b, upd_blk b (\<lambda>k. k\<lparr>blk_status := RT_RBB_BLK_GET\<rparr>) r))"
  by (simp add: rt_rbb_blk_get_def rbb_get_loop_find)

lemma rbb_get_wf: "rbb_wf r \<Longrightarrow> rbb_wf (snd (rt_rbb_blk_get r))"
  by (auto simp: rbb_get_find find_Some_iff in_set_conv_nth split: option.split intro!: rbb_wf_status)

lemma takeWhile_last_remove:
  assumes "distinct xs" "n \<in> set xs"
  shows "(if last xs = n then if takeWhile (\<lambda>x. x \<noteq> n) xs = [] then None else Some (last (takeWhile (\<lambda>x. x \<noteq> n) xs))
      else Some (last xs))
    = (if remove1 n xs = [] then None else Some (last (remove1 n xs)))"
proof -
  obtain ys zs where xs: "xs = ys @ n # zs" "n \<notin> set ys" using assms(2) by (metis split_list_first)
  have zs: "n \<notin> set zs" using assms(1) xs(1) by simp
  have "takeWhile (\<lambda>x. x \<noteq> n) xs = ys" using xs by (auto simp: takeWhile_append takeWhile_eq_all_conv)
  moreover have "remove1 n xs = ys @ zs" using xs by (simp add: remove1_append)
  moreover have "last xs = n \<longleftrightarrow> zs = []" using xs(1) zs by (cases zs rule: rev_cases) auto
  ultimately show ?thesis using xs(1) by auto
qed

lemma rbb_free_eq:
  assumes "rbb_wf r" "b \<in> set (blk_list r)"
  shows "rt_rbb_blk_free b r = Inr (r\<lparr>rbb_free_list := b # rbb_free_list r, blk_list := remove1 b (blk_list r),
      rbb_tail := (if remove1 b (blk_list r) = [] then None else Some (last (remove1 b (blk_list r)))),
      blk_set := (blk_set r)(b := (blk_set r b)\<lparr>blk_status := RT_RBB_BLK_UNUSED\<rparr>)\<rparr>)"
proof -
  have w: "distinct (blk_list r)" "b < unat (blk_max_num r)" "rbb_tail r = Some (last (blk_list r))"
    using assms by (auto simp: rbb_wf_def)
  have "blk_status (blk_set r b) \<noteq> RT_RBB_BLK_UNUSED" using rbb_wf_live [OF assms(1) w(2)] assms(2) by simp
  then show ?thesis using takeWhile_last_remove [OF w(1) assms(2)] assms(2)
    by (auto simp: rt_rbb_blk_free_def list_remove_def w(3) Let_def upd_blk_def)
qed

lemma rbb_free_wf:
  assumes "rbb_wf r" "b < unat (blk_max_num r)" "rt_rbb_blk_free b r = Inr r'"
  shows "rbb_wf r'" "b \<in> set (blk_list r)" "blk_max_num r' = blk_max_num r"
proof -
  have "blk_status (blk_set r b) \<noteq> RT_RBB_BLK_UNUSED" using assms(3) by (simp add: rt_rbb_blk_free_def)
  then show b: "b \<in> set (blk_list r)" using rbb_wf_live [OF assms(1,2)] by simp
  have d: "distinct (blk_list r)" using assms(1) by (simp add: rbb_wf_def)
  have r': "blk_list r' = remove1 b (blk_list r)" "rbb_free_list r' = b # rbb_free_list r" "blk_max_num r' = blk_max_num r"
    "rbb_tail r' = (if blk_list r' = [] then None else Some (last (blk_list r')))" "rbb_buf r' = rbb_buf r"
    "rbb_buf_size r' = rbb_buf_size r"
    "blk_set r' = (blk_set r)(b := (blk_set r b)\<lparr>blk_status := RT_RBB_BLK_UNUSED\<rparr>)"
    using rbb_free_eq [OF assms(1) b] assms(3) by auto
  have set: "set (blk_list r') = set (blk_list r) - {b}" using d by (simp add: r'(1))
  have "ring_order (blk_before r) (blk_list r)" using assms(1) by (simp add: rbb_wf_def)
  then have "ring_order (blk_before r) (blk_list r')"
    using ring_order_filter [of "blk_before r" "blk_list r" "\<lambda>x. b \<noteq> x"] by (simp add: r'(1) distinct_remove1_removeAll [OF d] removeAll_filter_not_eq)
  then have "ring_order (blk_before r') (blk_list r')"
    by (rule ring_order_cong) (auto simp: blk_before_def r'(7))
  moreover have "blk_inside r' y = blk_inside r y" for y by (simp add: blk_inside_def r'(5-7))
  ultimately show "rbb_wf r'" using assms(1) b d by (auto simp: rbb_wf_def r'(1-7))
  show "blk_max_num r' = blk_max_num r" by (rule r'(3))
qed

lemma queue_get_loop_wf:
  assumes "rbb_wf r" "set bs \<subseteq> set (blk_list r)" "queue_get_loop len bs l t q r = Inr (t', q', r')"
  shows "rbb_wf r' \<and> blk_max_num r' = blk_max_num r"
  using assms
proof (induction bs arbitrary: l t q r)
  case (Cons b bs)
  let ?r = "upd_blk b (\<lambda>k. k\<lparr>blk_status := RT_RBB_BLK_GET\<rparr>) r"
  have w: "rbb_wf ?r" using Cons.prems by (intro rbb_wf_status) auto
  have s: "set bs \<subseteq> set (blk_list ?r)" "set bs \<subseteq> set (blk_list r)" using Cons.prems(2) by auto
  consider (go) l q t where "queue_get_loop len bs l t q ?r = Inr (t', q', r')"
    | (skip) "queue_get_loop len bs None t q r = Inr (t', q', r')" | (stop) "r' = r"
    using Cons.prems(3) by (simp add: Let_def split: option.splits if_splits)
  then show ?case
  proof cases
    case go
    from Cons.IH [OF w s(1) go] show ?thesis by simp
  next
    case skip
    from Cons.IH [OF Cons.prems(1) s(2) skip] show ?thesis .
  qed (use Cons.prems(1) in simp)
qed simp

lemma blk_next_less:
  assumes "rbb_wf r" "blk_next b r = Some b'"
  shows "b' < unat (blk_max_num r)"
proof -
  have "successor b xs = Some y \<Longrightarrow> y \<in> set xs" for xs y by (induction xs rule: successor.induct) (auto split: if_splits)
  then have "b' \<in> set (blk_list r @ rbb_free_list r)" using assms(2) by (auto simp: blk_next_def split: if_splits)
  then show ?thesis using assms(1) by (auto simp: rbb_wf_def)
qed

lemma queue_free_loop_wf:
  assumes "rbb_wf r" "\<And>x. b = Some x \<Longrightarrow> x < unat (blk_max_num r)" "queue_free_loop k b r = Inr r'"
  shows "rbb_wf r' \<and> blk_max_num r' = blk_max_num r"
  using assms
proof (induction k arbitrary: b r)
  case (Suc k)
  then obtain x r1 where x: "b = Some x" "rt_rbb_blk_free x r = Inr r1" "queue_free_loop k (blk_next x r) r1 = Inr r'"
    by (auto split: option.splits)
  note f = rbb_free_wf [OF Suc.prems(1) Suc.prems(2) [OF x(1)] x(2)]
  have "y < unat (blk_max_num r1)" if "blk_next x r = Some y" for y using blk_next_less [OF Suc.prems(1) that] f(3) by simp
  from Suc.IH [OF f(1) this x(3)] f(3) show ?case by simp
qed simp

lemma rbb_add_unused_all:
  "fold rbb_add_unused [0..<n] r = r\<lparr>rbb_free_list := rev [0..<n] @ rbb_free_list r,
     blk_set := (\<lambda>b. if b < n then (blk_set r b)\<lparr>blk_status := RT_RBB_BLK_UNUSED\<rparr> else blk_set r b)\<rparr>"
  by (induction n) (auto simp: rbb_add_unused_def upd_blk_def fun_eq_iff)

lemma rbb_init_wf:
  assumes "rt_rbb_init buf sz mem n = Inr r" "unat buf + unat sz < 2 ^ 32"
  shows "rbb_wf r" "blk_list r = []" "rbb_buf r = buf" "rbb_buf_size r = sz" "blk_max_num r = n"
    "rbb_free_list r = rev [0..<unat n]"
  using assms by (auto simp: rt_rbb_init_def rbb_add_unused_all rbb_wf_def)

subsection \<open>Runs\<close>

text \<open>
  The operations, on blocks of the buffer, with sizes between one byte and the size of the buffer. Nothing is said
  of the order of the calls.
\<close>

inductive rbb_step :: "rt_rbb \<Rightarrow> rt_rbb \<Rightarrow> bool" where
  alloc: "0 < n \<Longrightarrow> n \<le> rbb_buf_size r \<Longrightarrow> rt_rbb_blk_alloc n r = Inr (x, r') \<Longrightarrow> rbb_step r r'"
| put: "b < unat (blk_max_num r) \<Longrightarrow> rt_rbb_blk_put b r = Inr r' \<Longrightarrow> rbb_step r r'"
| get: "rt_rbb_blk_get r = (x, r') \<Longrightarrow> rbb_step r r'"
| free: "b < unat (blk_max_num r) \<Longrightarrow> rt_rbb_blk_free b r = Inr r' \<Longrightarrow> rbb_step r r'"
| queue_get: "rt_rbb_blk_queue_get len q r = Inr (k, q', r') \<Longrightarrow> rbb_step r r'"
| queue_free: "queue_blocks q < unat (blk_max_num r) \<Longrightarrow> rt_rbb_blk_queue_free q r = Inr r' \<Longrightarrow> rbb_step r r'"

lemma rbb_alloc_small: "rt_rbb_blk_alloc n r = Inr x \<Longrightarrow> unat n < 2 ^ 24"
  by (simp add: rt_rbb_blk_alloc_def word_less_nat_alt)

lemma rbb_step_wf: "rbb_step r r' \<Longrightarrow> rbb_wf r \<Longrightarrow> rbb_wf r'"
proof (induction rule: rbb_step.induct)
  case (alloc n r x r')
  show ?case
    by (rule rbb_alloc_wf [OF alloc(4) _ rbb_alloc_small [OF alloc(3)] _ alloc(3)])
      (use alloc(1,2) in \<open>simp_all add: word_less_nat_alt word_le_nat_alt\<close>)
next
  case (put b r r')
  then show ?case by (metis rbb_put_wf)
next
  case (get r x r')
  then show ?case using rbb_get_wf [of r] by simp
next
  case (free b r r')
  then show ?case by (metis rbb_free_wf(1))
next
  case (queue_get len q r k q' r')
  then show ?case using queue_get_loop_wf [of r "blk_list r" len None 0 q k q' r']
    by (auto simp: rt_rbb_blk_queue_get_def split: if_splits)
next
  case (queue_free q r r')
  then show ?case using queue_free_loop_wf [of r "Some (queue_blocks q)"] by (auto simp: rt_rbb_blk_queue_free_def)
qed

lemma rbb_run_wf: "rbb_step\<^sup>*\<^sup>* r r' \<Longrightarrow> rbb_wf r \<Longrightarrow> rbb_wf r'"
  by (induction rule: rtranclp_induct) (auto dest: rbb_step_wf)

text \<open>The buffer itself is never changed.\<close>

definition rbb_config :: "rt_rbb \<Rightarrow> u32 \<times> u32 \<times> u32" where
  "rbb_config r = (rbb_buf r, rbb_buf_size r, blk_max_num r)"

lemma rbb_config_simps [simp]:
  "rbb_config (upd_blk b f r) = rbb_config r" "rbb_config (rbb_place b a n r) = rbb_config r"
  "rbb_config (list_remove b r) = rbb_config r" "rbb_config (r\<lparr>rbb_free_list := bs\<rparr>) = rbb_config r"
  by (simp_all add: rbb_config_def rbb_place_def list_append_def list_remove_def Let_def split: option.split)

lemma rbb_config_alloc: "rt_rbb_blk_alloc n r = Inr (x, r') \<Longrightarrow> rbb_config r' = rbb_config r"
  by (auto simp: rt_rbb_blk_alloc_def find_empty_blk_in_set_def Let_def split: list.splits option.splits if_splits)

lemma rbb_config_free: "rt_rbb_blk_free b r = Inr r' \<Longrightarrow> rbb_config r' = rbb_config r"
  by (auto simp: rt_rbb_blk_free_def Let_def)

lemma rbb_config_queue_get: "queue_get_loop len bs l t q r = Inr (t', q', r') \<Longrightarrow> rbb_config r' = rbb_config r"
proof (induction bs arbitrary: l t q r)
  case (Cons b bs)
  let ?r = "upd_blk b (\<lambda>k. k\<lparr>blk_status := RT_RBB_BLK_GET\<rparr>) r"
  consider (go) l q t where "queue_get_loop len bs l t q ?r = Inr (t', q', r')"
    | (skip) "queue_get_loop len bs None t q r = Inr (t', q', r')" | (stop) "r' = r"
    using Cons.prems by (simp add: Let_def split: option.splits if_splits)
  then show ?case by cases (use Cons.IH in fastforce)+
qed simp

lemma rbb_config_queue_free: "queue_free_loop k b r = Inr r' \<Longrightarrow> rbb_config r' = rbb_config r"
  by (induction k arbitrary: b r) (fastforce dest: rbb_config_free split: option.splits)+

lemma rbb_step_config: "rbb_step r r' \<Longrightarrow> rbb_config r' = rbb_config r"
  by (induction rule: rbb_step.induct)
    (auto simp: rbb_config_alloc rbb_config_free rt_rbb_blk_put_def rbb_get_find rt_rbb_blk_queue_get_def
      rt_rbb_blk_queue_free_def rbb_config_queue_free rbb_config_queue_get split: option.splits if_splits)

lemma rbb_run_config: "rbb_step\<^sup>*\<^sup>* r r' \<Longrightarrow> rbb_config r' = rbb_config r"
  by (induction rule: rtranclp_induct) (auto dest: rbb_step_config)

text \<open>
  C11. Blocks never overlap. From \<open>rt_rbb_init\<close> on, whatever the order in which blocks of at least one byte and at
  most the size of the buffer are allocated, put, taken and released, alone or as queues, every block that is not
  unused lies in the buffer, and two of them have no byte in common.
\<close>

theorem rbb_blocks_disjoint:
  assumes "rt_rbb_init buf sz mem n = Inr r0" and "unat buf + unat sz < 2 ^ 32" and "rbb_step\<^sup>*\<^sup>* r0 r"
    and "b < unat n" and "blk_status (blk_set r b) \<noteq> RT_RBB_BLK_UNUSED"
    and "b' < unat n" and "blk_status (blk_set r b') \<noteq> RT_RBB_BLK_UNUSED" and "b \<noteq> b'"
  shows "unat buf \<le> blk_lo r b \<and> blk_lo r b < blk_hi r b \<and> blk_hi r b \<le> unat buf + unat sz
    \<and> (blk_hi r b \<le> blk_lo r b' \<or> blk_hi r b' \<le> blk_lo r b)"
proof -
  note ini = rbb_init_wf [OF assms(1,2)]
  have wf: "rbb_wf r" using rbb_run_wf [OF assms(3)] ini by simp
  have c: "rbb_buf r = buf" "rbb_buf_size r = sz" "blk_max_num r = n"
    using rbb_run_config [OF assms(3)] ini by (simp_all add: rbb_config_def)
  have "b \<in> set (blk_list r)" "b' \<in> set (blk_list r)" using rbb_wf_live [OF wf] assms(4-7) c by blast+
  moreover have "ring_order (blk_before r) (blk_list r)" using wf by (simp add: rbb_wf_def)
  ultimately show ?thesis using ring_order_total [of "blk_before r" "blk_list r" b b'] rbb_wf_inside [OF wf, of b] assms(8)
    by (simp add: blk_before_def blk_inside_def c)
qed

subsection \<open>The block queue as a specification\<close>

text \<open>
  The size of the buffer, the free descriptors, and the blocks in the order of their allocation: descriptor, state,
  offset in the buffer and length.
\<close>

type_synonym block_queue = "nat \<times> nat list \<times> (nat \<times> rt_rbb_status \<times> nat \<times> nat) list"

datatype rbb_op = RbbAlloc u32 | RbbPut nat | RbbGet | RbbFree nat

definition rbb_op_step :: "rbb_op \<Rightarrow> rt_rbb \<Rightarrow> (rt_rbb \<times> nat option) res" where
  "rbb_op_step x r = (case x of
     RbbAlloc n \<Rightarrow> and_then (rt_rbb_blk_alloc n r) (\<lambda>(b, r). Inr (r, b))
   | RbbPut b \<Rightarrow> and_then (rt_rbb_blk_put b r) (\<lambda>r. Inr (r, None))
   | RbbGet \<Rightarrow> (case rt_rbb_blk_get r of (b, r) \<Rightarrow> Inr (r, b))
   | RbbFree b \<Rightarrow> and_then (rt_rbb_blk_free b r) (\<lambda>r. Inr (r, None)))"

definition set_state :: "nat \<Rightarrow> rt_rbb_status \<Rightarrow> (nat \<times> rt_rbb_status \<times> nat \<times> nat) list \<Rightarrow> (nat \<times> rt_rbb_status \<times> nat \<times> nat) list" where
  "set_state b st = map (\<lambda>(c, s, x). (c, if c = b then st else s, x))"

definition gap :: "nat \<Rightarrow> (nat \<times> rt_rbb_status \<times> nat \<times> nat) list \<Rightarrow> nat \<Rightarrow> nat option" where
  "gap sz bs n = (if bs = [] then Some 0 else
     (case (hd bs, last bs) of ((_, _, oldest, _), (_, _, p, l)) \<Rightarrow>
        if oldest \<le> p
        then if p + l + n \<le> sz then Some (p + l) else if n \<le> oldest then Some 0 else None
        else if p + l + n \<le> oldest then Some (p + l) else None))"

definition rbb_spec :: "rbb_op \<Rightarrow> block_queue \<Rightarrow> (block_queue \<times> nat option) option" where
  "rbb_spec x = (\<lambda>(sz, fs, bs). case x of
     RbbAlloc n \<Rightarrow>
       if 0 < unat n \<and> unat n < 2 ^ 24 \<and> unat n \<le> sz
       then Some (case fs of [] \<Rightarrow> ((sz, fs, bs), None)
         | b # fs' \<Rightarrow> (case gap sz bs (unat n) of None \<Rightarrow> ((sz, fs', bs), None)
             | Some a \<Rightarrow> ((sz, fs', bs @ [(b, RT_RBB_BLK_INITED, a, unat n)]), Some b)))
       else None
   | RbbPut b \<Rightarrow>
       if list_ex (\<lambda>(c, st, _). c = b \<and> st = RT_RBB_BLK_INITED) bs then Some ((sz, fs, set_state b RT_RBB_BLK_PUT bs), None)
       else None
   | RbbGet \<Rightarrow> Some (case find (\<lambda>(_, st, _). st = RT_RBB_BLK_PUT) bs of None \<Rightarrow> ((sz, fs, bs), None)
       | Some (b, _) \<Rightarrow> ((sz, fs, set_state b RT_RBB_BLK_GET bs), Some b))
   | RbbFree b \<Rightarrow>
       if list_ex (\<lambda>(c, _). c = b) bs then Some ((sz, b # fs, filter (\<lambda>(c, _). c \<noteq> b) bs), None) else None)"

definition blk_view :: "rt_rbb \<Rightarrow> nat \<Rightarrow> nat \<times> rt_rbb_status \<times> nat \<times> nat" where
  "blk_view r b = (b, blk_status (blk_set r b), blk_lo r b - unat (rbb_buf r), unat (blk_size (blk_set r b)))"

definition rbb_abs :: "rt_rbb \<Rightarrow> block_queue" where
  "rbb_abs r = (unat (rbb_buf_size r), rbb_free_list r, map (blk_view r) (blk_list r))"

definition rbb_rel :: "rt_rbb \<Rightarrow> block_queue \<Rightarrow> bool" where
  "rbb_rel r a \<longleftrightarrow> rbb_wf r \<and> rbb_abs r = a"

lemma gap_spot:
  assumes "rbb_wf r" "0 < n"
  shows "gap (unat (rbb_buf_size r)) (map (blk_view r) (blk_list r)) n
    = map_option (\<lambda>a. a - unat (rbb_buf r)) (rbb_spot r n)"
proof (cases "blk_list r = []")
  case True
  then show ?thesis by (simp add: gap_def rbb_spot_def)
next
  case False
  have i: "blk_inside r (hd (blk_list r))" "blk_inside r (last (blk_list r))"
    using rbb_wf_inside [OF assms(1)] False by simp_all
  then show ?thesis using False
    by (simp add: gap_def rbb_spot_def Let_def hd_map last_map blk_view_def blk_inside_def) linarith
qed

lemma map_view_upd:
  assumes "distinct bs"
  shows "map (blk_view (upd_blk b (\<lambda>k. k\<lparr>blk_status := st\<rparr>) r)) bs = set_state b st (map (blk_view r) bs)"
  by (simp add: set_state_def blk_view_def)

lemma find_view: "find (\<lambda>(_, st, _). st = s) (map (blk_view r) bs)
    = map_option (blk_view r) (find (\<lambda>b. blk_status (blk_set r b) = s) bs)"
  by (induction bs) (auto simp: blk_view_def)

lemma rbb_alloc_sim:
  assumes "rbb_wf r" "0 < unat n" "unat n < 2 ^ 24" "unat n \<le> unat (rbb_buf_size r)" "rbb_free_list r = b # bs"
    "rbb_spot r (unat n) = Some a"
  shows "rbb_abs (rbb_alloc_at b bs a n r)
    = (unat (rbb_buf_size r), bs, map (blk_view r) (blk_list r) @ [(b, RT_RBB_BLK_INITED, a - unat (rbb_buf r), unat n)])"
proof -
  have b: "b \<notin> set (blk_list r)" "unat (rbb_buf r) + unat (rbb_buf_size r) < 2 ^ 32" using assms(1,5) by (auto simp: rbb_wf_def)
  have a: "a < 2 ^ 32" using rbb_alloc_positions(2) [OF assms(1,6,2,4)] b(2) by simp
  show ?thesis using b(1) a assms(3) by (auto simp: rbb_abs_def rbb_alloc_at_def blk_view_def)
qed

interpretation rbb_sim: simulation rbb_op_step rbb_spec rbb_rel
proof
  fix r a x a' y
  assume rel: "rbb_rel r a" and sp: "rbb_spec x a = Some (a', y)"
  have wf: "rbb_wf r" and a: "a = (unat (rbb_buf_size r), rbb_free_list r, map (blk_view r) (blk_list r))"
    using rel by (simp_all add: rbb_rel_def rbb_abs_def)
  have d: "distinct (blk_list r)" using wf by (simp add: rbb_wf_def)
  show "\<exists>r'. rbb_op_step x r = Inr (r', y) \<and> rbb_rel r' a'"
  proof (cases x)
    case (RbbAlloc n)
    then have n: "0 < unat n" "unat n < 2 ^ 24" "unat n \<le> unat (rbb_buf_size r)"
      using sp unfolding a by (simp_all add: rbb_spec_def del: unat_eq_zero split: if_split_asm)
    obtain w where "rt_rbb_blk_alloc n r = Inr w" using rbb_alloc_spec [OF wf n(2)] by blast
    then obtain z r' where al: "rt_rbb_blk_alloc n r = Inr (z, r')" by (cases w) simp
    have w: "rbb_wf r'" by (rule rbb_alloc_wf [OF wf n al])
    show ?thesis
    proof (cases "rbb_free_list r")
      case Nil
      then show ?thesis using sp w al rbb_alloc_spec [OF wf n(2)] RbbAlloc n
        by (simp add: rbb_spec_def rbb_op_step_def a rbb_rel_def rbb_abs_def)
    next
      case (Cons b bs)
      show ?thesis
      proof (cases "rbb_spot r (unat n)")
        case None
        then have "z = None" "r' = r\<lparr>rbb_free_list := bs\<rparr>" using al rbb_alloc_spec [OF wf n(2)] Cons by simp_all
        moreover have "blk_view (r\<lparr>rbb_free_list := bs\<rparr>) = blk_view r" by (simp add: blk_view_def fun_eq_iff)
        ultimately show ?thesis using sp w al RbbAlloc n Cons None gap_spot [OF wf n(1)]
          by (simp add: rbb_spec_def rbb_op_step_def a rbb_rel_def rbb_abs_def)
      next
        case (Some p)
        then have "z = Some b" "r' = rbb_alloc_at b bs p n r" using al rbb_alloc_spec [OF wf n(2)] Cons by simp_all
        then show ?thesis using sp w al RbbAlloc n Cons Some gap_spot [OF wf n(1)] rbb_alloc_sim [OF wf n Cons Some]
          by (simp add: rbb_spec_def rbb_op_step_def a rbb_rel_def)
      qed
    qed
  next
    case (RbbPut b)
    then have b: "b \<in> set (blk_list r)" "blk_status (blk_set r b) = RT_RBB_BLK_INITED"
      "a' = (unat (rbb_buf_size r), rbb_free_list r, set_state b RT_RBB_BLK_PUT (map (blk_view r) (blk_list r)))" "y = None"
      using sp by (auto simp: rbb_spec_def a blk_view_def list_ex_iff split: if_splits)
    have "rbb_wf (upd_blk b (\<lambda>k. k\<lparr>blk_status := RT_RBB_BLK_PUT\<rparr>) r)" by (rule rbb_wf_status [OF wf b(1)]) simp
    then show ?thesis using RbbPut b
      by (simp add: rbb_op_step_def rt_rbb_blk_put_def rbb_rel_def rbb_abs_def map_view_upd [OF d])
  next
    case RbbGet
    show ?thesis
    proof (cases "find (\<lambda>b. blk_status (blk_set r b) = RT_RBB_BLK_PUT) (blk_list r)")
      case None
      then show ?thesis using sp RbbGet wf
        by (simp add: rbb_spec_def a find_view rbb_op_step_def rbb_get_find rbb_rel_def rbb_abs_def)
    next
      case (Some b)
      then have "b \<in> set (blk_list r)" by (auto simp: find_Some_iff)
      then have "rbb_wf (upd_blk b (\<lambda>k. k\<lparr>blk_status := RT_RBB_BLK_GET\<rparr>) r)" by (intro rbb_wf_status [OF wf]) simp_all
      moreover have "rt_rbb_blk_get r = (Some b, upd_blk b (\<lambda>k. k\<lparr>blk_status := RT_RBB_BLK_GET\<rparr>) r)"
        using Some by (simp add: rbb_get_find)
      ultimately show ?thesis using sp RbbGet Some
        by (auto simp: rbb_spec_def a find_view rbb_op_step_def rbb_rel_def rbb_abs_def map_view_upd [OF d] blk_view_def [of r b])
    qed
  next
    case (RbbFree b)
    then have b: "b \<in> set (blk_list r)" "y = None"
      "a' = (unat (rbb_buf_size r), b # rbb_free_list r, filter (\<lambda>(c, _). c \<noteq> b) (map (blk_view r) (blk_list r)))"
      using sp by (auto simp: rbb_spec_def a blk_view_def list_ex_iff split: if_splits)
    have lt: "b < unat (blk_max_num r)" using wf b(1) by (auto simp: rbb_wf_def)
    have "filter (\<lambda>(c, _). c \<noteq> b) (map (blk_view r) (blk_list r)) = map (blk_view r) (remove1 b (blk_list r))"
      by (simp add: distinct_remove1_removeAll [OF d] removeAll_filter_not_eq filter_map comp_def blk_view_def neq_commute)
    moreover obtain r' where r': "rt_rbb_blk_free b r = Inr r'" using rbb_free_eq [OF wf b(1)] by simp
    moreover have "map (blk_view r') (remove1 b (blk_list r)) = map (blk_view r) (remove1 b (blk_list r))"
      using r' d by (auto simp: rbb_free_eq [OF wf b(1)] blk_view_def)
    ultimately show ?thesis using RbbFree b rbb_free_wf(1) [OF wf lt r'] rbb_free_eq [OF wf b(1)]
      by (auto simp: rbb_op_step_def rbb_rel_def rbb_abs_def)
  qed
qed

text \<open>
  C12. The buffer is a queue of blocks in a ring. From \<open>rt_rbb_init\<close> on, any sequence of allocations of 1 to
  \<open>buf_size\<close> bytes below \<open>2 ^ 24\<close>, puts of allocated blocks, takes and releases of live blocks gives the answers of
  a list of blocks in order of allocation: a block is placed behind the newest one, or at the start of the buffer when
  the end is too small, taking gives the oldest block that was put, and no assertion fails.
\<close>

theorem rbb_refines_block_queue:
  assumes "rt_rbb_init buf sz mem n = Inr r" and "unat buf + unat sz < 2 ^ 32"
    and "spec_runs rbb_spec xs (unat sz, rev [0..<unat n], []) = Some (a, outs)"
  shows "\<exists>r'. runs rbb_op_step xs r = Inr (r', outs) \<and> rbb_wf r' \<and> rbb_abs r' = a"
proof -
  have "rbb_rel r (unat sz, rev [0..<unat n], [])"
    using rbb_init_wf [OF assms(1,2)] by (simp add: rbb_rel_def rbb_abs_def)
  from rbb_sim.runs_sim [OF this assms(3)] show ?thesis by (simp add: rbb_rel_def)
qed

text \<open>
  A buffer of ten bytes at \<open>0x80000000\<close> with three descriptors: two blocks of four bytes, the first put, taken and
  released, and a third block that only fits at the start.
\<close>

definition demo_rbb_mem :: "nat \<Rightarrow> rt_rbb_blk" where
  "demo_rbb_mem = (\<lambda>_. \<lparr>blk_status = RT_RBB_BLK_GET, blk_size = 0, blk_buf = 0\<rparr>)"

definition demo_rbb :: rt_rbb where
  "demo_rbb = (case rt_rbb_init 0x80000000 10 demo_rbb_mem 3 of Inr r \<Rightarrow> r | Inl _ \<Rightarrow> undefined)"

definition demo_rbb_ops :: "rbb_op list" where
  "demo_rbb_ops = [RbbAlloc 4, RbbAlloc 4, RbbPut 1, RbbPut 2, RbbGet, RbbFree 2, RbbAlloc 3, RbbGet]"

lemma demo_rbb_init: "rt_rbb_init 0x80000000 10 demo_rbb_mem 3 = Inr demo_rbb"
  by (simp add: demo_rbb_def rt_rbb_init_def)

lemma demo_rbb_free_list: "rbb_free_list demo_rbb = [2, 1, 0]"
  by (simp add: rbb_init_wf(6) [OF demo_rbb_init, simplified] upt_rec numeral_2_eq_2)

lemmas demo_rbb_facts = rbb_init_wf(1-5) [OF demo_rbb_init, simplified] demo_rbb_free_list

theorem rbb_refines_block_queue_witness:
  "\<exists>r'. runs rbb_op_step demo_rbb_ops demo_rbb = Inr (r', [Some 2, Some 1, None, None, Some 2, None, Some 2, Some 1])
    \<and> rbb_wf r' \<and> rbb_abs r' = (10, [0], [(1, RT_RBB_BLK_GET, 4, 4), (2, RT_RBB_BLK_INITED, 0, 3)])"
proof -
  have "spec_runs rbb_spec demo_rbb_ops (unat (10 :: u32), rev [0..<unat (3 :: u32)], [])
    = Some ((10, [0], [(1, RT_RBB_BLK_GET, 4, 4), (2, RT_RBB_BLK_INITED, 0, 3)]), [Some 2, Some 1, None, None, Some 2, None, Some 2, Some 1])"
    by (simp add: demo_rbb_ops_def rbb_spec_def gap_def set_state_def upt_rec)
  from rbb_refines_block_queue [OF demo_rbb_init _ this] show ?thesis by simp
qed

text \<open>The second of three blocks of a buffer that is full, and the first when the second was put first.\<close>

theorem rbb_blocks_disjoint_witness:
  "\<exists>r. rbb_step\<^sup>*\<^sup>* demo_rbb r \<and> blk_status (blk_set r 1) = RT_RBB_BLK_INITED \<and> blk_status (blk_set r 2) = RT_RBB_BLK_INITED
    \<and> blk_hi r 2 \<le> blk_lo r 1"
proof -
  note ini = demo_rbb_facts
  let ?r1 = "rbb_alloc_at 2 [1, 0] 0x80000000 4 demo_rbb"
  let ?r2 = "rbb_alloc_at 1 [0] 0x80000004 6 ?r1"
  have a1: "rt_rbb_blk_alloc 4 demo_rbb = Inr (Some 2, ?r1)"
    using rbb_alloc_spec [OF ini(1), of 4] by (simp add: ini(2-6) rbb_spot_def)
  have w1: "rbb_wf ?r1" by (rule rbb_alloc_wf [OF ini(1) _ _ _ a1]) (simp_all add: ini)
  have a2: "rt_rbb_blk_alloc 6 ?r1 = Inr (Some 1, ?r2)"
    using rbb_alloc_spec [OF w1, of 6] by (simp add: ini rbb_spot_def rbb_alloc_at_def)
  have s1: "rbb_step demo_rbb ?r1" by (rule rbb_step.alloc [OF _ _ a1]) (simp_all add: ini)
  have s2: "rbb_step ?r1 ?r2" by (rule rbb_step.alloc [OF _ _ a2]) (simp_all add: ini rbb_alloc_at_def)
  have st: "rbb_step\<^sup>*\<^sup>* demo_rbb ?r2" using s1 s2 by simp
  have "blk_hi ?r2 2 \<le> blk_lo ?r2 1"
    using rbb_blocks_disjoint [OF demo_rbb_init _ st, of 2 1] by (simp add: rbb_alloc_at_def)
  moreover have "blk_status (blk_set ?r2 1) = RT_RBB_BLK_INITED" "blk_status (blk_set ?r2 2) = RT_RBB_BLK_INITED"
    by (simp_all add: rbb_alloc_at_def)
  ultimately show ?thesis using st by blast
qed

subsection \<open>Queues of blocks\<close>

text \<open>The blocks behind \<open>l\<close> that are taken with it, when \<open>k\<close> bytes are taken already.\<close>

fun queue_behind :: "u32 \<Rightarrow> rt_rbb \<Rightarrow> nat \<Rightarrow> u32 \<Rightarrow> nat list \<Rightarrow> nat list" where
  "queue_behind len r l k [] = []"
| "queue_behind len r l k (b # bs) =
    (if blk_status (blk_set r b) \<noteq> RT_RBB_BLK_PUT \<or> blk_buf (blk_set r b) < blk_buf (blk_set r l)
       \<or> len < k + rt_rbb_blk_size b r
     then [] else b # queue_behind len r b (k + rt_rbb_blk_size b r) bs)"

definition mark_got :: "nat list \<Rightarrow> rt_rbb \<Rightarrow> rt_rbb" where
  "mark_got bs r = fold (\<lambda>b. upd_blk b (\<lambda>k. k\<lparr>blk_status := RT_RBB_BLK_GET\<rparr>)) bs r"

definition blocks_len :: "nat list \<Rightarrow> rt_rbb \<Rightarrow> u32" where
  "blocks_len bs r = sum_list (map (\<lambda>b. rt_rbb_blk_size b r) bs)"

lemma blk_size_upd [simp]: "rt_rbb_blk_size b (upd_blk c (\<lambda>k. k\<lparr>blk_status := st\<rparr>) r) = rt_rbb_blk_size b r"
  by (simp add: rt_rbb_blk_size_def)

lemma blocks_len_upd [simp]: "blocks_len bs (upd_blk c (\<lambda>k. k\<lparr>blk_status := st\<rparr>) r) = blocks_len bs r"
  by (simp add: blocks_len_def)

lemma queue_behind_upd:
  "c \<notin> set bs \<Longrightarrow> queue_behind len (upd_blk c (\<lambda>k. k\<lparr>blk_status := st\<rparr>) r) l k bs = queue_behind len r l k bs"
  by (induction len r l k bs rule: queue_behind.induct) auto

lemma queue_behind_prefix: "\<exists>rest. bs = queue_behind len r l k bs @ rest"
  by (induction len r l k bs rule: queue_behind.induct) auto

lemma queue_get_behind:
  assumes "distinct bs" "bs \<noteq> []"
  shows "queue_get_loop len bs (Some l) k q r =
    (let qs = queue_behind len r l k bs in
     if length qs = length bs then Inl NullDeref
     else Inr (k + blocks_len qs r, q\<lparr>queue_blk_num := queue_blk_num q + of_nat (length qs)\<rparr>, mark_got qs r))"
  using assms
proof (induction bs arbitrary: l k q r)
  case (Cons b bs)
  have b: "b \<notin> set bs" "distinct bs" using Cons.prems(1) by auto
  show ?case
  proof (cases "bs = []")
    case True
    then show ?thesis by (simp add: Let_def mark_got_def blocks_len_def)
  next
    case False
    show ?thesis using Cons.IH [OF b(2) False] False b(1)
      by (auto simp: Let_def queue_behind_upd mark_got_def blocks_len_def algebra_simps)
  qed
qed simp

text \<open>The blocks that \<open>rt_rbb_blk_queue_get\<close> looks at: from the first block on that was put.\<close>

abbreviation put_blocks :: "rt_rbb \<Rightarrow> nat list" where
  "put_blocks r \<equiv> dropWhile (\<lambda>b. blk_status (blk_set r b) \<noteq> RT_RBB_BLK_PUT) (blk_list r)"

lemma queue_get_first:
  assumes "bs \<noteq> []"
  shows "queue_get_loop len bs None k q r =
    (case dropWhile (\<lambda>b. blk_status (blk_set r b) \<noteq> RT_RBB_BLK_PUT) bs of [] \<Rightarrow> Inl NullDeref
     | b # rest \<Rightarrow>
        if rest = [] then Inl NullDeref
        else queue_get_loop len rest (Some b) (k + rt_rbb_blk_size b r) (q\<lparr>queue_blocks := b, queue_blk_num := 1\<rparr>)
               (upd_blk b (\<lambda>k. k\<lparr>blk_status := RT_RBB_BLK_GET\<rparr>) r))"
  using assms by (induction bs) (simp_all add: Let_def)

lemma queue_get_eq:
  assumes "rbb_wf r"
  shows "rt_rbb_blk_queue_get len q r =
    (if blk_list r = [] then Inr (0, q, r)
     else case put_blocks r of [] \<Rightarrow> Inl NullDeref
      | b # rest \<Rightarrow>
         let qs = b # queue_behind len r b (rt_rbb_blk_size b r) rest
         in if length qs = length (b # rest) then Inl NullDeref
            else Inr (blocks_len qs r, \<lparr>queue_blocks = b, queue_blk_num = of_nat (length qs)\<rparr>, mark_got qs r))"
proof (cases "put_blocks r")
  case Nil
  then show ?thesis by (simp add: rt_rbb_blk_queue_get_def queue_get_first [of "blk_list r"] del: dropWhile_eq_Nil_conv)
next
  case (Cons b rest)
  have "distinct (put_blocks r)" using assms by (simp add: rbb_wf_def distinct_dropWhile)
  then have d: "b \<notin> set rest" "distinct rest" unfolding Cons by simp_all
  have ne: "blk_list r \<noteq> []" using Cons by auto
  show ?thesis
  proof (cases "rest = []")
    case True
    then show ?thesis using ne Cons by (simp add: rt_rbb_blk_queue_get_def queue_get_first)
  next
    case False
    then show ?thesis using ne Cons d(1) queue_get_behind [OF d(2) False]
      by (simp add: rt_rbb_blk_queue_get_def queue_get_first queue_behind_upd mark_got_def blocks_len_def Let_def add.commute)
  qed
qed

lemma successor_at: "x \<notin> set pre \<Longrightarrow> successor x (pre @ x # y # ys) = Some y"
proof (induction pre)
  case (Cons p pre)
  then show ?case by (cases pre) auto
qed simp

lemma blk_next_at: "blk_list r = pre @ b # y # ys \<Longrightarrow> distinct (blk_list r) \<Longrightarrow> blk_next b r = Some y"
  by (simp add: blk_next_def successor_at)

lemma queue_len_blocks:
  assumes "blk_list r = pre @ qs @ post" "post \<noteq> []" "distinct (blk_list r)"
  shows "queue_len_loop (length qs) (Some (hd (qs @ post))) k r = Inr (k + blocks_len qs r)"
  using assms(1)
proof (induction qs arbitrary: pre k)
  case (Cons b qs)
  obtain y ys where y: "qs @ post = y # ys" using assms(2) by (cases "qs @ post") auto
  have "blk_next b r = Some (hd (qs @ post))" using blk_next_at [of r pre b y ys] Cons.prems y assms(3) by simp
  then show ?case using Cons.IH [of "pre @ [b]" "k + rt_rbb_blk_size b r"] Cons.prems
    by (simp add: blocks_len_def add.assoc)
qed (simp add: blocks_len_def)

lemma queue_free_blocks:
  assumes "rbb_wf r" "blk_list r = pre @ qs @ post" "post \<noteq> []"
  shows "\<exists>r'. queue_free_loop (length qs) (Some (hd (qs @ post))) r = Inr r' \<and> rbb_wf r'
    \<and> blk_list r' = pre @ post \<and> rbb_free_list r' = rev qs @ rbb_free_list r"
  using assms(1,2)
proof (induction qs arbitrary: r)
  case (Cons b qs)
  have d: "distinct (blk_list r)" and b: "b \<in> set (blk_list r)" "b < unat (blk_max_num r)"
    using Cons.prems by (auto simp: rbb_wf_def)
  obtain y ys where y: "qs @ post = y # ys" using assms(3) by (cases "qs @ post") auto
  have nx: "blk_next b r = Some (hd (qs @ post))" using blk_next_at [of r pre b y ys] Cons.prems(2) y d by simp
  obtain r1 where r1: "rt_rbb_blk_free b r = Inr r1" "blk_list r1 = remove1 b (blk_list r)" "rbb_free_list r1 = b # rbb_free_list r"
    using rbb_free_eq [OF Cons.prems(1) b(1)] by simp
  have "blk_list r1 = pre @ qs @ post" using r1(2) d Cons.prems(2) by (simp add: remove1_append)
  from Cons.IH [OF rbb_free_wf(1) [OF Cons.prems(1) b(2) r1(1)] this] r1 nx show ?case by simp
qed simp

lemma mark_got_simps [simp]:
  "blk_list (mark_got qs r) = blk_list r" "rbb_free_list (mark_got qs r) = rbb_free_list r"
  "blk_max_num (mark_got qs r) = blk_max_num r" "blocks_len bs (mark_got qs r) = blocks_len bs r"
  "blk_buf (blk_set (mark_got qs r) b) = blk_buf (blk_set r b)"
  by (induction qs arbitrary: r) (simp_all add: mark_got_def)

lemma mark_got_wf: "rbb_wf r \<Longrightarrow> set qs \<subseteq> set (blk_list r) \<Longrightarrow> rbb_wf (mark_got qs r)"
  by (induction qs arbitrary: r) (simp_all add: mark_got_def rbb_wf_status)

lemma mark_got_status: "b \<in> set qs \<Longrightarrow> blk_status (blk_set (mark_got qs r) b) = RT_RBB_BLK_GET"
proof (induction qs rule: rev_induct)
  case (snoc q qs)
  then show ?case by (auto simp: mark_got_def)
qed simp

lemma queue_behind_put: "b \<in> set (queue_behind len r l k bs) \<Longrightarrow> blk_status (blk_set r b) = RT_RBB_BLK_PUT"
  by (induction len r l k bs rule: queue_behind.induct) (auto split: if_splits)

lemma queue_behind_fits: "queue_behind len r l k bs \<noteq> [] \<Longrightarrow> k + blocks_len (queue_behind len r l k bs) r \<le> len"
proof (induction len r l k bs rule: queue_behind.induct)
  case (2 len r l k b bs)
  then have c: "\<not> (blk_status (blk_set r b) \<noteq> RT_RBB_BLK_PUT \<or> blk_buf (blk_set r b) < blk_buf (blk_set r l)
       \<or> len < k + rt_rbb_blk_size b r)" by (auto split: if_splits)
  from 2(1) [OF c] c show ?case
    by (cases "queue_behind len r b (k + rt_rbb_blk_size b r) bs = []") (auto simp: blocks_len_def add.assoc dest: leD)
qed simp

lemma queue_behind_ascending:
  "sorted_wrt (\<lambda>x y. blk_lo r x \<le> blk_lo r y) (l # queue_behind len r l k bs)"
proof (induction len r l k bs rule: queue_behind.induct)
  case (2 len r l k b bs)
  show ?case
  proof (cases "blk_status (blk_set r b) \<noteq> RT_RBB_BLK_PUT \<or> blk_buf (blk_set r b) < blk_buf (blk_set r l)
       \<or> len < k + rt_rbb_blk_size b r")
    case False
    then have "blk_lo r l \<le> blk_lo r b" by (simp add: word_less_nat_alt)
    with 2 [OF False] False show ?thesis by (auto intro: order_trans)
  qed simp
qed simp

text \<open>
  Queues of blocks. A call of \<open>rt_rbb_blk_queue_get\<close> that returns from a buffer with blocks has taken the blocks
  \<open>qs\<close>, one behind the other in the order of allocation and of address, of which the first is the oldest block that was
  put; beyond the first block the bytes asked for are not exceeded. \<open>rt_rbb_blk_queue_len\<close> gives the same length, and
  \<open>rt_rbb_blk_queue_free\<close> releases exactly these blocks. The call does not return when the queue runs to the last block
  of the buffer, or when no block was put: then it reads the successor of a null pointer.
\<close>

theorem rbb_queue_get_free:
  assumes "rbb_wf r" and "blk_list r \<noteq> []"
  shows "\<exists>pre qs post. blk_list r = pre @ qs @ post \<and> (\<forall>b \<in> set pre. blk_status (blk_set r b) \<noteq> RT_RBB_BLK_PUT)
    \<and> (\<forall>b \<in> set qs. blk_status (blk_set r b) = RT_RBB_BLK_PUT) \<and> sorted_wrt (\<lambda>x y. blk_lo r x \<le> blk_lo r y) qs
    \<and> (qs = [] \<longrightarrow> post = []) \<and> (1 < length qs \<longrightarrow> blocks_len qs r \<le> len)
    \<and> (case rt_rbb_blk_queue_get len q r of
         Inl e \<Rightarrow> e = NullDeref \<and> post = []
       | Inr (k, q', r') \<Rightarrow>
           post \<noteq> [] \<and> k = blocks_len qs r \<and> q' = \<lparr>queue_blocks = hd qs, queue_blk_num = of_nat (length qs)\<rparr>
           \<and> r' = mark_got qs r \<and> rt_rbb_blk_queue_len q' r' = Inr k
           \<and> (\<exists>r''. rt_rbb_blk_queue_free q' r' = Inr r'' \<and> rbb_wf r'' \<and> blk_list r'' = pre @ post
               \<and> rbb_free_list r'' = rev qs @ rbb_free_list r))"
proof (cases "put_blocks r")
  case Nil
  then have "\<forall>b \<in> set (blk_list r). blk_status (blk_set r b) \<noteq> RT_RBB_BLK_PUT" by simp
  moreover have "rt_rbb_blk_queue_get len q r = Inl NullDeref" using queue_get_eq [OF assms(1), of len q] assms(2) Nil by simp
  ultimately show ?thesis by (intro exI [of _ "blk_list r"] exI [of _ "[]"]) simp
next
  case (Cons b rest)
  define pre where "pre = takeWhile (\<lambda>b. blk_status (blk_set r b) \<noteq> RT_RBB_BLK_PUT) (blk_list r)"
  define qs where "qs = b # queue_behind len r b (rt_rbb_blk_size b r) rest"
  obtain post where post: "b # rest = qs @ post" using queue_behind_prefix [of rest len r b "rt_rbb_blk_size b r"] by (auto simp: qs_def)
  have L: "blk_list r = pre @ qs @ post" unfolding pre_def post [symmetric] Cons [symmetric] by simp
  have pre: "\<forall>b \<in> set pre. blk_status (blk_set r b) \<noteq> RT_RBB_BLK_PUT" by (auto simp: pre_def dest: set_takeWhileD)
  have "blk_status (blk_set r b) = RT_RBB_BLK_PUT" 
    using hd_dropWhile [of "\<lambda>b. blk_status (blk_set r b) \<noteq> RT_RBB_BLK_PUT" "blk_list r"] Cons by simp
  then have put: "\<forall>b \<in> set qs. blk_status (blk_set r b) = RT_RBB_BLK_PUT" using queue_behind_put by (auto simp: qs_def)
  have asc: "sorted_wrt (\<lambda>x y. blk_lo r x \<le> blk_lo r y) qs" unfolding qs_def by (rule queue_behind_ascending)
  have fits: "1 < length qs \<longrightarrow> blocks_len qs r \<le> len"
    using queue_behind_fits [of len r b "rt_rbb_blk_size b r" rest] by (auto simp: qs_def blocks_len_def)
  have "length qs = length (b # rest) \<longleftrightarrow> post = []" unfolding post by simp
  then have len: "length (queue_behind len r b (rt_rbb_blk_size b r) rest) = length rest \<longleftrightarrow> post = []" by (simp add: qs_def)
  have get: "rt_rbb_blk_queue_get len q r = (if post = [] then Inl NullDeref
      else Inr (blocks_len qs r, \<lparr>queue_blocks = b, queue_blk_num = of_nat (length qs)\<rparr>, mark_got qs r))"
    using queue_get_eq [OF assms(1), of len q] assms(2) Cons len by (simp add: Let_def qs_def)
  show ?thesis
  proof (cases "post = []")
    case True
    then show ?thesis using L pre put asc fits get
      by (intro exI [of _ pre] exI [of _ qs] exI [of _ "[]"]) simp
  next
    case False
    have d: "distinct (blk_list r)" "set (blk_list r) \<subseteq> {..<unat (blk_max_num r)}" using assms(1) by (auto simp: rbb_wf_def)
    have "length (blk_list r) = card (set (blk_list r))" using distinct_card [OF d(1)] by simp
    also have "\<dots> \<le> unat (blk_max_num r)" using card_mono [OF _ d(2)] by simp
    finally have "length qs < 2 ^ 32" using L unsigned_less [of "blk_max_num r", where 'a = nat] by simp
    then have n: "unat (of_nat (length qs) :: u32) = length qs" by simp
    have hd: "hd (qs @ post) = b" by (simp add: qs_def)
    have w: "rbb_wf (mark_got qs r)" by (rule mark_got_wf [OF assms(1)]) (auto simp: L)
    have ql: "rt_rbb_blk_queue_len \<lparr>queue_blocks = b, queue_blk_num = of_nat (length qs)\<rparr> (mark_got qs r) = Inr (blocks_len qs r)"
      using queue_len_blocks [of "mark_got qs r" pre qs post 0] L False d(1) n hd by (simp add: rt_rbb_blk_queue_len_def)
    have qf: "\<exists>r''. rt_rbb_blk_queue_free \<lparr>queue_blocks = b, queue_blk_num = of_nat (length qs)\<rparr> (mark_got qs r) = Inr r''
        \<and> rbb_wf r'' \<and> blk_list r'' = pre @ post \<and> rbb_free_list r'' = rev qs @ rbb_free_list r"
      using queue_free_blocks [OF w, of pre qs post] L False n hd by (simp add: rt_rbb_blk_queue_free_def)
    have "hd qs = b" "qs \<noteq> []" by (simp_all add: qs_def)
    then show ?thesis using False L pre put asc fits get ql qf
      by - (rule exI [of _ pre], rule exI [of _ qs], rule exI [of _ post], simp)
  qed
qed

text \<open>Two blocks of four bytes, of which the older one was put.\<close>

theorem rbb_queue_get_free_witness:
  "\<exists>r r1 r2. runs rbb_op_step [RbbAlloc 4, RbbAlloc 4, RbbPut 2] demo_rbb = Inr (r, [Some 2, Some 1, None])
    \<and> rt_rbb_blk_queue_get 100 \<lparr>queue_blocks = 7, queue_blk_num = 7\<rparr> r = Inr (4, \<lparr>queue_blocks = 2, queue_blk_num = 1\<rparr>, r1)
    \<and> rt_rbb_blk_queue_free \<lparr>queue_blocks = 2, queue_blk_num = 1\<rparr> r1 = Inr r2 \<and> blk_list r2 = [1] \<and> rbb_free_list r2 = [2, 0]"
proof -
  let ?q = "\<lparr>queue_blocks = 7, queue_blk_num = 7\<rparr>"
  have "rbb_rel demo_rbb (10, [2, 1, 0], [])"
    using demo_rbb_facts by (simp add: rbb_rel_def rbb_abs_def)
  moreover have "spec_runs rbb_spec [RbbAlloc 4, RbbAlloc 4, RbbPut 2] (10, [2, 1, 0], [])
      = Some ((10, [0], [(2, RT_RBB_BLK_PUT, 0, 4), (1, RT_RBB_BLK_INITED, 4, 4)]), [Some 2, Some 1, None])"
    by (simp add: rbb_spec_def gap_def set_state_def)
  ultimately obtain r where r: "runs rbb_op_step [RbbAlloc 4, RbbAlloc 4, RbbPut 2] demo_rbb = Inr (r, [Some 2, Some 1, None])"
    "rbb_wf r" "rbb_abs r = (10, [0], [(2, RT_RBB_BLK_PUT, 0, 4), (1, RT_RBB_BLK_INITED, 4, 4)])"
    using rbb_sim.runs_sim by (metis rbb_rel_def)
  then have L: "blk_list r = [2, 1]" "rbb_free_list r = [0]" "blk_status (blk_set r 2) = RT_RBB_BLK_PUT"
    "blk_status (blk_set r 1) = RT_RBB_BLK_INITED" "unat (blk_size (blk_set r 2)) = 4"
    by (auto simp: rbb_abs_def blk_view_def map_eq_Cons_conv)
  have ne: "blk_list r \<noteq> []" using L(1) by simp
  obtain pre qs post where q: "blk_list r = pre @ qs @ post" "\<forall>b \<in> set pre. blk_status (blk_set r b) \<noteq> RT_RBB_BLK_PUT"
    "\<forall>b \<in> set qs. blk_status (blk_set r b) = RT_RBB_BLK_PUT" "qs = [] \<longrightarrow> post = []"
    "case rt_rbb_blk_queue_get 100 ?q r of Inl e \<Rightarrow> e = NullDeref \<and> post = []
       | Inr (k, q', r') \<Rightarrow>
           post \<noteq> [] \<and> k = blocks_len qs r \<and> q' = \<lparr>queue_blocks = hd qs, queue_blk_num = of_nat (length qs)\<rparr>
           \<and> r' = mark_got qs r \<and> rt_rbb_blk_queue_len q' r' = Inr k
           \<and> (\<exists>r''. rt_rbb_blk_queue_free q' r' = Inr r'' \<and> rbb_wf r'' \<and> blk_list r'' = pre @ post
               \<and> rbb_free_list r'' = rev qs @ rbb_free_list r)"
    using rbb_queue_get_free [OF r(2) ne, of 100 ?q] by blast
  have "pre = []" using q(1,2) L(1,3) by (cases pre) auto
  moreover have "qs \<noteq> []" using q(1,2,4) L(1,3) by auto
  moreover have "1 \<notin> set qs" using q(3) L(4) by auto
  ultimately have qs: "pre = []" "qs = [2]" "post = [1]" using q(1) L(1) by (cases qs; cases "tl qs"; auto)+
  have "unat (rt_rbb_blk_size 2 r) = unat (4 :: u32)" using L(5) by (simp add: rt_rbb_blk_size_def unat_ucast_up)
  then have "blocks_len qs r = 4" by (simp add: qs(2) blocks_len_def word_unat_eq_iff)
  then show ?thesis using q(5) qs r(1) L(2) by (auto split: sum.splits)
qed

subsection \<open>Defects\<close>

text \<open>
  A refused allocation takes a descriptor off the free list and does not give it back. The number of descriptors in
  either list falls by one each time, and never rises: after as many refusals as there are descriptors no allocation
  succeeds any more, not even in an empty buffer.
\<close>

lemma rbb_refused_alloc_loses:
  assumes "rbb_wf r" "unat n < 2 ^ 24" "rbb_free_list r = b # bs" "rbb_spot r (unat n) = None"
  shows "rt_rbb_blk_alloc n r = Inr (None, r\<lparr>rbb_free_list := bs\<rparr>)"
  using rbb_alloc_spec [OF assms(1,2)] assms(3,4) by simp

abbreviation descriptors :: "rt_rbb \<Rightarrow> nat set" where
  "descriptors r \<equiv> set (blk_list r) \<union> set (rbb_free_list r)"

lemma descriptors_free:
  "rbb_wf r \<Longrightarrow> b < unat (blk_max_num r) \<Longrightarrow> rt_rbb_blk_free b r = Inr r' \<Longrightarrow> descriptors r' \<subseteq> descriptors r"
  using rbb_free_wf(2) [of r b r'] rbb_free_eq [of r b] by (auto dest: notin_set_remove1 [THEN contrapos_np] set_remove1_subset [THEN subsetD])

lemma descriptors_queue_free:
  assumes "rbb_wf r" "\<And>x. b = Some x \<Longrightarrow> x < unat (blk_max_num r)" "queue_free_loop k b r = Inr r'"
  shows "descriptors r' \<subseteq> descriptors r"
  using assms
proof (induction k arbitrary: b r)
  case (Suc k)
  then obtain x r1 where x: "b = Some x" "rt_rbb_blk_free x r = Inr r1" "queue_free_loop k (blk_next x r) r1 = Inr r'"
    by (auto split: option.splits)
  note lt = Suc.prems(2) [OF x(1)]
  note f = rbb_free_wf [OF Suc.prems(1) lt x(2)]
  have "y < unat (blk_max_num r1)" if "blk_next x r = Some y" for y using blk_next_less [OF Suc.prems(1) that] f(3) by simp
  from Suc.IH [OF f(1) this x(3)] descriptors_free [OF Suc.prems(1) lt x(2)] show ?case by (rule subset_trans)
qed simp

lemma rbb_descriptors_never_return: "rbb_step r r' \<Longrightarrow> rbb_wf r \<Longrightarrow> descriptors r' \<subseteq> descriptors r"
proof (induction rule: rbb_step.induct)
  case (alloc n r x r')
  from rbb_alloc_spec [OF alloc(4) rbb_alloc_small [OF alloc(3)]] alloc(3) show ?case
    by (auto simp: rbb_alloc_at_def split: list.splits option.splits)
next
  case (queue_get len q r k q' r')
  then show ?case
    by (auto simp: queue_get_eq [OF queue_get(2)] Let_def split: if_splits list.splits)
next
  case (free b r r')
  then show ?case by (intro descriptors_free)
next
  case (queue_free q r r')
  then show ?case by (intro descriptors_queue_free) (auto simp: rt_rbb_blk_queue_free_def)
qed (auto simp: rt_rbb_blk_put_def rbb_get_find split: option.splits)

text \<open>An empty buffer gives a block of any size below \<open>2 ^ 24\<close>, also one that does not fit.\<close>

lemma rbb_oversized_block:
  "\<exists>r. rt_rbb_blk_alloc 1000 demo_rbb = Inr (Some 2, r) \<and> blk_hi r 2 = 0x80000000 + 1000 \<and> rbb_buf_size r = 10"
proof -
  note ini = demo_rbb_facts
  show ?thesis using rbb_alloc_spec [OF ini(1), of 1000] by (simp add: ini(2-6) rbb_spot_def rbb_alloc_at_def)
qed

text \<open>
  A block of no bytes is given, too. When it ends at the oldest block, the buffer no longer looks wrapped, and the next
  block is placed over the oldest one: here over block 1, the second half of a buffer of ten bytes.
\<close>

lemma rbb_empty_block_overlaps:
  assumes "rt_rbb_init 0x80000000 10 mem 4 = Inr r"
  shows "\<exists>r'. runs rbb_op_step [RbbAlloc 5, RbbAlloc 5, RbbFree 3, RbbAlloc 5, RbbAlloc 0, RbbAlloc 5] r
      = Inr (r', [Some 3, Some 2, None, Some 3, Some 1, Some 0])
    \<and> blk_list r' = [2, 3, 1, 0] \<and> blk_lo r' 2 = blk_lo r' 0 \<and> blk_hi r' 2 = blk_hi r' 0 \<and> blk_lo r' 2 < blk_hi r' 2"
proof -
  have u: "rev [0..<4] = [3, 2, 1, 0 :: nat]" by (simp add: upt_rec eval_nat_numeral)
  note ini = rbb_init_wf [OF assms, simplified, unfolded u]
  define r1 where "r1 = rbb_alloc_at 3 [2, 1, 0] 0x80000000 5 r"
  have a1: "rt_rbb_blk_alloc 5 r = Inr (Some 3, r1)" 
    using rbb_alloc_spec [OF ini(1), of 5] by (simp add: ini(2-6) rbb_spot_def r1_def)
  have w1: "rbb_wf r1" by (rule rbb_alloc_wf [OF ini(1) _ _ _ a1]) (simp_all add: ini)
  have f1: "blk_list r1 = [3]" "rbb_free_list r1 = [2, 1, 0]" "rbb_buf r1 = 0x80000000" "rbb_buf_size r1 = 10" "blk_max_num r1 = 4"
    "blk_set r1 3 = \<lparr>blk_status = RT_RBB_BLK_INITED, blk_size = 5, blk_buf = 0x80000000\<rparr>"
    by (simp_all add: r1_def rbb_alloc_at_def ini)
  define r2 where "r2 = rbb_alloc_at 2 [1, 0] 0x80000005 5 r1"
  have a2: "rt_rbb_blk_alloc 5 r1 = Inr (Some 2, r2)"
    using rbb_alloc_spec [OF w1, of 5] by (simp add: f1 rbb_spot_def r2_def)
  have w2: "rbb_wf r2" by (rule rbb_alloc_wf [OF w1 _ _ _ a2]) (simp_all add: f1)
  have f2: "blk_list r2 = [3, 2]" "rbb_free_list r2 = [1, 0]" "rbb_buf r2 = 0x80000000" "rbb_buf_size r2 = 10" "blk_max_num r2 = 4"
    "blk_set r2 2 = \<lparr>blk_status = RT_RBB_BLK_INITED, blk_size = 5, blk_buf = 0x80000005\<rparr>"
    by (simp_all add: r2_def rbb_alloc_at_def f1)
  obtain r3 where a3: "rt_rbb_blk_free 3 r2 = Inr r3" and f3: "blk_list r3 = [2]" "rbb_free_list r3 = [3, 1, 0]"
    "rbb_buf r3 = 0x80000000" "rbb_buf_size r3 = 10" "blk_set r3 2 = blk_set r2 2" "blk_set r3 0 = blk_set r2 0"
    using rbb_free_eq [OF w2, of 3] by (simp add: f2)
  have w3: "rbb_wf r3" by (rule rbb_free_wf(1) [OF w2 _ a3]) (simp add: f2)
  define r4 where "r4 = rbb_alloc_at 3 [1, 0] 0x80000000 5 r3"
  have a4: "rt_rbb_blk_alloc 5 r3 = Inr (Some 3, r4)"
    using rbb_alloc_spec [OF w3, of 5] by (simp add: f2 f3 rbb_spot_def r4_def)
  have w4: "rbb_wf r4" by (rule rbb_alloc_wf [OF w3 _ _ _ a4]) (simp_all add: f3)
  have f4: "blk_list r4 = [2, 3]" "rbb_free_list r4 = [1, 0]" "rbb_buf r4 = 0x80000000" "rbb_buf_size r4 = 10"
    "blk_set r4 3 = \<lparr>blk_status = RT_RBB_BLK_INITED, blk_size = 5, blk_buf = 0x80000000\<rparr>" "blk_set r4 2 = blk_set r2 2"
    by (simp_all add: r4_def rbb_alloc_at_def f3)
  define r5 where "r5 = rbb_alloc_at 1 [0] 0x80000005 0 r4"
  have a5: "rt_rbb_blk_alloc 0 r4 = Inr (Some 1, r5)"
    using rbb_alloc_spec [OF w4, of 0] by (simp add: f2 f4 rbb_spot_def r5_def)
  have f5: "blk_list r5 = [2, 3, 1]" "rbb_free_list r5 = [0]" "rbb_buf r5 = 0x80000000" "rbb_buf_size r5 = 10" "rbb_tail r5 = Some 1"
    "blk_set r5 1 = \<lparr>blk_status = RT_RBB_BLK_INITED, blk_size = 0, blk_buf = 0x80000005\<rparr>" "blk_set r5 2 = blk_set r2 2"
    "blk_set r5 0 = blk_set r2 0"
    by (simp_all add: r5_def rbb_alloc_at_def f4) (simp add: r4_def rbb_alloc_at_def f3)
  have "blk_status (blk_set r2 0) = RT_RBB_BLK_UNUSED" using rbb_wf_live [OF w2, of 0] by (simp add: f2)
  then have "\<exists>r6. rt_rbb_blk_alloc 5 r5 = Inr (Some 0, r6) \<and> blk_list r6 = [2, 3, 1, 0] \<and> blk_lo r6 2 = blk_lo r6 0
      \<and> blk_hi r6 2 = blk_hi r6 0 \<and> blk_lo r6 2 < blk_hi r6 2"
    by (simp add: rt_rbb_blk_alloc_def find_empty_blk_in_set_def f5 f2 blk_end_def rbb_place_def list_append_def link_behind_def
      Let_def upd_blk_def del: One_nat_def)
  then show ?thesis using a1 a2 a3 a4 a5 by (auto simp: rbb_op_step_def)
qed

subsection \<open>Creation and destruction\<close>

lemma payload_block:
  "(q, l) \<in> payloads p bs \<Longrightarrow> \<exists>xs k ys. bs = xs @ (k, True) # ys \<and> q = p + blen xs + 64 \<and> l = k - 64"
proof (induction bs arbitrary: p)
  case (Cons b bs)
  obtain k u where b: "b = (k, u)" by (cases b)
  show ?case
  proof (cases "u \<and> (q, l) = (p + 64, k - 64)")
    case True
    then show ?thesis using b by (intro exI [of _ "[]"]) auto
  next
    case False
    then have "(q, l) \<in> payloads (p + k) bs" using Cons.prems b by (auto split: if_splits)
    from Cons.IH [OF this] obtain xs j ys where "bs = xs @ (j, True) # ys" "q = p + k + blen xs + 64" "l = j - 64" by auto
    then have "b # bs = (b # xs) @ (j, True) # ys \<and> q = p + blen (b # xs) + 64 \<and> l = j - 64" using b by simp
    then show ?thesis by blast
  qed
qed simp

text \<open>A block in use is released by its pointer, and only it.\<close>

lemma smem_free_payload:
  assumes "smem_wf m bs" "(unat r, l) \<in> payloads 0 bs"
  shows "\<exists>m' bs'. rt_smem_free (Some r) m = Inr m' \<and> smem_wf m' bs' \<and> payloads 0 bs' = payloads 0 bs - {(unat r, l)}"
proof -
  obtain xs k ys where x: "bs = xs @ (k, True) # ys" "unat r = blen xs + 64" "l = k - 64"
    using payload_block [OF assms(2)] by auto
  have sg: "smem_seg m (xs @ (k, True) # ys)" using assms(1) x(1) by (simp add: smem_wf_def smem_raw_def)
  have "r = of_nat (blen xs + 64)" using x(2) by (rule of_nat_unat_eq)
  moreover obtain m' where "rt_smem_free (Some (of_nat (blen xs + 64))) m = Inr m'" "smem_wf m' (coalesce (xs @ (k, False) # ys))"
    using smem_free_ok [OF assms(1) [unfolded x(1)] refl] by blast
  moreover have "payloads 0 (coalesce (xs @ (k, False) # ys)) = payloads 0 bs - {(unat r, l)}"
    using payloads_remove [OF sg] by (simp add: payloads_coalesce x del: payloads_append)
  ultimately show ?thesis by metis
qed

lemma smem_alloc_total:
  assumes "smem_wf m bs" "0 < unat sz" "unat sz \<le> 2 ^ 32 - 64"
  obtains (refused) "rt_smem_alloc sz m = Inr (m, None)"
    | (given) m' r bs' len where "rt_smem_alloc sz m = Inr (m', Some r)" "smem_wf m' bs'" "unat sz \<le> len"
      "payloads 0 bs' = insert (unat r, len) (payloads 0 bs)" "(unat r, len) \<notin> payloads 0 bs"
proof (cases "alloc_spec (unat (RT_ALIGN sz 64)) 0 bs")
  case None
  have "0 < sz" using assms(2) by (simp add: word_less_nat_alt)
  then show thesis using smem_alloc_None [OF assms(1) _ assms(3) None] refused by blast
next
  case (Some a)
  have sz: "0 < sz" using assms(2) by (simp add: word_less_nat_alt)
  obtain q b where "alloc_spec (unat (RT_ALIGN sz 64)) 0 bs = Some (q, b)" using Some by (cases a) auto
  from smem_alloc_Some [OF assms(1) sz assms(3) this] obtain m' where m': "rt_smem_alloc sz m = Inr (m', Some (of_nat q))" by blast
  from smem_alloc_new [OF assms(1) sz assms(3) m'] obtain bs' len where
    n: "smem_wf m' bs'" "unat sz \<le> len" "payloads 0 bs' = insert (unat (of_nat q :: u32), len) (payloads 0 bs)"
    "\<forall>(p, l) \<in> payloads 0 bs. p + l \<le> unat (of_nat q :: u32) - 64 \<or> unat (of_nat q :: u32) + len \<le> p - 64" by blast
  have "(unat (of_nat q :: u32), len) \<notin> payloads 0 bs" using n(2,4) assms(2) by fastforce
  then show thesis using given [OF m' n(1-3)] by blast
qed

lemma payload_address:
  assumes "smem_wf m bs" "(unat r, l) \<in> payloads 0 bs"
  shows "heap_ptr m + r \<noteq> 0" "unat (heap_ptr m + r) + l < 2 ^ 32"
proof -
  have sg: "smem_seg m bs" using assms(1) by (simp add: smem_wf_def smem_raw_def)
  have "\<forall>b \<in> set bs. 64 \<le> fst b" using seg_pos smem_segD(2) [OF sg] by blast
  from payloads_range [OF this assms(2)] have "unat r + l \<le> blen bs" by simp
  moreover have h: "unat (heap_ptr m) + blen bs + 64 \<le> 2 ^ 32" "64 \<le> unat (heap_ptr m)" using sg by (simp_all add: smem_seg_def)
  ultimately have "unat (heap_ptr m + r) = unat (heap_ptr m) + unat r" by (simp add: unat_word_ariths)
  then show "heap_ptr m + r \<noteq> 0" "unat (heap_ptr m + r) + l < 2 ^ 32"
    using h \<open>unat r + l \<le> blen bs\<close> by (auto simp: unat_eq_zero [symmetric] simp del: unat_eq_zero)
qed

lemma rbb_create_positive:
  assumes "smem_wf h bs" and "0 < unat sz" and "unat sz \<le> 2 ^ 32 - 64" and "0 < unat n" and "12 * unat n \<le> 2 ^ 32 - 64"
  shows "\<exists>h' res bs'. rt_rbb_create sz n mem h = Inr (h', res) \<and> smem_wf h' bs'
    \<and> (case res of None \<Rightarrow> payloads 0 bs' = payloads 0 bs
       | Some (p, r) \<Rightarrow>
           (\<exists>l1 l2 l3. 28 \<le> l1 \<and> unat sz \<le> l2 \<and> 12 * unat n \<le> l3 \<and> payloads 0 bs'
             = {(unat (rbb_ptr p), l1), (unat (buf_ptr p), l2), (unat (blk_set_ptr p), l3)} \<union> payloads 0 bs)
           \<and> rbb_wf r \<and> blk_list r = [] \<and> rbb_free_list r = rev [0..<unat n] \<and> rbb_buf r = heap_ptr h' + buf_ptr p
           \<and> (\<exists>h'' bs''. rt_rbb_destroy p h' = Inr h'' \<and> smem_wf h'' bs'' \<and> payloads 0 bs'' = payloads 0 bs))"
proof (rule smem_alloc_total [OF assms(1), of 28])
  assume "rt_smem_alloc 28 h = Inr (h, None)"
  then show ?thesis using assms(1) by (auto simp: rt_rbb_create_def intro!: exI [of _ bs])
next
  fix h1 rbb bs1 l1
  assume a1: "rt_smem_alloc 28 h = Inr (h1, Some rbb)" and w1: "smem_wf h1 bs1" and l1: "unat (28 :: u32) \<le> l1"
    and p1: "payloads 0 bs1 = insert (unat rbb, l1) (payloads 0 bs)" and n1: "(unat rbb, l1) \<notin> payloads 0 bs"
  show ?thesis
  proof (rule smem_alloc_total [OF w1 assms(2,3)])
    assume a2: "rt_smem_alloc sz h1 = Inr (h1, None)"
    obtain h2 bs2 where "rt_smem_free (Some rbb) h1 = Inr h2" "smem_wf h2 bs2" "payloads 0 bs2 = payloads 0 bs"
      using smem_free_payload [OF w1, of rbb l1] p1 n1 by auto
    then show ?thesis using a1 a2 by (auto simp: rt_rbb_create_def intro!: exI [of _ bs2])
  next
    fix h2 buf bs2 l2
    assume a2: "rt_smem_alloc sz h1 = Inr (h2, Some buf)" and w2: "smem_wf h2 bs2" and l2: "unat sz \<le> l2"
      and p2: "payloads 0 bs2 = insert (unat buf, l2) (payloads 0 bs1)" and n2: "(unat buf, l2) \<notin> payloads 0 bs1"
    have n: "unat (12 * n) = 12 * unat n" using assms(5) by (simp add: unat_word_ariths)
    show ?thesis
    proof (rule smem_alloc_total [OF w2, of "12 * n"])
      show "0 < unat (12 * n)" "unat (12 * n) \<le> 2 ^ 32 - 64" using assms(4,5) n by simp_all
    next
      assume a3: "rt_smem_alloc (12 * n) h2 = Inr (h2, None)"
      obtain h3 bs3 where h3: "rt_smem_free (Some buf) h2 = Inr h3" "smem_wf h3 bs3" "payloads 0 bs3 = payloads 0 bs1"
        using smem_free_payload [OF w2, of buf l2] p2 n2 by auto
      obtain h4 bs4 where "rt_smem_free (Some rbb) h3 = Inr h4" "smem_wf h4 bs4" "payloads 0 bs4 = payloads 0 bs"
        using smem_free_payload [OF h3(2), of rbb l1] h3(3) p1 n1 by auto
      then show ?thesis using a1 a2 a3 h3 by (auto simp: rt_rbb_create_def intro!: exI [of _ bs4])
    next
      fix h3 blks bs3 l3
      assume a3: "rt_smem_alloc (12 * n) h2 = Inr (h3, Some blks)" and w3: "smem_wf h3 bs3" and l3: "unat (12 * n) \<le> l3"
        and p3: "payloads 0 bs3 = insert (unat blks, l3) (payloads 0 bs2)" and n3: "(unat blks, l3) \<notin> payloads 0 bs2"
      have ad: "heap_ptr h3 + buf \<noteq> 0" "unat (heap_ptr h3 + buf) + unat sz < 2 ^ 32"
        using payload_address [OF w3, of buf l2] p2 p3 l2 by auto
      obtain r where r: "rt_rbb_init (heap_ptr h3 + buf) sz mem n = Inr r" using ad(1) by (simp add: rt_rbb_init_def)
      note ri = rbb_init_wf [OF r ad(2)]
      obtain h4 bs4 where h4: "rt_smem_free (Some buf) h3 = Inr h4" "smem_wf h4 bs4" "payloads 0 bs4 = payloads 0 bs3 - {(unat buf, l2)}"
        using smem_free_payload [OF w3, of buf l2] p2 p3 by auto
      have b4: "(unat blks, l3) \<in> payloads 0 bs4" using h4(3) p3 p2 n3 by auto
      obtain h5 bs5 where h5: "rt_smem_free (Some blks) h4 = Inr h5" "smem_wf h5 bs5" "payloads 0 bs5 = payloads 0 bs4 - {(unat blks, l3)}"
        using smem_free_payload [OF h4(2) b4] by auto
      have p5: "payloads 0 bs5 = payloads 0 bs1" using h5(3) h4(3) p3 p2 n3 n2 by auto
      obtain h6 bs6 where h6: "rt_smem_free (Some rbb) h5 = Inr h6" "smem_wf h6 bs6" "payloads 0 bs6 = payloads 0 bs"
        using smem_free_payload [OF h5(2), of rbb l1] p5 p1 n1 by auto
      let ?p = "\<lparr>rbb_ptr = rbb, buf_ptr = buf, blk_set_ptr = blks\<rparr>"
      have c: "rt_rbb_create sz n mem h = Inr (h3, Some (?p, r))" using a1 a2 a3 r by (simp add: rt_rbb_create_def)
      have d: "rt_rbb_destroy ?p h3 = Inr h6" using h4 h5 h6 by (simp add: rt_rbb_destroy_def)
      have pl: "payloads 0 bs3 = {(unat rbb, l1), (unat buf, l2), (unat blks, l3)} \<union> payloads 0 bs" using p1 p2 p3 by auto
      have ls: "28 \<le> l1" "unat sz \<le> l2" "12 * unat n \<le> l3" using l1 l2 l3 n by simp_all
      show ?thesis
        by (rule exI [of _ h3], rule exI [of _ "Some (?p, r)"], rule exI [of _ bs3])
          (use c d w3 pl ls ri h6(2,3) in auto)
    qed
  qed
qed (use assms in simp_all)

text \<open>A buffer of 100 bytes and three descriptors on the heap of four kilobytes, created and destroyed.\<close>

lemma rbb_create_nothing:
  assumes "smem_wf h bs" and "unat sz \<le> 2 ^ 32 - 64" and "sz = 0 \<or> n = 0"
  shows "\<exists>h' bs'. rt_rbb_create sz n mem h = Inr (h', None) \<and> smem_wf h' bs' \<and> payloads 0 bs' = payloads 0 bs"
proof (rule smem_alloc_total [OF assms(1), of 28])
  assume "rt_smem_alloc 28 h = Inr (h, None)"
  then show ?thesis using assms(1) by (auto simp: rt_rbb_create_def)
next
  fix h1 rbb bs1 l1
  assume a1: "rt_smem_alloc 28 h = Inr (h1, Some rbb)" and w1: "smem_wf h1 bs1"
    and p1: "payloads 0 bs1 = insert (unat rbb, l1) (payloads 0 bs)" and n1: "(unat rbb, l1) \<notin> payloads 0 bs"
  have z: "rt_smem_alloc 0 x = Inr (x, None)" for x by (simp add: rt_smem_alloc_def)
  obtain h2 bs2 where f: "rt_smem_free (Some rbb) h1 = Inr h2" "smem_wf h2 bs2" "payloads 0 bs2 = payloads 0 bs"
    using smem_free_payload [OF w1, of rbb l1] p1 n1 by auto
  show ?thesis
  proof (cases "sz = 0")
    case True
    then show ?thesis using a1 z f by (auto simp: rt_rbb_create_def)
  next
    case False
    then have n: "n = 0" and s: "0 < unat sz" using assms(3) by (simp_all add: unat_gt_0)
    show ?thesis
    proof (rule smem_alloc_total [OF w1 s assms(2)])
      assume "rt_smem_alloc sz h1 = Inr (h1, None)"
      then show ?thesis using a1 f by (auto simp: rt_rbb_create_def)
    next
      fix h3 buf bs3 l2
      assume a2: "rt_smem_alloc sz h1 = Inr (h3, Some buf)" and w3: "smem_wf h3 bs3"
        and p3: "payloads 0 bs3 = insert (unat buf, l2) (payloads 0 bs1)" and n3: "(unat buf, l2) \<notin> payloads 0 bs1"
      obtain h4 bs4 where h4: "rt_smem_free (Some buf) h3 = Inr h4" "smem_wf h4 bs4" "payloads 0 bs4 = payloads 0 bs1"
        using smem_free_payload [OF w3, of buf l2] p3 n3 by auto
      obtain h5 bs5 where "rt_smem_free (Some rbb) h4 = Inr h5" "smem_wf h5 bs5" "payloads 0 bs5 = payloads 0 bs"
        using smem_free_payload [OF h4(2), of rbb l1] h4(3) p1 n1 by auto
      then show ?thesis using a1 a2 h4 z n by (auto simp: rt_rbb_create_def)
    qed
  qed
qed simp_all

text \<open>
  The size of the descriptors is not checked for overflow: for \<open>0x15555556\<close> descriptors of twelve bytes a block of 8 bytes is asked for,
  and the initialisation writes all of them.
\<close>

lemma rbb_descriptors_overflow:
  assumes "rt_rbb_create sz n mem h = Inr (h', Some (p, r))" "n = 0x15555556"
  shows "\<exists>h2. rt_smem_alloc 8 h2 = Inr (h', Some (blk_set_ptr p))" and "blk_max_num r = n"
proof -
  have "blk_max_num (fold rbb_add_unused bs x) = blk_max_num x" for bs x
    by (induction bs arbitrary: x) (simp_all add: rbb_add_unused_def Let_def)
  then have "(\<exists>h2. rt_smem_alloc (12 * n) h2 = Inr (h', Some (blk_set_ptr p))) \<and> blk_max_num r = n"
    using assms(1) by (auto simp: rt_rbb_create_def rt_rbb_init_def split: option.splits) blast
  moreover have "12 * n = 8" using assms(2) by simp
  ultimately show "\<exists>h2. rt_smem_alloc 8 h2 = Inr (h', Some (blk_set_ptr p))" "blk_max_num r = n" by metis+
qed

text \<open>
  C39. Creation and destruction of a ring block buffer leave the system heap as it was. For a buffer of at most \<open>2 ^ 32 - 64\<close> bytes
  and descriptors of at most \<open>2 ^ 32 - 64\<close> bytes together \<open>rt_rbb_create\<close> returns;
  when it returns a buffer, three new blocks of the heap are in use, of at least the bytes that the structure, the
  buffer and the descriptors need, the ring is empty with all descriptors free, and \<open>rt_rbb_destroy\<close> releases
  exactly these three blocks; when the heap cannot give them all, or one of the sizes is 0, those already allocated are given
  back. Larger sizes wrap around and get blocks that are too small.
\<close>

theorem rbb_create_destroy:
  assumes "smem_wf h bs" and "unat sz \<le> 2 ^ 32 - 64" and "12 * unat n \<le> 2 ^ 32 - 64"
  shows "\<exists>h' res bs'. rt_rbb_create sz n mem h = Inr (h', res) \<and> smem_wf h' bs'
    \<and> (case res of None \<Rightarrow> payloads 0 bs' = payloads 0 bs
       | Some (p, r) \<Rightarrow> sz \<noteq> 0 \<and> n \<noteq> 0 \<and>
           (\<exists>l1 l2 l3. 28 \<le> l1 \<and> unat sz \<le> l2 \<and> 12 * unat n \<le> l3 \<and> payloads 0 bs'
             = {(unat (rbb_ptr p), l1), (unat (buf_ptr p), l2), (unat (blk_set_ptr p), l3)} \<union> payloads 0 bs)
           \<and> rbb_wf r \<and> blk_list r = [] \<and> rbb_free_list r = rev [0..<unat n] \<and> rbb_buf r = heap_ptr h' + buf_ptr p
           \<and> (\<exists>h'' bs''. rt_rbb_destroy p h' = Inr h'' \<and> smem_wf h'' bs'' \<and> payloads 0 bs'' = payloads 0 bs))"
proof (cases "sz = 0 \<or> n = 0")
  case True
  from rbb_create_nothing [OF assms(1,2) this, of mem] show ?thesis by force
next
  case False
  then have p: "0 < unat sz" "0 < unat n" "sz \<noteq> 0" "n \<noteq> 0" by (simp_all add: unat_gt_0)
  from rbb_create_positive [OF assms(1) p(1) assms(2) p(2) assms(3), of mem] show ?thesis
    by (simp only: p(3,4) simp_thms)
qed

theorem rbb_create_destroy_witness:
  "\<exists>m h p r h' bs. demo_heap = Some m \<and> rt_rbb_create 100 3 demo_rbb_mem m = Inr (h, Some (p, r))
    \<and> rbb_free_list r = [2, 1, 0] \<and> rt_rbb_destroy p h = Inr h' \<and> smem_wf h' bs \<and> payloads 0 bs = {}"
proof -
  have "case demo_heap of None \<Rightarrow> False | Some m \<Rightarrow> mem_size_aligned m = 3904" by code_simp
  then obtain m where m: "demo_heap = Some m" "mem_size_aligned m = 3904" by (auto split: option.splits)
  have wf: "smem_wf m [(3968, False)]" using m smem_init_wf by (fastforce simp: demo_heap_def)
  have "\<exists>bs. spec_runs heap_spec [Alloc 28, Alloc 100, Alloc 36] [(3968, False)] = Some (bs, [Some 64, Some 192, Some 384])"
    by (simp add: heap_spec_def RT_ALIGN_def)
  then obtain bs where "spec_runs heap_spec [Alloc 28, Alloc 100, Alloc 36] [(3968, False)] = Some (bs, [Some 64, Some 192, Some 384])" ..
  from smem_sim.runs_sim [OF wf this] obtain h where "runs smem_step [Alloc 28, Alloc 100, Alloc 36] m = Inr (h, [Some 64, Some 192, Some 384])"
    by blast
  then have c: "rt_rbb_create 100 3 demo_rbb_mem m = and_then (rt_rbb_init (heap_ptr h + 192) 100 demo_rbb_mem 3)
      (\<lambda>r. Inr (h, Some (\<lparr>rbb_ptr = 64, buf_ptr = 192, blk_set_ptr = 384\<rparr>, r)))"
    by (auto simp: smem_step_def rt_rbb_create_def)
  have u: "rev [0..<3] = [2, 1, 0 :: nat]" by (simp add: upt_rec numeral_2_eq_2)
  from rbb_create_destroy [OF wf, of 100 3 demo_rbb_mem] m(1) show ?thesis
    by (auto simp: c u)
qed

end
