(* ===== verification/Nu_Bitutil.thy ===== *)
theory Nu_Bitutil
  imports Rt_Ffs
begin

unbundle bit_operations_syntax

text \<open>
  The bit utilities of the Nuvoton packages, \<open>NuUtils/inc/nu_bitutil.h\<close>, on which the interrupt handlers of the MA35
  drivers rest: counts of leading and trailing zeros and ones, and words of 16, 24 and 32 bits in byte arrays in both
  byte orders. A byte array is a list of bytes, read and written from its head; the callers pass arrays that are long
  enough. \<open>__CLZ\<close> is the builtin of the compiler, which is defined for words that are not zero. The properties show
  that the counts find the first bit, and that reading undoes writing and writing undoes reading.
\<close>

subsection \<open>Counting bits\<close>

definition clz_builtin :: "u32 \<Rightarrow> nat" where
  "clz_builtin x = length (takeWhile (\<lambda>i. \<not> bit x i) (rev [0..<32]))"

definition nu_clz :: "u32 \<Rightarrow> nat" where
  "nu_clz x = (if x \<noteq> 0 then clz_builtin x else 32)"

definition nu_clo :: "u32 \<Rightarrow> nat" where
  "nu_clo x = nu_clz (NOT x)"

definition nu_ctz :: "u32 \<Rightarrow> nat" where
  "nu_ctz x = (let c = (if x \<noteq> 0 then clz_builtin (x AND - x) else 32) in if x \<noteq> 0 then 31 - c else c)"

definition nu_cto :: "u32 \<Rightarrow> nat" where
  "nu_cto x = nu_ctz (NOT x)"

lemma clz_builtin_highest:
  assumes "bit x n" "\<And>i. n < i \<Longrightarrow> \<not> bit x i"
  shows "clz_builtin x = 31 - n"
proof -
  have n: "n < 32" using assms(1) bit_imp_le_length [of x n] by simp
  have "rev [0..<32] = rev [Suc n..<32] @ n # rev [0..<n]"
    using n upt_add_eq_append [of 0 n "32 - n"] by (simp add: upt_conv_Cons)
  moreover have "takeWhile (\<lambda>i. \<not> bit x i) (rev [Suc n..<32]) = rev [Suc n..<32]"
    using assms(2) by (auto simp: takeWhile_eq_all_conv)
  ultimately show ?thesis using assms(1) by (simp add: clz_builtin_def takeWhile_append)
qed

lemma and_minus_lowest:
  assumes "bit (x :: u32) n" "\<And>i. i < n \<Longrightarrow> \<not> bit x i"
  shows "x AND - x = 2 ^ n"
proof -
  have "x AND - x = (x AND (x - 1)) XOR x"
    unfolding minus_eq_not_minus_1 [of x] by (rule bit_eqI) (auto simp: bit_and_iff bit_xor_iff bit_not_iff)
  then show ?thesis using isolate_lowest_bit [OF assms] by simp
qed

lemma nu_ctz_lowest:
  assumes "bit x n" "\<And>i. i < n \<Longrightarrow> \<not> bit x i"
  shows "nu_ctz x = n"
proof -
  have n: "n < 32" using assms(1) bit_imp_le_length [of x n] by simp
  have "x \<noteq> 0" using assms(1) by auto
  moreover have "bit (2 ^ n :: u32) n" "\<And>i. n < i \<Longrightarrow> \<not> bit (2 ^ n :: u32) i" using n by (auto simp: bit_exp_iff)
  ultimately show ?thesis
    using and_minus_lowest [OF assms] clz_builtin_highest [of "2 ^ n" n] n by (simp add: nu_ctz_def)
qed

lemma nu_ctz_0 [simp]: "nu_ctz 0 = 32"
  by (simp add: nu_ctz_def)

lemma nu_ctz_cases:
  obtains "x = 0" "nu_ctz x = 32" | "x \<noteq> 0" "nu_ctz x < 32" "bit x (nu_ctz x)" "\<And>i. i < nu_ctz x \<Longrightarrow> \<not> bit x i"
proof (cases "x = 0")
  case False
  then obtain n where "bit x n" "\<forall>i < n. \<not> bit x i" "n < 32" using lowest_bit_ex by blast
  then show thesis using that(2) False nu_ctz_lowest [of x n] by simp
qed (use that in simp)

lemma highest_bit_ex:
  assumes "x \<noteq> (0 :: u32)"
  shows "\<exists>n < 32. bit x n \<and> (\<forall>i > n. \<not> bit x i)"
proof -
  have fin: "finite {n. bit x n}" by (rule finite_subset [of _ "{..<32}"]) (auto dest: bit_imp_le_length)
  have ne: "{n. bit x n} \<noteq> {}" using assms by (auto simp: bit_eq_iff)
  define m where "m = Max {n. bit x n}"
  have "bit x m" using Max_in [OF fin ne] by (simp add: m_def)
  moreover have "\<not> bit x i" if "m < i" for i
  proof
    assume "bit x i"
    then have "i \<le> m" unfolding m_def by (intro Max_ge [OF fin]) simp
    with that show False by simp
  qed
  moreover have "m < 32" using \<open>bit x m\<close> bit_imp_le_length [of x m] by simp
  ultimately show ?thesis by blast
qed

text \<open>
  C26. The counts of \<open>nu_bitutil.h\<close> find bits: \<open>nu_ctz\<close> is the index of the lowest bit that is set and 32 for 0,
  \<open>nu_cto\<close> that of the lowest bit that is clear, and \<open>nu_clz\<close> and \<open>nu_clo\<close> lead to the highest ones.
\<close>

theorem bit_counts_find:
  "(if x = 0 then nu_ctz x = 32 else bit x (nu_ctz x) \<and> (\<forall>i < nu_ctz x. \<not> bit x i))
    \<and> (if x = - 1 then nu_cto x = 32 else nu_cto x < 32 \<and> \<not> bit x (nu_cto x) \<and> (\<forall>i < nu_cto x. bit x i))
    \<and> (if x = 0 then nu_clz x = 32 else nu_clz x \<le> 31 \<and> bit x (31 - nu_clz x) \<and> (\<forall>i > 31 - nu_clz x. \<not> bit x i))
    \<and> (if x = - 1 then nu_clo x = 32 else nu_clo x \<le> 31 \<and> \<not> bit x (31 - nu_clo x)
        \<and> (\<forall>i > 31 - nu_clo x. i < 32 \<longrightarrow> bit x i))"
proof -
  have ctz: "if x = 0 then nu_ctz x = 32 else nu_ctz x < 32 \<and> bit x (nu_ctz x) \<and> (\<forall>i < nu_ctz x. \<not> bit x i)" for x
    by (rule nu_ctz_cases [of x]) auto
  have clz: "if x = 0 then nu_clz x = 32 else nu_clz x \<le> 31 \<and> bit x (31 - nu_clz x) \<and> (\<forall>i > 31 - nu_clz x. \<not> bit x i)" for x
  proof (cases "x = 0")
    case False
    then obtain n where n: "n < 32" "bit x n" "\<forall>i > n. \<not> bit x i" using highest_bit_ex by blast
    then have "nu_clz x = 31 - n" using clz_builtin_highest [of x n] False by (simp add: nu_clz_def)
    then show ?thesis using n False by simp
  qed (simp add: nu_clz_def)
  have z: "NOT x = 0 \<longleftrightarrow> x = - 1" by (metis bit.compl_one bit.double_compl)
  have b: "bit (NOT x) i \<longleftrightarrow> \<not> bit x i" if "i < 32" for i using that by (simp add: bit_not_iff)
  show ?thesis
    using ctz [of x] clz [of x] ctz [of "NOT x"] clz [of "NOT x"] unfolding nu_cto_def nu_clo_def z
    by (auto simp: b split: if_splits)
qed

theorem bit_counts_find_witness:
  "bit (0x50 :: u32) (nu_ctz 0x50) \<and> bit (0x50 :: u32) (31 - nu_clz 0x50) \<and> \<not> bit (0x50 :: u32) (nu_cto 0x50)
    \<and> \<not> bit (0x50 :: u32) (31 - nu_clo 0x50)"
  using bit_counts_find [of "0x50"] by simp

subsection \<open>Byte orders\<close>

definition nu_get16_le :: "u8 list \<Rightarrow> u16" where
  "nu_get16_le pos = (let val = ucast (pos ! 0) in val + push_bit 8 (ucast (pos ! 1)))"

definition nu_set16_le :: "u8 list \<Rightarrow> u16 \<Rightarrow> u8 list" where
  "nu_set16_le pos val = pos[0 := ucast (val AND 0xFF), 1 := ucast (drop_bit 8 val)]"

definition nu_get32_le :: "u8 list \<Rightarrow> u32" where
  "nu_get32_le pos =
    (let val = ucast (pos ! 0);
         val = val + push_bit 8 (ucast (pos ! 1));
         val = val + push_bit 16 (ucast (pos ! 2))
     in val + push_bit 24 (ucast (pos ! 3)))"

definition nu_get24_le :: "u8 list \<Rightarrow> u32" where
  "nu_get24_le pos =
    (let val = ucast (pos ! 0);
         val = val + push_bit 8 (ucast (pos ! 1))
     in val + push_bit 16 (ucast (pos ! 2)))"

definition nu_set24_le :: "u8 list \<Rightarrow> u32 \<Rightarrow> u8 list" where
  "nu_set24_le pos val =
    pos[0 := ucast (val AND 0xFF), 1 := ucast (drop_bit 8 val AND 0xFF), 2 := ucast (drop_bit 16 val AND 0xFF)]"

definition nu_set32_le :: "u8 list \<Rightarrow> u32 \<Rightarrow> u8 list" where
  "nu_set32_le pos val =
    pos[0 := ucast (val AND 0xFF), 1 := ucast (drop_bit 8 val AND 0xFF), 2 := ucast (drop_bit 16 val AND 0xFF),
        3 := ucast (drop_bit 24 val AND 0xFF)]"

definition nu_get16_be :: "u8 list \<Rightarrow> u16" where
  "nu_get16_be pos = (let val = ucast (pos ! 0); val = push_bit 8 val in val + ucast (pos ! 1))"

definition nu_set16_be :: "u8 list \<Rightarrow> u16 \<Rightarrow> u8 list" where
  "nu_set16_be pos val = pos[0 := ucast (drop_bit 8 val), 1 := ucast (val AND 0xFF)]"

definition nu_get24_be :: "u8 list \<Rightarrow> u32" where
  "nu_get24_be pos =
    (let val = ucast (pos ! 0);
         val = push_bit 8 val;
         val = val + ucast (pos ! 1);
         val = push_bit 8 val
     in val + ucast (pos ! 2))"

definition nu_set24_be :: "u8 list \<Rightarrow> u32 \<Rightarrow> u8 list" where
  "nu_set24_be pos val = pos[0 := ucast (drop_bit 16 val), 1 := ucast (drop_bit 8 val), 2 := ucast (val AND 0xFF)]"

definition nu_get32_be :: "u8 list \<Rightarrow> u32" where
  "nu_get32_be pos =
    (let val = ucast (pos ! 0);
         val = push_bit 8 val;
         val = val + ucast (pos ! 1);
         val = push_bit 8 val;
         val = val + ucast (pos ! 2);
         val = push_bit 8 val
     in val + ucast (pos ! 3))"

definition nu_set32_be :: "u8 list \<Rightarrow> u32 \<Rightarrow> u8 list" where
  "nu_set32_be pos val =
    pos[0 := ucast (drop_bit 24 val), 1 := ucast (drop_bit 16 val), 2 := ucast (drop_bit 8 val), 3 := ucast (val AND 0xFF)]"

text \<open>The sums have no carries: the words consist of their bytes.\<close>

lemma bit_byte: "bit (ucast (b :: u8) :: 'w::len word) n \<longleftrightarrow> n < 8 \<and> bit b n \<and> n < LENGTH('w)"
  by (auto simp: bit_simps dest: bit_imp_le_length)

lemma add_shifted_byte:
  fixes x :: "'w::len word"
  assumes "\<And>n. bit x n \<Longrightarrow> n < k"
  shows "x + push_bit k (ucast (b :: u8)) = x OR push_bit k (ucast b)"
  by (rule disjunctive_add) (use assms in \<open>fastforce simp: bit_push_bit_iff\<close>)

lemma shift_add_byte: "push_bit 8 x + ucast (b :: u8) = (push_bit 8 x OR ucast b :: 'w::len word)"
  by (rule disjunctive_add) (auto simp: bit_push_bit_iff bit_byte)

lemma add_bytes:
  fixes a b c d :: u8
  shows "(ucast a :: 'w::len word) + push_bit 8 (ucast b) = ucast a OR push_bit 8 (ucast b)"
    and "(ucast a OR push_bit 8 (ucast b) :: 'w word) + push_bit 16 (ucast c) = ucast a OR push_bit 8 (ucast b) OR push_bit 16 (ucast c)"
    and "(ucast a OR push_bit 8 (ucast b) OR push_bit 16 (ucast c) :: 'w word) + push_bit 24 (ucast d)
      = ucast a OR push_bit 8 (ucast b) OR push_bit 16 (ucast c) OR push_bit 24 (ucast d)"
  by (subst add_shifted_byte; auto simp: bit_or_iff bit_push_bit_iff bit_byte ac_simps)+

lemmas get_le_defs = nu_get16_le_def nu_get24_le_def nu_get32_le_def

lemma get_le_bits:
  "bit (nu_get16_le pos) n \<longleftrightarrow> (if n < 8 then bit (pos ! 0) n else n < 16 \<and> bit (pos ! 1) (n - 8))"
  "bit (nu_get24_le pos) n \<longleftrightarrow> (if n < 8 then bit (pos ! 0) n else if n < 16 then bit (pos ! 1) (n - 8)
     else n < 24 \<and> bit (pos ! 2) (n - 16))"
  "bit (nu_get32_le pos) n \<longleftrightarrow> (if n < 8 then bit (pos ! 0) n else if n < 16 then bit (pos ! 1) (n - 8)
     else if n < 24 then bit (pos ! 2) (n - 16) else n < 32 \<and> bit (pos ! 3) (n - 24))"
proof -
  have l: "bit b m \<Longrightarrow> m < 8" for b :: u8 and m using bit_imp_le_length [of b m] by simp
  show "bit (nu_get16_le pos) n \<longleftrightarrow> (if n < 8 then bit (pos ! 0) n else n < 16 \<and> bit (pos ! 1) (n - 8))"
    by (auto simp: get_le_defs Let_def add_bytes bit_or_iff bit_push_bit_iff bit_byte dest: l)
  show "bit (nu_get24_le pos) n \<longleftrightarrow> (if n < 8 then bit (pos ! 0) n else if n < 16 then bit (pos ! 1) (n - 8)
     else n < 24 \<and> bit (pos ! 2) (n - 16))"
    by (auto simp: get_le_defs Let_def add_bytes bit_or_iff bit_push_bit_iff bit_byte dest: l)
  show "bit (nu_get32_le pos) n \<longleftrightarrow> (if n < 8 then bit (pos ! 0) n else if n < 16 then bit (pos ! 1) (n - 8)
     else if n < 24 then bit (pos ! 2) (n - 16) else n < 32 \<and> bit (pos ! 3) (n - 24))"
    by (auto simp: get_le_defs Let_def add_bytes bit_or_iff bit_push_bit_iff bit_byte dest: l)
qed

text \<open>Big-endian reading is little-endian reading backwards.\<close>

lemma get_be_le:
  "nu_get16_be pos = nu_get16_le [pos ! 1, pos ! 0]"
  "nu_get24_be pos = nu_get24_le [pos ! 2, pos ! 1, pos ! 0]"
  "nu_get32_be pos = nu_get32_le [pos ! 3, pos ! 2, pos ! 1, pos ! 0]"
  by (rule bit_eqI, auto simp: get_le_bits nu_get16_be_def nu_get24_be_def nu_get32_be_def Let_def shift_add_byte bit_or_iff bit_push_bit_iff bit_byte
      nth_Cons' dest: bit_imp_le_length)+

lemmas set_defs = nu_set16_le_def nu_set24_le_def nu_set32_le_def nu_set16_be_def nu_set24_be_def nu_set32_be_def

lemma mask_bits [simp]:
  "bit (0xFF :: nat) n \<longleftrightarrow> n < 8" "bit (0xFFFFFF :: nat) n \<longleftrightarrow> n < 24"
  "bit (0xFF :: int) n \<longleftrightarrow> n < 8" "bit (0xFFFFFF :: int) n \<longleftrightarrow> n < 24"
proof -
  have "(0xFF :: nat) = mask 8" "(0xFFFFFF :: nat) = mask 24" "(0xFF :: int) = mask 8" "(0xFFFFFF :: int) = mask 24"
    by (simp_all add: mask_eq_exp_minus_1)
  then show "bit (0xFF :: nat) n \<longleftrightarrow> n < 8" "bit (0xFFFFFF :: nat) n \<longleftrightarrow> n < 24"
    "bit (0xFF :: int) n \<longleftrightarrow> n < 8" "bit (0xFFFFFF :: int) n \<longleftrightarrow> n < 24"
    by (simp_all only: bit_mask_iff) auto
qed

lemma ucast_bit: "bit (ucast (w :: 'a::len word) :: u8) n \<longleftrightarrow> n < 8 \<and> bit w n"
  by (auto simp: bit_simps)

lemma long_list:
  "2 \<le> length xs \<Longrightarrow> \<exists>a b ys. xs = a # b # ys" "3 \<le> length xs \<Longrightarrow> \<exists>a b c ys. xs = a # b # c # ys"
  "4 \<le> length xs \<Longrightarrow> \<exists>a b c d ys. xs = a # b # c # d # ys"
  by (auto simp: numeral_eq_Suc Suc_le_length_iff)

lemmas byte_bits = get_le_bits get_be_le set_defs ucast_bit bit_and_iff bit_drop_bit_eq

lemma update_bytes:
  "(a # b # p)[0 := x, Suc 0 := y] = x # y # p" "(a # b # c # p)[0 := x, Suc 0 := y, 2 := z] = x # y # z # p"
  "(a # b # c # d # p)[0 := x, Suc 0 := y, 2 := z, 3 := u] = x # y # z # u # p"
  by (simp_all add: numeral_2_eq_2 numeral_3_eq_3)

lemma get_set_bytes:
  "nu_get16_le (nu_set16_le (a # b # p) v) = v" "nu_get16_be (nu_set16_be (a # b # p) v) = v"
  "nu_get24_le (nu_set24_le (a # b # c # p) w) = w AND 0xFFFFFF" "nu_get24_be (nu_set24_be (a # b # c # p) w) = w AND 0xFFFFFF"
  "nu_get32_le (nu_set32_le (a # b # c # d # p) w) = w" "nu_get32_be (nu_set32_be (a # b # c # d # p) w) = w"
  by - (rule bit_eqI, simp add: byte_bits update_bytes, (linarith | force)?)+

lemma set_get_bytes:
  "nu_set16_le (a # b # p) (nu_get16_le (a # b # q)) = a # b # p" "nu_set16_be (a # b # p) (nu_get16_be (a # b # q)) = a # b # p"
  "nu_set24_le (a # b # c # p) (nu_get24_le (a # b # c # q)) = a # b # c # p"
  "nu_set24_be (a # b # c # p) (nu_get24_be (a # b # c # q)) = a # b # c # p"
  "nu_set32_le (a # b # c # d # p) (nu_get32_le (a # b # c # d # q)) = a # b # c # d # p"
  "nu_set32_be (a # b # c # d # p) (nu_get32_be (a # b # c # d # q)) = a # b # c # d # p"
  by - (simp add: set_defs update_bytes, (intro conjI bit_eqI; simp add: byte_bits))+

text \<open>The value of a word in terms of its bytes.\<close>

lemma unat_byte:
  fixes b :: u8
  assumes "k + 8 \<le> LENGTH('w)"
  shows "unat (push_bit k (ucast b) :: 'w::len word) = 2 ^ k * unat b"
proof -
  have b: "unat b < 2 ^ 8" using unsigned_less [of b, where 'a = nat] by simp
  have "unat b < 2 ^ LENGTH('w)" by (rule less_le_trans [OF b], rule power_increasing) (use assms in simp_all)
  then have "unat (ucast b :: 'w word) = unat b" by (simp add: unsigned_ucast_eq take_bit_nat_eq_self)
  moreover have "2 ^ k * unat b < 2 ^ LENGTH('w)"
  proof -
    have "2 ^ k * unat b < 2 ^ (k + 8)" using b by (simp add: power_add)
    also have "\<dots> \<le> 2 ^ LENGTH('w)" by (rule power_increasing) (use assms in simp_all)
    finally show ?thesis .
  qed
  moreover have "unat (of_nat (2 ^ k) :: 'w word) = 2 ^ k"
    unfolding unat_of_nat using assms by (intro mod_less power_strict_increasing) simp_all
  then have "unat (2 ^ k :: 'w word) = 2 ^ k" by simp
  moreover note this
  ultimately have "unat ((ucast b :: 'w word) * 2 ^ k) = unat b * 2 ^ k" by (metis mult.commute unat_mult_lem)
  then show ?thesis by (simp add: push_bit_eq_mult mult.commute)
qed

lemma get_le_value:
  "unat (nu_get16_le p) = unat (p ! 0) + 2 ^ 8 * unat (p ! 1)"
  "unat (nu_get24_le p) = unat (p ! 0) + 2 ^ 8 * unat (p ! 1) + 2 ^ 16 * unat (p ! 2)"
  "unat (nu_get32_le p) = unat (p ! 0) + 2 ^ 8 * unat (p ! 1) + 2 ^ 16 * unat (p ! 2) + 2 ^ 24 * unat (p ! 3)"
proof -
  have b: "unat x < 256" for x :: u8 using unsigned_less [of x, where 'a = nat] by simp
  note bs = b [of "p ! 0"] b [of "p ! 1"] b [of "p ! 2"] b [of "p ! 3"]
  have z: "unat (ucast x :: u16) = unat x" "unat (ucast x :: u32) = unat x" for x :: u8
    using unat_byte [where 'w = 16 and k = 0 and b = x] unat_byte [where 'w = 32 and k = 0 and b = x] by simp_all
  show "unat (nu_get16_le p) = unat (p ! 0) + 2 ^ 8 * unat (p ! 1)"
    using bs by (simp add: nu_get16_le_def Let_def unat_word_ariths(1) unat_byte z)
  show "unat (nu_get24_le p) = unat (p ! 0) + 2 ^ 8 * unat (p ! 1) + 2 ^ 16 * unat (p ! 2)"
    using bs by (simp add: nu_get24_le_def Let_def unat_word_ariths(1) unat_byte z)
  show "unat (nu_get32_le p) = unat (p ! 0) + 2 ^ 8 * unat (p ! 1) + 2 ^ 16 * unat (p ! 2) + 2 ^ 24 * unat (p ! 3)"
    using bs by (simp add: nu_get32_le_def Let_def unat_word_ariths(1) unat_byte z)
qed

text \<open>
  C27. Bytes and words. In both byte orders and for 16, 24 and 32 bits, reading a word that was written into an array gives the
  word (its low 24 bits, for 24 bits), and writing back a word that was read leaves the array as it is. A little-endian
  word has the value of its bytes with the weights 1, \<open>2 ^ 8\<close>, \<open>2 ^ 16\<close> and \<open>2 ^ 24\<close>, and reading in big-endian order is reading the bytes
  backwards in little-endian order.
\<close>

theorem byte_order_roundtrip:
  assumes "2 \<le> length p" and "3 \<le> length q" and "4 \<le> length r"
  shows "nu_get16_le (nu_set16_le p v) = v \<and> nu_set16_le p (nu_get16_le p) = p
    \<and> nu_get16_be (nu_set16_be p v) = v \<and> nu_set16_be p (nu_get16_be p) = p
    \<and> nu_get24_le (nu_set24_le q w) = w AND 0xFFFFFF \<and> nu_set24_le q (nu_get24_le q) = q
    \<and> nu_get24_be (nu_set24_be q w) = w AND 0xFFFFFF \<and> nu_set24_be q (nu_get24_be q) = q
    \<and> nu_get32_le (nu_set32_le r w) = w \<and> nu_set32_le r (nu_get32_le r) = r
    \<and> nu_get32_be (nu_set32_be r w) = w \<and> nu_set32_be r (nu_get32_be r) = r
    \<and> unat (nu_get16_le p) = unat (p ! 0) + 2 ^ 8 * unat (p ! 1)
    \<and> unat (nu_get24_le q) = unat (q ! 0) + 2 ^ 8 * unat (q ! 1) + 2 ^ 16 * unat (q ! 2)
    \<and> unat (nu_get32_le r) = unat (r ! 0) + 2 ^ 8 * unat (r ! 1) + 2 ^ 16 * unat (r ! 2) + 2 ^ 24 * unat (r ! 3)
    \<and> nu_get16_be p = nu_get16_le (rev (take 2 p)) \<and> nu_get24_be q = nu_get24_le (rev (take 3 q))
    \<and> nu_get32_be r = nu_get32_le (rev (take 4 r))"
proof -
  obtain a b c d ys where r: "r = a # b # c # d # ys" using long_list(3) [OF assms(3)] by blast
  obtain a' b' zs where p: "p = a' # b' # zs" using long_list(1) [OF assms(1)] by blast
  obtain a'' b'' c'' us where q: "q = a'' # b'' # c'' # us" using long_list(2) [OF assms(2)] by blast
  have be: "nu_get16_be p = nu_get16_le (rev (take 2 p))" "nu_get24_be q = nu_get24_le (rev (take 3 q))"
    "nu_get32_be r = nu_get32_le (rev (take 4 r))"
    using get_be_le(1) [of p] get_be_le(2) [of q] get_be_le(3) [of r] by (simp_all add: p q r)
  show ?thesis by (intro conjI be get_le_value) (simp_all only: p q r get_set_bytes set_get_bytes)
qed

theorem byte_order_roundtrip_witness:
  "nu_get32_be (nu_set32_be [1, 2, 3, 4, 5] 0xdeadbeef) = 0xdeadbeef \<and> nu_set24_le [1, 2, 3] (nu_get24_le [1, 2, 3]) = [1, 2, 3]
    \<and> unat (nu_get16_le [1, 2]) = 0x201"
  using byte_order_roundtrip [of "[1, 2]" "[1, 2, 3]" "[1, 2, 3, 4, 5]", where w = "0xdeadbeef"] by simp

end
