(* ===== verification/Nu_Pdma_Reg.thy ===== *)
theory Nu_Pdma_Reg
  imports Rt_Kernel Nu_Bitutil
begin

unbundle bit_operations_syntax

text \<open>
  The registers of the peripheral DMA of the MA35 and the functions of \<open>StdDriver/src/nu_pdma.c\<close> on them. A register
  that keeps its value is a field; a register in which a write starts something is the list of the values written.
  Descriptors, those of the channels and those in memory, are a function from addresses.
\<close>

subsection \<open>Registers\<close>

record DSCT_T =
  DSCT_CTL :: u32
  DSCT_SA :: u32
  DSCT_DA :: u32
  DSCT_NEXT :: u32

datatype pdma_status = ABTSTS | TDSTS | ALIGN_STS | INTSTS

record PDMA_T =
  CHCTL :: u32
  CHRST :: "u32 list"
  SWREQ :: "u32 list"
  INTEN :: u32
  TOUTPSC :: u32
  TOUTPSC1 :: u32
  TOUTEN :: u32
  TOUTIEN :: u32
  REQSEL :: "nat \<Rightarrow> u32"
  TOC :: "nat \<Rightarrow> u32"
  ASOCR :: "nat \<Rightarrow> u32"
  STCR :: "nat \<Rightarrow> u32"
  AICTL :: "nat \<Rightarrow> u32"
  RCNT :: "nat \<Rightarrow> u32"
  status_clears :: "(pdma_status \<times> u32) list"

record pdma_hw =
  modules :: "nat \<Rightarrow> PDMA_T"
  descs :: "u32 \<Rightarrow> DSCT_T"

definition PDMA_CH_MAX :: nat where
  "PDMA_CH_MAX = 10"

definition PDMA_CNT :: nat where
  "PDMA_CNT = 2"

definition PDMA_CH_Msk :: u32 where
  "PDMA_CH_Msk = 0x3ff"

definition PDMA_BASE :: "nat \<Rightarrow> u32" where
  "PDMA_BASE m = of_nat m * 0x10000 + 0x40080000"

text \<open>The address of the descriptor of channel \<open>c\<close> of module \<open>m\<close>.\<close>

definition DSCT :: "nat \<Rightarrow> nat \<Rightarrow> u32" where
  "DSCT m c = PDMA_BASE m + 16 * of_nat c"

definition upd_mod :: "nat \<Rightarrow> (PDMA_T \<Rightarrow> PDMA_T) \<Rightarrow> pdma_hw \<Rightarrow> pdma_hw" where
  "upd_mod m f h = h\<lparr>modules := (modules h)(m := f (modules h m))\<rparr>"

definition upd_desc :: "u32 \<Rightarrow> (DSCT_T \<Rightarrow> DSCT_T) \<Rightarrow> pdma_hw \<Rightarrow> pdma_hw" where
  "upd_desc d f h = h\<lparr>descs := (descs h)(d := f (descs h d))\<rparr>"

definition bit_of :: "nat \<Rightarrow> u32" where
  "bit_of c = push_bit c 1"

abbreviation PDMA_DSCT_CTL_OPMODE_Msk :: u32 where "PDMA_DSCT_CTL_OPMODE_Msk \<equiv> 0x3"
abbreviation PDMA_DSCT_CTL_TXTYPE_Msk :: u32 where "PDMA_DSCT_CTL_TXTYPE_Msk \<equiv> 0x4"
abbreviation PDMA_DSCT_CTL_BURSIZE_Msk :: u32 where "PDMA_DSCT_CTL_BURSIZE_Msk \<equiv> 0x70"
abbreviation PDMA_DSCT_CTL_TBINTDIS_Msk :: u32 where "PDMA_DSCT_CTL_TBINTDIS_Msk \<equiv> 0x80"
abbreviation PDMA_DSCT_CTL_SAINC_Msk :: u32 where "PDMA_DSCT_CTL_SAINC_Msk \<equiv> 0x300"
abbreviation PDMA_DSCT_CTL_DAINC_Msk :: u32 where "PDMA_DSCT_CTL_DAINC_Msk \<equiv> 0xC00"
abbreviation PDMA_DSCT_CTL_TXWIDTH_Msk :: u32 where "PDMA_DSCT_CTL_TXWIDTH_Msk \<equiv> 0x3000"
abbreviation PDMA_DSCT_CTL_STRIDEEN_Msk :: u32 where "PDMA_DSCT_CTL_STRIDEEN_Msk \<equiv> 0x8000"
abbreviation PDMA_DSCT_CTL_TXCNT_Msk :: u32 where "PDMA_DSCT_CTL_TXCNT_Msk \<equiv> 0xffff0000"
abbreviation PDMA_OP_BASIC :: u32 where "PDMA_OP_BASIC \<equiv> 1"
abbreviation PDMA_OP_SCATTER :: u32 where "PDMA_OP_SCATTER \<equiv> 2"
abbreviation PDMA_WIDTH_8 :: u32 where "PDMA_WIDTH_8 \<equiv> 0"
abbreviation PDMA_WIDTH_16 :: u32 where "PDMA_WIDTH_16 \<equiv> 0x1000"
abbreviation PDMA_WIDTH_32 :: u32 where "PDMA_WIDTH_32 \<equiv> 0x2000"
abbreviation PDMA_SAR_INC :: u32 where "PDMA_SAR_INC \<equiv> 0"
abbreviation PDMA_SAR_FIX :: u32 where "PDMA_SAR_FIX \<equiv> 0x300"
abbreviation PDMA_DAR_INC :: u32 where "PDMA_DAR_INC \<equiv> 0"
abbreviation PDMA_DAR_FIX :: u32 where "PDMA_DAR_FIX \<equiv> 0xC00"
abbreviation PDMA_REQ_SINGLE :: u32 where "PDMA_REQ_SINGLE \<equiv> 4"
abbreviation PDMA_REQ_BURST :: u32 where "PDMA_REQ_BURST \<equiv> 0"
abbreviation PDMA_BURST_32 :: u32 where "PDMA_BURST_32 \<equiv> 0x20"
abbreviation PDMA_MEM :: u32 where "PDMA_MEM \<equiv> 0"
abbreviation PDMA_INT_TRANS_DONE :: u32 where "PDMA_INT_TRANS_DONE \<equiv> 1"
abbreviation PDMA_INT_TEMPTY :: u32 where "PDMA_INT_TEMPTY \<equiv> 2"
abbreviation PDMA_INT_TIMEOUT :: u32 where "PDMA_INT_TIMEOUT \<equiv> 4"

definition PDMA_Open :: "nat \<Rightarrow> u32 \<Rightarrow> pdma_hw \<Rightarrow> pdma_hw" where
  "PDMA_Open m mask_bits h =
    (let h = fold (\<lambda>i h. if bit_of i AND mask_bits \<noteq> 0 then upd_desc (DSCT m i) (\<lambda>d. d\<lparr>DSCT_CTL := 0\<rparr>) h else h) [0..<PDMA_CH_MAX] h
     in upd_mod m (\<lambda>p. p\<lparr>CHCTL := CHCTL p OR mask_bits\<rparr>) h)"

definition PDMA_Close :: "nat \<Rightarrow> pdma_hw \<Rightarrow> pdma_hw" where
  "PDMA_Close m h = upd_mod m (\<lambda>p. p\<lparr>CHCTL := 0\<rparr>) h"

definition PDMA_SetTransferCnt :: "nat \<Rightarrow> nat \<Rightarrow> u32 \<Rightarrow> u32 \<Rightarrow> pdma_hw \<Rightarrow> pdma_hw" where
  "PDMA_SetTransferCnt m c width n h =
    upd_desc (DSCT m c) (\<lambda>d. d\<lparr>DSCT_CTL := (DSCT_CTL d AND NOT (PDMA_DSCT_CTL_TXCNT_Msk OR PDMA_DSCT_CTL_TXWIDTH_Msk))
      OR (width OR push_bit 16 (n - 1))\<rparr>) h"

definition PDMA_SetStride :: "nat \<Rightarrow> nat \<Rightarrow> u32 \<Rightarrow> u32 \<Rightarrow> u32 \<Rightarrow> pdma_hw \<Rightarrow> pdma_hw" where
  "PDMA_SetStride m c dest_len src_len n h =
    (let h = upd_desc (DSCT m c) (\<lambda>d. d\<lparr>DSCT_CTL := DSCT_CTL d OR PDMA_DSCT_CTL_STRIDEEN_Msk\<rparr>) h
     in upd_mod m (\<lambda>p. p\<lparr>ASOCR := (ASOCR p)(c := push_bit 16 (dest_len - 1) OR (src_len - 1)), STCR := (STCR p)(c := n - 1)\<rparr>) h)"

definition PDMA_SetRepeat :: "nat \<Rightarrow> nat \<Rightarrow> u32 \<Rightarrow> u32 \<Rightarrow> u32 \<Rightarrow> pdma_hw \<Rightarrow> pdma_hw" where
  "PDMA_SetRepeat m c dest_iv src_iv n h =
    (let h = upd_desc (DSCT m c) (\<lambda>d. d\<lparr>DSCT_CTL := DSCT_CTL d OR PDMA_DSCT_CTL_STRIDEEN_Msk\<rparr>) h
     in upd_mod m (\<lambda>p. p\<lparr>AICTL := (AICTL p)(c := push_bit 16 dest_iv OR src_iv), RCNT := (RCNT p)(c := n)\<rparr>) h)"

definition PDMA_SetTransferAddr :: "nat \<Rightarrow> nat \<Rightarrow> u32 \<Rightarrow> u32 \<Rightarrow> u32 \<Rightarrow> u32 \<Rightarrow> pdma_hw \<Rightarrow> pdma_hw" where
  "PDMA_SetTransferAddr m c src src_ctl dst dst_ctl h =
    upd_desc (DSCT m c) (\<lambda>d. d\<lparr>DSCT_SA := src, DSCT_DA := dst,
      DSCT_CTL := (DSCT_CTL d AND NOT (PDMA_DSCT_CTL_SAINC_Msk OR PDMA_DSCT_CTL_DAINC_Msk)) OR (src_ctl OR dst_ctl)\<rparr>) h"

definition PDMA_SetTransferMode :: "nat \<Rightarrow> nat \<Rightarrow> u32 \<Rightarrow> bool \<Rightarrow> u32 \<Rightarrow> pdma_hw \<Rightarrow> pdma_hw" where
  "PDMA_SetTransferMode m c peripheral scatter desc h =
    (if c < PDMA_CH_MAX
     then
       let pos = (c mod 4) * 8; msk = push_bit pos 0xff;
           h = upd_mod m (\<lambda>p. p\<lparr>REQSEL := (REQSEL p)(c div 4 := (REQSEL p (c div 4) AND NOT msk) OR push_bit pos peripheral)\<rparr>) h
       in if scatter
          then upd_desc (DSCT m c) (\<lambda>d. d\<lparr>DSCT_NEXT := desc,
                 DSCT_CTL := (DSCT_CTL d AND NOT PDMA_DSCT_CTL_OPMODE_Msk) OR PDMA_OP_SCATTER\<rparr>) h
          else upd_desc (DSCT m c) (\<lambda>d. d\<lparr>DSCT_CTL := (DSCT_CTL d AND NOT PDMA_DSCT_CTL_OPMODE_Msk) OR PDMA_OP_BASIC\<rparr>) h
     else h)"

definition PDMA_SetBurstType :: "nat \<Rightarrow> nat \<Rightarrow> u32 \<Rightarrow> u32 \<Rightarrow> pdma_hw \<Rightarrow> pdma_hw" where
  "PDMA_SetBurstType m c type sz h =
    upd_desc (DSCT m c) (\<lambda>d. d\<lparr>DSCT_CTL := (DSCT_CTL d AND NOT (PDMA_DSCT_CTL_TXTYPE_Msk OR PDMA_DSCT_CTL_BURSIZE_Msk))
      OR (type OR sz)\<rparr>) h"

definition PDMA_EnableTimeout :: "nat \<Rightarrow> u32 \<Rightarrow> pdma_hw \<Rightarrow> pdma_hw" where
  "PDMA_EnableTimeout m mask_bits h = upd_mod m (\<lambda>p. p\<lparr>TOUTEN := TOUTEN p OR mask_bits\<rparr>) h"

definition PDMA_DisableTimeout :: "nat \<Rightarrow> u32 \<Rightarrow> pdma_hw \<Rightarrow> pdma_hw" where
  "PDMA_DisableTimeout m mask_bits h = upd_mod m (\<lambda>p. p\<lparr>TOUTEN := TOUTEN p AND NOT mask_bits\<rparr>) h"

definition PDMA_SetTimeOut :: "nat \<Rightarrow> nat \<Rightarrow> bool \<Rightarrow> u32 \<Rightarrow> pdma_hw \<Rightarrow> pdma_hw" where
  "PDMA_SetTimeOut m c on n h =
    (if c < PDMA_CH_MAX
     then
       let pos = (c mod 2) * 16; msk = push_bit pos 0xffff;
           h = upd_mod m (\<lambda>p. p\<lparr>TOC := (TOC p)(c div 2 := (TOC p (c div 2) AND NOT msk) OR push_bit pos n)\<rparr>) h
       in upd_mod m (\<lambda>p. p\<lparr>TOUTEN := (if on then TOUTEN p OR bit_of c else TOUTEN p AND NOT (bit_of c))\<rparr>) h
     else h)"

definition PDMA_Trigger :: "nat \<Rightarrow> nat \<Rightarrow> pdma_hw \<Rightarrow> pdma_hw" where
  "PDMA_Trigger m c h =
    (let pos = (c mod 4) * 8; msk = push_bit pos 0xff;
         req = drop_bit pos (REQSEL (modules h m) (c div 4) AND msk)
     in if req = PDMA_MEM then upd_mod m (\<lambda>p. p\<lparr>SWREQ := SWREQ p @ [bit_of c]\<rparr>) h else h)"

definition PDMA_EnableInt :: "nat \<Rightarrow> nat \<Rightarrow> u32 \<Rightarrow> pdma_hw \<Rightarrow> pdma_hw" where
  "PDMA_EnableInt m c mask_bits h =
    (let h = (if mask_bits AND PDMA_INT_TRANS_DONE \<noteq> 0 then upd_mod m (\<lambda>p. p\<lparr>INTEN := INTEN p OR bit_of c\<rparr>) h else h);
         h = (if mask_bits AND PDMA_INT_TEMPTY \<noteq> 0
              then upd_desc (DSCT m c) (\<lambda>d. d\<lparr>DSCT_CTL := DSCT_CTL d AND NOT PDMA_DSCT_CTL_TBINTDIS_Msk\<rparr>) h else h)
     in if mask_bits AND PDMA_INT_TIMEOUT \<noteq> 0 then upd_mod m (\<lambda>p. p\<lparr>TOUTIEN := TOUTIEN p OR bit_of c\<rparr>) h else h)"

definition PDMA_DisableInt :: "nat \<Rightarrow> nat \<Rightarrow> u32 \<Rightarrow> pdma_hw \<Rightarrow> pdma_hw" where
  "PDMA_DisableInt m c mask_bits h =
    (let h = (if mask_bits AND PDMA_INT_TRANS_DONE \<noteq> 0 then upd_mod m (\<lambda>p. p\<lparr>INTEN := INTEN p AND NOT (bit_of c)\<rparr>) h else h);
         h = (if mask_bits AND PDMA_INT_TEMPTY \<noteq> 0
              then upd_desc (DSCT m c) (\<lambda>d. d\<lparr>DSCT_CTL := DSCT_CTL d OR PDMA_DSCT_CTL_TBINTDIS_Msk\<rparr>) h else h)
     in if mask_bits AND PDMA_INT_TIMEOUT \<noteq> 0 then upd_mod m (\<lambda>p. p\<lparr>TOUTIEN := TOUTIEN p AND NOT (bit_of c)\<rparr>) h else h)"

end
