(* ===== verification/Nu_Pdma.thy ===== *)
theory Nu_Pdma
  imports Nu_Pdma_Reg Rt_Refine "HOL-Library.While_Combinator"
begin

unbundle bit_operations_syntax

text \<open>
  The DMA driver of the MA35, \<open>libraries/ma35/rtt_port/drv_pdma.c\<close>, with the two modules of ten channels of this
  build. What the hardware changes by itself is not modelled: the status words of an interrupt are arguments, and the
  wait for the end of a channel reset ends. The functions that the driver calls back are numbers, run by an argument
  in the interrupt handler; \<open>events\<close> lists the calls of the trigger function, the cache maintenance, and the descriptor
  tables taken from the heap and given back. The heap is an argument, too: what it gives for a number of descriptors.
  A thread in \<open>nu_pdma_memfun\<close> waits at two semaphores and a mutex, whose counts and lock are all that is modelled of them.
  The properties show that channels and actors have one user, what descriptors a transfer is split into, that an
  interrupt serves each channel with an event once, and that \<open>nu_pdma_memcpy\<close> copies.
\<close>

subsection \<open>Data\<close>

datatype nu_pdma_memctrl_t =
  eMemCtl_SrcFix_DstFix | eMemCtl_SrcFix_DstInc | eMemCtl_SrcInc_DstFix | eMemCtl_SrcInc_DstInc | eMemCtl_Undefined

datatype nu_pdma_cbtype_t = eCBType_Event | eCBType_Trigger | eCBType_Disable | eCBType_Undefined

record nu_pdma_chn_cb =
  m_pfnCBHandler :: "nat option"
  m_pvUserData :: u32
  m_u32Reserved :: u32

record nu_pdma_chn =
  m_sCB_Event :: nu_pdma_chn_cb
  m_sCB_Trigger :: nu_pdma_chn_cb
  m_sCB_Disable :: nu_pdma_chn_cb
  m_ppsSgtbl :: "u32 list option"
  m_u32WantedSGTblNum :: u32
  m_u32EventFilter :: u32
  m_u32IdleTimeout_us :: u32
  m_u32Peripheral :: u32
  m_eMemCtl :: nu_pdma_memctrl_t

datatype pdma_event =
  ModuleReset nat | IsrInstalled nat | CacheClean u32 u32 | TriggerCall nat u32 u32 | SgAlloc "u32 list" | SgFree "u32 list"

record pdma =
  hw :: pdma_hw
  nu_pdma_inited :: bool
  nu_pdma_chn_mask_arr :: "nat \<Rightarrow> u32"
  nu_pdma_chn_arr :: "nat \<Rightarrow> nu_pdma_chn"
  events :: "pdma_event list"

abbreviation NU_PDMA_EVENT_ABORT :: u32 where "NU_PDMA_EVENT_ABORT \<equiv> 1"
abbreviation NU_PDMA_EVENT_TRANSFER_DONE :: u32 where "NU_PDMA_EVENT_TRANSFER_DONE \<equiv> 2"
abbreviation NU_PDMA_EVENT_ALIGNMENT :: u32 where "NU_PDMA_EVENT_ALIGNMENT \<equiv> 4"
abbreviation NU_PDMA_EVENT_TIMEOUT :: u32 where "NU_PDMA_EVENT_TIMEOUT \<equiv> 8"

definition NU_PDMA_MAX_TXCNT :: u32 where
  "NU_PDMA_MAX_TXCNT = drop_bit 16 PDMA_DSCT_CTL_TXCNT_Msk + 1"

definition NU_PDMA_GET_MOD_IDX :: "u32 \<Rightarrow> nat" where
  "NU_PDMA_GET_MOD_IDX ch = unat ch div PDMA_CH_MAX"

definition NU_PDMA_GET_MOD_CHIDX :: "u32 \<Rightarrow> nat" where
  "NU_PDMA_GET_MOD_CHIDX ch = unat ch mod PDMA_CH_MAX"

definition upd_chn :: "u32 \<Rightarrow> (nu_pdma_chn \<Rightarrow> nu_pdma_chn) \<Rightarrow> pdma \<Rightarrow> pdma" where
  "upd_chn ch f p = p\<lparr>nu_pdma_chn_arr := (nu_pdma_chn_arr p)(unat ch := f (nu_pdma_chn_arr p (unat ch)))\<rparr>"

definition upd_mask :: "nat \<Rightarrow> (u32 \<Rightarrow> u32) \<Rightarrow> pdma \<Rightarrow> pdma" where
  "upd_mask m f p = p\<lparr>nu_pdma_chn_mask_arr := (nu_pdma_chn_mask_arr p)(m := f (nu_pdma_chn_mask_arr p m))\<rparr>"

definition upd_hw :: "(pdma_hw \<Rightarrow> pdma_hw) \<Rightarrow> pdma \<Rightarrow> pdma" where
  "upd_hw f p = p\<lparr>hw := f (hw p)\<rparr>"

definition log :: "pdma_event \<Rightarrow> pdma \<Rightarrow> pdma" where
  "log e p = p\<lparr>events := events p @ [e]\<rparr>"

text \<open>What \<open>rt_memset\<close> with zero makes of a channel.\<close>

definition no_callback :: nu_pdma_chn_cb where
  "no_callback = \<lparr>m_pfnCBHandler = None, m_pvUserData = 0, m_u32Reserved = 0\<rparr>"

definition zero_chn :: nu_pdma_chn where
  "zero_chn = \<lparr>m_sCB_Event = no_callback, m_sCB_Trigger = no_callback, m_sCB_Disable = no_callback, m_ppsSgtbl = None,
     m_u32WantedSGTblNum = 0, m_u32EventFilter = 0, m_u32IdleTimeout_us = 0, m_u32Peripheral = 0,
     m_eMemCtl = eMemCtl_SrcFix_DstFix\<rparr>"

text \<open>The peripherals, by the numbers of \<open>nu_pdma.h\<close>.\<close>

definition g_nu_pdma_peripheral_ctl_pool :: "(u32 \<times> nu_pdma_memctrl_t) list" where
  "g_nu_pdma_peripheral_ctl_pool =
    [(0, eMemCtl_SrcInc_DstInc), (4, eMemCtl_SrcInc_DstFix), (6, eMemCtl_SrcInc_DstFix),
     (8, eMemCtl_SrcInc_DstFix), (10, eMemCtl_SrcInc_DstFix), (12, eMemCtl_SrcInc_DstFix),
     (14, eMemCtl_SrcInc_DstFix), (16, eMemCtl_SrcInc_DstFix), (18, eMemCtl_SrcInc_DstFix),
     (20, eMemCtl_SrcInc_DstFix), (22, eMemCtl_SrcInc_DstFix), (24, eMemCtl_SrcInc_DstFix),
     (26, eMemCtl_SrcInc_DstFix), (28, eMemCtl_SrcInc_DstFix), (30, eMemCtl_SrcInc_DstFix),
     (32, eMemCtl_SrcInc_DstFix), (34, eMemCtl_SrcInc_DstFix), (36, eMemCtl_SrcInc_DstFix),
     (54, eMemCtl_SrcInc_DstFix), (56, eMemCtl_SrcInc_DstFix), (60, eMemCtl_SrcInc_DstFix),
     (62, eMemCtl_SrcInc_DstFix), (64, eMemCtl_SrcInc_DstFix), (66, eMemCtl_SrcInc_DstFix),
     (70, eMemCtl_SrcInc_DstFix), (72, eMemCtl_SrcInc_DstFix), (74, eMemCtl_SrcInc_DstFix),
     (76, eMemCtl_SrcInc_DstFix), (78, eMemCtl_SrcInc_DstFix), (80, eMemCtl_SrcInc_DstFix),
     (86, eMemCtl_SrcInc_DstFix), (88, eMemCtl_SrcInc_DstFix), (5, eMemCtl_SrcFix_DstInc),
     (7, eMemCtl_SrcFix_DstInc), (9, eMemCtl_SrcFix_DstInc), (11, eMemCtl_SrcFix_DstInc),
     (13, eMemCtl_SrcFix_DstInc), (15, eMemCtl_SrcFix_DstInc), (17, eMemCtl_SrcFix_DstInc),
     (19, eMemCtl_SrcFix_DstInc), (21, eMemCtl_SrcFix_DstInc), (23, eMemCtl_SrcFix_DstInc),
     (25, eMemCtl_SrcFix_DstInc), (27, eMemCtl_SrcFix_DstInc), (29, eMemCtl_SrcFix_DstInc),
     (31, eMemCtl_SrcFix_DstInc), (33, eMemCtl_SrcFix_DstInc), (35, eMemCtl_SrcFix_DstInc),
     (37, eMemCtl_SrcFix_DstInc), (55, eMemCtl_SrcFix_DstInc), (57, eMemCtl_SrcFix_DstInc),
     (61, eMemCtl_SrcFix_DstInc), (63, eMemCtl_SrcFix_DstInc), (65, eMemCtl_SrcFix_DstInc),
     (67, eMemCtl_SrcFix_DstInc), (71, eMemCtl_SrcFix_DstInc), (73, eMemCtl_SrcFix_DstInc),
     (75, eMemCtl_SrcFix_DstInc), (77, eMemCtl_SrcFix_DstInc), (79, eMemCtl_SrcFix_DstInc),
     (81, eMemCtl_SrcFix_DstInc), (87, eMemCtl_SrcFix_DstInc), (89, eMemCtl_SrcFix_DstInc)]"

subsection \<open>Channels\<close>

definition nu_pdma_check_is_nonallocated :: "u32 \<Rightarrow> pdma \<Rightarrow> bool res" where
  "nu_pdma_check_is_nonallocated ch p =
    (let mod_idx = NU_PDMA_GET_MOD_IDX ch
     in rt_assert (mod_idx < PDMA_CNT) (Inr (nu_pdma_chn_mask_arr p mod_idx AND bit_of (NU_PDMA_GET_MOD_CHIDX ch) = 0)))"

text \<open>The loop over the pool from entry \<open>idx\<close> on.\<close>

fun peripheral_index :: "u32 \<Rightarrow> nat \<Rightarrow> (u32 \<times> nu_pdma_memctrl_t) list \<Rightarrow> nat option" where
  "peripheral_index ty idx [] = None"
| "peripheral_index ty idx (x # xs) = (if fst x = ty then Some idx else peripheral_index ty (idx + 1) xs)"

definition nu_pdma_peripheral_set :: "u32 \<Rightarrow> nat option" where
  "nu_pdma_peripheral_set ty = peripheral_index ty 0 g_nu_pdma_peripheral_ctl_pool"

definition nu_pdma_periph_ctrl_fill :: "u32 \<Rightarrow> nat \<Rightarrow> pdma \<Rightarrow> pdma" where
  "nu_pdma_periph_ctrl_fill ch idx =
    upd_chn ch (\<lambda>c. c\<lparr>m_u32Peripheral := fst (g_nu_pdma_peripheral_ctl_pool ! idx), m_eMemCtl := snd (g_nu_pdma_peripheral_ctl_pool ! idx)\<rparr>)"

definition init_module :: "nat \<Rightarrow> pdma \<Rightarrow> pdma" where
  "init_module i p =
    (let p = upd_mask i (\<lambda>_. NOT PDMA_CH_Msk) p;
         p = log (ModuleReset i) p;
         p = upd_hw (PDMA_Open i PDMA_CH_Msk) p;
         p = upd_hw (PDMA_Close i) p
     in log (IsrInstalled i) p)"

definition nu_pdma_init :: "pdma \<Rightarrow> pdma" where
  "nu_pdma_init p =
    (if nu_pdma_inited p then p
     else
       let p = p\<lparr>nu_pdma_chn_arr := (\<lambda>_. zero_chn)\<rparr>;
           p = fold init_module [0..<PDMA_CNT] p
       in p\<lparr>nu_pdma_inited := True\<rparr>)"

definition nu_pdma_channel_enable :: "u32 \<Rightarrow> pdma \<Rightarrow> pdma" where
  "nu_pdma_channel_enable ch p =
    (let m = NU_PDMA_GET_MOD_IDX ch; c = NU_PDMA_GET_MOD_CHIDX ch;
         p = upd_hw (upd_desc (DSCT m c) (\<lambda>d. d\<lparr>DSCT_CTL := 0\<rparr>)) p
     in upd_hw (upd_mod m (\<lambda>r. r\<lparr>CHCTL := CHCTL r OR bit_of c\<rparr>)) p)"

definition nu_pdma_channel_disable :: "u32 \<Rightarrow> pdma \<Rightarrow> pdma" where
  "nu_pdma_channel_disable ch =
    upd_hw (upd_mod (NU_PDMA_GET_MOD_IDX ch) (\<lambda>r. r\<lparr>CHCTL := CHCTL r AND NOT (bit_of (NU_PDMA_GET_MOD_CHIDX ch))\<rparr>))"

text \<open>The hardware clears the bit in \<open>CHCTL\<close>, for which the driver waits.\<close>

definition nu_pdma_channel_reset :: "u32 \<Rightarrow> pdma \<Rightarrow> pdma" where
  "nu_pdma_channel_reset ch =
    (let c = NU_PDMA_GET_MOD_CHIDX ch
     in upd_hw (upd_mod (NU_PDMA_GET_MOD_IDX ch) (\<lambda>r. r\<lparr>CHRST := CHRST r @ [bit_of c], CHCTL := CHCTL r AND NOT (bit_of c)\<rparr>)))"

definition nu_pdma_channel_reset_user :: "u32 \<Rightarrow> pdma \<Rightarrow> pdma" where
  "nu_pdma_channel_reset_user ch = nu_pdma_channel_reset ch"

text \<open>
  \<open>freq\<close> is \<open>CLK_GetSYSCLK1Freq()\<close>. A shift by the width of the word or more gives 0, as a shift by register does on
  ARM.
\<close>

definition timeout_registers :: "nat \<Rightarrow> nat \<Rightarrow> u32 \<Rightarrow> u32 \<Rightarrow> pdma_hw \<Rightarrow> pdma_hw" where
  "timeout_registers m c divider cnt h =
    (let h = PDMA_DisableTimeout m (bit_of c) h;
         h = PDMA_EnableInt m c PDMA_INT_TIMEOUT h;
         (divider, cnt) = (if 7 < divider then (7, 0xffff) else (divider, cnt));
         h = (if c < 8
              then upd_mod m (\<lambda>r. r\<lparr>TOUTPSC := (TOUTPSC r AND NOT (push_bit (4 * c) 7)) OR push_bit (4 * c) divider\<rparr>) h
              else upd_mod m (\<lambda>r. r\<lparr>TOUTPSC1 := (TOUTPSC1 r AND NOT (push_bit (4 * c) 7)) OR push_bit (4 * c) divider\<rparr>) h)
     in PDMA_SetTimeOut m c True cnt h)"

definition nu_pdma_timeout_set :: "u32 \<Rightarrow> u32 \<Rightarrow> u32 \<Rightarrow> pdma \<Rightarrow> (pdma \<times> int) res" where
  "nu_pdma_timeout_set freq ch t p =
    and_then (nu_pdma_check_is_nonallocated ch p) (\<lambda>no. if no then Inr (p, - RT_EINVAL)
    else
      let m = NU_PDMA_GET_MOD_IDX ch; c = NU_PDMA_GET_MOD_CHIDX ch;
          p = upd_chn ch (\<lambda>k. k\<lparr>m_u32IdleTimeout_us := t\<rparr>) p
      in if t \<noteq> 0
         then
           let clk = freq div 256; to_clk_max = 1000000 div clk
           in if clk = 0 \<or> to_clk_max = 0 then Inl DivByZero
              else Inr (upd_hw (timeout_registers m c ((t div to_clk_max) div 0x10000) ((t div to_clk_max) mod 0x10000)) p, - RT_EOK)
         else Inr (upd_hw (PDMA_DisableTimeout m (bit_of c) \<circ> PDMA_DisableInt m c PDMA_INT_TIMEOUT) p, - RT_EINVAL))"

definition nu_pdma_channel_terminate :: "u32 \<Rightarrow> u32 \<Rightarrow> pdma \<Rightarrow> pdma res" where
  "nu_pdma_channel_terminate freq ch p =
    and_then (nu_pdma_check_is_nonallocated ch p) (\<lambda>no. if no then Inr p
    else and_then (nu_pdma_timeout_set freq ch 0 p) (\<lambda>(p, _).
      Inr (nu_pdma_channel_enable ch (nu_pdma_channel_reset ch p))))"

text \<open>The search for a free channel in the modules \<open>js\<close>.\<close>

fun allocate_in :: "u32 \<Rightarrow> nat \<Rightarrow> nat list \<Rightarrow> pdma \<Rightarrow> (pdma \<times> int) res" where
  "allocate_in freq idx [] p = Inr (p, - RT_ERROR)"
| "allocate_in freq idx (j # js) p =
    (let c = nu_cto (nu_pdma_chn_mask_arr p j)
     in if c < PDMA_CH_MAX
        then
          let p = upd_mask j (\<lambda>k. k OR bit_of c) p;
              ch = of_nat (c + j * PDMA_CH_MAX);
              p = upd_chn ch (\<lambda>_. zero_chn) p;
              p = nu_pdma_periph_ctrl_fill ch idx p
          in and_then (nu_pdma_channel_terminate freq ch p) (\<lambda>p. Inr (p, int (c + j * PDMA_CH_MAX)))
        else allocate_in freq idx js p)"

definition nu_pdma_channel_allocate :: "u32 \<Rightarrow> u32 \<Rightarrow> pdma \<Rightarrow> (pdma \<times> int) res" where
  "nu_pdma_channel_allocate freq ty p =
    (let p = nu_pdma_init p
     in case nu_pdma_peripheral_set ty of None \<Rightarrow> Inr (p, - RT_ERROR)
        | Some idx \<Rightarrow> allocate_in freq idx [0..<PDMA_CNT] p)"

definition nu_pdma_channel_free :: "u32 \<Rightarrow> pdma \<Rightarrow> (pdma \<times> int) res" where
  "nu_pdma_channel_free ch p =
    (if \<not> nu_pdma_inited p then Inr (p, - RT_EINVAL)
     else and_then (nu_pdma_check_is_nonallocated ch p) (\<lambda>no. if no then Inr (p, - RT_EINVAL)
     else if unat ch < PDMA_CNT * PDMA_CH_MAX
          then Inr (nu_pdma_channel_disable ch
                 (upd_mask (NU_PDMA_GET_MOD_IDX ch) (\<lambda>k. k AND NOT (bit_of (NU_PDMA_GET_MOD_CHIDX ch))) p), - RT_EOK)
          else Inr (p, - RT_EINVAL)))"

definition nu_pdma_filtering_set :: "u32 \<Rightarrow> u32 \<Rightarrow> pdma \<Rightarrow> (pdma \<times> int) res" where
  "nu_pdma_filtering_set ch flt p =
    and_then (nu_pdma_check_is_nonallocated ch p) (\<lambda>no. if no then Inr (p, - RT_EINVAL)
    else Inr (upd_chn ch (\<lambda>k. k\<lparr>m_u32EventFilter := flt\<rparr>) p, - RT_EOK))"

definition nu_pdma_filtering_get :: "u32 \<Rightarrow> pdma \<Rightarrow> u32 res" where
  "nu_pdma_filtering_get ch p =
    and_then (nu_pdma_check_is_nonallocated ch p) (\<lambda>no. if no then Inr 0
    else Inr (m_u32EventFilter (nu_pdma_chn_arr p (unat ch))))"

text \<open>The slot of a type of call-back; a registration copies the function and its argument.\<close>

definition callback :: "nu_pdma_cbtype_t \<Rightarrow> nu_pdma_chn \<Rightarrow> nu_pdma_chn_cb option" where
  "callback ty k = (case ty of eCBType_Event \<Rightarrow> Some (m_sCB_Event k) | eCBType_Trigger \<Rightarrow> Some (m_sCB_Trigger k)
     | eCBType_Disable \<Rightarrow> Some (m_sCB_Disable k) | eCBType_Undefined \<Rightarrow> None)"

definition set_callback :: "nu_pdma_cbtype_t \<Rightarrow> nu_pdma_chn_cb \<Rightarrow> nu_pdma_chn \<Rightarrow> nu_pdma_chn" where
  "set_callback ty cb k =
    (let copy = (\<lambda>old. old\<lparr>m_pfnCBHandler := m_pfnCBHandler cb, m_pvUserData := m_pvUserData cb\<rparr>)
     in case ty of eCBType_Event \<Rightarrow> k\<lparr>m_sCB_Event := copy (m_sCB_Event k)\<rparr>
        | eCBType_Trigger \<Rightarrow> k\<lparr>m_sCB_Trigger := copy (m_sCB_Trigger k)\<rparr>
        | eCBType_Disable \<Rightarrow> k\<lparr>m_sCB_Disable := copy (m_sCB_Disable k)\<rparr>
        | eCBType_Undefined \<Rightarrow> k)"

definition nu_pdma_callback_register :: "u32 \<Rightarrow> nu_pdma_cbtype_t \<Rightarrow> nu_pdma_chn_cb \<Rightarrow> pdma \<Rightarrow> (pdma \<times> int) res" where
  "nu_pdma_callback_register ch ty cb p =
    and_then (nu_pdma_check_is_nonallocated ch p) (\<lambda>no. if no then Inr (p, - RT_EINVAL)
    else if ty = eCBType_Undefined then Inr (p, - RT_EINVAL)
    else Inr (upd_chn ch (set_callback ty cb) p, - RT_EOK))"

text \<open>The call-back that is replaced goes back in the argument; the result is its function.\<close>

definition nu_pdma_callback_hijack ::
  "u32 \<Rightarrow> nu_pdma_cbtype_t \<Rightarrow> nu_pdma_chn_cb \<Rightarrow> pdma \<Rightarrow> (pdma \<times> nu_pdma_chn_cb \<times> nat option) res" where
  "nu_pdma_callback_hijack ch ty cb p =
    and_then (nu_pdma_check_is_nonallocated ch p) (\<lambda>no. if no then Inr (p, cb, None)
    else case callback ty (nu_pdma_chn_arr p (unat ch)) of None \<Rightarrow> Inr (p, cb, None)
      | Some old \<Rightarrow> Inr (upd_chn ch (set_callback ty cb) p,
          cb\<lparr>m_pfnCBHandler := m_pfnCBHandler old, m_pvUserData := m_pvUserData old\<rparr>, m_pfnCBHandler old))"

definition nu_pdma_non_transfer_count_get :: "u32 \<Rightarrow> pdma \<Rightarrow> u32" where
  "nu_pdma_non_transfer_count_get ch p =
    drop_bit 16 (DSCT_CTL (descs (hw p) (DSCT (NU_PDMA_GET_MOD_IDX ch) (NU_PDMA_GET_MOD_CHIDX ch))) AND PDMA_DSCT_CTL_TXCNT_Msk) + 1"

definition nu_pdma_transferred_byte_get :: "u32 \<Rightarrow> int \<Rightarrow> pdma \<Rightarrow> int res" where
  "nu_pdma_transferred_byte_get ch len p =
    and_then (nu_pdma_check_is_nonallocated ch p) (\<lambda>no. if no then Inr (- 1)
    else
      let ctl = DSCT_CTL (descs (hw p) (DSCT (NU_PDMA_GET_MOD_IDX ch) (NU_PDMA_GET_MOD_CHIDX ch)))
      in if ctl AND PDMA_DSCT_CTL_OPMODE_Msk \<noteq> PDMA_OP_SCATTER
         then
           let w = ctl AND PDMA_DSCT_CTL_TXWIDTH_Msk;
               width = (if w = PDMA_WIDTH_8 then 1 else if w = PDMA_WIDTH_16 then 2 else if w = PDMA_WIDTH_32 then 4 else 0)
           in Inr (len - int (unat (nu_pdma_non_transfer_count_get ch p)) * width)
         else Inr 0)"

definition nu_pdma_get_channel_desc :: "u32 \<Rightarrow> pdma \<Rightarrow> u32 option res" where
  "nu_pdma_get_channel_desc ch p =
    and_then (nu_pdma_check_is_nonallocated ch p) (\<lambda>no.
      Inr (if no then None else Some (DSCT (NU_PDMA_GET_MOD_IDX ch) (NU_PDMA_GET_MOD_CHIDX ch))))"

definition nu_pdma_channel_memctrl_get :: "u32 \<Rightarrow> pdma \<Rightarrow> nu_pdma_memctrl_t res" where
  "nu_pdma_channel_memctrl_get ch p =
    and_then (nu_pdma_check_is_nonallocated ch p) (\<lambda>no.
      Inr (if no then eMemCtl_Undefined else m_eMemCtl (nu_pdma_chn_arr p (unat ch))))"

definition nu_pdma_channel_memctrl_set :: "u32 \<Rightarrow> nu_pdma_memctrl_t \<Rightarrow> pdma \<Rightarrow> (pdma \<times> int) res" where
  "nu_pdma_channel_memctrl_set ch ctrl p =
    and_then (nu_pdma_check_is_nonallocated ch p) (\<lambda>no. if no then Inr (p, - RT_EINVAL)
    else if ctrl = eMemCtl_Undefined then Inr (p, - RT_EINVAL)
    else if m_u32Peripheral (nu_pdma_chn_arr p (unat ch)) = PDMA_MEM \<and> (ctrl = eMemCtl_SrcFix_DstInc \<or> ctrl = eMemCtl_SrcFix_DstFix)
    then Inr (p, - RT_EINVAL)
    else Inr (upd_chn ch (\<lambda>k. k\<lparr>m_eMemCtl := ctrl\<rparr>) p, - RT_EOK))"

subsection \<open>Descriptors\<close>

text \<open>The bits for source and destination; both are 0 to begin with.\<close>

definition nu_pdma_channel_memctrl_fill :: "nu_pdma_memctrl_t \<Rightarrow> u32 \<times> u32" where
  "nu_pdma_channel_memctrl_fill ctrl = (case ctrl of
     eMemCtl_SrcFix_DstFix \<Rightarrow> (PDMA_SAR_FIX, PDMA_DAR_FIX)
   | eMemCtl_SrcFix_DstInc \<Rightarrow> (PDMA_SAR_FIX, PDMA_DAR_INC)
   | eMemCtl_SrcInc_DstFix \<Rightarrow> (PDMA_SAR_INC, PDMA_DAR_FIX)
   | eMemCtl_SrcInc_DstInc \<Rightarrow> (PDMA_SAR_INC, PDMA_DAR_INC)
   | eMemCtl_Undefined \<Rightarrow> (0, 0))"

definition desc_value :: "nu_pdma_chn \<Rightarrow> u32 \<Rightarrow> u32 \<Rightarrow> u32 \<Rightarrow> u32 \<Rightarrow> u32 \<Rightarrow> bool \<Rightarrow> DSCT_T" where
  "desc_value k width src dst n nxt silent =
    (let (src_ctl, dst_ctl) = nu_pdma_channel_memctrl_fill (m_eMemCtl k);
         ctl = push_bit 16 (n - 1) OR (if width = 8 then PDMA_WIDTH_8 else if width = 16 then PDMA_WIDTH_16 else PDMA_WIDTH_32)
           OR src_ctl OR dst_ctl OR PDMA_OP_BASIC;
         ctl = (if m_u32Peripheral k = PDMA_MEM then ctl OR (PDMA_REQ_BURST OR PDMA_BURST_32) else ctl OR PDMA_REQ_SINGLE);
         ctl = (if nxt \<noteq> 0 then (ctl AND NOT PDMA_DSCT_CTL_OPMODE_Msk) OR PDMA_OP_SCATTER else ctl);
         ctl = (if silent then ctl OR PDMA_DSCT_CTL_TBINTDIS_Msk else ctl)
     in \<lparr>DSCT_CTL = ctl, DSCT_SA = src, DSCT_DA = dst, DSCT_NEXT = nxt\<rparr>)"

definition nu_pdma_desc_setup ::
  "u32 \<Rightarrow> u32 \<Rightarrow> u32 \<Rightarrow> u32 \<Rightarrow> u32 \<Rightarrow> u32 \<Rightarrow> u32 \<Rightarrow> bool \<Rightarrow> pdma \<Rightarrow> (pdma \<times> int) res" where
  "nu_pdma_desc_setup ch dma_desc width src dst n nxt silent p =
    (if dma_desc = 0 then Inr (p, - RT_EINVAL)
     else and_then (nu_pdma_check_is_nonallocated ch p) (\<lambda>no. if no then Inr (p, - RT_EINVAL)
     else if \<not> (width = 8 \<or> width = 16 \<or> width = 32) then Inr (p, - RT_EINVAL)
     else if src mod (width div 8) \<noteq> 0 \<or> dst mod (width div 8) \<noteq> 0 then Inr (p, - RT_EINVAL)
     else if NU_PDMA_MAX_TXCNT < n then Inr (p, - RT_EINVAL)
     else Inr (upd_hw (upd_desc dma_desc (\<lambda>_. desc_value (nu_pdma_chn_arr p (unat ch)) width src dst n nxt silent)) p, - RT_EOK)))"

text \<open>\<open>mem\<close> is what the heap gives for \<open>num\<close> descriptors; each is cleared.\<close>

definition clear_descs :: "u32 list \<Rightarrow> pdma_hw \<Rightarrow> pdma_hw" where
  "clear_descs ds = fold (\<lambda>d. upd_desc d (\<lambda>_. \<lparr>DSCT_CTL = 0, DSCT_SA = 0, DSCT_DA = 0, DSCT_NEXT = 0\<rparr>)) ds"

definition nu_pdma_sgtbls_allocate :: "u32 list \<Rightarrow> pdma \<Rightarrow> pdma res" where
  "nu_pdma_sgtbls_allocate mem p =
    rt_assert (mem \<noteq> []) (rt_assert (0 \<notin> set mem) (Inr (log (SgAlloc mem) (upd_hw (clear_descs mem) p))))"

definition nu_pdma_sgtbls_free :: "u32 list \<Rightarrow> pdma \<Rightarrow> pdma res" where
  "nu_pdma_sgtbls_free ds p = rt_assert (ds \<noteq> []) (Inr (log (SgFree ds) p))"

definition free_sgtbls :: "u32 \<Rightarrow> pdma \<Rightarrow> pdma res" where
  "free_sgtbls ch p = (case m_ppsSgtbl (nu_pdma_chn_arr p (unat ch)) of None \<Rightarrow> Inr p
    | Some ds \<Rightarrow>
       and_then (nu_pdma_sgtbls_free (take (unat (m_u32WantedSGTblNum (nu_pdma_chn_arr p (unat ch)))) ds) p) (\<lambda>p.
       Inr (upd_chn ch (\<lambda>k. k\<lparr>m_ppsSgtbl := None, m_u32WantedSGTblNum := 0\<rparr>) p)))"

subsection \<open>Transfers\<close>

text \<open>
  The cache maintenance before a transfer: the ranges of source and destination that the descriptors name, and the
  descriptors, along \<open>NEXT\<close> until null or the head. A chain that does neither end is a hang. The warning about
  unaligned addresses has no text any more and is left out.
\<close>

definition desc_count :: "DSCT_T \<Rightarrow> u32" where
  "desc_count d = drop_bit 16 (DSCT_CTL d AND PDMA_DSCT_CTL_TXCNT_Msk) + 1"

definition desc_width :: "DSCT_T \<Rightarrow> u32" where
  "desc_width d = push_bit (unat (drop_bit 12 (DSCT_CTL d AND PDMA_DSCT_CTL_TXWIDTH_Msk))) 1"

definition clean_desc :: "u32 \<Rightarrow> DSCT_T \<Rightarrow> pdma_event list" where
  "clean_desc a d =
    (let len = desc_count d * desc_width d
     in (if DSCT_CTL d AND PDMA_DSCT_CTL_SAINC_Msk = PDMA_SAR_INC then [CacheClean (DSCT_SA d) len] else [])
        @ (if DSCT_CTL d AND PDMA_DSCT_CTL_DAINC_Msk = PDMA_DAR_INC then [CacheClean (DSCT_DA d) len] else [])
        @ [CacheClean a 16])"

definition clean_step :: "(u32 \<Rightarrow> DSCT_T) \<Rightarrow> u32 \<Rightarrow> u32 \<times> pdma_event list \<Rightarrow> u32 \<times> pdma_event list" where
  "clean_step ds hd_desc = (\<lambda>(a, evs).
    let evs = evs @ clean_desc a (ds a); nxt = DSCT_NEXT (ds a)
    in (if nxt = hd_desc then 0 else nxt, evs))"

definition clean_chain :: "(u32 \<Rightarrow> DSCT_T) \<Rightarrow> u32 \<Rightarrow> pdma_event list option" where
  "clean_chain ds hd_desc = map_option snd (while_option (\<lambda>(a, _). a \<noteq> 0) (clean_step ds hd_desc) (hd_desc, []))"

definition start_transfer :: "u32 \<Rightarrow> u32 \<Rightarrow> u32 \<Rightarrow> u32 \<Rightarrow> u32 \<Rightarrow> pdma \<Rightarrow> pdma res" where
  "start_transfer freq ch peripheral hd_desc timeout p = (case clean_chain (descs (hw p)) hd_desc of None \<Rightarrow> Inl Hang
    | Some evs \<Rightarrow>
       let p = p\<lparr>events := events p @ evs\<rparr>; m = NU_PDMA_GET_MOD_IDX ch; c = NU_PDMA_GET_MOD_CHIDX ch
       in and_then (nu_pdma_get_channel_desc ch p) (\<lambda>_.
          let p = upd_hw (PDMA_DisableTimeout m (bit_of c)) p;
              p = upd_hw (PDMA_SetTransferMode m c peripheral (DSCT_NEXT (descs (hw p) hd_desc) \<noteq> 0) hd_desc) p;
              p = upd_hw (PDMA_EnableInt m c PDMA_INT_TRANS_DONE) p
          in and_then (nu_pdma_timeout_set freq ch timeout p) (\<lambda>(p, _).
             if peripheral = PDMA_MEM then Inr (upd_hw (PDMA_Trigger m c) p)
             else case m_pfnCBHandler (m_sCB_Trigger (nu_pdma_chn_arr p (unat ch))) of None \<Rightarrow> Inr p
               | Some f \<Rightarrow> Inr (log (TriggerCall f (m_pvUserData (m_sCB_Trigger (nu_pdma_chn_arr p (unat ch))))
                   (m_u32Reserved (m_sCB_Trigger (nu_pdma_chn_arr p (unat ch))))) p))))"

definition memctl_bit :: "nat \<Rightarrow> nu_pdma_memctrl_t \<Rightarrow> bool" where
  "memctl_bit i ctrl = (case ctrl of eMemCtl_SrcFix_DstFix \<Rightarrow> False | eMemCtl_SrcFix_DstInc \<Rightarrow> i = 0
     | eMemCtl_SrcInc_DstFix \<Rightarrow> i = 1 | eMemCtl_SrcInc_DstInc \<Rightarrow> True | eMemCtl_Undefined \<Rightarrow> True)"

text \<open>The loop over the table, from \<open>d\<close> on, with \<open>n\<close> transfers left and \<open>off\<close> bytes done.\<close>

fun chain_setup ::
  "u32 \<Rightarrow> u32 \<Rightarrow> u32 \<Rightarrow> u32 \<Rightarrow> nu_pdma_memctrl_t \<Rightarrow> u32 list \<Rightarrow> u32 \<Rightarrow> u32 \<Rightarrow> pdma \<Rightarrow> (pdma \<times> int) res" where
  "chain_setup ch width src dst ctrl [] n off p = Inr (p, RT_EOK)"
| "chain_setup ch width src dst ctrl (d # ds) n off p =
    (let tx = (if NU_PDMA_MAX_TXCNT < n then NU_PDMA_MAX_TXCNT else n)
     in and_then (nu_pdma_desc_setup ch d width (if memctl_bit 1 ctrl then src + off else src)
          (if memctl_bit 0 ctrl then dst + off else dst) tx (if ds = [] then 0 else hd ds) (ds \<noteq> []) p) (\<lambda>(p, ret).
        if ret \<noteq> RT_EOK then Inr (p, ret)
        else chain_setup ch width src dst ctrl ds (n - tx) (off + tx * width div 8) p))"

text \<open>The table of a transfer of \<open>n\<close> items, with \<open>alloc\<close> for the heap; the table of the last transfer is kept when it has as many entries.\<close>

definition chain_table :: "(nat \<Rightarrow> u32 list option) \<Rightarrow> u32 \<Rightarrow> u32 \<Rightarrow> pdma \<Rightarrow> (pdma \<times> int) res" where
  "chain_table alloc ch n p =
    (let want = n div NU_PDMA_MAX_TXCNT + 1; have_num = m_u32WantedSGTblNum (nu_pdma_chn_arr p (unat ch))
     in if have_num \<noteq> want
        then and_then (if 0 < have_num then free_sgtbls ch p else Inr p) (\<lambda>p.
          let p = upd_chn ch (\<lambda>k. k\<lparr>m_u32WantedSGTblNum := want\<rparr>) p;
              p = upd_chn ch (\<lambda>k. k\<lparr>m_ppsSgtbl := alloc (unat want)\<rparr>) p
          in case alloc (unat want) of None \<Rightarrow> Inr (p, RT_ERROR)
             | Some ds \<Rightarrow> and_then (nu_pdma_sgtbls_allocate ds p) (\<lambda>p. Inr (p, RT_EOK)))
        else Inr (p, RT_EOK))"

definition nu_pdma_transfer_chain ::
  "(nat \<Rightarrow> u32 list option) \<Rightarrow> u32 \<Rightarrow> u32 \<Rightarrow> u32 \<Rightarrow> u32 \<Rightarrow> u32 \<Rightarrow> u32 \<Rightarrow> u32 \<Rightarrow> pdma \<Rightarrow> (pdma \<times> int) res" where
  "nu_pdma_transfer_chain alloc freq ch width src dst n timeout p =
    and_then (nu_pdma_channel_memctrl_get ch p) (\<lambda>ctrl.
    and_then (chain_table alloc ch n p) (\<lambda>(p, ret).
    if ret \<noteq> RT_EOK then and_then (free_sgtbls ch p) (\<lambda>p. Inr (p, - ret))
    else
      let k = nu_pdma_chn_arr p (unat ch)
      in case m_ppsSgtbl k of None \<Rightarrow> Inl NullDeref
         | Some ds \<Rightarrow>
            if length ds < unat (m_u32WantedSGTblNum k) then Inl OutOfBounds
            else and_then (chain_setup ch width src dst ctrl (take (unat (m_u32WantedSGTblNum k)) ds) n 0 p) (\<lambda>(p, ret).
                 if ret \<noteq> RT_EOK then and_then (free_sgtbls ch p) (\<lambda>p. Inr (p, - ret))
                 else and_then (start_transfer freq ch (m_u32Peripheral k) (hd ds) timeout p) (\<lambda>p. Inr (p, RT_EOK)))))"

definition nu_pdma_transfer ::
  "(nat \<Rightarrow> u32 list option) \<Rightarrow> u32 \<Rightarrow> u32 \<Rightarrow> u32 \<Rightarrow> u32 \<Rightarrow> u32 \<Rightarrow> u32 \<Rightarrow> u32 \<Rightarrow> pdma \<Rightarrow> (pdma \<times> int) res" where
  "nu_pdma_transfer alloc freq ch width src dst n timeout p =
    and_then (nu_pdma_check_is_nonallocated ch p) (\<lambda>no. if no then Inr (p, - RT_EINVAL)
    else if n = 0 then Inr (p, - RT_EINVAL)
    else if NU_PDMA_MAX_TXCNT < n then nu_pdma_transfer_chain alloc freq ch width src dst n timeout p
    else
      let hd_desc = DSCT (NU_PDMA_GET_MOD_IDX ch) (NU_PDMA_GET_MOD_CHIDX ch)
      in and_then (nu_pdma_desc_setup ch hd_desc width src dst n 0 False p) (\<lambda>(p, ret).
         if ret \<noteq> RT_EOK then Inr (p, - ret)
         else and_then (start_transfer freq ch (m_u32Peripheral (nu_pdma_chn_arr p (unat ch))) hd_desc timeout p) (\<lambda>p.
              Inr (p, - RT_EOK))))"

definition nu_pdma_sg_transfer :: "u32 \<Rightarrow> u32 \<Rightarrow> u32 \<Rightarrow> u32 \<Rightarrow> pdma \<Rightarrow> (pdma \<times> int) res" where
  "nu_pdma_sg_transfer freq ch hd_desc timeout p =
    (if hd_desc = 0 then Inr (p, - RT_EINVAL)
     else and_then (nu_pdma_check_is_nonallocated ch p) (\<lambda>no. if no then Inr (p, - RT_EINVAL)
     else and_then (start_transfer freq ch (m_u32Peripheral (nu_pdma_chn_arr p (unat ch))) hd_desc timeout p) (\<lambda>p.
          Inr (p, - RT_EOK))))"

subsection \<open>The interrupt handler\<close>

text \<open>
  \<open>call f user arg\<close> is what a function registered by a client does. The words \<open>abt\<close>, \<open>td\<close>, \<open>un\<close> and \<open>req\<close> have a bit
  for each channel that was aborted, has finished, met an unaligned address, or timed out.
\<close>

type_synonym client = "nat \<Rightarrow> u32 \<Rightarrow> u32 \<Rightarrow> pdma \<Rightarrow> pdma"

definition isr_event :: "u32 \<Rightarrow> u32 \<Rightarrow> u32 \<Rightarrow> u32 \<Rightarrow> nat \<Rightarrow> u32" where
  "isr_event abt td un req i =
    (if abt AND bit_of i \<noteq> 0 then NU_PDMA_EVENT_ABORT else 0)
    OR (if td AND bit_of i \<noteq> 0 then NU_PDMA_EVENT_TRANSFER_DONE else 0)
    OR (if un AND bit_of i \<noteq> 0 then NU_PDMA_EVENT_ALIGNMENT else 0)
    OR (if req AND bit_of i \<noteq> 0 then NU_PDMA_EVENT_TIMEOUT else 0)"

definition isr_channel :: "client \<Rightarrow> u32 \<Rightarrow> nat \<Rightarrow> u32 \<Rightarrow> u32 \<Rightarrow> u32 \<Rightarrow> u32 \<Rightarrow> nat \<Rightarrow> pdma \<Rightarrow> pdma res" where
  "isr_channel call freq m abt td un req i p =
    (let j = i + m * PDMA_CH_MAX
     in if nu_pdma_chn_mask_arr p m AND bit_of i \<noteq> 0 \<and> m_pfnCBHandler (m_sCB_Event (nu_pdma_chn_arr p j)) \<noteq> None
        then
          let p = (if req AND bit_of i \<noteq> 0 then upd_hw (PDMA_DisableTimeout m (bit_of i)) p else p);
              cb = m_sCB_Disable (nu_pdma_chn_arr p j);
              p = (case m_pfnCBHandler cb of None \<Rightarrow> p | Some f \<Rightarrow> call f (m_pvUserData cb) (m_u32Reserved cb) p);
              k = nu_pdma_chn_arr p j;
              p = (if m_u32EventFilter k AND isr_event abt td un req i \<noteq> 0
                   then case m_pfnCBHandler (m_sCB_Event k) of None \<Rightarrow> p
                     | Some f \<Rightarrow> call f (m_pvUserData (m_sCB_Event k)) (isr_event abt td un req i) p
                   else p)
          in if req AND bit_of i \<noteq> 0
             then and_then (nu_pdma_timeout_set freq (of_nat j) (m_u32IdleTimeout_us (nu_pdma_chn_arr p j)) p) (\<lambda>(p, _). Inr p)
             else Inr p
        else Inr p)"

lemma bit_bit_of [simp]: "bit (bit_of i) n \<longleftrightarrow> n = i \<and> i < 32"
  unfolding bit_of_def by (cases "n = i") (auto simp: bit_push_bit_iff bit_1_iff simp del: push_bit_of_1)

lemma clear_bit_less:
  assumes "bit (x :: u32) i"
  shows "x AND NOT (bit_of i) < x"
proof -
  have i: "i < 32" using assms bit_imp_le_length [of x i] by simp
  have "x = (x AND NOT (bit_of i)) OR bit_of i"
    using assms i by (intro bit_eqI) (auto simp: bit_or_iff bit_and_iff bit_not_iff)
  also have "\<dots> = (x AND NOT (bit_of i)) + bit_of i"
    by (rule disjunctive_add [symmetric]) (auto simp: bit_and_iff bit_not_iff)
  finally have x: "x = (x AND NOT (bit_of i)) + bit_of i" .
  have "x AND NOT (bit_of i) \<le> x" using word_and_le2 [of x "NOT (bit_of i)"] by (simp add: ac_simps)
  moreover have "bit_of i \<noteq> 0"
  proof
    assume "bit_of i = 0"
    then have "bit (bit_of i) i = bit (0 :: u32) i" by (rule arg_cong)
    then show False using i by simp
  qed
  ultimately show ?thesis using x by (metis add.right_neutral add_left_cancel order_less_le)
qed

lemma isr_bit: "nu_ctz sts < PDMA_CH_MAX \<Longrightarrow> bit sts (nu_ctz sts)"
  by (rule nu_ctz_cases [of sts]) (auto simp: PDMA_CH_MAX_def)

text \<open>The loop over the channels in \<open>sts\<close>, lowest first.\<close>

function isr_loop :: "(nat \<Rightarrow> pdma \<Rightarrow> pdma res) \<Rightarrow> u32 \<Rightarrow> pdma \<Rightarrow> pdma res" where
  "isr_loop serve sts p =
    (let i = nu_ctz sts in
     if i < PDMA_CH_MAX then and_then (serve i p) (\<lambda>p. isr_loop serve (sts AND NOT (bit_of i)) p) else Inr p)"
  by auto

termination
proof (relation "measure (\<lambda>(serve, sts, p). unat sts)", goal_cases)
  case (2 serve sts p i z)
  have "sts AND NOT (bit_of i) < sts" using isr_bit 2(1,2) by (intro clear_bit_less) simp
  then show ?case by (simp add: word_less_nat_alt)
qed simp

declare isr_loop.simps [simp del]

definition clear_status :: "nat \<Rightarrow> pdma_status \<Rightarrow> u32 \<Rightarrow> pdma \<Rightarrow> pdma" where
  "clear_status m st v = upd_hw (upd_mod m (\<lambda>r. r\<lparr>status_clears := status_clears r @ [(st, v)]\<rparr>))"

definition nu_pdma_isr :: "client \<Rightarrow> u32 \<Rightarrow> nat \<Rightarrow> u32 \<Rightarrow> u32 \<Rightarrow> u32 \<Rightarrow> u32 \<Rightarrow> pdma \<Rightarrow> pdma res" where
  "nu_pdma_isr call freq m intsts abtsts tdsts unalignsts p =
    (let reqto = intsts AND push_bit 8 PDMA_CH_Msk;
         reqto_ch = drop_bit 8 reqto;
         allch_sts = reqto_ch OR tdsts OR abtsts OR unalignsts;
         p = (if intsts AND 1 \<noteq> 0 then clear_status m ABTSTS abtsts p else p);
         p = (if intsts AND 2 \<noteq> 0 then clear_status m TDSTS tdsts p else p);
         p = (if intsts AND 4 \<noteq> 0 then clear_status m ALIGN_STS unalignsts p else p);
         p = (if reqto \<noteq> 0 then clear_status m INTSTS reqto p else p)
     in isr_loop (isr_channel call freq m abtsts tdsts unalignsts reqto_ch) allch_sts p)"

subsection \<open>The actors of memory transfers\<close>

definition NU_PDMA_MEMFUN_ACTOR_MAX :: nat where
  "NU_PDMA_MEMFUN_ACTOR_MAX = 4"

record memfun_actors =
  actor_chn :: "nat \<Rightarrow> int"
  actor_result :: "nat \<Rightarrow> u32"
  actor_sem :: "nat \<Rightarrow> nat"
  actor_maxnum :: nat
  actor_mask :: u32
  pool_sem :: "nat option"

text \<open>
  \<open>pool_sem\<close> is none as long as the semaphore is not created.
  The loop that clears each actor from \<open>i\<close> on and allocates its channel, until there is none.\<close>

fun actor_channels :: "u32 \<Rightarrow> nat list \<Rightarrow> pdma \<times> memfun_actors \<times> nat \<Rightarrow> (pdma \<times> memfun_actors \<times> nat) res" where
  "actor_channels freq [] x = Inr x"
| "actor_channels freq (i # js) (p, a, n) =
    and_then (nu_pdma_channel_allocate freq PDMA_MEM p) (\<lambda>(p, ch).
      let a = a\<lparr>actor_chn := (actor_chn a)(i := ch), actor_result := (actor_result a)(i := 0), actor_sem := (actor_sem a)(i := 0)\<rparr>
      in if ch \<noteq> - RT_ERROR then actor_channels freq js (p, a, i + 1) else Inr (p, a, i))"

definition nu_pdma_memfun_actor_init :: "u32 \<Rightarrow> pdma \<Rightarrow> memfun_actors \<Rightarrow> (pdma \<times> memfun_actors) res" where
  "nu_pdma_memfun_actor_init freq p a =
    (let p = nu_pdma_init p
     in and_then (actor_channels freq [0..<NU_PDMA_MEMFUN_ACTOR_MAX] (p, a, 0)) (\<lambda>(p, a, i).
        if i \<noteq> 0
        then Inr (p, a\<lparr>actor_maxnum := i, actor_mask := NOT (push_bit i 1 - 1), pool_sem := Some i\<rparr>)
        else Inr (p, a)))"

text \<open>Under the lock of the pool, by a thread that has taken \<open>pool_sem\<close>.\<close>

definition nu_pdma_memfun_employ :: "memfun_actors \<Rightarrow> memfun_actors \<times> nat option" where
  "nu_pdma_memfun_employ a =
    (let idx = nu_cto (actor_mask a)
     in if idx \<noteq> 32 then (a\<lparr>actor_mask := actor_mask a OR bit_of idx\<rparr>, Some idx) else (a, None))"

definition memfun_dismiss :: "nat \<Rightarrow> memfun_actors \<Rightarrow> memfun_actors" where
  "memfun_dismiss idx a = a\<lparr>actor_mask := actor_mask a AND NOT (bit_of idx)\<rparr>"

text \<open>
  \<open>nu_pdma_memfun\<close> with the actor \<open>idx\<close>: what it does before it waits for the actor's semaphore, where \<open>cb\<close> is
  \<open>nu_pdma_memfun_cb\<close> with this actor; the call-back; the wait, when it ends; and the count of the items afterwards.
\<close>

definition memfun_chn :: "nat \<Rightarrow> memfun_actors \<Rightarrow> u32" where
  "memfun_chn idx a = word_of_int (actor_chn a idx)"

definition memfun_start ::
  "(nat \<Rightarrow> u32 list option) \<Rightarrow> u32 \<Rightarrow> nu_pdma_chn_cb \<Rightarrow> nat \<Rightarrow> u32 \<Rightarrow> u32 \<Rightarrow> u32 \<Rightarrow> u32 \<Rightarrow> nu_pdma_memctrl_t
    \<Rightarrow> pdma \<times> memfun_actors \<Rightarrow> (pdma \<times> memfun_actors) res" where
  "memfun_start alloc freq cb idx dest src width n ctrl = (\<lambda>(p, a).
    let ch = memfun_chn idx a
    in and_then (nu_pdma_channel_memctrl_set ch ctrl p) (\<lambda>(p, _).
       and_then (nu_pdma_filtering_set ch (NU_PDMA_EVENT_ABORT OR NU_PDMA_EVENT_TRANSFER_DONE) p) (\<lambda>(p, _).
       and_then (nu_pdma_callback_register ch eCBType_Event cb p) (\<lambda>(p, _).
       let a = a\<lparr>actor_result := (actor_result a)(idx := 0)\<rparr>
       in and_then (nu_pdma_transfer alloc freq ch width src dest n 0 p) (\<lambda>(p, _). Inr (p, a))))))"

definition nu_pdma_memfun_cb :: "nat \<Rightarrow> u32 \<Rightarrow> memfun_actors \<Rightarrow> memfun_actors res" where
  "nu_pdma_memfun_cb idx evs a =
    (let a = a\<lparr>actor_result := (actor_result a)(idx := evs)\<rparr>
     in rt_assert (actor_sem a idx < 0xffff) (Inr (a\<lparr>actor_sem := (actor_sem a)(idx := actor_sem a idx + 1)\<rparr>)))"

definition memfun_wait :: "nat \<Rightarrow> memfun_actors \<Rightarrow> memfun_actors option" where
  "memfun_wait idx a = (if 0 < actor_sem a idx then Some (a\<lparr>actor_sem := (actor_sem a)(idx := actor_sem a idx - 1)\<rparr>) else None)"

definition memfun_finish :: "u32 \<Rightarrow> nat \<Rightarrow> u32 \<Rightarrow> pdma \<times> memfun_actors \<Rightarrow> (pdma \<times> u32) res" where
  "memfun_finish freq idx n = (\<lambda>(p, a).
    let ch = memfun_chn idx a;
        ret = (if actor_result a idx AND NU_PDMA_EVENT_TRANSFER_DONE \<noteq> 0 then n else n - nu_pdma_non_transfer_count_get ch p)
    in and_then (if actor_result a idx AND NU_PDMA_EVENT_ABORT \<noteq> 0 then nu_pdma_channel_terminate freq ch p else Inr p) (\<lambda>p. Inr (p, ret)))"

text \<open>
  The threads in \<open>nu_pdma_memfun\<close>, between its calls of the semaphore and of the lock of the pool: those that have
  taken the semaphore, those that have an actor, and those that have dismissed it. A thread that finds no semaphore
  tries again at once.
\<close>

datatype actor_phase = Taken | Employed nat | Dismissed

inductive actor_step :: "memfun_actors \<times> (nat \<rightharpoonup> actor_phase) \<Rightarrow> memfun_actors \<times> (nat \<rightharpoonup> actor_phase) \<Rightarrow> bool" where
  no_sem: "ph t = None \<Longrightarrow> pool_sem a = None \<Longrightarrow> actor_step (a, ph) (a, ph)"
| take_sem: "ph t = None \<Longrightarrow> pool_sem a = Some (Suc k) \<Longrightarrow> actor_step (a, ph) (a\<lparr>pool_sem := Some k\<rparr>, ph(t \<mapsto> Taken))"
| employ: "ph t = Some Taken \<Longrightarrow> nu_pdma_memfun_employ a = (a', Some idx) \<Longrightarrow> actor_step (a, ph) (a', ph(t \<mapsto> Employed idx))"
| no_actor: "ph t = Some Taken \<Longrightarrow> nu_pdma_memfun_employ a = (a', None) \<Longrightarrow> actor_step (a, ph) (a', ph(t := None))"
| dismiss: "ph t = Some (Employed idx) \<Longrightarrow> actor_step (a, ph) (memfun_dismiss idx a, ph(t \<mapsto> Dismissed))"
| give_sem: "ph t = Some Dismissed \<Longrightarrow> pool_sem a = Some k \<Longrightarrow> actor_step (a, ph) (a\<lparr>pool_sem := Some (k + 1)\<rparr>, ph(t := None))"

subsection \<open>Copying memory\<close>

text \<open>
  \<open>memfun dest src width n\<close> is \<open>nu_pdma_memfun\<close> with both addresses incremented, a transfer by the hardware: the memory
  afterwards and the number of items transferred. The loop is for the widths \<open>i\<close> in bytes that are left.
\<close>

fun memcpy_loop ::
  "(u32 \<Rightarrow> u32 \<Rightarrow> u32 \<Rightarrow> u32 \<Rightarrow> 'm \<Rightarrow> 'm \<times> u32) \<Rightarrow> u32 list \<Rightarrow> u32 \<Rightarrow> u32 \<Rightarrow> u32 \<Rightarrow> u32 \<Rightarrow> 'm \<Rightarrow> 'm \<times> u32 option" where
  "memcpy_loop memfun [] dest src off remaining mem = (mem, Some off)"
| "memcpy_loop memfun (i # js) dest src off remaining mem =
    (if 0 < remaining
     then
       let s = src + off; d = dest + off
       in if s mod i = d mod i \<and> s mod i = 0 \<and> i \<le> RT_ALIGN_DOWN remaining i
          then
            let n = remaining div i; (mem, done) = memfun d s (i * 8) n mem
            in if n \<noteq> done then (mem, None)
               else memcpy_loop memfun js dest src (off + n * i) (remaining - n * i) mem
          else memcpy_loop memfun js dest src off remaining mem
     else (mem, Some off))"

definition nu_pdma_memcpy ::
  "(u32 \<Rightarrow> u32 \<Rightarrow> u32 \<Rightarrow> u32 \<Rightarrow> 'm \<Rightarrow> 'm \<times> u32) \<Rightarrow> u32 \<Rightarrow> u32 \<Rightarrow> u32 \<Rightarrow> 'm \<Rightarrow> 'm \<times> u32 option" where
  "nu_pdma_memcpy memfun dest src count mem =
    (case memcpy_loop memfun [4, 2, 1] dest src 0 count mem of (mem, off) \<Rightarrow>
       (mem, if off = Some count then Some dest else None))"

definition nu_pdma_mempush ::
  "(u32 \<Rightarrow> u32 \<Rightarrow> u32 \<Rightarrow> u32 \<Rightarrow> 'm \<Rightarrow> 'm \<times> u32) \<Rightarrow> u32 \<Rightarrow> u32 \<Rightarrow> u32 \<Rightarrow> u32 \<Rightarrow> 'm \<Rightarrow> 'm \<times> u32" where
  "nu_pdma_mempush memfun_fix dest src width n mem =
    (if width = 8 \<or> width = 16 \<or> width = 32 then memfun_fix dest src width n mem else (mem, 0))"

subsection \<open>Every channel has one user\<close>

definition pdma_used :: "pdma \<Rightarrow> nat set" where
  "pdma_used p = {c. c < PDMA_CNT * PDMA_CH_MAX \<and> bit (nu_pdma_chn_mask_arr p (c div PDMA_CH_MAX)) (c mod PDMA_CH_MAX)}"

text \<open>The bits above the channels are set, so that the search for a free channel never stops at them.\<close>

definition pdma_ready :: "pdma \<Rightarrow> bool" where
  "pdma_ready p \<longleftrightarrow> nu_pdma_inited p \<and> (\<forall>m < PDMA_CNT. \<forall>i. PDMA_CH_MAX \<le> i \<longrightarrow> i < 32 \<longrightarrow> bit (nu_pdma_chn_mask_arr p m) i)"

lemmas pdma_consts = PDMA_CNT_def PDMA_CH_MAX_def

lemma and_bit_of: "(x :: u32) AND bit_of i \<noteq> 0 \<longleftrightarrow> bit x i"
proof
  assume "bit x i"
  then have "bit (x AND bit_of i) i" using bit_imp_le_length [of x i] by (simp add: bit_and_iff)
  then show "x AND bit_of i \<noteq> 0" by (metis bit_0_eq bot_apply bot_bool_def)
next
  assume "x AND bit_of i \<noteq> 0"
  then obtain n where "bit (x AND bit_of i) n" by (auto simp: bit_eq_iff)
  then show "bit x i" by (auto simp: bit_and_iff)
qed

lemma nonallocated_eq:
  "unat ch < PDMA_CNT * PDMA_CH_MAX \<Longrightarrow> nu_pdma_check_is_nonallocated ch p = Inr (unat ch \<notin> pdma_used p)"
  using and_bit_of [of "nu_pdma_chn_mask_arr p (unat ch div PDMA_CH_MAX)" "unat ch mod PDMA_CH_MAX"]
  by (auto simp: nu_pdma_check_is_nonallocated_def pdma_used_def NU_PDMA_GET_MOD_IDX_def NU_PDMA_GET_MOD_CHIDX_def pdma_consts)

lemma nonallocated_out_of_range:
  "PDMA_CNT * PDMA_CH_MAX \<le> unat ch \<Longrightarrow> nu_pdma_check_is_nonallocated ch p = Inl AssertFail"
  by (simp add: nu_pdma_check_is_nonallocated_def NU_PDMA_GET_MOD_IDX_def pdma_consts)

lemma upd_simps [simp]:
  "nu_pdma_inited (upd_chn ch f p) = nu_pdma_inited p" "nu_pdma_chn_mask_arr (upd_chn ch f p) = nu_pdma_chn_mask_arr p"
  "hw (upd_chn ch f p) = hw p" "events (upd_chn ch f p) = events p"
  "nu_pdma_chn_arr (upd_chn ch f p) = (nu_pdma_chn_arr p)(unat ch := f (nu_pdma_chn_arr p (unat ch)))"
  "nu_pdma_inited (upd_hw g p) = nu_pdma_inited p" "nu_pdma_chn_mask_arr (upd_hw g p) = nu_pdma_chn_mask_arr p"
  "hw (upd_hw g p) = g (hw p)" "events (upd_hw g p) = events p" "nu_pdma_chn_arr (upd_hw g p) = nu_pdma_chn_arr p"
  "nu_pdma_inited (upd_mask m h p) = nu_pdma_inited p"
  "nu_pdma_chn_mask_arr (upd_mask m h p) = (nu_pdma_chn_mask_arr p)(m := h (nu_pdma_chn_mask_arr p m))"
  "hw (upd_mask m h p) = hw p" "events (upd_mask m h p) = events p" "nu_pdma_chn_arr (upd_mask m h p) = nu_pdma_chn_arr p"
  "nu_pdma_inited (log e p) = nu_pdma_inited p" "nu_pdma_chn_mask_arr (log e p) = nu_pdma_chn_mask_arr p"
  "hw (log e p) = hw p" "events (log e p) = events p @ [e]" "nu_pdma_chn_arr (log e p) = nu_pdma_chn_arr p"
  by (simp_all add: upd_chn_def upd_hw_def upd_mask_def log_def)

lemma terminate_frame:
  assumes "unat ch < PDMA_CNT * PDMA_CH_MAX"
  shows "\<exists>p'. nu_pdma_channel_terminate freq ch p = Inr p' \<and> nu_pdma_chn_mask_arr p' = nu_pdma_chn_mask_arr p
    \<and> nu_pdma_inited p' = nu_pdma_inited p
    \<and> nu_pdma_chn_arr p' = (if unat ch \<in> pdma_used p
        then (nu_pdma_chn_arr p)(unat ch := (nu_pdma_chn_arr p (unat ch))\<lparr>m_u32IdleTimeout_us := 0\<rparr>) else nu_pdma_chn_arr p)"
  by (simp add: nu_pdma_channel_terminate_def nonallocated_eq [OF assms] nu_pdma_timeout_set_def nu_pdma_channel_enable_def
    nu_pdma_channel_reset_def Let_def)

lemma pdma_init_frame:
  assumes "\<not> nu_pdma_inited p"
  shows "pdma_ready (nu_pdma_init p)" "pdma_used (nu_pdma_init p) = {}"
proof -
  have b: "bit (NOT PDMA_CH_Msk) i \<longleftrightarrow> 10 \<le> i \<and> i < 32" for i
  proof -
    have e: "PDMA_CH_Msk = mask 10" by (simp add: PDMA_CH_Msk_def mask_eq_exp_minus_1)
    show ?thesis unfolding e by (auto simp: bit_not_iff bit_mask_iff)
  qed
  have m: "nu_pdma_chn_mask_arr (nu_pdma_init p) 0 = NOT PDMA_CH_Msk" "nu_pdma_chn_mask_arr (nu_pdma_init p) 1 = NOT PDMA_CH_Msk"
    "nu_pdma_inited (nu_pdma_init p)"
    using assms by (simp_all add: nu_pdma_init_def Let_def init_module_def PDMA_CNT_def upt_rec)
  have e: "k < 2 \<Longrightarrow> nu_pdma_chn_mask_arr (nu_pdma_init p) k = NOT PDMA_CH_Msk" for k
    using m(1,2) by (auto simp: less_2_cases_iff)
  show "pdma_ready (nu_pdma_init p)" using m(3) e b by (auto simp: pdma_ready_def pdma_consts)
  have "c div 10 < 2" if "c < 20" for c :: nat using that by auto
  then show "pdma_used (nu_pdma_init p) = {}" using e b by (auto simp: pdma_used_def pdma_consts)
qed

text \<open>The search of one module: the channel found is the lowest free one.\<close>

lemma cto_free:
  assumes "\<And>i. 10 \<le> i \<Longrightarrow> i < 32 \<Longrightarrow> bit (k :: u32) i"
  shows "if nu_cto k < 10 then \<not> bit k (nu_cto k) \<and> (\<forall>i < nu_cto k. bit k i) else \<forall>i < 10. bit k i"
proof (cases rule: nu_ctz_cases [of "NOT k"])
  case 1
  then have "k = - 1" by (metis bit.compl_one bit.double_compl)
  then show ?thesis using 1 by (simp add: nu_cto_def)
next
  case 2
  then show ?thesis using assms by (auto simp: nu_cto_def bit_not_iff)
qed

lemma pdma_ready_cto:
  assumes "pdma_ready p" "m < PDMA_CNT"
  shows "if nu_cto (nu_pdma_chn_mask_arr p m) < PDMA_CH_MAX
    then nu_cto (nu_pdma_chn_mask_arr p m) + m * PDMA_CH_MAX \<notin> pdma_used p
      \<and> (\<forall>i < nu_cto (nu_pdma_chn_mask_arr p m). i + m * PDMA_CH_MAX \<in> pdma_used p)
    else \<forall>i < PDMA_CH_MAX. i + m * PDMA_CH_MAX \<in> pdma_used p"
proof -
  let ?k = "nu_pdma_chn_mask_arr p m"
  have u: "i + m * 10 \<in> pdma_used p \<longleftrightarrow> bit ?k i" if "i < 10" for i
    using that assms(2) by (simp add: pdma_used_def pdma_consts)
  have "bit ?k i" if "10 \<le> i" "i < 32" for i using assms that by (simp add: pdma_ready_def pdma_consts)
  from cto_free [OF this] show ?thesis unfolding PDMA_CH_MAX_def
    by (cases "nu_cto ?k < 10") (simp_all add: u)
qed

lemma mask_set_used:
  assumes "m < PDMA_CNT" "c < PDMA_CH_MAX" "nu_pdma_chn_mask_arr p' = (nu_pdma_chn_mask_arr p)(m := nu_pdma_chn_mask_arr p m OR bit_of c)"
  shows "pdma_used p' = insert (c + m * PDMA_CH_MAX) (pdma_used p)"
proof (rule set_eqI)
  fix x
  have "x div 10 = m \<and> x mod 10 = c \<longleftrightarrow> x = c + m * 10" using assms(2) by (auto simp: pdma_consts)
  then show "x \<in> pdma_used p' \<longleftrightarrow> x \<in> insert (c + m * PDMA_CH_MAX) (pdma_used p)"
    using assms by (auto simp: pdma_used_def pdma_consts bit_or_iff less_2_cases_iff)
qed

lemma mask_clear_used:
  assumes "m < PDMA_CNT" "c < PDMA_CH_MAX" "nu_pdma_chn_mask_arr p' = (nu_pdma_chn_mask_arr p)(m := nu_pdma_chn_mask_arr p m AND NOT (bit_of c))"
  shows "pdma_used p' = pdma_used p - {c + m * PDMA_CH_MAX}"
proof (rule set_eqI)
  fix x
  have "x div 10 = m \<and> x mod 10 = c \<longleftrightarrow> x = c + m * 10" using assms(2) by (auto simp: pdma_consts)
  then show "x \<in> pdma_used p' \<longleftrightarrow> x \<in> pdma_used p - {c + m * PDMA_CH_MAX}"
    using assms by (auto simp: pdma_used_def pdma_consts bit_and_iff bit_not_iff less_2_cases_iff)
qed

text \<open>A channel as the driver hands it out.\<close>

definition new_chn :: "nat \<Rightarrow> nu_pdma_chn" where
  "new_chn idx = zero_chn\<lparr>m_u32Peripheral := fst (g_nu_pdma_peripheral_ctl_pool ! idx), m_eMemCtl := snd (g_nu_pdma_peripheral_ctl_pool ! idx)\<rparr>"

lemma allocate_in_found:
  assumes "pdma_ready p" "j < PDMA_CNT" "nu_cto (nu_pdma_chn_mask_arr p j) < PDMA_CH_MAX"
  shows "\<exists>p'. allocate_in freq idx (j # js) p = Inr (p', int (nu_cto (nu_pdma_chn_mask_arr p j) + j * PDMA_CH_MAX))
    \<and> pdma_ready p' \<and> pdma_used p' = insert (nu_cto (nu_pdma_chn_mask_arr p j) + j * PDMA_CH_MAX) (pdma_used p)
    \<and> nu_pdma_chn_arr p' = (nu_pdma_chn_arr p)(nu_cto (nu_pdma_chn_mask_arr p j) + j * PDMA_CH_MAX := new_chn idx)"
proof -
  let ?c = "nu_cto (nu_pdma_chn_mask_arr p j)"
  let ?x = "?c + j * PDMA_CH_MAX"
  have x: "?x < PDMA_CNT * PDMA_CH_MAX" "?x < 2 ^ 32" using assms(2,3) by (auto simp: pdma_consts less_2_cases_iff)
  then have u: "unat (of_nat ?x :: u32) = ?x" by (intro unat_of_nat_small) simp
  define p1 where "p1 = nu_pdma_periph_ctrl_fill (of_nat ?x) idx (upd_chn (of_nat ?x) (\<lambda>_. zero_chn) (upd_mask j (\<lambda>k. k OR bit_of ?c) p))"
  have p1: "nu_pdma_chn_mask_arr p1 = (nu_pdma_chn_mask_arr p)(j := nu_pdma_chn_mask_arr p j OR bit_of ?c)"
    "nu_pdma_inited p1 = nu_pdma_inited p" "nu_pdma_chn_arr p1 = (nu_pdma_chn_arr p)(?x := new_chn idx)"
    unfolding p1_def nu_pdma_periph_ctrl_fill_def by (simp_all add: u new_chn_def fun_eq_iff del: of_nat_add of_nat_mult)
  obtain p' where p': "nu_pdma_channel_terminate freq (of_nat ?x) p1 = Inr p'" "nu_pdma_chn_mask_arr p' = nu_pdma_chn_mask_arr p1"
    "nu_pdma_inited p' = nu_pdma_inited p1"
    "nu_pdma_chn_arr p' = (if ?x \<in> pdma_used p1 then (nu_pdma_chn_arr p1)(?x := (nu_pdma_chn_arr p1 ?x)\<lparr>m_u32IdleTimeout_us := 0\<rparr>) else nu_pdma_chn_arr p1)"
    using terminate_frame [of "of_nat ?x" freq p1] x(1) unfolding u by blast
  have "nu_pdma_chn_arr p' = nu_pdma_chn_arr p1" using p'(4) p1(3) by (auto simp: new_chn_def zero_chn_def fun_eq_iff)
  moreover have "pdma_used p' = insert ?x (pdma_used p)" by (rule mask_set_used [OF assms(2,3)]) (simp add: p'(2) p1(1))
  moreover have "pdma_ready p'" using assms(1) p'(2,3) p1(1,2) by (auto simp: pdma_ready_def bit_or_iff)
  moreover have "allocate_in freq idx (j # js) p = Inr (p', int ?x)"
    using assms(3) p'(1) by (simp add: p1_def Let_def del: of_nat_add of_nat_mult)
  ultimately show ?thesis using p1(3) by (intro exI [of _ p']) simp
qed

text \<open>
  The branches of \<open>nu_pdma_channel_allocate\<close>: the lowest free channel, made new, or an error when all are in use.
\<close>

lemma allocate_in_spec:
  assumes "pdma_ready p"
  shows "\<exists>p' r. allocate_in freq idx [0..<PDMA_CNT] p = Inr (p', r) \<and> pdma_ready p'
    \<and> (case find (\<lambda>c. c \<notin> pdma_used p) [0..<PDMA_CNT * PDMA_CH_MAX] of
         None \<Rightarrow> p' = p \<and> r = - RT_ERROR
       | Some c \<Rightarrow> r = int c \<and> pdma_used p' = insert c (pdma_used p) \<and> nu_pdma_chn_arr p' = (nu_pdma_chn_arr p)(c := new_chn idx))"
proof -
  have js: "[0..<PDMA_CNT] = [0, 1]" by (simp add: PDMA_CNT_def upt_rec)
  have F: "find (\<lambda>c. c \<notin> pdma_used p) [0..<20] = Some x" if "x < 20" "x \<notin> pdma_used p" "\<forall>i < x. i \<in> pdma_used p" for x
    using that by (auto simp: find_Some_iff intro!: exI [of _ x])
  note c0 = pdma_ready_cto [OF assms, of 0] and c1 = pdma_ready_cto [OF assms, of 1]
  show ?thesis
  proof (cases "nu_cto (nu_pdma_chn_mask_arr p 0) < PDMA_CH_MAX")
    case True
    then have "find (\<lambda>c. c \<notin> pdma_used p) [0..<20] = Some (nu_cto (nu_pdma_chn_mask_arr p 0))"
      using c0 by (intro F) (auto simp: pdma_consts)
    then show ?thesis using allocate_in_found [OF assms _ True, of freq idx "[1]"]
      unfolding js by (auto simp: pdma_consts)
  next
    case F0: False
    have low: "\<forall>i < 10. i \<in> pdma_used p" using c0 F0 by (auto simp: pdma_consts)
    have skip: "allocate_in freq idx [0, 1] p = allocate_in freq idx [1] p" using F0 by simp
    show ?thesis
    proof (cases "nu_cto (nu_pdma_chn_mask_arr p 1) < PDMA_CH_MAX")
      case True
      then have c: "nu_cto (nu_pdma_chn_mask_arr p 1) + 10 \<notin> pdma_used p" "\<forall>i < nu_cto (nu_pdma_chn_mask_arr p 1). i + 10 \<in> pdma_used p"
        using c1 by (auto simp: pdma_consts)
      have "i \<in> pdma_used p" if "i < nu_cto (nu_pdma_chn_mask_arr p 1) + 10" for i
        using c(2) [rule_format, of "i - 10"] low that by (cases "i < 10") auto
      then have "find (\<lambda>c. c \<notin> pdma_used p) [0..<20] = Some (nu_cto (nu_pdma_chn_mask_arr p 1) + 10)"
        using True c(1) by (intro F) (auto simp: pdma_consts)
      then show ?thesis using allocate_in_found [OF assms _ True, of freq idx "[]"] skip
        unfolding js by (auto simp: pdma_consts)
    next
      case False
      then have "\<forall>i < 10. i + 10 \<in> pdma_used p" using c1 by (auto simp: pdma_consts)
      then have "i \<in> pdma_used p" if "i < 20" for i using low that by (cases "i < 10") (auto dest: spec [of _ "i - 10"])
      then have "find (\<lambda>c. c \<notin> pdma_used p) [0..<20] = None" by (auto simp: find_None_iff)
      then show ?thesis using False skip assms unfolding js by (simp add: pdma_consts)
    qed
  qed
qed

datatype chn_op = AllocChn u32 | FreeChn u32

definition chn_op_step :: "u32 \<Rightarrow> chn_op \<Rightarrow> pdma \<Rightarrow> (pdma \<times> int) res" where
  "chn_op_step freq x p = (case x of AllocChn ty \<Rightarrow> nu_pdma_channel_allocate freq ty p | FreeChn ch \<Rightarrow> nu_pdma_channel_free ch p)"

text \<open>The specification: the set of the channels in use.\<close>

definition chn_spec :: "chn_op \<Rightarrow> nat set \<Rightarrow> (nat set \<times> int) option" where
  "chn_spec x U = (case x of
     AllocChn ty \<Rightarrow> Some (if nu_pdma_peripheral_set ty = None then (U, - RT_ERROR)
       else case find (\<lambda>c. c \<notin> U) [0..<PDMA_CNT * PDMA_CH_MAX] of None \<Rightarrow> (U, - RT_ERROR) | Some c \<Rightarrow> (insert c U, int c))
   | FreeChn ch \<Rightarrow>
       if unat ch < PDMA_CNT * PDMA_CH_MAX
       then Some (if unat ch \<in> U then (U - {unat ch}, RT_EOK) else (U, - RT_EINVAL)) else None)"

definition chn_rel :: "pdma \<Rightarrow> nat set \<Rightarrow> bool" where
  "chn_rel p U \<longleftrightarrow> (if nu_pdma_inited p then pdma_ready p \<and> pdma_used p = U else U = {})"

lemma allocate_spec:
  assumes "pdma_ready p"
  shows "\<exists>p'. nu_pdma_channel_allocate freq ty p = Inr (p', snd (the (chn_spec (AllocChn ty) (pdma_used p)))) \<and> pdma_ready p'
    \<and> pdma_used p' = fst (the (chn_spec (AllocChn ty) (pdma_used p)))"
proof (cases "nu_pdma_peripheral_set ty")
  case None
  then show ?thesis using assms by (simp add: nu_pdma_channel_allocate_def nu_pdma_init_def pdma_ready_def chn_spec_def)
next
  case (Some idx)
  have i: "nu_pdma_init p = p" using assms by (simp add: nu_pdma_init_def pdma_ready_def)
  show ?thesis using allocate_in_spec [OF assms, of freq idx] Some
    by (cases "find (\<lambda>c. c \<notin> pdma_used p) [0..<PDMA_CNT * PDMA_CH_MAX]") (auto simp: nu_pdma_channel_allocate_def i chn_spec_def)
qed

lemma free_spec:
  assumes "pdma_ready p" "unat ch < PDMA_CNT * PDMA_CH_MAX"
  shows "\<exists>p'. nu_pdma_channel_free ch p = Inr (p', if unat ch \<in> pdma_used p then RT_EOK else - RT_EINVAL) \<and> pdma_ready p'
    \<and> pdma_used p' = pdma_used p - {unat ch}"
proof (cases "unat ch \<in> pdma_used p")
  case True
  define p' where "p' = nu_pdma_channel_disable ch (upd_mask (NU_PDMA_GET_MOD_IDX ch) (\<lambda>k. k AND NOT (bit_of (NU_PDMA_GET_MOD_CHIDX ch))) p)"
  have m: "NU_PDMA_GET_MOD_IDX ch < PDMA_CNT" "NU_PDMA_GET_MOD_CHIDX ch < PDMA_CH_MAX"
    "NU_PDMA_GET_MOD_CHIDX ch + NU_PDMA_GET_MOD_IDX ch * PDMA_CH_MAX = unat ch"
    using assms(2) by (auto simp: NU_PDMA_GET_MOD_IDX_def NU_PDMA_GET_MOD_CHIDX_def pdma_consts)
  have k: "nu_pdma_chn_mask_arr p' = (nu_pdma_chn_mask_arr p)(NU_PDMA_GET_MOD_IDX ch :=
      nu_pdma_chn_mask_arr p (NU_PDMA_GET_MOD_IDX ch) AND NOT (bit_of (NU_PDMA_GET_MOD_CHIDX ch)))" "nu_pdma_inited p' = nu_pdma_inited p"
    by (simp_all add: p'_def nu_pdma_channel_disable_def)
  have "pdma_used p' = pdma_used p - {unat ch}" using mask_clear_used [OF m(1,2) k(1)] m(3) by simp
  moreover have "pdma_ready p'" using assms(1) m(2) by (auto simp: pdma_ready_def k bit_and_iff bit_not_iff)
  moreover have "nu_pdma_channel_free ch p = Inr (p', RT_EOK)"
    using assms True by (simp add: nu_pdma_channel_free_def nonallocated_eq p'_def pdma_ready_def)
  ultimately show ?thesis using True by simp
next
  case False
  then show ?thesis using assms by (simp add: nu_pdma_channel_free_def nonallocated_eq pdma_ready_def)
qed

interpretation chn_sim: simulation "chn_op_step freq" chn_spec chn_rel for freq
proof
  fix p U x U' y
  assume rel: "chn_rel p U" and sp: "chn_spec x U = Some (U', y)"
  show "\<exists>p'. chn_op_step freq x p = Inr (p', y) \<and> chn_rel p' U'"
  proof (cases x)
    case (AllocChn ty)
    define q where "q = nu_pdma_init p"
    have q: "pdma_ready q" "pdma_used q = U"
      using rel pdma_init_frame [of p] by (auto simp: chn_rel_def q_def nu_pdma_init_def split: if_splits)
    have "nu_pdma_channel_allocate freq ty p = nu_pdma_channel_allocate freq ty q"
      by (simp add: nu_pdma_channel_allocate_def q_def nu_pdma_init_def Let_def)
    then show ?thesis using allocate_spec [OF q(1), of freq ty] q(2) sp AllocChn
      by (auto simp: chn_op_step_def chn_rel_def pdma_ready_def)
  next
    case (FreeChn ch)
    then have ch: "unat ch < PDMA_CNT * PDMA_CH_MAX" using sp by (auto simp: chn_spec_def split: if_splits)
    show ?thesis
    proof (cases "nu_pdma_inited p")
      case True
      then show ?thesis using free_spec [of p ch] ch rel sp FreeChn
        by (auto simp: chn_op_step_def chn_rel_def chn_spec_def pdma_ready_def split: if_splits)
    next
      case False
      then show ?thesis using ch rel sp FreeChn by (simp add: chn_op_step_def chn_rel_def chn_spec_def nu_pdma_channel_free_def)
    qed
  qed
qed

text \<open>
  C13. Every DMA channel has one user. From the start of the driver on, any sequence of \<open>nu_pdma_channel_allocate\<close> and
  \<open>nu_pdma_channel_free\<close> on channel numbers below 20 answers as a set of channels in use: allocation for a known peripheral
  gives the lowest channel that is in no one's use, or an error when all twenty are in use, and releasing a channel
  that is not in use is refused.
\<close>

theorem pdma_channels_exclusive:
  assumes "\<not> nu_pdma_inited p" and "spec_runs chn_spec xs {} = Some (U, outs)"
  shows "\<exists>p'. runs (chn_op_step freq) xs p = Inr (p', outs) \<and> (if nu_pdma_inited p' then pdma_used p' = U else U = {})"
proof -
  have "chn_rel p {}" using assms(1) by (simp add: chn_rel_def)
  from chn_sim.runs_sim [OF this assms(2)] obtain p' where "runs (chn_op_step freq) xs p = Inr (p', outs)" "chn_rel p' U" by blast
  then show ?thesis by (intro exI [of _ p']) (auto simp: chn_rel_def)
qed

definition pdma_start :: pdma where
  "pdma_start = \<lparr>hw = \<lparr>modules = (\<lambda>_. \<lparr>CHCTL = 0, CHRST = [], SWREQ = [], INTEN = 0, TOUTPSC = 0, TOUTPSC1 = 0, TOUTEN = 0, TOUTIEN = 0,
       REQSEL = (\<lambda>_. 0), TOC = (\<lambda>_. 0), ASOCR = (\<lambda>_. 0), STCR = (\<lambda>_. 0), AICTL = (\<lambda>_. 0), RCNT = (\<lambda>_. 0), status_clears = []\<rparr>),
       descs = (\<lambda>_. \<lparr>DSCT_CTL = 0, DSCT_SA = 0, DSCT_DA = 0, DSCT_NEXT = 0\<rparr>)\<rparr>,
     nu_pdma_inited = False, nu_pdma_chn_mask_arr = (\<lambda>_. 0), nu_pdma_chn_arr = (\<lambda>_. zero_chn), events = []\<rparr>"

theorem pdma_channels_exclusive_witness:
  "\<exists>p. runs (chn_op_step 24000000) [AllocChn 0, AllocChn 4, AllocChn 1, FreeChn 0, AllocChn 5, FreeChn 7] pdma_start
    = Inr (p, [0, 1, - 1, 0, 0, - 10])"
proof -
  have u: "[0..<20] = 0 # 1 # [2..<20 :: nat]" by (simp add: upt_rec)
  have "spec_runs chn_spec [AllocChn 0, AllocChn 4, AllocChn 1, FreeChn 0, AllocChn 5, FreeChn 7] {} = Some ({0, 1}, [0, 1, - 1, 0, 0, - 10])"
    by (simp add: chn_spec_def u nu_pdma_peripheral_set_def g_nu_pdma_peripheral_ctl_pool_def pdma_consts insert_commute)
  from pdma_channels_exclusive [OF _ this, of pdma_start 24000000] show ?thesis by (auto simp: pdma_start_def)
qed

subsection \<open>The descriptors of a transfer\<close>

lemma MAX_TXCNT [simp]: "NU_PDMA_MAX_TXCNT = 0x10000"
  by (simp add: NU_PDMA_MAX_TXCNT_def)

lemma drop_push_16: "drop_bit 16 (push_bit 16 (x :: u32)) = take_bit 16 x"
  by (rule bit_eqI) (auto simp: bit_drop_bit_eq bit_push_bit_iff bit_take_bit_iff)

lemma push_16_width: "drop_bit 12 (push_bit 16 (x :: u32)) AND 3 = 0"
proof -
  have e: "(3 :: u32) = mask 2" by (simp add: mask_eq_exp_minus_1)
  show ?thesis unfolding e by (rule bit_eqI) (auto simp: bit_and_iff bit_drop_bit_eq bit_push_bit_iff bit_mask_iff)
qed

lemma take_16_and: "take_bit 16 (x :: u32) AND 0xffff = take_bit 16 x"
proof -
  have e: "(0xffff :: u32) = mask 16" by (simp add: mask_eq_exp_minus_1)
  show ?thesis unfolding e by (simp add: take_bit_eq_mask [symmetric])
qed

text \<open>A descriptor for \<open>n\<close> items counts them, but for 0 the field wraps to 65536.\<close>

lemma desc_value_count: "desc_count (desc_value k width src dst n nxt silent) = take_bit 16 (n - 1) + 1"
  by (cases "m_eMemCtl k")
    (simp_all add: desc_count_def desc_value_def Let_def nu_pdma_channel_memctrl_fill_def drop_bit_and drop_bit_or drop_push_16 take_16_and)

lemma desc_value_count_nat:
  assumes "unat n \<le> 65536"
  shows "unat (desc_count (desc_value k width src dst n nxt silent)) = (if n = 0 then 65536 else unat n)"
proof (cases "n = 0")
  case True
  then show ?thesis by (simp add: desc_value_count mask_eq_exp_minus_1)
next
  case False
  then have "0 < unat n" by (simp add: unat_gt_0)
  then have "unat (n - 1) = unat n - 1" by (simp add: unat_minus_one False)
  then have u: "unat (take_bit 16 (n - 1)) = unat n - 1"
    using assms \<open>0 < unat n\<close> by (simp add: unsigned_take_bit_eq take_bit_nat_eq_self)
  have "unat (take_bit 16 (n - 1) + 1) = unat n"
    using unat_add_lem [of "take_bit 16 (n - 1)" 1] assms \<open>0 < unat n\<close> by (simp add: u)
  then show ?thesis using False by (simp add: desc_value_count)
qed

lemma desc_value_fields [simp]:
  "DSCT_SA (desc_value k width src dst n nxt silent) = src" "DSCT_DA (desc_value k width src dst n nxt silent) = dst"
  "DSCT_NEXT (desc_value k width src dst n nxt silent) = nxt"
  by (simp_all add: desc_value_def Let_def split: prod.split)

lemma desc_value_width:
  assumes "width = 8 \<or> width = 16 \<or> width = 32"
  shows "desc_width (desc_value k width src dst n nxt silent) = width div 8"
  using assms by (cases "m_eMemCtl k")
    (auto simp: desc_width_def desc_value_def Let_def nu_pdma_channel_memctrl_fill_def bit.conj_disj_distrib2 push_16_width and.assoc)

text \<open>Alignment survives the steps of a transfer, also when addresses wrap.\<close>

lemma aligned_add:
  assumes "w = 1 \<or> w = 2 \<or> w = (4 :: u32)" "x mod w = 0" "y mod w = 0"
  shows "(x + y) mod w = 0"
proof -
  have d: "unat w dvd 2 ^ 32" using assms(1) by auto
  have "unat x mod unat w = 0" "unat y mod unat w = 0" using assms(2,3) by (simp_all add: unat_mod [symmetric])
  then have "(unat x + unat y) mod unat w = 0" by (simp add: mod_add_eq [symmetric])
  then have "unat (x + y) mod unat w = 0" using d by (simp add: unat_word_ariths mod_mod_cancel)
  then show ?thesis by (simp add: unat_mod [symmetric] del: unat_eq_zero) (simp only: unat_eq_zero)
qed

lemma desc_setup_ok:
  assumes "unat ch \<in> pdma_used p" "d \<noteq> 0" "width = 8 \<or> width = 16 \<or> width = 32"
    "src mod (width div 8) = 0" "dst mod (width div 8) = 0" "unat n \<le> 65536"
  shows "nu_pdma_desc_setup ch d width src dst n nxt silent p
    = Inr (upd_hw (upd_desc d (\<lambda>_. desc_value (nu_pdma_chn_arr p (unat ch)) width src dst n nxt silent)) p, RT_EOK)"
proof -
  have "unat ch < PDMA_CNT * PDMA_CH_MAX" using assms(1) by (simp add: pdma_used_def)
  moreover have "\<not> 0x10000 < n" using assms(6) by (simp add: word_less_nat_alt)
  ultimately show ?thesis using assms by (auto simp: nu_pdma_desc_setup_def nonallocated_eq)
qed

text \<open>Descriptors that are linked one behind the other, the last one to null, and none back to \<open>h\<close>.\<close>

fun linked :: "(u32 \<Rightarrow> DSCT_T) \<Rightarrow> u32 \<Rightarrow> u32 list \<Rightarrow> bool" where
  "linked ds h [] = True"
| "linked ds h (a # as) = (a \<noteq> 0 \<and> DSCT_NEXT (ds a) = (case as of [] \<Rightarrow> 0 | b # _ \<Rightarrow> b) \<and> h \<notin> set as \<and> linked ds h as)"

lemma clean_linked:
  assumes "linked ds h (a # as)" "h \<noteq> 0"
  shows "while_option (\<lambda>(a, _). a \<noteq> 0) (clean_step ds h) (a, evs) = Some (0, evs @ concat (map (\<lambda>a. clean_desc a (ds a)) (a # as)))"
  using assms
proof (induction as arbitrary: a evs)
  case Nil
  then show ?case by (simp add: while_option_unfold [of _ _ "(a, evs)"] while_option_unfold [of _ _ "(0, _)"] clean_step_def Let_def)
next
  case (Cons b as)
  then have "clean_step ds h (a, evs) = (b, evs @ clean_desc a (ds a))" "a \<noteq> 0" by (auto simp: clean_step_def)
  then show ?case using Cons.IH [of b "evs @ clean_desc a (ds a)"] Cons.prems
    by (simp add: while_option_unfold [of _ _ "(a, evs)"])
qed

lemma clean_chain_linked:
  "linked ds a (a # as) \<Longrightarrow> clean_chain ds a = Some (concat (map (\<lambda>a. clean_desc a (ds a)) (a # as)))"
  using clean_linked [of ds a a as "[]"] by (simp add: clean_chain_def)

text \<open>The descriptor at place \<open>i\<close> of a table of \<open>len\<close> entries, for \<open>n\<close> items from offset \<open>off\<close> on.\<close>

definition nth_desc :: "nu_pdma_chn \<Rightarrow> u32 \<Rightarrow> u32 \<Rightarrow> u32 \<Rightarrow> nu_pdma_memctrl_t \<Rightarrow> u32 list \<Rightarrow> u32 \<Rightarrow> u32 \<Rightarrow> nat \<Rightarrow> DSCT_T" where
  "nth_desc k width src dst ctrl ds n off i =
    (let o' = off + of_nat i * (0x10000 * width div 8); n' = n - of_nat i * 0x10000
     in desc_value k width (if memctl_bit 1 ctrl then src + o' else src) (if memctl_bit 0 ctrl then dst + o' else dst)
          (if Suc i < length ds then 0x10000 else n') (if Suc i < length ds then ds ! Suc i else 0) (Suc i < length ds))"

lemma chain_setup_ok:
  assumes "unat ch \<in> pdma_used p" "width = 8 \<or> width = 16 \<or> width = 32" "src mod (width div 8) = 0" "dst mod (width div 8) = 0"
    "off mod (width div 8) = 0" "0 \<notin> set ds" "distinct ds" "ds \<noteq> []" "length ds = unat n div 65536 + 1"
  shows "\<exists>p'. chain_setup ch width src dst ctrl ds n off p = Inr (p', RT_EOK) \<and> p' = upd_hw (\<lambda>h. hw p') p
    \<and> modules (hw p') = modules (hw p) \<and> (\<forall>a. a \<notin> set ds \<longrightarrow> descs (hw p') a = descs (hw p) a)
    \<and> (\<forall>i < length ds. descs (hw p') (ds ! i) = nth_desc (nu_pdma_chn_arr p (unat ch)) width src dst ctrl ds n off i)"
  using assms(1,5-)
proof (induction ds arbitrary: n off p)
  case (Cons d ds)
  note w = assms(2)
  have w1: "width div 8 = 1 \<or> width div 8 = 2 \<or> width div 8 = (4 :: u32)" using w by auto
  have al: "(src + off) mod (width div 8) = 0" "(dst + off) mod (width div 8) = 0"
    using aligned_add [OF w1] assms(3,4) Cons.prems(2) by simp_all
  let ?k = "nu_pdma_chn_arr p (unat ch)"
  let ?tx = "if 0x10000 < n then 0x10000 else n"
  let ?D = "desc_value ?k width (if memctl_bit 1 ctrl then src + off else src) (if memctl_bit 0 ctrl then dst + off else dst)
    ?tx (if ds = [] then 0 else hd ds) (ds \<noteq> [])"
  define p1 where "p1 = upd_hw (upd_desc d (\<lambda>_. ?D)) p"
  have d: "d \<noteq> 0" "d \<notin> set ds" "0 \<notin> set ds" "distinct ds" using Cons.prems(3,4) by auto
  have tx: "unat ?tx \<le> 65536" by (simp add: word_less_nat_alt)
  have su: "nu_pdma_desc_setup ch d width (if memctl_bit 1 ctrl then src + off else src) (if memctl_bit 0 ctrl then dst + off else dst)
      ?tx (if ds = [] then 0 else hd ds) (ds \<noteq> []) p = Inr (p1, RT_EOK)"
    unfolding p1_def by (rule desc_setup_ok [OF Cons.prems(1) d(1) w _ _ tx]) (use assms(3,4) al in auto)
  show ?case
  proof (cases "ds = []")
    case True
    then have "unat n < 65536" using Cons.prems(6) by simp
    then have "\<not> 0x10000 < n" by (simp add: word_less_nat_alt)
    then show ?thesis using su True
      by (auto simp: Let_def p1_def nth_desc_def upd_hw_def upd_desc_def)
  next
    case False
    then have "65536 \<le> unat n" using Cons.prems(6) by (cases ds) auto
    then have big: "0x10000 \<le> n" by (simp add: word_le_nat_alt)
    then have txe: "?tx = 0x10000" by auto
    have n1: "unat (n - 0x10000) = unat n - 65536" using big by (simp add: unat_sub word_le_nat_alt)
    have len: "length ds = unat (n - 0x10000) div 65536 + 1"
      using Cons.prems(6) \<open>65536 \<le> unat n\<close> by (simp add: n1 le_div_geq)
    have off: "(off + 0x10000 * width div 8) mod (width div 8) = 0"
      by (rule aligned_add [OF w1 Cons.prems(2)]) (use w in auto)
    have used: "unat ch \<in> pdma_used p1" using Cons.prems(1) by (simp add: p1_def pdma_used_def)
    from Cons.IH [OF used off d(3,4) False len] obtain p' where p':
      "chain_setup ch width src dst ctrl ds (n - 0x10000) (off + 0x10000 * width div 8) p1 = Inr (p', RT_EOK)"
      "p' = upd_hw (\<lambda>h. hw p') p1" "modules (hw p') = modules (hw p1)" "\<And>a. a \<notin> set ds \<Longrightarrow> descs (hw p') a = descs (hw p1) a"
      "\<And>i. i < length ds \<Longrightarrow> descs (hw p') (ds ! i) = nth_desc (nu_pdma_chn_arr p1 (unat ch)) width src dst ctrl ds (n - 0x10000) (off + 0x10000 * width div 8) i"
      by blast
    have run: "chain_setup ch width src dst ctrl (d # ds) n off p = Inr (p', RT_EOK)"
      unfolding chain_setup.simps Let_def MAX_TXCNT unfolding su unfolding and_then.simps prod.case txe by (simp add: p'(1))
    have D: "descs (hw p') (( d # ds) ! i) = nth_desc ?k width src dst ctrl (d # ds) n off i" if "i < length (d # ds)" for i
    proof (cases i)
      case 0
      then show ?thesis using p'(4) [OF d(2)] False txe by (simp add: p1_def upd_desc_def nth_desc_def hd_conv_nth)
    next
      case (Suc j)
      then have j: "j < length ds" using that by simp
      have "nth_desc ?k width src dst ctrl ds (n - 0x10000) (off + 0x10000 * width div 8) j = nth_desc ?k width src dst ctrl (d # ds) n off (Suc j)"
        by (simp add: nth_desc_def Let_def algebra_simps)
      then show ?thesis using p'(5) [OF j] Suc by (simp add: p1_def)
    qed
    have "p' = upd_hw (\<lambda>h. hw p') p" using p'(2) by (metis (no_types, lifting) p1_def pdma.surjective pdma.update_convs(1) upd_hw_def)
    moreover have "modules (hw p') = modules (hw p)" using p'(3) by (simp add: p1_def upd_desc_def)
    moreover have "descs (hw p') a = descs (hw p) a" if "a \<notin> set (d # ds)" for a
      using p'(4) [of a] that by (simp add: p1_def upd_desc_def)
    ultimately show ?thesis using run D by blast
  qed
qed simp

lemma linked_nth:
  assumes "\<And>i. i < length as \<Longrightarrow> DSCT_NEXT (ds (as ! i)) = (if Suc i < length as then as ! Suc i else 0)"
    "0 \<notin> set as" "h \<notin> set (tl as)"
  shows "linked ds h as"
  using assms
proof (induction as)
  case (Cons a as)
  have "DSCT_NEXT (ds a) = (case as of [] \<Rightarrow> 0 | b # _ \<Rightarrow> b)"
    using Cons.prems(1) [of 0] by (cases as) auto
  moreover have "linked ds h as"
  proof (rule Cons.IH)
    show "DSCT_NEXT (ds (as ! i)) = (if Suc i < length as then as ! Suc i else 0)" if "i < length as" for i
      using Cons.prems(1) [of "Suc i"] that by simp
    show "0 \<notin> set as" using Cons.prems(2) by simp
    show "h \<notin> set (tl as)" using Cons.prems(3) by (cases as) auto
  qed
  ultimately show ?case using Cons.prems(2,3) by simp
qed simp

lemma last_rest:
  "unat (n - of_nat (unat n div 65536) * 0x10000) = unat n mod 65536" for n :: u32
proof -
  have q: "unat n div 65536 * 65536 \<le> unat n" by simp
  have "unat n < 2 ^ 32" using unsigned_less [of n, where 'a = nat] by simp
  then have u: "unat (of_nat (unat n div 65536 * 65536) :: u32) = unat n div 65536 * 65536"
    using q by (intro unat_of_nat_small) (simp add: le_less_trans)
  have "unat (n - of_nat (unat n div 65536 * 65536)) = unat n - unat n div 65536 * 65536"
    using q by (subst unat_sub) (simp_all add: word_le_nat_alt u del: of_nat_mult)
  then show ?thesis by (simp add: minus_div_mult_eq_mod)
qed

text \<open>How many items the descriptor at place \<open>i\<close> of the table for \<open>n\<close> items counts.\<close>

lemma nth_desc_count:
  assumes "i < length ds" "length ds = unat n div 65536 + 1"
  shows "unat (desc_count (nth_desc k width src dst ctrl ds n off i))
    = (if i < unat n div 65536 \<or> 65536 dvd unat n then 65536 else unat n mod 65536)"
proof (cases "Suc i < length ds")
  case True
  then show ?thesis using assms(2) by (simp add: nth_desc_def Let_def desc_value_count_nat)
next
  case False
  then have i: "i = unat n div 65536" using assms by simp
  have r: "unat (n - of_nat i * 0x10000) = unat n mod 65536" unfolding i by (rule last_rest)
  then have "n - of_nat i * 0x10000 = 0 \<longleftrightarrow> 65536 dvd unat n" by (metis dvd_eq_mod_eq_0 unat_eq_zero)
  moreover have "unat (n - of_nat i * 0x10000) \<le> 65536" unfolding r by simp
  ultimately show ?thesis using False r by (simp add: nth_desc_def Let_def desc_value_count_nat i)
qed

lemma sum_counts:
  assumes "length ds = unat n div 65536 + 1"
  shows "(\<Sum>i < length ds. unat (desc_count (nth_desc k width src dst ctrl ds n off i)))
    = unat n + (if 65536 dvd unat n then 65536 else 0)"
proof -
  let ?q = "unat n div 65536"
  have "(\<Sum>i < length ds. unat (desc_count (nth_desc k width src dst ctrl ds n off i)))
      = (\<Sum>i < ?q + 1. if i < ?q \<or> 65536 dvd unat n then 65536 else unat n mod 65536)"
    using assms by (intro sum.cong) (auto simp: nth_desc_count)
  also have "\<dots> = ?q * 65536 + (if 65536 dvd unat n then 65536 else unat n mod 65536)" by simp
  finally show ?thesis by (auto simp: dvd_eq_mod_eq_0 [symmetric] elim!: dvdE)
qed

lemma upd_mod_descs [simp]: "descs (upd_mod m f h) = descs h"
  by (simp add: upd_mod_def)

text \<open>Which channels are in use is in the masks alone.\<close>

lemma pdma_used_simps [simp]:
  "pdma_used (upd_hw f p) = pdma_used p" "pdma_used (p\<lparr>events := e\<rparr>) = pdma_used p" "pdma_used (upd_chn ch g p) = pdma_used p"
  "pdma_used (log v p) = pdma_used p"
  by (simp_all add: pdma_used_def)

lemma pdma_used_less: "c \<in> pdma_used p \<Longrightarrow> c < PDMA_CNT * PDMA_CH_MAX"
  by (simp add: pdma_used_def)

lemma timeout_zero:
  "unat ch \<in> pdma_used p \<Longrightarrow> nu_pdma_timeout_set freq ch 0 p
    = Inr (upd_hw (PDMA_DisableTimeout (NU_PDMA_GET_MOD_IDX ch) (bit_of (NU_PDMA_GET_MOD_CHIDX ch))
        \<circ> PDMA_DisableInt (NU_PDMA_GET_MOD_IDX ch) (NU_PDMA_GET_MOD_CHIDX ch) PDMA_INT_TIMEOUT)
        (upd_chn ch (\<lambda>k. k\<lparr>m_u32IdleTimeout_us := 0\<rparr>) p), - RT_EINVAL)"
  by (simp add: nu_pdma_timeout_set_def nonallocated_eq pdma_used_less Let_def)

lemma descs_register [simp]:
  "descs (PDMA_DisableTimeout m b h) = descs h" "descs (PDMA_EnableInt m c PDMA_INT_TRANS_DONE h) = descs h" "descs (PDMA_DisableInt m c PDMA_INT_TIMEOUT h) = descs h"
  "descs (PDMA_Trigger m c h) = descs h"
  by (simp_all add: PDMA_DisableTimeout_def PDMA_EnableInt_def PDMA_DisableInt_def PDMA_Trigger_def Let_def)

lemma scatter_mode: "((x AND - 4) OR 2) AND 3 = (2 :: u32)"
  by (simp add: bit.conj_disj_distrib2 and.assoc)

lemma start_transfer_chain:
  assumes "unat ch \<in> pdma_used p" "linked (descs (hw p)) hd_desc (hd_desc # ds)" "DSCT_NEXT (descs (hw p) hd_desc) \<noteq> 0"
    "DSCT (NU_PDMA_GET_MOD_IDX ch) (NU_PDMA_GET_MOD_CHIDX ch) \<notin> set (hd_desc # ds)"
  shows "\<exists>p'. start_transfer freq ch periph hd_desc 0 p = Inr p' \<and> (\<forall>a \<in> set (hd_desc # ds). descs (hw p') a = descs (hw p) a)
    \<and> DSCT_NEXT (descs (hw p') (DSCT (NU_PDMA_GET_MOD_IDX ch) (NU_PDMA_GET_MOD_CHIDX ch))) = hd_desc
    \<and> DSCT_CTL (descs (hw p') (DSCT (NU_PDMA_GET_MOD_IDX ch) (NU_PDMA_GET_MOD_CHIDX ch))) AND PDMA_DSCT_CTL_OPMODE_Msk = PDMA_OP_SCATTER
    \<and> m_ppsSgtbl (nu_pdma_chn_arr p' (unat ch)) = m_ppsSgtbl (nu_pdma_chn_arr p (unat ch))
    \<and> nu_pdma_chn_mask_arr p' = nu_pdma_chn_mask_arr p"
proof -
  have c: "NU_PDMA_GET_MOD_CHIDX ch < PDMA_CH_MAX" by (simp add: NU_PDMA_GET_MOD_CHIDX_def pdma_consts)
  let ?d = "DSCT (NU_PDMA_GET_MOD_IDX ch) (NU_PDMA_GET_MOD_CHIDX ch)"
  define evs where "evs = concat (map (\<lambda>a. clean_desc a (descs (hw p) a)) (hd_desc # ds))"
  have g: "nu_pdma_get_channel_desc ch (p\<lparr>events := events p @ evs\<rparr>) = Inr (Some ?d)"
    using assms(1) by (simp add: nu_pdma_get_channel_desc_def nonallocated_eq pdma_used_less)
  have cl: "clean_chain (descs (hw p)) hd_desc = Some evs" unfolding evs_def by (rule clean_chain_linked [OF assms(2)])
  show ?thesis
    using assms(1,3,4) c
    by (auto simp: start_transfer_def Let_def cl g timeout_zero PDMA_SetTransferMode_def upd_desc_def scatter_mode
      split: option.split)
qed

lemma length_table: "unat (n div 0x10000 + 1) = unat n div 65536 + 1" for n :: u32
proof -
  have "unat n < 2 ^ 32" using unsigned_less [of n, where 'a = nat] by simp
  then have "unat n div 65536 < 65536" by auto
  then show ?thesis using unat_add_lem [of "n div 0x10000" 1] by (simp add: unat_div)
qed

lemma chain_table_fresh:
  assumes "m_u32WantedSGTblNum (nu_pdma_chn_arr p (unat ch)) = 0" "alloc (unat n div 65536 + 1) = Some ds" "ds \<noteq> []" "0 \<notin> set ds"
  shows "\<exists>p'. chain_table alloc ch n p = Inr (p', RT_EOK) \<and> pdma_used p' = pdma_used p
    \<and> nu_pdma_chn_arr p' (unat ch) = (nu_pdma_chn_arr p (unat ch))\<lparr>m_ppsSgtbl := Some ds, m_u32WantedSGTblNum := n div 0x10000 + 1\<rparr>"
proof -
  have "n div 0x10000 + 1 \<noteq> 0" using length_table [of n] by (metis add_is_0 one_neq_zero unsigned_0)
  then show ?thesis using assms length_table [of n] by (simp add: chain_table_def Let_def nu_pdma_sgtbls_allocate_def)
qed

lemma nth_desc_fields:
  "DSCT_NEXT (nth_desc k width src dst ctrl ds n off i) = (if Suc i < length ds then ds ! Suc i else 0)"
  "DSCT_SA (nth_desc k width src dst ctrl ds n 0 i) = (if memctl_bit 1 ctrl then src + of_nat i * (0x10000 * width div 8) else src)"
  "DSCT_DA (nth_desc k width src dst ctrl ds n 0 i) = (if memctl_bit 0 ctrl then dst + of_nat i * (0x10000 * width div 8) else dst)"
  "width = 8 \<or> width = 16 \<or> width = 32 \<Longrightarrow> desc_width (nth_desc k width src dst ctrl ds n off i) = width div 8"
  by (simp_all only: nth_desc_def Let_def desc_value_fields desc_value_width add_0)

text \<open>
  C15. A transfer of more than 65536 items is split into a list of descriptors. On a channel in use that has no table yet,
  with aligned addresses and memory for the table, \<open>nu_pdma_transfer\<close> links \<open>n div 65536 + 1\<close> descriptors in the order
  of the table, each for the next 65536 items of source and destination as the memory control of the channel says, the
  last one for the rest; the channel is put into scatter-gather mode at the first of them. Together the descriptors
  count \<open>n\<close> items, but 65536 more when \<open>n\<close> is a multiple of 65536: then nothing is left for the last descriptor, and its
  count wraps.
\<close>

theorem pdma_chain_descriptors:
  fixes ch n width src dst :: u32 and p :: pdma
  defines "D \<equiv> DSCT (NU_PDMA_GET_MOD_IDX ch) (NU_PDMA_GET_MOD_CHIDX ch)" and "ctrl \<equiv> m_eMemCtl (nu_pdma_chn_arr p (unat ch))"
  assumes "unat ch \<in> pdma_used p" and "m_u32WantedSGTblNum (nu_pdma_chn_arr p (unat ch)) = 0" and "65536 < unat n"
    and "width = 8 \<or> width = 16 \<or> width = 32" and "src mod (width div 8) = 0" and "dst mod (width div 8) = 0"
    and "alloc (unat n div 65536 + 1) = Some ds" and "length ds = unat n div 65536 + 1" and "distinct ds" and "0 \<notin> set ds"
    and "D \<notin> set ds"
  shows "\<exists>p'. nu_pdma_transfer alloc freq ch width src dst n 0 p = Inr (p', RT_EOK)
    \<and> DSCT_NEXT (descs (hw p') D) = hd ds \<and> DSCT_CTL (descs (hw p') D) AND PDMA_DSCT_CTL_OPMODE_Msk = PDMA_OP_SCATTER
    \<and> (\<forall>i < length ds. DSCT_NEXT (descs (hw p') (ds ! i)) = (if Suc i < length ds then ds ! Suc i else 0)
        \<and> DSCT_SA (descs (hw p') (ds ! i)) = (if memctl_bit 1 ctrl then src + of_nat i * (0x10000 * width div 8) else src)
        \<and> DSCT_DA (descs (hw p') (ds ! i)) = (if memctl_bit 0 ctrl then dst + of_nat i * (0x10000 * width div 8) else dst)
        \<and> desc_width (descs (hw p') (ds ! i)) = width div 8)
    \<and> (\<Sum>i < length ds. unat (desc_count (descs (hw p') (ds ! i)))) = unat n + (if 65536 dvd unat n then 65536 else 0)"
proof -
  note ch = assms(3) and w = assms(6)
  have two: "2 \<le> length ds" using assms(5,10) by simp
  then have ne: "ds \<noteq> []" by auto
  then have hdds: "hd ds # tl ds = ds" by simp
  obtain p1 where p1: "chain_table alloc ch n p = Inr (p1, RT_EOK)" "unat ch \<in> pdma_used p1"
    "nu_pdma_chn_arr p1 (unat ch) = (nu_pdma_chn_arr p (unat ch))\<lparr>m_ppsSgtbl := Some ds, m_u32WantedSGTblNum := n div 0x10000 + 1\<rparr>"
    using chain_table_fresh [of p ch alloc n ds] assms(4,9,12) ne ch by metis
  have take: "take (unat (n div 0x10000 + 1)) ds = ds" using assms(10) by (simp add: length_table)
  let ?N = "nth_desc (nu_pdma_chn_arr p1 (unat ch)) width src dst ctrl ds n 0"
  obtain p2 where p2: "chain_setup ch width src dst ctrl ds n 0 p1 = Inr (p2, RT_EOK)" "p2 = upd_hw (\<lambda>h. hw p2) p1"
    "\<And>i. i < length ds \<Longrightarrow> descs (hw p2) (ds ! i) = ?N i"
    using chain_setup_ok [OF p1(2) w assms(7,8) _ assms(12,11) ne assms(10), of 0 ctrl] by auto
  have p2u: "unat ch \<in> pdma_used p2" "nu_pdma_chn_arr p2 = nu_pdma_chn_arr p1" using p1(2) by (subst p2(2), simp)+
  have "linked (descs (hw p2)) (hd ds) ds"
    by (rule linked_nth) (use p2(3) assms(11,12) hdds in \<open>auto simp: nth_desc_fields distinct.simps(2) [of "hd ds" "tl ds", unfolded hdds]\<close>)
  moreover have "DSCT_NEXT (descs (hw p2) (hd ds)) \<noteq> 0"
  proof -
    have "DSCT_NEXT (descs (hw p2) (ds ! 0)) = ds ! Suc 0" using p2(3) [of 0] two ne by (simp add: nth_desc_fields)
    moreover have "ds ! Suc 0 \<noteq> 0" using two assms(12) by (metis Suc_le_lessD nth_mem numeral_2_eq_2)
    ultimately show ?thesis using ne by (simp add: hd_conv_nth)
  qed
  ultimately obtain p3 where p3: "start_transfer freq ch (m_u32Peripheral (nu_pdma_chn_arr p1 (unat ch))) (hd ds) 0 p2 = Inr p3"
    "\<And>a. a \<in> set ds \<Longrightarrow> descs (hw p3) a = descs (hw p2) a" "DSCT_NEXT (descs (hw p3) D) = hd ds"
    "DSCT_CTL (descs (hw p3) D) AND PDMA_DSCT_CTL_OPMODE_Msk = PDMA_OP_SCATTER"
    using start_transfer_chain [OF p2u(1), of "hd ds" "tl ds" freq] assms(13) unfolding hdds D_def by blast
  have "nu_pdma_transfer_chain alloc freq ch width src dst n 0 p = Inr (p3, RT_EOK)"
    using ch p1(1,3) p2(1) p3(1) assms(10) take
    by (simp add: nu_pdma_transfer_chain_def nu_pdma_channel_memctrl_get_def nonallocated_eq pdma_used_less ctrl_def Let_def length_table)
  moreover have "0x10000 < n" "n \<noteq> 0" using assms(5) by (auto simp: word_less_nat_alt)
  ultimately have run: "nu_pdma_transfer alloc freq ch width src dst n 0 p = Inr (p3, RT_EOK)"
    using ch by (simp add: nu_pdma_transfer_def nonallocated_eq pdma_used_less)
  have N: "descs (hw p3) (ds ! i) = ?N i" if "i < length ds" for i using p2(3) p3(2) that by simp
  have "(\<Sum>i < length ds. unat (desc_count (descs (hw p3) (ds ! i)))) = unat n + (if 65536 dvd unat n then 65536 else 0)"
    unfolding sum_counts [OF assms(10), symmetric, of "nu_pdma_chn_arr p1 (unat ch)" width src dst ctrl 0] by (rule sum.cong) (simp_all add: N)
  moreover have "DSCT_NEXT (descs (hw p3) (ds ! i)) = (if Suc i < length ds then ds ! Suc i else 0)
        \<and> DSCT_SA (descs (hw p3) (ds ! i)) = (if memctl_bit 1 ctrl then src + of_nat i * (0x10000 * width div 8) else src)
        \<and> DSCT_DA (descs (hw p3) (ds ! i)) = (if memctl_bit 0 ctrl then dst + of_nat i * (0x10000 * width div 8) else dst)
        \<and> desc_width (descs (hw p3) (ds ! i)) = width div 8" if "i < length ds" for i
    unfolding N [OF that] using w by (intro conjI nth_desc_fields)
  ultimately show ?thesis using run p3(3,4) by blast
qed

text \<open>Memory for three descriptors, and a transfer of 131072 words: the descriptors count 196608.\<close>

theorem pdma_chain_descriptors_witness:
  "\<exists>p'. nu_pdma_transfer (\<lambda>_. Some [0x80000000, 0x80000040, 0x80000080]) 24000000 3 32 0x1000 0x2000 131072 0
      (pdma_start\<lparr>nu_pdma_chn_mask_arr := (\<lambda>_. 8)\<rparr>) = Inr (p', 0)
    \<and> (\<Sum>i < 3. unat (desc_count (descs (hw p') ([0x80000000, 0x80000040, 0x80000080] ! i)))) = 196608"
proof -
  let ?p = "pdma_start\<lparr>nu_pdma_chn_mask_arr := (\<lambda>_. 8)\<rparr>" and ?ds = "[0x80000000, 0x80000040, 0x80000080] :: u32 list"
  have "bit (8 :: u32) 3" by code_simp
  then have u: "unat (3 :: u32) \<in> pdma_used ?p" by (simp add: pdma_used_def pdma_consts)
  have D: "DSCT (NU_PDMA_GET_MOD_IDX 3) (NU_PDMA_GET_MOD_CHIDX 3) \<notin> set ?ds" by code_simp
  have c: "m_u32WantedSGTblNum (nu_pdma_chn_arr ?p (unat (3 :: u32))) = 0" by (simp add: pdma_start_def zero_chn_def)
  obtain p' where "nu_pdma_transfer (\<lambda>_. Some ?ds) 24000000 3 32 0x1000 0x2000 131072 0 ?p = Inr (p', RT_EOK)"
    "(\<Sum>i < length ?ds. unat (desc_count (descs (hw p') (?ds ! i)))) = unat (131072 :: u32) + (if 65536 dvd unat (131072 :: u32) then 65536 else 0)"
    using pdma_chain_descriptors [OF u c _ _ _ _ _ _ _ _ D, where n = 131072 and width = 32 and src = "0x1000" and dst = "0x2000"
      and alloc = "\<lambda>_. Some ?ds" and freq = 24000000] by force
  then show ?thesis by (intro exI [of _ p']) (simp add: numeral_3_eq_3)
qed

subsection \<open>Serving an interrupt\<close>

text \<open>The channels of a list one after the other, as long as none fails.\<close>

fun serve_all :: "(nat \<Rightarrow> pdma \<Rightarrow> pdma res) \<Rightarrow> nat list \<Rightarrow> pdma \<Rightarrow> pdma res" where
  "serve_all serve [] p = Inr p"
| "serve_all serve (i # js) p = and_then (serve i p) (serve_all serve js)"

lemma filter_lowest:
  assumes "i < n" "P i" "\<And>j. j < i \<Longrightarrow> \<not> P j"
  shows "filter P [0..<n] = i # filter (\<lambda>j. P j \<and> j \<noteq> i) [0..<n]"
proof -
  have u: "[0..<n] = [0..<i] @ i # [Suc i..<n]" using assms(1) by (metis le0 less_imp_le_nat upt_conv_Cons upt_add_eq_append le_add_diff_inverse)
  have "filter P [0..<i] = []" "filter (\<lambda>j. P j \<and> j \<noteq> i) [0..<i] = []" using assms(3) by (auto simp: filter_empty_conv)
  moreover have "filter P [Suc i..<n] = filter (\<lambda>j. P j \<and> j \<noteq> i) [Suc i..<n]" by (rule filter_cong) auto
  ultimately show ?thesis using assms(2) unfolding u by simp
qed

lemma isr_loop_serves: "isr_loop serve sts p = serve_all serve (filter (bit sts) [0..<PDMA_CH_MAX]) p"
proof (induction serve sts p rule: isr_loop.induct)
  case (1 serve sts p)
  show ?case
  proof (cases "nu_ctz sts < PDMA_CH_MAX")
    case True
    have "\<not> bit sts j" if "j < nu_ctz sts" for j using that by (cases rule: nu_ctz_cases [of sts]) auto
    then have f: "filter (bit sts) [0..<PDMA_CH_MAX]
        = nu_ctz sts # filter (bit (sts AND NOT (bit_of (nu_ctz sts)))) [0..<PDMA_CH_MAX]"
      using filter_lowest [of "nu_ctz sts" PDMA_CH_MAX "bit sts"] isr_bit [OF True] True
      by (auto simp: bit_and_iff bit_not_iff pdma_consts intro!: filter_cong)
    show ?thesis unfolding f
      using True 1 by (cases "serve (nu_ctz sts) p") (simp_all add: isr_loop.simps [of serve sts p] Let_def)
  next
    case False
    have "\<not> bit sts j" if "j < PDMA_CH_MAX" for j using that False by (cases rule: nu_ctz_cases [of sts]) auto
    then have "filter (bit sts) [0..<PDMA_CH_MAX] = []" by (simp add: filter_empty_conv)
    then show ?thesis using False by (simp add: isr_loop.simps [of serve sts p])
  qed
qed

text \<open>
  C24. The interrupt handler serves exactly the channels that are flagged, each once and lowest first, whatever the
  functions it calls do: those that have finished, were aborted, met an unaligned address or timed out, according to the
  status words it has read. It never loops. Before that it clears a status word, with the value it has read, if the word
  that sums them up has the bit of this word, and the time-outs if there are any. A channel that is flagged in its status word only, because the
  event came between the two reads, is served now and, as its flag stays, once more at the next interrupt.
\<close>

theorem pdma_isr_serves_flagged:
  "nu_pdma_isr call freq m intsts abtsts tdsts unalignsts p =
    serve_all (isr_channel call freq m abtsts tdsts unalignsts (drop_bit 8 (intsts AND 0x3FF00)))
      (filter (\<lambda>i. bit tdsts i \<or> bit abtsts i \<or> bit unalignsts i \<or> bit intsts (i + 8)) [0..<PDMA_CH_MAX])
      (upd_hw (upd_mod m (\<lambda>r. r\<lparr>status_clears := status_clears r
        @ (if bit intsts 0 then [(ABTSTS, abtsts)] else []) @ (if bit intsts 1 then [(TDSTS, tdsts)] else [])
        @ (if bit intsts 2 then [(ALIGN_STS, unalignsts)] else [])
        @ (if intsts AND 0x3FF00 \<noteq> 0 then [(INTSTS, intsts AND 0x3FF00)] else [])\<rparr>)) p)"
proof -
  have r: "push_bit 8 PDMA_CH_Msk = 0x3FF00" by (simp add: PDMA_CH_Msk_def)
  have e: "(0x3FF00 :: u32) = push_bit 8 (mask 10)" by (simp add: mask_eq_exp_minus_1)
  have t: "bit (drop_bit 8 (intsts AND 0x3FF00)) i \<longleftrightarrow> bit intsts (i + 8)" if "i < 10" for i
    unfolding e using that by (simp add: bit_drop_bit_eq bit_and_iff bit_push_bit_iff bit_mask_iff add.commute)
  have f: "filter (bit (drop_bit 8 (intsts AND 0x3FF00) OR tdsts OR abtsts OR unalignsts)) [0..<PDMA_CH_MAX]
      = filter (\<lambda>i. bit tdsts i \<or> bit abtsts i \<or> bit unalignsts i \<or> bit intsts (i + 8)) [0..<PDMA_CH_MAX]"
  proof (rule filter_cong)
    fix i assume "i \<in> set [0..<PDMA_CH_MAX]"
    then have i: "i < 10" by (simp add: pdma_consts)
    show "bit (drop_bit 8 (intsts AND 0x3FF00) OR tdsts OR abtsts OR unalignsts) i
      \<longleftrightarrow> bit tdsts i \<or> bit abtsts i \<or> bit unalignsts i \<or> bit intsts (i + 8)" unfolding bit_or_iff t [OF i] by blast
  qed simp
  have b: "intsts AND 1 \<noteq> 0 \<longleftrightarrow> bit intsts 0" "intsts AND 2 \<noteq> 0 \<longleftrightarrow> bit intsts 1" "intsts AND 4 \<noteq> 0 \<longleftrightarrow> bit intsts 2"
    using and_bit_of [of intsts 0] and_bit_of [of intsts 1] and_bit_of [of intsts 2] by (simp_all add: bit_of_def)
  show ?thesis
    unfolding nu_pdma_isr_def Let_def isr_loop_serves r f b
    by (rule arg_cong [where f = "serve_all _ _"]) (simp add: clear_status_def upd_hw_def upd_mod_def)
qed

subsection \<open>Every actor has one thread\<close>

lemma cto_free_bit: "x \<noteq> - 1 \<Longrightarrow> nu_cto x < 32 \<and> \<not> bit x (nu_cto x)"
  by (rule nu_ctz_cases [of "NOT x"]) (auto simp: nu_cto_def bit_not_iff, metis bit.compl_zero bit.double_compl)

definition pool_count :: "memfun_actors \<Rightarrow> nat" where
  "pool_count a = (case pool_sem a of None \<Rightarrow> 0 | Some k \<Rightarrow> k)"

definition actor_inv :: "nat \<Rightarrow> memfun_actors \<times> (nat \<rightharpoonup> actor_phase) \<Rightarrow> bool" where
  "actor_inv n = (\<lambda>(a, ph). n < 32 \<and> finite (dom ph) \<and> pool_count a + card (dom ph) = n \<and> (pool_sem a = None \<longleftrightarrow> n = 0)
    \<and> (0 < n \<longrightarrow> (\<forall>i < 32. bit (actor_mask a) i \<longleftrightarrow> n \<le> i \<or> (\<exists>t. ph t = Some (Employed i))))
    \<and> (\<forall>t i. ph t = Some (Employed i) \<longrightarrow> i < n)
    \<and> (\<forall>t u i. ph t = Some (Employed i) \<longrightarrow> ph u = Some (Employed i) \<longrightarrow> t = u))"

text \<open>A thread that has taken the semaphore finds an actor.\<close>

lemma actor_free:
  assumes "actor_inv n (a, ph)" "ph t = Some Taken"
  shows "\<exists>i < n. \<not> bit (actor_mask a) i"
proof (rule ccontr)
  assume neg: "\<not> ?thesis"
  have fin: "finite (dom ph)" and t: "t \<in> dom ph" using assms by (auto simp: actor_inv_def)
  then have c: "0 < card (dom ph)" by (auto simp: card_gt_0_iff)
  have "card (dom ph) \<le> n" using assms(1) by (auto simp: actor_inv_def)
  then have n: "0 < n" "n < 32" using c assms(1) by (auto simp: actor_inv_def)
  have "\<exists>u. ph u = Some (Employed i)" if "i < n" for i using neg that n assms(1) by (auto simp: actor_inv_def)
  then obtain f where f: "\<And>i. i < n \<Longrightarrow> ph (f i) = Some (Employed i)" by metis
  have "inj_on f {..<n}" by (rule inj_onI) (metis f actor_phase.inject lessThan_iff option.inject)
  then have "n = card (f ` {..<n})" by (simp add: card_image)
  also have "\<dots> \<le> card (dom ph - {t})" using f fin assms(2) by (intro card_mono) auto
  also have "\<dots> < card (dom ph)" using fin t by (rule card_Diff1_less)
  finally show False using \<open>card (dom ph) \<le> n\<close> by simp
qed

lemma employ_some:
  assumes "actor_inv n (a, ph)" "ph t = Some Taken"
  shows "\<exists>i < n. nu_pdma_memfun_employ a = (a\<lparr>actor_mask := actor_mask a OR bit_of i\<rparr>, Some i) \<and> \<not> bit (actor_mask a) i"
proof -
  obtain i where i: "i < n" "\<not> bit (actor_mask a) i" using actor_free [OF assms] by blast
  have n: "n < 32" using assms(1) by (simp add: actor_inv_def)
  have "actor_mask a \<noteq> - 1" using i n by auto
  from cto_free_bit [OF this] have c: "nu_cto (actor_mask a) < 32" "\<not> bit (actor_mask a) (nu_cto (actor_mask a))" by auto
  have "nu_cto (actor_mask a) < n" using assms(1) c i(1) by (auto simp: actor_inv_def)
  then show ?thesis using c by (intro exI [of _ "nu_cto (actor_mask a)"]) (simp add: nu_pdma_memfun_employ_def Let_def)
qed

lemma actor_step_inv:
  assumes "actor_step x y" "actor_inv n x"
  shows "actor_inv n y"
  using assms
proof (induction rule: actor_step.induct)
  case (no_sem ph t a)
  then show ?case by simp
next
  case (take_sem ph t a k)
  then have "t \<notin> dom ph" by auto
  then show ?case using take_sem by (auto simp: actor_inv_def pool_count_def split: if_splits)
next
  case (employ ph t a a' idx)
  then obtain i where i: "i < n" "a' = a\<lparr>actor_mask := actor_mask a OR bit_of i\<rparr>" "idx = i" "\<not> bit (actor_mask a) i"
    using employ_some [OF employ(3,1)] by auto
  have "insert t (dom ph) = dom ph" using employ(1) by auto
  moreover have free: "ph u \<noteq> Some (Employed i)" for u using i employ(3) by (auto simp: actor_inv_def)
  ultimately show ?case using employ(3) i
    by (auto simp: actor_inv_def pool_count_def bit_or_iff split: if_splits) (metis employ(1) actor_phase.distinct(1) option.inject)
next
  case (no_actor ph t a a')
  then show ?case using employ_some [OF no_actor(3,1)] by auto
next
  case (dismiss ph t idx a)
  have "insert t (dom ph) = dom ph" using dismiss(1) by auto
  moreover have "idx < n" "\<And>u. ph u = Some (Employed idx) \<longleftrightarrow> u = t" using dismiss by (auto simp: actor_inv_def)
  ultimately show ?case using dismiss
    by (auto simp: actor_inv_def pool_count_def memfun_dismiss_def bit_and_iff bit_not_iff split: if_splits)
      (metis dismiss(1) actor_phase.inject option.inject leD)+
next
  case (give_sem ph t a k)
  have "t \<in> dom ph" "dom (ph(t := None)) = dom ph - {t}" using give_sem(1) by auto
  moreover have "0 < card (dom ph)" using give_sem \<open>t \<in> dom ph\<close> by (auto simp: actor_inv_def card_gt_0_iff)
  ultimately show ?case using give_sem
    by (auto simp: actor_inv_def pool_count_def split: if_splits) (metis actor_phase.distinct option.inject)+
qed

lemma actor_steps_inv: "actor_step\<^sup>*\<^sup>* x y \<Longrightarrow> actor_inv n x \<Longrightarrow> actor_inv n y"
  by (induction rule: rtranclp_induct) (auto intro: actor_step_inv)

text \<open>The channels of the first \<open>n\<close> actors are in use, and no two are the same.\<close>

definition actors_ok :: "nat \<Rightarrow> memfun_actors \<Rightarrow> pdma \<Rightarrow> bool" where
  "actors_ok n a p \<longleftrightarrow> (\<forall>i < n. 0 \<le> actor_chn a i \<and> nat (actor_chn a i) \<in> pdma_used p) \<and> inj_on (actor_chn a) {..<n}"

lemma pdma_used_finite: "finite (pdma_used p)"
  by (rule finite_subset [of _ "{..<PDMA_CNT * PDMA_CH_MAX}"]) (auto simp: pdma_used_def)

lemma actor_channels_ok:
  assumes "pdma_ready p" "actors_ok k a p" "k \<le> m"
  shows "\<exists>p' a' n. actor_channels freq [k..<m] (p, a, k) = Inr (p', a', n) \<and> k \<le> n \<and> n \<le> m \<and> actors_ok n a' p'
    \<and> pool_sem a' = pool_sem a \<and> (m - k + card (pdma_used p) \<le> PDMA_CNT * PDMA_CH_MAX \<longrightarrow> n = m)"
  using assms
proof (induction "m - k" arbitrary: k p a)
  case 0
  then show ?case by simp
next
  case (Suc d)
  then have u: "[k..<m] = k # [Suc k..<m]" by (simp add: upt_conv_Cons)
  have ps: "nu_pdma_peripheral_set PDMA_MEM = Some 0" by (simp add: nu_pdma_peripheral_set_def g_nu_pdma_peripheral_ctl_pool_def)
  obtain p1 where p1: "nu_pdma_channel_allocate freq PDMA_MEM p = Inr (p1, snd (the (chn_spec (AllocChn PDMA_MEM) (pdma_used p))))"
    "pdma_ready p1" "pdma_used p1 = fst (the (chn_spec (AllocChn PDMA_MEM) (pdma_used p)))"
    using allocate_spec [OF Suc.prems(1)] by metis
  show ?case
  proof (cases "find (\<lambda>c. c \<notin> pdma_used p) [0..<PDMA_CNT * PDMA_CH_MAX]")
    case None
    then have "nu_pdma_channel_allocate freq PDMA_MEM p = Inr (p1, - RT_ERROR)" "pdma_used p1 = pdma_used p"
      using p1(1,3) ps by (simp_all add: chn_spec_def)
    moreover have "\<not> m - k + card (pdma_used p) \<le> PDMA_CNT * PDMA_CH_MAX"
    proof -
      have "{..<PDMA_CNT * PDMA_CH_MAX} \<subseteq> pdma_used p" using None by (auto simp: find_None_iff)
      from card_mono [OF _ this] have "PDMA_CNT * PDMA_CH_MAX \<le> card (pdma_used p)" by (simp add: pdma_used_finite)
      then show ?thesis using Suc.hyps(2) by simp
    qed
    ultimately show ?thesis using Suc.prems(2,3) unfolding u by (simp add: actors_ok_def inj_on_def)
  next
    case (Some c)
    then have c: "c \<notin> pdma_used p" by (auto simp: find_Some_iff)
    have a: "nu_pdma_channel_allocate freq PDMA_MEM p = Inr (p1, int c)" "pdma_used p1 = insert c (pdma_used p)"
      using p1(1,3) ps Some by (simp_all add: chn_spec_def)
    have "actors_ok (Suc k) (a\<lparr>actor_chn := (actor_chn a)(k := int c), actor_result := (actor_result a)(k := 0),
        actor_sem := (actor_sem a)(k := 0)\<rparr>) p1"
      using Suc.prems(2) c a(2) by (auto simp: actors_ok_def less_Suc_eq inj_on_def) (metis nat_int)
    moreover have "m - Suc k + card (pdma_used p1) = m - k + card (pdma_used p)"
      using Suc.hyps(2) c by (simp add: a(2) pdma_used_finite)
    ultimately show ?thesis using Suc.hyps(1) [OF _ p1(2), of "Suc k"] Suc.hyps(2) a(1) unfolding u by force
  qed
qed

lemma memfun_actor_init_ok:
  assumes "nu_pdma_inited p \<longrightarrow> pdma_ready p" "pool_sem a0 = None"
  shows "\<exists>p' a n. nu_pdma_memfun_actor_init freq p a0 = Inr (p', a) \<and> actor_inv n (a, \<lambda>_. None) \<and> actors_ok n a p' \<and> pool_sem a = (if n = 0 then None else Some n)
    \<and> (\<not> nu_pdma_inited p \<longrightarrow> n = 4)"
proof -
  have r: "pdma_ready (nu_pdma_init p)" using assms(1) pdma_init_frame(1) by (cases "nu_pdma_inited p") (auto simp: nu_pdma_init_def)
  obtain p1 a1 n where n: "actor_channels freq [0..<4] (nu_pdma_init p, a0, 0) = Inr (p1, a1, n)" "n \<le> 4"
    "actors_ok n a1 p1" "pool_sem a1 = None" "4 + card (pdma_used (nu_pdma_init p)) \<le> PDMA_CNT * PDMA_CH_MAX \<longrightarrow> n = 4"
    using actor_channels_ok [OF r, of 0 a0 4 freq] assms(2) by (auto simp: actors_ok_def)
  define a where "a = (if n \<noteq> 0 then a1\<lparr>actor_maxnum := n, actor_mask := NOT (push_bit n 1 - 1), pool_sem := Some n\<rparr> else a1)"
  have "nu_pdma_memfun_actor_init freq p a0 = Inr (p1, a)"
    using n(1) by (auto simp: nu_pdma_memfun_actor_init_def NU_PDMA_MEMFUN_ACTOR_MAX_def Let_def a_def)
  moreover have "actor_inv n (a, \<lambda>_. None)"
    using n(2,4) by (auto simp: actor_inv_def pool_count_def a_def mask_eq_exp_minus_1 [symmetric] push_bit_of_1 bit_not_iff bit_mask_iff)
  moreover have "actors_ok n a p1" "pool_sem a = (if n = 0 then None else Some n)" using n(3,4) by (auto simp: actors_ok_def a_def)
  moreover have "\<not> nu_pdma_inited p \<longrightarrow> n = 4" using n(5) pdma_init_frame(2) [of p] by (simp add: pdma_consts)
  ultimately show ?thesis by blast
qed

text \<open>
  C14. Memory transfers do not share a channel. After \<open>nu_pdma_memfun_actor_init\<close> has set up the actors, in every
  interleaving of the threads in \<open>nu_pdma_memfun\<close>: a thread that gets through the semaphore always employs an actor, so
  that it does not go round the loop again, two threads never have the same actor, and the actors that threads
  have drive different channels, which are in use. If no channel was free for an actor, the semaphore is never
  created and no thread ever gets past it: all of them spin.
\<close>

theorem memfun_actors_exclusive:
  assumes "nu_pdma_inited p \<longrightarrow> pdma_ready p" and "pool_sem a0 = None"
    and "nu_pdma_memfun_actor_init freq p a0 = Inr (p', a)" and "actor_step\<^sup>*\<^sup>* (a, \<lambda>_. None) (b, ph)"
  shows "(ph t = Some Taken \<longrightarrow> (\<exists>b' i. nu_pdma_memfun_employ b = (b', Some i)))
    \<and> (ph t = Some (Employed i) \<longrightarrow> nat (actor_chn a i) \<in> pdma_used p')
    \<and> (ph t = Some (Employed i) \<and> ph u = Some (Employed j) \<and> t \<noteq> u \<longrightarrow> actor_chn a i \<noteq> actor_chn a j)
    \<and> (pool_sem a = None \<longrightarrow> pool_sem b = None \<and> ph t = None)"
proof -
  obtain n where n: "actor_inv n (a, \<lambda>_. None)" "actors_ok n a p'" "pool_sem a = None \<longleftrightarrow> n = 0"
    using memfun_actor_init_ok [OF assms(1,2), of freq] assms(3) by (auto split: if_splits)
  have inv: "actor_inv n (b, ph)" by (rule actor_steps_inv [OF assms(4) n(1)])
  have "pool_sem b = None \<and> ph t = None" if "pool_sem a = None"
    using inv n(3) that by (auto simp: actor_inv_def dom_def)
  then show ?thesis
    using inv employ_some [OF inv, of t] n(2) by (auto simp: actor_inv_def actors_ok_def inj_on_def)
qed

definition actors_start :: memfun_actors where
  "actors_start = \<lparr>actor_chn = (\<lambda>_. 0), actor_result = (\<lambda>_. 0), actor_sem = (\<lambda>_. 0), actor_maxnum = 0, actor_mask = 0, pool_sem = None\<rparr>"

text \<open>Four actors; one thread has one of them, another one has come through the semaphore.\<close>

theorem memfun_actors_exclusive_witness:
  "\<exists>p a b k. nu_pdma_memfun_actor_init 24000000 pdma_start actors_start = Inr (p, a)
    \<and> actor_step\<^sup>*\<^sup>* (a, \<lambda>_. None) (b, [1 \<mapsto> Employed k, 2 \<mapsto> Taken]) \<and> (\<exists>b' i. nu_pdma_memfun_employ b = (b', Some i))"
proof -
  obtain p a where i: "nu_pdma_memfun_actor_init 24000000 pdma_start actors_start = Inr (p, a)"
      "actor_inv 4 (a, \<lambda>_. None)" "pool_sem a = Some 4"
    using memfun_actor_init_ok [of pdma_start actors_start 24000000] by (auto simp: pdma_start_def actors_start_def)
  let ?a1 = "a\<lparr>pool_sem := Some 3\<rparr>"
  have s1: "actor_step (a, \<lambda>_. None) (?a1, [1 \<mapsto> Taken])" using take_sem [of "\<lambda>_. None" 1 a 3] i(3) by (simp add: eval_nat_numeral)
  obtain k m where e: "nu_pdma_memfun_employ ?a1 = (?a1\<lparr>actor_mask := m\<rparr>, Some k)"
    using employ_some [OF actor_step_inv [OF s1 i(2)], of 1] by auto
  let ?b = "a\<lparr>pool_sem := Some 3, actor_mask := m\<rparr>"
  have s2: "actor_step (?a1, [1 \<mapsto> Taken]) (?b, [1 \<mapsto> Employed k])" using employ [OF _ e, of "[1 \<mapsto> Taken]" 1] by simp
  have s3: "actor_step (?b, [1 \<mapsto> Employed k]) (?b\<lparr>pool_sem := Some 2\<rparr>, [1 \<mapsto> Employed k, 2 \<mapsto> Taken])"
    using take_sem [of "[1 \<mapsto> Employed k]" 2 ?b 2] by (simp add: eval_nat_numeral)
  have run: "actor_step\<^sup>*\<^sup>* (a, \<lambda>_. None) (?b\<lparr>pool_sem := Some 2\<rparr>, [1 \<mapsto> Employed k, 2 \<mapsto> Taken])"
    using s1 s2 s3 by (blast intro: converse_rtranclp_into_rtranclp)
  have "\<exists>b' i. nu_pdma_memfun_employ (?b\<lparr>pool_sem := Some 2\<rparr>) = (b', Some i)"
    using memfun_actors_exclusive [OF _ _ i(1) run, of 2] by (simp add: pdma_start_def actors_start_def)
  then show ?thesis using i(1) run by blast
qed

subsection \<open>The copy is complete\<close>

definition copied :: "u32 \<Rightarrow> u32 \<Rightarrow> nat \<Rightarrow> (u32 \<Rightarrow> u8) \<Rightarrow> (u32 \<Rightarrow> u8)" where
  "copied d s k mem = (\<lambda>a. if unat (a - d) < k then mem (s + (a - d)) else mem a)"

text \<open>Two copies of neighbouring ranges are one, when source and destination do not overlap.\<close>

lemma copied_append:
  assumes "c \<le> unat (s - d)" "c \<le> unat (d - s)" "unat off + k \<le> c" "c \<le> 2 ^ 31"
  shows "copied (d + off) (s + off) k (copied d s (unat off) mem) = copied d s (unat off + k) mem"
proof
  fix a
  define x where "x = a - d"
  have a: "a - d = x" "a - (d + off) = x - off" by (simp_all add: x_def algebra_simps)
  have lt: "unat x < 2 ^ 32" using unsigned_less [of x, where 'a = nat] by simp
  show "copied (d + off) (s + off) k (copied d s (unat off) mem) a = copied d s (unat off + k) mem a"
  proof (cases "unat off \<le> unat x")
    case False
    then have "unat (x - off) = unat x + 2 ^ 32 - unat off" by (simp add: unat_sub_if')
    then have "\<not> unat (x - off) < k" using assms(3,4) by simp
    then show ?thesis using False by (simp add: copied_def a)
  next
    case True
    then have o: "unat (x - off) = unat x - unat off" by (simp add: unat_sub word_le_nat_alt)
    show ?thesis
    proof (cases "unat x < unat off + k")
      case True
      have "s - d \<noteq> 0" using assms(1,3) True by auto
      then have "unat s \<noteq> unat d" by (metis right_minus_eq word_unat_eq_iff)
      then have "unat (s - d) + unat (d - s) = 2 ^ 32"
        using unsigned_less [of s, where 'a = nat] unsigned_less [of d, where 'a = nat] by (simp add: unat_sub_if')
      then have "unat (s - d) + unat x < 2 ^ 32" using assms(2,3) True by simp
      then have "unat (s - d + x) = unat (s - d) + unat x" by (subst unat_add_lem [symmetric]) simp
      then have "\<not> unat (s + x - d) < unat off" using assms(1,3) by (simp add: algebra_simps)
      moreover have "unat x - unat off < k" using True \<open>unat off \<le> unat x\<close> by simp
      ultimately show ?thesis using True by (simp add: copied_def a o)
    next
      case False
      then show ?thesis using \<open>unat off \<le> unat x\<close> by (simp add: copied_def a o) auto
    qed
  qed
qed

text \<open>
  A transfer as \<open>nu_pdma_memfun\<close> makes it, of 1 to 65536 items whose width is supported, from and to addresses that are
  aligned to the width, between ranges that do not overlap: it copies, and counts all items. Nothing is said of any other
  transfer: \<open>nu_pdma_transfer\<close> refuses one without items or with an unaligned address, and then \<open>nu_pdma_memfun\<close> does not return.
\<close>

definition dma_copies :: "(u32 \<Rightarrow> u32 \<Rightarrow> u32 \<Rightarrow> u32 \<Rightarrow> (u32 \<Rightarrow> u8) \<Rightarrow> (u32 \<Rightarrow> u8) \<times> u32) \<Rightarrow> bool" where
  "dma_copies memfun \<longleftrightarrow> (\<forall>dest src width n mem. 0 < n \<longrightarrow> unat n \<le> 65536 \<longrightarrow> width \<in> {8, 16, 32}
    \<longrightarrow> src mod (width div 8) = 0 \<longrightarrow> dest mod (width div 8) = 0
    \<longrightarrow> unat n * (unat width div 8) \<le> unat (src - dest) \<longrightarrow> unat n * (unat width div 8) \<le> unat (dest - src)
    \<longrightarrow> memfun dest src width n mem = (copied dest src (unat n * (unat width div 8)) mem, n))"

lemma memcpy_step:
  assumes dma: "dma_copies memfun" and c: "unat count \<le> 65536" "unat count \<le> unat (src - dest)" "unat count \<le> unat (dest - src)"
    and off: "unat off \<le> unat count" and i: "i = 1 \<or> i = 2 \<or> i = 4"
  shows "\<exists>off'. unat off' \<le> unat count \<and> (i = 1 \<longrightarrow> off' = count)
    \<and> memcpy_loop memfun (i # js) dest src off (count - off) (copied dest src (unat off) mem)
      = (if off = count then (copied dest src (unat count) mem, Some count)
         else memcpy_loop memfun js dest src off' (count - off') (copied dest src (unat off') mem))"
proof (cases "off = count")
  case True
  then show ?thesis by (intro exI [of _ count]) simp
next
  case False
  let ?r = "count - off" and ?n = "(count - off) div i"
  have r: "unat ?r = unat count - unat off" using off by (simp add: unat_sub word_le_nat_alt)
  have "0 < unat ?r" using False off r by (metis diff_is_0_eq le_antisym not_gr_zero word_unat_eq_iff)
  then have pos: "0 < ?r" by (simp add: word_less_nat_alt)
  let ?cond = "(src + off) mod i = (dest + off) mod i \<and> (src + off) mod i = 0 \<and> i \<le> RT_ALIGN_DOWN ?r i"
  show ?thesis
  proof (cases ?cond)
    case False
    then have "i \<noteq> 1" using \<open>0 < unat ?r\<close> by (auto simp: RT_ALIGN_DOWN_def word_le_nat_alt)
    moreover have "?cond = False" using False by simp
    ultimately show ?thesis using \<open>off \<noteq> count\<close> off pos
      by (intro exI [of _ off]) (simp only: memcpy_loop.simps Let_def if_True if_False simp_thms)
  next
    case True
    have le: "unat ?n * unat i \<le> unat ?r" by (simp add: unat_div)
    have u: "unat (?n * i) = unat ?n * unat i"
      using le unsigned_less [of ?r, where 'a = nat] by (subst unat_mult_lem [symmetric]) (simp add: le_less_trans)
    have uo: "unat (off + ?n * i) = unat off + unat ?n * unat i"
      unfolding u [symmetric] using le r off c(1) u by (subst unat_add_lem [symmetric]) simp
    have n65: "unat ?n \<le> 65536" using r c(1) i by (auto simp: unat_div intro: div_le_dividend le_trans)
    have w: "i * 8 \<in> {8, 16, 32}" "unat (i * 8) div 8 = unat i" "(i * 8) div 8 = i" using i by auto
    have "i \<le> ?r" using True word_and_le2 [of ?r "NOT (i - 1)"] unfolding RT_ALIGN_DOWN_def by (meson order_trans)
    then have "unat i \<le> unat ?r" "0 < unat i" using i by (auto simp: word_le_nat_alt)
    then have "0 < unat ?n" by (simp add: unat_div div_greater_zero_iff)
    then have n0: "0 < ?n" by (simp add: word_less_nat_alt)
    have al: "(src + off) mod i = 0" "(dest + off) mod i = 0" using True by metis+
    have ov: "unat ?n * unat i \<le> unat (src + off - (dest + off))" "unat ?n * unat i \<le> unat (dest + off - (src + off))"
      using le r c(2,3) by simp_all
    have m: "memfun (dest + off) (src + off) (i * 8) ?n x = (copied (dest + off) (src + off) (unat ?n * unat i) x, ?n)" for x
      by (rule dma [unfolded dma_copies_def, rule_format, of ?n "i * 8" "src + off" "dest + off" x, unfolded w(2,3),
          OF n0 n65 w(1) al ov])
    have app: "copied (dest + off) (src + off) (unat ?n * unat i) (copied dest src (unat off) mem)
        = copied dest src (unat (off + ?n * i)) mem"
      unfolding uo using le r off c by (intro copied_append [of "unat count"]) auto
    have rest: "?r - ?n * i = count - (off + ?n * i)" by simp
    have "unat (off + ?n * i) \<le> unat count" unfolding uo using le r off by simp
    moreover have "i = 1 \<longrightarrow> off + ?n * i = count" by simp
    moreover note al(2)
    moreover have "?cond = True" using True by (rule eqTrueI)
    ultimately show ?thesis using \<open>off \<noteq> count\<close> pos
      by (intro exI [of _ "off + ?n * i"]) (simp only: memcpy_loop.simps Let_def if_True if_False simp_thms m prod.case app rest)
  qed
qed

text \<open>
  C25. \<open>nu_pdma_memcpy\<close> copies every byte and returns the destination, whatever the alignment of the two addresses: words
  while both are aligned to words, then half-words, then the bytes that are left. It asks only for transfers that are not
  empty and whose addresses are aligned to their width, and it needs only that these are carried out. This is for up to
  65536 bytes in ranges that do not overlap.
\<close>

theorem memcpy_copies:
  assumes "dma_copies memfun" and "unat count \<le> 65536" and "unat count \<le> unat (src - dest)" and "unat count \<le> unat (dest - src)"
  shows "nu_pdma_memcpy memfun dest src count mem = (\<lambda>a. if unat (a - dest) < unat count then mem (src + (a - dest)) else mem a, Some dest)"
proof -
  note step = memcpy_step [OF assms]
  have 0: "copied dest src (unat 0) mem = mem" by (simp add: copied_def)
  obtain o1 where o1: "unat o1 \<le> unat count" "memcpy_loop memfun [4, 2, 1] dest src 0 count mem
      = (if 0 = count then (copied dest src (unat count) mem, Some count)
         else memcpy_loop memfun [2, 1] dest src o1 (count - o1) (copied dest src (unat o1) mem))"
    using step [of 0 4 "[2, 1]" mem] unfolding 0 by auto
  obtain o2 where o2: "unat o2 \<le> unat count" "memcpy_loop memfun [2, 1] dest src o1 (count - o1) (copied dest src (unat o1) mem)
      = (if o1 = count then (copied dest src (unat count) mem, Some count)
         else memcpy_loop memfun [1] dest src o2 (count - o2) (copied dest src (unat o2) mem))"
    using step [of o1 2 "[1]" mem] o1(1) by auto
  have o3: "memcpy_loop memfun [1] dest src o2 (count - o2) (copied dest src (unat o2) mem) = (copied dest src (unat count) mem, Some count)"
    using step [of o2 1 "[]" mem] o2(1) by auto
  have "memcpy_loop memfun [4, 2, 1] dest src 0 count mem = (copied dest src (unat count) mem, Some count)"
    unfolding o1(2) o2(2) o3 by simp
  then show ?thesis by (simp add: nu_pdma_memcpy_def copied_def)
qed

text \<open>Transfers that are refused copy nothing here. The addresses are aligned to half-words, and the last byte is left over.\<close>

definition demo_memfun :: "u32 \<Rightarrow> u32 \<Rightarrow> u32 \<Rightarrow> u32 \<Rightarrow> (u32 \<Rightarrow> u8) \<Rightarrow> (u32 \<Rightarrow> u8) \<times> u32" where
  "demo_memfun dest src width n mem =
    (if n = 0 \<or> src mod (width div 8) \<noteq> 0 \<or> dest mod (width div 8) \<noteq> 0 then (mem, 0)
     else (copied dest src (unat n * (unat width div 8)) mem, n))"

theorem memcpy_copies_witness:
  "snd (nu_pdma_memcpy demo_memfun 0x2000 0x1002 11 (\<lambda>a. ucast a)) = Some 0x2000
    \<and> fst (nu_pdma_memcpy demo_memfun 0x2000 0x1002 11 (\<lambda>a. ucast a)) 0x200a = 12"
proof -
  have "dma_copies demo_memfun" unfolding dma_copies_def demo_memfun_def by (auto simp: word_gt_0)
  from memcpy_copies [OF this, of 11 "0x1002" "0x2000" "\<lambda>a. ucast a"] show ?thesis by simp
qed

end
