(* ===== verification/Spec2Isabelle.thy ===== *)
theory Spec2Isabelle
  imports Rt_Ringbuffer Rt_Event Rt_Mailbox Rt_Messagequeue Rt_Close Rt_Smem_Spec Rt_Mempool Rt_Object Rt_Printf Rt_Kmem
    Rt_Completion Rt_Dataqueue Rt_Workqueue Rt_Rbb Nu_Pdma
begin

text \<open>
  \<^bold>\<open>The program.\<close> The repository is a board support package for the Nuvoton MA35D0 around the RT-Thread 5.0
  kernel. This development verifies the kernel in the configuration of \<open>rtconfig.h\<close>, 32-bit ARM, two cores
  (\<open>RT_CPUS_NR\<close>), 32 priorities, 1000 ticks per second, assertions switched on (\<open>RT_DEBUG\<close>), alignment of 64
  bytes, all IPC objects, soft timers, memory pools and the small memory manager as system heap, no signals; the
  IPC of the device layer (\<open>components/drivers/ipc\<close>); and the DMA driver of the MA35.
  A thread is created and started (\<open>thread.c\<close>), stands in the ready table of the scheduler
  (\<open>scheduler.c\<close>, \<open>cpu.c\<close>, \<open>irq.c\<close>), runs on a core, and suspends itself in the waiting list of an IPC object
  (\<open>ipc.c\<close>, \<open>mempool.c\<close>, \<open>completion.c\<close>, \<open>dataqueue.c\<close>) or on its timer (\<open>timer.c\<close>, \<open>clock.c\<close>). Another thread, or the
  tick interrupt, resumes it. A closed thread goes to the defunct list (\<open>idle.c\<close>). Work queues (\<open>workqueue.c\<close>) run
  functions in a thread of their own.

  \<^bold>\<open>State.\<close> \<open>Rt_Kernel\<close> has one record for the kernel: threads, cores, timers, semaphores, mutexes and events
  as functions from numbers to the C structures, and every list of threads (ready lists, waiting lists,
  defunct list) and of timers as a list of numbers, because a thread is in one list at a time. Mailboxes,
  message queues, memory pools, ring buffers, completions, data queues, work queues, the heap, the object containers and
  the DMA controller are records of their own, passed beside the kernel.
  Integers have the width of the source. An operation returns \<open>Inr\<close> a result or \<open>Inl\<close> a fault: a failed
  assertion, a null pointer, an access out of bounds, a corrupted stack, a division by zero, or a loop without end. An
  operation runs with interrupts disabled and is one step; one that suspends its thread is split there, with the code
  after the suspension in a definition ending in \<open>_cont\<close>.

  \<^bold>\<open>Theories.\<close>
  \<^item> \<open>Rt_Prelude\<close>: machine words, faults, \<open>RT_ALIGN\<close>, byte copies, windows of a circular buffer.
  \<^item> \<open>Rt_Fifo\<close>: the interfaces \<open>bounded_fifo\<close> and \<open>bounded_deque\<close>; \<open>Rt_Refine\<close>: the interface \<open>simulation\<close>
    between a component and its specification, and runs of operations.
  \<^item> \<open>Rt_Ringbuffer\<close> (\<open>ringbuffer.c\<close>): the mirror-bit ring buffer. Putting, forced putting, taking and peeking on
    every branch; it refines a bounded queue; a pool below the alignment is written out of bounds.
  \<^item> \<open>Rt_Ffs\<close> (\<open>kservice.c\<close>): the table and the division variants of \<open>__rt_ffs\<close> find the lowest set bit.
  \<^item> \<open>Rt_Scheduler\<close>, \<open>Rt_Sched_Inv\<close> (\<open>scheduler.c\<close>, \<open>cpu.c\<close>, \<open>irq.c\<close>, the context switch of \<open>libcpu\<close>): ready
    tables, the lock of all cores, switches in threads and after interrupts. The invariant \<open>sched_inv\<close> ties
    ready lists, bitmaps, thread states and cores together; a switch takes a thread of the best priority.
  \<^item> \<open>Rt_Timer\<close>, \<open>Rt_Thread\<close>, \<open>Rt_Clock\<close> (\<open>timer.c\<close>, \<open>thread.c\<close>, \<open>clock.c\<close>, the error number of \<open>kservice.c\<close>): ordered
    timer lists across the wrap-around of the tick, sleeping, and the tick interrupt. \<open>timers_wf\<close> is the invariant of
    the lists.
  \<^item> \<open>Rt_Ipc\<close>, \<open>Rt_Wait\<close> (\<open>ipc.c\<close>): waiting lists by arrival or priority behind the interface \<open>wait_order\<close>, timed
    waits, and \<open>kinv\<close>, the invariant of the whole kernel state that every IPC operation keeps. Where the calling core can
    be preempted (\<open>preemptible\<close>), an operation is shown to return, not only to be right if it does.
  \<^item> \<open>Rt_Sem\<close>, \<open>Rt_Mutex\<close>, \<open>Rt_Event\<close>, \<open>Rt_Mailbox\<close>, \<open>Rt_Messagequeue\<close> (\<open>ipc.c\<close>): every operation of these objects
    and its behaviour on every branch; conservation of tokens, priority inheritance, serving of events in
    order, refinement of a queue by the mailbox, safety of all interleavings of the message queue.
  \<^item> \<open>Rt_Close\<close> (\<open>thread.c\<close>, \<open>idle.c\<close>): exit, detach, delete and control of threads, and the defunct list.
  \<^item> \<open>Rt_Smem\<close>, \<open>Rt_Smem_Inv\<close>, \<open>Rt_Smem_Spec\<close> (\<open>mem.c\<close>): the heap as linked headers, its layout as a list of
    blocks, refinement of first fit, fresh memory, contents kept by reallocation.
  \<^item> \<open>Rt_Mempool\<close> (\<open>mempool.c\<close>): pools of blocks of one size with waiting threads; they refine a free list.
  \<^item> \<open>Rt_Object\<close> (\<open>object.c\<close>): the containers of kernel objects, their names and types, and searching them.
  \<^item> \<open>Rt_Printf\<close> (\<open>kservice.c\<close>): formatted output; a text that ends inside the address space is
    written up to the size given and no further, and numbers read back.
  \<^item> \<open>Rt_Kmem\<close> (\<open>kservice.c\<close>): \<open>rt_memset\<close>, \<open>rt_memcpy\<close>, \<open>rt_memmove\<close> and \<open>rt_memcmp\<close>, byte by
    byte in this configuration.
  \<^item> \<open>Rt_Completion\<close>, \<open>Rt_Dataqueue\<close>, \<open>Rt_Workqueue\<close> (\<open>completion.c\<close>, \<open>dataqueue.c\<close>, \<open>workqueue.c\<close>): a rendezvous, a bounded
    queue with threads that wait at both ends, and work that runs at once or after a delay. The worker thread of a
    queue and its users interleave at the call of the work function, and the call-back of a timer between its read of the
    queue and its section under the lock.
  \<^item> \<open>Rt_Rbb\<close> (\<open>ringblk_buf.c\<close>): blocks of bytes in a ring; the live blocks never overlap, and the buffer refines a queue of
    blocks.
  \<^item> \<open>Nu_Bitutil\<close> (\<open>NuUtils/inc/nu_bitutil.h\<close>): counting bits, and byte orders. \<open>Nu_Pdma_Reg\<close> (\<open>StdDriver/src/nu_pdma.c\<close>):
    the registers of the DMA controller. \<open>Nu_Pdma\<close> (\<open>rtt_port/drv_pdma.c\<close>): its driver. Channels have one user, long
    transfers become chains of descriptors, the interrupt handler serves each channel once, and memory copies that
    share four channels exclude each other.

  \<^bold>\<open>Loops.\<close> Loops along lists of the state are structural recursions. \<open>rt_timer_check\<close> and
  \<open>rt_soft_timer_check\<close> take fuel. For \<open>rt_timer_check\<close> one turn for each timer that is due and one more are shown to be enough
  when the timers are those of suspended threads and application timers whose functions leave the kernel alone and that are one-shot or have a
  period above 0; a period of 0 hangs it; \<open>rt_defunct_execute\<close> needs one turn more than there are defunct threads; the completion of a work item
  two turns more than there are threads that wait for it; the loops along heap blocks get a turn for each 64 bytes, of
  which a well-formed heap needs no more. The chain of priority inheritance has fuel 2: a second owner in the chain fails
  an assertion of \<open>rt_thread_suspend\<close>. The loop over the channels in an interrupt terminates because it clears
  a bit in every turn; a walk along DMA descriptors is a \<open>while_option\<close>, and its end is shown for the chains that the
  driver builds.

  \<^bold>\<open>Parameters.\<close> Call-backs of timers, of work items and of the DMA driver, the clean-up of a thread, the allocation of an
  object and the contents of fresh memory are arguments; so are the status words that a DMA interrupt reads and the
  memory transfer of the hardware. Hooks are null unless an application sets them and are left out.
  Signed overflow, which C leaves undefined, wraps as on this machine, and so do addresses, which are words
  of 32 bits; only \<open>Rt_Kmem\<close> numbers the bytes of ranges that lie inside the address space.

  \<^bold>\<open>Not modelled.\<close> The device framework (\<open>device.c\<close>) and the device drivers above it, which dispatch to functions of a
  driver; start-up (\<open>components.c\<close>), which runs tables that the linker builds; the rest of \<open>kservice.c\<close>: console output
  and string functions that this configuration takes from the C library; the pool heap \<open>memheap.c\<close>; slab and signals, which the
  configuration leaves out; the other drivers of the MA35, sequences of register writes whose effect is in hardware
  that is not in the tree; vendored packages, file systems and network stacks.
\<close>

end
